(* ===== verification/Prelude.thy ===== *)
theory Prelude
  imports Main "HOL-Library.Word"
begin

text \<open>
  Shared ground of the development: the errors a kernel or userspace routine can end in, the
  sequencing combinator for fallible code, C's bounded buffers as lists of slots, and the list
  and word lemmas the components use.

  Conventions used everywhere:
  \<^item> a C function that may stop the machine (\<^verbatim>\<open>panic\<close>, \<^verbatim>\<open>assert\<close>), spin forever on a lock it
    already holds, or have undefined behaviour (an access outside an allocation, a null or a
    freed pointer) returns a value of \<open>kerr + 'a\<close>, \<open>Inl\<close> being the failure;
  \<^item> \<^verbatim>\<open>printf\<close>/\<^verbatim>\<open>printk\<close> output is not part of any state and is left out;
  \<^item> \<^verbatim>\<open>kmalloc\<close>/\<^verbatim>\<open>calloc\<close> never return NULL in the callers' models (the out-of-memory branches
    of the callers do not exist in the C code either);
  \<^item> unsigned C integers are words of their width, signed loop counters and signed sizes are
    \<open>int\<close> (signed overflow is undefined in C and is excluded by the bounds the code asserts).
\<close>

unbundle bit_operations_syntax

subsection \<open>Failures and sequencing\<close>

datatype kerr =
    Panic string        \<comment> \<open>\<^verbatim>\<open>panic\<close>, \<^verbatim>\<open>assert\<close>, \<^verbatim>\<open>NotImplemented\<close>, \<^verbatim>\<open>Deprecated\<close>\<close>
  | TaskAssert string   \<comment> \<open>\<^verbatim>\<open>task_assert\<close>: the running task is killed\<close>
  | Deadlock            \<comment> \<open>a spinlock is acquired again by its holder: it spins forever\<close>
  | OutOfBounds         \<comment> \<open>an access outside the allocation\<close>
  | NullDeref           \<comment> \<open>a NULL pointer is dereferenced\<close>
  | UseAfterFree        \<comment> \<open>a freed object is dereferenced\<close>

type_synonym 'a res = "kerr + 'a"

type_synonym u8 = "8 word"
type_synonym u16 = "16 word"
type_synonym u32 = "32 word"
type_synonym u64 = "64 word"

definition ebind :: "'e + 'a \<Rightarrow> ('a \<Rightarrow> 'e + 'b) \<Rightarrow> 'e + 'b" where
  "ebind m f = (case m of Inl e \<Rightarrow> Inl e | Inr x \<Rightarrow> f x)"

definition kassert :: "bool \<Rightarrow> string \<Rightarrow> unit res" where
  "kassert c msg = (if c then Inr () else Inl (Panic msg))"

definition deref :: "'a option \<Rightarrow> 'a res" where
  "deref p = (case p of None \<Rightarrow> Inl NullDeref | Some x \<Rightarrow> Inr x)"

definition load :: "('p \<rightharpoonup> 'a) \<Rightarrow> 'p \<Rightarrow> 'a res" where
  "load h p = (case h p of None \<Rightarrow> Inl UseAfterFree | Some x \<Rightarrow> Inr x)"

definition is_ok :: "'e + 'a \<Rightarrow> bool" where
  "is_ok m = (case m of Inl _ \<Rightarrow> False | Inr _ \<Rightarrow> True)"

lemma ebind_simps [simp]:
  "ebind (Inl e) f = Inl e"
  "ebind (Inr x) f = f x"
  by (simp_all add: ebind_def)

lemma ebind_cong [fundef_cong]:
  "m = m' \<Longrightarrow> (\<And>x. m' = Inr x \<Longrightarrow> f x = g x) \<Longrightarrow> ebind m f = ebind m' g"
  by (cases m') (auto simp: ebind_def)

lemma ebind_eq_Inr: "ebind m f = Inr y \<longleftrightarrow> (\<exists>x. m = Inr x \<and> f x = Inr y)"
  by (cases m) auto

lemma ebind_eq_Inl: "ebind m f = Inl e \<longleftrightarrow> m = Inl e \<or> (\<exists>x. m = Inr x \<and> f x = Inl e)"
  by (cases m) auto

lemma ebind_assoc: "ebind (ebind m f) g = ebind m (\<lambda>x. ebind (f x) g)"
  by (cases m) auto

lemma ebind_InrE:
  assumes "ebind m f = Inr y"
  obtains x where "m = Inr x" "f x = Inr y"
  using assms by (auto simp: ebind_eq_Inr)

lemma kassert_simps [simp]:
  "kassert True msg = Inr ()"
  "kassert False msg = Inl (Panic msg)"
  "kassert c msg = Inr u \<longleftrightarrow> c"
  "kassert c msg = Inl e \<longleftrightarrow> \<not> c \<and> e = Panic msg"
  by (auto simp: kassert_def)

lemma deref_simps [simp]:
  "deref None = Inl NullDeref"
  "deref (Some x) = Inr x"
  "deref p = Inr x \<longleftrightarrow> p = Some x"
  "deref p = Inl e \<longleftrightarrow> p = None \<and> e = NullDeref"
  by (auto simp: deref_def split: option.splits)

lemma load_simps [simp]:
  "h p = Some x \<Longrightarrow> load h p = Inr x"
  "h p = None \<Longrightarrow> load h p = Inl UseAfterFree"
  "load h p = Inr x \<longleftrightarrow> h p = Some x"
  by (auto simp: load_def split: option.splits)

lemma is_ok_simps [simp]:
  "is_ok (Inl e) = False"
  "is_ok (Inr x) = True"
  by (simp_all add: is_ok_def)

lemma is_ok_iff: "is_ok m \<longleftrightarrow> (\<exists>x. m = Inr x)"
  by (cases m) auto

subsection \<open>Lists of slots\<close>

lemma nat_int_add1 [simp]: "nat (int k + 1) = Suc k" "nat (1 + int k) = Suc k"
  by simp_all

text \<open>Reading and writing a heap buffer of known length at a signed index.\<close>

definition buf_read :: "'a list \<Rightarrow> int \<Rightarrow> 'a res" where
  "buf_read b i = (if 0 \<le> i \<and> i < int (length b) then Inr (b ! nat i) else Inl OutOfBounds)"

definition buf_write :: "'a list \<Rightarrow> int \<Rightarrow> 'a \<Rightarrow> 'a list res" where
  "buf_write b i x =
     (if 0 \<le> i \<and> i < int (length b) then Inr (b[nat i := x]) else Inl OutOfBounds)"

lemma buf_read_ok: "0 \<le> i \<Longrightarrow> i < int (length b) \<Longrightarrow> buf_read b i = Inr (b ! nat i)"
  by (simp add: buf_read_def)

lemma buf_write_ok: "0 \<le> i \<Longrightarrow> i < int (length b) \<Longrightarrow> buf_write b i x = Inr (b[nat i := x])"
  by (simp add: buf_write_def)

lemma buf_write_length: "buf_write b i x = Inr b' \<Longrightarrow> length b' = length b"
  by (auto simp: buf_write_def split: if_splits)

lemma take_Suc_update: "k < length b \<Longrightarrow> take (Suc k) (b[k := x]) = take k b @ [x]"
  by (simp add: take_Suc_conv_app_nth)

text \<open>Removing the element at an index, and the first index with a property.\<close>

definition remove_nth :: "nat \<Rightarrow> 'a list \<Rightarrow> 'a list" where
  "remove_nth i xs = take i xs @ drop (Suc i) xs"

lemma length_remove_nth: "i < length xs \<Longrightarrow> length (remove_nth i xs) = length xs - 1"
  by (auto simp: remove_nth_def)

lemma remove_nth_nth:
  "i < length xs \<Longrightarrow> k < length xs - 1 \<Longrightarrow>
   remove_nth i xs ! k = (if k < i then xs ! k else xs ! Suc k)"
  by (auto simp: remove_nth_def nth_append min_def)

lemma set_remove_nth_subset: "set (remove_nth i xs) \<subseteq> set xs"
  by (auto simp: remove_nth_def dest: in_set_takeD in_set_dropD)

lemma remove_nth_0 [simp]: "remove_nth 0 (x # xs) = xs"
  by (simp add: remove_nth_def)

lemma remove_nth_Suc [simp]: "remove_nth (Suc i) (x # xs) = x # remove_nth i xs"
  by (simp add: remove_nth_def)

lemma map_remove_nth: "map f (remove_nth i xs) = remove_nth i (map f xs)"
  by (simp add: remove_nth_def take_map drop_map)

lemma remove_nth_append_left:
  "i < length xs \<Longrightarrow> remove_nth i (xs @ ys) = remove_nth i xs @ ys"
  by (simp add: remove_nth_def)

lemma remove_nth_mid [simp]: "remove_nth (length xs) (xs @ y # ys) = xs @ ys"
  by (simp add: remove_nth_def)

fun first_index :: "('a \<Rightarrow> bool) \<Rightarrow> 'a list \<Rightarrow> nat option" where
  "first_index P [] = None"
| "first_index P (x # xs) = (if P x then Some 0 else map_option Suc (first_index P xs))"

lemma first_index_None: "first_index P xs = None \<longleftrightarrow> (\<forall>x \<in> set xs. \<not> P x)"
  by (induction xs) auto

lemma first_index_Some:
  "first_index P xs = Some i \<longleftrightarrow> i < length xs \<and> P (xs ! i) \<and> (\<forall>j < i. \<not> P (xs ! j))"
proof (induction xs arbitrary: i)
  case Nil
  then show ?case by simp
next
  case (Cons x xs)
  then show ?case
    by (cases i) (auto simp: less_Suc_eq_0_disj)
qed

lemma first_index_remove1:
  "first_index ((=) x) xs = Some i \<Longrightarrow> remove_nth i xs = remove1 x xs"
proof (induction xs arbitrary: i)
  case Nil
  then show ?case by simp
next
  case (Cons y ys)
  then show ?case by (cases "x = y") auto
qed

subsection \<open>Runs of fallible operations\<close>

fun run_ops :: "('o \<Rightarrow> 's \<Rightarrow> 'e + 's) \<Rightarrow> 'o list \<Rightarrow> 's \<Rightarrow> 'e + 's" where
  "run_ops f [] s = Inr s"
| "run_ops f (op # ops) s = ebind (f op s) (run_ops f ops)"

lemma run_ops_append: "run_ops f (xs @ ys) s = ebind (run_ops f xs s) (run_ops f ys)"
  by (induction xs arbitrary: s) (auto simp: ebind_assoc intro: ebind_cong)

text \<open>An invariant that every operation keeps is kept by every run.\<close>

lemma run_ops_inv:
  assumes "\<And>op s s'. I s \<Longrightarrow> f op s = Inr s' \<Longrightarrow> I s'"
  shows "I s \<Longrightarrow> run_ops f ops s = Inr s' \<Longrightarrow> I s'"
proof (induction ops arbitrary: s)
  case Nil
  then show ?case by simp
next
  case (Cons op ops)
  then obtain s1 where "f op s = Inr s1" "run_ops f ops s1 = Inr s'" by (auto simp: ebind_eq_Inr)
  then show ?case using assms [OF Cons.prems(1)] Cons.IH by blast
qed

subsection \<open>Loops that count in a word\<close>

lemma unat_Suc_less: "i < n \<Longrightarrow> unat (i + 1) = Suc (unat i)" for i n :: "'a::len word"
proof -
  assume "i < n"
  then have "unat i < unat n" by (simp only: word_less_nat_alt)
  moreover have "unat n < 2 ^ LENGTH('a)" by (rule unsigned_less)
  ultimately have "Suc (unat i) < 2 ^ LENGTH('a)" by linarith
  then show ?thesis by (simp add: unat_word_ariths)
qed

lemma word_loop_measure: "i < n \<Longrightarrow> unat n - unat (i + 1) < unat n - unat i" for i n :: "'a::len word"
  using unat_Suc_less [of i n] by (simp add: word_less_nat_alt)

lemma word_seek_measure: "i \<noteq> n \<Longrightarrow> unat (n - (i + 1)) < unat (n - i)" for i n :: "'a::len word"
  using measure_unat [of "n - i"] by (simp only: diff_diff_eq right_minus_eq)

end
