(* ===== verification/Array_M.thy ===== *)
theory Array_M
  imports Prelude
begin

text \<open>
  The two bounded pointer arrays of the system: the kernel's \<^verbatim>\<open>kernel/std/array_m.c\<close> (with a
  spinlock) and the userspace \<^verbatim>\<open>libutils/array.c\<close> (without one). Both keep their elements in the
  first \<open>size\<close> slots of a zero-initialised allocation of \<open>max_size\<close> slots. The locale
  \<open>bounded_seq\<close> states what their clients rely on; both arrays interpret it.

  A slot is \<open>None\<close> while it holds the zero word. The lock of an \<open>array_m\<close> is its flag: acquiring a
  flag that is already set spins forever, which is the result \<open>Deadlock\<close>.
\<close>

subsection \<open>The kernel's array\<close>

record 'a array_m =
  am_array :: "'a option list"
  am_size :: int
  am_max_size :: int
  am_lock :: bool

definition array_m_create :: "int \<Rightarrow> 'a array_m" where
  "array_m_create max_size =
     \<lparr>am_array = replicate (nat max_size) None, am_size = 0, am_max_size = max_size,
      am_lock = False\<rparr>"

definition array_m_insert_unlocked :: "'a array_m \<Rightarrow> 'a \<Rightarrow> 'a array_m res" where
  "array_m_insert_unlocked a item =
     ebind (kassert (am_size a + 1 \<le> am_max_size a) ''array would exceed max_size'') (\<lambda>_.
     ebind (buf_write (am_array a) (am_size a) (Some item)) (\<lambda>b.
     Inr (a\<lparr>am_array := b, am_size := am_size a + 1\<rparr>)))"

definition array_m_lookup_unlocked :: "'a array_m \<Rightarrow> int \<Rightarrow> 'a option res" where
  "array_m_lookup_unlocked a i =
     ebind (kassert (i < am_size a \<and> i \<ge> 0) ''index was out of bounds'') (\<lambda>_.
     buf_read (am_array a) i)"

function array_m_index_from :: "'a array_m \<Rightarrow> 'a \<Rightarrow> int \<Rightarrow> int res" where
  "array_m_index_from a item i =
     (if i < am_size a
      then ebind (array_m_lookup_unlocked a i) (\<lambda>x.
           if x = Some item then Inr i else array_m_index_from a item (i + 1))
      else Inr (-1))"
  by pat_completeness auto
termination
  by (relation "measure (\<lambda>(a, _, i). nat (am_size a - i))") auto

declare array_m_index_from.simps [simp del]

definition array_m_index_unlocked :: "'a array_m \<Rightarrow> 'a \<Rightarrow> int res" where
  "array_m_index_unlocked a item = array_m_index_from a item 0"

text \<open>The loop that shifts the tail one slot back: it reads slot \<open>i + 1\<close> for every \<open>i < size\<close>.\<close>

function shift_back :: "'a list \<Rightarrow> int \<Rightarrow> int \<Rightarrow> 'a list res" where
  "shift_back b n i =
     (if i < n
      then ebind (buf_read b (i + 1)) (\<lambda>x.
           ebind (buf_write b i x) (\<lambda>b'. shift_back b' n (i + 1)))
      else Inr b)"
  by pat_completeness auto
termination
  by (relation "measure (\<lambda>(_, n, i). nat (n - i))") auto

declare shift_back.simps [simp del]

definition array_m_remove_unlocked :: "'a array_m \<Rightarrow> int \<Rightarrow> 'a array_m res" where
  "array_m_remove_unlocked a i =
     (if i \<ge> am_size a then Inl (Panic ''Array index is out-of-bounds'')
      else if i < 0 then Inl (Panic ''Negative array index'')
      else ebind (shift_back (am_array a) (am_size a) i) (\<lambda>b.
           Inr (a\<lparr>am_array := b, am_size := am_size a - 1\<rparr>)))"

text \<open>\<^verbatim>\<open>spinlock_acquire\<close>/\<^verbatim>\<open>spinlock_release\<close> on the array's own lock, seen by the CPU that runs.\<close>

definition am_acquire :: "'a array_m \<Rightarrow> 'a array_m res" where
  "am_acquire a = (if am_lock a then Inl Deadlock else Inr (a\<lparr>am_lock := True\<rparr>))"

definition am_release :: "'a array_m \<Rightarrow> 'a array_m" where
  "am_release a = a\<lparr>am_lock := False\<rparr>"

definition array_m_insert :: "'a array_m \<Rightarrow> 'a \<Rightarrow> 'a array_m res" where
  "array_m_insert a item =
     ebind (am_acquire a) (\<lambda>a.
     ebind (array_m_insert_unlocked a item) (\<lambda>a. Inr (am_release a)))"

definition array_m_index :: "'a array_m \<Rightarrow> 'a \<Rightarrow> int res" where
  "array_m_index a item =
     ebind (am_acquire a) (\<lambda>a. array_m_index_unlocked a item)"

definition array_m_lookup :: "'a array_m \<Rightarrow> int \<Rightarrow> 'a option res" where
  "array_m_lookup a i =
     ebind (am_acquire a) (\<lambda>a. array_m_lookup_unlocked a i)"

definition array_m_remove :: "'a array_m \<Rightarrow> int \<Rightarrow> 'a array_m res" where
  "array_m_remove a i =
     ebind (am_acquire a) (\<lambda>a.
     ebind (array_m_remove_unlocked a i) (\<lambda>a. Inr (am_release a)))"

subsection \<open>The userspace array\<close>

record 'a array_t =
  at_array :: "'a option list"
  at_size :: int
  at_max_size :: int

definition array_create :: "int \<Rightarrow> 'a array_t" where
  "array_create max_size =
     \<lparr>at_array = replicate (nat max_size) None, at_size = 0, at_max_size = max_size\<rparr>"

text \<open>An insertion into a full array stores through a NULL pointer before it reaches the assert.\<close>

definition array_insert :: "'a array_t \<Rightarrow> 'a \<Rightarrow> 'a array_t res" where
  "array_insert a item =
     (if at_size a + 1 > at_max_size a then Inl NullDeref
      else ebind (buf_write (at_array a) (at_size a) (Some item)) (\<lambda>b.
           Inr (a\<lparr>at_array := b, at_size := at_size a + 1\<rparr>)))"

definition array_remove :: "'a array_t \<Rightarrow> int \<Rightarrow> 'a array_t res" where
  "array_remove a i =
     (if i \<ge> at_size a then Inl (TaskAssert ''Array index is out-of-bounds'')
      else if i < 0 then Inl (TaskAssert ''Negative array index'')
      else ebind (shift_back (at_array a) (at_size a) i) (\<lambda>b.
           Inr (a\<lparr>at_array := b, at_size := at_size a - 1\<rparr>)))"

definition array_lookup :: "'a array_t \<Rightarrow> int \<Rightarrow> 'a option res" where
  "array_lookup a i =
     (if i < at_size a \<and> i \<ge> 0 then buf_read (at_array a) i
      else Inl (TaskAssert ''index was out of bounds''))"

definition array_set :: "'a array_t \<Rightarrow> int \<Rightarrow> 'a \<Rightarrow> 'a array_t res" where
  "array_set a i item =
     (if i < at_size a \<and> i \<ge> 0
      then ebind (buf_write (at_array a) i (Some item)) (\<lambda>b. Inr (a\<lparr>at_array := b\<rparr>))
      else Inl (TaskAssert ''index was out of bounds''))"

function array_index_from :: "'a array_t \<Rightarrow> 'a \<Rightarrow> int \<Rightarrow> int res" where
  "array_index_from a item i =
     (if i < at_size a
      then ebind (array_lookup a i) (\<lambda>x.
           if x = Some item then Inr i else array_index_from a item (i + 1))
      else Inr (-1))"
  by pat_completeness auto
termination
  by (relation "measure (\<lambda>(a, _, i). nat (at_size a - i))") auto

declare array_index_from.simps [simp del]

definition array_index :: "'a array_t \<Rightarrow> 'a \<Rightarrow> int res" where
  "array_index a item = array_index_from a item 0"

text \<open>
  The loops clients write over an array they do not change meanwhile: upwards from an index, and
  downwards from an index with a body that may \<^verbatim>\<open>break\<close> (first component of its result). The last one is
  the loop that empties an array from its end.
\<close>

function array_foreach :: "'a array_t \<Rightarrow> ('a option \<Rightarrow> 's \<Rightarrow> 's res) \<Rightarrow> int \<Rightarrow> 's \<Rightarrow> 's res" where
  "array_foreach a body i s =
     (if i < at_size a
      then ebind (array_lookup a i) (\<lambda>p. ebind (body p s) (array_foreach a body (i + 1)))
      else Inr s)"
  by pat_completeness auto
termination
  by (relation "measure (\<lambda>(a, _, i, _). nat (at_size a - i))") auto

function array_foreach_down :: "'a array_t \<Rightarrow> ('a option \<Rightarrow> 's \<Rightarrow> (bool \<times> 's) res) \<Rightarrow> int \<Rightarrow> 's \<Rightarrow> 's res" where
  "array_foreach_down a body i s =
     (if i \<ge> 0
      then ebind (array_lookup a i) (\<lambda>p. ebind (body p s) (\<lambda>(stop, s).
           if stop then Inr s else array_foreach_down a body (i - 1) s))
      else Inr s)"
  by pat_completeness auto
termination
  by (relation "measure (\<lambda>(_, _, i, _). nat (i + 1))") auto

function array_remove_down :: "int \<Rightarrow> 'a array_t \<Rightarrow> 'a array_t res" where
  "array_remove_down i a = (if i \<ge> 0 then ebind (array_remove a i) (array_remove_down (i - 1)) else Inr a)"
  by pat_completeness auto
termination
  by (relation "measure (\<lambda>(i, _). nat (i + 1))") auto

declare array_foreach.simps [simp del] array_foreach_down.simps [simp del] array_remove_down.simps [simp del]

subsection \<open>Slots and elements\<close>

text \<open>The elements a buffer of slots holds, and when the first \<open>n\<close> slots are all filled.\<close>

definition slots_list :: "'a option list \<Rightarrow> int \<Rightarrow> 'a list" where
  "slots_list b n = map the (take (nat n) b)"

definition slots_wf :: "'a option list \<Rightarrow> int \<Rightarrow> int \<Rightarrow> bool" where
  "slots_wf b n m \<longleftrightarrow>
     0 \<le> n \<and> n \<le> m \<and> length b = nat m \<and> None \<notin> set (take (nat n) b)"

lemma slots_wf_bounds: "slots_wf b n m \<Longrightarrow> 0 \<le> n \<and> n \<le> m \<and> int (length b) = m"
  by (auto simp: slots_wf_def)

lemma slots_list_length: "slots_wf b n m \<Longrightarrow> length (slots_list b n) = nat n"
  by (auto simp: slots_wf_def slots_list_def)

lemma slots_nth:
  assumes "slots_wf b n m" and "0 \<le> i" and "i < n"
  shows "b ! nat i = Some (slots_list b n ! nat i)"
proof -
  have "nat i < length (take (nat n) b)" using assms by (auto simp: slots_wf_def)
  then have "take (nat n) b ! nat i \<noteq> None"
    using assms(1) by (metis nth_mem slots_wf_def)
  with \<open>nat i < length (take (nat n) b)\<close> show ?thesis
    by (auto simp: slots_list_def)
qed

lemma slots_list_empty [simp]: "slots_list b 0 = []"
  by (simp add: slots_list_def)

lemma slots_insert:
  assumes "slots_wf b n m" and "n < m"
  shows "slots_wf (b[nat n := Some x]) (n + 1) m"
    and "slots_list (b[nat n := Some x]) (n + 1) = slots_list b n @ [x]"
proof -
  from assms have len: "nat n < length b" and n: "nat (n + 1) = Suc (nat n)" and "0 \<le> n"
    by (auto simp: slots_wf_def nat_add_distrib)
  have tk: "take (nat (n + 1)) (b[nat n := Some x]) = take (nat n) b @ [Some x]"
    using len n by (simp add: take_Suc_update)
  show "slots_wf (b[nat n := Some x]) (n + 1) m"
    using assms tk by (auto simp: slots_wf_def)
  show "slots_list (b[nat n := Some x]) (n + 1) = slots_list b n @ [x]"
    by (simp add: slots_list_def tk)
qed

lemma slots_update:
  assumes "slots_wf b n m" and "0 \<le> i" and "i < n"
  shows "slots_wf (b[nat i := Some x]) n m"
    and "slots_list (b[nat i := Some x]) n = (slots_list b n)[nat i := x]"
proof -
  have "set ((take (nat n) b)[nat i := Some x]) \<subseteq> insert (Some x) (set (take (nat n) b))"
    by (rule set_update_subset_insert)
  then show "slots_wf (b[nat i := Some x]) n m"
    using assms by (auto simp: slots_wf_def take_update_swap)
  show "slots_list (b[nat i := Some x]) n = (slots_list b n)[nat i := x]"
    by (simp add: slots_list_def take_update_swap map_update)
qed

text \<open>
  What the shifting loop does to the buffer: everything from \<open>i\<close> moves one slot back; it needs
  the slot at index \<open>size\<close> to exist.
\<close>

lemma shift_back_ok:
  assumes "0 \<le> i" and "i \<le> n" and "n < int (length b)"
  shows "shift_back b n i =
    Inr (take (nat i) b @ take (nat (n - i)) (drop (Suc (nat i)) b) @ drop (nat n) b)"
  using assms
proof (induction b n i rule: shift_back.induct)
  case (1 b n i)
  show ?case
  proof (cases "i < n")
    case True
    define k where "k = nat i"
    define r where "r = nat (n - (i + 1))"
    have k: "i = int k" "k < length b" "Suc k < length b" using "1.prems" True by (auto simp: k_def)
    have r: "nat (n - i) = Suc r" "nat n = Suc (k + r)" "nat (i + 1) = Suc k"
      using "1.prems" True k by (auto simp: r_def)
    let ?b = "b[k := b ! Suc k]"
    have rd: "buf_read b (i + 1) = Inr (b ! Suc k)"
      using k "1.prems" True by (simp add: buf_read_ok r)
    have wr: "buf_write b i (b ! Suc k) = Inr ?b"
      using k by (simp add: buf_write_ok)
    have "shift_back b n i = shift_back ?b n (i + 1)"
      using True rd wr by (simp add: shift_back.simps [of b n i])
    also have "\<dots> = Inr (take (nat (i + 1)) ?b @
        take (nat (n - (i + 1))) (drop (Suc (nat (i + 1))) ?b) @ drop (nat n) ?b)"
      using "1.IH" [OF True rd wr] "1.prems" True by simp
    also have "take (nat (i + 1)) ?b = take k b @ [b ! Suc k]"
      using k r by (simp add: take_Suc_update)
    also have "drop (Suc (nat (i + 1))) ?b = drop (Suc (Suc k)) b"
      using r by simp
    also have "drop (nat n) ?b = drop (nat n) b"
      using r by simp
    finally have "shift_back b n i =
        Inr (take k b @ (b ! Suc k # take r (drop (Suc (Suc k)) b)) @ drop (nat n) b)"
      by (simp add: r_def)
    also have "b ! Suc k # take r (drop (Suc (Suc k)) b) = take (nat (n - i)) (drop (Suc k) b)"
      using k r by (simp add: Cons_nth_drop_Suc [symmetric])
    finally show ?thesis by (simp add: k_def)
  next
    case False
    then have "i = n" using "1.prems" by simp
    then show ?thesis by (simp add: shift_back.simps [of b n n])
  qed
qed

lemma slots_remove:
  assumes "slots_wf b n m" and "0 \<le> i" and "i < n" and "n < m"
  shows "\<exists>b'. shift_back b n i = Inr b' \<and> slots_wf b' (n - 1) m
     \<and> slots_list b' (n - 1) = remove_nth (nat i) (slots_list b n)"
proof -
  define k N where "k = nat i" and "N = nat n"
  from assms have i: "i = int k" and n: "n = int N" and kN: "k < N" and N: "N < length b"
    and len: "length b = nat m"
    by (auto simp: k_def N_def slots_wf_def)
  have diffs: "nat (n - i) = N - k" "nat (n - 1) = N - 1"
    using i n kN by auto
  define b' where "b' = take k b @ take (N - k) (drop (Suc k) b) @ drop N b"
  have sb: "shift_back b n i = Inr b'"
    unfolding b'_def using shift_back_ok [of i n b] i n kN N diffs by simp
  from kN obtain M where M: "N = Suc M" "k \<le> M" by (cases N) auto
  have "take (N - 1) b' = take k b @ take (N - Suc k) (drop (Suc k) b)"
    using M N by (simp add: b'_def min.absorb1 min.absorb2 Suc_diff_le)
  also have "\<dots> = remove_nth k (take N b)"
    using kN by (simp add: remove_nth_def drop_take min_def)
  finally have tk: "take (nat (n - 1)) b' = remove_nth k (take (nat n) b)"
    using diffs n by simp
  have "length b' = length b"
    using kN N by (simp add: b'_def)
  moreover have "None \<notin> set (take (nat (n - 1)) b')"
    unfolding tk using assms(1) set_remove_nth_subset by (fastforce simp: slots_wf_def)
  ultimately have "slots_wf b' (n - 1) m"
    using assms len by (auto simp: slots_wf_def)
  moreover have "slots_list b' (n - 1) = remove_nth (nat i) (slots_list b n)"
    unfolding slots_list_def tk using i by (simp add: map_remove_nth)
  ultimately show ?thesis using sb by blast
qed

text \<open>On a buffer with every slot in use the loop reads one slot past the allocation.\<close>

lemma shift_back_full:
  assumes "0 \<le> i" and "i < n" and "n = int (length b)"
  shows "shift_back b n i = Inl OutOfBounds"
  using assms
proof (induction b n i rule: shift_back.induct)
  case (1 b n i)
  show ?case
  proof (cases "i + 1 < n")
    case True
    then have rd: "buf_read b (i + 1) = Inr (b ! nat (i + 1))"
      and wr: "buf_write b i (b ! nat (i + 1)) = Inr (b[nat i := b ! nat (i + 1)])"
      using "1.prems" by (auto simp: buf_read_ok buf_write_ok)
    have "shift_back (b[nat i := b ! nat (i + 1)]) n (i + 1) = Inl OutOfBounds"
      by (rule "1.IH" [OF _ rd wr]) (use "1.prems" True in auto)
    then show ?thesis using \<open>i < n\<close> rd wr by (simp add: shift_back.simps [of b n i])
  next
    case False
    then have "buf_read b (i + 1) = Inl OutOfBounds"
      using "1.prems" by (simp add: buf_read_def)
    then show ?thesis using \<open>i < n\<close> by (simp add: shift_back.simps [of b n i])
  qed
qed

subsection \<open>What the arrays promise\<close>

text \<open>
  The interface: a bounded sequence. A removal needs a free slot behind the elements, because
  the shifting loop reads one slot further than it should; removing from a full sequence fails.
\<close>

locale bounded_seq =
  fixes inv :: "'arr \<Rightarrow> bool"
    and elems :: "'arr \<Rightarrow> 'a list"
    and cap :: "'arr \<Rightarrow> nat"
    and ins :: "'arr \<Rightarrow> 'a \<Rightarrow> 'arr res"
    and get :: "'arr \<Rightarrow> int \<Rightarrow> 'a option res"
    and del :: "'arr \<Rightarrow> int \<Rightarrow> 'arr res"
    and idx :: "'arr \<Rightarrow> 'a \<Rightarrow> int res"
  assumes within: "inv a \<Longrightarrow> length (elems a) \<le> cap a"
    and ins_ok: "inv a \<Longrightarrow> length (elems a) < cap a \<Longrightarrow>
      \<exists>a'. ins a x = Inr a' \<and> inv a' \<and> elems a' = elems a @ [x] \<and> cap a' = cap a"
    and ins_full: "inv a \<Longrightarrow> length (elems a) = cap a \<Longrightarrow> \<exists>e. ins a x = Inl e"
    and get_ok: "inv a \<Longrightarrow> i < length (elems a) \<Longrightarrow> get a (int i) = Inr (Some (elems a ! i))"
    and get_out: "inv a \<Longrightarrow> j < 0 \<or> int (length (elems a)) \<le> j \<Longrightarrow> \<exists>e. get a j = Inl e"
    and del_ok: "inv a \<Longrightarrow> i < length (elems a) \<Longrightarrow> length (elems a) < cap a \<Longrightarrow>
      \<exists>a'. del a (int i) = Inr a' \<and> inv a' \<and> elems a' = remove_nth i (elems a) \<and> cap a' = cap a"
    and del_full: "inv a \<Longrightarrow> i < length (elems a) \<Longrightarrow> length (elems a) = cap a \<Longrightarrow>
      \<exists>e. del a (int i) = Inl e"
    and del_out: "inv a \<Longrightarrow> j < 0 \<or> int (length (elems a)) \<le> j \<Longrightarrow> \<exists>e. del a j = Inl e"
    and idx_ok: "inv a \<Longrightarrow>
      idx a x = Inr (case first_index ((=) x) (elems a) of None \<Rightarrow> -1 | Some i \<Rightarrow> int i)"
begin

lemma ins_dest:
  assumes "inv a" and "ins a x = Inr a'"
  shows "inv a' \<and> elems a' = elems a @ [x] \<and> cap a' = cap a \<and> length (elems a) < cap a"
proof -
  have "length (elems a) < cap a"
    using within [OF assms(1)] ins_full [OF assms(1), of x] assms(2) by fastforce
  then show ?thesis using ins_ok [OF assms(1), of x] assms(2) by auto
qed

lemma get_dest:
  assumes "inv a" and "get a i = Inr p"
  shows "0 \<le> i \<and> nat i < length (elems a) \<and> p = Some (elems a ! nat i)"
proof -
  have i: "0 \<le> i" "i < int (length (elems a))"
    using get_out [OF assms(1), of i] assms(2) by fastforce+
  then show ?thesis using get_ok [OF assms(1), of "nat i"] assms(2) by (auto simp: nat_less_iff)
qed

lemma del_dest:
  assumes "inv a" and "del a i = Inr a'"
  shows "0 \<le> i \<and> nat i < length (elems a) \<and> length (elems a) < cap a \<and> inv a'
    \<and> elems a' = remove_nth (nat i) (elems a) \<and> cap a' = cap a"
proof -
  have i: "0 \<le> i" "i < int (length (elems a))"
    using del_out [OF assms(1), of i] assms(2) by fastforce+
  then have n: "nat i < length (elems a)" "int (nat i) = i" by auto
  have "length (elems a) < cap a"
    using within [OF assms(1)] del_full [OF assms(1) n(1)] assms(2) n(2) by fastforce
  then show ?thesis using del_ok [OF assms(1) n(1)] assms(2) n i by auto
qed

lemma idx_absent: "inv a \<Longrightarrow> x \<notin> set (elems a) \<Longrightarrow> idx a x = Inr (-1)"
  using idx_ok [of a x] first_index_None [of "(=) x" "elems a"] by auto

lemma idx_present:
  assumes "inv a" and "x \<in> set (elems a)"
  shows "\<exists>i. idx a x = Inr (int i) \<and> i < length (elems a) \<and> elems a ! i = x
    \<and> remove_nth i (elems a) = remove1 x (elems a)"
proof -
  obtain i where i: "first_index ((=) x) (elems a) = Some i"
    using assms(2) first_index_None [of "(=) x" "elems a"] by (cases "first_index ((=) x) (elems a)") auto
  then show ?thesis
    using idx_ok [OF assms(1), of x] first_index_remove1 [OF i] first_index_Some [of "(=) x" "elems a" i]
    by auto
qed

text \<open>Looking an element up and deleting it removes its first occurrence.\<close>

lemma idx_del:
  assumes "inv a" and "x \<in> set (elems a)" and "length (elems a) < cap a"
  shows "\<exists>i a'. idx a x = Inr i \<and> 0 \<le> i \<and> del a i = Inr a' \<and> inv a'
    \<and> elems a' = remove1 x (elems a) \<and> cap a' = cap a"
proof -
  obtain i where "idx a x = Inr (int i)" "i < length (elems a)"
    "remove_nth i (elems a) = remove1 x (elems a)"
    using idx_present [OF assms(1,2)] by blast
  then show ?thesis using del_ok [OF assms(1) _ assms(3), of i] by fastforce
qed

text \<open>First in, first out: a removal at the front after an insertion.\<close>

lemma ins_del_front:
  assumes "inv a" and "Suc (length (elems a)) < cap a"
  shows "\<exists>a' a''. ins a x = Inr a' \<and> del a' 0 = Inr a'' \<and> inv a''
    \<and> elems a'' = tl (elems a @ [x]) \<and> cap a'' = cap a"
proof -
  obtain a' where a': "ins a x = Inr a'" "inv a'" "elems a' = elems a @ [x]" "cap a' = cap a"
    using ins_ok [OF assms(1), of x] assms(2) by auto
  then obtain a'' where "del a' (int 0) = Inr a''" "inv a''" "elems a'' = remove_nth 0 (elems a')"
    "cap a'' = cap a'"
    using del_ok [OF a'(2), of 0] assms(2) by auto
  with a' show ?thesis by (cases "elems a") (auto simp: remove_nth_def)
qed

end

definition am_list :: "'a array_m \<Rightarrow> 'a list" where
  "am_list a = slots_list (am_array a) (am_size a)"

definition am_wf :: "'a array_m \<Rightarrow> bool" where
  "am_wf a \<longleftrightarrow> slots_wf (am_array a) (am_size a) (am_max_size a)"

definition am_ok :: "'a array_m \<Rightarrow> bool" where
  "am_ok a \<longleftrightarrow> am_wf a \<and> \<not> am_lock a"

definition am_cap :: "'a array_m \<Rightarrow> nat" where
  "am_cap a = nat (am_max_size a)"

lemmas am_defs = am_list_def am_wf_def am_ok_def am_cap_def

lemma am_ok_create [simp]: "0 \<le> m \<Longrightarrow> am_ok (array_m_create m)"
  by (simp add: am_defs array_m_create_def slots_wf_def)

lemma am_list_create [simp]: "am_list (array_m_create m) = []"
  by (simp add: am_defs array_m_create_def)

lemma am_cap_create [simp]: "am_cap (array_m_create m) = nat m"
  by (simp add: am_defs array_m_create_def)

lemma am_wf_size: "am_wf a \<Longrightarrow> am_size a = int (length (am_list a))"
  using slots_list_length [of "am_array a" "am_size a" "am_max_size a"]
    slots_wf_bounds [of "am_array a" "am_size a" "am_max_size a"]
  by (auto simp: am_defs)

lemma am_wf_room: "am_wf a \<Longrightarrow> am_size a < am_max_size a \<longleftrightarrow> length (am_list a) < am_cap a"
  using am_wf_size [of a] slots_wf_bounds [of "am_array a" "am_size a" "am_max_size a"]
  by (auto simp: am_defs)

lemma am_ok_wf: "am_ok a \<Longrightarrow> am_wf a \<and> \<not> am_lock a"
  by (simp add: am_ok_def)

lemma am_lock_frame [simp]:
  "am_wf (a\<lparr>am_lock := b\<rparr>) = am_wf a" "am_list (a\<lparr>am_lock := b\<rparr>) = am_list a"
  "am_cap (a\<lparr>am_lock := b\<rparr>) = am_cap a" "am_ok (a\<lparr>am_lock := False\<rparr>) = am_wf a"
  by (simp_all add: am_defs)

lemma am_insert_unlocked_ok:
  assumes "am_wf a" and "length (am_list a) < am_cap a"
  shows "\<exists>a'. array_m_insert_unlocked a x = Inr a' \<and> am_wf a' \<and> am_list a' = am_list a @ [x]
    \<and> am_cap a' = am_cap a \<and> am_lock a' = am_lock a"
proof -
  have room: "am_size a < am_max_size a" using assms am_wf_room by blast
  have wf: "slots_wf (am_array a) (am_size a) (am_max_size a)" using assms(1) by (simp add: am_wf_def)
  then have "buf_write (am_array a) (am_size a) (Some x) =
      Inr ((am_array a)[nat (am_size a) := Some x])"
    using room by (auto simp: buf_write_def slots_wf_def)
  then show ?thesis
    using room slots_insert [OF wf room, of x] by (simp add: array_m_insert_unlocked_def am_defs)
qed

lemma am_lookup_unlocked_ok:
  assumes "am_wf a" and "i < length (am_list a)"
  shows "array_m_lookup_unlocked a (int i) = Inr (Some (am_list a ! i))"
proof -
  have wf: "slots_wf (am_array a) (am_size a) (am_max_size a)" using assms(1) by (simp add: am_wf_def)
  have i: "int i < am_size a" using am_wf_size [OF assms(1)] assms(2) by simp
  then have "am_array a ! i = Some (am_list a ! i)"
    using slots_nth [OF wf, of "int i"] by (simp add: am_list_def)
  then show ?thesis
    using i slots_wf_bounds [OF wf] by (simp add: array_m_lookup_unlocked_def buf_read_def)
qed

lemma am_index_from_ok:
  assumes "am_wf a" and "0 \<le> i" and "i \<le> am_size a"
  shows "array_m_index_from a x i =
    Inr (case first_index ((=) x) (drop (nat i) (am_list a)) of None \<Rightarrow> -1 | Some k \<Rightarrow> i + int k)"
  using assms
proof (induction a x i rule: array_m_index_from.induct)
  case (1 a x i)
  show ?case
  proof (cases "i < am_size a")
    case True
    then have n: "nat i < length (am_list a)" "int (nat i) = i"
      using "1.prems" am_wf_size [OF "1.prems"(1)] by auto
    let ?y = "am_list a ! nat i"
    have lk: "array_m_lookup_unlocked a i = Inr (Some ?y)"
      using am_lookup_unlocked_ok [OF "1.prems"(1) n(1)] n(2) by simp
    have d: "drop (nat i) (am_list a) = ?y # drop (nat (i + 1)) (am_list a)"
      using n "1.prems" by (simp add: Cons_nth_drop_Suc nat_add_distrib)
    show ?thesis
    proof (cases "?y = x")
      case True
      then show ?thesis using \<open>i < am_size a\<close> lk d by (simp add: array_m_index_from.simps [of a x i])
    next
      case False
      then have "array_m_index_from a x i = array_m_index_from a x (i + 1)"
        using \<open>i < am_size a\<close> lk by (simp add: array_m_index_from.simps [of a x i])
      also have "\<dots> = Inr (case first_index ((=) x) (drop (nat (i + 1)) (am_list a)) of
          None \<Rightarrow> -1 | Some k \<Rightarrow> i + 1 + int k)"
        by (rule "1.IH") (use \<open>i < am_size a\<close> lk False "1.prems" in auto)
      finally show ?thesis using False d by (auto split: option.splits)
    qed
  next
    case False
    then have "nat i = length (am_list a)" using "1.prems" am_wf_size [OF "1.prems"(1)] by auto
    then show ?thesis using False by (simp add: array_m_index_from.simps [of a x i])
  qed
qed

lemma am_index_unlocked_ok:
  "am_wf a \<Longrightarrow> array_m_index_unlocked a x =
    Inr (case first_index ((=) x) (am_list a) of None \<Rightarrow> -1 | Some i \<Rightarrow> int i)"
  using am_index_from_ok [of a 0 x] slots_wf_bounds [of "am_array a" "am_size a" "am_max_size a"]
  by (auto simp: array_m_index_unlocked_def am_wf_def split: option.splits)

lemma am_remove_unlocked_ok:
  assumes "am_wf a" and "i < length (am_list a)" and "length (am_list a) < am_cap a"
  shows "\<exists>a'. array_m_remove_unlocked a (int i) = Inr a' \<and> am_wf a'
    \<and> am_list a' = remove_nth i (am_list a) \<and> am_cap a' = am_cap a \<and> am_lock a' = am_lock a"
proof -
  have wf: "slots_wf (am_array a) (am_size a) (am_max_size a)" using assms(1) by (simp add: am_wf_def)
  have i: "int i < am_size a" and room: "am_size a < am_max_size a"
    using am_wf_size [OF assms(1)] am_wf_room [OF assms(1)] assms(2,3) by auto
  then show ?thesis
    using slots_remove [OF wf _ i room] by (auto simp: array_m_remove_unlocked_def am_defs)
qed

lemma am_remove_unlocked_full:
  assumes "am_wf a" and "i < length (am_list a)" and "length (am_list a) = am_cap a"
  shows "array_m_remove_unlocked a (int i) = Inl OutOfBounds"
proof -
  have wf: "slots_wf (am_array a) (am_size a) (am_max_size a)" using assms(1) by (simp add: am_wf_def)
  have i: "int i < am_size a" and "am_size a = int (length (am_array a))"
    using am_wf_size [OF assms(1)] assms(2,3) slots_wf_bounds [OF wf] by (auto simp: am_cap_def)
  then show ?thesis
    using shift_back_full [of "int i" "am_size a" "am_array a"]
    by (simp add: array_m_remove_unlocked_def)
qed

interpretation am: bounded_seq am_ok am_list am_cap array_m_insert array_m_lookup array_m_remove
  array_m_index
proof
  fix a :: "'a array_m" and x :: 'a and i :: nat and j :: int
  assume ok: "am_ok a"
  then have wf: "am_wf a" and free: "\<not> am_lock a" by (simp_all add: am_ok_def)
  show "length (am_list a) \<le> am_cap a"
    using am_wf_size [OF wf] slots_wf_bounds [of "am_array a" "am_size a" "am_max_size a"] wf
    by (auto simp: am_wf_def am_cap_def)
  show "\<exists>a'. array_m_insert a x = Inr a' \<and> am_ok a' \<and> am_list a' = am_list a @ [x]
      \<and> am_cap a' = am_cap a" if "length (am_list a) < am_cap a"
    using am_insert_unlocked_ok [of "a\<lparr>am_lock := True\<rparr>" x] wf free that
    by (auto simp: array_m_insert_def am_acquire_def am_release_def)
  show "\<exists>e. array_m_insert a x = Inl e" if "length (am_list a) = am_cap a"
    using am_wf_room [OF wf] that free
    by (auto simp: array_m_insert_def am_acquire_def array_m_insert_unlocked_def)
  show "array_m_lookup a (int i) = Inr (Some (am_list a ! i))" if "i < length (am_list a)"
    using am_lookup_unlocked_ok [of "a\<lparr>am_lock := True\<rparr>" i] wf free that
    by (simp add: array_m_lookup_def am_acquire_def)
  show "\<exists>e. array_m_lookup a j = Inl e" if "j < 0 \<or> int (length (am_list a)) \<le> j"
    using am_wf_size [OF wf] that free
    by (auto simp: array_m_lookup_def am_acquire_def array_m_lookup_unlocked_def)
  show "\<exists>a'. array_m_remove a (int i) = Inr a' \<and> am_ok a' \<and> am_list a' = remove_nth i (am_list a)
      \<and> am_cap a' = am_cap a" if "i < length (am_list a)" and "length (am_list a) < am_cap a"
    using am_remove_unlocked_ok [of "a\<lparr>am_lock := True\<rparr>" i] wf free that
    by (auto simp: array_m_remove_def am_acquire_def am_release_def)
  show "\<exists>e. array_m_remove a (int i) = Inl e"
    if "i < length (am_list a)" and "length (am_list a) = am_cap a"
    using am_remove_unlocked_full [of "a\<lparr>am_lock := True\<rparr>" i] wf free that
    by (auto simp: array_m_remove_def am_acquire_def)
  show "\<exists>e. array_m_remove a j = Inl e" if "j < 0 \<or> int (length (am_list a)) \<le> j"
    using am_wf_size [OF wf] that free
    by (auto simp: array_m_remove_def am_acquire_def array_m_remove_unlocked_def)
  show "array_m_index a x =
      Inr (case first_index ((=) x) (am_list a) of None \<Rightarrow> -1 | Some i \<Rightarrow> int i)"
    using am_index_unlocked_ok [of "a\<lparr>am_lock := True\<rparr>" x] wf free
    by (simp add: array_m_index_def am_acquire_def)
qed

subsection \<open>The userspace array keeps the same promises\<close>

definition at_list :: "'a array_t \<Rightarrow> 'a list" where
  "at_list a = slots_list (at_array a) (at_size a)"

definition at_ok :: "'a array_t \<Rightarrow> bool" where
  "at_ok a \<longleftrightarrow> slots_wf (at_array a) (at_size a) (at_max_size a)"

definition at_cap :: "'a array_t \<Rightarrow> nat" where
  "at_cap a = nat (at_max_size a)"

lemmas at_defs = at_list_def at_ok_def at_cap_def

text \<open>
  Both arrays have the same layout, so the userspace one is read as a kernel array with a free
  lock and inherits its lemmas.
\<close>

definition as_array_m :: "'a array_t \<Rightarrow> 'a array_m" where
  "as_array_m a = \<lparr>am_array = at_array a, am_size = at_size a, am_max_size = at_max_size a,
     am_lock = False\<rparr>"

lemma as_array_m_simps [simp]:
  "am_wf (as_array_m a) = at_ok a" "am_list (as_array_m a) = at_list a"
  "am_cap (as_array_m a) = at_cap a" "am_array (as_array_m a) = at_array a"
  "am_size (as_array_m a) = at_size a" "am_max_size (as_array_m a) = at_max_size a"
  by (simp_all add: am_defs at_defs as_array_m_def)

lemma at_ok_size: "at_ok a \<Longrightarrow> at_size a = int (length (at_list a))"
  using am_wf_size [of "as_array_m a"] by simp

lemma at_ok_room: "at_ok a \<Longrightarrow> at_size a < at_max_size a \<longleftrightarrow> length (at_list a) < at_cap a"
  using am_wf_room [of "as_array_m a"] by simp

lemma at_ok_create [simp]: "0 \<le> m \<Longrightarrow> at_ok (array_create m)"
  by (simp add: at_defs array_create_def slots_wf_def)

lemma at_list_create [simp]: "at_list (array_create m) = []"
  by (simp add: at_defs array_create_def)

lemma at_cap_create [simp]: "at_cap (array_create m) = nat m"
  by (simp add: at_defs array_create_def)

lemma array_lookup_as: "at_ok a \<Longrightarrow> i < length (at_list a) \<Longrightarrow>
  array_lookup a (int i) = Inr (Some (at_list a ! i))"
  using am_lookup_unlocked_ok [of "as_array_m a" i] at_ok_size [of a]
  by (simp add: array_lookup_def array_m_lookup_unlocked_def)

lemma array_index_from_as:
  "array_index_from a x i = array_m_index_from (as_array_m a) x i" if "0 \<le> i"
  using that
proof (induction a x i rule: array_index_from.induct)
  case (1 a x i)
  show ?case
  proof (cases "i < at_size a")
    case True
    then have lk: "array_lookup a i = array_m_lookup_unlocked (as_array_m a) i"
      using "1.prems" by (simp add: array_lookup_def array_m_lookup_unlocked_def)
    show ?thesis
    proof (cases "array_lookup a i")
      case (Inl e)
      then show ?thesis using True lk
        by (simp add: array_index_from.simps [of a x i] array_m_index_from.simps [of "as_array_m a" x i])
    next
      case (Inr y)
      then show ?thesis using True lk "1.IH" [OF True Inr] "1.prems"
        by (simp add: array_index_from.simps [of a x i] array_m_index_from.simps [of "as_array_m a" x i])
    qed
  next
    case False
    then show ?thesis
      by (simp add: array_index_from.simps [of a x i] array_m_index_from.simps [of "as_array_m a" x i])
  qed
qed

interpretation ut: bounded_seq at_ok at_list at_cap array_insert array_lookup array_remove array_index
proof
  fix a :: "'a array_t" and x :: 'a and i :: nat and j :: int
  assume ok: "at_ok a"
  then have wf: "slots_wf (at_array a) (at_size a) (at_max_size a)" by (simp add: at_ok_def)
  note b = slots_wf_bounds [OF wf] at_ok_size [OF ok] at_ok_room [OF ok]
  show "length (at_list a) \<le> at_cap a"
    using b by (auto simp: at_cap_def)
  show "\<exists>a'. array_insert a x = Inr a' \<and> at_ok a' \<and> at_list a' = at_list a @ [x]
      \<and> at_cap a' = at_cap a" if "length (at_list a) < at_cap a"
  proof -
    have room: "at_size a < at_max_size a" using b(3) that by blast
    then have "buf_write (at_array a) (at_size a) (Some x) =
        Inr ((at_array a)[nat (at_size a) := Some x])"
      using wf by (auto simp: buf_write_def slots_wf_def)
    then show ?thesis
      using room slots_insert [OF wf room, of x] by (simp add: array_insert_def at_defs)
  qed
  show "\<exists>e. array_insert a x = Inl e" if "length (at_list a) = at_cap a"
    using b that by (auto simp: array_insert_def)
  show "array_lookup a (int i) = Inr (Some (at_list a ! i))" if "i < length (at_list a)"
    using array_lookup_as [OF ok that] .
  show "\<exists>e. array_lookup a j = Inl e" if "j < 0 \<or> int (length (at_list a)) \<le> j"
    using b that by (auto simp: array_lookup_def)
  show "\<exists>a'. array_remove a (int i) = Inr a' \<and> at_ok a' \<and> at_list a' = remove_nth i (at_list a)
      \<and> at_cap a' = at_cap a" if "i < length (at_list a)" and "length (at_list a) < at_cap a"
  proof -
    have "int i < at_size a" "at_size a < at_max_size a" using b(2,3) that by auto
    then show ?thesis
      using slots_remove [OF wf, of "int i"] by (auto simp: array_remove_def at_defs)
  qed
  show "\<exists>e. array_remove a (int i) = Inl e"
    if "i < length (at_list a)" and "length (at_list a) = at_cap a"
    using b that shift_back_full [of "int i" "at_size a" "at_array a"]
    by (auto simp: array_remove_def at_cap_def)
  show "\<exists>e. array_remove a j = Inl e" if "j < 0 \<or> int (length (at_list a)) \<le> j"
    using b that by (auto simp: array_remove_def)
  show "array_index a x =
      Inr (case first_index ((=) x) (at_list a) of None \<Rightarrow> -1 | Some i \<Rightarrow> int i)"
    using am_index_unlocked_ok [of "as_array_m a" x] ok
    by (simp add: array_index_def array_m_index_unlocked_def array_index_from_as)
qed

subsection \<open>Loops over an array as folds over its elements\<close>

fun efold :: "('a option \<Rightarrow> 's \<Rightarrow> 's res) \<Rightarrow> 'a list \<Rightarrow> 's \<Rightarrow> 's res" where
  "efold body [] s = Inr s"
| "efold body (x # xs) s = ebind (body (Some x) s) (efold body xs)"

fun efold_until :: "('a option \<Rightarrow> 's \<Rightarrow> (bool \<times> 's) res) \<Rightarrow> 'a list \<Rightarrow> 's \<Rightarrow> 's res" where
  "efold_until body [] s = Inr s"
| "efold_until body (x # xs) s =
     ebind (body (Some x) s) (\<lambda>(stop, s). if stop then Inr s else efold_until body xs s)"

lemma efold_append [simp]: "efold body (xs @ ys) s = ebind (efold body xs s) (efold body ys)"
  by (induction xs arbitrary: s) (auto simp: ebind_assoc intro: ebind_cong)

lemma array_foreach_efold:
  assumes "at_ok a"
  shows "array_foreach a body (int k) s = efold body (drop k (at_list a)) s"
proof (induction "length (at_list a) - k" arbitrary: k s)
  case 0
  then show ?case using at_ok_size [OF assms] by (simp add: array_foreach.simps)
next
  case (Suc n)
  then have k: "k < length (at_list a)" by simp
  have "array_foreach a body (int k + 1) t = efold body (drop (Suc k) (at_list a)) t" for t
    using Suc.hyps(1) [of "Suc k" t] Suc.hyps(2) by (simp add: add.commute)
  then have "array_foreach a body (int k + 1) = efold body (drop (Suc k) (at_list a))" by blast
  then show ?case
    using k at_ok_size [OF assms] array_lookup_as [OF assms k]
    by (simp add: array_foreach.simps [of a body "int k"] Cons_nth_drop_Suc [symmetric])
qed

lemma array_foreach_down_efold:
  assumes "at_ok a" and "k \<le> length (at_list a)"
  shows "array_foreach_down a body (int k - 1) s = efold_until body (rev (take k (at_list a))) s"
  using assms(2)
proof (induction k arbitrary: s)
  case 0
  then show ?case by (simp add: array_foreach_down.simps)
next
  case (Suc k)
  then have "array_foreach_down a body (int k - 1) = efold_until body (rev (take k (at_list a)))"
    by (intro ext) simp
  then show ?case
    using Suc.prems array_lookup_as [OF assms(1), of k]
    by (cases "body (Some (at_list a ! k)) s")
      (auto simp: array_foreach_down.simps [of a body "int k"] take_Suc_conv_app_nth)
qed

lemma array_remove_down_clears:
  assumes "at_ok a" and "length (at_list a) < at_cap a"
  shows "\<exists>a'. array_remove_down (at_size a - 1) a = Inr a' \<and> at_ok a' \<and> at_list a' = [] \<and> at_cap a' = at_cap a"
  using assms
proof (induction "length (at_list a)" arbitrary: a)
  case 0
  then show ?case by (simp add: array_remove_down.simps at_ok_size)
next
  case (Suc n)
  obtain a' where a': "array_remove a (int n) = Inr a'" "at_ok a'" "at_list a' = remove_nth n (at_list a)"
    "at_cap a' = at_cap a"
    using ut.del_ok [OF Suc.prems(1) _ Suc.prems(2), of n] Suc.hyps(2) by auto
  then have n: "n = length (at_list a')" "at_size a' = int n"
    using Suc.hyps(2) at_ok_size [OF a'(2)] by (simp_all add: remove_nth_def)
  then have "\<exists>b. array_remove_down (int n - 1) a' = Inr b \<and> at_ok b \<and> at_list b = [] \<and> at_cap b = at_cap a"
    using Suc.hyps(1) [OF n(1) a'(2)] a'(4) Suc.prems(2) Suc.hyps(2) by simp
  then show ?case
    using a'(1) at_ok_size [OF Suc.prems(1)] Suc.hyps(2) [symmetric] by (simp add: array_remove_down.simps [of _ a])
qed

subsection \<open>Properties\<close>

text \<open>
  Removing element \<open>i\<close> of a kernel array with a free slot removes exactly that element and keeps
  the order of the others; removing any element of a full array reads one slot past the allocation.
\<close>

lemma array_m_remove_shifts_or_overruns:
  assumes "am_ok a" and "i < length (am_list a)"
  shows "if length (am_list a) < am_cap a
    then \<exists>a'. array_m_remove a (int i) = Inr a' \<and> am_ok a' \<and> am_cap a' = am_cap a
           \<and> am_list a' = take i (am_list a) @ drop (Suc i) (am_list a)
    else array_m_remove a (int i) = Inl OutOfBounds"
proof (cases "length (am_list a) < am_cap a")
  case True
  then show ?thesis using am.del_ok [OF assms True] by (auto simp: remove_nth_def)
next
  case False
  then have "length (am_list a) = am_cap a" using am.within [OF assms(1)] by simp
  then show ?thesis
    using am_remove_unlocked_full [of "a\<lparr>am_lock := True\<rparr>" i] assms False
    by (simp add: array_m_remove_def am_acquire_def am_ok_def)
qed

text \<open>
  On the userspace array with two free slots: an element that was not there is found by
  \<^verbatim>\<open>array_index\<close> after its insertion at the index behind the old elements, where
  \<^verbatim>\<open>array_lookup\<close> returns it, and removing it there restores the old elements.
\<close>

lemma array_insert_index_remove_roundtrip:
  assumes "at_ok a" and "Suc (length (at_list a)) < at_cap a" and "x \<notin> set (at_list a)"
  shows "\<exists>a' a''. array_insert a x = Inr a' \<and> at_ok a'
    \<and> array_index a x = Inr (-1) \<and> array_index a' x = Inr (int (length (at_list a)))
    \<and> array_lookup a' (int (length (at_list a))) = Inr (Some x)
    \<and> array_remove a' (int (length (at_list a))) = Inr a'' \<and> at_ok a'' \<and> at_list a'' = at_list a"
proof -
  obtain a' where a': "array_insert a x = Inr a'" "at_ok a'" "at_list a' = at_list a @ [x]" "at_cap a' = at_cap a"
    using ut.ins_ok [OF assms(1), of x] assms(2) by auto
  have idx: "first_index ((=) x) (at_list a') = Some (length (at_list a))"
    using assms(3) a'(3) by (auto simp: first_index_Some nth_append dest: nth_mem)
  obtain a'' where "array_remove a' (int (length (at_list a))) = Inr a''" "at_ok a''" "at_list a'' = at_list a"
    using ut.del_ok [OF a'(2), of "length (at_list a)"] a' assms(2) by auto
  then show ?thesis
    using a' idx ut.idx_absent [OF assms(1,3)] ut.idx_ok [OF a'(2), of x]
      ut.get_ok [OF a'(2), of "length (at_list a)"] by auto
qed

end
