(* ===== verification/Spinlock.thy ===== *)
theory Spinlock
  imports Prelude
begin

text \<open>
  \<^verbatim>\<open>kernel/kernel/util/spinlock/spinlock.c\<close> and \<^verbatim>\<open>kernel/kernel/util/mutex/mutex.c\<close>.

  One lock shared by any number of CPUs. Each CPU runs \<^verbatim>\<open>spinlock_acquire\<close> and \<^verbatim>\<open>spinlock_release\<close>
  one machine-visible action at a time (saving and clearing the interrupt flag, the locked bit
  test-and-set, the polling read, the two stores into the lock, the store that clears the flag,
  the conditional \<^verbatim>\<open>sti\<close>), and the actions of different CPUs interleave in any order. The
  invariant gives mutual exclusion, that interrupts stay off on a CPU from the start of its
  acquisition to the end of its release, and that the release restores the interrupt flag the CPU
  had when it called acquire, whatever the other CPUs store into the lock meanwhile.
\<close>

subsection \<open>Primitives\<close>

record spinlock =
  lk_flag :: u32
  lk_owner_pid :: int
  lk_rflags :: u64

definition irqs_enabled :: "u64 \<Rightarrow> bool" where
  "irqs_enabled flags = bit flags 9"

definition local_irq_disable :: "u64 \<Rightarrow> u64" where
  "local_irq_disable flags = unset_bit 9 flags"

definition local_irq_enable :: "u64 \<Rightarrow> u64" where
  "local_irq_enable flags = set_bit 9 flags"

text \<open>The saved flags and the CPU's flags afterwards.\<close>

definition local_irq_disable_save :: "u64 \<Rightarrow> u64 \<times> u64" where
  "local_irq_disable_save flags =
     (flags, if irqs_enabled flags then local_irq_disable flags else flags)"

definition local_irq_restore :: "u64 \<Rightarrow> u64 \<Rightarrow> u64" where
  "local_irq_restore saved flags = (if irqs_enabled saved then local_irq_enable flags else flags)"

text \<open>\<^verbatim>\<open>LOCK bts $0\<close> and \<^verbatim>\<open>setc\<close>: the old bit 0 and the word with bit 0 set.\<close>

definition atomic_bit_test_and_set :: "u32 \<Rightarrow> bool \<times> u32" where
  "atomic_bit_test_and_set v = (bit v 0, set_bit 0 v)"

lemma irq_flag_simps [simp]:
  "\<not> irqs_enabled (local_irq_disable f)" "irqs_enabled (local_irq_enable f)"
  "\<not> irqs_enabled (snd (local_irq_disable_save f))"
  "fst (local_irq_disable_save f) = f"
  by (simp_all add: irqs_enabled_def local_irq_disable_def local_irq_enable_def
      local_irq_disable_save_def bit_simps)

lemma irq_restore_iff:
  "\<not> irqs_enabled f \<Longrightarrow> irqs_enabled (local_irq_restore saved f) = irqs_enabled saved"
  by (simp add: local_irq_restore_def)

subsection \<open>The lock shared by the CPUs\<close>

text \<open>Where a CPU is inside \<^verbatim>\<open>spinlock_acquire\<close> or \<^verbatim>\<open>spinlock_release\<close>.\<close>

datatype spin_pc =
    Outside      \<comment> \<open>not using the lock\<close>
  | TestAndSet   \<comment> \<open>about to run the locked bit test-and-set\<close>
  | Poll         \<comment> \<open>polling \<^verbatim>\<open>while (lock->flag == 1)\<close>\<close>
  | StoreFlags   \<comment> \<open>won the flag; about to store \<^verbatim>\<open>lock->rflags\<close>\<close>
  | StoreOwner   \<comment> \<open>about to store \<^verbatim>\<open>lock->owner_pid\<close>\<close>
  | Holding      \<comment> \<open>acquire has returned\<close>
  | ClearFlag    \<comment> \<open>release has read \<^verbatim>\<open>lock->rflags\<close>; about to store \<^verbatim>\<open>flag = 0\<close>\<close>
  | Restore      \<comment> \<open>about to restore the interrupt flag\<close>

record spin_cpu =
  sc_pc :: spin_pc
  sc_flags :: u64    \<comment> \<open>the CPU's \<^verbatim>\<open>rflags\<close>\<close>
  sc_saved :: u64    \<comment> \<open>local \<^verbatim>\<open>rflags\<close> of \<^verbatim>\<open>spinlock_acquire\<close>\<close>
  sc_back :: u64     \<comment> \<open>local \<^verbatim>\<open>rflags\<close> of \<^verbatim>\<open>spinlock_release\<close>\<close>
  sc_pid :: int      \<comment> \<open>\<^verbatim>\<open>getpid()\<close> on this CPU\<close>

record spin_sys =
  ss_lock :: spinlock
  ss_cpu :: "nat \<Rightarrow> spin_cpu"

text \<open>One action of one CPU: the new lock and the new CPU, or no such action.\<close>

fun spin_act :: "spinlock \<Rightarrow> spin_cpu \<Rightarrow> spinlock \<times> spin_cpu" where
  "spin_act l c =
     (case sc_pc c of
        Outside \<Rightarrow>
          (let (saved, flags) = local_irq_disable_save (sc_flags c)
           in (l, c\<lparr>sc_pc := TestAndSet, sc_saved := saved, sc_flags := flags\<rparr>))
      | TestAndSet \<Rightarrow>
          (let (old, v) = atomic_bit_test_and_set (lk_flag l)
           in (l\<lparr>lk_flag := v\<rparr>, c\<lparr>sc_pc := (if old then Poll else StoreFlags)\<rparr>))
      | Poll \<Rightarrow> (l, c\<lparr>sc_pc := (if lk_flag l = 1 then Poll else TestAndSet)\<rparr>)
      | StoreFlags \<Rightarrow> (l\<lparr>lk_rflags := sc_saved c\<rparr>, c\<lparr>sc_pc := StoreOwner\<rparr>)
      | StoreOwner \<Rightarrow> (l\<lparr>lk_owner_pid := sc_pid c\<rparr>, c\<lparr>sc_pc := Holding\<rparr>)
      | Holding \<Rightarrow> (l, c\<lparr>sc_pc := ClearFlag, sc_back := lk_rflags l\<rparr>)
      | ClearFlag \<Rightarrow> (l\<lparr>lk_flag := 0\<rparr>, c\<lparr>sc_pc := Restore\<rparr>)
      | Restore \<Rightarrow>
          (l, c\<lparr>sc_pc := Outside, sc_flags := local_irq_restore (sc_back c) (sc_flags c)\<rparr>))"

declare spin_act.simps [simp del]

text \<open>
  A step of the system: some CPU performs its next action, or a CPU that is not using the lock
  changes its flags or runs another process.
\<close>

inductive spin_step :: "spin_sys \<Rightarrow> spin_sys \<Rightarrow> bool" where
  act: "spin_act (ss_lock s) (ss_cpu s i) = (l, c) \<Longrightarrow>
     spin_step s (s\<lparr>ss_lock := l, ss_cpu := (ss_cpu s)(i := c)\<rparr>)"
| other: "sc_pc (ss_cpu s i) = Outside \<Longrightarrow>
     spin_step s (s\<lparr>ss_cpu := (ss_cpu s)(i := (ss_cpu s i)\<lparr>sc_flags := f, sc_pid := p\<rparr>)\<rparr>)"

text \<open>\<^verbatim>\<open>spinlock_t\<close> starts zeroed and every CPU outside.\<close>

definition spin_init :: "spin_sys \<Rightarrow> bool" where
  "spin_init s \<longleftrightarrow> lk_flag (ss_lock s) = 0 \<and> (\<forall>i. sc_pc (ss_cpu s i) = Outside)"

inductive spin_reachable :: "spin_sys \<Rightarrow> bool" where
  start: "spin_init s \<Longrightarrow> spin_reachable s"
| step: "spin_reachable s \<Longrightarrow> spin_step s t \<Longrightarrow> spin_reachable t"

subsection \<open>The invariant\<close>

definition owns :: "spin_cpu \<Rightarrow> bool" where
  "owns c \<longleftrightarrow> sc_pc c \<in> {StoreFlags, StoreOwner, Holding, ClearFlag}"

definition cpu_ok :: "spinlock \<Rightarrow> spin_cpu \<Rightarrow> bool" where
  "cpu_ok l c \<longleftrightarrow>
     (sc_pc c \<noteq> Outside \<longrightarrow> \<not> irqs_enabled (sc_flags c))
   \<and> (sc_pc c \<in> {StoreOwner, Holding} \<longrightarrow> lk_rflags l = sc_saved c)
   \<and> (sc_pc c = Holding \<longrightarrow> lk_owner_pid l = sc_pid c)
   \<and> (sc_pc c \<in> {ClearFlag, Restore} \<longrightarrow> sc_back c = sc_saved c)"

definition spin_inv :: "spin_sys \<Rightarrow> bool" where
  "spin_inv s \<longleftrightarrow>
     lk_flag (ss_lock s) \<in> {0, 1}
   \<and> (lk_flag (ss_lock s) = 0 \<longrightarrow> (\<forall>i. \<not> owns (ss_cpu s i)))
   \<and> (\<forall>i j. owns (ss_cpu s i) \<longrightarrow> owns (ss_cpu s j) \<longrightarrow> i = j)
   \<and> (\<forall>i. cpu_ok (ss_lock s) (ss_cpu s i))"

lemma spin_inv_init: "spin_init s \<Longrightarrow> spin_inv s"
  by (simp add: spin_init_def spin_inv_def owns_def cpu_ok_def)

lemma test_and_set_simps [simp]:
  "atomic_bit_test_and_set 0 = (False, 1)" "atomic_bit_test_and_set 1 = (True, 1)"
  by (simp_all add: atomic_bit_test_and_set_def set_bit_eq_or)

text \<open>What an action of the CPU itself does, given that it was the only owner if it was one.\<close>

lemma spin_act_self:
  assumes "spin_act l c = (l', c')" and "lk_flag l \<in> {0, 1}" and "cpu_ok l c"
    and "owns c \<Longrightarrow> lk_flag l = 1"
  shows "lk_flag l' \<in> {0, 1}" and "cpu_ok l' c'"
    and "owns c' \<Longrightarrow> lk_flag l' = 1" and "owns c' \<Longrightarrow> owns c \<or> lk_flag l = 0"
    and "lk_flag l' = 0 \<Longrightarrow> lk_flag l = 0 \<or> owns c"
    and "\<not> owns c \<Longrightarrow> lk_rflags l' = lk_rflags l \<and> lk_owner_pid l' = lk_owner_pid l"
  using assms
  by (cases "sc_pc c"; auto simp: spin_act.simps owns_def cpu_ok_def irq_restore_iff
      local_irq_disable_save_def split: if_splits)+

text \<open>A CPU that owns nothing only relies on its own fields.\<close>

lemma cpu_ok_other: "\<not> owns c \<Longrightarrow> cpu_ok l c \<Longrightarrow> cpu_ok l' c"
  by (cases "sc_pc c") (auto simp: cpu_ok_def owns_def)

lemma cpu_ok_same_fields:
  "lk_rflags l' = lk_rflags l \<Longrightarrow> lk_owner_pid l' = lk_owner_pid l \<Longrightarrow> cpu_ok l c \<Longrightarrow> cpu_ok l' c"
  by (simp add: cpu_ok_def)

lemma spin_inv_act:
  assumes inv: "spin_inv s" and act: "spin_act (ss_lock s) (ss_cpu s i) = (l, c)"
  shows "spin_inv (s\<lparr>ss_lock := l, ss_cpu := (ss_cpu s)(i := c)\<rparr>)"
proof -
  let ?l = "ss_lock s" and ?c = "ss_cpu s i"
  have flag: "lk_flag ?l \<in> {0, 1}" and ok: "cpu_ok ?l (ss_cpu s j)"
    and one: "owns (ss_cpu s j) \<Longrightarrow> lk_flag ?l = 1"
    and uniq: "owns (ss_cpu s j) \<Longrightarrow> owns (ss_cpu s k) \<Longrightarrow> j = k" for j k
    using inv by (auto simp: spin_inv_def)
  note self = spin_act_self [OF act flag ok [of i] one [of i], simplified]
  have other_ok: "cpu_ok l (ss_cpu s j)" if "j \<noteq> i" for j
  proof (cases "owns (ss_cpu s j)")
    case True
    then have "\<not> owns ?c" using uniq that by blast
    then show ?thesis using self(6) ok [of j] cpu_ok_same_fields by blast
  next
    case False
    then show ?thesis using ok cpu_ok_other by blast
  qed
  have other_owner: "\<not> owns (ss_cpu s j)" if "j \<noteq> i" "owns c" for j
    using self(4) that uniq one by fastforce
  have freed: "\<not> owns (ss_cpu s j)" if "j \<noteq> i" "lk_flag l = 0" for j
    using self(5) that uniq one by fastforce
  define t where "t = s\<lparr>ss_lock := l, ss_cpu := (ss_cpu s)(i := c)\<rparr>"
  have lk: "ss_lock t = l" and cpu: "ss_cpu t j = (if j = i then c else ss_cpu s j)" for j
    by (simp_all add: t_def)
  have "lk_flag (ss_lock t) \<in> {0, 1}" using self(1) lk by simp
  moreover have "\<forall>j. \<not> owns (ss_cpu t j)" if "lk_flag (ss_lock t) = 0"
    using that lk self(3) freed by (simp add: cpu) (metis zero_neq_one)
  moreover have "j = k" if "owns (ss_cpu t j)" "owns (ss_cpu t k)" for j k
    using that cpu [of j] cpu [of k] other_owner uniq by (metis (full_types))
  moreover have "cpu_ok (ss_lock t) (ss_cpu t j)" for j
    using lk cpu self(2) other_ok by simp
  ultimately have "spin_inv t" unfolding spin_inv_def by blast
  then show ?thesis by (simp add: t_def)
qed

lemma spin_inv_step: "spin_step s t \<Longrightarrow> spin_inv s \<Longrightarrow> spin_inv t"
proof (induction rule: spin_step.induct)
  case (act s i l c)
  then show ?case using spin_inv_act by blast
next
  case (other s i f p)
  then show ?case
    by (auto simp: spin_inv_def owns_def cpu_ok_def)
qed

lemma spin_reachable_inv: "spin_reachable s \<Longrightarrow> spin_inv s"
  by (induction rule: spin_reachable.induct) (auto intro: spin_inv_init spin_inv_step)

subsection \<open>A lock held for ever\<close>

text \<open>The actions of one CPU alone.\<close>

fun spin_run :: "nat \<Rightarrow> spinlock \<times> spin_cpu \<Rightarrow> spinlock \<times> spin_cpu" where
  "spin_run 0 lc = lc"
| "spin_run (Suc n) lc = spin_run n (spin_act (fst lc) (snd lc))"

lemma spin_run_stuck:
  assumes "lk_flag l = 1" and "sc_pc c \<in> {TestAndSet, Poll}"
  shows "lk_flag (fst (spin_run n (l, c))) = 1 \<and> sc_pc (snd (spin_run n (l, c))) \<in> {TestAndSet, Poll}"
  using assms
proof (induction n arbitrary: l c)
  case 0
  then show ?case by simp
next
  case (Suc n)
  obtain l' c' where lc: "spin_act l c = (l', c')" by (cases "spin_act l c")
  have "lk_flag l' = 1 \<and> sc_pc c' \<in> {TestAndSet, Poll}"
    using lc Suc.prems by (auto simp: spin_act.simps split: if_splits)
  then show ?case using Suc.IH [of l' c'] lc by simp
qed

subsection \<open>The mutex\<close>

record lock_t =
  mx_flag :: int

definition mutex_lock :: "bool \<Rightarrow> lock_t option \<Rightarrow> lock_t option res" where
  "mutex_lock tasking_is_active lk =
     (case lk of None \<Rightarrow> Inr None
      | Some l \<Rightarrow>
          if \<not> tasking_is_active then Inr (Some l)
          else if mx_flag l \<noteq> 0
          then ebind (kassert (mx_flag l = 1) ''Bad lock flag'') (\<lambda>_.
               Inl (Panic ''Contended lock''))
          else Inr (Some (l\<lparr>mx_flag := 1\<rparr>)))"

definition mutex_unlock :: "bool \<Rightarrow> lock_t option \<Rightarrow> lock_t option" where
  "mutex_unlock tasking_is_active lk =
     (case lk of None \<Rightarrow> None
      | Some l \<Rightarrow> if \<not> tasking_is_active then Some l else Some (l\<lparr>mx_flag := 0\<rparr>))"

subsection \<open>Properties\<close>

text \<open>
  C4. However the actions of the CPUs interleave, at most one CPU is between winning the lock and
  giving it back; interrupts are off on every CPU inside an acquisition or a release; the CPU that
  holds the lock is the one recorded in it; and the flags a releasing CPU restores are those it had
  when it called acquire.
\<close>

theorem spinlock_mutual_exclusion:
  assumes "spin_reachable s"
  shows "(owns (ss_cpu s i) \<and> owns (ss_cpu s j) \<longrightarrow> i = j)
    \<and> (sc_pc (ss_cpu s i) \<noteq> Outside \<longrightarrow> \<not> irqs_enabled (sc_flags (ss_cpu s i)))
    \<and> (sc_pc (ss_cpu s i) = Holding \<longrightarrow> lk_flag (ss_lock s) = 1 \<and> lk_owner_pid (ss_lock s) = sc_pid (ss_cpu s i))
    \<and> (sc_pc (ss_cpu s i) = Restore \<longrightarrow> sc_back (ss_cpu s i) = sc_saved (ss_cpu s i))"
proof -
  have inv: "spin_inv s" by (rule spin_reachable_inv [OF assms])
  then have "owns (ss_cpu s i) \<and> owns (ss_cpu s j) \<longrightarrow> i = j" unfolding spin_inv_def by blast
  moreover have "owns (ss_cpu s i) \<longrightarrow> lk_flag (ss_lock s) = 1" using inv unfolding spin_inv_def by blast
  moreover have "cpu_ok (ss_lock s) (ss_cpu s i)" using inv unfolding spin_inv_def by blast
  ultimately show ?thesis by (simp add: cpu_ok_def owns_def)
qed

definition demo_spin :: spin_sys where
  "demo_spin = \<lparr>ss_lock = \<lparr>lk_flag = 0, lk_owner_pid = 0, lk_rflags = 0\<rparr>,
     ss_cpu = (\<lambda>i. \<lparr>sc_pc = Outside, sc_flags = 512, sc_saved = 0, sc_back = 0, sc_pid = int i\<rparr>)\<rparr>"

text \<open>Running the CPUs in a given order.\<close>

fun spin_drive :: "nat list \<Rightarrow> spin_sys \<Rightarrow> spin_sys" where
  "spin_drive [] s = s"
| "spin_drive (i # is) s = spin_drive is
     (s\<lparr>ss_lock := fst (spin_act (ss_lock s) (ss_cpu s i)),
        ss_cpu := (ss_cpu s)(i := snd (spin_act (ss_lock s) (ss_cpu s i)))\<rparr>)"

lemma spin_drive_reachable: "spin_reachable s \<Longrightarrow> spin_reachable (spin_drive is s)"
proof (induction "is" s rule: spin_drive.induct)
  case (2 i "is" s)
  have "spin_step s (s\<lparr>ss_lock := fst (spin_act (ss_lock s) (ss_cpu s i)),
      ss_cpu := (ss_cpu s)(i := snd (spin_act (ss_lock s) (ss_cpu s i)))\<rparr>)"
    by (rule spin_step.act) simp
  then show ?case using 2 spin_reachable.step by simp
qed simp

theorem spinlock_mutual_exclusion_witness:
  "sc_pc (ss_cpu (spin_drive [0, 0, 1, 0, 1, 0] demo_spin) 0) = Holding
   \<and> \<not> owns (ss_cpu (spin_drive [0, 0, 1, 0, 1, 0] demo_spin) 1)"
proof -
  have r: "spin_reachable (spin_drive [0, 0, 1, 0, 1, 0] demo_spin)"
    by (intro spin_drive_reachable spin_reachable.start) (simp add: spin_init_def demo_spin_def)
  have h: "sc_pc (ss_cpu (spin_drive [0, 0, 1, 0, 1, 0] demo_spin) 0) = Holding"
    by (simp add: demo_spin_def spin_act.simps local_irq_disable_save_def)
  then show ?thesis
    using spinlock_mutual_exclusion [OF r, of 0 1] by (auto simp: owns_def)
qed

text \<open>
  A CPU that tries to acquire the lock while its flag is set (a CPU that acquires it twice, say)
  spins for as long as nobody else clears the flag.
\<close>

lemma spinlock_reacquire_spins:
  assumes "lk_flag l = 1" and "sc_pc c = Outside" and "spin_run (Suc n) (l, c) = (l', c')"
  shows "sc_pc c' \<in> {TestAndSet, Poll} \<and> lk_flag l' = 1"
proof -
  obtain l1 c1 where lc: "spin_act l c = (l1, c1)" by (cases "spin_act l c")
  then have "lk_flag l1 = 1" "sc_pc c1 \<in> {TestAndSet, Poll}"
    using assms(1,2) by (auto simp: spin_act.simps split: prod.splits)
  then show ?thesis using spin_run_stuck [of l1 c1 n] lc assms(3) by simp
qed

end
