(* ===== verification/Tasks.thy ===== *)
theory Tasks
  imports Prelude
begin

text \<open>
  The task control block of \<^verbatim>\<open>kernel/kernel/multitasking/tasks/task_small.h\<close>. A task pointer is a
  \<open>nat\<close>; the tasks live in a store from pointers to control blocks, and a freed task has no entry
  there. \<^verbatim>\<open>task_state_t\<close> is a bit set, as in the enum.

  The fields \<open>next\<close>, \<open>queue\<close>, \<open>lifespan\<close>, \<open>lock\<close>, \<open>elf_symbol_table\<close> and \<open>bss_segment_addr\<close>
  are not used by the modelled code. \<open>t_machine_state\<close> is the stack the saved stack pointer
  points to, as the list of its words from that address upwards.
\<close>

type_synonym task_ptr = nat

definition RUNNABLE :: u32 where "RUNNABLE = 1"
definition ZOMBIE :: u32 where "ZOMBIE = 2"
definition IRQ_WAIT :: u32 where "IRQ_WAIT = 256"
definition AMC_AWAIT_MESSAGE :: u32 where "AMC_AWAIT_MESSAGE = 512"
definition AMC_AWAIT_TIMESTAMP :: u32 where "AMC_AWAIT_TIMESTAMP = 2048"

lemmas task_state_defs =
  RUNNABLE_def ZOMBIE_def IRQ_WAIT_def AMC_AWAIT_MESSAGE_def AMC_AWAIT_TIMESTAMP_def

record task_small =
  t_id :: u32
  t_name :: "string option"
  t_machine_state :: "u64 list"
  t_status :: u32
  t_wake_timestamp :: u32
  t_unblock_reason :: u32
  t_timeslice_start :: u64
  t_timeslice_end :: u64
  t_is_thread :: bool
  t_vas_state :: nat
  t_sbrk_base :: u64
  t_sbrk_current_break :: u64
  t_sbrk_current_page_head :: u64
  t_is_managed_by_parent :: bool
  t_managing_parent_service_name :: "string option"
  t_kernel_stack :: u64
  t_cpu_id :: nat
  t_is_currently_executing :: bool

type_synonym task_store = "task_ptr \<rightharpoonup> task_small"

text \<open>A state that holds the tasks and the time; the kernel's components extend it.\<close>

record sys =
  sys_tasks :: task_store
  sys_now :: u64    \<comment> \<open>\<^verbatim>\<open>ms_since_boot()\<close>\<close>

definition upd_task :: "task_ptr \<Rightarrow> (task_small \<Rightarrow> task_small) \<Rightarrow> 'z sys_scheme \<Rightarrow> 'z sys_scheme res"
where
  "upd_task p f s =
     ebind (load (sys_tasks s) p) (\<lambda>t. Inr (s\<lparr>sys_tasks := (sys_tasks s)(p \<mapsto> f t)\<rparr>))"

lemma upd_task_ok:
  "sys_tasks s p = Some t \<Longrightarrow> upd_task p f s = Inr (s\<lparr>sys_tasks := (sys_tasks s)(p \<mapsto> f t)\<rparr>)"
  by (simp add: upd_task_def)

lemma upd_task_dest:
  "upd_task p f s = Inr s' \<Longrightarrow>
   \<exists>t. sys_tasks s p = Some t \<and> s' = s\<lparr>sys_tasks := (sys_tasks s)(p \<mapsto> f t)\<rparr>"
  by (auto simp: upd_task_def ebind_eq_Inr)

definition runnable :: "task_small \<Rightarrow> bool" where
  "runnable t \<longleftrightarrow> t_status t = RUNNABLE \<and> \<not> t_is_currently_executing t"

text \<open>A task with every field zeroed, as \<^verbatim>\<open>kcalloc\<close> returns it; the examples start from it.\<close>

definition zero_task :: task_small where
  "zero_task = \<lparr>t_id = 0, t_name = None, t_machine_state = [], t_status = 0, t_wake_timestamp = 0,
     t_unblock_reason = 0, t_timeslice_start = 0, t_timeslice_end = 0, t_is_thread = False,
     t_vas_state = 0, t_sbrk_base = 0, t_sbrk_current_break = 0, t_sbrk_current_page_head = 0,
     t_is_managed_by_parent = False, t_managing_parent_service_name = None, t_kernel_stack = 0, t_cpu_id = 0,
     t_is_currently_executing = False\<rparr>"

end
