(* ===== verification/Mlfq.thy ===== *)
theory Mlfq
  imports Tasks Array_M "HOL-Library.Multiset"
begin

text \<open>
  The multi-level feedback queue of \<^verbatim>\<open>kernel/kernel/multitasking/tasks/mlfq.c\<close>: four queues of
  scheduler entries, each an \<open>array_m\<close> of at most 128 entries with a quantum of its own.

  A queue object and an entry object are referenced from exactly one array slot, so an update
  through their pointer is an update of that slot (\<open>am_put\<close>). A queue's own spinlock is its flag
  \<open>mq_lock\<close>. The lemmas show that every operation keeps the queues well formed and loses or
  duplicates no task, which task \<^verbatim>\<open>mlfq_choose_task\<close> picks, and what a demotion and a priority
  boost do to an entry.
\<close>

subsection \<open>Data\<close>

definition MLFQ_QUEUE_COUNT :: int where "MLFQ_QUEUE_COUNT = 4"

definition mlfq_quantums :: "u32 list" where "mlfq_quantums = [20, 30, 40, 60]"

record mlfq_ent =
  me_task :: task_ptr
  me_last_schedule_start :: u32
  me_ttl_remaining :: u32

record mlfq_queue =
  mq_quantum :: u32
  mq_tasks :: "mlfq_ent array_m"
  mq_lock :: bool

record mlfq_sys = sys +
  queues :: "mlfq_queue array_m"

text \<open>The object behind slot \<open>i\<close> is changed through its pointer.\<close>

definition am_put :: "'a array_m \<Rightarrow> int \<Rightarrow> 'a \<Rightarrow> 'a array_m" where
  "am_put a i x = a\<lparr>am_array := (am_array a)[nat i := Some x]\<rparr>"

definition put_queue :: "int \<Rightarrow> mlfq_queue \<Rightarrow> 'z mlfq_sys_scheme \<Rightarrow> 'z mlfq_sys_scheme" where
  "put_queue i q s = s\<lparr>queues := am_put (queues s) i q\<rparr>"

definition put_ent :: "int \<Rightarrow> mlfq_ent \<Rightarrow> mlfq_queue \<Rightarrow> mlfq_queue" where
  "put_ent j ent q = q\<lparr>mq_tasks := am_put (mq_tasks q) j ent\<rparr>"

definition get_queue :: "'z mlfq_sys_scheme \<Rightarrow> int \<Rightarrow> mlfq_queue res" where
  "get_queue s i = ebind (array_m_lookup (queues s) i) deref"

definition get_ent :: "mlfq_queue \<Rightarrow> int \<Rightarrow> mlfq_ent res" where
  "get_ent q j = ebind (array_m_lookup (mq_tasks q) j) deref"

definition queue_acquire :: "mlfq_queue \<Rightarrow> mlfq_queue res" where
  "queue_acquire q = (if mq_lock q then Inl Deadlock else Inr (q\<lparr>mq_lock := True\<rparr>))"

definition queue_release :: "mlfq_queue \<Rightarrow> mlfq_queue" where
  "queue_release q = q\<lparr>mq_lock := False\<rparr>"

subsection \<open>Operations\<close>

fun mlfq_init_loop :: "u32 list \<Rightarrow> mlfq_queue array_m \<Rightarrow> mlfq_queue array_m res" where
  "mlfq_init_loop [] qs = Inr qs"
| "mlfq_init_loop (quantum # rest) qs =
     ebind (array_m_insert qs
       \<lparr>mq_quantum = quantum, mq_tasks = array_m_create 128, mq_lock = False\<rparr>)
       (mlfq_init_loop rest)"

definition mlfq_init :: "'z mlfq_sys_scheme \<Rightarrow> 'z mlfq_sys_scheme res" where
  "mlfq_init s =
     ebind (mlfq_init_loop mlfq_quantums (array_m_create MLFQ_QUEUE_COUNT)) (\<lambda>qs.
     Inr (s\<lparr>queues := qs\<rparr>))"

definition mlfq_add_task_to_queue ::
  "task_ptr \<Rightarrow> u32 \<Rightarrow> 'z mlfq_sys_scheme \<Rightarrow> 'z mlfq_sys_scheme res" where
  "mlfq_add_task_to_queue task queue_idx s =
     ebind (kassert (uint queue_idx < MLFQ_QUEUE_COUNT) ''Invalid queue provided'') (\<lambda>_.
     ebind (get_queue s (uint queue_idx)) (\<lambda>queue.
     ebind (array_m_insert (mq_tasks queue)
       \<lparr>me_task = task, me_last_schedule_start = 0, me_ttl_remaining = mq_quantum queue\<rparr>) (\<lambda>ts.
     Inr (put_queue (uint queue_idx) (queue\<lparr>mq_tasks := ts\<rparr>) s))))"

text \<open>
  The two nested loops of \<^verbatim>\<open>mlfq_choose_task\<close>, \<^verbatim>\<open>_find_task\<close> and \<^verbatim>\<open>mlfq_next_quantum_for_task\<close>:
  from the high-priority queue down, and front to back inside a queue, the first entry that
  passes the test.
\<close>

function scan_queue :: "(mlfq_ent \<Rightarrow> bool res) \<Rightarrow> mlfq_queue \<Rightarrow> int \<Rightarrow> (int \<times> mlfq_ent) option res"
where
  "scan_queue P q j =
     (if j < am_size (mq_tasks q)
      then ebind (get_ent q j) (\<lambda>ent.
           ebind (P ent) (\<lambda>hit.
           if hit then Inr (Some (j, ent)) else scan_queue P q (j + 1)))
      else Inr None)"
  by pat_completeness auto
termination
  by (relation "measure (\<lambda>(_, q, j). nat (am_size (mq_tasks q) - j))") auto

function scan_queues :: "(mlfq_ent \<Rightarrow> bool res) \<Rightarrow> 'z mlfq_sys_scheme \<Rightarrow> int \<Rightarrow>
  (int \<times> mlfq_queue \<times> int \<times> mlfq_ent) option res"
where
  "scan_queues P s i =
     (if i < MLFQ_QUEUE_COUNT
      then ebind (get_queue s i) (\<lambda>q.
           ebind (scan_queue P q 0) (\<lambda>r.
           case r of Some (j, ent) \<Rightarrow> Inr (Some (i, q, j, ent)) | None \<Rightarrow> scan_queues P s (i + 1)))
      else Inr None)"
  by pat_completeness auto
termination
  by (relation "measure (\<lambda>(_, _, i). nat (MLFQ_QUEUE_COUNT - i))") auto

declare scan_queue.simps [simp del] scan_queues.simps [simp del]

definition ent_runnable :: "task_store \<Rightarrow> mlfq_ent \<Rightarrow> bool res" where
  "ent_runnable h ent = ebind (load h (me_task ent)) (\<lambda>t. Inr (runnable t))"

definition mlfq_choose_task ::
  "'z mlfq_sys_scheme \<Rightarrow> ((task_ptr \<times> u32) option \<times> 'z mlfq_sys_scheme) res" where
  "mlfq_choose_task s =
     ebind (scan_queues (ent_runnable (sys_tasks s)) s 0) (\<lambda>r.
     case r of
       None \<Rightarrow> Inr (None, s)
     | Some (i, q, j, ent) \<Rightarrow>
         Inr (Some (me_task ent, me_ttl_remaining ent),
              put_queue i (put_ent j (ent\<lparr>me_last_schedule_start := ucast (sys_now s)\<rparr>) q) s))"

definition find_task :: "task_ptr \<Rightarrow> 'z mlfq_sys_scheme \<Rightarrow> (int \<times> int) option res" where
  "find_task task s =
     ebind (scan_queues (\<lambda>ent. Inr (me_task ent = task)) s 0) (\<lambda>r.
     Inr (map_option (\<lambda>(i, q, j, ent). (i, j)) r))"

definition mlfq_next_quantum_for_task ::
  "task_ptr \<Rightarrow> 'z mlfq_sys_scheme \<Rightarrow> (u32 option \<times> 'z mlfq_sys_scheme) res" where
  "mlfq_next_quantum_for_task task s =
     ebind (scan_queues (\<lambda>ent. Inr (me_task ent = task)) s 0) (\<lambda>r.
     case r of
       None \<Rightarrow> Inr (None, s)
     | Some (i, q, j, ent) \<Rightarrow>
         Inr (Some (me_ttl_remaining ent),
              put_queue i (put_ent j (ent\<lparr>me_last_schedule_start := ucast (sys_now s)\<rparr>) q) s))"

definition mlfq_delete_task :: "task_ptr \<Rightarrow> 'z mlfq_sys_scheme \<Rightarrow> 'z mlfq_sys_scheme res" where
  "mlfq_delete_task task s =
     ebind (find_task task s) (\<lambda>r.
     case r of
       None \<Rightarrow> Inr s
     | Some (queue_idx, entry_idx) \<Rightarrow>
         ebind (get_queue s queue_idx) (\<lambda>q.
         ebind (queue_acquire q) (\<lambda>q.
         ebind (get_ent q entry_idx) (\<lambda>ent.
         ebind (array_m_remove (mq_tasks q) entry_idx) (\<lambda>ts.
         Inr (put_queue queue_idx (queue_release (q\<lparr>mq_tasks := ts\<rparr>)) s))))))"

lemma array_m_remove_size:
  "array_m_remove a i = Inr a' \<Longrightarrow> am_size a' = am_size a - 1"
  by (auto simp: array_m_remove_def array_m_remove_unlocked_def am_acquire_def am_release_def
      ebind_eq_Inr split: if_splits)

text \<open>\<^verbatim>\<open>while (q->round_robin_tasks->size > 0)\<close> of the priority boost.\<close>

function boost_drain :: "task_store \<Rightarrow> u32 \<Rightarrow> mlfq_ent array_m \<Rightarrow> mlfq_ent array_m \<Rightarrow>
  (mlfq_ent array_m \<times> mlfq_ent array_m) res"
where
  "boost_drain h quantum ts high =
     (if am_size ts > 0
      then ebind (ebind (array_m_lookup ts 0) deref) (\<lambda>ent.
           ebind (array_m_remove ts 0) (\<lambda>ts'.
           ebind (load h (me_task ent)) (\<lambda>_.
           ebind (array_m_insert high (ent\<lparr>me_ttl_remaining := quantum\<rparr>)) (\<lambda>high'.
           boost_drain h quantum ts' high'))))
      else Inr (ts, high))"
  by pat_completeness auto
termination
  by (relation "measure (\<lambda>(_, _, ts, _). nat (am_size ts))") (auto dest: array_m_remove_size)

declare boost_drain.simps [simp del]

function boost_loop :: "mlfq_queue \<Rightarrow> int \<Rightarrow> 'z mlfq_sys_scheme \<Rightarrow>
  (mlfq_queue \<times> 'z mlfq_sys_scheme) res"
where
  "boost_loop high i s =
     (if i < MLFQ_QUEUE_COUNT
      then ebind (get_queue s i) (\<lambda>q.
           ebind (queue_acquire q) (\<lambda>q.
           ebind (boost_drain (sys_tasks s) (mq_quantum high) (mq_tasks q) (mq_tasks high)) (\<lambda>(ts, hts).
           boost_loop (high\<lparr>mq_tasks := hts\<rparr>) (i + 1)
             (put_queue i (queue_release (q\<lparr>mq_tasks := ts\<rparr>)) s))))
      else Inr (high, s))"
  by pat_completeness auto
termination
  by (relation "measure (\<lambda>(_, i, _). nat (MLFQ_QUEUE_COUNT - i))") auto

declare boost_loop.simps [simp del]

definition mlfq_priority_boost_if_necessary ::
  "'z mlfq_sys_scheme \<Rightarrow> (bool \<times> 'z mlfq_sys_scheme) res" where
  "mlfq_priority_boost_if_necessary s =
     (if sys_now s mod 1000 = 0
      then ebind (get_queue s 0) (\<lambda>high.
           ebind (queue_acquire high) (\<lambda>high.
           ebind (boost_loop high 1 s) (\<lambda>(high, s).
           Inr (True, put_queue 0 (queue_release high) s))))
      else Inr (False, s))"

definition mlfq_prepare_for_switch_from_task ::
  "task_ptr \<Rightarrow> 'z mlfq_sys_scheme \<Rightarrow> (bool \<times> 'z mlfq_sys_scheme) res" where
  "mlfq_prepare_for_switch_from_task task s =
     ebind (find_task task s) (\<lambda>r.
     case r of
       None \<Rightarrow> Inr (False, s)
     | Some (queue_idx, ent_idx) \<Rightarrow>
         ebind (get_queue s queue_idx) (\<lambda>q.
         ebind (queue_acquire q) (\<lambda>q.
         ebind (get_ent q ent_idx) (\<lambda>ent.
         let runtime = ucast (sys_now s) - me_last_schedule_start ent;
             ttl_remaining = me_ttl_remaining ent - runtime
         in if sint ttl_remaining \<le> 0
            then ebind (array_m_remove (mq_tasks q) ent_idx) (\<lambda>ts.
                 if queue_idx = MLFQ_QUEUE_COUNT - 1
                 then ebind (array_m_insert ts (ent\<lparr>me_ttl_remaining := mq_quantum q\<rparr>)) (\<lambda>ts.
                      Inr (True, put_queue queue_idx (queue_release (q\<lparr>mq_tasks := ts\<rparr>)) s))
                 else ebind (get_queue s (queue_idx + 1)) (\<lambda>new_queue.
                      ebind (array_m_insert (mq_tasks new_queue)
                        (ent\<lparr>me_ttl_remaining := mq_quantum new_queue\<rparr>)) (\<lambda>nts.
                      Inr (True, put_queue queue_idx (queue_release (q\<lparr>mq_tasks := ts\<rparr>))
                        (put_queue (queue_idx + 1) (new_queue\<lparr>mq_tasks := nts\<rparr>) s)))))
            else Inr (True, put_queue queue_idx
                   (queue_release (put_ent ent_idx (ent\<lparr>me_ttl_remaining := ttl_remaining\<rparr>) q)) s)))))"

subsection \<open>The abstract queues\<close>

abbreviation ents :: "mlfq_queue \<Rightarrow> mlfq_ent list" where
  "ents q \<equiv> am_list (mq_tasks q)"

abbreviation qlist :: "'z mlfq_sys_scheme \<Rightarrow> mlfq_queue list" where
  "qlist s \<equiv> am_list (queues s)"

definition queue_wf :: "mlfq_queue \<Rightarrow> bool" where
  "queue_wf q \<longleftrightarrow> am_ok (mq_tasks q) \<and> am_cap (mq_tasks q) = 128 \<and> \<not> mq_lock q"

definition mlfq_wf :: "'z mlfq_sys_scheme \<Rightarrow> bool" where
  "mlfq_wf s \<longleftrightarrow> am_ok (queues s) \<and> map mq_quantum (qlist s) = mlfq_quantums
     \<and> list_all queue_wf (qlist s)"

text \<open>
  The abstract scheduler: the entries of the four queues, front to back, and every task they name.
\<close>

definition levels :: "'z mlfq_sys_scheme \<Rightarrow> mlfq_ent list list" where
  "levels s = map (\<lambda>q. am_list (mq_tasks q)) (qlist s)"

definition sched_tasks :: "'z mlfq_sys_scheme \<Rightarrow> task_ptr list" where
  "sched_tasks s = map me_task (concat (levels s))"

text \<open>The scheduler never holds a freed task.\<close>

definition sched_live :: "'z mlfq_sys_scheme \<Rightarrow> bool" where
  "sched_live s \<longleftrightarrow> set (sched_tasks s) \<subseteq> dom (sys_tasks s)"

lemma mlfq_wf_length: "mlfq_wf s \<Longrightarrow> length (qlist s) = 4"
  by (auto simp: mlfq_wf_def mlfq_quantums_def dest: map_eq_imp_length_eq)

lemma mlfq_wf_nth: "mlfq_wf s \<Longrightarrow> i < 4 \<Longrightarrow> queue_wf (qlist s ! i)"
  using mlfq_wf_length [of s] by (simp add: mlfq_wf_def list_all_length)

lemma mlfq_wf_quantum: "mlfq_wf s \<Longrightarrow> i < 4 \<Longrightarrow> mq_quantum (qlist s ! i) = mlfq_quantums ! i"
  using mlfq_wf_length [of s] by (metis mlfq_wf_def nth_map)

lemma sched_tasks_mem:
  "mlfq_wf s \<Longrightarrow> i < 4 \<Longrightarrow> ent \<in> set (ents (qlist s ! i)) \<Longrightarrow> me_task ent \<in> set (sched_tasks s)"
  using mlfq_wf_length [of s] by (fastforce simp: sched_tasks_def levels_def)

lemma levels_length: "mlfq_wf s \<Longrightarrow> length (levels s) = 4"
  by (simp add: levels_def mlfq_wf_length)

lemma levels_nth: "mlfq_wf s \<Longrightarrow> i < 4 \<Longrightarrow> levels s ! i = ents (qlist s ! i)"
  by (simp add: levels_def mlfq_wf_length)

lemma am_put_ok:
  assumes "am_ok a" and "i < length (am_list a)"
  shows "am_ok (am_put a (int i) x)" "am_list (am_put a (int i) x) = (am_list a)[i := x]"
    "am_cap (am_put a (int i) x) = am_cap a"
proof -
  have wf: "slots_wf (am_array a) (am_size a) (am_max_size a)" using assms(1) by (simp add: am_defs)
  have "int i < am_size a" using am_wf_size [of a] assms by (simp add: am_ok_def)
  then show "am_ok (am_put a (int i) x)" "am_list (am_put a (int i) x) = (am_list a)[i := x]"
    "am_cap (am_put a (int i) x) = am_cap a"
    using slots_update [OF wf, of "int i" x] assms(1) by (simp_all add: am_put_def am_defs)
qed

lemma get_queue_ok: "mlfq_wf s \<Longrightarrow> i < 4 \<Longrightarrow> get_queue s (int i) = Inr (qlist s ! i)"
  using am.get_ok [of "queues s" i] mlfq_wf_length [of s] by (simp add: get_queue_def mlfq_wf_def)

lemma get_queue_dest:
  assumes "mlfq_wf s" and "get_queue s i = Inr q"
  shows "\<exists>k. i = int k \<and> k < 4 \<and> q = qlist s ! k"
proof -
  obtain p where p: "array_m_lookup (queues s) i = Inr p" "p = Some q"
    using assms(2) by (auto simp: get_queue_def ebind_eq_Inr)
  then show ?thesis
    using am.get_dest [of "queues s" i p] mlfq_wf_length [OF assms(1)] assms(1)
    by (auto simp: mlfq_wf_def intro!: exI [of _ "nat i"])
qed

lemma get_ent_ok: "queue_wf q \<Longrightarrow> j < length (ents q) \<Longrightarrow> get_ent q (int j) = Inr (ents q ! j)"
  using am.get_ok [of "mq_tasks q" j] by (simp add: get_ent_def queue_wf_def)

lemma put_queue_list:
  assumes "mlfq_wf s" and "i < 4"
  shows "qlist (put_queue (int i) q s) = (qlist s)[i := q]"
  using am_put_ok [of "queues s" i q] assms mlfq_wf_length [of s]
  by (simp add: put_queue_def mlfq_wf_def)

lemma put_queue_wf:
  assumes "mlfq_wf s" and "i < 4" and "queue_wf q" and "mq_quantum q = mq_quantum (qlist s ! i)"
  shows "mlfq_wf (put_queue (int i) q s)"
proof -
  have "(map mq_quantum (qlist s))[i := mq_quantum (qlist s ! i)] = map mq_quantum (qlist s)"
    using assms(2) mlfq_wf_length [OF assms(1)] by (simp flip: map_update)
  moreover have "list_all queue_wf ((qlist s)[i := q])"
    using assms(1,3) set_update_subset_insert [of "qlist s" i q]
    by (auto simp: mlfq_wf_def list_all_iff)
  ultimately show ?thesis
    using am_put_ok [of "queues s" i q] assms mlfq_wf_length [OF assms(1)]
    by (simp add: mlfq_wf_def put_queue_def map_update)
qed

lemma put_queue_frame [simp]:
  "sys_tasks (put_queue i q s) = sys_tasks s" "sys_now (put_queue i q s) = sys_now s"
  by (simp_all add: put_queue_def)

lemma put_ent_ok:
  assumes "queue_wf q" and "j < length (ents q)"
  shows "queue_wf (put_ent (int j) ent q)" "ents (put_ent (int j) ent q) = (ents q)[j := ent]"
    "mq_quantum (put_ent (int j) ent q) = mq_quantum q" "mq_lock (put_ent (int j) ent q) = mq_lock q"
  using am_put_ok [of "mq_tasks q" j ent] assms by (simp_all add: put_ent_def queue_wf_def)

lemma levels_put:
  assumes "mlfq_wf s" and "i < 4"
  shows "levels (put_queue (int i) q s) = (levels s)[i := ents q]"
  using assms by (simp add: levels_def put_queue_list map_update)

lemma levels_cong [simp]:
  "levels (s\<lparr>sys_tasks := h\<rparr>) = levels s" "levels (s\<lparr>sys_now := n\<rparr>) = levels s"
  by (simp_all add: levels_def)

lemma mlfq_wf_cong [simp]:
  "mlfq_wf (s\<lparr>sys_tasks := h\<rparr>) = mlfq_wf s" "mlfq_wf (s\<lparr>sys_now := n\<rparr>) = mlfq_wf s"
  by (simp_all add: mlfq_wf_def)

text \<open>Replacing one list of a list of lists, as multisets.\<close>

lemma mset_concat_update:
  "i < length L \<Longrightarrow> mset (concat (L[i := xs])) + mset (L ! i) = mset (concat L) + mset xs"
proof (induction L arbitrary: i)
  case Nil
  then show ?case by simp
next
  case (Cons x L)
  then show ?case by (cases i) (auto simp: algebra_simps)
qed

subsection \<open>What the scans find\<close>

lemma scan_queue_from:
  assumes "queue_wf q" and "\<And>ent. ent \<in> set (ents q) \<Longrightarrow> P ent = Inr (p ent)" and "k \<le> length (ents q)"
  shows "scan_queue P q (int k) =
    Inr (map_option (\<lambda>j. (int (k + j), ents q ! (k + j))) (first_index p (drop k (ents q))))"
  using assms(3)
proof (induction "length (ents q) - k" arbitrary: k)
  case 0
  have "am_size (mq_tasks q) = int (length (ents q))"
    using assms(1) am_wf_size by (auto simp: queue_wf_def am_ok_def)
  then show ?case using 0 by (simp add: scan_queue.simps [of P q "int k"])
next
  case (Suc n)
  then have k: "k < length (ents q)" by simp
  have sz: "am_size (mq_tasks q) = int (length (ents q))"
    using assms(1) am_wf_size by (auto simp: queue_wf_def am_ok_def)
  have step: "scan_queue P q (int k) =
      (if p (ents q ! k) then Inr (Some (int k, ents q ! k)) else scan_queue P q (int (Suc k)))"
    using k sz assms(2) [of "ents q ! k"] get_ent_ok [OF assms(1) k]
    by (simp add: scan_queue.simps [of P q "int k"] add.commute)
  have d: "drop k (ents q) = ents q ! k # drop (Suc k) (ents q)"
    using k by (simp add: Cons_nth_drop_Suc)
  show ?case
  proof (cases "p (ents q ! k)")
    case True
    then show ?thesis using step d by simp
  next
    case False
    moreover have "scan_queue P q (int (Suc k)) = Inr (map_option
        (\<lambda>j. (int (Suc k + j), ents q ! (Suc k + j))) (first_index p (drop (Suc k) (ents q))))"
      by (rule Suc.hyps(1)) (use Suc.hyps(2) k in auto)
    moreover have "int k + int (Suc j) = int (Suc k + j)" for j by simp
    ultimately show ?thesis using step d by (simp add: option.map_comp comp_def algebra_simps)
  qed
qed

fun first_hit :: "('a \<Rightarrow> bool) \<Rightarrow> 'a list list \<Rightarrow> (nat \<times> nat) option" where
  "first_hit p [] = None"
| "first_hit p (xs # L) =
     (case first_index p xs of
        Some j \<Rightarrow> Some (0, j)
      | None \<Rightarrow> map_option (\<lambda>(i, j). (Suc i, j)) (first_hit p L))"

lemma first_hit_None: "first_hit p L = None \<longleftrightarrow> (\<forall>x \<in> set (concat L). \<not> p x)"
proof (induction L)
  case Nil
  then show ?case by simp
next
  case (Cons xs L)
  have "first_hit p (xs # L) = None \<longleftrightarrow> first_index p xs = None \<and> first_hit p L = None"
    by (simp split: option.splits)
  then show ?case unfolding Cons.IH first_index_None by auto
qed

lemma first_hit_Some:
  "first_hit p L = Some (i, j) \<Longrightarrow>
     i < length L \<and> j < length (L ! i) \<and> p (L ! i ! j)
   \<and> (\<forall>j' < j. \<not> p (L ! i ! j')) \<and> (\<forall>i' < i. \<forall>x \<in> set (L ! i'). \<not> p x)"
proof (induction L arbitrary: i j)
  case Nil
  then show ?case by simp
next
  case (Cons xs L)
  show ?case
  proof (cases "first_index p xs")
    case None
    with Cons.prems obtain i' where i': "i = Suc i'" "first_hit p L = Some (i', j)" by auto
    have "\<forall>x \<in> set ((xs # L) ! l). \<not> p x" if "l < i" for l
      using that i'(1) None Cons.IH [OF i'(2)] first_index_None [of p xs] by (cases l) simp_all
    then show ?thesis using Cons.IH [OF i'(2)] i'(1) by simp
  next
    case (Some j')
    then have "i = 0" "j = j'" using Cons.prems by simp_all
    then show ?thesis using first_index_Some [of p xs j'] Some by simp
  qed
qed

lemma scan_queues_from:
  assumes "mlfq_wf s" and "\<And>ent. ent \<in> set (concat (levels s)) \<Longrightarrow> P ent = Inr (p ent)" and "k \<le> 4"
  shows "scan_queues P s (int k) = Inr (map_option
    (\<lambda>(i, j). (int (k + i), qlist s ! (k + i), int j, levels s ! (k + i) ! j))
    (first_hit p (drop k (levels s))))"
  using assms(3)
proof (induction "4 - k" arbitrary: k)
  case 0
  then have "k = 4" by simp
  then show ?case
    using levels_length [OF assms(1)] by (simp add: scan_queues.simps [of P s 4] MLFQ_QUEUE_COUNT_def)
next
  case (Suc n)
  then have k: "k < 4" by simp
  let ?q = "qlist s ! k"
  have len: "k < length (levels s)" and nth: "levels s ! k = ents ?q"
    using k levels_length [OF assms(1)] levels_nth [OF assms(1) k] by simp_all
  have "P ent = Inr (p ent)" if "ent \<in> set (ents ?q)" for ent
    using that assms(2) [of ent] len nth by (metis UN_I nth_mem set_concat)
  then have sq: "scan_queue P ?q 0 = Inr (map_option (\<lambda>j. (int j, levels s ! k ! j)) (first_index p (levels s ! k)))"
    using scan_queue_from [of ?q P p 0] mlfq_wf_nth [OF assms(1) k] nth by simp
  have d: "drop k (levels s) = levels s ! k # drop (Suc k) (levels s)"
    using len by (simp add: Cons_nth_drop_Suc)
  show ?case
  proof (cases "first_index p (levels s ! k)")
    case None
    have "scan_queues P s (int k) = scan_queues P s (int (Suc k))"
      using k get_queue_ok [OF assms(1) k] sq None
      by (simp add: scan_queues.simps [of P s "int k"] MLFQ_QUEUE_COUNT_def add.commute)
    also have "\<dots> = Inr (map_option (\<lambda>(i, j). (int (Suc k + i), qlist s ! (Suc k + i), int j,
        levels s ! (Suc k + i) ! j)) (first_hit p (drop (Suc k) (levels s))))"
      by (rule Suc.hyps(1)) (use Suc.hyps(2) k in auto)
    finally show ?thesis
      using None d by (simp add: option.map_comp comp_def case_prod_unfold algebra_simps)
  next
    case (Some j)
    then show ?thesis
      using k get_queue_ok [OF assms(1) k] sq d
      by (simp add: scan_queues.simps [of P s "int k"] MLFQ_QUEUE_COUNT_def)
  qed
qed

lemmas scan_queues_ok = scan_queues_from [where k = 0, simplified]

lemma find_task_ok:
  assumes "mlfq_wf s"
  shows "find_task task s =
    Inr (map_option (\<lambda>(i, j). (int i, int j)) (first_hit (\<lambda>ent. me_task ent = task) (levels s)))"
  using scan_queues_ok [OF assms, of "\<lambda>ent. Inr (me_task ent = task)" "\<lambda>ent. me_task ent = task"]
  by (simp add: find_task_def option.map_comp comp_def case_prod_unfold)

subsection \<open>The abstract scheduler and its refinement\<close>

definition task_runnable :: "task_store \<Rightarrow> task_ptr \<Rightarrow> bool" where
  "task_runnable h t = (case h t of None \<Rightarrow> False | Some tcb \<Rightarrow> runnable tcb)"

definition update_at :: "nat \<Rightarrow> nat \<Rightarrow> ('a \<Rightarrow> 'a) \<Rightarrow> 'a list list \<Rightarrow> 'a list list" where
  "update_at i j f L = L[i := (L ! i)[j := f (L ! i ! j)]]"

definition spec_choose ::
  "task_store \<Rightarrow> u64 \<Rightarrow> mlfq_ent list list \<Rightarrow> (task_ptr \<times> u32) option \<times> mlfq_ent list list" where
  "spec_choose h now L =
     (case first_hit (\<lambda>ent. task_runnable h (me_task ent)) L of
        None \<Rightarrow> (None, L)
      | Some (i, j) \<Rightarrow> (Some (me_task (L ! i ! j), me_ttl_remaining (L ! i ! j)),
          update_at i j (me_last_schedule_start_update (\<lambda>_. ucast now)) L))"

definition spec_next_quantum ::
  "task_ptr \<Rightarrow> u64 \<Rightarrow> mlfq_ent list list \<Rightarrow> u32 option \<times> mlfq_ent list list" where
  "spec_next_quantum task now L =
     (case first_hit (\<lambda>ent. me_task ent = task) L of
        None \<Rightarrow> (None, L)
      | Some (i, j) \<Rightarrow> (Some (me_ttl_remaining (L ! i ! j)),
          update_at i j (me_last_schedule_start_update (\<lambda>_. ucast now)) L))"

definition spec_add :: "task_ptr \<Rightarrow> nat \<Rightarrow> mlfq_ent list list \<Rightarrow> mlfq_ent list list" where
  "spec_add task i L = L[i := L ! i @
     [\<lparr>me_task = task, me_last_schedule_start = 0, me_ttl_remaining = mlfq_quantums ! i\<rparr>]]"

definition spec_delete :: "task_ptr \<Rightarrow> mlfq_ent list list \<Rightarrow> mlfq_ent list list" where
  "spec_delete task L =
     (case first_hit (\<lambda>ent. me_task ent = task) L of
        None \<Rightarrow> L | Some (i, j) \<Rightarrow> L[i := remove_nth j (L ! i)])"

text \<open>The time an entry has left after the run that ends now, and what happens to it.\<close>

definition ttl_left :: "u64 \<Rightarrow> mlfq_ent \<Rightarrow> u32" where
  "ttl_left now ent = me_ttl_remaining ent - (ucast now - me_last_schedule_start ent)"

definition refill :: "nat \<Rightarrow> mlfq_ent \<Rightarrow> mlfq_ent" where
  "refill i ent = ent\<lparr>me_ttl_remaining := mlfq_quantums ! i\<rparr>"

definition spec_prepare :: "task_ptr \<Rightarrow> u64 \<Rightarrow> mlfq_ent list list \<Rightarrow> mlfq_ent list list" where
  "spec_prepare task now L =
     (case first_hit (\<lambda>ent. me_task ent = task) L of
        None \<Rightarrow> L
      | Some (i, j) \<Rightarrow>
          (if 0 < sint (ttl_left now (L ! i ! j))
           then update_at i j (\<lambda>ent. ent\<lparr>me_ttl_remaining := ttl_left now ent\<rparr>) L
           else if i = 3 then L[3 := remove_nth j (L ! 3) @ [refill 3 (L ! 3 ! j)]]
           else L[Suc i := L ! Suc i @ [refill (Suc i) (L ! i ! j)], i := remove_nth j (L ! i)]))"

definition spec_boost :: "mlfq_ent list list \<Rightarrow> mlfq_ent list list" where
  "spec_boost L = [L ! 0 @ map (refill 0) (L ! 1 @ L ! 2 @ L ! 3), [], [], []]"

text \<open>Nothing but the queues changes.\<close>

definition only_queues :: "'z mlfq_sys_scheme \<Rightarrow> 'z mlfq_sys_scheme \<Rightarrow> bool" where
  "only_queues s s' \<longleftrightarrow> s' = s\<lparr>queues := queues s'\<rparr>"

lemma only_queues_simps [simp]:
  "only_queues s s" "only_queues s (s\<lparr>queues := qs\<rparr>)" "only_queues s (put_queue i q s)"
  by (simp_all add: only_queues_def put_queue_def)

lemma only_queues_trans: "only_queues s s' \<Longrightarrow> only_queues s' s'' \<Longrightarrow> only_queues s s''"
  by (metis only_queues_def mlfq_sys.surjective mlfq_sys.update_convs(1))

lemma only_queues_frame:
  assumes "only_queues s s'"
  shows "sys_tasks s' = sys_tasks s" "sys_now s' = sys_now s" "mlfq_sys.more s' = mlfq_sys.more s"
  using assms unfolding only_queues_def
  by (metis sys.select_convs mlfq_sys.surjective mlfq_sys.update_convs(1) mlfq_sys.select_convs(2))+

lemma ent_runnable_live:
  assumes "sched_live s" and "ent \<in> set (concat (levels s))"
  shows "ent_runnable (sys_tasks s) ent = Inr (task_runnable (sys_tasks s) (me_task ent))"
proof -
  have "me_task ent \<in> dom (sys_tasks s)" using assms by (auto simp: sched_live_def sched_tasks_def)
  then show ?thesis by (auto simp: ent_runnable_def task_runnable_def)
qed

lemma put_ent_levels:
  assumes "mlfq_wf s" and "i < 4" and "j < length (levels s ! i)"
    and "q = qlist s ! i \<or> q = (qlist s ! i)\<lparr>mq_lock := True\<rparr>"
  shows "mlfq_wf (put_queue (int i) (queue_release (put_ent (int j) ent q)) s)"
    and "levels (put_queue (int i) (queue_release (put_ent (int j) ent q)) s)
      = (levels s)[i := (levels s ! i)[j := ent]]"
proof -
  have ok: "am_ok (mq_tasks q)" "am_cap (mq_tasks q) = 128" "mq_quantum q = mq_quantum (qlist s ! i)"
    and l: "ents q = levels s ! i"
    using mlfq_wf_nth [OF assms(1,2)] levels_nth [OF assms(1,2)] assms(4) by (auto simp: queue_wf_def)
  note put = am_put_ok [OF ok(1), of j ent, unfolded l, OF assms(3)]
  show "mlfq_wf (put_queue (int i) (queue_release (put_ent (int j) ent q)) s)"
    by (rule put_queue_wf [OF assms(1,2)])
      (use put ok in \<open>simp_all add: queue_wf_def queue_release_def put_ent_def\<close>)
  show "levels (put_queue (int i) (queue_release (put_ent (int j) ent q)) s)
      = (levels s)[i := (levels s ! i)[j := ent]]"
    using levels_put [OF assms(1,2)] put(2) by (simp add: queue_release_def put_ent_def)
qed

lemma put_ent_unlocked:
  assumes "mlfq_wf s" and "i < 4" and "j < length (levels s ! i)"
  shows "put_ent (int j) ent (qlist s ! i) = queue_release (put_ent (int j) ent (qlist s ! i))"
  using mlfq_wf_nth [OF assms(1,2)] by (simp add: put_ent_def queue_release_def queue_wf_def)

lemma hit_bounds:
  assumes "mlfq_wf s" and "first_hit p (levels s) = Some (i, j)"
  shows "i < 4" "j < length (levels s ! i)" "p (levels s ! i ! j)"
  using first_hit_Some [OF assms(2)] levels_length [OF assms(1)] by auto

text \<open>\<^verbatim>\<open>mlfq_choose_task\<close> always returns, with the choice of the abstract scheduler.\<close>

lemma choose_refines:
  assumes "mlfq_wf s" and "sched_live s"
  shows "\<exists>s'. mlfq_choose_task s = Inr (fst (spec_choose (sys_tasks s) (sys_now s) (levels s)), s')
    \<and> mlfq_wf s' \<and> only_queues s s' \<and> levels s' = snd (spec_choose (sys_tasks s) (sys_now s) (levels s))"
proof -
  let ?p = "\<lambda>ent. task_runnable (sys_tasks s) (me_task ent)"
  have scan: "scan_queues (ent_runnable (sys_tasks s)) s 0 = Inr (map_option
      (\<lambda>(i, j). (int i, qlist s ! i, int j, levels s ! i ! j)) (first_hit ?p (levels s)))"
    using scan_queues_ok [OF assms(1), of "ent_runnable (sys_tasks s)" ?p] ent_runnable_live [OF assms(2)]
    by simp
  show ?thesis
  proof (cases "first_hit ?p (levels s)")
    case None
    then show ?thesis using scan assms(1) by (simp add: mlfq_choose_task_def spec_choose_def)
  next
    case (Some h)
    then obtain i j where h: "first_hit ?p (levels s) = Some (i, j)" by (cases h) auto
    note b = hit_bounds [OF assms(1) h]
    show ?thesis
      using scan h put_ent_unlocked [OF assms(1) b(1,2)] put_ent_levels [OF assms(1) b(1,2) disjI1 [OF refl]]
      by (simp add: mlfq_choose_task_def spec_choose_def update_at_def)
  qed
qed

lemma next_quantum_refines:
  assumes "mlfq_wf s"
  shows "\<exists>s'. mlfq_next_quantum_for_task task s
      = Inr (fst (spec_next_quantum task (sys_now s) (levels s)), s')
    \<and> mlfq_wf s' \<and> only_queues s s' \<and> levels s' = snd (spec_next_quantum task (sys_now s) (levels s))"
proof -
  let ?p = "\<lambda>ent. me_task ent = task"
  have scan: "scan_queues (\<lambda>ent. Inr (?p ent)) s 0 = Inr (map_option
      (\<lambda>(i, j). (int i, qlist s ! i, int j, levels s ! i ! j)) (first_hit ?p (levels s)))"
    using scan_queues_ok [OF assms(1), of "\<lambda>ent. Inr (?p ent)" ?p] by simp
  show ?thesis
  proof (cases "first_hit ?p (levels s)")
    case None
    then show ?thesis using scan assms(1) by (simp add: mlfq_next_quantum_for_task_def spec_next_quantum_def)
  next
    case (Some h)
    then obtain i j where h: "first_hit ?p (levels s) = Some (i, j)" by (cases h) auto
    note b = hit_bounds [OF assms(1) h]
    show ?thesis
      using scan h put_ent_unlocked [OF assms(1) b(1,2)] put_ent_levels [OF assms(1) b(1,2) disjI1 [OF refl]]
      by (simp add: mlfq_next_quantum_for_task_def spec_next_quantum_def update_at_def)
  qed
qed

lemma queue_parts:
  assumes "mlfq_wf s" and "i < 4"
  shows "get_queue s (int i) = Inr (qlist s ! i)" "am_ok (mq_tasks (qlist s ! i))"
    "am_cap (mq_tasks (qlist s ! i)) = 128" "am_list (mq_tasks (qlist s ! i)) = levels s ! i"
    "queue_acquire (qlist s ! i) = Inr ((qlist s ! i)\<lparr>mq_lock := True\<rparr>)"
    "mq_quantum (qlist s ! i) = mlfq_quantums ! i" "mq_lock (qlist s ! i) = False"
  using get_queue_ok [OF assms] mlfq_wf_nth [OF assms] levels_nth [OF assms] mlfq_wf_quantum [OF assms]
  by (simp_all add: queue_wf_def queue_acquire_def)

lemma put_tasks_levels:
  assumes "mlfq_wf s" and "i < 4" and "am_ok ts" and "am_cap ts = 128"
    and "q = qlist s ! i \<or> q = (qlist s ! i)\<lparr>mq_lock := True\<rparr>"
  shows "mlfq_wf (put_queue (int i) (queue_release (q\<lparr>mq_tasks := ts\<rparr>)) s)"
    and "levels (put_queue (int i) (queue_release (q\<lparr>mq_tasks := ts\<rparr>)) s) = (levels s)[i := am_list ts]"
proof -
  show "mlfq_wf (put_queue (int i) (queue_release (q\<lparr>mq_tasks := ts\<rparr>)) s)"
    by (rule put_queue_wf [OF assms(1,2)]) (use assms in \<open>auto simp: queue_wf_def queue_release_def\<close>)
  show "levels (put_queue (int i) (queue_release (q\<lparr>mq_tasks := ts\<rparr>)) s) = (levels s)[i := am_list ts]"
    using levels_put [OF assms(1,2)] by (simp add: queue_release_def)
qed

lemma put_tasks_unlocked:
  assumes "mlfq_wf s" and "i < 4"
  shows "(qlist s ! i)\<lparr>mq_tasks := ts\<rparr> = queue_release ((qlist s ! i)\<lparr>mq_tasks := ts\<rparr>)"
  using queue_parts(7) [OF assms] by (simp add: queue_release_def)

lemma add_refines:
  assumes "mlfq_wf s" and "mlfq_add_task_to_queue task i s = Inr s'"
  shows "unat i < 4 \<and> mlfq_wf s' \<and> only_queues s s' \<and> levels s' = spec_add task (unat i) (levels s)"
proof -
  define k where "k = unat i"
  have i: "uint i = int k" by (simp add: k_def)
  have k: "k < 4" using assms(2) i by (auto simp: mlfq_add_task_to_queue_def ebind_eq_Inr MLFQ_QUEUE_COUNT_def)
  note qp = queue_parts [OF assms(1) k]
  obtain ts where ts: "array_m_insert (mq_tasks (qlist s ! k))
      \<lparr>me_task = task, me_last_schedule_start = 0, me_ttl_remaining = mlfq_quantums ! k\<rparr> = Inr ts"
    and s': "s' = put_queue (int k) ((qlist s ! k)\<lparr>mq_tasks := ts\<rparr>) s"
    using assms(2) i k qp by (auto simp: mlfq_add_task_to_queue_def ebind_eq_Inr)
  have "am_ok ts" "am_cap ts = 128" "am_list ts = levels s ! k @
      [\<lparr>me_task = task, me_last_schedule_start = 0, me_ttl_remaining = mlfq_quantums ! k\<rparr>]"
    using am.ins_dest [OF qp(2) ts] qp by simp_all
  then show ?thesis
    using s' k put_tasks_unlocked [OF assms(1) k, of ts] put_tasks_levels [OF assms(1) k, of ts "qlist s ! k"]
    by (simp add: spec_add_def k_def)
qed

lemma add_ok:
  assumes "mlfq_wf s" and "unat i < 4" and "length (levels s ! unat i) < 128"
  shows "is_ok (mlfq_add_task_to_queue task i s)"
proof -
  have i: "uint i < 4" using assms(2) by (metis of_nat_less_iff of_nat_numeral uint_nat)
  note qp = queue_parts [OF assms(1,2)]
  show ?thesis
    using am.ins_ok [OF qp(2), of "\<lparr>me_task = task, me_last_schedule_start = 0, me_ttl_remaining = mlfq_quantums ! unat i\<rparr>"]
      assms(2,3) i qp by (auto simp: mlfq_add_task_to_queue_def MLFQ_QUEUE_COUNT_def)
qed

lemma delete_refines:
  assumes "mlfq_wf s" and "mlfq_delete_task task s = Inr s'"
  shows "mlfq_wf s' \<and> only_queues s s' \<and> levels s' = spec_delete task (levels s)"
proof (cases "first_hit (\<lambda>ent. me_task ent = task) (levels s)")
  case None
  then show ?thesis using assms find_task_ok [OF assms(1), of task] by (simp add: mlfq_delete_task_def spec_delete_def)
next
  case (Some h)
  then obtain i j where h: "first_hit (\<lambda>ent. me_task ent = task) (levels s) = Some (i, j)" by (cases h) auto
  note b = hit_bounds [OF assms(1) h] and qp = queue_parts [OF assms(1) hit_bounds(1) [OF assms(1) h]]
  obtain ts where ts: "array_m_remove (mq_tasks (qlist s ! i)) (int j) = Inr ts"
    and s': "s' = put_queue (int i) (queue_release ((qlist s ! i)\<lparr>mq_lock := True\<rparr>\<lparr>mq_tasks := ts\<rparr>)) s"
    using assms(2) find_task_ok [OF assms(1), of task] h qp by (auto simp: mlfq_delete_task_def ebind_eq_Inr)
  have "am_ok ts" "am_cap ts = 128" "am_list ts = remove_nth j (levels s ! i)"
    using am.del_dest [OF qp(2) ts] qp by simp_all
  then show ?thesis
    using s' h put_tasks_levels [OF assms(1) b(1), of ts "(qlist s ! i)\<lparr>mq_lock := True\<rparr>"]
    by (simp add: spec_delete_def)
qed

lemma delete_ok:
  assumes "mlfq_wf s" and "\<And>i. i < 4 \<Longrightarrow> length (levels s ! i) < 128"
  shows "is_ok (mlfq_delete_task task s)"
proof (cases "first_hit (\<lambda>ent. me_task ent = task) (levels s)")
  case None
  then show ?thesis using find_task_ok [OF assms(1), of task] by (simp add: mlfq_delete_task_def)
next
  case (Some h)
  then obtain i j where h: "first_hit (\<lambda>ent. me_task ent = task) (levels s) = Some (i, j)" by (cases h) auto
  note b = hit_bounds [OF assms(1) h] and qp = queue_parts [OF assms(1) hit_bounds(1) [OF assms(1) h]]
  obtain ts where "array_m_remove (mq_tasks (qlist s ! i)) (int j) = Inr ts"
    using am.del_ok [OF qp(2), of j] b qp assms(2) [OF b(1)] by auto
  moreover have "array_m_lookup (mq_tasks (qlist s ! i)) (int j) = Inr (Some (levels s ! i ! j))"
    using am.get_ok [OF qp(2), of j] b qp by simp
  ultimately show ?thesis
    using find_task_ok [OF assms(1), of task] h qp by (simp add: mlfq_delete_task_def get_ent_def)
qed

text \<open>
  Switching away from a task: the three outcomes, by the entry's remaining time and its queue.
\<close>

definition requeue :: "nat \<Rightarrow> nat \<Rightarrow> 'z mlfq_sys_scheme \<Rightarrow> 'z mlfq_sys_scheme res" where
  "requeue i j s = ebind (array_m_remove (mq_tasks (qlist s ! i)) (int j)) (\<lambda>ts.
     if i = 3
     then ebind (array_m_insert ts (refill 3 (levels s ! i ! j))) (\<lambda>ts.
          Inr (put_queue (int i) (queue_release ((qlist s ! i)\<lparr>mq_lock := True, mq_tasks := ts\<rparr>)) s))
     else ebind (array_m_insert (mq_tasks (qlist s ! Suc i)) (refill (Suc i) (levels s ! i ! j))) (\<lambda>nts.
          Inr (put_queue (int i) (queue_release ((qlist s ! i)\<lparr>mq_lock := True, mq_tasks := ts\<rparr>))
            (put_queue (int (Suc i)) ((qlist s ! Suc i)\<lparr>mq_tasks := nts\<rparr>) s))))"

lemma prepare_hit:
  assumes "mlfq_wf s" and h: "first_hit (\<lambda>ent. me_task ent = task) (levels s) = Some (i, j)"
  shows "mlfq_prepare_for_switch_from_task task s =
    (if 0 < sint (ttl_left (sys_now s) (levels s ! i ! j))
     then Inr (True, put_queue (int i) (queue_release (put_ent (int j)
       ((levels s ! i ! j)\<lparr>me_ttl_remaining := ttl_left (sys_now s) (levels s ! i ! j)\<rparr>)
       ((qlist s ! i)\<lparr>mq_lock := True\<rparr>))) s)
     else ebind (requeue i j s) (\<lambda>s'. Inr (True, s')))"
proof -
  note b = hit_bounds [OF assms] and qp = queue_parts [OF assms(1) hit_bounds(1) [OF assms]]
  have ent: "get_ent ((qlist s ! i)\<lparr>mq_lock := True\<rparr>) (int j) = Inr (levels s ! i ! j)"
    using am.get_ok [OF qp(2), of j] b qp by (simp add: get_ent_def)
  have i3: "int i = 3 \<longleftrightarrow> i = 3" by auto
  have nq: "get_queue s (int i + 1) = Inr (qlist s ! Suc i)" "mq_quantum (qlist s ! Suc i) = mlfq_quantums ! Suc i"
    if "i \<noteq> 3"
    using queue_parts(1,6) [OF assms(1), of "Suc i"] that b(1) by (simp_all add: add.commute)
  show ?thesis
  proof (cases "i = 3")
    case True
    then show ?thesis
      using find_task_ok [OF assms(1), of task] h qp ent i3
      by (simp add: mlfq_prepare_for_switch_from_task_def requeue_def refill_def ttl_left_def ebind_assoc
        not_less Let_def MLFQ_QUEUE_COUNT_def)
  next
    case False
    then show ?thesis
      using find_task_ok [OF assms(1), of task] h qp ent i3 nq [OF False]
      by (simp add: mlfq_prepare_for_switch_from_task_def requeue_def refill_def ttl_left_def ebind_assoc
        not_less Let_def MLFQ_QUEUE_COUNT_def add.commute)
  qed
qed

lemma requeue_refines:
  assumes wf: "mlfq_wf s" and i: "i < 4" and run: "requeue i j s = Inr s'"
  shows "mlfq_wf s' \<and> only_queues s s' \<and> levels s' =
    (if i = 3 then (levels s)[3 := remove_nth j (levels s ! 3) @ [refill 3 (levels s ! 3 ! j)]]
     else (levels s)[Suc i := levels s ! Suc i @ [refill (Suc i) (levels s ! i ! j)],
            i := remove_nth j (levels s ! i)])"
proof -
  note qp = queue_parts [OF wf i]
  obtain ts where ts: "array_m_remove (mq_tasks (qlist s ! i)) (int j) = Inr ts"
    using run by (auto simp: requeue_def ebind_eq_Inr)
  have dts: "am_ok ts" "am_cap ts = 128" "am_list ts = remove_nth j (levels s ! i)"
    using am.del_dest [OF qp(2) ts] qp by simp_all
  show ?thesis
  proof (cases "i = 3")
    case True
    obtain ts' where ins: "array_m_insert ts (refill 3 (levels s ! 3 ! j)) = Inr ts'"
      and s': "s' = put_queue (int i) (queue_release ((qlist s ! i)\<lparr>mq_lock := True\<rparr>\<lparr>mq_tasks := ts'\<rparr>)) s"
      using run ts True by (auto simp: requeue_def ebind_eq_Inr)
    show ?thesis
      using am.ins_dest [OF dts(1) ins] dts True s'
        put_tasks_levels [OF wf i, of ts' "(qlist s ! i)\<lparr>mq_lock := True\<rparr>"] by simp
  next
    case False
    then have i': "Suc i < 4" using i by simp
    note qp' = queue_parts [OF wf i']
    obtain nts where ins: "array_m_insert (mq_tasks (qlist s ! Suc i)) (refill (Suc i) (levels s ! i ! j)) = Inr nts"
      and s': "s' = put_queue (int i) (queue_release ((qlist s ! i)\<lparr>mq_lock := True\<rparr>\<lparr>mq_tasks := ts\<rparr>))
            (put_queue (int (Suc i)) ((qlist s ! Suc i)\<lparr>mq_tasks := nts\<rparr>) s)"
      using run ts False by (auto simp: requeue_def ebind_eq_Inr)
    let ?m = "put_queue (int (Suc i)) ((qlist s ! Suc i)\<lparr>mq_tasks := nts\<rparr>) s"
    have m: "mlfq_wf ?m" "levels ?m = (levels s)[Suc i := levels s ! Suc i @ [refill (Suc i) (levels s ! i ! j)]]"
      using am.ins_dest [OF qp'(2) ins] qp' put_tasks_unlocked [OF wf i', of nts]
        put_tasks_levels [OF wf i', of nts "qlist s ! Suc i"] by simp_all
    have q: "qlist ?m ! i = qlist s ! i"
      using put_queue_list [OF wf i', of "(qlist s ! Suc i)\<lparr>mq_tasks := nts\<rparr>"] by simp
    have "only_queues s s'" unfolding s' by (rule only_queues_trans [of _ ?m]) simp_all
    then show ?thesis
      using put_tasks_levels [OF m(1) i dts(1,2), of "(qlist s ! i)\<lparr>mq_lock := True\<rparr>"] m(2) dts(3) q False s'
      by simp
  qed
qed

lemma requeue_ok:
  assumes wf: "mlfq_wf s" and i: "i < 4" and j: "j < length (levels s ! i)"
    and room: "\<And>i. i < 4 \<Longrightarrow> length (levels s ! i) < 128"
  shows "is_ok (requeue i j s)"
proof -
  note qp = queue_parts [OF wf i]
  obtain ts where ts: "array_m_remove (mq_tasks (qlist s ! i)) (int j) = Inr ts"
      "am_ok ts" "am_cap ts = 128" "length (am_list ts) < 128"
    using am.del_ok [OF qp(2), of j] qp j room [OF i] by (auto simp: length_remove_nth)
  show ?thesis
  proof (cases "i = 3")
    case True
    then show ?thesis using ts am.ins_ok [OF ts(2), of "refill 3 (levels s ! i ! j)"] by (auto simp: requeue_def)
  next
    case False
    then have i': "Suc i < 4" using i by simp
    then show ?thesis
      using False ts am.ins_ok [OF queue_parts(2) [OF wf i'], of "refill (Suc i) (levels s ! i ! j)"]
        queue_parts [OF wf i'] room [OF i'] by (auto simp: requeue_def)
  qed
qed

lemma prepare_refines:
  assumes wf: "mlfq_wf s" and run: "mlfq_prepare_for_switch_from_task task s = Inr (b, s')"
  shows "mlfq_wf s' \<and> only_queues s s' \<and> levels s' = spec_prepare task (sys_now s) (levels s)
    \<and> b = (task \<in> set (sched_tasks s))"
proof (cases "first_hit (\<lambda>ent. me_task ent = task) (levels s)")
  case None
  then have "task \<notin> set (sched_tasks s)" by (auto simp: first_hit_None sched_tasks_def)
  then show ?thesis using None wf run find_task_ok [OF wf, of task]
    by (simp add: mlfq_prepare_for_switch_from_task_def spec_prepare_def)
next
  case (Some h)
  then obtain i j where h: "first_hit (\<lambda>ent. me_task ent = task) (levels s) = Some (i, j)" by (cases h) auto
  note b = hit_bounds [OF wf h] and hit = prepare_hit [OF wf h]
  have mem: "task \<in> set (sched_tasks s)"
    using h by (metis (mono_tags, lifting) first_hit_None option.simps(3) sched_tasks_def set_map image_eqI)
  show ?thesis
  proof (cases "0 < sint (ttl_left (sys_now s) (levels s ! i ! j))")
    case True
    then show ?thesis
      using run hit h mem put_ent_levels [OF wf b(1,2) disjI2 [OF refl]]
      by (auto simp: spec_prepare_def update_at_def)
  next
    case False
    then obtain s1 where "requeue i j s = Inr s1" "b" "s' = s1"
      using run hit by (auto simp: ebind_eq_Inr)
    then show ?thesis using requeue_refines [OF wf b(1), of j s'] h mem False by (simp add: spec_prepare_def)
  qed
qed

lemma prepare_ok:
  assumes wf: "mlfq_wf s" and room: "\<And>i. i < 4 \<Longrightarrow> length (levels s ! i) < 128"
  shows "is_ok (mlfq_prepare_for_switch_from_task task s)"
proof (cases "first_hit (\<lambda>ent. me_task ent = task) (levels s)")
  case None
  then show ?thesis using find_task_ok [OF wf, of task] by (simp add: mlfq_prepare_for_switch_from_task_def)
next
  case (Some h)
  then obtain i j where h: "first_hit (\<lambda>ent. me_task ent = task) (levels s) = Some (i, j)" by (cases h) auto
  then show ?thesis
    using prepare_hit [OF wf h] requeue_ok [OF wf hit_bounds(1,2) [OF wf h] room] by (auto simp: is_ok_iff)
qed

lemma boost_drain_refines:
  assumes "boost_drain h quantum ts high = Inr (ts', high')" and "am_ok ts" and "am_ok high"
  shows "am_ok ts' \<and> am_cap ts' = am_cap ts \<and> am_list ts' = [] \<and> am_ok high' \<and> am_cap high' = am_cap high
    \<and> am_list high' = am_list high @ map (\<lambda>ent. ent\<lparr>me_ttl_remaining := quantum\<rparr>) (am_list ts)"
  using assms
proof (induction h quantum ts high rule: boost_drain.induct)
  case (1 h quantum ts high)
  have sz: "am_size ts = int (length (am_list ts))" using "1.prems"(2) am_wf_size by (auto simp: am_ok_def)
  show ?case
  proof (cases "am_list ts")
    case Nil
    then show ?thesis using "1.prems" sz by (simp add: boost_drain.simps [of h quantum ts high])
  next
    case (Cons ent rest)
    then have pos: "0 < am_size ts" using sz by simp
    have get: "ebind (array_m_lookup ts 0) deref = Inr ent"
      using am.get_ok [OF "1.prems"(2), of 0] Cons by simp
    obtain ts1 t hi1 where del: "array_m_remove ts 0 = Inr ts1" and ld: "load h (me_task ent) = Inr t"
      and ins: "array_m_insert high (ent\<lparr>me_ttl_remaining := quantum\<rparr>) = Inr hi1"
      and rec: "boost_drain h quantum ts1 hi1 = Inr (ts', high')"
      using "1.prems"(1) pos get by (auto simp: boost_drain.simps [of h quantum ts high] ebind_eq_Inr)
    have d: "am_ok ts1" "am_list ts1 = rest" "am_cap ts1 = am_cap ts"
      using am.del_dest [OF "1.prems"(2) del] Cons by auto
    have i: "am_ok hi1" "am_list hi1 = am_list high @ [ent\<lparr>me_ttl_remaining := quantum\<rparr>]" "am_cap hi1 = am_cap high"
      using am.ins_dest [OF "1.prems"(3) ins] by auto
    show ?thesis using "1.IH" [OF pos get del ld ins rec d(1) i(1)] d i Cons by simp
  qed
qed

lemma boost_drain_ok:
  assumes "am_ok ts" and "am_ok high" and "am_list ts = [] \<or> length (am_list ts) < am_cap ts"
    and "length (am_list high) + length (am_list ts) \<le> am_cap high"
    and "\<forall>ent \<in> set (am_list ts). me_task ent \<in> dom h"
  shows "is_ok (boost_drain h quantum ts high)"
  using assms
proof (induction h quantum ts high rule: boost_drain.induct)
  case (1 h quantum ts high)
  have sz: "am_size ts = int (length (am_list ts))" using "1.prems"(1) am_wf_size by (auto simp: am_ok_def)
  show ?case
  proof (cases "am_list ts")
    case Nil
    then show ?thesis using sz by (simp add: boost_drain.simps [of h quantum ts high])
  next
    case (Cons ent rest)
    then have pos: "0 < am_size ts" using sz by simp
    have get: "ebind (array_m_lookup ts 0) deref = Inr ent"
      using am.get_ok [OF "1.prems"(1), of 0] Cons by simp
    obtain ts1 where del: "array_m_remove ts 0 = Inr ts1" "am_ok ts1" "am_list ts1 = rest" "am_cap ts1 = am_cap ts"
      using am.del_ok [OF "1.prems"(1), of 0] Cons "1.prems"(3) by auto
    obtain t where ld: "load h (me_task ent) = Inr t" using "1.prems"(5) Cons by auto
    obtain hi1 where ins: "array_m_insert high (ent\<lparr>me_ttl_remaining := quantum\<rparr>) = Inr hi1" "am_ok hi1"
        "am_list hi1 = am_list high @ [ent\<lparr>me_ttl_remaining := quantum\<rparr>]" "am_cap hi1 = am_cap high"
      using am.ins_ok [OF "1.prems"(2), of "ent\<lparr>me_ttl_remaining := quantum\<rparr>"] Cons "1.prems"(4) by auto
    have "is_ok (boost_drain h quantum ts1 hi1)"
      by (rule "1.IH" [OF pos get del(1) ld ins(1)]) (use del ins Cons "1.prems" in auto)
    then show ?thesis
      using pos get del(1) ld ins(1) by (simp add: boost_drain.simps [of h quantum ts high])
  qed
qed

lemma set_nth_concat: "i < length L \<Longrightarrow> set (L ! i) \<subseteq> set (concat L)"
  by (metis Sup_upper image_eqI nth_mem set_concat)

lemma set_concat_update_nil: "set (concat (L[i := []])) \<subseteq> set (concat L)"
  using set_update_subset_insert [of L i "[]"] by auto

lemma boost_loop_refines:
  assumes "boost_loop high (int k) s = Inr (high', s')" and "mlfq_wf s" and "k \<le> 4"
    and "am_ok (mq_tasks high)"
  shows "\<exists>ts. high' = high\<lparr>mq_tasks := ts\<rparr> \<and> am_ok ts \<and> am_cap ts = am_cap (mq_tasks high)
    \<and> am_list ts = ents high
        @ map (\<lambda>ent. ent\<lparr>me_ttl_remaining := mq_quantum high\<rparr>) (concat (drop k (levels s)))
    \<and> mlfq_wf s' \<and> only_queues s s' \<and> levels s' = take k (levels s) @ replicate (4 - k) []"
  using assms
proof (induction "4 - k" arbitrary: k high s)
  case 0
  then have k: "k = 4" by simp
  then have "high' = high" "s' = s"
    using "0.prems"(1) by (simp_all add: boost_loop.simps [of high 4 s] MLFQ_QUEUE_COUNT_def)
  then show ?case
    using k "0.prems" levels_length [OF "0.prems"(2)] by (intro exI [of _ "mq_tasks high"]) simp
next
  case (Suc n)
  then have k: "k < 4" and n: "n = 4 - Suc k" by simp_all
  note wf = Suc.prems(2) and qp = queue_parts [OF Suc.prems(2) k]
  obtain ts hts where dr: "boost_drain (sys_tasks s) (mq_quantum high) (mq_tasks (qlist s ! k)) (mq_tasks high) = Inr (ts, hts)"
    and rec: "boost_loop (high\<lparr>mq_tasks := hts\<rparr>) (int (Suc k))
       (put_queue (int k) (queue_release ((qlist s ! k)\<lparr>mq_lock := True\<rparr>\<lparr>mq_tasks := ts\<rparr>)) s) = Inr (high', s')"
    using Suc.prems(1) qp k
    by (auto simp: boost_loop.simps [of high "int k" s] ebind_eq_Inr MLFQ_QUEUE_COUNT_def add.commute)
  note d = boost_drain_refines [OF dr qp(2) Suc.prems(4)]
  let ?s1 = "put_queue (int k) (queue_release ((qlist s ! k)\<lparr>mq_lock := True\<rparr>\<lparr>mq_tasks := ts\<rparr>)) s"
  have s1: "mlfq_wf ?s1" "levels ?s1 = (levels s)[k := []]"
    using put_tasks_levels [OF wf k, of ts "(qlist s ! k)\<lparr>mq_lock := True\<rparr>"] d qp by auto
  obtain ts' where ts': "high' = high\<lparr>mq_tasks := ts'\<rparr>" "am_ok ts'" "am_cap ts' = am_cap hts"
    "am_list ts' = am_list hts
        @ map (\<lambda>ent. ent\<lparr>me_ttl_remaining := mq_quantum high\<rparr>) (concat (drop (Suc k) (levels ?s1)))"
    "mlfq_wf s'" "only_queues ?s1 s'" "levels s' = take (Suc k) (levels ?s1) @ replicate (4 - Suc k) []"
    using Suc.hyps(1) [OF n rec s1(1)] k d by auto
  have "only_queues s s'" by (rule only_queues_trans [OF _ ts'(6)]) simp
  moreover have "drop k (levels s) = levels s ! k # drop (Suc k) (levels s)"
    using k levels_length [OF wf] by (simp add: Cons_nth_drop_Suc)
  moreover have "take (Suc k) ((levels s)[k := []]) = take k (levels s) @ [[]]"
    using k levels_length [OF wf] by (simp add: take_Suc_update)
  moreover have "replicate (4 - k) [] = ([] :: mlfq_ent list) # replicate (4 - Suc k) []"
    using k by (metis Suc_diff_Suc replicate_Suc)
  ultimately show ?case
    using ts' s1 d qp by (intro exI [of _ ts']) simp
qed

lemma boost_loop_ok:
  assumes "mlfq_wf s" and "k \<le> 4" and "am_ok (mq_tasks high)" and "sched_live s"
    and "\<And>i. i < 4 \<Longrightarrow> length (levels s ! i) < 128"
    and "length (ents high) + length (concat (drop k (levels s))) \<le> am_cap (mq_tasks high)"
  shows "is_ok (boost_loop high (int k) s)"
  using assms
proof (induction "4 - k" arbitrary: k high s)
  case 0
  then have "k = 4" by simp
  then show ?case by (simp add: boost_loop.simps [of high 4 s] MLFQ_QUEUE_COUNT_def)
next
  case (Suc n)
  then have k: "k < 4" and n: "n = 4 - Suc k" by simp_all
  note wf = Suc.prems(1) and qp = queue_parts [OF Suc.prems(1) k]
  have dk: "drop k (levels s) = levels s ! k # drop (Suc k) (levels s)"
    using k levels_length [OF wf] by (simp add: Cons_nth_drop_Suc)
  have live: "\<forall>ent \<in> set (levels s ! k). me_task ent \<in> dom (sys_tasks s)"
  proof
    fix ent assume "ent \<in> set (levels s ! k)"
    then have "ent \<in> set (concat (levels s))"
      by (rule subsetD [OF set_nth_concat, rotated]) (use k levels_length [OF wf] in simp)
    then show "me_task ent \<in> dom (sys_tasks s)"
      using Suc.prems(4) by (simp only: sched_live_def sched_tasks_def set_map) (rule subsetD, assumption, rule imageI)
  qed
  have "is_ok (boost_drain (sys_tasks s) (mq_quantum high) (mq_tasks (qlist s ! k)) (mq_tasks high))"
    by (rule boost_drain_ok [OF qp(2) Suc.prems(3)]) (use qp live Suc.prems(5) [OF k] Suc.prems(6) dk in auto)
  then obtain ts hts where
    dr: "boost_drain (sys_tasks s) (mq_quantum high) (mq_tasks (qlist s ! k)) (mq_tasks high) = Inr (ts, hts)"
    by (auto simp: is_ok_iff)
  note d = boost_drain_refines [OF dr qp(2) Suc.prems(3)]
  let ?s1 = "put_queue (int k) (queue_release ((qlist s ! k)\<lparr>mq_lock := True\<rparr>\<lparr>mq_tasks := ts\<rparr>)) s"
  have s1: "mlfq_wf ?s1" "levels ?s1 = (levels s)[k := []]"
    using put_tasks_levels [OF wf k, of ts "(qlist s ! k)\<lparr>mq_lock := True\<rparr>"] d qp by auto
  have "is_ok (boost_loop (high\<lparr>mq_tasks := hts\<rparr>) (int (Suc k)) ?s1)"
  proof (rule Suc.hyps(1) [OF n s1(1)])
    show "sched_live ?s1"
      using Suc.prems(4) set_concat_update_nil [of "levels s" k]
      unfolding sched_live_def sched_tasks_def s1(2) put_queue_frame set_map by blast
    show "length (levels ?s1 ! i) < 128" if "i < 4" for i
      using Suc.prems(5) [OF that] s1(2) k levels_length [OF wf] by (cases "i = k") auto
    show "length (ents (high\<lparr>mq_tasks := hts\<rparr>)) + length (concat (drop (Suc k) (levels ?s1)))
        \<le> am_cap (mq_tasks (high\<lparr>mq_tasks := hts\<rparr>))"
      using Suc.prems(6) dk s1(2) d qp(4) by simp
  qed (use k d in simp_all)
  then show ?case
    using dr k qp by (simp add: boost_loop.simps [of high "int k" s] MLFQ_QUEUE_COUNT_def add.commute)
qed

lemma levels_drop1: "mlfq_wf s \<Longrightarrow> drop 1 (levels s) = [levels s ! 1, levels s ! 2, levels s ! 3]"
  using levels_length [of s] by (auto simp: numeral_eq_Suc length_Suc_conv)

lemma levels_split: "mlfq_wf s \<Longrightarrow> levels s = [levels s ! 0, levels s ! 1, levels s ! 2, levels s ! 3]"
  using levels_length [of s] by (auto simp: numeral_eq_Suc length_Suc_conv)

lemma boost_refines:
  assumes wf: "mlfq_wf s" and run: "mlfq_priority_boost_if_necessary s = Inr (b, s')"
  shows "mlfq_wf s' \<and> only_queues s s' \<and> b = (sys_now s mod 1000 = 0)
    \<and> levels s' = (if sys_now s mod 1000 = 0 then spec_boost (levels s) else levels s)"
proof (cases "sys_now s mod 1000 = 0")
  case False
  then show ?thesis using assms by (simp add: mlfq_priority_boost_if_necessary_def)
next
  case True
  note qp = queue_parts [OF wf, of 0, simplified]
  let ?high = "(qlist s ! 0)\<lparr>mq_lock := True\<rparr>"
  obtain high' s1 where loop: "boost_loop ?high (int 1) s = Inr (high', s1)"
    and s': "s' = put_queue (int 0) (queue_release high') s1" and b
    using run True qp by (auto simp: mlfq_priority_boost_if_necessary_def ebind_eq_Inr)
  have high_ok: "am_ok (mq_tasks ?high)" using qp by simp
  obtain ts where ts: "high' = ?high\<lparr>mq_tasks := ts\<rparr>" "am_ok ts" "am_cap ts = 128"
    "am_list ts = levels s ! 0 @ map (refill 0) (concat (drop 1 (levels s)))"
    "mlfq_wf s1" "only_queues s s1" "levels s1 = take 1 (levels s) @ replicate 3 []"
    using boost_loop_refines [OF loop wf _ high_ok] qp
    by (auto simp: refill_def [abs_def] mlfq_quantums_def)
  have t1: "take 1 (levels s) = [levels s ! 0]" by (subst levels_split [OF wf]) simp
  have q: "mq_quantum (qlist s1 ! 0) = mq_quantum (qlist s ! 0)"
    using mlfq_wf_quantum [OF ts(5), of 0] mlfq_wf_quantum [OF wf, of 0] by simp
  have "mlfq_wf s'" unfolding s'
    by (rule put_queue_wf [OF ts(5)]) (use ts q in \<open>simp_all add: queue_wf_def queue_release_def\<close>)
  moreover have "levels s' = spec_boost (levels s)"
    using levels_put [OF ts(5), of 0] ts s' t1 levels_drop1 [OF wf]
    by (simp add: spec_boost_def queue_release_def numeral_3_eq_3)
  moreover have "only_queues s s'" unfolding s' by (rule only_queues_trans [OF ts(6)]) simp
  ultimately show ?thesis using True \<open>b\<close> by simp
qed

lemma boost_ok:
  assumes wf: "mlfq_wf s" and live: "sched_live s" and room: "\<And>i. i < 4 \<Longrightarrow> length (levels s ! i) < 128"
    and total: "length (sched_tasks s) \<le> 128"
  shows "is_ok (mlfq_priority_boost_if_necessary s)"
proof -
  note qp = queue_parts [OF wf, of 0, simplified]
  let ?high = "(qlist s ! 0)\<lparr>mq_lock := True\<rparr>"
  have "length (concat (levels s)) = length (levels s ! 0) + length (concat (drop 1 (levels s)))"
    unfolding levels_drop1 [OF wf] by (subst levels_split [OF wf]) simp
  then have "is_ok (boost_loop ?high (int 1) s)"
    using boost_loop_ok [OF wf _ _ live room, of 1 ?high] qp total by (simp add: sched_tasks_def)
  then show ?thesis
    using qp by (auto simp: mlfq_priority_boost_if_necessary_def is_ok_iff)
qed

lemma mlfq_init_refines: "\<exists>s'. mlfq_init s = Inr s' \<and> mlfq_wf s' \<and> only_queues s s' \<and> levels s' = [[], [], [], []]"
proof -
  define mkq where "mkq = (\<lambda>n. \<lparr>mq_quantum = n, mq_tasks = array_m_create 128, mq_lock = False\<rparr> :: mlfq_queue)"
  have a0: "am_ok (array_m_create 4 :: mlfq_queue array_m)" "am_list (array_m_create 4 :: mlfq_queue array_m) = []"
    "am_cap (array_m_create 4 :: mlfq_queue array_m) = 4"
    by (simp_all add: array_m_create_def am_defs slots_wf_def)
  have e: "am_ok (array_m_create 128 :: mlfq_ent array_m)" "am_list (array_m_create 128 :: mlfq_ent array_m) = []"
    "am_cap (array_m_create 128 :: mlfq_ent array_m) = 128"
    by (simp_all add: array_m_create_def am_defs slots_wf_def)
  have loop: "am_ok qs \<Longrightarrow> length (am_list qs) + length ns \<le> am_cap qs \<Longrightarrow>
      \<exists>qs'. mlfq_init_loop ns qs = Inr qs' \<and> am_ok qs' \<and> am_list qs' = am_list qs @ map mkq ns" for ns qs
  proof (induction ns arbitrary: qs)
    case Nil
    then show ?case by simp
  next
    case (Cons n ns)
    then obtain q1 where "array_m_insert qs (mkq n) = Inr q1" "am_ok q1" "am_list q1 = am_list qs @ [mkq n]"
        "am_cap q1 = am_cap qs"
      using am.ins_ok [of qs "mkq n"] by auto
    then show ?case using Cons.IH [of q1] Cons.prems by (simp add: mkq_def)
  qed
  obtain qs where qs: "mlfq_init_loop mlfq_quantums (array_m_create 4) = Inr qs" "am_ok qs"
      "am_list qs = map mkq mlfq_quantums"
    using loop [OF a0(1), of mlfq_quantums] a0 by (auto simp: mlfq_quantums_def)
  then show ?thesis using e
    by (auto simp: mlfq_init_def MLFQ_QUEUE_COUNT_def mlfq_wf_def levels_def queue_wf_def list_all_iff
        mlfq_quantums_def mkq_def)
qed

subsection \<open>No task is lost or duplicated\<close>

lemma mset_update_at:
  assumes "i < length L" and "j < length (L ! i)" and "\<And>x. g (f x) = g x"
  shows "map g (concat (update_at i j f L)) = map g (concat L)"
proof -
  have "map g ((L ! i)[j := f (L ! i ! j)]) = map g (L ! i)"
    using assms list_update_id [of "map g (L ! i)" j] by (simp add: map_update)
  then have "map (map g) (update_at i j f L) = map (map g) L"
    using assms(1) list_update_id [of "map (map g) L" i] by (simp add: update_at_def map_update)
  then show ?thesis by (simp add: map_concat)
qed

lemma mset_remove_nth: "j < length xs \<Longrightarrow> add_mset (xs ! j) (mset (remove_nth j xs)) = mset xs"
proof (induction xs arbitrary: j)
  case Nil
  then show ?case by simp
next
  case (Cons x xs)
  then show ?case by (cases j) (auto simp: add_mset_commute)
qed

abbreviation tasks_of :: "mlfq_ent list list \<Rightarrow> task_ptr multiset" where
  "tasks_of L \<equiv> image_mset me_task (mset (concat L))"

lemma tasks_of_update:
  "i < length L \<Longrightarrow> tasks_of (L[i := xs]) + image_mset me_task (mset (L ! i))
     = tasks_of L + image_mset me_task (mset xs)"
  using mset_concat_update [of i L xs] by (metis image_mset_union)

lemma tasks_of_same:
  "i < length L \<Longrightarrow> image_mset me_task (mset xs) = image_mset me_task (mset (L ! i)) \<Longrightarrow>
   tasks_of (L[i := xs]) = tasks_of L"
  using tasks_of_update [of i L xs] by simp

lemma tasks_of_remove:
  assumes "i < length L" and "j < length (L ! i)"
  shows "add_mset (me_task (L ! i ! j)) (tasks_of (L[i := remove_nth j (L ! i)])) = tasks_of L"
proof -
  have "image_mset me_task (mset (L ! i)) =
      add_mset (me_task (L ! i ! j)) (image_mset me_task (mset (remove_nth j (L ! i))))"
    using mset_remove_nth [OF assms(2)] by (metis image_mset_add_mset)
  then show ?thesis using tasks_of_update [OF assms(1), of "remove_nth j (L ! i)"] by simp
qed

lemma tasks_of_append:
  "i < length L \<Longrightarrow> tasks_of (L[i := L ! i @ [x]]) = add_mset (me_task x) (tasks_of L)"
  using tasks_of_update [of i L "L ! i @ [x]"] by simp

lemma refill_task [simp]: "me_task (refill i ent) = me_task ent"
  by (simp add: refill_def)

lemma tasks_of_spec_choose: "tasks_of (snd (spec_choose h now L)) = tasks_of L"
proof (cases "first_hit (\<lambda>ent. task_runnable h (me_task ent)) L")
  case (Some ij)
  then obtain i j where "first_hit (\<lambda>ent. task_runnable h (me_task ent)) L = Some (i, j)" by (cases ij) auto
  then show ?thesis
    using first_hit_Some [of _ L i j]
      mset_update_at [of i L j me_task "me_last_schedule_start_update (\<lambda>_. ucast now)"]
    by (auto simp: spec_choose_def simp flip: mset_map)
qed (simp add: spec_choose_def)

lemma tasks_of_spec_next: "tasks_of (snd (spec_next_quantum task now L)) = tasks_of L"
proof (cases "first_hit (\<lambda>ent. me_task ent = task) L")
  case (Some ij)
  then obtain i j where "first_hit (\<lambda>ent. me_task ent = task) L = Some (i, j)" by (cases ij) auto
  then show ?thesis
    using first_hit_Some [of _ L i j]
      mset_update_at [of i L j me_task "me_last_schedule_start_update (\<lambda>_. ucast now)"]
    by (auto simp: spec_next_quantum_def simp flip: mset_map)
qed (simp add: spec_next_quantum_def)

lemma tasks_of_spec_delete: "tasks_of (spec_delete task L) = tasks_of L - {#task#}"
proof (cases "first_hit (\<lambda>ent. me_task ent = task) L")
  case None
  then have "task \<notin># tasks_of L" by (auto simp: first_hit_None)
  then show ?thesis using None by (simp add: spec_delete_def)
next
  case (Some ij)
  then obtain i j where h: "first_hit (\<lambda>ent. me_task ent = task) L = Some (i, j)" by (cases ij) auto
  then have "add_mset task (tasks_of (L[i := remove_nth j (L ! i)])) = tasks_of L"
    using first_hit_Some [OF h] tasks_of_remove [of i L j] by simp
  then show ?thesis using h by (simp add: spec_delete_def) (metis add_mset_remove_trivial)
qed

lemma tasks_of_spec_prepare:
  assumes "length L = 4"
  shows "tasks_of (spec_prepare task now L) = tasks_of L"
proof (cases "first_hit (\<lambda>ent. me_task ent = task) L")
  case (Some ij)
  then obtain i j where h: "first_hit (\<lambda>ent. me_task ent = task) L = Some (i, j)" by (cases ij) auto
  note b = first_hit_Some [OF h]
  consider (keep) "0 < sint (ttl_left now (L ! i ! j))" | (last) "\<not> 0 < sint (ttl_left now (L ! i ! j))" "i = 3"
    | (down) "\<not> 0 < sint (ttl_left now (L ! i ! j))" "i \<noteq> 3" by blast
  then show ?thesis
  proof cases
    case keep
    then show ?thesis
      using h b mset_update_at [of i L j me_task "\<lambda>ent. ent\<lparr>me_ttl_remaining := ttl_left now ent\<rparr>"]
      by (auto simp: spec_prepare_def simp flip: mset_map)
  next
    case last
    have "add_mset (me_task (L ! 3 ! j)) (image_mset me_task (mset (remove_nth j (L ! 3))))
        = image_mset me_task (mset (L ! 3))"
      using mset_remove_nth [of j "L ! 3"] b last by (metis image_mset_add_mset)
    then show ?thesis using last h b by (simp add: spec_prepare_def tasks_of_same)
  next
    case down
    let ?L = "L[i := remove_nth j (L ! i)]"
    have "L[Suc i := L ! Suc i @ [refill (Suc i) (L ! i ! j)], i := remove_nth j (L ! i)]
        = ?L[Suc i := ?L ! Suc i @ [refill (Suc i) (L ! i ! j)]]"
      by (simp add: list_update_swap)
    then show ?thesis
      using down h b tasks_of_append [of "Suc i" ?L "refill (Suc i) (L ! i ! j)"] tasks_of_remove [of i L j] assms
      by (simp add: spec_prepare_def)
  qed
qed (simp add: spec_prepare_def)

lemma tasks_of_spec_boost:
  assumes "L = [a, b, c, d]"
  shows "tasks_of (spec_boost L) = tasks_of L"
  using assms by (simp add: spec_boost_def multiset.map_comp comp_def numeral_eq_Suc)

lemma sched_tasks_mset: "mset (sched_tasks s) = tasks_of (levels s)"
  by (simp add: sched_tasks_def)

subsection \<open>What a scheduler promises\<close>

datatype sched_op =
    SchedAdd task_ptr u32
  | SchedDelete task_ptr
  | SchedChoose
  | SchedNextQuantum task_ptr
  | SchedPrepare task_ptr
  | SchedBoost

fun mlfq_exec :: "sched_op \<Rightarrow> 'z mlfq_sys_scheme \<Rightarrow> 'z mlfq_sys_scheme res" where
  "mlfq_exec (SchedAdd task i) s = mlfq_add_task_to_queue task i s"
| "mlfq_exec (SchedDelete task) s = mlfq_delete_task task s"
| "mlfq_exec SchedChoose s = ebind (mlfq_choose_task s) (\<lambda>(_, s). Inr s)"
| "mlfq_exec (SchedNextQuantum task) s = ebind (mlfq_next_quantum_for_task task s) (\<lambda>(_, s). Inr s)"
| "mlfq_exec (SchedPrepare task) s = ebind (mlfq_prepare_for_switch_from_task task s) (\<lambda>(_, s). Inr s)"
| "mlfq_exec SchedBoost s = ebind (mlfq_priority_boost_if_necessary s) (\<lambda>(_, s). Inr s)"

text \<open>The tasks a scheduler holds after an operation: only \<open>add\<close> and \<open>delete\<close> change them.\<close>

fun op_members :: "sched_op \<Rightarrow> task_ptr multiset \<Rightarrow> task_ptr multiset" where
  "op_members (SchedAdd task _) M = add_mset task M"
| "op_members (SchedDelete task) M = M - {#task#}"
| "op_members _ M = M"

text \<open>A run adds only tasks that exist.\<close>

fun live_ops :: "sched_op list \<Rightarrow> task_store \<Rightarrow> bool" where
  "live_ops [] h = True"
| "live_ops (SchedAdd t i # ops) h = (t \<in> dom h \<and> live_ops ops h)"
| "live_ops (op # ops) h = live_ops ops h"

lemma live_ops_append: "live_ops (xs @ ys) h = (live_ops xs h \<and> live_ops ys h)"
  by (induction xs h rule: live_ops.induct) auto

lemma live_step: "live_ops (op # ops) h \<Longrightarrow> set_mset M \<subseteq> dom h \<Longrightarrow> set_mset (op_members op M) \<subseteq> dom h"
  by (cases op) (auto dest: in_diffD)

locale task_scheduler =
  fixes inv :: "'s \<Rightarrow> bool"
    and members :: "'s \<Rightarrow> task_ptr multiset"
    and store :: "'s \<Rightarrow> task_store"
    and exec :: "sched_op \<Rightarrow> 's \<Rightarrow> 's res"
    and pick :: "'s \<Rightarrow> ((task_ptr \<times> u32) option \<times> 's) res"
  assumes exec_inv: "inv s \<Longrightarrow> set_mset (members s) \<subseteq> dom (store s) \<Longrightarrow> exec op s = Inr s' \<Longrightarrow> inv s'"
    and exec_members: "inv s \<Longrightarrow> set_mset (members s) \<subseteq> dom (store s) \<Longrightarrow> exec op s = Inr s' \<Longrightarrow>
      members s' = op_members op (members s) \<and> store s' = store s"
    and pick_returns: "inv s \<Longrightarrow> set_mset (members s) \<subseteq> dom (store s) \<Longrightarrow>
      \<exists>r s'. pick s = Inr (r, s') \<and> inv s' \<and> members s' = members s \<and> store s' = store s
        \<and> (case r of
             None \<Rightarrow> \<forall>t \<in># members s. \<not> task_runnable (store s) t
           | Some (t, _) \<Rightarrow> t \<in># members s \<and> task_runnable (store s) t)"
begin

lemma run_members:
  assumes "inv s" and "set_mset (members s) \<subseteq> dom (store s)" and "live_ops ops (store s)"
    and "run_ops exec ops s = Inr s'"
  shows "inv s' \<and> set_mset (members s') \<subseteq> dom (store s') \<and> store s' = store s
    \<and> members s' = fold op_members ops (members s)"
  using assms
proof (induction ops arbitrary: s)
  case Nil
  then show ?case by simp
next
  case (Cons op ops)
  then obtain s1 where s1: "exec op s = Inr s1" "run_ops exec ops s1 = Inr s'" by (auto simp: ebind_eq_Inr)
  have ops: "live_ops ops (store s)" using Cons.prems(3) by (cases op) auto
  have m: "members s1 = op_members op (members s)" "store s1 = store s"
    using exec_members [OF Cons.prems(1,2) s1(1)] by auto
  have "set_mset (members s1) \<subseteq> dom (store s1)"
    unfolding m by (rule live_step [OF Cons.prems(3,2)])
  then show ?case
    using Cons.IH [OF exec_inv [OF Cons.prems(1,2) s1(1)] _ _ s1(2)] ops m by auto
qed

text \<open>After any run, a task is picked exactly when some task of the scheduler can run.\<close>

lemma run_pick:
  assumes "inv s" and "set_mset (members s) \<subseteq> dom (store s)" and "live_ops ops (store s)"
    and "run_ops exec ops s = Inr s'"
  shows "\<exists>r s''. pick s' = Inr (r, s'') \<and>
    (r \<noteq> None \<longleftrightarrow> (\<exists>t \<in># fold op_members ops (members s). task_runnable (store s) t))"
proof -
  note r = run_members [OF assms]
  obtain r s'' where p: "pick s' = Inr (r, s'')"
    "case r of None \<Rightarrow> \<forall>t \<in># members s'. \<not> task_runnable (store s') t
       | Some (t, _) \<Rightarrow> t \<in># members s' \<and> task_runnable (store s') t"
    using pick_returns [of s'] r by auto
  then show ?thesis using r by (cases r) auto
qed

end

lemma sched_live_members: "set_mset (mset (sched_tasks s)) \<subseteq> dom (sys_tasks s) \<longleftrightarrow> sched_live s"
  by (simp add: sched_live_def)

lemma mlfq_exec_refines:
  assumes wf: "mlfq_wf s" and live: "sched_live s" and run: "mlfq_exec op s = Inr s'"
  shows "mlfq_wf s' \<and> only_queues s s' \<and> mset (sched_tasks s') = op_members op (mset (sched_tasks s))"
proof (cases op)
  case (SchedAdd task i)
  then show ?thesis
    using add_refines [OF wf, of task i s'] run levels_length [OF wf]
    by (auto simp: sched_tasks_mset spec_add_def tasks_of_append)
next
  case (SchedDelete task)
  then show ?thesis
    using delete_refines [OF wf, of task s'] run by (auto simp: sched_tasks_mset tasks_of_spec_delete)
next
  case SchedChoose
  then show ?thesis
    using choose_refines [OF wf live] run by (auto simp: sched_tasks_mset tasks_of_spec_choose)
next
  case (SchedNextQuantum task)
  then show ?thesis
    using next_quantum_refines [OF wf, of task] run by (auto simp: sched_tasks_mset tasks_of_spec_next)
next
  case (SchedPrepare task)
  then obtain b where "mlfq_prepare_for_switch_from_task task s = Inr (b, s')"
    using run by (auto simp: ebind_eq_Inr)
  then show ?thesis
    using prepare_refines [OF wf, of task b s'] SchedPrepare levels_length [OF wf]
    by (simp add: sched_tasks_mset tasks_of_spec_prepare)
next
  case SchedBoost
  then obtain b where "mlfq_priority_boost_if_necessary s = Inr (b, s')"
    using run by (auto simp: ebind_eq_Inr)
  then show ?thesis
    using boost_refines [OF wf, of b s'] SchedBoost tasks_of_spec_boost [OF levels_split [OF wf]]
    by (auto simp: sched_tasks_mset)
qed

interpretation sched: task_scheduler mlfq_wf "\<lambda>s. mset (sched_tasks s)" sys_tasks mlfq_exec mlfq_choose_task
proof (unfold_locales, unfold sched_live_members)
  fix s :: "'z mlfq_sys_scheme" and op s'
  assume a: "mlfq_wf s" "sched_live s" "mlfq_exec op s = Inr s'"
  show "mlfq_wf s'" using mlfq_exec_refines [OF a] by simp
  show "mset (sched_tasks s') = op_members op (mset (sched_tasks s)) \<and> sys_tasks s' = sys_tasks s"
    using mlfq_exec_refines [OF a] only_queues_frame(1) [of s s'] by simp
next
  fix s :: "'z mlfq_sys_scheme"
  assume a: "mlfq_wf s" "sched_live s"
  let ?p = "\<lambda>ent. task_runnable (sys_tasks s) (me_task ent)" and ?L = "levels s"
  obtain s' where s': "mlfq_choose_task s = Inr (fst (spec_choose (sys_tasks s) (sys_now s) ?L), s')"
    "mlfq_wf s'" "only_queues s s'" "levels s' = snd (spec_choose (sys_tasks s) (sys_now s) ?L)"
    using choose_refines [OF a] by auto
  have "mset (sched_tasks s') = mset (sched_tasks s)" "sys_tasks s' = sys_tasks s"
    using s'(4) only_queues_frame(1) [OF s'(3)] by (simp_all add: sched_tasks_mset tasks_of_spec_choose)
  moreover have "case fst (spec_choose (sys_tasks s) (sys_now s) ?L) of
      None \<Rightarrow> \<forall>t \<in># mset (sched_tasks s). \<not> task_runnable (sys_tasks s) t
    | Some (t, _) \<Rightarrow> t \<in># mset (sched_tasks s) \<and> task_runnable (sys_tasks s) t"
  proof (cases "first_hit ?p ?L")
    case None
    then have "\<forall>ent \<in> set (concat ?L). \<not> ?p ent" by (simp only: first_hit_None)
    then show ?thesis using None by (auto simp: spec_choose_def sched_tasks_def)
  next
    case (Some ij)
    then obtain i j where h: "first_hit ?p ?L = Some (i, j)" by (cases ij) auto
    then have "?L ! i ! j \<in> set (concat ?L)"
      using first_hit_Some [OF h] set_nth_concat [of i ?L] by (meson nth_mem subsetD)
    then show ?thesis using h first_hit_Some [OF h] by (simp add: spec_choose_def sched_tasks_def)
  qed
  ultimately show "\<exists>r s'. mlfq_choose_task s = Inr (r, s') \<and> mlfq_wf s'
      \<and> mset (sched_tasks s') = mset (sched_tasks s) \<and> sys_tasks s' = sys_tasks s
      \<and> (case r of None \<Rightarrow> \<forall>t \<in># mset (sched_tasks s). \<not> task_runnable (sys_tasks s) t
         | Some (t, _) \<Rightarrow> t \<in># mset (sched_tasks s) \<and> task_runnable (sys_tasks s) t)"
    using s' by blast
qed

subsection \<open>Properties\<close>

text \<open>A small scheduler: task 2 waits in the first queue, tasks 1 and 3 can run from the second.\<close>

definition demo_queue :: "u32 \<Rightarrow> mlfq_ent list \<Rightarrow> mlfq_queue" where
  "demo_queue quantum es = \<lparr>mq_quantum = quantum, mq_tasks =
     \<lparr>am_array = map Some es @ replicate (128 - length es) None, am_size = int (length es),
      am_max_size = 128, am_lock = False\<rparr>, mq_lock = False\<rparr>"

definition demo_levels :: "mlfq_ent list list" where
  "demo_levels =
     [[\<lparr>me_task = 2, me_last_schedule_start = 0, me_ttl_remaining = 20\<rparr>],
      [\<lparr>me_task = 1, me_last_schedule_start = 1970, me_ttl_remaining = 30\<rparr>,
       \<lparr>me_task = 3, me_last_schedule_start = 1000, me_ttl_remaining = 5\<rparr>], [], []]"

definition demo_queues :: "mlfq_ent list list \<Rightarrow> mlfq_queue array_m" where
  "demo_queues L = \<lparr>am_array = map Some (map2 demo_queue mlfq_quantums L),
     am_size = 4, am_max_size = 4, am_lock = False\<rparr>"

definition demo_sched :: mlfq_sys where
  "demo_sched = \<lparr>sys_tasks = [1 \<mapsto> zero_task\<lparr>t_status := RUNNABLE\<rparr>, 2 \<mapsto> zero_task\<lparr>t_status := IRQ_WAIT\<rparr>,
       3 \<mapsto> zero_task\<lparr>t_status := RUNNABLE\<rparr>],
     sys_now = 2000, queues = demo_queues demo_levels\<rparr>"

lemma demo_queue_ok: "length es \<le> 128 \<Longrightarrow> queue_wf (demo_queue n es) \<and> ents (demo_queue n es) = es \<and> mq_quantum (demo_queue n es) = n"
  by (auto simp: demo_queue_def queue_wf_def am_defs slots_wf_def slots_list_def comp_def)

lemma demo_queues_ok:
  assumes "queues s = demo_queues L" and "length L = 4" and "list_all (\<lambda>xs. length xs \<le> 128) L"
  shows "mlfq_wf s" "levels s = L"
proof -
  obtain a b c d where L: "L = [a, b, c, d]" using assms(2) by (auto simp: numeral_eq_Suc length_Suc_conv)
  have l: "qlist s = map2 demo_queue mlfq_quantums L"
    using assms(1) L by (simp add: demo_queues_def am_list_def slots_list_def mlfq_quantums_def comp_def)
  have "am_ok (queues s)"
    unfolding assms(1) L by (simp add: demo_queues_def am_defs slots_wf_def mlfq_quantums_def)
  then show "mlfq_wf s" "levels s = L"
    using assms(3) by (simp_all add: mlfq_wf_def levels_def l) (simp_all add: L mlfq_quantums_def demo_queue_ok)
qed

lemma demo_sched_ok:
  "mlfq_wf demo_sched" "sched_live demo_sched" "levels demo_sched = demo_levels" "sys_now demo_sched = 2000"
  "sched_tasks demo_sched = [2, 1, 3]"
proof -
  have q: "queues demo_sched = demo_queues demo_levels" by (simp add: demo_sched_def)
  show "mlfq_wf demo_sched" by (rule demo_queues_ok(1) [OF q]) (simp_all add: demo_levels_def)
  show l: "levels demo_sched = demo_levels" by (rule demo_queues_ok(2) [OF q]) (simp_all add: demo_levels_def)
  show t: "sched_tasks demo_sched = [2, 1, 3]" by (simp add: sched_tasks_def l) (simp add: demo_levels_def)
  show "sched_live demo_sched" by (simp add: sched_live_def t) (simp add: demo_sched_def)
  show "sys_now demo_sched = 2000" by (simp add: demo_sched_def)
qed

text \<open>
  C1. \<^verbatim>\<open>mlfq_choose_task\<close> always returns. It picks nobody exactly when no task in any queue is
  runnable and off-CPU. Otherwise it picks the first such entry of the highest-priority queue that
  has one, returns that entry's remaining time, and changes nothing but that entry's start stamp.
\<close>

theorem choose_task_highest_priority:
  assumes "mlfq_wf s" and "sched_live s"
  shows "\<exists>r s'. mlfq_choose_task s = Inr (r, s') \<and> mlfq_wf s' \<and> only_queues s s' \<and>
    (case r of
       None \<Rightarrow> levels s' = levels s \<and> (\<forall>t \<in> set (sched_tasks s). \<not> task_runnable (sys_tasks s) t)
     | Some (t, ttl) \<Rightarrow> \<exists>i j. i < 4 \<and> j < length (levels s ! i)
         \<and> t = me_task (levels s ! i ! j) \<and> ttl = me_ttl_remaining (levels s ! i ! j)
         \<and> task_runnable (sys_tasks s) t
         \<and> (\<forall>j' < j. \<not> task_runnable (sys_tasks s) (me_task (levels s ! i ! j')))
         \<and> (\<forall>i' < i. \<forall>ent \<in> set (levels s ! i'). \<not> task_runnable (sys_tasks s) (me_task ent))
         \<and> levels s' = update_at i j (me_last_schedule_start_update (\<lambda>_. ucast (sys_now s))) (levels s))"
proof -
  let ?p = "\<lambda>ent. task_runnable (sys_tasks s) (me_task ent)"
  obtain s' where s': "mlfq_choose_task s = Inr (fst (spec_choose (sys_tasks s) (sys_now s) (levels s)), s')"
    "mlfq_wf s'" "only_queues s s'" "levels s' = snd (spec_choose (sys_tasks s) (sys_now s) (levels s))"
    using choose_refines [OF assms] by auto
  show ?thesis
  proof (cases "first_hit ?p (levels s)")
    case None
    then have "\<forall>ent \<in> set (concat (levels s)). \<not> ?p ent" by (simp only: first_hit_None)
    then show ?thesis using None s' by (auto simp: spec_choose_def sched_tasks_def)
  next
    case (Some ij)
    then obtain i j where h: "first_hit ?p (levels s) = Some (i, j)" by (cases ij) auto
    then show ?thesis
      using s' first_hit_Some [OF h] levels_length [OF assms(1)] by (auto simp: spec_choose_def)
  qed
qed

theorem choose_task_highest_priority_witness:
  "\<exists>r s'. mlfq_choose_task demo_sched = Inr (r, s') \<and> mlfq_wf s'"
  using choose_task_highest_priority [OF demo_sched_ok(1,2)] by blast

text \<open>
  C2. Along every sequence of scheduler operations (adding existing tasks, deleting, choosing,
  querying a quantum, switching away with its demotions, boosting), the queues stay well formed and
  hold exactly the tasks added and not deleted since, each as often as it was added; afterwards
  \<^verbatim>\<open>mlfq_choose_task\<close> returns, and finds a task exactly when one of those tasks can run.
\<close>

theorem scheduler_runs_conserve_tasks:
  assumes "mlfq_wf s" and "sched_live s" and "live_ops ops (sys_tasks s)"
    and "run_ops mlfq_exec ops s = Inr s'"
  shows "mlfq_wf s' \<and> mset (sched_tasks s') = fold op_members ops (mset (sched_tasks s))
    \<and> (\<exists>r s''. mlfq_choose_task s' = Inr (r, s'') \<and>
         (r \<noteq> None \<longleftrightarrow> (\<exists>t \<in># fold op_members ops (mset (sched_tasks s)). task_runnable (sys_tasks s) t)))"
  using sched.run_members [OF assms(1) _ assms(3,4)] sched.run_pick [OF assms(1) _ assms(3,4)] assms(2)
  unfolding sched_live_members by blast

theorem scheduler_runs_conserve_tasks_witness:
  "\<exists>s'. run_ops mlfq_exec [SchedDelete 2, SchedChoose] demo_sched = Inr s' \<and> mset (sched_tasks s') = {#1, 3#}"
proof -
  have "length (demo_levels ! i) < 128" if "i < 4" for i
    using that by (auto simp: demo_levels_def nth_Cons split: nat.split)
  then obtain s1 where s1: "mlfq_delete_task 2 demo_sched = Inr s1"
    using delete_ok [OF demo_sched_ok(1), of 2] unfolding demo_sched_ok by (auto simp: is_ok_iff)
  have wf1: "mlfq_wf s1" and q1: "only_queues demo_sched s1"
    and l1: "levels s1 = spec_delete 2 (levels demo_sched)"
    using delete_refines [OF demo_sched_ok(1) s1] by simp_all
  have m1: "mset (sched_tasks s1) = {#1, 3#}"
    unfolding sched_tasks_mset l1 tasks_of_spec_delete
    by (simp add: demo_sched_ok demo_levels_def)
  then have "sched_live s1"
    using only_queues_frame(1) [OF q1] unfolding sched_live_members [symmetric] by (simp add: demo_sched_def)
  then obtain s' where s': "run_ops mlfq_exec [SchedDelete 2, SchedChoose] demo_sched = Inr s'"
    using choose_refines [OF wf1] s1 by auto
  have "live_ops [SchedDelete 2, SchedChoose] (sys_tasks demo_sched)" by simp
  from scheduler_runs_conserve_tasks [OF demo_sched_ok(1,2) this s'] s' show ?thesis
    by (simp add: demo_sched_ok(5))
qed

text \<open>
  The remaining time is computed in 32-bit unsigned arithmetic and tested as a signed value; for
  values below \<open>2\<^sup>3\<^sup>1\<close> that is the comparison of the numbers.
\<close>

lemma sint_diff_pos:
  fixes a b :: u32
  assumes "unat a < 2 ^ 31" and "unat b < 2 ^ 31"
  shows "0 < sint (a - b) \<longleftrightarrow> unat b < unat a"
proof -
  define x y where "x = unat a" and "y = unat b"
  have ab: "uint a = int x" "uint b = int y" "x < 2147483648" "y < 2147483648"
    using assms by (simp_all add: x_def y_def)
  have "sint (a - b) = signed_take_bit 31 (uint a - uint b)"
    by (subst word_sub_wi, subst sint_sbintrunc') simp
  also have "\<dots> = uint a - uint b"
    by (rule signed_take_bit_int_eq_self) (use ab in simp_all)
  finally show ?thesis using ab unfolding x_def [symmetric] y_def [symmetric] by simp
qed

text \<open>
  C3. Switching away from a task, when every queue has a free slot and the run and the quantum are
  below \<open>2\<^sup>3\<^sup>1\<close> ms. A task that ran shorter than its remaining time keeps its place and is charged
  exactly the time it ran. A task that used its time up goes to the back of the next lower queue
  with that queue's full quantum; from the lowest queue it goes to the back of the same queue with a
  fresh quantum. Every other entry keeps its queue, order and time, and no task is lost.
\<close>

theorem prepare_for_switch_charges_or_demotes:
  assumes "mlfq_wf s" and "\<forall>i < 4. length (levels s ! i) < 128"
    and "first_hit (\<lambda>ent. me_task ent = task) (levels s) = Some (i, j)"
    and "ent = levels s ! i ! j" and "runtime = ucast (sys_now s) - me_last_schedule_start ent"
    and "unat runtime < 2 ^ 31" and "unat (me_ttl_remaining ent) < 2 ^ 31"
  shows "\<exists>s'. mlfq_prepare_for_switch_from_task task s = Inr (True, s') \<and> mlfq_wf s' \<and> only_queues s s'
    \<and> mset (sched_tasks s') = mset (sched_tasks s)
    \<and> levels s' =
       (if unat runtime < unat (me_ttl_remaining ent)
        then (levels s)[i := (levels s ! i)[j := ent\<lparr>me_ttl_remaining := me_ttl_remaining ent - runtime\<rparr>]]
        else if i = 3
        then (levels s)[3 := remove_nth j (levels s ! 3) @ [ent\<lparr>me_ttl_remaining := 60\<rparr>]]
        else (levels s)[Suc i := levels s ! Suc i @ [ent\<lparr>me_ttl_remaining := mlfq_quantums ! Suc i\<rparr>],
                        i := remove_nth j (levels s ! i)])"
proof -
  obtain b s' where run: "mlfq_prepare_for_switch_from_task task s = Inr (b, s')"
    using prepare_ok [OF assms(1), of task] assms(2) by (auto simp: is_ok_iff)
  note r = prepare_refines [OF assms(1) run]
  have mem: "task \<in> set (sched_tasks s)"
    using assms(3) by (metis (mono_tags, lifting) first_hit_None option.simps(3) sched_tasks_def set_map image_eqI)
  have left: "ttl_left (sys_now s) ent = me_ttl_remaining ent - runtime" by (simp add: ttl_left_def assms(5))
  show ?thesis
    using run r mem assms(3,4) left sint_diff_pos [OF assms(7,6)] levels_length [OF assms(1)]
      tasks_of_spec_prepare [of "levels s" task "sys_now s"]
    by (auto simp: sched_tasks_mset spec_prepare_def update_at_def refill_def mlfq_quantums_def)
qed

theorem prepare_for_switch_charges_or_demotes_witness:
  "\<exists>s'. mlfq_prepare_for_switch_from_task 1 demo_sched = Inr (True, s') \<and>
    levels s' = [demo_levels ! 0, [demo_levels ! 1 ! 1],
      [\<lparr>me_task = 1, me_last_schedule_start = 1970, me_ttl_remaining = 40\<rparr>], []]"
proof -
  let ?ent = "\<lparr>me_task = 1, me_last_schedule_start = 1970, me_ttl_remaining = 30\<rparr>"
  have room: "\<forall>i < 4. length (levels demo_sched ! i) < 128"
    by (auto simp: demo_sched_ok demo_levels_def nth_Cons split: nat.split)
  have hit: "first_hit (\<lambda>ent. me_task ent = 1) (levels demo_sched) = Some (1, 0)"
    by (simp add: demo_sched_ok demo_levels_def)
  have ent: "?ent = levels demo_sched ! 1 ! 0" by (simp add: demo_sched_ok demo_levels_def)
  have runtime: "30 = ucast (sys_now demo_sched) - me_last_schedule_start ?ent" by (simp add: demo_sched_ok)
  obtain s' where "mlfq_prepare_for_switch_from_task 1 demo_sched = Inr (True, s')"
    "levels s' = (levels demo_sched)[Suc 1 := levels demo_sched ! Suc 1 @ [?ent\<lparr>me_ttl_remaining := mlfq_quantums ! Suc 1\<rparr>],
                        1 := remove_nth 0 (levels demo_sched ! 1)]"
    using prepare_for_switch_charges_or_demotes [OF demo_sched_ok(1) room hit ent runtime] by auto
  then show ?thesis
    by (intro exI [of _ s']) (simp add: demo_sched_ok demo_levels_def mlfq_quantums_def)
qed

text \<open>
  When the millisecond clock is a multiple of 1000 and at most 128 tasks exist, the priority boost
  returns and moves every task of the lower queues, in queue order, behind those of the first queue,
  each with the first queue's full quantum; the lower queues are empty and no task is lost. At any
  other time it changes nothing.
\<close>

lemma priority_boost_moves_all_tasks_up:
  assumes "mlfq_wf s" and "sched_live s" and "\<forall>i < 4. length (levels s ! i) < 128"
    and "length (sched_tasks s) \<le> 128"
  shows "\<exists>s'. mlfq_priority_boost_if_necessary s = Inr (sys_now s mod 1000 = 0, s') \<and> mlfq_wf s'
    \<and> only_queues s s' \<and> mset (sched_tasks s') = mset (sched_tasks s)
    \<and> levels s' = (if sys_now s mod 1000 = 0
        then [levels s ! 0 @ map (\<lambda>ent. ent\<lparr>me_ttl_remaining := 20\<rparr>) (levels s ! 1 @ levels s ! 2 @ levels s ! 3),
              [], [], []]
        else levels s)"
proof -
  obtain b s' where run: "mlfq_priority_boost_if_necessary s = Inr (b, s')"
    using boost_ok [OF assms(1,2) _ assms(4)] assms(3) by (auto simp: is_ok_iff)
  note r = boost_refines [OF assms(1) run]
  have "map (refill 0) xs = map (\<lambda>ent. ent\<lparr>me_ttl_remaining := 20\<rparr>) xs" for xs
    by (simp add: refill_def mlfq_quantums_def)
  then show ?thesis
    using run r tasks_of_spec_boost [OF levels_split [OF assms(1)]] by (auto simp: sched_tasks_mset spec_boost_def)
qed

text \<open>
  With more than 128 tasks in the queues (the kernel allows 1024), the priority boost does not
  return: it panics or runs outside an array.
\<close>

lemma priority_boost_overflows:
  assumes "mlfq_wf s" and "sys_now s mod 1000 = 0" and "128 < length (sched_tasks s)"
  shows "\<exists>e. mlfq_priority_boost_if_necessary s = Inl e"
proof (rule ccontr)
  assume "\<nexists>e. mlfq_priority_boost_if_necessary s = Inl e"
  then obtain b s' where run: "mlfq_priority_boost_if_necessary s = Inr (b, s')"
    by (metis sumE surj_pair)
  note r = boost_refines [OF assms(1) run]
  have "length (levels s' ! 0) = length (concat (levels s))"
    using r assms(2) by (subst levels_split [OF assms(1)]) (simp add: spec_boost_def)
  moreover have "length (levels s' ! 0) \<le> 128"
    using am.within [OF queue_parts(2), of s' 0] queue_parts(3,4) [of s' 0] r by simp
  ultimately show False using assms(3) by (simp add: sched_tasks_def)
qed

end
