(* ===== verification/Tasking.thy ===== *)
theory Tasking
  imports Mlfq
begin

text \<open>
  Tasks and context switches: \<^verbatim>\<open>kernel/kernel/multitasking/tasks/task_small.c\<close> with the context
  switch of \<^verbatim>\<open>process_small.s.x86_64.arch_specific\<close> and the list of all tasks that
  \<^verbatim>\<open>rust_kernel_libs/acpi/src/scheduler.rs\<close> keeps.

  Every operation takes the CPU it runs on; \<open>ts_cpu\<close> holds each CPU's private info page
  (\<^verbatim>\<open>cpu_core_private_info_t\<close>), its registers, its interrupt flag and its local APIC timer. What the
  heap and the virtual memory manager return (a fresh control block, a fresh stack, a cloned address
  space) are arguments of the operations that ask for them.
  A context switch returns the state in which the new task runs.
\<close>

subsection \<open>State\<close>

text \<open>
  The registers \<^verbatim>\<open>context_switch\<close> touches, those it does not although its caller relies on them (\<^verbatim>\<open>r12\<close> to \<^verbatim>\<open>r15\<close>), and
  the stack from the stack pointer upwards.
\<close>

record regs =
  r_rax :: u64
  r_rbx :: u64
  r_rsi :: u64
  r_rdi :: u64
  r_rdx :: u64
  r_rbp :: u64
  r_r12 :: u64
  r_r13 :: u64
  r_r14 :: u64
  r_r15 :: u64
  r_rip :: u64
  r_stack :: "u64 list"

record cpu_info =
  ci_current_task :: "task_ptr option"
  ci_scheduler_enabled :: bool
  ci_idle_task :: "task_ptr option"
  ci_base_vas :: nat
  ci_loaded_vas :: nat
  ci_tss_stack :: u64
  ci_timer :: "u32 option"   \<comment> \<open>the delay the local APIC timer is armed with\<close>
  ci_irqs :: bool
  ci_regs :: regs

record tasking_sys = mlfq_sys +
  ts_cpu :: "nat \<Rightarrow> cpu_info"
  ts_next_pid :: u32
  ts_multitasking_ready :: bool
  ts_schedule_disabled :: bool
  ts_select_lock :: bool
  ts_all_tasks :: "task_ptr list"    \<comment> \<open>\<^verbatim>\<open>ALL_TASKS\<close>, oldest first\<close>
  ts_smp_info :: bool                \<comment> \<open>\<^verbatim>\<open>smp_info_get()\<close> is not NULL\<close>
  ts_bootstrap_addr :: u64           \<comment> \<open>address of \<^verbatim>\<open>_task_bootstrap\<close>\<close>
  ts_core_slot :: "nat \<Rightarrow> nat"       \<comment> \<open>the CPU whose private page an address space maps\<close>

definition upd_cpu :: "nat \<Rightarrow> (cpu_info \<Rightarrow> cpu_info) \<Rightarrow> 'z tasking_sys_scheme \<Rightarrow> 'z tasking_sys_scheme"
where
  "upd_cpu c f s = s\<lparr>ts_cpu := (ts_cpu s)(c := f (ts_cpu s c))\<rparr>"

definition cpu_current_task :: "nat \<Rightarrow> 'z tasking_sys_scheme \<Rightarrow> task_ptr option" where
  "cpu_current_task c s = ci_current_task (ts_cpu s c)"

definition cpu_set_current_task ::
  "nat \<Rightarrow> task_ptr \<Rightarrow> 'z tasking_sys_scheme \<Rightarrow> 'z tasking_sys_scheme" where
  "cpu_set_current_task c t s = upd_cpu c (ci_current_task_update (\<lambda>_. Some t)) s"

definition cpu_scheduler_enabled :: "nat \<Rightarrow> 'z tasking_sys_scheme \<Rightarrow> bool" where
  "cpu_scheduler_enabled c s = ci_scheduler_enabled (ts_cpu s c)"

definition cpu_set_scheduler_enabled ::
  "nat \<Rightarrow> bool \<Rightarrow> 'z tasking_sys_scheme \<Rightarrow> 'z tasking_sys_scheme" where
  "cpu_set_scheduler_enabled c b s = upd_cpu c (ci_scheduler_enabled_update (\<lambda>_. b)) s"

definition cpu_set_idle_task ::
  "nat \<Rightarrow> task_ptr \<Rightarrow> 'z tasking_sys_scheme \<Rightarrow> 'z tasking_sys_scheme" where
  "cpu_set_idle_task c t s = upd_cpu c (ci_idle_task_update (\<lambda>_. Some t)) s"

subsection \<open>The list of all tasks\<close>

definition scheduler_track_task ::
  "task_ptr \<Rightarrow> 'z tasking_sys_scheme \<Rightarrow> 'z tasking_sys_scheme" where
  "scheduler_track_task t s = s\<lparr>ts_all_tasks := ts_all_tasks s @ [t]\<rparr>"

definition scheduler_drop_task ::
  "task_ptr \<Rightarrow> 'z tasking_sys_scheme \<Rightarrow> 'z tasking_sys_scheme" where
  "scheduler_drop_task t s = s\<lparr>ts_all_tasks := filter (\<lambda>u. u \<noteq> t) (ts_all_tasks s)\<rparr>"

fun find_pid :: "task_store \<Rightarrow> u32 \<Rightarrow> task_ptr list \<Rightarrow> task_ptr option res" where
  "find_pid h pid [] = Inr None"
| "find_pid h pid (t # ts) =
     ebind (load h t) (\<lambda>tcb. if t_id tcb = pid then Inr (Some t) else find_pid h pid ts)"

definition tasking_get_task_with_pid :: "int \<Rightarrow> 'z tasking_sys_scheme \<Rightarrow> task_ptr option res" where
  "tasking_get_task_with_pid pid s = find_pid (sys_tasks s) (word_of_int pid) (ts_all_tasks s)"

definition getpid :: "nat \<Rightarrow> 'z tasking_sys_scheme \<Rightarrow> int res" where
  "getpid c s =
     (case cpu_current_task c s of
        None \<Rightarrow> Inr (-1)
      | Some t \<Rightarrow>
          if \<not> ts_multitasking_ready s then Inr (-1)
          else ebind (load (sys_tasks s) t) (\<lambda>tcb. Inr (sint (t_id tcb))))"

definition tasking_get_current_task :: "nat \<Rightarrow> 'z tasking_sys_scheme \<Rightarrow> task_ptr option res" where
  "tasking_get_current_task c s =
     ebind (getpid c s) (\<lambda>pid. tasking_get_task_with_pid pid s)"

definition tasking_is_active :: "nat \<Rightarrow> 'z tasking_sys_scheme \<Rightarrow> bool" where
  "tasking_is_active c s \<longleftrightarrow>
     ts_multitasking_ready s \<and> cpu_current_task c s \<noteq> None \<and> cpu_scheduler_enabled c s"

subsection \<open>Creating tasks\<close>

definition task_set_name :: "task_ptr \<Rightarrow> string \<Rightarrow> 'z tasking_sys_scheme \<Rightarrow> 'z tasking_sys_scheme res"
where
  "task_set_name t new_name s = upd_task t (t_name_update (\<lambda>_. Some new_name)) s"

text \<open>
  The words a new thread's stack holds at its saved stack pointer: five registers, the entry into
  \<^verbatim>\<open>_task_bootstrap\<close>, an alignment word, the entry point and its arguments.
\<close>

definition initial_stack :: "u64 \<Rightarrow> u64 \<Rightarrow> u64 \<Rightarrow> u64 \<Rightarrow> u64 \<Rightarrow> u64 list" where
  "initial_stack bootstrap entry_point arg1 arg2 arg3 =
     (if entry_point \<noteq> 0
      then [0, 0, 0, 0, 0, bootstrap, 0, entry_point, arg1, arg2, arg3]
      else [0])"

definition initial_stack_top :: "u64 \<Rightarrow> u64 \<Rightarrow> u64" where
  "initial_stack_top stack entry_point =
     (let top = stack + 0x2000 - 8 in if entry_point \<noteq> 0 then top - 80 else top)"

definition thread_create ::
  "nat \<Rightarrow> task_ptr \<Rightarrow> u64 \<Rightarrow> u64 \<Rightarrow> u64 \<Rightarrow> u64 \<Rightarrow> u64 \<Rightarrow> 'z tasking_sys_scheme \<Rightarrow> 'z tasking_sys_scheme" where
  "thread_create c new_task stack entry_point arg1 arg2 arg3 s =
     (let tcb = zero_task\<lparr>t_id := ts_next_pid s, t_status := RUNNABLE, t_cpu_id := c,
            t_machine_state := initial_stack (ts_bootstrap_addr s) entry_point arg1 arg2 arg3,
            t_kernel_stack := initial_stack_top stack entry_point,
            t_is_thread := True, t_vas_state := ci_loaded_vas (ts_cpu s c)\<rparr>
      in scheduler_track_task new_task
           (s\<lparr>sys_tasks := (sys_tasks s)(new_task \<mapsto> tcb), ts_next_pid := ts_next_pid s + 1\<rparr>))"

definition task_make_schedulable :: "task_ptr \<Rightarrow> 'z tasking_sys_scheme \<Rightarrow> 'z tasking_sys_scheme res"
where
  "task_make_schedulable task s = mlfq_add_task_to_queue task 0 s"

definition task_remove_from_scheduler :: "task_ptr \<Rightarrow> 'z tasking_sys_scheme \<Rightarrow> 'z tasking_sys_scheme res"
where
  "task_remove_from_scheduler task s =
     ebind (mlfq_delete_task task s) (\<lambda>s. Inr (scheduler_drop_task task s))"

definition thread_spawn ::
  "nat \<Rightarrow> task_ptr \<Rightarrow> u64 \<Rightarrow> u64 \<Rightarrow> u64 \<Rightarrow> u64 \<Rightarrow> u64 \<Rightarrow> 'z tasking_sys_scheme \<Rightarrow> 'z tasking_sys_scheme res" where
  "thread_spawn c new_thread stack entry_point arg1 arg2 arg3 s =
     task_make_schedulable new_thread (thread_create c new_thread stack entry_point arg1 arg2 arg3 s)"

text \<open>The address space is a clone of the CPU's base address space; the clone maps the same CPU page.\<close>

definition task_spawn_entry_point_with_args ::
  "nat \<Rightarrow> task_ptr \<Rightarrow> u64 \<Rightarrow> nat \<Rightarrow> string \<Rightarrow> u64 \<Rightarrow> u64 \<Rightarrow> u64 \<Rightarrow> u64 \<Rightarrow>
   'z tasking_sys_scheme \<Rightarrow> 'z tasking_sys_scheme res" where
  "task_spawn_entry_point_with_args c new_task stack new_vas task_name entry_point arg1 arg2 arg3 s =
     (let s = thread_create c new_task stack entry_point arg1 arg2 arg3 s;
          s = s\<lparr>ts_core_slot := (ts_core_slot s)(new_vas := ts_core_slot s (ci_base_vas (ts_cpu s c)))\<rparr>
      in ebind (upd_task new_task (\<lambda>t. t\<lparr>t_is_thread := False, t_is_managed_by_parent := False,
             t_managing_parent_service_name := None, t_vas_state := new_vas\<rparr>) s) (\<lambda>s.
         task_set_name new_task task_name s))"

definition task_spawn_with_args ::
  "nat \<Rightarrow> task_ptr \<Rightarrow> u64 \<Rightarrow> nat \<Rightarrow> string \<Rightarrow> u64 \<Rightarrow> u64 \<Rightarrow> u64 \<Rightarrow> u64 \<Rightarrow>
   'z tasking_sys_scheme \<Rightarrow> 'z tasking_sys_scheme res" where
  "task_spawn_with_args c new_task stack new_vas task_name entry_point arg1 arg2 arg3 s =
     ebind (task_spawn_entry_point_with_args c new_task stack new_vas task_name entry_point arg1 arg2 arg3 s)
       (task_make_schedulable new_task)"

definition task_spawn ::
  "nat \<Rightarrow> task_ptr \<Rightarrow> u64 \<Rightarrow> nat \<Rightarrow> string \<Rightarrow> u64 \<Rightarrow> 'z tasking_sys_scheme \<Rightarrow> 'z tasking_sys_scheme res" where
  "task_spawn c new_task stack new_vas task_name entry_point s =
     ebind (task_spawn_entry_point_with_args c new_task stack new_vas task_name entry_point 0 0 0 s)
       (task_make_schedulable new_task)"

text \<open>The idle task is created but never handed to the scheduler.\<close>

definition spawn_cpu_idle_task ::
  "nat \<Rightarrow> task_ptr \<Rightarrow> u64 \<Rightarrow> nat \<Rightarrow> string \<Rightarrow> u64 \<Rightarrow> 'z tasking_sys_scheme \<Rightarrow> 'z tasking_sys_scheme res" where
  "spawn_cpu_idle_task c new_task stack new_vas idle_task_name idle_task s =
     ebind (task_spawn_entry_point_with_args c new_task stack new_vas idle_task_name idle_task 0 0 0 s) (\<lambda>s.
     Inr (cpu_set_idle_task c new_task s))"

subsection \<open>The context switch\<close>

text \<open>
  \<^verbatim>\<open>context_switch\<close>: push the registers on the running stack and leave that stack in the old task,
  then run \<^verbatim>\<open>_context_switch_restore_state\<close>. At the call \<open>r_rip\<close> is the return address it
  pushed and \<open>r_stack\<close> the stack above it.
\<close>

definition save_state :: "regs \<Rightarrow> u64 list" where
  "save_state r = [r_rbp r, r_rdi r, r_rsi r, r_rbx r, r_rax r] @ r_rip r # r_stack r"

definition restore_state :: "u64 list \<Rightarrow> regs \<Rightarrow> regs res" where
  "restore_state st r =
     (case st of
        rbp # rdi # rsi # rbx # rax # rip # rest \<Rightarrow>
          Inr (r\<lparr>r_rbp := rbp, r_rdi := rdi, r_rsi := rsi, r_rbx := rbx, r_rax := rax, r_rip := rip,
                 r_stack := rest\<rparr>)
      | _ \<Rightarrow> Inl OutOfBounds)"

definition context_switch_restore_state ::
  "nat \<Rightarrow> task_ptr \<Rightarrow> 'z tasking_sys_scheme \<Rightarrow> 'z tasking_sys_scheme res" where
  "context_switch_restore_state c new_task s =
     (let s = cpu_set_current_task c new_task s in
      ebind (upd_task new_task (\<lambda>t. t\<lparr>t_is_currently_executing := True, t_cpu_id := c\<rparr>) s) (\<lambda>s.
      ebind (load (sys_tasks s) new_task) (\<lambda>t.
      ebind (restore_state (t_machine_state t) (ci_regs (ts_cpu s c))) (\<lambda>r.
      Inr (upd_cpu c (\<lambda>i. i\<lparr>ci_regs := r, ci_irqs := True\<rparr>) s)))))"

definition context_switch :: "nat \<Rightarrow> task_ptr \<Rightarrow> 'z tasking_sys_scheme \<Rightarrow> 'z tasking_sys_scheme res"
where
  "context_switch c new_task s =
     ebind (deref (cpu_current_task c s)) (\<lambda>old.
     ebind (upd_task old (\<lambda>t. t\<lparr>t_machine_state := save_state (ci_regs (ts_cpu s c)),
                              t_is_currently_executing := False\<rparr>) s)
       (context_switch_restore_state c new_task))"

text \<open>\<^verbatim>\<open>_task_bootstrap\<close> up to the call of the entry point.\<close>

definition task_bootstrap :: "regs \<Rightarrow> regs res" where
  "task_bootstrap r =
     (case r_stack r of
        _ # entry_point # arg1 # arg2 # arg3 # _ \<Rightarrow>
          Inr (r\<lparr>r_rdi := arg1, r_rsi := arg2, r_rdx := arg3, r_rip := entry_point\<rparr>)
      | _ \<Rightarrow> Inl OutOfBounds)"

text \<open>
  \<^verbatim>\<open>vas_load_state\<close>, and the migration that first points the address space's CPU page at this CPU.
\<close>

definition vas_load_state :: "nat \<Rightarrow> nat \<Rightarrow> 'z tasking_sys_scheme \<Rightarrow> 'z tasking_sys_scheme" where
  "vas_load_state c vas s = upd_cpu c (ci_loaded_vas_update (\<lambda>_. vas)) s"

definition migrate_task_to_current_cpu_and_load_vas ::
  "nat \<Rightarrow> task_small \<Rightarrow> 'z tasking_sys_scheme \<Rightarrow> 'z tasking_sys_scheme" where
  "migrate_task_to_current_cpu_and_load_vas c t s =
     vas_load_state c (t_vas_state t)
       (s\<lparr>ts_core_slot := (ts_core_slot s)(t_vas_state t := ts_core_slot s (ci_loaded_vas (ts_cpu s c)))\<rparr>)"

definition start_timeslice :: "u64 \<Rightarrow> u32 \<Rightarrow> task_small \<Rightarrow> task_small" where
  "start_timeslice ms quantum t =
     (let now = ucast ms :: u32
      in t\<lparr>t_timeslice_start := ucast now, t_timeslice_end := ucast (now + quantum)\<rparr>)"

definition tasking_goto_task ::
  "nat \<Rightarrow> task_ptr \<Rightarrow> u32 \<Rightarrow> 'z tasking_sys_scheme \<Rightarrow> 'z tasking_sys_scheme res" where
  "tasking_goto_task c new_task quantum s =
     ebind (upd_task new_task (start_timeslice (sys_now s) quantum) s) (\<lambda>s.
     ebind (load (sys_tasks s) new_task) (\<lambda>t.
     let s = (if t_vas_state t \<noteq> ci_loaded_vas (ts_cpu s c)
              then if t_cpu_id t = c then vas_load_state c (t_vas_state t) s
                   else migrate_task_to_current_cpu_and_load_vas c t s
              else s);
         s = upd_cpu c (ci_tss_stack_update (\<lambda>_. t_kernel_stack t)) s
     in context_switch c new_task s))"

definition tasking_first_context_switch ::
  "nat \<Rightarrow> task_ptr \<Rightarrow> u32 \<Rightarrow> 'z tasking_sys_scheme \<Rightarrow> 'z tasking_sys_scheme res" where
  "tasking_first_context_switch c new_task quantum s =
     ebind (upd_task new_task (start_timeslice (sys_now s) quantum) s) (\<lambda>s.
     ebind (load (sys_tasks s) new_task) (\<lambda>t.
     let s = (if t_vas_state t \<noteq> ci_loaded_vas (ts_cpu s c) then vas_load_state c (t_vas_state t) s else s)
     in context_switch_restore_state c new_task s))"

subsection \<open>Switching tasks\<close>

definition tasking_disable_scheduling :: "'z tasking_sys_scheme \<Rightarrow> 'z tasking_sys_scheme" where
  "tasking_disable_scheduling s = s\<lparr>ts_schedule_disabled := True\<rparr>"

definition tasking_reenable_scheduling :: "'z tasking_sys_scheme \<Rightarrow> 'z tasking_sys_scheme" where
  "tasking_reenable_scheduling s = s\<lparr>ts_schedule_disabled := False\<rparr>"

text \<open>
  The critical section of \<^verbatim>\<open>_task_switch_cont\<close>: pick a task and mark it as executing, so that no
  other CPU picks it before this one has switched to it.
\<close>

definition select_task :: "'z tasking_sys_scheme \<Rightarrow> (task_ptr option \<times> 'z tasking_sys_scheme) res" where
  "select_task s =
     (if ts_select_lock s then Inl Deadlock
      else ebind (mlfq_choose_task s) (\<lambda>(r, s).
           case r of
             None \<Rightarrow> Inr (None, s)
           | Some (t, _) \<Rightarrow>
               ebind (upd_task t (t_is_currently_executing_update (\<lambda>_. True)) s) (\<lambda>s. Inr (Some t, s))))"

definition goto_selected :: "nat \<Rightarrow> task_ptr option \<Rightarrow> 'z tasking_sys_scheme \<Rightarrow> 'z tasking_sys_scheme res"
where
  "goto_selected c selected s =
     (let next_task = (case selected of None \<Rightarrow> ci_idle_task (ts_cpu s c) | Some t \<Rightarrow> Some t);
          quantum = 25;
          s = (if ts_smp_info s then upd_cpu c (ci_timer_update (\<lambda>_. Some quantum)) s else s)
      in ebind (deref next_task) (\<lambda>t. tasking_goto_task c t quantum s))"

text \<open>
  The same in the single parts another CPU can observe: everything before the call of \<^verbatim>\<open>context_switch\<close>, then its
  stores one by one. The parts compose to the whole (lemma \<open>goto_selected_parts\<close>).
\<close>

definition goto_setup :: "nat \<Rightarrow> task_ptr \<Rightarrow> u32 \<Rightarrow> 'z tasking_sys_scheme \<Rightarrow> 'z tasking_sys_scheme res" where
  "goto_setup c new_task quantum s =
     ebind (upd_task new_task (start_timeslice (sys_now s) quantum) s) (\<lambda>s.
     ebind (load (sys_tasks s) new_task) (\<lambda>t.
     let s = (if t_vas_state t \<noteq> ci_loaded_vas (ts_cpu s c)
              then if t_cpu_id t = c then vas_load_state c (t_vas_state t) s
                   else migrate_task_to_current_cpu_and_load_vas c t s
              else s)
     in Inr (upd_cpu c (ci_tss_stack_update (\<lambda>_. t_kernel_stack t)) s)))"

definition setup_selected ::
  "nat \<Rightarrow> task_ptr option \<Rightarrow> 'z tasking_sys_scheme \<Rightarrow> (task_ptr \<times> 'z tasking_sys_scheme) res" where
  "setup_selected c selected s =
     (let next_task = (case selected of None \<Rightarrow> ci_idle_task (ts_cpu s c) | Some t \<Rightarrow> Some t);
          quantum = 25;
          s = (if ts_smp_info s then upd_cpu c (ci_timer_update (\<lambda>_. Some quantum)) s else s)
      in ebind (deref next_task) (\<lambda>t. ebind (goto_setup c t quantum s) (\<lambda>s. Inr (t, s))))"

definition switch_save :: "nat \<Rightarrow> 'z tasking_sys_scheme \<Rightarrow> 'z tasking_sys_scheme res" where
  "switch_save c s =
     ebind (deref (cpu_current_task c s)) (\<lambda>old.
     upd_task old (t_machine_state_update (\<lambda>_. save_state (ci_regs (ts_cpu s c)))) s)"

definition switch_clear :: "nat \<Rightarrow> 'z tasking_sys_scheme \<Rightarrow> 'z tasking_sys_scheme res" where
  "switch_clear c s =
     ebind (deref (cpu_current_task c s)) (\<lambda>old. upd_task old (t_is_currently_executing_update (\<lambda>_. False)) s)"

definition switch_mark :: "nat \<Rightarrow> task_ptr \<Rightarrow> 'z tasking_sys_scheme \<Rightarrow> 'z tasking_sys_scheme res" where
  "switch_mark c new_task s = upd_task new_task (\<lambda>t. t\<lparr>t_is_currently_executing := True, t_cpu_id := c\<rparr>) s"

definition switch_load :: "nat \<Rightarrow> task_ptr \<Rightarrow> 'z tasking_sys_scheme \<Rightarrow> 'z tasking_sys_scheme res" where
  "switch_load c new_task s =
     ebind (load (sys_tasks s) new_task) (\<lambda>t.
     ebind (restore_state (t_machine_state t) (ci_regs (ts_cpu s c))) (\<lambda>r.
     Inr (upd_cpu c (\<lambda>i. i\<lparr>ci_regs := r, ci_irqs := True\<rparr>) s)))"

lemma context_switch_parts:
  "context_switch c t s =
     ebind (switch_save c s) (\<lambda>s. ebind (switch_clear c s) (\<lambda>s.
     ebind (switch_mark c t (cpu_set_current_task c t s)) (switch_load c t)))"
  by (cases "cpu_current_task c s"; cases "sys_tasks s (the (cpu_current_task c s))")
    (simp_all add: context_switch_def context_switch_restore_state_def switch_save_def switch_clear_def switch_mark_def
      switch_load_def upd_task_def cpu_current_task_def Let_def cong: ebind_cong)

lemma goto_selected_parts:
  "goto_selected c sel s = ebind (setup_selected c sel s) (\<lambda>(t, s). context_switch c t s)"
  by (simp add: goto_selected_def setup_selected_def tasking_goto_task_def goto_setup_def Let_def ebind_assoc)

definition task_switch_cont :: "nat \<Rightarrow> 'z tasking_sys_scheme \<Rightarrow> 'z tasking_sys_scheme res" where
  "task_switch_cont c s =
     ebind (select_task s) (\<lambda>(selected, s). goto_selected c selected s)"

definition cli :: "nat \<Rightarrow> 'z tasking_sys_scheme \<Rightarrow> 'z tasking_sys_scheme" where
  "cli c s = upd_cpu c (ci_irqs_update (\<lambda>_. False)) s"

definition local_apic_timer_cancel :: "nat \<Rightarrow> 'z tasking_sys_scheme \<Rightarrow> 'z tasking_sys_scheme" where
  "local_apic_timer_cancel c s = upd_cpu c (ci_timer_update (\<lambda>_. None)) s"

text \<open>\<^verbatim>\<open>mlfq_prepare_for_switch_from_task(cpu_current_task())\<close>; no entry has a NULL task.\<close>

definition prepare_switch :: "nat \<Rightarrow> 'z tasking_sys_scheme \<Rightarrow> 'z tasking_sys_scheme res" where
  "prepare_switch c s =
     (case cpu_current_task c s of
        None \<Rightarrow> Inr s
      | Some t \<Rightarrow> ebind (mlfq_prepare_for_switch_from_task t s) (\<lambda>(_, s). Inr s))"

definition task_switch_without_transitioning ::
  "nat \<Rightarrow> 'z tasking_sys_scheme \<Rightarrow> 'z tasking_sys_scheme res" where
  "task_switch_without_transitioning c s =
     (let s = cli c s in
      if ts_schedule_disabled s then Inr s
      else task_switch_cont c (local_apic_timer_cancel c s))"

definition task_switch :: "nat \<Rightarrow> 'z tasking_sys_scheme \<Rightarrow> 'z tasking_sys_scheme res" where
  "task_switch c s =
     (let s = cli c s in
      if ts_schedule_disabled s then Inr s
      else ebind (prepare_switch c (local_apic_timer_cancel c s)) (task_switch_cont c))"

definition mlfq_goto_task :: "nat \<Rightarrow> task_ptr \<Rightarrow> 'z tasking_sys_scheme \<Rightarrow> 'z tasking_sys_scheme res"
where
  "mlfq_goto_task c task s =
     (if cpu_current_task c s = Some task then Inr s
      else ebind (prepare_switch c s) (\<lambda>s.
           ebind (mlfq_next_quantum_for_task task s) (\<lambda>(q, s).
           tasking_goto_task c task (case q of None \<Rightarrow> 0 | Some quantum \<Rightarrow> quantum) s)))"

definition task_switch_if_quantum_expired ::
  "nat \<Rightarrow> 'z tasking_sys_scheme \<Rightarrow> 'z tasking_sys_scheme res" where
  "task_switch_if_quantum_expired c s =
     (if ts_schedule_disabled s \<or> \<not> tasking_is_active c s then Inr s
      else ebind (mlfq_priority_boost_if_necessary s) (\<lambda>(_, s).
           ebind (deref (cpu_current_task c s)) (\<lambda>cur.
           ebind (load (sys_tasks s) cur) (\<lambda>t.
           if sys_now s \<ge> t_timeslice_end t then task_switch c s else Inr s))))"

subsection \<open>Blocking and unblocking\<close>

definition tasking_unblock_task_with_reason ::
  "nat \<Rightarrow> task_ptr \<Rightarrow> u32 \<Rightarrow> 'z tasking_sys_scheme \<Rightarrow> 'z tasking_sys_scheme res" where
  "tasking_unblock_task_with_reason c task reason s =
     (if Some task = cpu_current_task c s then Inr s
      else upd_task task (\<lambda>t. t\<lparr>t_unblock_reason := reason, t_status := RUNNABLE\<rparr>) s)"

definition tasking_block_task ::
  "nat \<Rightarrow> task_ptr \<Rightarrow> u32 \<Rightarrow> 'z tasking_sys_scheme \<Rightarrow> 'z tasking_sys_scheme res" where
  "tasking_block_task c task blocked_state s =
     (if blocked_state = RUNNABLE \<or> blocked_state = ZOMBIE then Inl (Panic ''Invalid blocked state'')
      else ebind (upd_task task (t_status_update (\<lambda>_. blocked_state)) s) (\<lambda>s.
           if Some task = cpu_current_task c s then task_switch c s else Inr s))"

subsection \<open>Start of multitasking\<close>

definition tasking_init :: "nat \<Rightarrow> task_ptr \<Rightarrow> u64 \<Rightarrow> u64 \<Rightarrow> u64 \<Rightarrow> 'z tasking_sys_scheme \<Rightarrow> 'z tasking_sys_scheme res"
where
  "tasking_init c new_thread stack tasking_init_part2 continue_func s =
     (if tasking_is_active c s then Inl (Panic ''called tasking_init() after it was already active'')
      else ebind (mlfq_init s) (\<lambda>s.
           ebind (thread_spawn c new_thread stack tasking_init_part2 continue_func 0 0 s) (\<lambda>s.
           ebind (task_set_name new_thread ''bootstrap'' (cpu_set_current_task c new_thread s)) (\<lambda>s.
           tasking_first_context_switch c new_thread 100 s))))"

definition tasking_ap_startup ::
  "nat \<Rightarrow> task_ptr \<Rightarrow> u64 \<Rightarrow> u64 \<Rightarrow> u64 \<Rightarrow> 'z tasking_sys_scheme \<Rightarrow> 'z tasking_sys_scheme res" where
  "tasking_ap_startup c new_thread stack tasking_ap_init_part2 continue_func s =
     ebind (thread_spawn c new_thread stack tasking_ap_init_part2 continue_func 0 0 s) (\<lambda>s.
     ebind (task_set_name new_thread ''ap_bootstrap'' (cpu_set_current_task c new_thread s)) (\<lambda>s.
     tasking_first_context_switch c new_thread 100 s))"

subsection \<open>Frames\<close>

lemma upd_cpu_frame [simp]:
  "sys_tasks (upd_cpu c f s) = sys_tasks s" "sys_now (upd_cpu c f s) = sys_now s"
  "queues (upd_cpu c f s) = queues s" "ts_cpu (upd_cpu c f s) = (ts_cpu s)(c := f (ts_cpu s c))"
  "ts_next_pid (upd_cpu c f s) = ts_next_pid s" "ts_all_tasks (upd_cpu c f s) = ts_all_tasks s"
  "ts_multitasking_ready (upd_cpu c f s) = ts_multitasking_ready s"
  "ts_schedule_disabled (upd_cpu c f s) = ts_schedule_disabled s"
  "ts_select_lock (upd_cpu c f s) = ts_select_lock s" "ts_smp_info (upd_cpu c f s) = ts_smp_info s"
  "ts_core_slot (upd_cpu c f s) = ts_core_slot s" "ts_bootstrap_addr (upd_cpu c f s) = ts_bootstrap_addr s"
  "tasking_sys.more (upd_cpu c f s) = tasking_sys.more s"
  by (simp_all add: upd_cpu_def)

text \<open>The scheduler's view of a state depends on its queues only.\<close>

lemma levels_queues: "queues s' = queues s \<Longrightarrow> levels s' = levels s"
  by (simp add: levels_def)

lemma mlfq_wf_queues: "queues s' = queues s \<Longrightarrow> mlfq_wf s' = mlfq_wf s"
  by (simp add: mlfq_wf_def)

lemma sched_tasks_queues: "queues s' = queues s \<Longrightarrow> sched_tasks s' = sched_tasks s"
  using levels_queues [of s' s] by (simp add: sched_tasks_def)

lemma only_queues_tasking:
  assumes "only_queues s s'"
  shows "ts_cpu s' = ts_cpu s" "ts_all_tasks s' = ts_all_tasks s" "ts_next_pid s' = ts_next_pid s"
    "ts_smp_info s' = ts_smp_info s" "ts_schedule_disabled s' = ts_schedule_disabled s"
    "ts_select_lock s' = ts_select_lock s" "ts_multitasking_ready s' = ts_multitasking_ready s"
    "ts_core_slot s' = ts_core_slot s" "tasking_sys.more s' = tasking_sys.more s"
proof -
  obtain qs where s': "s' = s\<lparr>queues := qs\<rparr>" using assms unfolding only_queues_def by blast
  show "ts_cpu s' = ts_cpu s" "ts_all_tasks s' = ts_all_tasks s" "ts_next_pid s' = ts_next_pid s"
    "ts_smp_info s' = ts_smp_info s" "ts_schedule_disabled s' = ts_schedule_disabled s"
    "ts_select_lock s' = ts_select_lock s" "ts_multitasking_ready s' = ts_multitasking_ready s"
    "ts_core_slot s' = ts_core_slot s" "tasking_sys.more s' = tasking_sys.more s"
    unfolding s' by simp_all
qed

text \<open>An update of control blocks keeps everything else.\<close>

lemma upd_task_frame:
  assumes "upd_task t f s = Inr s'"
  shows "queues s' = queues s" "ts_cpu s' = ts_cpu s" "sys_now s' = sys_now s" "ts_all_tasks s' = ts_all_tasks s"
    "ts_next_pid s' = ts_next_pid s" "tasking_sys.more s' = tasking_sys.more s"
    "dom (sys_tasks s') = dom (sys_tasks s)" "t \<in> dom (sys_tasks s)"
    "sys_tasks s' = (sys_tasks s)(t \<mapsto> f (the (sys_tasks s t)))"
  using upd_task_dest [OF assms] by (auto split: if_splits)

subsection \<open>Which tasks the CPUs hold\<close>

text \<open>
  The CPUs as a step relation. A CPU that switches goes through the parts of \<^verbatim>\<open>task_switch\<close> one after the other
  (charging the old task, selecting under the lock, and each store of the switch), and the other CPUs may act
  between any two of them. A CPU also unblocks tasks, changes the status of a task (the first half of
  \<^verbatim>\<open>tasking_block_task\<close> and \<^verbatim>\<open>task_die\<close>), boosts, and spawns tasks; time passes. \<^verbatim>\<open>mlfq_goto_task\<close>, which
  switches past the scheduler, is not a step: see the lemma \<open>mlfq_goto_task_ignores_executing_flag\<close>.
\<close>

datatype switch_phase =
    Running
  | Prepared
  | Selected "task_ptr option"
  | Ready task_ptr      \<comment> \<open>about to call \<^verbatim>\<open>context_switch\<close> with this task\<close>
  | Saved task_ptr      \<comment> \<open>the registers of the old task are saved\<close>
  | Cleared task_ptr    \<comment> \<open>the old task is no longer marked as executing\<close>
  | Taken task_ptr      \<comment> \<open>the new task is the CPU's current task\<close>
  | Marked task_ptr     \<comment> \<open>and is marked as executing on this CPU\<close>

record smp_sys = tasking_sys +
  smp_phase :: "nat \<Rightarrow> switch_phase"

definition set_phase :: "nat \<Rightarrow> switch_phase \<Rightarrow> smp_sys \<Rightarrow> smp_sys" where
  "set_phase c ph s = s\<lparr>smp_phase := (smp_phase s)(c := ph)\<rparr>"

inductive smp_step :: "smp_sys \<Rightarrow> smp_sys \<Rightarrow> bool" where
  prepare: "smp_phase s c = Running \<Longrightarrow> \<not> ts_schedule_disabled s \<Longrightarrow>
     prepare_switch c (local_apic_timer_cancel c (cli c s)) = Inr s' \<Longrightarrow>
     smp_step s (set_phase c Prepared s')"
| prepare_zombie: "smp_phase s c = Running \<Longrightarrow> \<not> ts_schedule_disabled s \<Longrightarrow>
     smp_step s (set_phase c Prepared (local_apic_timer_cancel c (cli c s)))"
| select: "smp_phase s c = Prepared \<Longrightarrow> select_task s = Inr (sel, s') \<Longrightarrow>
     smp_step s (set_phase c (Selected sel) s')"
| arm: "smp_phase s c = Selected sel \<Longrightarrow> setup_selected c sel s = Inr (t, s') \<Longrightarrow>
     smp_step s (set_phase c (Ready t) s')"
| save: "smp_phase s c = Ready t \<Longrightarrow> switch_save c s = Inr s' \<Longrightarrow> smp_step s (set_phase c (Saved t) s')"
| clear: "smp_phase s c = Saved t \<Longrightarrow> switch_clear c s = Inr s' \<Longrightarrow> smp_step s (set_phase c (Cleared t) s')"
| take: "smp_phase s c = Cleared t \<Longrightarrow> smp_step s (set_phase c (Taken t) (cpu_set_current_task c t s))"
| mark: "smp_phase s c = Taken t \<Longrightarrow> switch_mark c t s = Inr s' \<Longrightarrow> smp_step s (set_phase c (Marked t) s')"
| load: "smp_phase s c = Marked t \<Longrightarrow> switch_load c t s = Inr s' \<Longrightarrow> smp_step s (set_phase c Running s')"
| unblock: "tasking_unblock_task_with_reason c t reason s = Inr s' \<Longrightarrow> smp_step s s'"
| status: "upd_task t (t_status_update (\<lambda>_. st)) s = Inr s' \<Longrightarrow> smp_step s s'"
| boost: "mlfq_priority_boost_if_necessary s = Inr (b, s') \<Longrightarrow> smp_step s s'"
| spawn: "new_task \<notin> dom (sys_tasks s) \<Longrightarrow>
     task_spawn_with_args c new_task stack new_vas name entry_point arg1 arg2 arg3 s = Inr s' \<Longrightarrow>
     smp_step s s'"
| tick: "smp_step s (s\<lparr>sys_now := sys_now s + 1\<rparr>)"

text \<open>
  A CPU holds the task whose context it runs in, until it marks that task as no longer executing, and the task
  it has selected, from then on. Between clearing the mark of the old task and overwriting its current task
  a CPU runs on neither stack's contents and holds the new task only, while its current task still names the old one.
\<close>

fun target :: "switch_phase \<Rightarrow> task_ptr option" where
  "target (Selected sel) = sel"
| "target (Ready t) = Some t"
| "target (Saved t) = Some t"
| "target (Cleared t) = Some t"
| "target (Taken t) = Some t"
| "target (Marked t) = Some t"
| "target _ = None"

fun gave_up :: "switch_phase \<Rightarrow> bool" where
  "gave_up (Cleared t) = True"
| "gave_up _ = False"

definition held :: "smp_sys \<Rightarrow> nat \<Rightarrow> task_ptr set" where
  "held s c = (if gave_up (smp_phase s c) then {} else set_option (cpu_current_task c s)) \<union> set_option (target (smp_phase s c))"

definition executing :: "task_store \<Rightarrow> task_ptr \<Rightarrow> bool" where
  "executing h t = (case h t of None \<Rightarrow> False | Some tcb \<Rightarrow> t_is_currently_executing tcb)"

text \<open>
  The invariant, over the scheduler's tasks, the existing tasks, the executing flags, the idle tasks
  and what each CPU holds.
\<close>

definition holding_ok :: "task_ptr set \<Rightarrow> task_ptr set \<Rightarrow> (task_ptr \<Rightarrow> bool) \<Rightarrow> (nat \<Rightarrow> task_ptr option) \<Rightarrow>
  (nat \<Rightarrow> task_ptr set) \<Rightarrow> bool" where
  "holding_ok S D X idle H \<longleftrightarrow> S \<subseteq> D \<and> (\<forall>c. H c \<subseteq> D)
     \<and> (\<forall>c t. t \<in> H c \<longrightarrow> t \<in> S \<longrightarrow> X t)
     \<and> (\<forall>c t. t \<in> H c \<longrightarrow> t \<notin> S \<longrightarrow> idle c = Some t)
     \<and> (\<forall>c t. idle c = Some t \<longrightarrow> t \<in> D \<and> t \<notin> S)
     \<and> (\<forall>c d t. idle c = Some t \<longrightarrow> idle d = Some t \<longrightarrow> c = d)
     \<and> (\<forall>c d. c \<noteq> d \<longrightarrow> H c \<inter> H d = {})"

text \<open>Up to the store that gives the old task up, a selected task of the scheduler is not the old task.\<close>

definition phase_ok :: "task_ptr set \<Rightarrow> switch_phase \<Rightarrow> task_ptr option \<Rightarrow> bool" where
  "phase_ok S ph cur = (case ph of
     Selected (Some t) \<Rightarrow> t \<in> S \<longrightarrow> cur \<noteq> Some t
   | Ready t \<Rightarrow> t \<in> S \<longrightarrow> cur \<noteq> Some t
   | Saved t \<Rightarrow> t \<in> S \<longrightarrow> cur \<noteq> Some t
   | Taken t \<Rightarrow> cur = Some t
   | Marked t \<Rightarrow> cur = Some t
   | _ \<Rightarrow> True)"

definition smp_ok :: "smp_sys \<Rightarrow> bool" where
  "smp_ok s \<longleftrightarrow> mlfq_wf s \<and> holding_ok (set (sched_tasks s)) (dom (sys_tasks s)) (executing (sys_tasks s))
     (\<lambda>c. ci_idle_task (ts_cpu s c)) (held s)
     \<and> (\<forall>c. phase_ok (set (sched_tasks s)) (smp_phase s c) (cpu_current_task c s))"

definition smp_start :: "smp_sys \<Rightarrow> bool" where
  "smp_start s \<longleftrightarrow> smp_ok s \<and> (\<forall>c. smp_phase s c = Running)"

inductive smp_reachable :: "smp_sys \<Rightarrow> bool" where
  start: "smp_start s \<Longrightarrow> smp_reachable s"
| step: "smp_reachable s \<Longrightarrow> smp_step s s' \<Longrightarrow> smp_reachable s'"

lemma holding_okI:
  assumes "S \<subseteq> D" and "\<And>c t. t \<in> H c \<Longrightarrow> t \<in> D" and "\<And>c t. t \<in> H c \<Longrightarrow> t \<in> S \<Longrightarrow> X t"
    and "\<And>c t. t \<in> H c \<Longrightarrow> t \<notin> S \<Longrightarrow> idle c = Some t"
    and "\<And>c t. idle c = Some t \<Longrightarrow> t \<in> D \<and> t \<notin> S"
    and "\<And>c d t. idle c = Some t \<Longrightarrow> idle d = Some t \<Longrightarrow> c = d"
    and "\<And>c d t. t \<in> H c \<Longrightarrow> t \<in> H d \<Longrightarrow> c = d"
  shows "holding_ok S D X idle H"
  unfolding holding_ok_def using assms by (meson disjoint_iff subsetI)

lemma holding_okD:
  assumes "holding_ok S D X idle H"
  shows "S \<subseteq> D" and "t \<in> H c \<Longrightarrow> t \<in> D" and "t \<in> H c \<Longrightarrow> t \<in> S \<Longrightarrow> X t"
    and "t \<in> H c \<Longrightarrow> t \<notin> S \<Longrightarrow> idle c = Some t" and "idle c = Some t \<Longrightarrow> t \<in> D \<and> t \<notin> S"
    and "idle c = Some t \<Longrightarrow> idle d = Some t \<Longrightarrow> c = d"
    and "t \<in> H c \<Longrightarrow> t \<in> H d \<Longrightarrow> c = d"
  using assms unfolding holding_ok_def by (meson disjoint_iff subsetD)+

lemma holding_select:
  assumes "holding_ok S D X idle H" and "t \<in> S" and "\<not> X t"
  shows "holding_ok S D (X(t := True)) idle (H(c := insert t (H c)))"
proof -
  note ok = holding_okD [OF assms(1)]
  have free: "t \<notin> H d" for d using ok(3) assms(2,3) by blast
  show ?thesis
  proof (rule holding_okI)
    show "S \<subseteq> D" by (rule ok(1))
    show "u \<in> D" if "u \<in> (H(c := insert t (H c))) d" for d u
      using that ok(1,2) assms(2) by (auto split: if_splits)
    show "(X(t := True)) u" if "u \<in> (H(c := insert t (H c))) d" "u \<in> S" for d u
      using that ok(3) by (auto split: if_splits)
    show "idle d = Some u" if "u \<in> (H(c := insert t (H c))) d" "u \<notin> S" for d u
      using that ok(4) assms(2) by (auto split: if_splits)
    show "d = e" if "u \<in> (H(c := insert t (H c))) d" "u \<in> (H(c := insert t (H c))) e" for d e u
      using that free ok(7) by (auto split: if_splits)
  qed (use ok(5,6) in blast)+
qed

lemma holding_idle:
  assumes "holding_ok S D X idle H" and "idle c = Some t"
  shows "holding_ok S D X idle (H(c := insert t (H c)))"
proof -
  note ok = holding_okD [OF assms(1)]
  have t: "t \<in> D" "t \<notin> S" "t \<notin> H d" if "d \<noteq> c" for d using assms(2) that ok(4-6) by metis+
  have tS: "t \<in> D \<and> t \<notin> S" using assms(2) ok(5) by blast
  show ?thesis
  proof (rule holding_okI)
    show "S \<subseteq> D" by (rule ok(1))
    show "u \<in> D" if "u \<in> (H(c := insert t (H c))) d" for d u using that ok(2) tS by (auto split: if_splits)
    show "X u" if "u \<in> (H(c := insert t (H c))) d" "u \<in> S" for d u using that ok(3) tS by (auto split: if_splits)
    show "idle d = Some u" if "u \<in> (H(c := insert t (H c))) d" "u \<notin> S" for d u
      using that ok(4) assms(2) by (auto split: if_splits)
    show "d = e" if "u \<in> (H(c := insert t (H c))) d" "u \<in> (H(c := insert t (H c))) e" for d e u
      using that t(3) ok(7) by (auto split: if_splits)
  qed (use ok(5,6) in blast)+
qed

lemma holding_give_up:
  assumes "holding_ok S D X idle H" and "old \<in> H c" and "t \<in> H c" and "t \<in> S \<Longrightarrow> t \<noteq> old"
  shows "holding_ok S D (X(old := False)) idle (H(c := {t}))"
proof -
  note ok = holding_okD [OF assms(1)]
  have old: "old \<notin> H d" if "d \<noteq> c" for d using assms(2) that ok(7) by blast
  show ?thesis
  proof (rule holding_okI)
    show "S \<subseteq> D" by (rule ok(1))
    show "u \<in> D" if "u \<in> (H(c := {t})) d" for d u using that ok(2) assms(3) by (auto split: if_splits)
    show "(X(old := False)) u" if "u \<in> (H(c := {t})) d" "u \<in> S" for d u
      using that ok(3) [of u d] ok(3) [OF assms(3)] old [of d] assms(4) by (cases "d = c") auto
    show "idle d = Some u" if "u \<in> (H(c := {t})) d" "u \<notin> S" for d u
      using that ok(4) assms(3) by (auto split: if_splits)
    show "d = e" if "u \<in> (H(c := {t})) d" "u \<in> (H(c := {t})) e" for d e u
      using that assms(3) ok(7) by (auto split: if_splits)
  qed (use ok(5,6) in blast)+
qed

lemma holding_mark:
  assumes "holding_ok S D X idle H"
  shows "holding_ok S D (X(t := True)) idle H"
proof -
  note ok = holding_okD [OF assms]
  have "(X(t := True)) u" if "u \<in> H c" "u \<in> S" for c u using ok(3) [OF that] by simp
  then show ?thesis using ok(1,2,4-7) by (intro holding_okI) blast+
qed

lemma holding_spawn:
  assumes "holding_ok S D X idle H" and "p \<notin> D"
  shows "holding_ok (insert p S) (insert p D) (X(p := b)) idle H"
proof -
  note ok = holding_okD [OF assms(1)]
  have p: "p \<notin> H c" "idle c \<noteq> Some p" for c using ok(2,5) assms(2) by blast+
  show ?thesis
  proof (rule holding_okI)
    show "insert p S \<subseteq> insert p D" using ok(1) by blast
    show "(X(p := b)) u" if "u \<in> H d" "u \<in> insert p S" for d u using that ok(3) p(1) by auto
    show "u \<in> insert p D \<and> u \<notin> insert p S" if "idle d = Some u" for d u using that ok(5) p(2) by auto
  qed (use ok(2,4,6,7) in blast)+
qed

subsection \<open>What a switch changes\<close>

lemma executing_upd: "h t \<noteq> None \<Longrightarrow> executing (h(t \<mapsto> tcb)) = (executing h)(t := t_is_currently_executing tcb)"
  by (auto simp: executing_def fun_eq_iff)

lemma executing_keep:
  "h t = Some tcb \<Longrightarrow> t_is_currently_executing tcb' = t_is_currently_executing tcb \<Longrightarrow>
   executing (h(t \<mapsto> tcb')) = executing h"
  by (auto simp: executing_def fun_eq_iff)

text \<open>Everything about a state but its control blocks and the CPUs' private pages.\<close>

definition same_rest :: "'z tasking_sys_scheme \<Rightarrow> 'z tasking_sys_scheme \<Rightarrow> bool" where
  "same_rest s s' \<longleftrightarrow> queues s' = queues s \<and> dom (sys_tasks s') = dom (sys_tasks s)
     \<and> (\<forall>d. ci_idle_task (ts_cpu s' d) = ci_idle_task (ts_cpu s d))
     \<and> ts_all_tasks s' = ts_all_tasks s \<and> sys_now s' = sys_now s \<and> tasking_sys.more s' = tasking_sys.more s"

lemma same_rest_refl [simp]: "same_rest s s"
  by (simp add: same_rest_def)

lemma same_rest_trans: "same_rest s s' \<Longrightarrow> same_rest s' s'' \<Longrightarrow> same_rest s s''"
  by (simp add: same_rest_def)

lemma same_rest_upd_cpu:
  "(\<And>i. ci_idle_task (f i) = ci_idle_task i) \<Longrightarrow> same_rest s (upd_cpu c f s)"
  by (simp add: same_rest_def)

lemma same_rest_upd_task: "upd_task t f s = Inr s' \<Longrightarrow> same_rest s s'"
  using upd_task_frame [of t f s s'] by (simp add: same_rest_def)

lemma same_rest_slot [simp]: "same_rest s (s\<lparr>ts_core_slot := f\<rparr>)"
  by (simp add: same_rest_def)

lemma restore_switch_effect:
  assumes "context_switch_restore_state c t s = Inr s'"
  shows "same_rest s s'" "executing (sys_tasks s') = (executing (sys_tasks s))(t := True)"
    "cpu_current_task c s' = Some t" "d \<noteq> c \<Longrightarrow> ts_cpu s' d = ts_cpu s d" "t \<in> dom (sys_tasks s)"
proof -
  let ?s1 = "cpu_set_current_task c t s"
  obtain s2 r where s2: "upd_task t (\<lambda>t. t\<lparr>t_is_currently_executing := True, t_cpu_id := c\<rparr>) ?s1 = Inr s2"
    and s': "s' = upd_cpu c (\<lambda>i. i\<lparr>ci_regs := r, ci_irqs := True\<rparr>) s2"
    using assms by (auto simp: context_switch_restore_state_def ebind_eq_Inr)
  have s1: "same_rest s ?s1" "sys_tasks ?s1 = sys_tasks s"
    by (simp_all add: cpu_set_current_task_def same_rest_upd_cpu)
  note f2 = upd_task_frame [OF s2]
  show "same_rest s s'" unfolding s'
    by (intro same_rest_trans [OF s1(1)] same_rest_trans [OF same_rest_upd_task [OF s2]] same_rest_upd_cpu) simp
  show "executing (sys_tasks s') = (executing (sys_tasks s))(t := True)"
    using f2(8,9) s1(2) by (auto simp: s' executing_upd)
  show "cpu_current_task c s' = Some t" using f2(2) by (simp add: s' cpu_current_task_def cpu_set_current_task_def)
  show "ts_cpu s' d = ts_cpu s d" if "d \<noteq> c" using that f2(2) by (simp add: s' cpu_set_current_task_def)
  show "t \<in> dom (sys_tasks s)" using f2(8) s1(2) by simp
qed

lemma context_switch_effect:
  assumes "context_switch c t s = Inr s'"
  shows "\<exists>old. cpu_current_task c s = Some old \<and> same_rest s s' \<and> t \<in> dom (sys_tasks s)
    \<and> executing (sys_tasks s') = (executing (sys_tasks s))(old := False, t := True)
    \<and> cpu_current_task c s' = Some t \<and> (\<forall>d. d \<noteq> c \<longrightarrow> ts_cpu s' d = ts_cpu s d)"
proof -
  obtain old s1 where old: "cpu_current_task c s = Some old"
    and s1: "upd_task old (\<lambda>t. t\<lparr>t_machine_state := save_state (ci_regs (ts_cpu s c)),
        t_is_currently_executing := False\<rparr>) s = Inr s1"
    and s': "context_switch_restore_state c t s1 = Inr s'"
    using assms by (auto simp: context_switch_def ebind_eq_Inr)
  note f1 = upd_task_frame [OF s1] and r = restore_switch_effect [OF s']
  have "executing (sys_tasks s1) = (executing (sys_tasks s))(old := False)"
    using f1(8,9) by (auto simp: executing_upd)
  then show ?thesis
    using old f1 r same_rest_trans [OF same_rest_upd_task [OF s1] r(1)] by auto
qed

lemma goto_task_effect:
  assumes "tasking_goto_task c t q s = Inr s'"
  shows "\<exists>old. cpu_current_task c s = Some old \<and> same_rest s s' \<and> t \<in> dom (sys_tasks s)
    \<and> executing (sys_tasks s') = (executing (sys_tasks s))(old := False, t := True)
    \<and> cpu_current_task c s' = Some t \<and> (\<forall>d. d \<noteq> c \<longrightarrow> ts_cpu s' d = ts_cpu s d)"
proof -
  obtain s1 tcb s2 where s1: "upd_task t (start_timeslice (sys_now s) q) s = Inr s1"
    and tcb: "sys_tasks s1 t = Some tcb"
    and s2: "s2 = upd_cpu c (ci_tss_stack_update (\<lambda>_. t_kernel_stack tcb))
       (if t_vas_state tcb \<noteq> ci_loaded_vas (ts_cpu s1 c)
        then if t_cpu_id tcb = c then vas_load_state c (t_vas_state tcb) s1
             else migrate_task_to_current_cpu_and_load_vas c tcb s1
        else s1)"
    and sw: "context_switch c t s2 = Inr s'"
    using assms by (auto simp: tasking_goto_task_def ebind_eq_Inr Let_def)
  note f1 = upd_task_frame [OF s1]
  have r2: "same_rest s1 s2" and cur: "cpu_current_task c s2 = cpu_current_task c s1"
    and h2: "sys_tasks s2 = sys_tasks s1" and o2: "\<And>d. d \<noteq> c \<Longrightarrow> ts_cpu s2 d = ts_cpu s1 d"
    unfolding s2
    by (auto simp: same_rest_def cpu_current_task_def vas_load_state_def migrate_task_to_current_cpu_and_load_vas_def)
  have x1: "executing (sys_tasks s1) = executing (sys_tasks s)"
    using f1(8,9) by (auto simp: executing_keep start_timeslice_def Let_def)
  have "cpu_current_task c s1 = cpu_current_task c s" using f1(2) by (simp add: cpu_current_task_def)
  then show ?thesis
    using context_switch_effect [OF sw] cur h2 o2 x1 f1
      same_rest_trans [OF same_rest_upd_task [OF s1] same_rest_trans [OF r2]]
    by auto
qed

subsection \<open>Every step keeps the CPUs apart\<close>

lemma smp_phase_more: "tasking_sys.more s' = tasking_sys.more s \<Longrightarrow> smp_phase s' = smp_phase (s :: smp_sys)"
  by (cases s; cases s') simp

lemma set_phase_frame [simp]:
  "sys_tasks (set_phase c ph s) = sys_tasks s" "queues (set_phase c ph s) = queues s"
  "ts_cpu (set_phase c ph s) = ts_cpu s" "smp_phase (set_phase c ph s) = (smp_phase s)(c := ph)"
  by (simp_all add: set_phase_def)

lemma smp_ok_same:
  assumes "smp_ok s" and "mlfq_wf s'" and "set (sched_tasks s') = set (sched_tasks s)"
    and "dom (sys_tasks s') = dom (sys_tasks s)" and "executing (sys_tasks s') = executing (sys_tasks s)"
    and "\<And>c. ci_idle_task (ts_cpu s' c) = ci_idle_task (ts_cpu s c)"
    and "\<And>c. cpu_current_task c s' = cpu_current_task c s" and "smp_phase s' = smp_phase s"
  shows "smp_ok s'"
proof -
  have "held s' = held s" using assms(7,8) by (simp add: held_def fun_eq_iff)
  then show ?thesis using assms by (simp add: smp_ok_def)
qed

lemma smp_ok_live: "smp_ok s \<Longrightarrow> mlfq_wf s \<and> sched_live s"
  by (simp add: smp_ok_def sched_live_def holding_ok_def)

lemma mset_set: "mset xs = mset ys \<Longrightarrow> set xs = set ys"
  by (metis set_mset_mset)

lemma prepare_switch_effect:
  assumes "mlfq_wf s" and "prepare_switch c s = Inr s'"
  shows "mlfq_wf s' \<and> only_queues s s' \<and> set (sched_tasks s') = set (sched_tasks s)"
proof (cases "cpu_current_task c s")
  case None
  then show ?thesis using assms by (simp add: prepare_switch_def)
next
  case (Some t)
  then obtain b where "mlfq_prepare_for_switch_from_task t s = Inr (b, s')"
    using assms(2) by (auto simp: prepare_switch_def ebind_eq_Inr)
  then show ?thesis
    using prepare_refines [OF assms(1)] tasks_of_spec_prepare [OF levels_length [OF assms(1)], of t "sys_now s"]
    by (auto simp: sched_tasks_mset intro!: mset_set)
qed

lemma select_task_effect:
  assumes "mlfq_wf s" and "sched_live s" and "select_task s = Inr (sel, s')"
  shows "mlfq_wf s' \<and> set (sched_tasks s') = set (sched_tasks s) \<and> ts_cpu s' = ts_cpu s
    \<and> tasking_sys.more s' = tasking_sys.more s \<and> sys_now s' = sys_now s \<and> ts_smp_info s' = ts_smp_info s
    \<and> (\<forall>u. map_option t_machine_state (sys_tasks s' u) = map_option t_machine_state (sys_tasks s u))
    \<and> (case sel of
         None \<Rightarrow> sys_tasks s' = sys_tasks s
       | Some t \<Rightarrow> t \<in> set (sched_tasks s) \<and> task_runnable (sys_tasks s) t \<and> \<not> executing (sys_tasks s) t
           \<and> dom (sys_tasks s') = dom (sys_tasks s)
           \<and> executing (sys_tasks s') = (executing (sys_tasks s))(t := True))"
proof -
  obtain r s1 where ch: "mlfq_choose_task s = Inr (r, s1)" and wf: "mlfq_wf s1" and oq: "only_queues s s1"
    and ms: "mset (sched_tasks s1) = mset (sched_tasks s)"
    and r: "case r of None \<Rightarrow> True | Some (t, _) \<Rightarrow> t \<in># mset (sched_tasks s) \<and> task_runnable (sys_tasks s) t"
    using sched.pick_returns [OF assms(1)] choose_refines [OF assms(1,2)] assms(2)
    unfolding sched_live_members by (force split: option.splits)
  note oqt = only_queues_tasking [OF oq] and oqf = only_queues_frame [OF oq]
  show ?thesis
  proof (cases r)
    case None
    then have "sel = None" "s' = s1" using assms(3) ch by (auto simp: select_task_def split: if_splits)
    then show ?thesis using wf oqt oqf mset_set [OF ms] by simp
  next
    case (Some tq)
    then obtain t where t: "sel = Some t" "upd_task t (t_is_currently_executing_update (\<lambda>_. True)) s1 = Inr s'"
      "t \<in> set (sched_tasks s)" "task_runnable (sys_tasks s) t"
      using assms(3) ch r by (auto simp: select_task_def ebind_eq_Inr split: if_splits prod.splits)
    note f = upd_task_frame [OF t(2)]
    have "\<not> executing (sys_tasks s) t"
      using t(4) by (auto simp: executing_def task_runnable_def runnable_def split: option.splits)
    moreover have "executing (sys_tasks s') = (executing (sys_tasks s))(t := True)"
      using f(8,9) oqf(1) by (auto simp: executing_upd)
    moreover have "map_option t_machine_state (sys_tasks s' u) = map_option t_machine_state (sys_tasks s u)" for u
      using f(8,9) oqf(1) by auto
    moreover have "ts_smp_info s' = ts_smp_info s" using upd_task_dest [OF t(2)] oqt by auto
    ultimately show ?thesis
      using t f oqt oqf wf mset_set [OF ms] mlfq_wf_queues [OF f(1)] sched_tasks_queues [OF f(1)] by simp
  qed
qed

lemma smp_ok_same_rest:
  assumes "smp_ok s" and "same_rest s s'" and "executing (sys_tasks s') = executing (sys_tasks s)"
    and "\<And>c. cpu_current_task c s' = cpu_current_task c s"
  shows "smp_ok s'"
proof (rule smp_ok_same [OF assms(1)])
  have q: "queues s' = queues s" using assms(2) by (simp add: same_rest_def)
  show "mlfq_wf s'" using mlfq_wf_queues [OF q] assms(1) by (simp add: smp_ok_def)
  show "set (sched_tasks s') = set (sched_tasks s)" using sched_tasks_queues [OF q] by simp
  show "smp_phase s' = smp_phase s" using assms(2) smp_phase_more [of s' s] by (simp add: same_rest_def)
qed (use assms(2-4) in \<open>simp_all add: same_rest_def\<close>)

text \<open>A change of the phase of one CPU, with what it does to the tasks that CPU holds.\<close>

lemma smp_ok_set_phase:
  assumes "mlfq_wf s'" and "set (sched_tasks s') = S"
    and "holding_ok S (dom (sys_tasks s')) (executing (sys_tasks s')) (\<lambda>c. ci_idle_task (ts_cpu s' c)) (H(c := H'))"
    and "\<And>d. d \<noteq> c \<Longrightarrow> H d = held s' d" and "\<And>d. d \<noteq> c \<Longrightarrow> phase_ok S (smp_phase s' d) (cpu_current_task d s')"
    and "H' = held (set_phase c ph s') c" and "phase_ok S ph (cpu_current_task c s')"
  shows "smp_ok (set_phase c ph s')"
proof -
  let ?s = "set_phase c ph s'"
  have q: "queues ?s = queues s'" by simp
  have "held ?s d = (H(c := H')) d" for d
    using assms(4,6) by (cases "d = c") (simp_all add: held_def cpu_current_task_def)
  then have "held ?s = H(c := H')" by blast
  moreover have "phase_ok S (smp_phase ?s d) (cpu_current_task d ?s)" for d
    using assms(5,7) by (cases "d = c") (simp_all add: cpu_current_task_def)
  ultimately show ?thesis
    using assms(1-3) mlfq_wf_queues [OF q] sched_tasks_queues [OF q] by (simp add: smp_ok_def)
qed

text \<open>A step of one CPU that keeps the queues, the current tasks of the other CPUs and all idle tasks.\<close>

lemma smp_ok_advance:
  assumes "smp_ok s" and "same_rest s s'" and "\<And>d. d \<noteq> c \<Longrightarrow> cpu_current_task d s' = cpu_current_task d s"
    and "holding_ok (set (sched_tasks s)) (dom (sys_tasks s)) (executing (sys_tasks s')) (\<lambda>c. ci_idle_task (ts_cpu s c))
      ((held s)(c := held (set_phase c ph s') c))"
    and "phase_ok (set (sched_tasks s)) ph (cpu_current_task c s')"
  shows "smp_ok (set_phase c ph s')"
proof (rule smp_ok_set_phase [OF _ _ _ _ _ refl assms(5), where H = "held s"])
  have q: "queues s' = queues s" and ph: "smp_phase s' = smp_phase s"
    using assms(2) smp_phase_more [of s' s] by (simp_all add: same_rest_def)
  show "mlfq_wf s'" "set (sched_tasks s') = set (sched_tasks s)"
    using mlfq_wf_queues [OF q] sched_tasks_queues [OF q] assms(1) by (simp_all add: smp_ok_def)
  show "holding_ok (set (sched_tasks s)) (dom (sys_tasks s')) (executing (sys_tasks s')) (\<lambda>c. ci_idle_task (ts_cpu s' c))
      ((held s)(c := held (set_phase c ph s') c))"
    using assms(2,4) by (simp add: same_rest_def)
  show "held s d = held s' d" "phase_ok (set (sched_tasks s)) (smp_phase s' d) (cpu_current_task d s')" if "d \<noteq> c" for d
    using assms(1,3) ph that by (simp_all add: held_def smp_ok_def)
qed

lemma smp_okD:
  assumes "smp_ok s"
  shows "holding_ok (set (sched_tasks s)) (dom (sys_tasks s)) (executing (sys_tasks s)) (\<lambda>c. ci_idle_task (ts_cpu s c)) (held s)"
    and "phase_ok (set (sched_tasks s)) (smp_phase s c) (cpu_current_task c s)"
  using assms by (simp_all add: smp_ok_def)

lemma smp_ok_phase:
  assumes "smp_ok s" and "smp_phase s c = Running" and "ph = Prepared"
  shows "smp_ok (set_phase c ph s)"
proof (rule smp_ok_advance [OF assms(1)])
  have "held (set_phase c ph s) c = held s c" using assms(2,3) by (simp add: held_def cpu_current_task_def)
  then show "holding_ok (set (sched_tasks s)) (dom (sys_tasks s)) (executing (sys_tasks s)) (\<lambda>c. ci_idle_task (ts_cpu s c))
      ((held s)(c := held (set_phase c ph s) c))" using smp_okD(1) [OF assms(1)] by simp
qed (use assms in \<open>simp_all add: phase_ok_def\<close>)

lemma smp_ok_only_queues:
  assumes "smp_ok s" and "only_queues s s'" and "mlfq_wf s'" and "set (sched_tasks s') = set (sched_tasks s)"
  shows "smp_ok s'"
  using only_queues_frame(1) [OF assms(2)] only_queues_tasking [OF assms(2)] assms smp_phase_more [of s' s]
  by (intro smp_ok_same [OF assms(1)]) (simp_all add: cpu_current_task_def)

lemma smp_ok_cli: "smp_ok s \<Longrightarrow> smp_ok (local_apic_timer_cancel c (cli c s))"
  by (rule smp_ok_same_rest)
    (auto simp: same_rest_def local_apic_timer_cancel_def cli_def cpu_current_task_def)

lemma smp_ok_select:
  assumes "smp_ok s" and "smp_phase s c = Prepared" and "select_task s = Inr (sel, s')"
  shows "smp_ok (set_phase c (Selected sel) s')"
proof (rule smp_ok_set_phase [where H = "held s" and S = "set (sched_tasks s)"])
  note live = smp_ok_live [OF assms(1)]
  note e = select_task_effect [OF conjunct1 [OF live] conjunct2 [OF live] assms(3)]
  have more: "tasking_sys.more s' = tasking_sys.more s" "ts_cpu s' = ts_cpu s" using e by blast+
  have ph: "smp_phase s' = smp_phase s" and cur: "cpu_current_task d s' = cpu_current_task d s" for d
    using smp_phase_more [OF more(1)] more(2) by (simp_all add: cpu_current_task_def)
  show "mlfq_wf s'" "set (sched_tasks s') = set (sched_tasks s)" using e by auto
  show "held s d = held s' d" "phase_ok (set (sched_tasks s)) (smp_phase s' d) (cpu_current_task d s')" if "d \<noteq> c" for d
    using ph cur smp_okD(2) [OF assms(1)] by (simp_all add: held_def)
  let ?H = "case sel of None \<Rightarrow> held s c | Some t \<Rightarrow> insert t (held s c)"
  show "?H = held (set_phase c (Selected sel) s') c"
    using cur assms(2) by (auto simp: held_def cpu_current_task_def split: option.splits)
  have h: "holding_ok (set (sched_tasks s)) (dom (sys_tasks s)) (executing (sys_tasks s))
      (\<lambda>c. ci_idle_task (ts_cpu s c)) (held s)" by (rule smp_okD(1) [OF assms(1)])
  show "holding_ok (set (sched_tasks s)) (dom (sys_tasks s')) (executing (sys_tasks s'))
      (\<lambda>c. ci_idle_task (ts_cpu s' c)) ((held s)(c := ?H))"
    using h e holding_select [OF h, of _ c] by (cases sel) auto
  show "phase_ok (set (sched_tasks s)) (Selected sel) (cpu_current_task c s')"
  proof (cases sel)
    case (Some t)
    then have "\<not> executing (sys_tasks s) t" using e by simp
    then have "t \<in> set (sched_tasks s) \<longrightarrow> t \<notin> held s c" using holding_okD(3) [OF h] by blast
    then show ?thesis using Some cur assms(2) by (auto simp: phase_ok_def held_def)
  qed (simp add: phase_ok_def)
qed

lemma setup_selected_effect:
  assumes "setup_selected c sel s = Inr (t, s')"
  shows "(case sel of None \<Rightarrow> ci_idle_task (ts_cpu s c) = Some t | Some u \<Rightarrow> u = t) \<and> same_rest s s'
    \<and> executing (sys_tasks s') = executing (sys_tasks s) \<and> (\<forall>d. cpu_current_task d s' = cpu_current_task d s)"
proof -
  define s0 where "s0 = (if ts_smp_info s then upd_cpu c (ci_timer_update (\<lambda>_. Some 25)) s else s)"
  have t: "(case sel of None \<Rightarrow> ci_idle_task (ts_cpu s c) | Some t \<Rightarrow> Some t) = Some t" and go: "goto_setup c t 25 s0 = Inr s'"
    using assms by (auto simp: setup_selected_def s0_def ebind_eq_Inr Let_def)
  have s0: "same_rest s s0" "cpu_current_task d s0 = cpu_current_task d s" "sys_tasks s0 = sys_tasks s" for d
    by (auto simp: s0_def same_rest_def cpu_current_task_def)
  obtain s1 tcb where s1: "upd_task t (start_timeslice (sys_now s0) 25) s0 = Inr s1"
    and s': "s' = upd_cpu c (ci_tss_stack_update (\<lambda>_. t_kernel_stack tcb))
       (if t_vas_state tcb \<noteq> ci_loaded_vas (ts_cpu s1 c)
        then if t_cpu_id tcb = c then vas_load_state c (t_vas_state tcb) s1
             else migrate_task_to_current_cpu_and_load_vas c tcb s1
        else s1)"
    using go by (auto simp: goto_setup_def ebind_eq_Inr Let_def)
  note f1 = upd_task_frame [OF s1]
  have "executing (sys_tasks s1) = executing (sys_tasks s0)"
    using f1(8,9) by (auto simp: executing_keep start_timeslice_def Let_def)
  moreover have "same_rest s1 s'" "cpu_current_task d s' = cpu_current_task d s1" "sys_tasks s' = sys_tasks s1" for d
    unfolding s' by (auto simp: same_rest_def cpu_current_task_def vas_load_state_def migrate_task_to_current_cpu_and_load_vas_def)
  moreover have "cpu_current_task d s1 = cpu_current_task d s0" for d using f1(2) by (simp add: cpu_current_task_def)
  ultimately show ?thesis
    using t s0 same_rest_trans [OF s0(1) same_rest_trans [OF same_rest_upd_task [OF s1]]] by (auto split: option.splits)
qed

lemma smp_ok_arm:
  assumes "smp_ok s" and "smp_phase s c = Selected sel" and "setup_selected c sel s = Inr (t, s')"
  shows "smp_ok (set_phase c (Ready t) s')"
proof (rule smp_ok_advance [OF assms(1)])
  note e = setup_selected_effect [OF assms(3)] and h = smp_okD(1) [OF assms(1)]
  show "same_rest s s'" "\<And>d. cpu_current_task d s' = cpu_current_task d s" using e by auto
  have "held (set_phase c (Ready t) s') c = insert t (held s c)"
    using e assms(2) by (auto simp: held_def cpu_current_task_def split: option.splits)
  moreover have "t \<in> held s c \<or> ci_idle_task (ts_cpu s c) = Some t"
    using e assms(2) by (auto simp: held_def split: option.splits)
  ultimately show "holding_ok (set (sched_tasks s)) (dom (sys_tasks s)) (executing (sys_tasks s')) (\<lambda>c. ci_idle_task (ts_cpu s c))
      ((held s)(c := held (set_phase c (Ready t) s') c))"
    using h holding_idle [OF h, of c t] e by (auto simp: insert_absorb)
  show "phase_ok (set (sched_tasks s)) (Ready t) (cpu_current_task c s')"
    using e smp_okD(2) [OF assms(1), of c] assms(2) holding_okD(5) [OF h] by (auto simp: phase_ok_def split: option.splits)
qed

lemma switch_store_effect:
  assumes "switch_save c s = Inr s' \<or> switch_clear c s = Inr s'"
  obtains old where "cpu_current_task c s = Some old" "same_rest s s'" "\<And>d. cpu_current_task d s' = cpu_current_task d s"
    "switch_save c s = Inr s' \<Longrightarrow> executing (sys_tasks s') = executing (sys_tasks s)"
    "switch_clear c s = Inr s' \<Longrightarrow> executing (sys_tasks s') = (executing (sys_tasks s))(old := False)"
proof -
  obtain old f where old: "cpu_current_task c s = Some old" and u: "upd_task old f s = Inr s'"
    using assms by (auto simp: switch_save_def switch_clear_def ebind_eq_Inr)
  note fr = upd_task_frame [OF u]
  have save: "executing (sys_tasks s') = executing (sys_tasks s)" if "switch_save c s = Inr s'"
  proof -
    have "upd_task old (t_machine_state_update (\<lambda>_. save_state (ci_regs (ts_cpu s c)))) s = Inr s'"
      using that old by (simp add: switch_save_def)
    from upd_task_frame(8,9) [OF this] show ?thesis by (auto simp: executing_keep)
  qed
  have clear: "executing (sys_tasks s') = (executing (sys_tasks s))(old := False)" if "switch_clear c s = Inr s'"
  proof -
    have "upd_task old (t_is_currently_executing_update (\<lambda>_. False)) s = Inr s'"
      using that old by (simp add: switch_clear_def)
    from upd_task_frame(8,9) [OF this] show ?thesis by (auto simp: executing_upd)
  qed
  show thesis
    by (rule that [OF old same_rest_upd_task [OF u] _ save clear]) (simp add: cpu_current_task_def fr(2))
qed

lemma smp_ok_save:
  assumes "smp_ok s" and "smp_phase s c = Ready t" and "switch_save c s = Inr s'"
  shows "smp_ok (set_phase c (Saved t) s')"
proof -
  obtain old where e: "cpu_current_task c s = Some old" "same_rest s s'" "\<And>d. cpu_current_task d s' = cpu_current_task d s"
    "executing (sys_tasks s') = executing (sys_tasks s)"
    using switch_store_effect [of c s s'] assms(3) by metis
  show ?thesis
  proof (rule smp_ok_advance [OF assms(1) e(2)])
    have "held (set_phase c (Saved t) s') c = held s c"
      using e(3) assms(2) by (simp add: held_def cpu_current_task_def)
    then show "holding_ok (set (sched_tasks s)) (dom (sys_tasks s)) (executing (sys_tasks s')) (\<lambda>c. ci_idle_task (ts_cpu s c))
        ((held s)(c := held (set_phase c (Saved t) s') c))" using smp_okD(1) [OF assms(1)] e(4) by simp
    show "phase_ok (set (sched_tasks s)) (Saved t) (cpu_current_task c s')"
      using smp_okD(2) [OF assms(1), of c] assms(2) e(3) by (simp add: phase_ok_def)
  qed (rule e(3))
qed

lemma smp_ok_clear:
  assumes "smp_ok s" and "smp_phase s c = Saved t" and "switch_clear c s = Inr s'"
  shows "smp_ok (set_phase c (Cleared t) s')"
proof -
  obtain old where e: "cpu_current_task c s = Some old" "same_rest s s'" "\<And>d. cpu_current_task d s' = cpu_current_task d s"
    "executing (sys_tasks s') = (executing (sys_tasks s))(old := False)"
    using switch_store_effect [of c s s'] assms(3) by metis
  show ?thesis
  proof (rule smp_ok_advance [OF assms(1) e(2)])
    have "old \<in> held s c" "t \<in> held s c" using e(1) assms(2) by (simp_all add: held_def)
    moreover have "t \<in> set (sched_tasks s) \<Longrightarrow> t \<noteq> old"
      using smp_okD(2) [OF assms(1), of c] assms(2) e(1) by (auto simp: phase_ok_def)
    moreover have "held (set_phase c (Cleared t) s') c = {t}" by (simp add: held_def)
    ultimately show "holding_ok (set (sched_tasks s)) (dom (sys_tasks s)) (executing (sys_tasks s')) (\<lambda>c. ci_idle_task (ts_cpu s c))
        ((held s)(c := held (set_phase c (Cleared t) s') c))"
      using holding_give_up [OF smp_okD(1) [OF assms(1)]] e(4) by simp
  qed (use e(3) in \<open>simp_all add: phase_ok_def\<close>)
qed

lemma smp_ok_take:
  assumes "smp_ok s" and "smp_phase s c = Cleared t"
  shows "smp_ok (set_phase c (Taken t) (cpu_set_current_task c t s))"
proof (rule smp_ok_advance [OF assms(1)])
  have "held (set_phase c (Taken t) (cpu_set_current_task c t s)) c = held s c"
    using assms(2) by (simp add: held_def cpu_current_task_def cpu_set_current_task_def)
  then show "holding_ok (set (sched_tasks s)) (dom (sys_tasks s)) (executing (sys_tasks (cpu_set_current_task c t s)))
      (\<lambda>c. ci_idle_task (ts_cpu s c)) ((held s)(c := held (set_phase c (Taken t) (cpu_set_current_task c t s)) c))"
    using smp_okD(1) [OF assms(1)] by (simp add: cpu_set_current_task_def)
qed (auto simp: phase_ok_def cpu_set_current_task_def cpu_current_task_def intro: same_rest_upd_cpu)

lemma smp_ok_mark:
  assumes "smp_ok s" and "smp_phase s c = Taken t" and "switch_mark c t s = Inr s'"
  shows "smp_ok (set_phase c (Marked t) s')"
proof -
  have u: "upd_task t (\<lambda>u. u\<lparr>t_is_currently_executing := True, t_cpu_id := c\<rparr>) s = Inr s'"
    using assms(3) by (simp add: switch_mark_def)
  note fr = upd_task_frame [OF u]
  have x: "executing (sys_tasks s') = (executing (sys_tasks s))(t := True)" using fr(8,9) by (auto simp: executing_upd)
  have cur: "cpu_current_task d s' = cpu_current_task d s" for d using fr(2) by (simp add: cpu_current_task_def)
  show ?thesis
  proof (rule smp_ok_advance [OF assms(1) same_rest_upd_task [OF u]])
    have "held (set_phase c (Marked t) s') c = held s c"
      using cur assms(2) by (simp add: held_def cpu_current_task_def)
    then show "holding_ok (set (sched_tasks s)) (dom (sys_tasks s)) (executing (sys_tasks s')) (\<lambda>c. ci_idle_task (ts_cpu s c))
        ((held s)(c := held (set_phase c (Marked t) s') c))" using holding_mark [OF smp_okD(1) [OF assms(1)]] x by simp
    show "phase_ok (set (sched_tasks s)) (Marked t) (cpu_current_task c s')"
      using smp_okD(2) [OF assms(1), of c] assms(2) cur by (simp add: phase_ok_def)
  qed (rule cur)
qed

lemma smp_ok_load:
  assumes "smp_ok s" and "smp_phase s c = Marked t" and "switch_load c t s = Inr s'"
  shows "smp_ok (set_phase c Running s')"
proof -
  obtain r where s': "s' = upd_cpu c (\<lambda>i. i\<lparr>ci_regs := r, ci_irqs := True\<rparr>) s"
    using assms(3) by (auto simp: switch_load_def ebind_eq_Inr)
  have cur: "cpu_current_task d s' = cpu_current_task d s" for d by (simp add: s' cpu_current_task_def)
  have "cpu_current_task c s = Some t" using smp_okD(2) [OF assms(1), of c] assms(2) by (simp add: phase_ok_def)
  then have "held (set_phase c Running s') c = held s c"
    using cur [of c] assms(2) by (simp add: held_def cpu_current_task_def)
  then show ?thesis
    using smp_okD(1) [OF assms(1)] cur
    by (intro smp_ok_advance [OF assms(1)]) (simp_all add: s' phase_ok_def same_rest_upd_cpu)
qed

lemma smp_ok_upd_task:
  assumes "smp_ok s" and "upd_task t f s = Inr s'"
    and "\<And>tcb. t_is_currently_executing (f tcb) = t_is_currently_executing tcb"
  shows "smp_ok s'"
proof (rule smp_ok_same_rest [OF assms(1) same_rest_upd_task [OF assms(2)]])
  show "executing (sys_tasks s') = executing (sys_tasks s)"
    using upd_task_frame(8,9) [OF assms(2)] assms(3) by (auto simp: executing_keep)
  show "cpu_current_task c s' = cpu_current_task c s" for c
    using upd_task_frame(2) [OF assms(2)] by (simp add: cpu_current_task_def)
qed

lemma task_spawn_effect:
  assumes "mlfq_wf s" and "p \<notin> dom (sys_tasks s)"
    and "task_spawn_with_args c p stack vas name entry a1 a2 a3 s = Inr s'"
  shows "mlfq_wf s' \<and> set (sched_tasks s') = insert p (set (sched_tasks s))
    \<and> dom (sys_tasks s') = insert p (dom (sys_tasks s)) \<and> ts_cpu s' = ts_cpu s
    \<and> tasking_sys.more s' = tasking_sys.more s
    \<and> executing (sys_tasks s') = (executing (sys_tasks s))(p := False)
    \<and> ts_all_tasks s' = ts_all_tasks s @ [p] \<and> ts_next_pid s' = ts_next_pid s + 1
    \<and> (\<exists>tcb. sys_tasks s' = (sys_tasks s)(p \<mapsto> tcb) \<and> t_id tcb = ts_next_pid s \<and> t_name tcb = Some name
        \<and> t_machine_state tcb = initial_stack (ts_bootstrap_addr s) entry a1 a2 a3 \<and> t_vas_state tcb = vas
        \<and> runnable tcb)"
proof -
  obtain s1 where s1: "task_spawn_entry_point_with_args c p stack vas name entry a1 a2 a3 s = Inr s1"
    and add: "mlfq_add_task_to_queue p 0 s1 = Inr s'"
    using assms(3) by (auto simp: task_spawn_with_args_def task_make_schedulable_def ebind_eq_Inr)
  obtain tcb where tcb: "s1 = s\<lparr>ts_next_pid := ts_next_pid s + 1, ts_all_tasks := ts_all_tasks s @ [p],
      ts_core_slot := (ts_core_slot s)(vas := ts_core_slot s (ci_base_vas (ts_cpu s c))),
      sys_tasks := (sys_tasks s)(p \<mapsto> tcb)\<rparr>"
    "t_id tcb = ts_next_pid s" "t_name tcb = Some name" "t_vas_state tcb = vas"
    "t_machine_state tcb = initial_stack (ts_bootstrap_addr s) entry a1 a2 a3" "runnable tcb"
    using s1 by (auto simp: task_spawn_entry_point_with_args_def thread_create_def scheduler_track_task_def
        task_set_name_def upd_task_def Let_def runnable_def zero_task_def)
  have q: "queues s1 = queues s" using tcb(1) by simp
  have wf1: "mlfq_wf s1" using mlfq_wf_queues [OF q] assms(1) by simp
  note a = add_refines [OF wf1 add]
  have "set (sched_tasks s') = insert p (set (sched_tasks s1))"
    using a levels_length [OF wf1]
      tasks_of_append [of 0 "levels s1" "\<lparr>me_task = p, me_last_schedule_start = 0, me_ttl_remaining = mlfq_quantums ! 0\<rparr>"]
    by (metis (no_types, lifting) mlfq_ent.select_convs(1) sched_tasks_mset set_mset_add_mset_insert set_mset_mset
        spec_add_def unsigned_0 zero_less_numeral)
  moreover have "executing ((sys_tasks s)(p \<mapsto> tcb)) = (executing (sys_tasks s))(p := False)"
    using tcb(6) by (auto simp: executing_def fun_eq_iff runnable_def)
  ultimately show ?thesis
    using a only_queues_frame(1) [of s1 s'] only_queues_tasking [of s1 s'] tcb sched_tasks_queues [OF q] by auto
qed

lemma smp_ok_spawn:
  assumes "smp_ok s" and "p \<notin> dom (sys_tasks s)"
    and "task_spawn_with_args c p stack vas name entry a1 a2 a3 s = Inr s'"
  shows "smp_ok s'"
proof -
  have wf: "mlfq_wf s" and h: "holding_ok (set (sched_tasks s)) (dom (sys_tasks s)) (executing (sys_tasks s))
      (\<lambda>c. ci_idle_task (ts_cpu s c)) (held s)" using assms(1) by (simp_all add: smp_ok_def)
  note e = task_spawn_effect [OF wf assms(2,3)]
  have "held s' = held s" using e smp_phase_more [of s' s] by (simp add: held_def cpu_current_task_def fun_eq_iff)
  moreover have "phase_ok (insert p (set (sched_tasks s))) (smp_phase s' d) (cpu_current_task d s')" for d
  proof -
    have "p \<notin> held s d" using holding_okD(2) [OF h, of p d] assms(2) by blast
    moreover have "smp_phase s' d = smp_phase s d" "cpu_current_task d s' = cpu_current_task d s"
      using e smp_phase_more [of s' s] by (auto simp: cpu_current_task_def)
    ultimately show ?thesis
      using smp_okD(2) [OF assms(1), of d] by (auto simp: phase_ok_def held_def split: switch_phase.splits option.splits)
  qed
  ultimately show ?thesis using e holding_spawn [OF h assms(2), of False] by (simp add: smp_ok_def)
qed

lemma smp_ok_step: "smp_step s s' \<Longrightarrow> smp_ok s \<Longrightarrow> smp_ok s'"
proof (induction rule: smp_step.induct)
  case (prepare s c s')
  let ?s1 = "local_apic_timer_cancel c (cli c s)"
  have ok1: "smp_ok ?s1" and ph: "smp_phase ?s1 c = Running"
    using smp_ok_cli [OF prepare.prems] prepare.hyps(1)
    by (simp_all add: local_apic_timer_cancel_def cli_def upd_cpu_def)
  note e = prepare_switch_effect [OF conjunct1 [OF smp_ok_live [OF ok1]] prepare.hyps(3)]
  have "smp_ok s'" using smp_ok_only_queues [OF ok1] e by blast
  moreover have "smp_phase s' c = Running"
    using ph smp_phase_more [of s' ?s1] only_queues_tasking(9) [of ?s1 s'] e by simp
  ultimately show ?case by (intro smp_ok_phase) simp_all
next
  case (prepare_zombie s c)
  then have "smp_phase (local_apic_timer_cancel c (cli c s)) c = Running"
    by (simp add: local_apic_timer_cancel_def cli_def upd_cpu_def)
  then show ?case using smp_ok_cli [OF prepare_zombie.prems] by (intro smp_ok_phase) simp_all
next
  case (select s c sel s')
  then show ?case using smp_ok_select by blast
next
  case (arm s c sel t s')
  then show ?case using smp_ok_arm by blast
next
  case (save s c t s')
  then show ?case using smp_ok_save by blast
next
  case (clear s c t s')
  then show ?case using smp_ok_clear by blast
next
  case (take s c t)
  then show ?case using smp_ok_take by blast
next
  case (mark s c t s')
  then show ?case using smp_ok_mark by blast
next
  case (load s c t s')
  then show ?case using smp_ok_load by blast
next
  case (unblock c t reason s s')
  then show ?case
    by (auto simp: tasking_unblock_task_with_reason_def split: if_splits elim!: smp_ok_upd_task)
next
  case (status t st s s')
  then show ?case by (auto elim!: smp_ok_upd_task)
next
  case (boost s b s')
  then have wf: "mlfq_wf s" by (simp add: smp_ok_def)
  note r = boost_refines [OF wf boost.hyps]
  have "mset (sched_tasks s') = mset (sched_tasks s)"
    using r tasks_of_spec_boost [OF levels_split [OF wf]] by (auto simp: sched_tasks_mset)
  then show ?case using r smp_ok_only_queues [OF boost.prems] mset_set by blast
next
  case (spawn new_task s c stack new_vas name entry_point arg1 arg2 arg3 s')
  then show ?case using smp_ok_spawn by blast
next
  case (tick s)
  then show ?case
    by (intro smp_ok_same [OF tick.prems])
      (simp_all add: smp_ok_def cpu_current_task_def sched_tasks_def)
qed

lemma smp_reachable_ok: "smp_reachable s \<Longrightarrow> smp_ok s"
  by (induction rule: smp_reachable.induct) (auto simp: smp_start_def intro: smp_ok_step)

subsection \<open>Process ids\<close>

text \<open>Every tracked task exists, and the tracked tasks have different ids, all below the next one.\<close>

definition pids_ok :: "'z tasking_sys_scheme \<Rightarrow> bool" where
  "pids_ok s \<longleftrightarrow> set (ts_all_tasks s) \<subseteq> dom (sys_tasks s)
     \<and> (\<forall>t \<in> set (ts_all_tasks s). t_id (the (sys_tasks s t)) < ts_next_pid s)
     \<and> (\<forall>t \<in> set (ts_all_tasks s). \<forall>u \<in> set (ts_all_tasks s).
          t_id (the (sys_tasks s t)) = t_id (the (sys_tasks s u)) \<longrightarrow> t = u)"

lemma find_pid_ok:
  assumes "set ts \<subseteq> dom h" and "t \<in> set ts" and "t_id (the (h t)) = pid"
    and "\<And>u. u \<in> set ts \<Longrightarrow> t_id (the (h u)) = pid \<Longrightarrow> u = t"
  shows "find_pid h pid ts = Inr (Some t)"
  using assms
proof (induction ts)
  case Nil
  then show ?case by simp
next
  case (Cons u ts)
  obtain tcb where tcb: "h u = Some tcb" using Cons.prems(1) by auto
  show ?case
  proof (cases "t_id tcb = pid")
    case True
    then show ?thesis using Cons.prems(4) [of u] tcb by simp
  next
    case False
    then have "t \<in> set ts" using Cons.prems(2,3) tcb by auto
    have "find_pid h pid ts = Inr (Some t)"
    proof (rule Cons.IH)
      show "u = t" if "u \<in> set ts" "t_id (the (h u)) = pid" for u
        using Cons.prems(4) [of u] that by simp
    qed (use Cons.prems(1,3) \<open>t \<in> set ts\<close> in simp_all)
    then show ?thesis using False tcb by simp
  qed
qed

lemma find_pid_absent:
  assumes "set ts \<subseteq> dom h" and "\<And>u. u \<in> set ts \<Longrightarrow> t_id (the (h u)) \<noteq> pid"
  shows "find_pid h pid ts = Inr None"
  using assms by (induction ts) fastforce+

lemma pids_ok_spawn:
  assumes "pids_ok s" and "mlfq_wf s" and "p \<notin> dom (sys_tasks s)" and "ts_next_pid s < ts_next_pid s + 1"
    and "task_spawn_with_args c p stack vas name entry a1 a2 a3 s = Inr s'"
  shows "pids_ok s'"
proof -
  obtain tcb where e: "ts_all_tasks s' = ts_all_tasks s @ [p]" "ts_next_pid s' = ts_next_pid s + 1"
    "sys_tasks s' = (sys_tasks s)(p \<mapsto> tcb)" "t_id tcb = ts_next_pid s"
    using task_spawn_effect [OF assms(2,3,5)] by blast
  have fresh: "t \<noteq> p" if "t \<in> set (ts_all_tasks s)" for t using that assms(1,3) by (auto simp: pids_ok_def)
  have lt: "t_id (the (sys_tasks s t)) < ts_next_pid s" if "t \<in> set (ts_all_tasks s)" for t
    using that assms(1) by (simp add: pids_ok_def)
  have ne: "t_id (the (sys_tasks s t)) \<noteq> ts_next_pid s" if "t \<in> set (ts_all_tasks s)" for t
    using lt [OF that] by simp
  show ?thesis unfolding pids_ok_def
  proof (intro conjI ballI impI)
    show "set (ts_all_tasks s') \<subseteq> dom (sys_tasks s')" using assms(1) e by (auto simp: pids_ok_def)
    show "t_id (the (sys_tasks s' t)) < ts_next_pid s'" if "t \<in> set (ts_all_tasks s')" for t
      using that e fresh lt assms(4) by (auto intro: less_trans)
    show "t = u" if "t \<in> set (ts_all_tasks s')" "u \<in> set (ts_all_tasks s')"
        "t_id (the (sys_tasks s' t)) = t_id (the (sys_tasks s' u))" for t u
      using that e fresh ne assms(1) by (auto simp: pids_ok_def split: if_splits)
  qed
qed

subsection \<open>Properties\<close>

text \<open>
  C5. However the CPUs interleave the parts of their switches through the scheduler, block and unblock tasks,
  boost and spawn, no task is ever held by two CPUs: the flag set under the selection lock closes the gap
  between selecting and switching. The current tasks of two CPUs differ too, except while one of them has given
  its old task up and not yet stored the new one. (A switch past the scheduler does not keep this.)
\<close>

theorem no_task_on_two_cpus:
  assumes "smp_reachable s" and "c \<noteq> d"
  shows "held s c \<inter> held s d = {} \<and>
    (\<forall>t. cpu_current_task c s = Some t \<and> cpu_current_task d s = Some t \<longrightarrow> gave_up (smp_phase s c) \<or> gave_up (smp_phase s d))"
proof -
  have disj: "held s c \<inter> held s d = {}"
    using smp_reachable_ok [OF assms(1)] assms(2) unfolding smp_ok_def holding_ok_def by blast
  have "t \<in> held s e" if "cpu_current_task e s = Some t" "\<not> gave_up (smp_phase s e)" for e t using that by (simp add: held_def)
  then show ?thesis using disj by (metis disjoint_iff)
qed

text \<open>
  C6. A task that is switched away from resumes where it was, whichever CPU switches to it later: the return
  address, the stack and the five registers the switch pushes are those of the moment it was preempted,
  as long as nobody rewrote its saved state. The registers \<^verbatim>\<open>r12\<close> to \<^verbatim>\<open>r15\<close>, which the caller of a function may
  rely on, are not among them: the task resumes with those of the task that ran on the CPU before.
\<close>

theorem context_switch_resumes_preempted_task:
  assumes "cpu_current_task c s = Some old" and "new \<noteq> old" and "context_switch c new s = Inr s1"
    and "map_option t_machine_state (sys_tasks s2 old) = map_option t_machine_state (sys_tasks s1 old)"
    and "cpu_current_task d s2 \<noteq> Some old" and "context_switch d old s2 = Inr s3"
  shows "ci_regs (ts_cpu s3 d) = (ci_regs (ts_cpu s c))
      \<lparr>r_rdx := r_rdx (ci_regs (ts_cpu s2 d)), r_r12 := r_r12 (ci_regs (ts_cpu s2 d)), r_r13 := r_r13 (ci_regs (ts_cpu s2 d)),
       r_r14 := r_r14 (ci_regs (ts_cpu s2 d)), r_r15 := r_r15 (ci_regs (ts_cpu s2 d))\<rparr>
    \<and> ci_irqs (ts_cpu s3 d) \<and> cpu_current_task d s3 = Some old"
proof -
  have "map_option t_machine_state (sys_tasks s1 old) = Some (save_state (ci_regs (ts_cpu s c)))"
    using assms(1-3)
    by (auto simp: context_switch_def context_switch_restore_state_def upd_task_def ebind_eq_Inr
        cpu_set_current_task_def Let_def)
  then obtain tcb where "sys_tasks s2 old = Some tcb" "t_machine_state tcb = save_state (ci_regs (ts_cpu s c))"
    using assms(4) by auto
  then show ?thesis
    using assms(5,6)
    by (auto simp: context_switch_def context_switch_restore_state_def upd_task_def ebind_eq_Inr
        cpu_set_current_task_def cpu_current_task_def Let_def save_state_def restore_state_def)
qed

text \<open>
  C8. A spawned task gets a fresh process id, is in the first queue of the scheduler and is found by
  its id; the first switch to it enters \<^verbatim>\<open>_task_bootstrap\<close> with interrupts on, and the bootstrap
  calls the entry point with the three arguments of the spawn.
\<close>

theorem spawned_task_enters_its_entry_point:
  assumes "mlfq_wf s" and "pids_ok s" and "p \<notin> dom (sys_tasks s)" and "ts_next_pid s < ts_next_pid s + 1"
    and "entry \<noteq> 0" and "task_spawn_with_args c p stack vas name entry a1 a2 a3 s = Inr s1"
    and "cpu_current_task d s1 \<noteq> Some p" and "tasking_goto_task d p q s1 = Inr s2"
  shows "set (sched_tasks s1) = insert p (set (sched_tasks s)) \<and> pids_ok s1
    \<and> tasking_get_task_with_pid (uint (ts_next_pid s)) s1 = Inr (Some p)
    \<and> cpu_current_task d s2 = Some p \<and> ci_irqs (ts_cpu s2 d) \<and> ci_loaded_vas (ts_cpu s2 d) = vas
    \<and> r_rip (ci_regs (ts_cpu s2 d)) = ts_bootstrap_addr s
    \<and> (\<exists>r. task_bootstrap (ci_regs (ts_cpu s2 d)) = Inr r \<and> r_rip r = entry
         \<and> r_rdi r = a1 \<and> r_rsi r = a2 \<and> r_rdx r = a3)"
proof -
  note e = task_spawn_effect [OF assms(1,3,6)]
  then obtain tcb where tcb: "sys_tasks s1 = (sys_tasks s)(p \<mapsto> tcb)" "t_id tcb = ts_next_pid s" "t_vas_state tcb = vas"
    "t_machine_state tcb = initial_stack (ts_bootstrap_addr s) entry a1 a2 a3" by blast
  have pids: "pids_ok s1" by (rule pids_ok_spawn [OF assms(2,1,3,4,6)])
  have "find_pid (sys_tasks s1) (ts_next_pid s) (ts_all_tasks s1) = Inr (Some p)"
    by (rule find_pid_ok) (use pids e tcb in \<open>auto simp: pids_ok_def\<close>)
  then have "tasking_get_task_with_pid (uint (ts_next_pid s)) s1 = Inr (Some p)"
    by (simp add: tasking_get_task_with_pid_def)
  moreover have "cpu_current_task d s2 = Some p \<and> ci_irqs (ts_cpu s2 d) \<and> ci_loaded_vas (ts_cpu s2 d) = vas
      \<and> r_rip (ci_regs (ts_cpu s2 d)) = ts_bootstrap_addr s
      \<and> r_stack (ci_regs (ts_cpu s2 d)) = [0, entry, a1, a2, a3]"
    using assms(5,7,8) tcb
    by (auto simp: tasking_goto_task_def context_switch_def context_switch_restore_state_def upd_task_def
        ebind_eq_Inr cpu_set_current_task_def cpu_current_task_def Let_def restore_state_def initial_stack_def
        start_timeslice_def vas_load_state_def migrate_task_to_current_cpu_and_load_vas_def split: if_splits)
  ultimately show ?thesis using e pids by (auto simp: task_bootstrap_def)
qed

subsection \<open>A switch always finds a task to run\<close>

text \<open>Every saved stack holds at least the six words a switch pops.\<close>

definition saved_ok :: "task_store \<Rightarrow> bool" where
  "saved_ok h \<longleftrightarrow> (\<forall>t tcb. h t = Some tcb \<longrightarrow> 6 \<le> length (t_machine_state tcb))"

lemma saved_okD: "saved_ok h \<Longrightarrow> h t = Some tcb \<Longrightarrow> 6 \<le> length (t_machine_state tcb)"
  by (simp add: saved_ok_def)

lemma saved_ok_same:
  assumes "\<And>u. map_option t_machine_state (h' u) = map_option t_machine_state (h u)"
  shows "dom h' = dom h" "saved_ok h \<Longrightarrow> saved_ok h'"
proof -
  show "dom h' = dom h" using assms by (metis domIff map_option_is_None subsetI subset_antisym)
  show "saved_ok h'" if "saved_ok h" unfolding saved_ok_def
  proof (intro allI impI)
    fix t tcb assume "h' t = Some tcb"
    then obtain tcb' where "h t = Some tcb'" "t_machine_state tcb' = t_machine_state tcb"
      using assms [of t] by (cases "h t") auto
    then show "6 \<le> length (t_machine_state tcb)" using saved_okD [OF that] by metis
  qed
qed

lemma restore_state_ok: "6 \<le> length st \<Longrightarrow> \<exists>r'. restore_state st r = Inr r'"
  by (auto simp: restore_state_def numeral_eq_Suc Suc_le_length_iff)

lemma context_switch_ok:
  assumes "cpu_current_task c s = Some old" and "old \<in> dom (sys_tasks s)" and "t \<in> dom (sys_tasks s)"
    and "saved_ok (sys_tasks s)"
  shows "is_ok (context_switch c t s)"
proof -
  let ?st = "if t = old then save_state (ci_regs (ts_cpu s c)) else t_machine_state (the (sys_tasks s t))"
  have "6 \<le> length ?st" using assms(3,4) by (auto simp: save_state_def saved_ok_def)
  then obtain r where "restore_state ?st (ci_regs (ts_cpu s c)) = Inr r" using restore_state_ok by blast
  then show ?thesis
    using assms(1-3)
    by (auto simp: context_switch_def context_switch_restore_state_def upd_task_def cpu_set_current_task_def
        cpu_current_task_def Let_def split: if_splits)
qed

lemma goto_task_ok:
  assumes "cpu_current_task c s = Some old" and "old \<in> dom (sys_tasks s)" and "t \<in> dom (sys_tasks s)"
    and "saved_ok (sys_tasks s)"
  shows "is_ok (tasking_goto_task c t q s)"
proof -
  obtain tcb where tcb: "sys_tasks s t = Some tcb" using assms(3) by auto
  let ?tcb = "start_timeslice (sys_now s) q tcb"
  let ?s1 = "s\<lparr>sys_tasks := (sys_tasks s)(t \<mapsto> ?tcb)\<rparr>"
  define s2 where "s2 = upd_cpu c (ci_tss_stack_update (\<lambda>_. t_kernel_stack ?tcb))
       (if t_vas_state ?tcb \<noteq> ci_loaded_vas (ts_cpu ?s1 c)
        then if t_cpu_id ?tcb = c then vas_load_state c (t_vas_state ?tcb) ?s1
             else migrate_task_to_current_cpu_and_load_vas c ?tcb ?s1
        else ?s1)"
  have h2: "sys_tasks s2 = (sys_tasks s)(t \<mapsto> ?tcb)" and cur: "cpu_current_task c s2 = Some old"
    using assms(1) by (auto simp: s2_def cpu_current_task_def vas_load_state_def migrate_task_to_current_cpu_and_load_vas_def)
  have "saved_ok (sys_tasks s2)"
    using assms(4) tcb unfolding h2 by (auto simp: saved_ok_def start_timeslice_def Let_def split: if_splits)
  then have "is_ok (context_switch c t s2)"
    by (intro context_switch_ok [OF cur]) (use h2 assms(2) in auto)
  then show ?thesis
    using tcb by (simp add: tasking_goto_task_def upd_task_ok s2_def Let_def)
qed

lemma goto_task_timeslice:
  assumes "tasking_goto_task c t q s = Inr s'"
  shows "map_option t_timeslice_end (sys_tasks s' t) = Some (ucast (ucast (sys_now s) + q))
    \<and> ci_timer (ts_cpu s' c) = ci_timer (ts_cpu s c)"
  using assms
  by (auto simp: tasking_goto_task_def context_switch_def context_switch_restore_state_def upd_task_def
      ebind_eq_Inr cpu_set_current_task_def Let_def start_timeslice_def vas_load_state_def
      migrate_task_to_current_cpu_and_load_vas_def split: if_splits)

lemma select_task_ok:
  assumes "mlfq_wf s" and "sched_live s" and "\<not> ts_select_lock s"
  shows "\<exists>sel s'. select_task s = Inr (sel, s')
    \<and> (sel = None \<longleftrightarrow> (\<forall>t \<in> set (sched_tasks s). \<not> task_runnable (sys_tasks s) t))"
proof -
  obtain r s1 where ch: "mlfq_choose_task s = Inr (r, s1)" and h: "sys_tasks s1 = sys_tasks s"
    and r: "case r of None \<Rightarrow> \<forall>t \<in># mset (sched_tasks s). \<not> task_runnable (sys_tasks s) t
       | Some (t, _) \<Rightarrow> t \<in># mset (sched_tasks s) \<and> task_runnable (sys_tasks s) t"
    using sched.pick_returns [OF assms(1)] assms(2) unfolding sched_live_members by blast
  show ?thesis
  proof (cases r)
    case None
    then show ?thesis using ch r assms(3) by (simp add: select_task_def)
  next
    case (Some tq)
    then obtain t q where tq: "r = Some (t, q)" by (cases tq) auto
    then obtain tcb where "sys_tasks s1 t = Some tcb"
      using r h by (auto simp: task_runnable_def split: option.splits)
    then show ?thesis using ch r tq assms(3) by (auto simp: select_task_def upd_task_ok)
  qed
qed

lemma prepare_switch_same_queues:
  assumes "mlfq_wf s" and "queues s0 = queues s" and "cpu_current_task c s0 = Some old"
    and "\<forall>i < 4. length (levels s ! i) < 128"
  shows "\<exists>s1. prepare_switch c s0 = Inr s1 \<and> mlfq_wf s1 \<and> only_queues s0 s1
    \<and> set (sched_tasks s1) = set (sched_tasks s)"
proof -
  have wf0: "mlfq_wf s0" "levels s0 = levels s"
    using mlfq_wf_queues [OF assms(2)] levels_queues [OF assms(2)] assms(1) by simp_all
  obtain b s1 where "mlfq_prepare_for_switch_from_task old s0 = Inr (b, s1)"
    using prepare_ok [OF wf0(1), of old] assms(4) wf0(2) by (auto simp: is_ok_iff)
  then have "prepare_switch c s0 = Inr s1" using assms(3) by (simp add: prepare_switch_def)
  then show ?thesis
    using prepare_switch_effect [OF wf0(1)] sched_tasks_queues [OF assms(2)] by auto
qed

text \<open>
  C7. \<^verbatim>\<open>task_switch\<close> on a CPU that runs a task and has an idle task always returns in another context:
  a task of the scheduler that could run and was on no CPU if there is one, and the CPU's idle task
  otherwise; the local timer is armed for 25 ms and the new time slice ends 25 ms from now.
\<close>

theorem task_switch_runs_a_task:
  assumes "mlfq_wf s" and "sched_live s" and "\<forall>i < 4. length (levels s ! i) < 128"
    and "\<not> ts_schedule_disabled s" and "\<not> ts_select_lock s" and "ts_smp_info s"
    and "cpu_current_task c s = Some old" and "old \<in> dom (sys_tasks s)"
    and "ci_idle_task (ts_cpu s c) = Some idle" and "idle \<in> dom (sys_tasks s)" and "saved_ok (sys_tasks s)"
  shows "\<exists>s' t. task_switch c s = Inr s' \<and> cpu_current_task c s' = Some t \<and> executing (sys_tasks s') t
    \<and> (if \<exists>u \<in> set (sched_tasks s). task_runnable (sys_tasks s) u
       then t \<in> set (sched_tasks s) \<and> task_runnable (sys_tasks s) t else t = idle)
    \<and> ci_timer (ts_cpu s' c) = Some 25
    \<and> map_option t_timeslice_end (sys_tasks s' t) = Some (ucast (ucast (sys_now s) + 25 :: u32))"
proof -
  define s0 where "s0 = local_apic_timer_cancel c (cli c s)"
  have s0: "queues s0 = queues s" "sys_tasks s0 = sys_tasks s" "cpu_current_task c s0 = Some old" "sys_now s0 = sys_now s"
    "ci_idle_task (ts_cpu s0 c) = Some idle" "\<not> ts_select_lock s0" "ts_smp_info s0" "\<not> ts_schedule_disabled (cli c s)"
    using assms(4-7,9) by (simp_all add: s0_def local_apic_timer_cancel_def cli_def cpu_current_task_def)
  obtain s1 where pr: "prepare_switch c s0 = Inr s1" and wf1: "mlfq_wf s1" and oq: "only_queues s0 s1"
    and set1: "set (sched_tasks s1) = set (sched_tasks s)"
    using prepare_switch_same_queues [OF assms(1) s0(1,3) assms(3)] by blast
  note f1 = only_queues_frame [OF oq] only_queues_tasking [OF oq]
  have live1: "sched_live s1" using assms(2) set1 f1(1) s0(2) by (simp add: sched_live_def)
  obtain sel s2 where sel: "select_task s1 = Inr (sel, s2)"
    "sel = None \<longleftrightarrow> (\<forall>t \<in> set (sched_tasks s). \<not> task_runnable (sys_tasks s) t)"
    using select_task_ok [OF wf1 live1] f1 s0 set1 by auto
  note e2 = select_task_effect [OF wf1 live1 sel(1)]
  define s3 where "s3 = upd_cpu c (ci_timer_update (\<lambda>_. Some 25)) s2"
  obtain t where t: "(case sel of None \<Rightarrow> ci_idle_task (ts_cpu s2 c) | Some t \<Rightarrow> Some t) = Some t" "t \<in> dom (sys_tasks s2)"
    "if \<exists>u \<in> set (sched_tasks s). task_runnable (sys_tasks s) u
       then t \<in> set (sched_tasks s) \<and> task_runnable (sys_tasks s) t else t = idle"
  proof (cases sel)
    case None
    then show ?thesis using that [of idle] e2 f1 s0 assms(10) sel(2) by auto
  next
    case (Some u)
    then have "u \<in> set (sched_tasks s)" "task_runnable (sys_tasks s) u" "u \<in> dom (sys_tasks s2)"
      using e2 set1 f1(1) s0(2) by (auto simp: task_runnable_def dom_def split: option.splits)
    then show ?thesis by (intro that [of u]) (use Some in auto)
  qed
  have "saved_ok (sys_tasks s2)" "dom (sys_tasks s2) = dom (sys_tasks s)"
    using saved_ok_same [of "sys_tasks s2" "sys_tasks s"] e2 f1(1) s0(2) assms(11) by simp_all
  moreover have cur3: "cpu_current_task c s3 = Some old"
    using e2 f1(4) s0(3) by (simp add: s3_def cpu_current_task_def)
  ultimately obtain s' where go: "tasking_goto_task c t 25 s3 = Inr s'"
    using goto_task_ok [OF cur3, of t 25] t(2) assms(8) by (auto simp: s3_def is_ok_iff)
  have run: "task_switch c s = Inr s'"
    using pr sel(1) go t(1) s0(7,8) e2 f1
    by (simp add: task_switch_def task_switch_cont_def goto_selected_def s0_def [symmetric] s3_def [symmetric] Let_def)
  have "cpu_current_task c s' = Some t \<and> executing (sys_tasks s') t"
    using goto_task_effect [OF go] by auto
  moreover have "ci_timer (ts_cpu s' c) = Some 25
      \<and> map_option t_timeslice_end (sys_tasks s' t) = Some (ucast (ucast (sys_now s) + 25 :: u32))"
    using goto_task_timeslice [OF go] e2 f1 s0 by (simp add: s3_def)
  ultimately show ?thesis using run t(3) by blast
qed

text \<open>
  \<^verbatim>\<open>mlfq_goto_task\<close>, by which an interrupt handler switches straight to a driver's task, does not
  look at the executing flag: if the driver's task is running on another CPU, it ends up running on
  both.
\<close>

lemma mlfq_goto_task_ignores_executing_flag:
  assumes "mlfq_wf s" and "c \<noteq> d" and "cpu_current_task d s = Some task" and "cpu_current_task c s \<noteq> Some task"
    and "mlfq_goto_task c task s = Inr s'"
  shows "cpu_current_task c s' = Some task \<and> cpu_current_task d s' = Some task"
proof -
  obtain s1 s2 q where s1: "prepare_switch c s = Inr s1" and s2: "mlfq_next_quantum_for_task task s1 = Inr (q, s2)"
    and go: "tasking_goto_task c task (case q of None \<Rightarrow> 0 | Some quantum \<Rightarrow> quantum) s2 = Inr s'"
    using assms(4,5) by (auto simp: mlfq_goto_task_def ebind_eq_Inr)
  have wf1: "mlfq_wf s1" and oq1: "only_queues s s1"
    using prepare_switch_effect [OF assms(1) s1] by simp_all
  have oq2: "only_queues s1 s2" using next_quantum_refines [OF wf1, of task] s2 by auto
  have "ts_cpu s2 = ts_cpu s" using only_queues_tasking(1) [OF oq1] only_queues_tasking(1) [OF oq2] by simp
  moreover have "cpu_current_task c s' = Some task" "ts_cpu s' d = ts_cpu s2 d"
    using goto_task_effect [OF go] assms(2) by auto
  ultimately show ?thesis using assms(3) by (simp add: cpu_current_task_def)
qed

text \<open>
  With multitasking on, distinct process ids and a running task that is tracked,
  \<^verbatim>\<open>tasking_get_current_task\<close> (which goes through the process id and the list of all tasks) returns
  the CPU's current task.
\<close>

lemma get_current_task_is_current:
  assumes "pids_ok s" and "ts_multitasking_ready s" and "cpu_current_task c s = Some t"
    and "t \<in> set (ts_all_tasks s)"
  shows "tasking_get_current_task c s = Inr (Some t)"
proof -
  obtain tcb where tcb: "sys_tasks s t = Some tcb" using assms(1,4) by (auto simp: pids_ok_def)
  have "find_pid (sys_tasks s) (t_id tcb) (ts_all_tasks s) = Inr (Some t)"
  proof (rule find_pid_ok)
    show "u = t" if "u \<in> set (ts_all_tasks s)" "t_id (the (sys_tasks s u)) = t_id tcb" for u
      using that assms(1,4) tcb unfolding pids_ok_def by (metis option.sel)
  qed (use assms(1,4) tcb in \<open>simp_all add: pids_ok_def\<close>)
  then show ?thesis
    using assms(2,3) tcb by (simp add: tasking_get_current_task_def getpid_def tasking_get_task_with_pid_def)
qed

subsection \<open>The properties at a concrete state\<close>

text \<open>
  Two CPUs. CPU 0 runs task 1 of the scheduler of \<open>demo_sched\<close>, CPU 1 its idle task 11; CPU 0's idle
  task is 10.
\<close>

definition demo_task :: "u32 \<Rightarrow> u32 \<Rightarrow> bool \<Rightarrow> task_small" where
  "demo_task pid status running = zero_task\<lparr>t_id := pid, t_status := status, t_machine_state := replicate 6 0,
     t_sbrk_base := 0x1000, t_sbrk_current_break := 0x1000, t_sbrk_current_page_head := 0x1000,
     t_is_currently_executing := running\<rparr>"

definition demo_cpu :: "task_ptr option \<Rightarrow> task_ptr option \<Rightarrow> cpu_info" where
  "demo_cpu cur idle = \<lparr>ci_current_task = cur, ci_scheduler_enabled = True, ci_idle_task = idle,
     ci_base_vas = 0, ci_loaded_vas = 0, ci_tss_stack = 0, ci_timer = None, ci_irqs = True,
     ci_regs = \<lparr>r_rax = 1, r_rbx = 2, r_rsi = 3, r_rdi = 4, r_rdx = 5, r_rbp = 6, r_r12 = 12, r_r13 = 13, r_r14 = 14, r_r15 = 15, r_rip = 7, r_stack = [8, 9]\<rparr>\<rparr>"

definition demo_smp :: smp_sys where
  "demo_smp = \<lparr>sys_tasks = [1 \<mapsto> demo_task 1 RUNNABLE True, 2 \<mapsto> demo_task 2 IRQ_WAIT False,
       3 \<mapsto> demo_task 3 RUNNABLE False, 10 \<mapsto> demo_task 10 RUNNABLE False, 11 \<mapsto> demo_task 11 RUNNABLE True],
     sys_now = 2000, queues = demo_queues demo_levels,
     ts_cpu = (\<lambda>c. if c = 0 then demo_cpu (Some 1) (Some 10) else if c = 1 then demo_cpu (Some 11) (Some 11)
                   else demo_cpu None None),
     ts_next_pid = 12, ts_multitasking_ready = True, ts_schedule_disabled = False, ts_select_lock = False,
     ts_all_tasks = [1, 2, 3, 10, 11], ts_smp_info = True, ts_bootstrap_addr = 0x5000, ts_core_slot = (\<lambda>_. 0),
     smp_phase = (\<lambda>_. Running)\<rparr>"

lemma demo_smp_sched:
  "mlfq_wf demo_smp" "levels demo_smp = demo_levels" "sched_tasks demo_smp = [2, 1, 3]" "sched_live demo_smp"
  "\<forall>i < 4. length (levels demo_smp ! i) < 128"
proof -
  have q: "queues demo_smp = demo_queues demo_levels" by (simp add: demo_smp_def)
  show "mlfq_wf demo_smp" by (rule demo_queues_ok(1) [OF q]) (simp_all add: demo_levels_def)
  show l: "levels demo_smp = demo_levels" by (rule demo_queues_ok(2) [OF q]) (simp_all add: demo_levels_def)
  show t: "sched_tasks demo_smp = [2, 1, 3]" unfolding sched_tasks_def l by (simp add: demo_levels_def)
  show "sched_live demo_smp" unfolding sched_live_def t by (simp add: demo_smp_def)
  show "\<forall>i < 4. length (levels demo_smp ! i) < 128"
    unfolding l by (auto simp: demo_levels_def nth_Cons split: nat.split)
qed

lemma demo_smp_saved: "saved_ok (sys_tasks demo_smp)"
  by (auto simp: saved_ok_def demo_smp_def demo_task_def split: if_splits)

lemma demo_smp_pids: "pids_ok demo_smp"
  by (simp add: pids_ok_def demo_smp_def demo_task_def)

lemma demo_smp_cur:
  "cpu_current_task 0 demo_smp = Some 1" "cpu_current_task 1 demo_smp = Some 11"
  "dom (sys_tasks demo_smp) = {1, 2, 3, 10, 11}"
  by (auto simp: demo_smp_def demo_cpu_def cpu_current_task_def split: if_splits)

lemma demo_smp_start: "smp_start demo_smp"
proof -
  have h: "held demo_smp c = (if c = 0 then {1} else if c = 1 then {11} else {})" for c
    by (simp add: held_def cpu_current_task_def demo_smp_def demo_cpu_def)
  have i: "ci_idle_task (ts_cpu demo_smp c) = (if c = 0 then Some 10 else if c = 1 then Some 11 else None)" for c
    by (simp add: demo_smp_def demo_cpu_def)
  have x: "executing (sys_tasks demo_smp) 1" by (simp add: executing_def demo_smp_def demo_task_def)
  have "holding_ok (set (sched_tasks demo_smp)) (dom (sys_tasks demo_smp)) (executing (sys_tasks demo_smp))
      (\<lambda>c. ci_idle_task (ts_cpu demo_smp c)) (held demo_smp)"
    by (rule holding_okI) (use x in \<open>auto simp: demo_smp_sched demo_smp_cur h i split: if_splits\<close>)
  moreover have "phase_ok S (smp_phase demo_smp c) cur" for S c cur by (simp add: phase_ok_def demo_smp_def)
  ultimately show ?thesis using demo_smp_sched(1) by (simp add: smp_start_def smp_ok_def) (simp add: demo_smp_def)
qed

theorem no_task_on_two_cpus_witness: "held demo_smp 0 \<inter> held demo_smp 1 = {}"
  using no_task_on_two_cpus [OF smp_reachable.start [OF demo_smp_start], of 0 1] by simp

theorem context_switch_resumes_preempted_task_witness:
  "\<exists>s1 s3. context_switch 0 3 demo_smp = Inr s1 \<and> context_switch 0 1 s1 = Inr s3
     \<and> r_rip (ci_regs (ts_cpu s3 0)) = 7 \<and> r_stack (ci_regs (ts_cpu s3 0)) = [8, 9]"
proof -
  obtain s1 where s1: "context_switch 0 3 demo_smp = Inr s1"
    using context_switch_ok [OF demo_smp_cur(1) _ _ demo_smp_saved, of 3] demo_smp_cur(3) by (auto simp: is_ok_iff)
  have cur1: "cpu_current_task 0 s1 = Some 3" and dom1: "dom (sys_tasks s1) = {1, 2, 3, 10, 11}"
    using context_switch_effect [OF s1] demo_smp_cur(3) by (auto simp: same_rest_def)
  have "saved_ok (sys_tasks s1)"
    using s1 by (auto simp: context_switch_def context_switch_restore_state_def upd_task_def ebind_eq_Inr
        cpu_set_current_task_def Let_def demo_smp_def saved_ok_def save_state_def demo_task_def split: if_splits)
  then obtain s3 where s3: "context_switch 0 1 s1 = Inr s3"
    using context_switch_ok [OF cur1, of 1] dom1 by (auto simp: is_ok_iff)
  have "r_rip (ci_regs (ts_cpu s3 0)) = 7 \<and> r_stack (ci_regs (ts_cpu s3 0)) = [8, 9]"
    using context_switch_resumes_preempted_task [OF demo_smp_cur(1) _ s1 refl _ s3] cur1
    by (simp add: demo_smp_def demo_cpu_def)
  then show ?thesis using s1 s3 by blast
qed

theorem task_switch_runs_a_task_witness:
  "\<exists>s'. task_switch 0 demo_smp = Inr s' \<and> cpu_current_task 0 s' = Some 3"
proof -
  have "ci_idle_task (ts_cpu demo_smp 0) = Some 10" "ts_smp_info demo_smp" "\<not> ts_schedule_disabled demo_smp"
    "\<not> ts_select_lock demo_smp" by (simp_all add: demo_smp_def demo_cpu_def)
  moreover have "task_runnable (sys_tasks demo_smp) t \<longleftrightarrow> t = 3" if "t \<in> {1, 2, 3}" for t
    using that by (auto simp: task_runnable_def runnable_def demo_smp_def demo_task_def task_state_defs)
  ultimately show ?thesis
    using task_switch_runs_a_task [of demo_smp 0 1 10] demo_smp_sched demo_smp_saved demo_smp_cur by auto
qed

theorem spawned_task_enters_its_entry_point_witness:
  "\<exists>s1 s2. task_spawn_with_args 0 20 0x9000 7 ''init'' 0x4000 1 2 3 demo_smp = Inr s1
     \<and> tasking_goto_task 0 20 25 s1 = Inr s2 \<and> r_rip (ci_regs (ts_cpu s2 0)) = 0x5000"
proof -
  have fresh: "20 \<notin> dom (sys_tasks demo_smp)" by (simp add: demo_smp_cur)
  obtain s1 where s1: "task_spawn_with_args 0 20 0x9000 7 ''init'' 0x4000 1 2 3 demo_smp = Inr s1"
  proof -
    obtain s0 where s0: "task_spawn_entry_point_with_args 0 20 0x9000 7 ''init'' 0x4000 1 2 3 demo_smp = Inr s0"
      "queues s0 = queues demo_smp"
      by (auto simp: task_spawn_entry_point_with_args_def thread_create_def scheduler_track_task_def
          task_set_name_def upd_task_def Let_def)
    have "is_ok (mlfq_add_task_to_queue 20 0 s0)"
      using add_ok [of s0 0 20] mlfq_wf_queues [OF s0(2)] levels_queues [OF s0(2)] demo_smp_sched by simp
    then show ?thesis using that s0(1) by (auto simp: task_spawn_with_args_def task_make_schedulable_def is_ok_iff)
  qed
  note e = task_spawn_effect [OF demo_smp_sched(1) fresh s1]
  have cur: "cpu_current_task 0 s1 = Some 1" using e demo_smp_cur(1) by (simp add: cpu_current_task_def)
  have "saved_ok (sys_tasks s1)"
    using e demo_smp_saved by (auto simp: saved_ok_def initial_stack_def split: if_splits)
  then obtain s2 where s2: "tasking_goto_task 0 20 25 s1 = Inr s2"
    using goto_task_ok [OF cur, of 20 25] e by (auto simp: is_ok_iff demo_smp_cur)
  have pid: "ts_next_pid demo_smp < ts_next_pid demo_smp + 1" by (simp add: demo_smp_def)
  have "r_rip (ci_regs (ts_cpu s2 0)) = 0x5000"
    using spawned_task_enters_its_entry_point [OF demo_smp_sched(1) demo_smp_pids fresh pid _ s1 _ s2] cur
    by (simp add: demo_smp_def)
  then show ?thesis using s1 s2 by blast
qed

lemma demo_current: "tasking_get_current_task 0 demo_smp = Inr (Some 1)"
  by (simp add: tasking_get_current_task_def getpid_def tasking_get_task_with_pid_def demo_smp_cur)
    (simp add: demo_smp_def demo_task_def)

end
