(* ===== verification/Bytes.thy ===== *)
theory Bytes
  imports Prelude
begin

text \<open>
  Structures in byte buffers: the code casts buffers to packed or padded C structs. A field is read
  at its offset (\<open>OutOfBounds\<close> when it does not lie inside the buffer), little-endian on the CPU and
  big-endian on the network, and a fixed-size character array holds a string up to its first zero
  byte. The round trips show that what one side writes the other reads.
\<close>

subsection \<open>Numbers\<close>

fun le_digits :: "nat \<Rightarrow> nat \<Rightarrow> u8 list" where
  "le_digits 0 v = []"
| "le_digits (Suc n) v = of_nat v # le_digits n (v div 256)"

fun le_val :: "u8 list \<Rightarrow> nat" where
  "le_val [] = 0"
| "le_val (b # bs) = unat b + 256 * le_val bs"

definition put_le :: "nat \<Rightarrow> 'a::len word \<Rightarrow> u8 list" where
  "put_le n w = le_digits n (unat w)"

definition put_be :: "nat \<Rightarrow> 'a::len word \<Rightarrow> u8 list" where
  "put_be n w = rev (le_digits n (unat w))"

definition field :: "u8 list \<Rightarrow> nat \<Rightarrow> nat \<Rightarrow> u8 list res" where
  "field b off n = (if off + n \<le> length b then Inr (take n (drop off b)) else Inl OutOfBounds)"

definition get_le :: "nat \<Rightarrow> u8 list \<Rightarrow> nat \<Rightarrow> 'a::len word res" where
  "get_le n b off = ebind (field b off n) (\<lambda>f. Inr (of_nat (le_val f)))"

definition get_be :: "nat \<Rightarrow> u8 list \<Rightarrow> nat \<Rightarrow> 'a::len word res" where
  "get_be n b off = ebind (field b off n) (\<lambda>f. Inr (of_nat (le_val (rev f))))"

lemma length_le_digits [simp]: "length (le_digits n v) = n"
  by (induction n arbitrary: v) auto

lemma length_put [simp]: "length (put_le n w) = n" "length (put_be n w) = n"
  by (simp_all add: put_le_def put_be_def)

lemma le_val_digits: "le_val (le_digits n v) = v mod 256 ^ n"
proof (induction n arbitrary: v)
  case 0
  then show ?case by simp
next
  case (Suc n)
  have "unat (of_nat v :: u8) = v mod 256" by (simp add: unat_of_nat)
  moreover have "v mod (256 * 256 ^ n) = v mod 256 + 256 * (v div 256 mod 256 ^ n)"
    by (simp add: mod_mult2_eq)
  ultimately show ?case using Suc.IH [of "v div 256"] by simp
qed

lemma le_val_bound: "le_val bs < 256 ^ length bs"
proof (induction bs)
  case Nil
  then show ?case by simp
next
  case (Cons b bs)
  have "unat b < 2 ^ LENGTH(8)" by (rule unsigned_less)
  then show ?case using Cons by simp
qed

lemma field_mid: "field (xs @ ys @ zs) (length xs) (length ys) = Inr ys"
  by (simp add: field_def)

text \<open>A field that was written is read back, whatever surrounds it.\<close>

lemma get_le_put:
  fixes w :: "'a::len word"
  assumes "LENGTH('a) \<le> 8 * n"
  shows "get_le n (xs @ put_le n w @ zs) (length xs) = Inr w"
proof -
  have "field (xs @ put_le n w @ zs) (length xs) n = Inr (put_le n w)"
    using field_mid [of xs "put_le n w" zs] by simp
  moreover have "unat w < 256 ^ n"
  proof -
    have "unat w < 2 ^ LENGTH('a)" by simp
    also have "\<dots> \<le> 2 ^ (8 * n)" using assms by (intro power_increasing) simp_all
    finally show ?thesis by (simp add: power_mult)
  qed
  ultimately show ?thesis by (simp add: get_le_def put_le_def le_val_digits)
qed

lemma get_be_put:
  fixes w :: "'a::len word"
  assumes "LENGTH('a) \<le> 8 * n"
  shows "get_be n (xs @ put_be n w @ zs) (length xs) = Inr w"
proof -
  have "field (xs @ put_be n w @ zs) (length xs) n = Inr (put_be n w)"
    using field_mid [of xs "put_be n w" zs] by simp
  moreover have "unat w < 256 ^ n"
  proof -
    have "unat w < 2 ^ LENGTH('a)" by simp
    also have "\<dots> \<le> 2 ^ (8 * n)" using assms by (intro power_increasing) simp_all
    finally show ?thesis by (simp add: power_mult)
  qed
  ultimately show ?thesis by (simp add: get_be_def put_be_def le_val_digits)
qed

subsection \<open>Fixed-size strings\<close>

definition byte_of :: "char \<Rightarrow> u8" where "byte_of c = of_nat (of_char c)"
definition char_at :: "u8 \<Rightarrow> char" where "char_at b = char_of (unat b)"

lemma char_at_byte_of [simp]: "char_at (byte_of c) = c"
proof -
  have "(of_char c :: nat) < 256" using of_char_mod_256 [of c, where 'a = nat] by (metis mod_less_divisor zero_less_numeral)
  then show ?thesis by (simp add: char_at_def byte_of_def unat_of_nat)
qed

lemma byte_of_eq_0: "byte_of c = 0 \<longleftrightarrow> c = CHR 0x00"
proof
  assume "byte_of c = 0"
  then have "char_at (byte_of c) = char_at 0" by (rule arg_cong)
  then show "c = CHR 0x00" unfolding char_at_byte_of by (simp add: char_at_def char_of_def)
qed (simp add: byte_of_def of_char_def)

text \<open>\<^verbatim>\<open>strncpy\<close> into a zeroed array of \<open>n\<close> bytes, and reading the array as a C string.\<close>

definition put_name :: "nat \<Rightarrow> string \<Rightarrow> u8 list" where
  "put_name n s = (let bs = take n (map byte_of s) in bs @ replicate (n - length bs) 0)"

definition get_name :: "nat \<Rightarrow> u8 list \<Rightarrow> nat \<Rightarrow> string res" where
  "get_name n b off = ebind (field b off n) (\<lambda>f. Inr (map char_at (takeWhile (\<lambda>x. x \<noteq> 0) f)))"

definition no_nul :: "string \<Rightarrow> bool" where
  "no_nul s \<longleftrightarrow> CHR 0x00 \<notin> set s"

lemma length_put_name [simp]: "length (put_name n s) = n"
  by (simp add: put_name_def Let_def)

lemma get_name_put:
  assumes "no_nul s"
  shows "get_name n (xs @ put_name n s @ zs) (length xs) = Inr (take n s)"
proof -
  let ?bs = "map byte_of (take n s)"
  have nz: "\<And>x. x \<in> set ?bs \<Longrightarrow> x \<noteq> 0"
    using assms set_take_subset [of n s] by (auto simp: byte_of_eq_0 no_nul_def)
  have "put_name n s = ?bs @ replicate (n - length ?bs) 0"
    by (simp add: put_name_def Let_def take_map)
  then have "takeWhile (\<lambda>x. x \<noteq> 0) (put_name n s) = ?bs @ takeWhile (\<lambda>x. x \<noteq> 0) (replicate (n - length ?bs) 0)"
    using takeWhile_append2 [of ?bs "\<lambda>x. x \<noteq> 0", OF nz] by simp
  then have "takeWhile (\<lambda>x. x \<noteq> 0) (put_name n s) = ?bs" by (cases "n - length ?bs") simp_all
  then show ?thesis
    using field_mid [of xs "put_name n s" zs] by (simp add: get_name_def comp_def)
qed

end
