(* ===== verification/Amc.thy ===== *)
theory Amc
  imports Tasking Bytes
begin

text \<open>
  Inter-process messages: \<^verbatim>\<open>kernel/kernel/util/amc/amc.c\<close> with the inboxes that
  \<^verbatim>\<open>rust_kernel_libs/acpi/src/amc.rs\<close> keeps.

  A service is a heap object named by a pointer; \<open>amc_heap\<close> maps live service pointers to their
  control blocks and a freed service has no entry. The inboxes are keyed by service pointer (the
  Rust map compares services by their fields, the first of which is the address of the name string).
  \<open>amc_up\<close> says whether the first registration has created the three global arrays. Names are C
  strings without zero bytes; \<^verbatim>\<open>strncmp(a, b, 64)\<close> compares their first 64 characters. Messages to
  \<^verbatim>\<open>com.axle.core\<close> are handed to the argument \<open>core\<close>, which the theory of the core commands
  instantiates.
\<close>

subsection \<open>State\<close>

type_synonym svc_ptr = nat

record amc_message =
  msg_source :: string
  msg_dest :: string
  msg_body :: "u8 list"

record amc_service =
  sv_name :: string
  sv_task :: task_ptr
  sv_message_queue :: "amc_message array_m"
  sv_lock :: bool
  sv_delivery_pool :: u64
  sv_shmem_regions :: "unit array_m"
  sv_notify :: "svc_ptr array_m"       \<comment> \<open>\<^verbatim>\<open>services_to_notify_upon_death\<close>\<close>
  sv_delivery_enabled :: bool

record amc_sys = tasking_sys +
  amc_up :: bool
  amc_services :: "svc_ptr array_m"
  amc_pool :: "amc_message array_m"    \<comment> \<open>\<^verbatim>\<open>_amc_messages_to_unknown_services_pool\<close>\<close>
  amc_asleep :: "svc_ptr array_m"
  amc_heap :: "svc_ptr \<rightharpoonup> amc_service"
  amc_inboxes :: "svc_ptr \<rightharpoonup> amc_message list"
  amc_delivered :: "svc_ptr \<rightharpoonup> amc_message"   \<comment> \<open>what a service's delivery pool starts with\<close>

definition AMC_MAX_SERVICE_NAME_LEN :: nat where "AMC_MAX_SERVICE_NAME_LEN = 64"
definition AMC_MAX_MESSAGE_SIZE :: nat where "AMC_MAX_MESSAGE_SIZE = 1024 * 1024 * 16"

definition AXLE_CORE_SERVICE_NAME :: string where "AXLE_CORE_SERVICE_NAME = ''com.axle.core''"

definition name_eq :: "string \<Rightarrow> string \<Rightarrow> bool" where
  "name_eq a b \<longleftrightarrow> take AMC_MAX_SERVICE_NAME_LEN a = take AMC_MAX_SERVICE_NAME_LEN b"

definition upd_service :: "svc_ptr \<Rightarrow> (amc_service \<Rightarrow> amc_service) \<Rightarrow> 'z amc_sys_scheme \<Rightarrow> 'z amc_sys_scheme res"
where
  "upd_service p f s =
     ebind (load (amc_heap s) p) (\<lambda>sv. Inr (s\<lparr>amc_heap := (amc_heap s)(p \<mapsto> f sv)\<rparr>))"

definition service_acquire :: "svc_ptr \<Rightarrow> 'z amc_sys_scheme \<Rightarrow> 'z amc_sys_scheme res" where
  "service_acquire p s =
     ebind (load (amc_heap s) p) (\<lambda>sv.
     if sv_lock sv then Inl Deadlock else upd_service p (sv_lock_update (\<lambda>_. True)) s)"

definition service_release :: "svc_ptr \<Rightarrow> 'z amc_sys_scheme \<Rightarrow> 'z amc_sys_scheme res" where
  "service_release p s = upd_service p (sv_lock_update (\<lambda>_. False)) s"

subsection \<open>Finding services\<close>

function service_matching_from ::
  "string option \<Rightarrow> task_ptr option \<Rightarrow> 'z amc_sys_scheme \<Rightarrow> int \<Rightarrow> svc_ptr option res" where
  "service_matching_from name task s i =
     (if i < am_size (amc_services s)
      then ebind (ebind (array_m_lookup (amc_services s) i) deref) (\<lambda>p.
           ebind (load (amc_heap s) p) (\<lambda>service.
           if (case name of None \<Rightarrow> False | Some n \<Rightarrow> name_eq (sv_name service) n) then Inr (Some p)
           else if (case task of None \<Rightarrow> False | Some t \<Rightarrow> sv_task service = t) then Inr (Some p)
           else service_matching_from name task s (i + 1)))
      else Inr None)"
  by pat_completeness auto
termination
  by (relation "measure (\<lambda>(_, _, s, i). nat (am_size (amc_services s) - i))") auto

declare service_matching_from.simps [simp del]

definition amc_service_matching_data ::
  "string option \<Rightarrow> task_ptr option \<Rightarrow> 'z amc_sys_scheme \<Rightarrow> svc_ptr option res" where
  "amc_service_matching_data name task s =
     (if name = None \<and> task = None then Inl (Panic ''Must provide at least 1 attribute to match'')
      else if \<not> amc_up s then Inr None
      else service_matching_from name task s 0)"

definition amc_service_with_name :: "string \<Rightarrow> 'z amc_sys_scheme \<Rightarrow> svc_ptr option res" where
  "amc_service_with_name name s = amc_service_matching_data (Some name) None s"

definition amc_service_of_task :: "task_ptr \<Rightarrow> 'z amc_sys_scheme \<Rightarrow> svc_ptr option res" where
  "amc_service_of_task task s = amc_service_matching_data None (Some task) s"

definition amc_service_of_active_task :: "nat \<Rightarrow> 'z amc_sys_scheme \<Rightarrow> svc_ptr option res" where
  "amc_service_of_active_task c s =
     ebind (tasking_get_current_task c s) (\<lambda>t.
     case t of None \<Rightarrow> Inr None | Some task \<Rightarrow> amc_service_of_task task s)"

definition amc_service_is_active :: "string \<Rightarrow> 'z amc_sys_scheme \<Rightarrow> bool res" where
  "amc_service_is_active service s =
     (if \<not> amc_up s then Inr False
      else ebind (amc_service_with_name service s) (\<lambda>p. Inr (p \<noteq> None)))"

definition amc_is_active :: "nat \<Rightarrow> 'z amc_sys_scheme \<Rightarrow> bool" where
  "amc_is_active c s \<longleftrightarrow> tasking_is_active c s \<and> amc_up s \<and> am_size (amc_services s) \<noteq> 0"

definition amc_disable_delivery :: "svc_ptr option \<Rightarrow> 'z amc_sys_scheme \<Rightarrow> 'z amc_sys_scheme res" where
  "amc_disable_delivery service s =
     (case service of None \<Rightarrow> Inr s
      | Some p \<Rightarrow> upd_service p (sv_delivery_enabled_update (\<lambda>_. False)) s)"

subsection \<open>Inboxes\<close>

definition inbox :: "'z amc_sys_scheme \<Rightarrow> svc_ptr \<Rightarrow> amc_message list" where
  "inbox s p = (case amc_inboxes s p of None \<Rightarrow> [] | Some ms \<Rightarrow> ms)"

definition amc_append_message_to_service_inbox ::
  "svc_ptr \<Rightarrow> amc_message \<Rightarrow> 'z amc_sys_scheme \<Rightarrow> 'z amc_sys_scheme" where
  "amc_append_message_to_service_inbox p msg s =
     s\<lparr>amc_inboxes := (amc_inboxes s)(p \<mapsto> inbox s p @ [msg])\<rparr>"

text \<open>
  The first \<open>u32\<close> of the body; indexing an empty slice panics.
\<close>

definition msg_u32_event :: "amc_message \<Rightarrow> u32 res" where
  "msg_u32_event msg =
     (if 4 \<le> length (msg_body msg) then Inr (of_nat (le_val (take 4 (msg_body msg))))
      else Inl (Panic ''index out of bounds''))"

definition msg_matches :: "string list \<Rightarrow> u32 option \<Rightarrow> amc_message \<Rightarrow> bool res" where
  "msg_matches sources event msg =
     (if sources \<noteq> [] \<and> msg_source msg \<notin> set sources then Inr False
      else (case event of
              None \<Rightarrow> Inr True
            | Some e \<Rightarrow> ebind (msg_u32_event msg) (\<lambda>v. Inr (v = e))))"

fun find_msg :: "(amc_message \<Rightarrow> bool res) \<Rightarrow> amc_message list \<Rightarrow> nat option res" where
  "find_msg P [] = Inr None"
| "find_msg P (m # ms) =
     ebind (P m) (\<lambda>hit. if hit then Inr (Some 0)
       else ebind (find_msg P ms) (\<lambda>r. Inr (map_option Suc r)))"

definition amc_select_message_to_deliver ::
  "svc_ptr \<Rightarrow> string list \<Rightarrow> u32 option \<Rightarrow> 'z amc_sys_scheme \<Rightarrow> (amc_message option \<times> 'z amc_sys_scheme) res" where
  "amc_select_message_to_deliver p sources event s =
     ebind (find_msg (msg_matches sources event) (inbox s p)) (\<lambda>r.
     case r of
       None \<Rightarrow> Inr (None, s\<lparr>amc_inboxes := (amc_inboxes s)(p \<mapsto> inbox s p)\<rparr>)
     | Some i \<Rightarrow> Inr (Some (inbox s p ! i),
         s\<lparr>amc_inboxes := (amc_inboxes s)(p \<mapsto> remove_nth i (inbox s p))\<rparr>))"

definition amc_has_message_from_int :: "svc_ptr \<Rightarrow> string \<Rightarrow> 'z amc_sys_scheme \<Rightarrow> bool" where
  "amc_has_message_from_int p name s \<longleftrightarrow> (\<exists>msg \<in> set (inbox s p). msg_source msg = name)"

definition amc_service_has_message :: "svc_ptr \<Rightarrow> 'z amc_sys_scheme \<Rightarrow> bool" where
  "amc_service_has_message p s \<longleftrightarrow> inbox s p \<noteq> []"

definition amc_has_message_from :: "nat \<Rightarrow> string \<Rightarrow> 'z amc_sys_scheme \<Rightarrow> bool res" where
  "amc_has_message_from c source_service s =
     ebind (ebind (amc_service_of_active_task c s) deref) (\<lambda>p.
     ebind (service_acquire p s) (\<lambda>s. Inr (amc_has_message_from_int p source_service s)))"

definition amc_has_message :: "nat \<Rightarrow> 'z amc_sys_scheme \<Rightarrow> bool res" where
  "amc_has_message c s =
     ebind (ebind (amc_service_of_active_task c s) deref) (\<lambda>p. Inr (amc_service_has_message p s))"

subsection \<open>The sleep list\<close>

definition remove_from_sleep_list_held :: "svc_ptr \<Rightarrow> 'z amc_sys_scheme \<Rightarrow> 'z amc_sys_scheme res" where
  "remove_from_sleep_list_held p s =
     ebind (array_m_index_unlocked (amc_asleep s) p) (\<lambda>idx.
     ebind (kassert (idx \<ge> 0) ''Can't remove service from sleep list because it wasn't there'') (\<lambda>_.
     ebind (array_m_remove_unlocked (amc_asleep s) idx) (\<lambda>a. Inr (s\<lparr>amc_asleep := a\<rparr>))))"

definition remove_service_from_sleep_list :: "svc_ptr \<Rightarrow> 'z amc_sys_scheme \<Rightarrow> 'z amc_sys_scheme res" where
  "remove_service_from_sleep_list p s =
     ebind (am_acquire (amc_asleep s)) (\<lambda>a.
     ebind (remove_from_sleep_list_held p (s\<lparr>amc_asleep := a\<rparr>)) (\<lambda>s.
     Inr (s\<lparr>amc_asleep := am_release (amc_asleep s)\<rparr>)))"

text \<open>The inner loop of \<^verbatim>\<open>amc_wake_sleeping_services\<close>: the first sleeper whose time has come.\<close>

function find_sleeper :: "u32 \<Rightarrow> 'z amc_sys_scheme \<Rightarrow> int \<Rightarrow> (svc_ptr \<times> task_ptr) option res" where
  "find_sleeper now s i =
     (if i < am_size (amc_asleep s)
      then ebind (ebind (array_m_lookup_unlocked (amc_asleep s) i) deref) (\<lambda>p.
           ebind (load (amc_heap s) p) (\<lambda>sv.
           ebind (load (sys_tasks s) (sv_task sv)) (\<lambda>t.
           if now \<ge> t_wake_timestamp t then Inr (Some (p, sv_task sv)) else find_sleeper now s (i + 1))))
      else Inr None)"
  by pat_completeness auto
termination
  by (relation "measure (\<lambda>(_, s, i). nat (am_size (amc_asleep s) - i))") auto

declare find_sleeper.simps [simp del]

lemma remove_held_size:
  "remove_from_sleep_list_held p s = Inr s' \<Longrightarrow> am_size (amc_asleep s') = am_size (amc_asleep s) - 1"
  by (auto simp: remove_from_sleep_list_held_def array_m_remove_unlocked_def ebind_eq_Inr split: if_splits)

lemma unblock_asleep:
  "tasking_unblock_task_with_reason c t r s = Inr s' \<Longrightarrow> amc_asleep s' = amc_asleep s"
  by (auto simp: tasking_unblock_task_with_reason_def upd_task_def ebind_eq_Inr split: if_splits)

lemma find_sleeper_size: "find_sleeper now s i = Inr (Some r) \<Longrightarrow> i < am_size (amc_asleep s)"
  by (subst (asm) find_sleeper.simps) (auto split: if_splits)

function wake_loop :: "nat \<Rightarrow> u32 \<Rightarrow> 'z amc_sys_scheme \<Rightarrow> 'z amc_sys_scheme res" where
  "wake_loop c now s =
     ebind (find_sleeper now s 0) (\<lambda>r.
     case r of
       None \<Rightarrow> Inr s
     | Some (p, t) \<Rightarrow>
         ebind (remove_from_sleep_list_held p s) (\<lambda>s.
         ebind (tasking_unblock_task_with_reason c t AMC_AWAIT_TIMESTAMP s) (\<lambda>s.
         wake_loop c now s)))"
  by pat_completeness auto
termination
proof (relation "measure (\<lambda>(_, _, s). nat (am_size (amc_asleep s)))", goal_cases)
  case (2 c now s r pt p t s1 s2)
  then have "am_size (amc_asleep s2) = am_size (amc_asleep s) - 1" "0 < am_size (amc_asleep s)"
    using find_sleeper_size [of now s 0 pt] remove_held_size [of p s s1]
      unblock_asleep [of c t AMC_AWAIT_TIMESTAMP s1 s2] by auto
  then show ?case by simp
qed simp

declare wake_loop.simps [simp del]

definition amc_wake_sleeping_services :: "nat \<Rightarrow> 'z amc_sys_scheme \<Rightarrow> 'z amc_sys_scheme res" where
  "amc_wake_sleeping_services c s =
     (if \<not> amc_is_active c s \<or> am_size (amc_asleep s) = 0 then Inr s
      else ebind (am_acquire (amc_asleep s)) (\<lambda>a.
           ebind (wake_loop c (ucast (sys_now s)) (s\<lparr>amc_asleep := a\<rparr>)) (\<lambda>s.
           Inr (s\<lparr>amc_asleep := am_release (amc_asleep s)\<rparr>))))"

subsection \<open>Sending\<close>

text \<open>The receiver's task is unblocked if it waits for a message, and taken off the sleep list.\<close>

definition unblock_receiver ::
  "nat \<Rightarrow> svc_ptr \<Rightarrow> task_ptr \<Rightarrow> u32 \<Rightarrow> 'z amc_sys_scheme \<Rightarrow> 'z amc_sys_scheme res" where
  "unblock_receiver c dest_service task status s =
     (if status AND AMC_AWAIT_MESSAGE \<noteq> 0
      then ebind (if status AND AMC_AWAIT_TIMESTAMP \<noteq> 0
                  then remove_service_from_sleep_list dest_service s else Inr s)
             (tasking_unblock_task_with_reason c task AMC_AWAIT_MESSAGE)
      else Inr s)"

definition amc_message_add_to_delivery_queue ::
  "nat \<Rightarrow> svc_ptr \<Rightarrow> amc_message \<Rightarrow> 'z amc_sys_scheme \<Rightarrow> 'z amc_sys_scheme res" where
  "amc_message_add_to_delivery_queue c dest_service message s =
     ebind (service_acquire dest_service s) (\<lambda>s.
     let s = amc_append_message_to_service_inbox dest_service message s in
     ebind (load (amc_heap s) dest_service) (\<lambda>sv.
     ebind (load (sys_tasks s) (sv_task sv)) (\<lambda>t.
     ebind (unblock_receiver c dest_service (sv_task sv) (t_status t) s)
       (service_release dest_service))))"

definition amc_message_send_from_service_name ::
  "(string \<Rightarrow> u8 list \<Rightarrow> 'z amc_sys_scheme \<Rightarrow> 'z amc_sys_scheme res) \<Rightarrow> nat \<Rightarrow> string \<Rightarrow> string \<Rightarrow> u8 list \<Rightarrow>
   'z amc_sys_scheme \<Rightarrow> (bool \<times> 'z amc_sys_scheme) res" where
  "amc_message_send_from_service_name core c source_service destination_service buf s =
     ebind (kassert (length buf < AMC_MAX_MESSAGE_SIZE) ''Message exceeded max size'') (\<lambda>_.
     if name_eq destination_service AXLE_CORE_SERVICE_NAME
     then ebind (core source_service buf s) (\<lambda>s. Inr (True, s))
     else
       let queued_msg = \<lparr>msg_source = take AMC_MAX_SERVICE_NAME_LEN source_service,
             msg_dest = take AMC_MAX_SERVICE_NAME_LEN destination_service, msg_body = buf\<rparr>
       in ebind (amc_service_with_name destination_service s) (\<lambda>dest_service.
          ebind (case dest_service of None \<Rightarrow> Inr False
                 | Some p \<Rightarrow> ebind (load (amc_heap s) p) (\<lambda>sv. Inr (sv_delivery_enabled sv))) (\<lambda>deliverable.
          case dest_service of
            Some p \<Rightarrow>
              if deliverable
              then ebind (amc_message_add_to_delivery_queue c p queued_msg s) (\<lambda>s. Inr (True, s))
              else ebind (array_m_insert (amc_pool s) queued_msg) (\<lambda>a. Inr (False, s\<lparr>amc_pool := a\<rparr>))
          | None \<Rightarrow>
              if \<not> amc_up s then Inl NullDeref
              else ebind (array_m_insert (amc_pool s) queued_msg) (\<lambda>a. Inr (False, s\<lparr>amc_pool := a\<rparr>)))))"

definition amc_message_send ::
  "(string \<Rightarrow> u8 list \<Rightarrow> 'z amc_sys_scheme \<Rightarrow> 'z amc_sys_scheme res) \<Rightarrow> nat \<Rightarrow> string \<Rightarrow> u8 list \<Rightarrow>
   'z amc_sys_scheme \<Rightarrow> (bool \<times> 'z amc_sys_scheme) res" where
  "amc_message_send core c destination_service buf s =
     ebind (amc_service_of_active_task c s) (\<lambda>p.
     ebind (kassert (p \<noteq> None) ''Current task is not a registered amc service'') (\<lambda>_.
     ebind (ebind (deref p) (load (amc_heap s))) (\<lambda>sv.
     amc_message_send_from_service_name core c (sv_name sv) destination_service buf s)))"

definition amc_message_send_from_core ::
  "(string \<Rightarrow> u8 list \<Rightarrow> 'z amc_sys_scheme \<Rightarrow> 'z amc_sys_scheme res) \<Rightarrow> nat \<Rightarrow> string \<Rightarrow> u8 list \<Rightarrow>
   'z amc_sys_scheme \<Rightarrow> (bool \<times> 'z amc_sys_scheme) res" where
  "amc_message_send_from_core core c destination_service buf s =
     amc_message_send_from_service_name core c AXLE_CORE_SERVICE_NAME destination_service buf s"

subsection \<open>Receiving\<close>

text \<open>
  The body of the await loop up to where it returns or blocks: the selected message is copied into
  the service's delivery pool.
\<close>

definition amc_await_select ::
  "svc_ptr \<Rightarrow> string list \<Rightarrow> u32 option \<Rightarrow> 'z amc_sys_scheme \<Rightarrow> (amc_message option \<times> 'z amc_sys_scheme) res" where
  "amc_await_select p sources event s =
     ebind (service_acquire p s) (\<lambda>s.
     ebind (amc_select_message_to_deliver p sources event s) (\<lambda>(r, s).
     let s = (case r of None \<Rightarrow> s | Some msg \<Rightarrow> s\<lparr>amc_delivered := (amc_delivered s)(p \<mapsto> msg)\<rparr>)
     in ebind (service_release p s) (\<lambda>s. Inr (r, s))))"

text \<open>
  One round of \<^verbatim>\<open>_amc_message_await_from_services_ex\<close>: it returns the message, or blocks, and the
  state is then that of the task switched to; the round is run again when the task is rescheduled.
\<close>

definition amc_message_await_round ::
  "nat \<Rightarrow> string list \<Rightarrow> u32 option \<Rightarrow> 'z amc_sys_scheme \<Rightarrow> (amc_message option \<times> 'z amc_sys_scheme) res" where
  "amc_message_await_round c sources event s =
     ebind (ebind (amc_service_of_active_task c s) deref) (\<lambda>p.
     ebind (amc_await_select p sources event s) (\<lambda>(r, s).
     case r of
       Some msg \<Rightarrow> Inr (Some msg, s)
     | None \<Rightarrow>
         ebind (load (amc_heap s) p) (\<lambda>sv.
         ebind (tasking_block_task c (sv_task sv) AMC_AWAIT_MESSAGE s) (\<lambda>s. Inr (None, s)))))"

subsection \<open>Registering a service\<close>

function pending_indexes :: "string \<Rightarrow> amc_message array_m \<Rightarrow> int \<Rightarrow> int list res" where
  "pending_indexes name pool i =
     (if i < am_size pool
      then ebind (ebind (array_m_lookup_unlocked pool i) deref) (\<lambda>msg.
           ebind (pending_indexes name pool (i + 1)) (\<lambda>rest.
           Inr (if name_eq (msg_dest msg) name then i # rest else rest)))
      else Inr [])"
  by pat_completeness auto
termination
  by (relation "measure (\<lambda>(_, pool, i). nat (am_size pool - i))") auto

declare pending_indexes.simps [simp del]

fun deliver_indexes ::
  "nat \<Rightarrow> svc_ptr \<Rightarrow> string \<Rightarrow> int \<Rightarrow> int list \<Rightarrow> 'z amc_sys_scheme \<Rightarrow> 'z amc_sys_scheme res" where
  "deliver_indexes c p name idx_shift [] s = Inr s"
| "deliver_indexes c p name idx_shift (i # is) s =
     (let idx = i - idx_shift in
      ebind (ebind (array_m_lookup_unlocked (amc_pool s) idx) deref) (\<lambda>msg.
      ebind (kassert (name_eq (msg_dest msg) name) ''Message wasn't intended for this service!'') (\<lambda>_.
      ebind (array_m_remove_unlocked (amc_pool s) idx) (\<lambda>a.
      ebind (amc_message_add_to_delivery_queue c p msg (s\<lparr>amc_pool := a\<rparr>)) (\<lambda>s.
      deliver_indexes c p name (idx_shift + 1) is s)))))"

definition amc_deliver_pending_messages_to_new_service ::
  "nat \<Rightarrow> svc_ptr \<Rightarrow> 'z amc_sys_scheme \<Rightarrow> 'z amc_sys_scheme res" where
  "amc_deliver_pending_messages_to_new_service c new_service s =
     ebind (load (amc_heap s) new_service) (\<lambda>sv.
     ebind (am_acquire (amc_pool s)) (\<lambda>pool.
     ebind (pending_indexes (sv_name sv) pool 0) (\<lambda>message_indexes_to_deliver.
     ebind (deliver_indexes c new_service (sv_name sv) 0 message_indexes_to_deliver (s\<lparr>amc_pool := pool\<rparr>)) (\<lambda>s.
     Inr (s\<lparr>amc_pool := am_release (amc_pool s)\<rparr>)))))"

definition amc_init :: "'z amc_sys_scheme \<Rightarrow> 'z amc_sys_scheme" where
  "amc_init s =
     (if amc_up s then s
      else s\<lparr>amc_up := True, amc_services := array_m_create 256, amc_pool := array_m_create 512,
             amc_asleep := array_m_create 64\<rparr>)"

definition new_amc_service :: "string \<Rightarrow> task_ptr \<Rightarrow> u64 \<Rightarrow> amc_service" where
  "new_amc_service name task delivery_pool =
     \<lparr>sv_name = name, sv_task = task, sv_message_queue = array_m_create 2048, sv_lock = False,
      sv_delivery_pool = delivery_pool, sv_shmem_regions = array_m_create 32,
      sv_notify = array_m_create 32, sv_delivery_enabled = True\<rparr>"

text \<open>
  \<open>service\<close> is the control block the heap returned, \<open>delivery_pool\<close> the range the address space
  allocated. A taken name kills the calling task (after registering it under a made-up name).
\<close>

definition amc_register_service ::
  "nat \<Rightarrow> svc_ptr \<Rightarrow> u64 \<Rightarrow> string \<Rightarrow> 'z amc_sys_scheme \<Rightarrow> 'z amc_sys_scheme res" where
  "amc_register_service c service delivery_pool name s =
     ebind (kassert (length name < AMC_MAX_SERVICE_NAME_LEN) ''AMC service name exceeded max size!'') (\<lambda>_.
     let s = amc_init s in
     ebind (tasking_get_current_task c s) (\<lambda>current_task.
     ebind (amc_service_matching_data None current_task s) (\<lambda>mine.
     ebind (kassert (mine = None) ''A process can expose only one service name'') (\<lambda>_.
     ebind (amc_service_with_name name s) (\<lambda>taken.
     if taken \<noteq> None then Inl (TaskAssert ''AMC service name already registered'')
     else
       ebind (deref current_task) (\<lambda>task.
       ebind (task_set_name task name s) (\<lambda>s.
       let s = s\<lparr>amc_heap := (amc_heap s)(service \<mapsto> new_amc_service name task delivery_pool)\<rparr> in
       ebind (array_m_insert (amc_services s) service) (\<lambda>a.
       amc_deliver_pending_messages_to_new_service c service (s\<lparr>amc_services := a\<rparr>)))))))))"

subsection \<open>Tearing a service down\<close>

lemma array_m_remove_unlocked_size:
  "array_m_remove_unlocked a i = Inr a' \<Longrightarrow> am_size a' = am_size a - 1"
  by (auto simp: array_m_remove_unlocked_def ebind_eq_Inr split: if_splits)

function drain_queue :: "amc_message array_m \<Rightarrow> amc_message array_m res" where
  "drain_queue q =
     (if am_size q > 0
      then ebind (ebind (array_m_lookup q 0) deref) (\<lambda>_.
           ebind (array_m_remove q 0) drain_queue)
      else Inr q)"
  by pat_completeness auto
termination
  by (relation "measure (\<lambda>q. nat (am_size q))") (auto dest: array_m_remove_size)

declare drain_queue.simps [simp del]

function listener_names :: "svc_ptr array_m \<Rightarrow> 'z amc_sys_scheme \<Rightarrow> int \<Rightarrow> string list res" where
  "listener_names listeners s i =
     (if i < am_size listeners
      then ebind (ebind (array_m_lookup listeners i) deref) (\<lambda>p.
           ebind (load (amc_heap s) p) (\<lambda>listener.
           ebind (listener_names listeners s (i + 1)) (\<lambda>rest. Inr (sv_name listener # rest))))
      else Inr [])"
  by pat_completeness auto
termination
  by (relation "measure (\<lambda>(listeners, _, i). nat (am_size listeners - i))") auto

declare listener_names.simps [simp del]

definition AMC_SERVICE_DIED_NOTIFICATION :: u32 where "AMC_SERVICE_DIED_NOTIFICATION = 208"

definition service_died_notification :: "string \<Rightarrow> u8 list" where
  "service_died_notification dead_service =
     put_le 4 AMC_SERVICE_DIED_NOTIFICATION @ put_name 64 (take 63 dead_service)"

fun send_all ::
  "(string \<Rightarrow> u8 list \<Rightarrow> 'z amc_sys_scheme \<Rightarrow> 'z amc_sys_scheme res) \<Rightarrow> nat \<Rightarrow> u8 list \<Rightarrow> string list \<Rightarrow>
   'z amc_sys_scheme \<Rightarrow> 'z amc_sys_scheme res" where
  "send_all core c body [] s = Inr s"
| "send_all core c body (r # rs) s =
     ebind (amc_message_send_from_core core c r body s) (\<lambda>(_, s). send_all core c body rs s)"

definition amc_teardown_service_for_task ::
  "(string \<Rightarrow> u8 list \<Rightarrow> 'z amc_sys_scheme \<Rightarrow> 'z amc_sys_scheme res) \<Rightarrow> nat \<Rightarrow> task_ptr \<Rightarrow>
   'z amc_sys_scheme \<Rightarrow> 'z amc_sys_scheme res" where
  "amc_teardown_service_for_task core c task s =
     ebind (amc_service_of_task task s) (\<lambda>service.
     case service of
       None \<Rightarrow> Inr s
     | Some p \<Rightarrow>
         ebind (load (amc_heap s) p) (\<lambda>sv.
         ebind (am_acquire (amc_services s)) (\<lambda>services.
         ebind (array_m_index_unlocked services p) (\<lambda>idx.
         ebind (array_m_remove_unlocked services idx) (\<lambda>services.
         ebind (drain_queue (sv_message_queue sv)) (\<lambda>_.
         ebind (kassert (am_size (sv_shmem_regions sv) = 0) ''Deprecated'') (\<lambda>_.
         ebind (listener_names (sv_notify sv) s 0) (\<lambda>recipients.
         let s = s\<lparr>amc_heap := (amc_heap s)(p := None), amc_services := am_release services\<rparr> in
         send_all core c (service_died_notification (sv_name sv)) (rev recipients) s))))))))"

subsection \<open>Well-formed states\<close>

abbreviation svcs :: "'z amc_sys_scheme \<Rightarrow> svc_ptr list" where
  "svcs s \<equiv> am_list (amc_services s)"

abbreviation svc :: "'z amc_sys_scheme \<Rightarrow> svc_ptr \<Rightarrow> amc_service" where
  "svc s p \<equiv> the (amc_heap s p)"

definition svc_ok :: "'z amc_sys_scheme \<Rightarrow> svc_ptr \<Rightarrow> bool" where
  "svc_ok s p \<longleftrightarrow> p \<in> dom (amc_heap s) \<and> \<not> sv_lock (svc s p) \<and> length (sv_name (svc s p)) < 64
     \<and> sv_task (svc s p) \<in> dom (sys_tasks s)"

definition amc_wf :: "'z amc_sys_scheme \<Rightarrow> bool" where
  "amc_wf s \<longleftrightarrow> amc_up s \<and> am_ok (amc_services s) \<and> am_cap (amc_services s) = 256
     \<and> am_ok (amc_pool s) \<and> am_cap (amc_pool s) = 512 \<and> am_ok (amc_asleep s) \<and> am_cap (amc_asleep s) = 64
     \<and> distinct (svcs s) \<and> (\<forall>p \<in> set (svcs s). svc_ok s p)
     \<and> distinct (map (\<lambda>p. sv_name (svc s p)) (svcs s)) \<and> distinct (map (\<lambda>p. sv_task (svc s p)) (svcs s))"

lemma name_eq_short: "length a < 64 \<Longrightarrow> length b < 64 \<Longrightarrow> name_eq a b \<longleftrightarrow> a = b"
  by (simp add: name_eq_def AMC_MAX_SERVICE_NAME_LEN_def)

lemma name_eq_short_left: "length a < 64 \<Longrightarrow> name_eq a b \<longleftrightarrow> a = b"
proof
  assume "length a < 64" "name_eq a b"
  then have "a = take 64 b" by (simp add: name_eq_def AMC_MAX_SERVICE_NAME_LEN_def)
  then show "a = b" using \<open>length a < 64\<close> by (metis length_take min_less_iff_conj less_irrefl take_all_iff linorder_not_less)
qed (simp add: name_eq_def)

lemma name_eq_refl [simp]: "name_eq a a"
  by (simp add: name_eq_def)

text \<open>The registry as the list of its services: the first one with the name, or with the task.\<close>

definition svc_pred :: "string option \<Rightarrow> task_ptr option \<Rightarrow> 'z amc_sys_scheme \<Rightarrow> svc_ptr \<Rightarrow> bool" where
  "svc_pred name task s p \<longleftrightarrow>
     (case name of None \<Rightarrow> False | Some n \<Rightarrow> name_eq (sv_name (svc s p)) n)
     \<or> (case task of None \<Rightarrow> False | Some t \<Rightarrow> sv_task (svc s p) = t)"

lemma service_matching_from_ok:
  assumes "am_ok (amc_services s)" and "set (svcs s) \<subseteq> dom (amc_heap s)" and "k \<le> length (svcs s)"
  shows "service_matching_from name task s (int k) = Inr (find (svc_pred name task s) (drop k (svcs s)))"
  using assms(3)
proof (induction "length (svcs s) - k" arbitrary: k)
  case 0
  have "am_size (amc_services s) = int (length (svcs s))" using assms(1) am_wf_size by (auto simp: am_ok_def)
  then show ?case using 0 by (simp add: service_matching_from.simps [of name task s "int k"])
next
  case (Suc n)
  then have k: "k < length (svcs s)" by simp
  have sz: "am_size (amc_services s) = int (length (svcs s))" using assms(1) am_wf_size by (auto simp: am_ok_def)
  obtain sv where sv: "amc_heap s (svcs s ! k) = Some sv" using assms(2) k nth_mem by blast
  have get: "array_m_lookup (amc_services s) (int k) = Inr (Some (svcs s ! k))" by (rule am.get_ok [OF assms(1) k])
  have rec: "service_matching_from name task s (int (Suc k)) = Inr (find (svc_pred name task s) (drop (Suc k) (svcs s)))"
    by (rule Suc.hyps(1)) (use Suc.hyps(2) k in auto)
  have d: "drop k (svcs s) = svcs s ! k # drop (Suc k) (svcs s)" using k by (simp add: Cons_nth_drop_Suc)
  have pred: "svc_pred name task s (svcs s ! k) \<longleftrightarrow> (case name of None \<Rightarrow> False | Some n \<Rightarrow> name_eq (sv_name sv) n)
      \<or> (case task of None \<Rightarrow> False | Some t \<Rightarrow> sv_task sv = t)"
    using sv by (simp add: svc_pred_def split: option.split)
  show ?case
    using k sz sv get rec d pred
    by (simp add: service_matching_from.simps [of name task s "int k"] add.commute)
qed

lemma amc_wf_services: "amc_wf s \<Longrightarrow> am_ok (amc_services s) \<and> set (svcs s) \<subseteq> dom (amc_heap s) \<and> amc_up s"
  by (auto simp: amc_wf_def svc_ok_def)

lemma matching_data_ok:
  assumes "amc_wf s" and "name \<noteq> None \<or> task \<noteq> None"
  shows "amc_service_matching_data name task s = Inr (find (svc_pred name task s) (svcs s))"
  using service_matching_from_ok [of s 0 name task] amc_wf_services [OF assms(1)] assms(2)
  by (auto simp: amc_service_matching_data_def)

lemma amc_wf_name_unique:
  assumes "amc_wf s" and "p \<in> set (svcs s)" and "q \<in> set (svcs s)" and "sv_name (svc s p) = sv_name (svc s q)"
  shows "p = q"
  using assms by (simp add: amc_wf_def distinct_map inj_on_def)

lemma amc_wf_task_unique:
  assumes "amc_wf s" and "p \<in> set (svcs s)" and "q \<in> set (svcs s)" and "sv_task (svc s p) = sv_task (svc s q)"
  shows "p = q"
  using assms by (simp add: amc_wf_def distinct_map inj_on_def)

lemma find_unique:
  assumes "p \<in> set xs" and "P p" and "\<And>q. q \<in> set xs \<Longrightarrow> P q \<Longrightarrow> q = p"
  shows "find P xs = Some p"
proof -
  have "find P xs \<noteq> None" using assms(1,2) by (auto simp: find_None_iff)
  then obtain q where q: "find P xs = Some q" by auto
  then have "q \<in> set xs" "P q" by (auto simp: find_Some_iff)
  then show ?thesis using q assms(3) by simp
qed

lemma with_name_found:
  assumes "amc_wf s" and "p \<in> set (svcs s)"
  shows "amc_service_with_name (sv_name (svc s p)) s = Inr (Some p)"
proof -
  have "find (svc_pred (Some (sv_name (svc s p))) None s) (svcs s) = Some p"
  proof (rule find_unique [OF assms(2)])
    show "q = p" if "q \<in> set (svcs s)" "svc_pred (Some (sv_name (svc s p))) None s q" for q
    proof -
      have "length (sv_name (svc s q)) < 64" using assms(1) that(1) by (simp add: amc_wf_def svc_ok_def)
      then have "sv_name (svc s q) = sv_name (svc s p)" using that(2) by (simp add: svc_pred_def name_eq_short_left)
      then show ?thesis using amc_wf_name_unique [OF assms(1) that(1) assms(2)] by simp
    qed
  qed (simp add: svc_pred_def)
  then show ?thesis using matching_data_ok [OF assms(1)] by (simp add: amc_service_with_name_def)
qed

lemma with_name_dest:
  assumes "amc_wf s" and "amc_service_with_name n s = Inr r"
  shows "case r of
      None \<Rightarrow> \<forall>p \<in> set (svcs s). sv_name (svc s p) \<noteq> n
    | Some p \<Rightarrow> p \<in> set (svcs s) \<and> sv_name (svc s p) = n"
proof -
  have r: "r = find (svc_pred (Some n) None s) (svcs s)"
    using assms matching_data_ok [OF assms(1), of "Some n" None] by (simp add: amc_service_with_name_def)
  have eq: "svc_pred (Some n) None s p \<longleftrightarrow> sv_name (svc s p) = n" if "p \<in> set (svcs s)" for p
    using assms(1) that by (simp add: svc_pred_def name_eq_short_left amc_wf_def svc_ok_def)
  show ?thesis
  proof (cases r)
    case None
    then have "\<forall>p \<in> set (svcs s). \<not> svc_pred (Some n) None s p" using r by (metis find_None_iff)
    then show ?thesis using None eq by simp
  next
    case (Some p)
    then have "p \<in> set (svcs s)" "svc_pred (Some n) None s p" using r by (auto simp: find_Some_iff)
    then show ?thesis using Some eq by simp
  qed
qed

lemma of_task_found:
  assumes "amc_wf s" and "p \<in> set (svcs s)"
  shows "amc_service_of_task (sv_task (svc s p)) s = Inr (Some p)"
proof -
  have "find (svc_pred None (Some (sv_task (svc s p))) s) (svcs s) = Some p"
    by (rule find_unique [OF assms(2)]) (use amc_wf_task_unique [OF assms(1) _ assms(2)] in \<open>auto simp: svc_pred_def\<close>)
  then show ?thesis using matching_data_ok [OF assms(1)] by (simp add: amc_service_of_task_def)
qed

subsection \<open>What a delivery changes\<close>

lemma upd_service_ok:
  "amc_heap s p = Some sv \<Longrightarrow> upd_service p f s = Inr (s\<lparr>amc_heap := (amc_heap s)(p \<mapsto> f sv)\<rparr>)"
  by (simp add: upd_service_def)

lemma remove_held_effect:
  assumes "am_wf (amc_asleep s)" and "remove_from_sleep_list_held p s = Inr s'"
  shows "\<exists>a. s' = s\<lparr>amc_asleep := a\<rparr> \<and> am_wf a \<and> am_cap a = am_cap (amc_asleep s) \<and> am_lock a = am_lock (amc_asleep s)
    \<and> p \<in> set (am_list (amc_asleep s)) \<and> am_list a = remove1 p (am_list (amc_asleep s))"
proof -
  obtain idx a where idx: "array_m_index_unlocked (amc_asleep s) p = Inr idx" "0 \<le> idx"
    and a: "array_m_remove_unlocked (amc_asleep s) idx = Inr a" and s': "s' = s\<lparr>amc_asleep := a\<rparr>"
    using assms(2) by (auto simp: remove_from_sleep_list_held_def ebind_eq_Inr)
  let ?xs = "am_list (amc_asleep s)"
  obtain i where i: "first_index ((=) p) ?xs = Some i" "idx = int i"
    using idx am_index_unlocked_ok [OF assms(1), of p] by (cases "first_index ((=) p) ?xs") auto
  then have bounds: "i < length ?xs" "?xs ! i = p" by (auto simp: first_index_Some)
  have "length ?xs \<noteq> am_cap (amc_asleep s)"
    using am_remove_unlocked_full [OF assms(1) bounds(1)] a i(2) by auto
  moreover have "length ?xs \<le> am_cap (amc_asleep s)"
    using am.within [of "am_release (amc_asleep s)"] assms(1) by (simp add: am_release_def)
  ultimately have room: "length ?xs < am_cap (amc_asleep s)" by simp
  have "p \<in> set ?xs" using bounds nth_mem by metis
  moreover have "am_wf a \<and> am_list a = remove_nth i ?xs \<and> am_cap a = am_cap (amc_asleep s) \<and> am_lock a = am_lock (amc_asleep s)"
    using am_remove_unlocked_ok [OF assms(1) bounds(1) room] a i(2) by simp
  ultimately show ?thesis using s' first_index_remove1 [OF i(1)] by auto
qed

lemma remove_held_ok:
  assumes "am_wf (amc_asleep s)" and "p \<in> set (am_list (amc_asleep s))"
    and "length (am_list (amc_asleep s)) < am_cap (amc_asleep s)"
  shows "is_ok (remove_from_sleep_list_held p s)"
proof -
  let ?xs = "am_list (amc_asleep s)"
  obtain i where i: "first_index ((=) p) ?xs = Some i"
    using assms(2) first_index_None [of "(=) p" ?xs] by (cases "first_index ((=) p) ?xs") auto
  then have "i < length ?xs" by (simp add: first_index_Some)
  then show ?thesis
    using am_index_unlocked_ok [OF assms(1), of p] i am_remove_unlocked_ok [OF assms(1) _ assms(3), of i]
    by (auto simp: remove_from_sleep_list_held_def)
qed

lemma sleep_removal_effect:
  assumes "am_ok (amc_asleep s)" and "remove_service_from_sleep_list p s = Inr s'"
  shows "\<exists>a. s' = s\<lparr>amc_asleep := a\<rparr> \<and> am_ok a \<and> am_cap a = am_cap (amc_asleep s)
    \<and> am_list a = remove1 p (am_list (amc_asleep s))"
proof -
  let ?s = "s\<lparr>amc_asleep := (amc_asleep s)\<lparr>am_lock := True\<rparr>\<rparr>"
  obtain s1 where s1: "remove_from_sleep_list_held p ?s = Inr s1"
    and s': "s' = s1\<lparr>amc_asleep := am_release (amc_asleep s1)\<rparr>"
    using assms by (auto simp: remove_service_from_sleep_list_def am_acquire_def am_ok_def ebind_eq_Inr)
  have "am_wf (amc_asleep ?s)" using assms(1) by (simp add: am_ok_def)
  then show ?thesis
    using remove_held_effect [OF _ s1] s' by (auto simp: am_release_def am_ok_def)
qed

text \<open>The fields a delivery does not touch.\<close>

definition deliver_frame :: "'z amc_sys_scheme \<Rightarrow> 'z amc_sys_scheme \<Rightarrow> bool" where
  "deliver_frame s s' \<longleftrightarrow> amc_heap s' = amc_heap s \<and> amc_services s' = amc_services s \<and> amc_pool s' = amc_pool s
     \<and> amc_up s' = amc_up s \<and> amc_delivered s' = amc_delivered s \<and> queues s' = queues s \<and> ts_cpu s' = ts_cpu s
     \<and> ts_all_tasks s' = ts_all_tasks s \<and> sys_now s' = sys_now s \<and> ts_next_pid s' = ts_next_pid s
     \<and> ts_multitasking_ready s' = ts_multitasking_ready s
     \<and> dom (sys_tasks s') = dom (sys_tasks s)
     \<and> (\<forall>u. map_option t_id (sys_tasks s' u) = map_option t_id (sys_tasks s u))"

lemma unblock_effect:
  assumes "tasking_unblock_task_with_reason c t r s = Inr s'" and "sys_tasks s t = Some tcb"
  shows "s' = (if cpu_current_task c s = Some t then s
     else s\<lparr>sys_tasks := (sys_tasks s)(t \<mapsto> tcb\<lparr>t_unblock_reason := r, t_status := RUNNABLE\<rparr>)\<rparr>)"
  using assms by (auto simp: tasking_unblock_task_with_reason_def upd_task_def split: if_splits)

definition awaits_message :: "u32 \<Rightarrow> bool" where
  "awaits_message status \<longleftrightarrow> status AND AMC_AWAIT_MESSAGE \<noteq> 0"

definition sleeps_for_message :: "u32 \<Rightarrow> bool" where
  "sleeps_for_message status \<longleftrightarrow> awaits_message status \<and> status AND AMC_AWAIT_TIMESTAMP \<noteq> 0"

definition unblocked :: "task_small \<Rightarrow> task_small" where
  "unblocked tcb = tcb\<lparr>t_unblock_reason := AMC_AWAIT_MESSAGE, t_status := RUNNABLE\<rparr>"

lemma unblock_receiver_effect:
  assumes "unblock_receiver c p t (t_status tcb) s = Inr s'" and "am_ok (amc_asleep s)" and "sys_tasks s t = Some tcb"
  shows "\<exists>a. am_ok a \<and> am_cap a = am_cap (amc_asleep s)
    \<and> am_list a = (if sleeps_for_message (t_status tcb) then remove1 p (am_list (amc_asleep s)) else am_list (amc_asleep s))
    \<and> s' = s\<lparr>amc_asleep := a, sys_tasks := (if awaits_message (t_status tcb) \<and> cpu_current_task c s \<noteq> Some t
         then (sys_tasks s)(t \<mapsto> unblocked tcb) else sys_tasks s)\<rparr>"
proof (cases "awaits_message (t_status tcb)")
  case False
  then show ?thesis using assms
    by (intro exI [of _ "amc_asleep s"]) (simp add: unblock_receiver_def awaits_message_def sleeps_for_message_def)
next
  case True
  then obtain s1 where s1: "(if sleeps_for_message (t_status tcb) then remove_service_from_sleep_list p s else Inr s) = Inr s1"
    and un: "tasking_unblock_task_with_reason c t AMC_AWAIT_MESSAGE s1 = Inr s'"
    using assms(1) by (auto simp: unblock_receiver_def awaits_message_def sleeps_for_message_def ebind_eq_Inr)
  obtain a where a: "s1 = s\<lparr>amc_asleep := a\<rparr>" "am_ok a" "am_cap a = am_cap (amc_asleep s)"
    "am_list a = (if sleeps_for_message (t_status tcb) then remove1 p (am_list (amc_asleep s)) else am_list (amc_asleep s))"
  proof (cases "sleeps_for_message (t_status tcb)")
    case True
    then show ?thesis using that s1 sleep_removal_effect [OF assms(2), of p s1] by auto
  next
    case False
    then show ?thesis using that [of "amc_asleep s"] s1 assms(2) by simp
  qed
  have "sys_tasks s1 t = Some tcb" "cpu_current_task c s1 = cpu_current_task c s"
    using a(1) assms(3) by (simp_all add: cpu_current_task_def)
  then show ?thesis
    using unblock_effect [OF un] a True by (intro exI [of _ a]) (auto simp: unblocked_def)
qed

lemma deliver_effect:
  assumes "amc_message_add_to_delivery_queue c p m s = Inr s'" and "svc_ok s p" and "am_ok (amc_asleep s)"
    and "t = sv_task (svc s p)" and "sys_tasks s t = Some tcb"
  shows "\<exists>a. am_ok a \<and> am_cap a = am_cap (amc_asleep s)
    \<and> am_list a = (if sleeps_for_message (t_status tcb) then remove1 p (am_list (amc_asleep s)) else am_list (amc_asleep s))
    \<and> s' = s\<lparr>amc_asleep := a, amc_inboxes := (amc_inboxes s)(p \<mapsto> inbox s p @ [m]),
         sys_tasks := (if awaits_message (t_status tcb) \<and> cpu_current_task c s \<noteq> Some t
           then (sys_tasks s)(t \<mapsto> unblocked tcb) else sys_tasks s)\<rparr>"
proof -
  obtain sv where sv: "amc_heap s p = Some sv" "\<not> sv_lock sv" "sv_task sv = t"
    using assms(2,4) by (auto simp: svc_ok_def)
  define s1 where "s1 = s\<lparr>amc_heap := (amc_heap s)(p \<mapsto> sv\<lparr>sv_lock := True\<rparr>), amc_inboxes := (amc_inboxes s)(p \<mapsto> inbox s p @ [m])\<rparr>"
  have acq: "service_acquire p s = Inr (s\<lparr>amc_heap := (amc_heap s)(p \<mapsto> sv\<lparr>sv_lock := True\<rparr>)\<rparr>)"
    using sv by (simp add: service_acquire_def upd_service_ok)
  have app: "amc_append_message_to_service_inbox p m (s\<lparr>amc_heap := (amc_heap s)(p \<mapsto> sv\<lparr>sv_lock := True\<rparr>)\<rparr>) = s1"
    by (simp add: s1_def amc_append_message_to_service_inbox_def inbox_def)
  have s1: "amc_heap s1 p = Some (sv\<lparr>sv_lock := True\<rparr>)" "sys_tasks s1 t = Some tcb" "am_ok (amc_asleep s1)"
    using assms(3,5) by (simp_all add: s1_def)
  obtain s2 where s2: "unblock_receiver c p t (t_status tcb) s1 = Inr s2" and s': "service_release p s2 = Inr s'"
    using assms(1) sv(3) s1 acq app by (auto simp: amc_message_add_to_delivery_queue_def ebind_eq_Inr Let_def)
  obtain a where a: "am_ok a" "am_cap a = am_cap (amc_asleep s)"
    "am_list a = (if sleeps_for_message (t_status tcb) then remove1 p (am_list (amc_asleep s)) else am_list (amc_asleep s))"
    "s2 = s1\<lparr>amc_asleep := a, sys_tasks := (if awaits_message (t_status tcb) \<and> cpu_current_task c s1 \<noteq> Some t
         then (sys_tasks s1)(t \<mapsto> unblocked tcb) else sys_tasks s1)\<rparr>"
    using unblock_receiver_effect [OF s2 s1(3,2)] by (auto simp: s1_def)
  have rel: "s' = s2\<lparr>amc_heap := amc_heap s\<rparr>"
  proof -
    have h2: "amc_heap s2 = (amc_heap s)(p \<mapsto> sv\<lparr>sv_lock := True\<rparr>)" using a(4) by (simp add: s1_def)
    have "sv\<lparr>sv_lock := False\<rparr> = sv" using sv(2) by simp
    then have "(amc_heap s)(p \<mapsto> sv\<lparr>sv_lock := False\<rparr>) = amc_heap s" using sv(1) by auto
    then show ?thesis using s' h2 by (simp add: service_release_def upd_service_ok)
  qed
  show ?thesis
    using a rel by (intro exI [of _ a]) (simp add: s1_def cpu_current_task_def)
qed

text \<open>A task that waits for a message with a deadline is on the sleep list, which has a free slot.\<close>

definition sleeper_ok :: "'z amc_sys_scheme \<Rightarrow> svc_ptr \<Rightarrow> bool" where
  "sleeper_ok s p \<longleftrightarrow> (\<forall>tcb. sys_tasks s (sv_task (svc s p)) = Some tcb \<and> sleeps_for_message (t_status tcb) \<longrightarrow>
     p \<in> set (am_list (amc_asleep s)) \<and> length (am_list (amc_asleep s)) < am_cap (amc_asleep s))"

lemma remove_sleeper_ok:
  assumes "am_ok (amc_asleep s)" and "p \<in> set (am_list (amc_asleep s))"
    and "length (am_list (amc_asleep s)) < am_cap (amc_asleep s)"
  shows "is_ok (remove_service_from_sleep_list p s)"
proof -
  have "is_ok (remove_from_sleep_list_held p (s\<lparr>amc_asleep := (amc_asleep s)\<lparr>am_lock := True\<rparr>\<rparr>))"
    by (rule remove_held_ok) (use assms in \<open>auto simp: am_ok_def\<close>)
  then show ?thesis
    using assms(1) by (auto simp: remove_service_from_sleep_list_def am_acquire_def am_ok_def is_ok_iff)
qed

lemma unblock_ok: "t \<in> dom (sys_tasks s) \<Longrightarrow> is_ok (tasking_unblock_task_with_reason c t r s)"
  by (auto simp: tasking_unblock_task_with_reason_def upd_task_def)

lemma deliver_ok:
  assumes "svc_ok s p" and "am_ok (amc_asleep s)" and "sleeper_ok s p"
  shows "is_ok (amc_message_add_to_delivery_queue c p m s)"
proof -
  obtain sv tcb where sv: "amc_heap s p = Some sv" "\<not> sv_lock sv" and tcb: "sys_tasks s (sv_task sv) = Some tcb"
    using assms(1) by (auto simp: svc_ok_def)
  define s1 where "s1 = s\<lparr>amc_heap := (amc_heap s)(p \<mapsto> sv\<lparr>sv_lock := True\<rparr>), amc_inboxes := (amc_inboxes s)(p \<mapsto> inbox s p @ [m])\<rparr>"
  have s1: "amc_heap s1 p = Some (sv\<lparr>sv_lock := True\<rparr>)" "sys_tasks s1 (sv_task sv) = Some tcb"
      "amc_asleep s1 = amc_asleep s" "am_ok (amc_asleep s1)"
    using tcb assms(2) by (simp_all add: s1_def)
  have "is_ok (unblock_receiver c p (sv_task sv) (t_status tcb) s1)"
  proof (cases "sleeps_for_message (t_status tcb)")
    case True
    then have "is_ok (remove_service_from_sleep_list p s1)"
      using assms(3) s1 tcb sv(1) by (intro remove_sleeper_ok) (auto simp: sleeper_ok_def)
    then obtain s2 where s2: "remove_service_from_sleep_list p s1 = Inr s2" by (auto simp: is_ok_iff)
    then have "sys_tasks s2 = sys_tasks s1" using sleep_removal_effect [OF s1(4) s2] by auto
    then have "is_ok (tasking_unblock_task_with_reason c (sv_task sv) AMC_AWAIT_MESSAGE s2)"
      using s1 by (intro unblock_ok) auto
    then show ?thesis using True s2 by (simp add: unblock_receiver_def sleeps_for_message_def awaits_message_def)
  next
    case False
    moreover have "is_ok (tasking_unblock_task_with_reason c (sv_task sv) AMC_AWAIT_MESSAGE s1)"
      using s1 by (intro unblock_ok) auto
    ultimately show ?thesis by (auto simp: unblock_receiver_def sleeps_for_message_def awaits_message_def)
  qed
  then obtain s2 where s2: "unblock_receiver c p (sv_task sv) (t_status tcb) s1 = Inr s2" by (auto simp: is_ok_iff)
  have "amc_heap s2 = amc_heap s1" using unblock_receiver_effect [OF s2 s1(4,2)] by auto
  then show ?thesis
    using sv s1 tcb s2
    by (simp add: amc_message_add_to_delivery_queue_def service_acquire_def upd_service_ok service_release_def
        amc_append_message_to_service_inbox_def inbox_def Let_def s1_def)
qed

text \<open>Well-formedness depends on these fields only.\<close>

lemma amc_wf_frame:
  assumes "amc_wf s" and "amc_up s' = amc_up s" "amc_services s' = amc_services s" "amc_heap s' = amc_heap s"
    and "dom (sys_tasks s') = dom (sys_tasks s)"
    and "am_ok (amc_pool s')" "am_cap (amc_pool s') = 512" "am_ok (amc_asleep s')" "am_cap (amc_asleep s') = 64"
  shows "amc_wf s'"
  using assms by (simp add: amc_wf_def svc_ok_def)

lemma deliver_wf:
  assumes "amc_message_add_to_delivery_queue c p m s = Inr s'" and "amc_wf s" and "p \<in> set (svcs s)"
  shows "amc_wf s'" "inbox s' q = (if q = p then inbox s p @ [m] else inbox s q)"
    "amc_pool s' = amc_pool s" "amc_heap s' = amc_heap s" "amc_services s' = amc_services s"
    "amc_delivered s' = amc_delivered s" "queues s' = queues s" "ts_all_tasks s' = ts_all_tasks s"
    "dom (sys_tasks s') = dom (sys_tasks s)"
proof -
  have ok: "svc_ok s p" "am_ok (amc_asleep s)" using assms(2,3) by (simp_all add: amc_wf_def)
  then obtain tcb where tcb: "sys_tasks s (sv_task (svc s p)) = Some tcb" by (auto simp: svc_ok_def)
  note eff = deliver_effect [OF assms(1) ok refl tcb]
  show "inbox s' q = (if q = p then inbox s p @ [m] else inbox s q)" "amc_pool s' = amc_pool s"
    "amc_heap s' = amc_heap s" "amc_services s' = amc_services s" "amc_delivered s' = amc_delivered s"
    "queues s' = queues s" "ts_all_tasks s' = ts_all_tasks s"
    using eff by (auto simp: inbox_def)
  show dom: "dom (sys_tasks s') = dom (sys_tasks s)" using eff tcb by (auto split: if_splits)
  have "am_ok (amc_asleep s')" "am_cap (amc_asleep s') = am_cap (amc_asleep s)"
    "amc_up s' = amc_up s"
    using eff tcb by (auto split: if_splits)
  then show "amc_wf s'"
    using amc_wf_frame [OF assms(2), of s'] \<open>amc_pool s' = _\<close> \<open>amc_heap s' = _\<close> \<open>amc_services s' = _\<close> assms(2) dom
    by (simp add: amc_wf_def)
qed

subsection \<open>Sending\<close>

definition accepts :: "'z amc_sys_scheme \<Rightarrow> string \<Rightarrow> svc_ptr \<Rightarrow> bool" where
  "accepts s dest p \<longleftrightarrow> p \<in> set (svcs s) \<and> sv_name (svc s p) = dest \<and> sv_delivery_enabled (svc s p)"

lemma with_name_cases:
  assumes "amc_wf s"
  obtains (registered) p where "p \<in> set (svcs s)" "sv_name (svc s p) = n" "amc_service_with_name n s = Inr (Some p)"
    "amc_heap s p = Some (svc s p)"
  | (unknown) "\<forall>p \<in> set (svcs s). sv_name (svc s p) \<noteq> n" "amc_service_with_name n s = Inr None"
proof -
  obtain r where r: "amc_service_with_name n s = Inr r"
    using matching_data_ok [OF assms, of "Some n" None] by (auto simp: amc_service_with_name_def)
  then show ?thesis
    using with_name_dest [OF assms r] that amc_wf_services [OF assms] by (cases r) auto
qed

lemma accepts_unique: "amc_wf s \<Longrightarrow> accepts s n p \<Longrightarrow> accepts s n q \<Longrightarrow> p = q"
  by (auto simp: accepts_def dest: amc_wf_name_unique)

lemma send_to_accepting:
  assumes "amc_wf s" and "accepts s dest p" and "length buf < AMC_MAX_MESSAGE_SIZE" and "dest \<noteq> AXLE_CORE_SERVICE_NAME"
  shows "amc_message_send_from_service_name core c src dest buf s =
    ebind (amc_message_add_to_delivery_queue c p \<lparr>msg_source = take 64 src, msg_dest = dest, msg_body = buf\<rparr> s)
      (\<lambda>s. Inr (True, s))"
proof -
  have p: "p \<in> set (svcs s)" "sv_name (svc s p) = dest" "sv_delivery_enabled (svc s p)" using assms(2) by (auto simp: accepts_def)
  have "length dest < 64" using assms(1) p(1,2) by (auto simp: amc_wf_def svc_ok_def)
  moreover have "amc_heap s p = Some (svc s p)" using amc_wf_services [OF assms(1)] p(1) by auto
  moreover have "amc_service_with_name dest s = Inr (Some p)" using with_name_found [OF assms(1) p(1)] p(2) by simp
  ultimately show ?thesis
    using assms(3,4) p
    by (simp add: amc_message_send_from_service_name_def name_eq_short_left AMC_MAX_SERVICE_NAME_LEN_def Let_def)
qed

lemma send_to_pool:
  assumes "amc_wf s" and "\<nexists>p. accepts s dest p" and "length buf < AMC_MAX_MESSAGE_SIZE"
    and "dest \<noteq> AXLE_CORE_SERVICE_NAME" and "length dest < 64"
  shows "amc_message_send_from_service_name core c src dest buf s =
    ebind (array_m_insert (amc_pool s) \<lparr>msg_source = take 64 src, msg_dest = dest, msg_body = buf\<rparr>)
      (\<lambda>a. Inr (False, s\<lparr>amc_pool := a\<rparr>))"
proof (rule with_name_cases [OF assms(1), of dest], goal_cases)
  case registered: (1 p)
  then have "\<not> sv_delivery_enabled (svc s p)" using assms(2) by (auto simp: accepts_def)
  then show ?thesis using registered assms(3-)
    by (simp add: amc_message_send_from_service_name_def name_eq_short_left AMC_MAX_SERVICE_NAME_LEN_def Let_def)
next
  case unknown: 2
  then show ?thesis using assms(3-) amc_wf_services [OF assms(1)]
    by (simp add: amc_message_send_from_service_name_def name_eq_short_left AMC_MAX_SERVICE_NAME_LEN_def Let_def)
qed

text \<open>
  C10. A message to a registered service that accepts deliveries is appended to the end of that
  service's inbox and to no other inbox, and its task becomes runnable if it waits for a message and
  is not the sender's CPU's current task. A message to an unknown or disabled service is appended to
  the pool of undelivered messages and touches no inbox. Either way the registry stays well formed.
\<close>

theorem amc_send_routes_message:
  assumes "amc_wf s" and "length buf < AMC_MAX_MESSAGE_SIZE" and "dest \<noteq> AXLE_CORE_SERVICE_NAME" and "length dest < 64"
    and "length (am_list (amc_pool s)) < 512" and "\<forall>p \<in> set (svcs s). sleeper_ok s p"
  shows "\<exists>delivered s'. amc_message_send_from_service_name core c src dest buf s = Inr (delivered, s') \<and> amc_wf s'
    \<and> (delivered \<longleftrightarrow> (\<exists>p. accepts s dest p))
    \<and> (let m = \<lparr>msg_source = take 64 src, msg_dest = dest, msg_body = buf\<rparr> in
        am_list (amc_pool s') = am_list (amc_pool s) @ (if delivered then [] else [m])
        \<and> (\<forall>q. inbox s' q = inbox s q @ (if accepts s dest q then [m] else [])))
    \<and> (\<forall>p tcb. accepts s dest p \<and> sys_tasks s (sv_task (svc s p)) = Some tcb \<and> awaits_message (t_status tcb)
        \<and> cpu_current_task c s \<noteq> Some (sv_task (svc s p))
        \<longrightarrow> sys_tasks s' (sv_task (svc s p)) = Some (unblocked tcb))"
proof (cases "\<exists>p. accepts s dest p")
  case False
  obtain a where a: "array_m_insert (amc_pool s) \<lparr>msg_source = take 64 src, msg_dest = dest, msg_body = buf\<rparr> = Inr a"
    "am_ok a" "am_list a = am_list (amc_pool s) @ [\<lparr>msg_source = take 64 src, msg_dest = dest, msg_body = buf\<rparr>]" "am_cap a = 512"
    using am.ins_ok [of "amc_pool s"] assms(1,5) by (auto simp: amc_wf_def)
  have "amc_wf (s\<lparr>amc_pool := a\<rparr>)" by (rule amc_wf_frame [OF assms(1)]) (use a assms(1) in \<open>auto simp: amc_wf_def\<close>)
  then show ?thesis
    using send_to_pool [OF assms(1) False assms(2-4), of core c src] a False
    by (intro exI [of _ False] exI [of _ "s\<lparr>amc_pool := a\<rparr>"]) (simp add: inbox_def Let_def)
next
  case True
  then obtain p where p: "accepts s dest p" by blast
  then have in_svcs: "p \<in> set (svcs s)" by (simp add: accepts_def)
  have ok: "svc_ok s p" "am_ok (amc_asleep s)" "sleeper_ok s p" using assms(1,6) in_svcs by (auto simp: amc_wf_def)
  let ?m = "\<lparr>msg_source = take 64 src, msg_dest = dest, msg_body = buf\<rparr>"
  obtain s' where s': "amc_message_add_to_delivery_queue c p ?m s = Inr s'"
    using deliver_ok [OF ok] by (auto simp: is_ok_iff)
  have un: "sys_tasks s' (sv_task (svc s p)) = Some (unblocked tcb)"
    if "sys_tasks s (sv_task (svc s p)) = Some tcb" "awaits_message (t_status tcb)" "cpu_current_task c s \<noteq> Some (sv_task (svc s p))" for tcb
    using deliver_effect [OF s' ok(1,2) refl that(1)] that(2,3) by auto
  have acc: "accepts s dest q \<longleftrightarrow> q = p" for q using accepts_unique [OF assms(1) p] p by blast
  show ?thesis
    using send_to_accepting [OF assms(1) p assms(2,3), of core c src] s' True un deliver_wf [OF s' assms(1) in_svcs]
    by (intro exI [of _ True] exI [of _ s']) (simp add: acc Let_def)
qed

subsection \<open>Registering\<close>

text \<open>The indexes, counted from \<open>off\<close>, of the elements that satisfy \<open>P\<close>.\<close>

fun matches_at :: "('a \<Rightarrow> bool) \<Rightarrow> int \<Rightarrow> 'a list \<Rightarrow> int list" where
  "matches_at P off [] = []"
| "matches_at P off (z # zs) = (if P z then [off] else []) @ matches_at P (off + 1) zs"

lemma pending_indexes_ok:
  assumes "am_wf pool" and "k \<le> length (am_list pool)"
  shows "pending_indexes name pool (int k) =
    Inr (matches_at (\<lambda>m. name_eq (msg_dest m) name) (int k) (drop k (am_list pool)))"
  using assms(2)
proof (induction "length (am_list pool) - k" arbitrary: k)
  case 0
  then show ?case using am_wf_size [OF assms(1)] by (simp add: pending_indexes.simps [of name pool "int k"])
next
  case (Suc n)
  then have k: "k < length (am_list pool)" by simp
  have get: "array_m_lookup_unlocked pool (int k) = Inr (Some (am_list pool ! k))"
    by (rule am_lookup_unlocked_ok [OF assms(1) k])
  have rec: "pending_indexes name pool (int (Suc k)) =
      Inr (matches_at (\<lambda>m. name_eq (msg_dest m) name) (int (Suc k)) (drop (Suc k) (am_list pool)))"
    by (rule Suc.hyps(1)) (use Suc.hyps(2) k in auto)
  have "drop k (am_list pool) = am_list pool ! k # drop (Suc k) (am_list pool)" using k by (simp add: Cons_nth_drop_Suc)
  then show ?case
    using k get rec am_wf_size [OF assms(1)] by (simp add: pending_indexes.simps [of name pool "int k"] add.commute)
qed

text \<open>A delivery to a task that does not wait for a message changes only the inbox.\<close>

lemma deliver_running:
  assumes "svc_ok s p" and "sys_tasks s (sv_task (svc s p)) = Some tcb" and "\<not> awaits_message (t_status tcb)"
  shows "amc_message_add_to_delivery_queue c p m s = Inr (s\<lparr>amc_inboxes := (amc_inboxes s)(p \<mapsto> inbox s p @ [m])\<rparr>)"
proof -
  obtain sv where sv: "amc_heap s p = Some sv" "\<not> sv_lock sv" using assms(1) by (auto simp: svc_ok_def)
  have "(amc_heap s)(p \<mapsto> sv\<lparr>sv_lock := False\<rparr>) = amc_heap s" using sv by (auto simp: fun_eq_iff)
  then show ?thesis
    using sv assms(2,3)
    by (simp add: amc_message_add_to_delivery_queue_def service_acquire_def upd_service_ok service_release_def
        amc_append_message_to_service_inbox_def inbox_def Let_def unblock_receiver_def awaits_message_def)
qed

lemma deliver_indexes_ok:
  assumes "svc_ok s p" and "sys_tasks s (sv_task (svc s p)) = Some tcb" and "\<not> awaits_message (t_status tcb)"
    and "am_wf (amc_pool s)" and "am_list (amc_pool s) = ys @ zs" and "length (ys @ zs) < am_cap (amc_pool s)"
    and "off - shift = int (length ys)" and "am_lock (amc_pool s)"
  shows "\<exists>a i. deliver_indexes c p name shift (matches_at (\<lambda>m. name_eq (msg_dest m) name) off zs) s =
      Inr (s\<lparr>amc_pool := a, amc_inboxes := i\<rparr>)
    \<and> am_wf a \<and> am_lock a \<and> am_cap a = am_cap (amc_pool s)
    \<and> am_list a = ys @ filter (\<lambda>m. \<not> name_eq (msg_dest m) name) zs
    \<and> (\<forall>q. q \<noteq> p \<longrightarrow> i q = amc_inboxes s q)
    \<and> inbox (s\<lparr>amc_inboxes := i\<rparr>) p = inbox s p @ filter (\<lambda>m. name_eq (msg_dest m) name) zs"
  using assms
proof (induction zs arbitrary: ys off shift s)
  case Nil
  have "s = s\<lparr>amc_pool := amc_pool s, amc_inboxes := amc_inboxes s\<rparr>" by simp
  then show ?case using Nil by (intro exI [of _ "amc_pool s"] exI [of _ "amc_inboxes s"]) simp
next
  case (Cons z zs)
  show ?case
  proof (cases "name_eq (msg_dest z) name")
    case False
    then show ?thesis
      using Cons.IH [of s "ys @ [z]" "off + 1" shift] Cons.prems by simp
  next
    case True
    obtain a where a: "array_m_remove_unlocked (amc_pool s) (int (length ys)) = Inr a" "am_wf a" "am_list a = ys @ zs"
        "am_cap a = am_cap (amc_pool s)" "am_lock a"
      using am_remove_unlocked_ok [OF Cons.prems(4), of "length ys"] Cons.prems(5,6,8) by auto
    have get: "array_m_lookup_unlocked (amc_pool s) (int (length ys)) = Inr (Some z)"
      using am_lookup_unlocked_ok [OF Cons.prems(4), of "length ys"] Cons.prems(5) by simp
    define s1 where "s1 = s\<lparr>amc_pool := a, amc_inboxes := (amc_inboxes s)(p \<mapsto> inbox s p @ [z])\<rparr>"
    have del: "amc_message_add_to_delivery_queue c p z (s\<lparr>amc_pool := a\<rparr>) = Inr s1"
      using deliver_running [of "s\<lparr>amc_pool := a\<rparr>" p tcb c z] Cons.prems(1-3) by (simp add: svc_ok_def inbox_def s1_def)
    have "\<exists>a' i. deliver_indexes c p name (shift + 1) (matches_at (\<lambda>m. name_eq (msg_dest m) name) (off + 1) zs) s1 =
        Inr (s1\<lparr>amc_pool := a', amc_inboxes := i\<rparr>)
      \<and> am_wf a' \<and> am_lock a' \<and> am_cap a' = am_cap (amc_pool s1)
      \<and> am_list a' = ys @ filter (\<lambda>m. \<not> name_eq (msg_dest m) name) zs
      \<and> (\<forall>q. q \<noteq> p \<longrightarrow> i q = amc_inboxes s1 q)
      \<and> inbox (s1\<lparr>amc_inboxes := i\<rparr>) p = inbox s1 p @ filter (\<lambda>m. name_eq (msg_dest m) name) zs"
      by (rule Cons.IH) (use Cons.prems a in \<open>auto simp: s1_def svc_ok_def\<close>)
    then show ?thesis
      using True Cons.prems(7) get a(1,4) del by (auto simp: s1_def inbox_def)
  qed
qed

lemma deliver_pending_ok:
  assumes "svc_ok s p" and "sys_tasks s (sv_task (svc s p)) = Some tcb" and "\<not> awaits_message (t_status tcb)"
    and "am_ok (amc_pool s)" and "length (am_list (amc_pool s)) < am_cap (amc_pool s)" and "sv_name (svc s p) = name"
  shows "\<exists>a i. amc_deliver_pending_messages_to_new_service c p s = Inr (s\<lparr>amc_pool := a, amc_inboxes := i\<rparr>)
    \<and> am_ok a \<and> am_cap a = am_cap (amc_pool s)
    \<and> am_list a = filter (\<lambda>m. \<not> name_eq (msg_dest m) name) (am_list (amc_pool s))
    \<and> (\<forall>q. q \<noteq> p \<longrightarrow> i q = amc_inboxes s q)
    \<and> inbox (s\<lparr>amc_inboxes := i\<rparr>) p = inbox s p @ filter (\<lambda>m. name_eq (msg_dest m) name) (am_list (amc_pool s))"
proof -
  let ?pool = "(amc_pool s)\<lparr>am_lock := True\<rparr>"
  have acq: "am_acquire (amc_pool s) = Inr ?pool" "am_wf ?pool" using assms(4) by (auto simp: am_acquire_def am_ok_def)
  have heap: "load (amc_heap s) p = Inr (svc s p)" using assms(1) by (auto simp: svc_ok_def)
  let ?P = "\<lambda>m. name_eq (msg_dest m) name"
  let ?s = "s\<lparr>amc_pool := ?pool\<rparr>"
  have "\<exists>a i. deliver_indexes c p name 0 (matches_at ?P 0 (am_list (amc_pool s))) ?s = Inr (?s\<lparr>amc_pool := a, amc_inboxes := i\<rparr>)
      \<and> am_wf a \<and> am_lock a \<and> am_cap a = am_cap (amc_pool ?s)
      \<and> am_list a = [] @ filter (\<lambda>m. \<not> name_eq (msg_dest m) name) (am_list (amc_pool s))
      \<and> (\<forall>q. q \<noteq> p \<longrightarrow> i q = amc_inboxes ?s q)
      \<and> inbox (?s\<lparr>amc_inboxes := i\<rparr>) p = inbox ?s p @ filter ?P (am_list (amc_pool s))"
    by (rule deliver_indexes_ok [of _ _ tcb]) (use assms acq(2) in \<open>simp_all add: svc_ok_def am_ok_def\<close>)
  then obtain a i where d: "deliver_indexes c p name 0 (matches_at ?P 0 (am_list (amc_pool s))) ?s = Inr (?s\<lparr>amc_pool := a, amc_inboxes := i\<rparr>)"
      "am_wf a" "am_cap a = am_cap (amc_pool s)"
      "am_list a = filter (\<lambda>m. \<not> name_eq (msg_dest m) name) (am_list (amc_pool s))"
      "\<forall>q. q \<noteq> p \<longrightarrow> i q = amc_inboxes s q"
      "inbox (s\<lparr>amc_inboxes := i\<rparr>) p = inbox s p @ filter ?P (am_list (amc_pool s))"
    by (auto simp: inbox_def)
  have "pending_indexes name ?pool 0 = Inr (matches_at ?P 0 (am_list (amc_pool s)))"
    using pending_indexes_ok [OF acq(2), of 0 name] by simp
  then have "amc_deliver_pending_messages_to_new_service c p s = Inr (s\<lparr>amc_pool := am_release a, amc_inboxes := i\<rparr>)"
    using d(1) acq heap assms(6) by (simp add: amc_deliver_pending_messages_to_new_service_def)
  then show ?thesis using d by (intro exI [of _ "am_release a"] exI [of _ i]) (simp add: am_release_def am_ok_def)
qed

lemma current_task_amc_init [simp]: "tasking_get_current_task c (amc_init s) = tasking_get_current_task c s"
  by (simp add: amc_init_def tasking_get_current_task_def getpid_def cpu_current_task_def tasking_get_task_with_pid_def
      split: option.split)

lemma of_task_none:
  assumes "amc_wf s" and "\<forall>p \<in> set (svcs s). sv_task (svc s p) \<noteq> t"
  shows "amc_service_matching_data None (Some t) s = Inr None"
  using matching_data_ok [OF assms(1), of None "Some t"] assms(2) by (auto simp: find_None_iff svc_pred_def)

lemma with_name_none:
  assumes "amc_wf s" and "\<forall>p \<in> set (svcs s). sv_name (svc s p) \<noteq> n"
  shows "amc_service_with_name n s = Inr None"
  by (rule with_name_cases [OF assms(1), of n]) (use assms(2) in auto)

lemma amc_wf_insert:
  assumes "amc_wf s" and "service \<notin> set (svcs s)" and "task \<in> dom (sys_tasks s)" and "length name < 64"
    and "\<forall>p \<in> set (svcs s). sv_task (svc s p) \<noteq> task \<and> sv_name (svc s p) \<noteq> name"
    and "amc_up s'" "am_ok (amc_services s')" "am_cap (amc_services s') = 256" "svcs s' = svcs s @ [service]"
    and "am_ok (amc_pool s')" "am_cap (amc_pool s') = 512" "amc_asleep s' = amc_asleep s"
    and "amc_heap s' = (amc_heap s)(service \<mapsto> new_amc_service name task pool)" "dom (sys_tasks s') = dom (sys_tasks s)"
  shows "amc_wf s'"
proof -
  have old: "amc_heap s' p = amc_heap s p" if "p \<in> set (svcs s)" for p using that assms(2,13) by auto
  have new: "amc_heap s' service = Some (new_amc_service name task pool)" using assms(13) by simp
  have ok: "\<forall>p \<in> set (svcs s). svc_ok s p" "distinct (svcs s)" using assms(1) by (auto simp: amc_wf_def)
  have "svc_ok s' p" if "p \<in> set (svcs s)" for p using ok(1) that old [OF that] assms(14) by (auto simp: svc_ok_def)
  moreover have "svc_ok s' service" using new assms(3,4,14) by (auto simp: svc_ok_def new_amc_service_def)
  moreover have maps: "map (\<lambda>p. sv_name (svc s' p)) (svcs s') = map (\<lambda>p. sv_name (svc s p)) (svcs s) @ [name]"
    "map (\<lambda>p. sv_task (svc s' p)) (svcs s') = map (\<lambda>p. sv_task (svc s p)) (svcs s) @ [task]"
    using old new assms(9) by (auto simp: new_amc_service_def)
  moreover have "distinct (map (\<lambda>p. sv_name (svc s' p)) (svcs s'))" "distinct (map (\<lambda>p. sv_task (svc s' p)) (svcs s'))"
    unfolding maps using assms(1,5) by (auto simp: amc_wf_def)
  ultimately show ?thesis
    using assms(1,2,6-12) by (simp add: amc_wf_def)
qed

lemma register_service_enters:
  assumes "amc_wf (amc_init s)" and "length name < 64" and "tasking_get_current_task c s = Inr (Some task)"
    and "sys_tasks s task = Some tcb"
    and "\<forall>p \<in> set (svcs (amc_init s)). sv_task (svc s p) \<noteq> task \<and> sv_name (svc s p) \<noteq> name"
    and "length (svcs (amc_init s)) < 256"
  shows "\<exists>a. am_ok a \<and> am_list a = svcs (amc_init s) @ [service] \<and> am_cap a = 256
    \<and> amc_register_service c service delivery_pool name s = amc_deliver_pending_messages_to_new_service c service
      ((amc_init s)\<lparr>sys_tasks := (sys_tasks s)(task \<mapsto> tcb\<lparr>t_name := Some name\<rparr>),
        amc_heap := (amc_heap s)(service \<mapsto> new_amc_service name task delivery_pool), amc_services := a\<rparr>)"
proof -
  define s0 where "s0 = amc_init s"
  have same: "sys_tasks s0 = sys_tasks s" "amc_heap s0 = amc_heap s" by (simp_all add: s0_def amc_init_def)
  have wf: "amc_wf s0" using assms(1) by (simp add: s0_def)
  have cur: "tasking_get_current_task c s0 = Inr (Some task)" using assms(3) by (simp add: s0_def)
  obtain a where a: "array_m_insert (amc_services s0) service = Inr a" "am_ok a" "am_list a = svcs s0 @ [service]" "am_cap a = 256"
    using am.ins_ok [of "amc_services s0" service] wf assms(6) by (auto simp: amc_wf_def s0_def)
  then show ?thesis
    using assms(2,4) cur of_task_none [OF wf, of task] with_name_none [OF wf, of name] assms(5) same
    by (intro exI [of _ a]) (simp add: amc_register_service_def AMC_MAX_SERVICE_NAME_LEN_def task_set_name_def upd_task_ok
        Let_def flip: s0_def)
qed

text \<open>
  C12. Registering a fresh name for a task without a service succeeds, also as the very first
  registration. The new service is then found under its name and its task, every message that was
  waiting for that name is moved from the pool to its inbox in the order it was sent (the index shift
  while removing loses, repeats or misdelivers none), every other message stays in the pool in order,
  no other inbox changes, and names and tasks stay unique.
\<close>

theorem register_service_delivers_pending:
  assumes "amc_wf (amc_init s)" and "length name < 64" and "tasking_get_current_task c s = Inr (Some task)"
    and "sys_tasks s task = Some tcb" and "\<not> awaits_message (t_status tcb)" and "service \<notin> set (svcs (amc_init s))"
    and "\<forall>p \<in> set (svcs (amc_init s)). sv_task (svc s p) \<noteq> task \<and> sv_name (svc s p) \<noteq> name"
    and "length (svcs (amc_init s)) < 256" and "length (am_list (amc_pool (amc_init s))) < 512"
  shows "\<exists>s'. amc_register_service c service delivery_pool name s = Inr s' \<and> amc_wf s'
    \<and> amc_service_with_name name s' = Inr (Some service) \<and> amc_service_of_task task s' = Inr (Some service)
    \<and> svcs s' = svcs (amc_init s) @ [service]
    \<and> am_list (amc_pool s') = filter (\<lambda>m. \<not> name_eq (msg_dest m) name) (am_list (amc_pool (amc_init s)))
    \<and> inbox s' service = inbox s service @ filter (\<lambda>m. name_eq (msg_dest m) name) (am_list (amc_pool (amc_init s)))
    \<and> (\<forall>q. q \<noteq> service \<longrightarrow> inbox s' q = inbox s q)"
proof -
  define s0 where "s0 = amc_init s"
  have same: "sys_tasks s0 = sys_tasks s" "amc_heap s0 = amc_heap s" "amc_inboxes s0 = amc_inboxes s"
    by (simp_all add: s0_def amc_init_def)
  have wf: "amc_wf s0" using assms(1) by (simp add: s0_def)
  let ?sv = "new_amc_service name task delivery_pool"
  obtain a where a: "am_ok a" "am_list a = svcs s0 @ [service]" "am_cap a = 256"
    and reg0: "amc_register_service c service delivery_pool name s = amc_deliver_pending_messages_to_new_service c service
      ((amc_init s)\<lparr>sys_tasks := (sys_tasks s)(task \<mapsto> tcb\<lparr>t_name := Some name\<rparr>),
        amc_heap := (amc_heap s)(service \<mapsto> ?sv), amc_services := a\<rparr>)"
    using register_service_enters [OF assms(1-4,7,8), of service delivery_pool] by (auto simp: s0_def)
  define s1 where "s1 = s0\<lparr>sys_tasks := (sys_tasks s0)(task \<mapsto> tcb\<lparr>t_name := Some name\<rparr>),
    amc_heap := (amc_heap s0)(service \<mapsto> ?sv), amc_services := a\<rparr>"
  have reg: "amc_register_service c service delivery_pool name s = amc_deliver_pending_messages_to_new_service c service s1"
    unfolding reg0 s1_def same by (simp add: s0_def)
  have svc1: "svc s1 service = ?sv" "amc_heap s1 service = Some ?sv" by (simp_all add: s1_def)
  have "\<exists>a i. amc_deliver_pending_messages_to_new_service c service s1 = Inr (s1\<lparr>amc_pool := a, amc_inboxes := i\<rparr>)
    \<and> am_ok a \<and> am_cap a = am_cap (amc_pool s1)
    \<and> am_list a = filter (\<lambda>m. \<not> name_eq (msg_dest m) name) (am_list (amc_pool s1))
    \<and> (\<forall>q. q \<noteq> service \<longrightarrow> i q = amc_inboxes s1 q)
    \<and> inbox (s1\<lparr>amc_inboxes := i\<rparr>) service = inbox s1 service @ filter (\<lambda>m. name_eq (msg_dest m) name) (am_list (amc_pool s1))"
    by (rule deliver_pending_ok [of _ _ "tcb\<lparr>t_name := Some name\<rparr>"])
      (use assms wf in \<open>simp_all add: svc_ok_def s1_def new_amc_service_def amc_wf_def flip: s0_def\<close>)
  then obtain p i where d: "amc_deliver_pending_messages_to_new_service c service s1 = Inr (s1\<lparr>amc_pool := p, amc_inboxes := i\<rparr>)"
    "am_ok p" "am_cap p = am_cap (amc_pool s0)"
    "am_list p = filter (\<lambda>m. \<not> name_eq (msg_dest m) name) (am_list (amc_pool s0))"
    "\<forall>q. q \<noteq> service \<longrightarrow> i q = amc_inboxes s q"
    "inbox (s1\<lparr>amc_inboxes := i\<rparr>) service = inbox s service @ filter (\<lambda>m. name_eq (msg_dest m) name) (am_list (amc_pool s0))"
    by (auto simp: s1_def inbox_def same)
  let ?s' = "s1\<lparr>amc_pool := p, amc_inboxes := i\<rparr>"
  have wf': "amc_wf ?s'"
    by (rule amc_wf_insert [OF wf, of service task name _ delivery_pool])
      (use assms a d wf in \<open>auto simp: s1_def same amc_wf_def s0_def [symmetric]\<close>)
  have "service \<in> set (svcs ?s')" using a(2) by (simp add: s1_def)
  note found = with_name_found [OF wf' this] of_task_found [OF wf' this]
  have "svc ?s' service = ?sv" by (simp add: s1_def)
  then have "amc_service_with_name name ?s' = Inr (Some service)" "amc_service_of_task task ?s' = Inr (Some service)"
    using found by (simp_all add: new_amc_service_def)
  then show ?thesis
    using reg d wf' a(2) by (intro exI [of _ ?s']) (simp add: inbox_def s1_def flip: s0_def)
qed

subsection \<open>Receiving\<close>

text \<open>
  A run of posts (\<open>Inl\<close> a CPU and a message) and fetches (\<open>Inr\<close> a selector) on queues; it yields the messages
  fetched, with their queues.
\<close>

fun exchange :: "('c \<Rightarrow> 'q \<Rightarrow> 'm \<Rightarrow> 's \<Rightarrow> 's res) \<Rightarrow> ('q \<Rightarrow> 'sel \<Rightarrow> 's \<Rightarrow> ('m option \<times> 's) res) \<Rightarrow>
  ('q \<times> (('c \<times> 'm) + 'sel)) list \<Rightarrow> 's \<Rightarrow> (('q \<times> 'm) list \<times> 's) res" where
  "exchange post fetch [] s = Inr ([], s)"
| "exchange post fetch ((q, Inl (c, m)) # acts) s = ebind (post c q m s) (exchange post fetch acts)"
| "exchange post fetch ((q, Inr sel) # acts) s = ebind (fetch q sel s) (\<lambda>(r, s).
     ebind (exchange post fetch acts s) (\<lambda>(got, s).
     Inr ((case r of None \<Rightarrow> [] | Some m \<Rightarrow> [(q, m)]) @ got, s)))"

definition on_queue :: "'q \<Rightarrow> ('q \<times> 'm) list \<Rightarrow> 'm list" where
  "on_queue q xs = map snd (filter (\<lambda>x. fst x = q) xs)"

fun posted :: "('q \<times> (('c \<times> 'm) + 'sel)) list \<Rightarrow> ('q \<times> 'm) list" where
  "posted [] = []"
| "posted ((q, Inl (c, m)) # acts) = (q, m) # posted acts"
| "posted ((q, Inr sel) # acts) = posted acts"

lemma on_queue_simps [simp]:
  "on_queue q [] = []" "on_queue q ((q', m) # xs) = (if q' = q then [m] else []) @ on_queue q xs"
  by (simp_all add: on_queue_def)

text \<open>
  The interface a pair of services relies on: posting appends to a queue, and fetching takes the
  first message that the selector accepts.
\<close>

locale mailbox =
  fixes inv :: "'q set \<Rightarrow> 's \<Rightarrow> bool"
    and msgs :: "'s \<Rightarrow> 'q \<Rightarrow> 'm list"
    and post :: "'c \<Rightarrow> 'q \<Rightarrow> 'm \<Rightarrow> 's \<Rightarrow> 's res"
    and fetch :: "'q \<Rightarrow> 'sel \<Rightarrow> 's \<Rightarrow> ('m option \<times> 's) res"
    and accepted :: "'sel \<Rightarrow> 'm \<Rightarrow> bool"
  assumes post_law: "inv Q s \<Longrightarrow> q \<in> Q \<Longrightarrow> post c q m s = Inr s' \<Longrightarrow>
      inv Q s' \<and> (\<forall>q'. msgs s' q' = msgs s q' @ (if q' = q then [m] else []))"
    and fetch_none: "inv Q s \<Longrightarrow> q \<in> Q \<Longrightarrow> fetch q sel s = Inr (None, s') \<Longrightarrow>
      inv Q s' \<and> msgs s' = msgs s \<and> (\<forall>m \<in> set (msgs s q). \<not> accepted sel m)"
    and fetch_some: "inv Q s \<Longrightarrow> q \<in> Q \<Longrightarrow> fetch q sel s = Inr (Some m, s') \<Longrightarrow>
      inv Q s' \<and> (\<exists>xs ys. msgs s q = xs @ m # ys \<and> (\<forall>x \<in> set xs. \<not> accepted sel x) \<and> accepted sel m
        \<and> msgs s' = (msgs s)(q := xs @ ys))"
begin

text \<open>
  For a class \<open>P\<close> of messages that no selector separates, what was fetched followed by what is left
  is what was there followed by what was posted: nothing is lost, repeated or overtaken.
\<close>

definition keeps_together :: "('m \<Rightarrow> bool) \<Rightarrow> 'sel \<Rightarrow> bool" where
  "keeps_together P sel \<longleftrightarrow> (\<forall>m. P m \<longrightarrow> accepted sel m) \<or> (\<forall>m. P m \<longrightarrow> \<not> accepted sel m)"

lemma fetch_class:
  assumes "inv Q s" and "q \<in> Q" and "fetch q sel s = Inr (Some m, s')" and "keeps_together P sel"
  shows "filter P (msgs s q') = filter P ((if q' = q then [m] else []) @ msgs s' q')"
proof -
  obtain xs ys where x: "msgs s q = xs @ m # ys" "\<forall>x \<in> set xs. \<not> accepted sel x" "accepted sel m"
    "msgs s' = (msgs s)(q := xs @ ys)"
    using fetch_some [OF assms(1-3)] by blast
  have "filter P xs = []" if "P m" using that assms(4) x(2,3) by (auto simp: keeps_together_def filter_empty_conv)
  then show ?thesis using x by auto
qed

lemma exchange_fifo:
  assumes "exchange post fetch acts s = Inr (got, s')" and "inv Q s" and "fst ` set acts \<subseteq> Q"
    and "\<And>q sel. (q, Inr sel) \<in> set acts \<Longrightarrow> keeps_together P sel"
  shows "inv Q s' \<and> filter P (on_queue q got) @ filter P (msgs s' q) =
    filter P (msgs s q) @ filter P (on_queue q (posted acts))"
  using assms
proof (induction acts arbitrary: s got rule: posted.induct)
  case 1
  then show ?case by simp
next
  case (2 q' c m acts)
  obtain s1 where s1: "post c q' m s = Inr s1" "exchange post fetch acts s1 = Inr (got, s')"
    using 2(2) by (auto simp: ebind_eq_Inr)
  have p: "inv Q s1" "msgs s1 q = msgs s q @ (if q = q' then [m] else [])"
    using post_law [OF 2(3) _ s1(1)] 2(4) by auto
  have "inv Q s' \<and> filter P (on_queue q got) @ filter P (msgs s' q) =
      filter P (msgs s1 q) @ filter P (on_queue q (posted acts))"
    by (rule 2(1) [OF s1(2) p(1)]) (use 2(4,5) in auto)
  then show ?case using p(2) by auto
next
  case (3 q' sel acts)
  obtain r s1 got1 where s1: "fetch q' sel s = Inr (r, s1)" "exchange post fetch acts s1 = Inr (got1, s')"
    "got = (case r of None \<Rightarrow> [] | Some m \<Rightarrow> [(q', m)]) @ got1"
    using 3(2) by (auto simp: ebind_eq_Inr)
  have q': "q' \<in> Q" and kt: "keeps_together P sel" using 3(4,5) by auto
  show ?case
  proof (cases r)
    case None
    then have n: "inv Q s1" "msgs s1 = msgs s" using fetch_none [OF 3(3) q', of sel s1] s1(1) by auto
    have "inv Q s' \<and> filter P (on_queue q got1) @ filter P (msgs s' q) =
        filter P (msgs s1 q) @ filter P (on_queue q (posted acts))"
      by (rule 3(1) [OF s1(2) n(1)]) (use 3(4,5) in auto)
    then show ?thesis using n s1(3) None by simp
  next
    case (Some m)
    then have f: "fetch q' sel s = Inr (Some m, s1)" using s1(1) by simp
    have "inv Q s1" using fetch_some [OF 3(3) q' f] by blast
    then have "inv Q s' \<and> filter P (on_queue q got1) @ filter P (msgs s' q) =
        filter P (msgs s1 q) @ filter P (on_queue q (posted acts))"
      by (intro 3(1) [OF s1(2)]) (use 3(4,5) in auto)
    then show ?thesis using fetch_class [OF 3(3) q' f kt, of q] s1(3) Some by (auto split: if_splits)
  qed
qed

end

lemma find_msg_None: "find_msg P ms = Inr None \<Longrightarrow> \<forall>m \<in> set ms. P m = Inr False"
  by (induction ms) (auto simp: ebind_eq_Inr split: if_splits)

lemma find_msg_Some:
  "find_msg P ms = Inr (Some i) \<Longrightarrow> i < length ms \<and> P (ms ! i) = Inr True \<and> (\<forall>j < i. P (ms ! j) = Inr False)"
proof (induction ms arbitrary: i)
  case (Cons m ms)
  then show ?case
  proof (cases "P m")
    case (Inr hit)
    then show ?thesis using Cons by (cases hit; cases i) (auto simp: ebind_eq_Inr nth_Cons split: nat.splits)
  qed simp
qed simp

definition accepted :: "string list \<times> u32 option \<Rightarrow> amc_message \<Rightarrow> bool" where
  "accepted sel m \<longleftrightarrow> msg_matches (fst sel) (snd sel) m = Inr True"

lemma find_msg_first:
  assumes "find_msg (msg_matches sources event) ms = Inr r"
  shows "r = first_index (accepted (sources, event)) ms"
proof (cases r)
  case None
  then show ?thesis using find_msg_None [of "msg_matches sources event" ms] assms first_index_None [of "accepted (sources, event)" ms]
    by (auto simp: accepted_def)
next
  case (Some i)
  then have "first_index (accepted (sources, event)) ms = Some i"
    using find_msg_Some [of "msg_matches sources event" ms i] assms by (auto simp: first_index_Some accepted_def)
  then show ?thesis using Some by simp
qed

lemma find_msg_ok:
  "event = None \<or> (\<forall>m \<in> set ms. 4 \<le> length (msg_body m)) \<Longrightarrow> is_ok (find_msg (msg_matches sources event) ms)"
  by (induction ms) (auto simp: msg_matches_def msg_u32_event_def is_ok_iff ebind_eq_Inr split: option.splits)

text \<open>What is left of the inbox after a receive.\<close>

definition taken_from :: "string list \<times> u32 option \<Rightarrow> amc_message list \<Rightarrow> amc_message list" where
  "taken_from sel ms = (case first_index (accepted sel) ms of None \<Rightarrow> ms | Some i \<Rightarrow> remove_nth i ms)"

lemma await_select_effect:
  assumes "svc_ok s p"
  shows "amc_await_select p sources event s = ebind (find_msg (msg_matches sources event) (inbox s p)) (\<lambda>_.
    let r = map_option ((!) (inbox s p)) (first_index (accepted (sources, event)) (inbox s p)) in
    Inr (r, s\<lparr>amc_inboxes := (amc_inboxes s)(p \<mapsto> taken_from (sources, event) (inbox s p)),
       amc_delivered := (case r of None \<Rightarrow> amc_delivered s | Some m \<Rightarrow> (amc_delivered s)(p \<mapsto> m))\<rparr>))"
proof -
  obtain sv where sv: "amc_heap s p = Some sv" "\<not> sv_lock sv" using assms(1) by (auto simp: svc_ok_def)
  have unlock: "(amc_heap s)(p \<mapsto> sv\<lparr>sv_lock := False\<rparr>) = amc_heap s" using sv by (auto simp: fun_eq_iff)
  show ?thesis
  proof (cases "find_msg (msg_matches sources event) (inbox s p)")
    case (Inl e)
    then show ?thesis using sv
      by (simp add: amc_await_select_def service_acquire_def upd_service_ok amc_select_message_to_deliver_def inbox_def)
  next
    case (Inr r)
    have ib: "inbox (s\<lparr>amc_heap := h\<rparr>) p = inbox s p" for h by (simp add: inbox_def)
    show ?thesis using sv unlock Inr find_msg_first [OF Inr, symmetric]
      by (cases r) (simp_all add: amc_await_select_def service_acquire_def upd_service_ok service_release_def
          amc_select_message_to_deliver_def taken_from_def ib Let_def)
  qed
qed

lemma await_select_wf: "amc_wf s \<Longrightarrow> amc_wf (s\<lparr>amc_inboxes := i, amc_delivered := d\<rparr>)"
  by (rule amc_wf_frame) (auto simp: amc_wf_def)

interpretation mb: mailbox "\<lambda>Q s. amc_wf s \<and> set (svcs s) = Q" inbox amc_message_add_to_delivery_queue
  "\<lambda>p sel. amc_await_select p (fst sel) (snd sel)" accepted
proof (unfold_locales, goal_cases)
  case (1 Q s q c m s')
  then show ?case using deliver_wf [of c q m s s'] by auto
next
  case (2 Q s q sel s')
  then have q: "svc_ok s q" by (auto simp: amc_wf_def)
  have n: "first_index (accepted sel) (inbox s q) = None"
    and s': "s' = s\<lparr>amc_inboxes := (amc_inboxes s)(q \<mapsto> inbox s q), amc_delivered := amc_delivered s\<rparr>"
    using 2(3) await_select_effect [OF q, of "fst sel" "snd sel"] by (auto simp: ebind_eq_Inr Let_def taken_from_def)
  have "inbox s' = inbox s" using s' by (auto simp: inbox_def)
  moreover have "amc_wf s'" using await_select_wf 2(1) s' by blast
  ultimately show ?case using 2(1) s' n first_index_None [of "accepted sel" "inbox s q"] by simp
next
  case (3 Q s q sel m s')
  then have q: "svc_ok s q" by (auto simp: amc_wf_def)
  obtain i where i: "first_index (accepted sel) (inbox s q) = Some i" "m = inbox s q ! i"
    and s': "s' = s\<lparr>amc_inboxes := (amc_inboxes s)(q \<mapsto> remove_nth i (inbox s q)), amc_delivered := (amc_delivered s)(q \<mapsto> m)\<rparr>"
    using 3(3) await_select_effect [OF q, of "fst sel" "snd sel"] by (auto simp: ebind_eq_Inr Let_def taken_from_def)
  have b: "i < length (inbox s q)" "accepted sel m" "\<forall>j < i. \<not> accepted sel (inbox s q ! j)"
    using i by (auto simp: first_index_Some)
  have "inbox s q = take i (inbox s q) @ m # drop (Suc i) (inbox s q)" using b(1) i(2) by (simp add: id_take_nth_drop)
  moreover have "inbox s' = (inbox s)(q := take i (inbox s q) @ drop (Suc i) (inbox s q))"
    using s' by (auto simp: inbox_def remove_nth_def)
  moreover have "\<forall>x \<in> set (take i (inbox s q)). \<not> accepted sel x" using b(1,3) by (auto simp: in_set_conv_nth)
  moreover have "amc_wf s'" using await_select_wf 3(1) s' by blast
  ultimately show ?case using 3(1) s' b(2) by auto
qed

text \<open>
  Receiving on a registered service returns the earliest message of its inbox that matches the
  wanted sources and event, and none exactly when no message matches. That message is removed and
  placed in the service's delivery pool; the other messages keep their order and no other inbox
  changes.
\<close>

lemma await_select_first_match:
  assumes "amc_wf s" and "p \<in> set (svcs s)" and "event = None \<or> (\<forall>m \<in> set (inbox s p). 4 \<le> length (msg_body m))"
  shows "\<exists>r s'. amc_await_select p sources event s = Inr (r, s') \<and> amc_wf s' \<and> (\<forall>q. q \<noteq> p \<longrightarrow> inbox s' q = inbox s q)
    \<and> (case r of
        None \<Rightarrow> inbox s' p = inbox s p \<and> (\<forall>m \<in> set (inbox s p). msg_matches sources event m = Inr False)
      | Some m \<Rightarrow> \<exists>xs ys. inbox s p = xs @ m # ys \<and> inbox s' p = xs @ ys \<and> amc_delivered s' p = Some m
          \<and> msg_matches sources event m = Inr True \<and> (\<forall>x \<in> set xs. msg_matches sources event x = Inr False))"
proof -
  have p: "svc_ok s p" using assms(1,2) by (simp add: amc_wf_def)
  obtain r where r: "find_msg (msg_matches sources event) (inbox s p) = Inr r"
    using find_msg_ok [OF assms(3)] by (auto simp: is_ok_iff)
  define s' where "s' = s\<lparr>amc_inboxes := (amc_inboxes s)(p \<mapsto> taken_from (sources, event) (inbox s p)),
       amc_delivered := (case map_option ((!) (inbox s p)) r of None \<Rightarrow> amc_delivered s | Some m \<Rightarrow> (amc_delivered s)(p \<mapsto> m))\<rparr>"
  have sel: "amc_await_select p sources event s = Inr (map_option ((!) (inbox s p)) r, s')"
    using await_select_effect [OF p, of sources event] r find_msg_first [OF r] by (simp add: Let_def s'_def)
  have wf: "amc_wf s'" and other: "\<forall>q. q \<noteq> p \<longrightarrow> inbox s' q = inbox s q"
    using await_select_wf [OF assms(1)] by (simp_all add: s'_def inbox_def)
  show ?thesis
  proof (cases r)
    case None
    then show ?thesis using sel wf other find_msg_None [of "msg_matches sources event" "inbox s p"] r find_msg_first [OF r]
      by (auto simp: s'_def taken_from_def inbox_def)
  next
    case (Some i)
    note b = find_msg_Some [OF r [unfolded Some]]
    have "inbox s p = take i (inbox s p) @ inbox s p ! i # drop (Suc i) (inbox s p)" using b by (simp add: id_take_nth_drop)
    moreover have "inbox s' p = take i (inbox s p) @ drop (Suc i) (inbox s p)" "amc_delivered s' p = Some (inbox s p ! i)"
      using Some find_msg_first [OF r] by (auto simp: s'_def taken_from_def inbox_def remove_nth_def)
    moreover have "\<forall>x \<in> set (take i (inbox s p)). msg_matches sources event x = Inr False"
      using b by (auto simp: in_set_conv_nth)
    ultimately show ?thesis using sel wf other Some b by fastforce
  qed
qed

text \<open>The messages of one source, or only those of them with one event.\<close>

definition msg_class :: "string \<Rightarrow> u32 option \<Rightarrow> amc_message \<Rightarrow> bool" where
  "msg_class src ev m \<longleftrightarrow> msg_source m = src \<and> (case ev of None \<Rightarrow> True | Some e \<Rightarrow> msg_u32_event m = Inr e)"

lemma msg_class_together:
  assumes "ev = None \<longrightarrow> snd sel = None"
  shows "mb.keeps_together (msg_class src ev) sel"
proof -
  obtain sources event where "sel = (sources, event)" by (cases sel)
  then show ?thesis
    using assms by (cases event; cases ev) (auto simp: mb.keeps_together_def accepted_def msg_matches_def msg_class_def)
qed

text \<open>
  C11. Messages from one source to one service with the same event are never lost, repeated or overtaken: over
  any run of deliveries by any CPUs and receives, whatever the receives select, the messages of that source and
  event that the service received, followed by those left in its inbox, are those that were in the inbox at
  the start followed by those delivered during the run, in order. When no receive selects by event, the same
  holds for all messages of the source together.
\<close>

theorem messages_per_source_fifo:
  assumes "exchange amc_message_add_to_delivery_queue (\<lambda>p sel. amc_await_select p (fst sel) (snd sel)) acts s = Inr (got, s')"
    and "amc_wf s" and "fst ` set acts \<subseteq> set (svcs s)"
    and "ev = None \<longrightarrow> (\<forall>q sel. (q, Inr sel) \<in> set acts \<longrightarrow> snd sel = None)"
  shows "filter (msg_class src ev) (on_queue q got) @ filter (msg_class src ev) (inbox s' q) =
    filter (msg_class src ev) (inbox s q) @ filter (msg_class src ev) (on_queue q (posted acts))"
  using mb.exchange_fifo [OF assms(1) _ assms(3), of "msg_class src ev" q] assms(2,4) msg_class_together by blast

subsection \<open>Waking sleepers\<close>

definition due :: "u32 \<Rightarrow> 'z amc_sys_scheme \<Rightarrow> svc_ptr \<Rightarrow> bool" where
  "due now s p \<longleftrightarrow> t_wake_timestamp (the (sys_tasks s (sv_task (svc s p)))) \<le> now"

definition sleepers_live :: "'z amc_sys_scheme \<Rightarrow> bool" where
  "sleepers_live s \<longleftrightarrow> (\<forall>p \<in> set (am_list (amc_asleep s)). p \<in> dom (amc_heap s) \<and> sv_task (svc s p) \<in> dom (sys_tasks s))"

definition awoken :: "nat \<Rightarrow> task_ptr set \<Rightarrow> 'z amc_sys_scheme \<Rightarrow> task_ptr \<Rightarrow> task_small option" where
  "awoken c W s t = (if t \<in> W \<and> cpu_current_task c s \<noteq> Some t
     then map_option (\<lambda>tcb. tcb\<lparr>t_unblock_reason := AMC_AWAIT_TIMESTAMP, t_status := RUNNABLE\<rparr>) (sys_tasks s t)
     else sys_tasks s t)"

lemma dom_awoken [simp]: "dom (awoken c W s) = dom (sys_tasks s)"
  by (auto simp: awoken_def split: if_splits)

lemma find_sleeper_ok:
  assumes "am_wf (amc_asleep s)" and "sleepers_live s" and "k \<le> length (am_list (amc_asleep s))"
  shows "find_sleeper now s (int k) =
    Inr (map_option (\<lambda>p. (p, sv_task (svc s p))) (find (due now s) (drop k (am_list (amc_asleep s)))))"
  using assms(3)
proof (induction "length (am_list (amc_asleep s)) - k" arbitrary: k)
  case 0
  then show ?case using am_wf_size [OF assms(1)] by (simp add: find_sleeper.simps [of now s "int k"])
next
  case (Suc n)
  let ?xs = "am_list (amc_asleep s)"
  have k: "k < length ?xs" using Suc.hyps(2) by simp
  obtain sv tcb where sv: "amc_heap s (?xs ! k) = Some sv" "sys_tasks s (sv_task sv) = Some tcb"
    using assms(2) nth_mem [OF k] by (fastforce simp: sleepers_live_def)
  have get: "array_m_lookup_unlocked (amc_asleep s) (int k) = Inr (Some (?xs ! k))"
    by (rule am_lookup_unlocked_ok [OF assms(1) k])
  have rec: "find_sleeper now s (int (Suc k)) = Inr (map_option (\<lambda>p. (p, sv_task (svc s p))) (find (due now s) (drop (Suc k) ?xs)))"
    by (rule Suc.hyps(1)) (use Suc.hyps(2) k in auto)
  have "drop k ?xs = ?xs ! k # drop (Suc k) ?xs" using k by (simp add: Cons_nth_drop_Suc)
  moreover have "due now s (?xs ! k) \<longleftrightarrow> t_wake_timestamp tcb \<le> now" using sv by (simp add: due_def)
  ultimately show ?case
    using k get rec sv am_wf_size [OF assms(1)] by (simp add: find_sleeper.simps [of now s "int k"] add.commute)
qed

lemma filter_remove1_id: "\<not> P x \<Longrightarrow> filter P (remove1 x xs) = filter P xs"
  by (induction xs) auto

lemma wake_one:
  assumes "am_wf (amc_asleep s)" and "am_lock (amc_asleep s)" and "sleepers_live s"
    and "length (am_list (amc_asleep s)) < am_cap (amc_asleep s)"
    and "p \<in> set (am_list (amc_asleep s))" and "t = sv_task (svc s p)"
  shows "\<exists>a. am_wf a \<and> am_lock a \<and> am_cap a = am_cap (amc_asleep s) \<and> am_list a = remove1 p (am_list (amc_asleep s))
    \<and> ebind (remove_from_sleep_list_held p s) (tasking_unblock_task_with_reason c t AMC_AWAIT_TIMESTAMP) =
        Inr (s\<lparr>amc_asleep := a, sys_tasks := awoken c {t} s\<rparr>)"
proof -
  obtain s1 where s1: "remove_from_sleep_list_held p s = Inr s1"
    using remove_held_ok [OF assms(1,5,4)] by (auto simp: is_ok_iff)
  obtain a where a: "s1 = s\<lparr>amc_asleep := a\<rparr>" "am_wf a" "am_cap a = am_cap (amc_asleep s)" "am_lock a"
      "am_list a = remove1 p (am_list (amc_asleep s))"
    using remove_held_effect [OF assms(1) s1] assms(2) by auto
  obtain tcb where tcb: "sys_tasks s t = Some tcb" using assms(3,5,6) by (auto simp: sleepers_live_def)
  have "awoken c {t} s = (if cpu_current_task c s = Some t then sys_tasks s
      else (sys_tasks s)(t \<mapsto> tcb\<lparr>t_unblock_reason := AMC_AWAIT_TIMESTAMP, t_status := RUNNABLE\<rparr>))"
    using tcb by (auto simp: awoken_def fun_eq_iff)
  then show ?thesis
    using a s1 tcb by (auto simp: tasking_unblock_task_with_reason_def upd_task_def cpu_current_task_def)
qed

lemma awoken_twice:
  "cpu_current_task c s' = cpu_current_task c s \<Longrightarrow> sys_tasks s' = awoken c V s \<Longrightarrow> awoken c W s' = awoken c (V \<union> W) s"
  by (auto simp: awoken_def fun_eq_iff map_option_case split: option.splits)

lemma wake_loop_ok:
  assumes "am_wf (amc_asleep s)" and "am_lock (amc_asleep s)" and "sleepers_live s"
    and "length (am_list (amc_asleep s)) < am_cap (amc_asleep s)"
  shows "\<exists>a. am_wf a \<and> am_lock a \<and> am_cap a = am_cap (amc_asleep s)
    \<and> am_list a = filter (\<lambda>p. \<not> due now s p) (am_list (amc_asleep s))
    \<and> wake_loop c now s = Inr (s\<lparr>amc_asleep := a,
        sys_tasks := awoken c (\<Union>p \<in> {p \<in> set (am_list (amc_asleep s)). due now s p}. {sv_task (svc s p)}) s\<rparr>)"
  using assms
proof (induction "length (am_list (amc_asleep s))" arbitrary: s rule: less_induct)
  case less
  let ?xs = "am_list (amc_asleep s)"
  have find: "find_sleeper now s 0 = Inr (map_option (\<lambda>p. (p, sv_task (svc s p))) (find (due now s) ?xs))"
    using find_sleeper_ok [OF less.prems(1,3), of 0 now] by simp
  show ?case
  proof (cases "find (due now s) ?xs")
    case None
    then have none: "\<forall>p \<in> set ?xs. \<not> due now s p" by (auto simp: find_None_iff)
    then have "{p \<in> set ?xs. due now s p} = {}" "filter (\<lambda>p. \<not> due now s p) ?xs = ?xs" by auto
    moreover have "awoken c {} s = sys_tasks s" by (auto simp: awoken_def)
    moreover have "wake_loop c now s = Inr s" using None find by (simp add: wake_loop.simps [of c now s])
    ultimately show ?thesis using less.prems by (intro exI [of _ "amc_asleep s"]) (simp del: Collect_empty_eq)
  next
    case (Some p)
    then have p: "p \<in> set ?xs" "due now s p" by (auto simp: find_Some_iff)
    let ?t = "sv_task (svc s p)"
    obtain a where a: "am_wf a" "am_lock a" "am_cap a = am_cap (amc_asleep s)" "am_list a = remove1 p ?xs"
      and step: "ebind (remove_from_sleep_list_held p s) (tasking_unblock_task_with_reason c ?t AMC_AWAIT_TIMESTAMP) =
        Inr (s\<lparr>amc_asleep := a, sys_tasks := awoken c {?t} s\<rparr>)"
      using wake_one [OF less.prems(1-4) p(1) refl, of c] by blast
    define s1 where "s1 = s\<lparr>amc_asleep := a, sys_tasks := awoken c {?t} s\<rparr>"
    have due1: "due now s1 q \<longleftrightarrow> due now s q" if "q \<in> set ?xs" for q
      using that less.prems(3) by (auto simp: due_def s1_def awoken_def sleepers_live_def)
    have live: "sleepers_live s1"
      using less.prems(3) a(4) set_remove1_subset [of p ?xs] by (simp add: sleepers_live_def s1_def) blast
    have "length (am_list (amc_asleep s1)) < length ?xs"
      using p(1) a(4) length_pos_if_in_set [OF p(1)] by (simp add: s1_def length_remove1)
    then obtain b where b: "am_wf b" "am_lock b" "am_cap b = am_cap a"
        "am_list b = filter (\<lambda>p. \<not> due now s1 p) (remove1 p ?xs)"
      and rest: "wake_loop c now s1 = Inr (s1\<lparr>amc_asleep := b,
        sys_tasks := awoken c (\<Union>q \<in> {q \<in> set (remove1 p ?xs). due now s1 q}. {sv_task (svc s1 q)}) s1\<rparr>)"
      using less.hyps [of s1] a live less.prems(4) by (auto simp: s1_def)
    have sub: "set (remove1 p ?xs) \<subseteq> set ?xs" by (rule set_remove1_subset)
    have "am_list b = filter (\<lambda>p. \<not> due now s p) (remove1 p ?xs)"
      unfolding b(4) by (rule filter_cong) (use due1 sub in auto)
    then have lst: "am_list b = filter (\<lambda>p. \<not> due now s p) ?xs" using p(2) by (simp add: filter_remove1_id)
    have set: "{?t} \<union> (\<Union>q \<in> {q \<in> set (remove1 p ?xs). due now s1 q}. {sv_task (svc s1 q)}) =
        (\<Union>q \<in> {q \<in> set ?xs. due now s q}. {sv_task (svc s q)})"
      using p due1 sub by (auto simp: s1_def) (metis in_set_remove1)+
    have "awoken c (\<Union>q \<in> {q \<in> set (remove1 p ?xs). due now s1 q}. {sv_task (svc s1 q)}) s1 =
        awoken c (\<Union>q \<in> {q \<in> set ?xs. due now s q}. {sv_task (svc s q)}) s"
      using awoken_twice [of c s1 s "{?t}"] set by (simp add: s1_def cpu_current_task_def)
    moreover have "wake_loop c now s = wake_loop c now s1"
      using step by (auto simp: wake_loop.simps [of c now s] find Some s1_def ebind_eq_Inr)
    ultimately show ?thesis using rest b lst a(3) by (intro exI [of _ b]) (simp add: s1_def)
  qed
qed

text \<open>
  C13. The timer's wake-up pass returns, takes exactly the services whose wake time has come off the
  sleep list, leaves the others on it in order, and makes exactly their tasks runnable with the
  timestamp as the reason (a task that is current on this CPU is left as it is).
\<close>

theorem wake_sleeping_services_wakes_due:
  assumes "amc_is_active c s" and "am_ok (amc_asleep s)" and "sleepers_live s"
    and "length (am_list (amc_asleep s)) < am_cap (amc_asleep s)" and "now = ucast (sys_now s)"
  shows "\<exists>s'. amc_wake_sleeping_services c s = Inr s' \<and> am_ok (amc_asleep s')
    \<and> am_list (amc_asleep s') = filter (\<lambda>p. \<not> due now s p) (am_list (amc_asleep s))
    \<and> (\<forall>t. sys_tasks s' t =
        (if (\<exists>p \<in> set (am_list (amc_asleep s)). due now s p \<and> sv_task (svc s p) = t) \<and> cpu_current_task c s \<noteq> Some t
         then map_option (\<lambda>tcb. tcb\<lparr>t_unblock_reason := AMC_AWAIT_TIMESTAMP, t_status := RUNNABLE\<rparr>) (sys_tasks s t)
         else sys_tasks s t))
    \<and> inbox s' = inbox s \<and> svcs s' = svcs s"
proof (cases "am_size (amc_asleep s) = 0")
  case True
  then have "am_list (amc_asleep s) = []" using am_wf_size [of "amc_asleep s"] assms(2) by (auto simp: am_ok_def)
  then show ?thesis using True assms(2) by (auto simp: amc_wake_sleeping_services_def)
next
  case False
  define s0 where "s0 = s\<lparr>amc_asleep := (amc_asleep s)\<lparr>am_lock := True\<rparr>\<rparr>"
  have due0: "due now s0 = due now s" and aw0: "awoken c W s0 = awoken c W s" for W
    by (simp_all add: s0_def due_def awoken_def fun_eq_iff cpu_current_task_def)
  have "\<exists>a. am_wf a \<and> am_lock a \<and> am_cap a = am_cap (amc_asleep s0)
    \<and> am_list a = filter (\<lambda>p. \<not> due now s0 p) (am_list (amc_asleep s0))
    \<and> wake_loop c now s0 = Inr (s0\<lparr>amc_asleep := a,
        sys_tasks := awoken c (\<Union>p \<in> {p \<in> set (am_list (amc_asleep s0)). due now s0 p}. {sv_task (svc s0 p)}) s0\<rparr>)"
    by (rule wake_loop_ok) (use assms(2-4) in \<open>simp_all add: s0_def am_ok_def sleepers_live_def\<close>)
  then obtain a where a: "am_wf a" "am_list a = filter (\<lambda>p. \<not> due now s p) (am_list (amc_asleep s))"
    "wake_loop c now s0 = Inr (s0\<lparr>amc_asleep := a,
        sys_tasks := awoken c (\<Union>p \<in> {p \<in> set (am_list (amc_asleep s)). due now s p}. {sv_task (svc s p)}) s\<rparr>)"
    unfolding due0 aw0 by (auto simp: s0_def)
  have "am_acquire (amc_asleep s) = Inr (amc_asleep s0)" using assms(2) by (simp add: am_acquire_def am_ok_def s0_def)
  then show ?thesis
    using False assms(1,5) a by (auto simp: amc_wake_sleeping_services_def s0_def awoken_def am_release_def am_ok_def inbox_def)
qed

text \<open>
  C14. A wake-up can be lost. The receive loop releases the service's lock between finding no message
  and marking the task as blocked. If another CPU delivers a message in between, that delivery finds
  the task runnable and does not unblock it; the receiver then blocks although a message it accepts is
  in its inbox, and the scheduler does not pick it.
\<close>

theorem await_can_miss_a_wakeup:
  assumes "amc_wf s" and "p \<in> set (svcs s)" and "inbox s p = []" and "t = sv_task (svc s p)"
    and "sys_tasks s t = Some tcb" and "\<not> awaits_message (t_status tcb)" and "cpu_current_task c s = Some t"
  shows "\<exists>s1 s2 s3. amc_await_select p sources event s = Inr (None, s1)
    \<and> amc_message_add_to_delivery_queue d p m s1 = Inr s2
    \<and> tasking_block_task c t AMC_AWAIT_MESSAGE s2 = task_switch c s3
    \<and> inbox s3 p = [m] \<and> map_option t_status (sys_tasks s3 t) = Some AMC_AWAIT_MESSAGE \<and> \<not> task_runnable (sys_tasks s3) t"
proof -
  have ok: "svc_ok s p" using assms(1,2) by (simp add: amc_wf_def)
  define s1 where "s1 = s\<lparr>amc_inboxes := (amc_inboxes s)(p \<mapsto> []), amc_delivered := amc_delivered s\<rparr>"
  have sel: "amc_await_select p sources event s = Inr (None, s1)"
    using await_select_effect [OF ok, of sources event] assms(3) by (simp add: Let_def s1_def taken_from_def)
  have s1: "svc_ok s1 p" "sys_tasks s1 (sv_task (svc s1 p)) = Some tcb" "inbox s1 p = []"
    using ok assms(4,5) by (auto simp: s1_def svc_ok_def inbox_def)
  define s2 where "s2 = s1\<lparr>amc_inboxes := (amc_inboxes s1)(p \<mapsto> [m])\<rparr>"
  have del: "amc_message_add_to_delivery_queue d p m s1 = Inr s2"
    using deliver_running [OF s1(1,2) assms(6), of d m] s1(3) by (simp add: s2_def)
  define s3 where "s3 = s2\<lparr>sys_tasks := (sys_tasks s2)(t \<mapsto> tcb\<lparr>t_status := AMC_AWAIT_MESSAGE\<rparr>)\<rparr>"
  have s2: "sys_tasks s2 t = Some tcb" "cpu_current_task c s3 = Some t"
    using assms(5,7) by (simp_all add: s3_def s2_def s1_def cpu_current_task_def)
  have "tasking_block_task c t AMC_AWAIT_MESSAGE s2 = task_switch c s3"
    using s2 by (simp add: tasking_block_task_def upd_task_ok s3_def task_state_defs)
  moreover have "\<not> task_runnable (sys_tasks s3) t" "inbox s3 p = [m]"
    by (simp_all add: s3_def s2_def task_runnable_def runnable_def task_state_defs inbox_def)
  moreover have "map_option t_status (sys_tasks s3 t) = Some AMC_AWAIT_MESSAGE" by (simp add: s3_def)
  ultimately show ?thesis using sel del by blast
qed

subsection \<open>Teardown\<close>

lemma drain_empty: "am_ok q \<Longrightarrow> am_list q = [] \<Longrightarrow> drain_queue q = Inr q"
  using am_wf_size [of q] by (simp add: drain_queue.simps [of q] am_ok_def)

lemma listener_names_from:
  assumes "am_ok ls" and "k \<le> length (am_list ls)"
  shows "listener_names ls s (int k) =
    (if set (drop k (am_list ls)) \<subseteq> dom (amc_heap s)
     then Inr (map (\<lambda>p. sv_name (svc s p)) (drop k (am_list ls))) else Inl UseAfterFree)"
  using assms(2)
proof (induction "length (am_list ls) - k" arbitrary: k)
  case 0
  then show ?case using am_wf_size [of ls] assms(1) by (simp add: listener_names.simps [of ls s "int k"] am_ok_def)
next
  case (Suc n)
  then have k: "k < length (am_list ls)" by simp
  have rec: "listener_names ls s (int (Suc k)) = (if set (drop (Suc k) (am_list ls)) \<subseteq> dom (amc_heap s)
     then Inr (map (\<lambda>p. sv_name (svc s p)) (drop (Suc k) (am_list ls))) else Inl UseAfterFree)"
    by (rule Suc.hyps(1)) (use Suc.hyps(2) k in auto)
  have "drop k (am_list ls) = am_list ls ! k # drop (Suc k) (am_list ls)" using k by (simp add: Cons_nth_drop_Suc)
  then show ?case
    using k am.get_ok [OF assms(1) k] rec am_wf_size [of ls] assms(1)
    by (cases "amc_heap s (am_list ls ! k)") (auto simp: listener_names.simps [of ls s "int k"] add.commute am_ok_def load_def)
qed

lemma teardown_frees:
  assumes "amc_wf s" and "p \<in> set (svcs s)" and "length (svcs s) < 256"
    and "am_ok (sv_message_queue (svc s p))" "am_list (sv_message_queue (svc s p)) = []" "am_size (sv_shmem_regions (svc s p)) = 0"
    and "am_ok (sv_notify (svc s p))"
  shows "\<exists>a. am_ok a \<and> am_cap a = 256 \<and> am_list a = remove1 p (svcs s)
    \<and> amc_teardown_service_for_task core c (sv_task (svc s p)) s =
       (if set (am_list (sv_notify (svc s p))) \<subseteq> dom (amc_heap s)
        then send_all core c (service_died_notification (sv_name (svc s p)))
          (rev (map (\<lambda>q. sv_name (svc s q)) (am_list (sv_notify (svc s p)))))
          (s\<lparr>amc_heap := (amc_heap s)(p := None), amc_services := a\<rparr>)
        else Inl UseAfterFree)"
proof -
  let ?sv = "svc s p"
  have heap: "amc_heap s p = Some ?sv" using amc_wf_services [OF assms(1)] assms(2) by auto
  have ok: "am_ok (amc_services s)" "am_cap (amc_services s) = 256" using assms(1) by (simp_all add: amc_wf_def)
  let ?a = "(amc_services s)\<lparr>am_lock := True\<rparr>"
  have acq: "am_acquire (amc_services s) = Inr ?a" "am_wf ?a" using ok(1) by (simp_all add: am_acquire_def am_ok_def)
  obtain i where i: "first_index ((=) p) (svcs s) = Some i"
    using assms(2) first_index_None [of "(=) p" "svcs s"] by (cases "first_index ((=) p) (svcs s)") auto
  then have bound: "i < length (svcs s)" by (simp add: first_index_Some)
  have idx: "array_m_index_unlocked ?a p = Inr (int i)" using am_index_unlocked_ok [OF acq(2), of p] i by simp
  obtain b where b: "array_m_remove_unlocked ?a (int i) = Inr b" "am_wf b" "am_list b = remove1 p (svcs s)" "am_cap b = 256"
    using am_remove_unlocked_ok [OF acq(2), of i] bound assms(3) ok(2) first_index_remove1 [OF i] by auto
  have names: "listener_names (sv_notify ?sv) s 0 = (if set (am_list (sv_notify ?sv)) \<subseteq> dom (amc_heap s)
     then Inr (map (\<lambda>p. sv_name (svc s p)) (am_list (sv_notify ?sv))) else Inl UseAfterFree)"
    using listener_names_from [OF assms(7), of 0 s] by simp
  show ?thesis
    using of_task_found [OF assms(1,2)] heap acq(1) idx b drain_empty [OF assms(4,5)] assms(6) names
    by (intro exI [of _ "am_release b"]) (simp add: amc_teardown_service_for_task_def am_release_def am_ok_def)
qed

lemma amc_wf_remove:
  assumes "amc_wf s" and "p \<in> set (svcs s)" and "am_ok a" "am_cap a = 256" "am_list a = remove1 p (svcs s)"
  shows "amc_wf (s\<lparr>amc_heap := (amc_heap s)(p := None), amc_services := a\<rparr>)"
proof -
  have wf: "distinct (svcs s)" "distinct (map (\<lambda>p. sv_name (svc s p)) (svcs s))" "distinct (map (\<lambda>p. sv_task (svc s p)) (svcs s))"
    "\<forall>p \<in> set (svcs s). svc_ok s p"
    using assms(1) by (simp_all add: amc_wf_def)
  have set: "set (remove1 p (svcs s)) = set (svcs s) - {p}" using wf(1) by (rule set_remove1_eq)
  let ?h = "(amc_heap s)(p := None)"
  have same: "map (\<lambda>q. f (the (?h q))) (remove1 p (svcs s)) = map (\<lambda>q. f (svc s q)) (remove1 p (svcs s))" for f :: "amc_service \<Rightarrow> 'b"
    using set by (intro map_cong) auto
  have dist: "distinct (map (\<lambda>q. f (the (?h q))) (remove1 p (svcs s)))" if "distinct (map (\<lambda>q. f (svc s q)) (svcs s))"
    for f :: "amc_service \<Rightarrow> 'b"
    unfolding same using that wf(1) set by (auto simp: distinct_map inj_on_def)
  show ?thesis
    using assms(1,3-5) wf(1,4) dist [OF wf(2)] dist [OF wf(3)] set by (auto simp: amc_wf_def svc_ok_def)
qed

lemma sleeper_ok_other:
  assumes "amc_message_add_to_delivery_queue c p m s = Inr s'" and "amc_wf s" and "p \<in> set (svcs s)" and "q \<in> set (svcs s)"
    and "q \<noteq> p" and "sleeper_ok s q"
  shows "sleeper_ok s' q"
proof -
  have ok: "svc_ok s p" "am_ok (amc_asleep s)" using assms(2,3) by (simp_all add: amc_wf_def)
  then obtain tcb where tcb: "sys_tasks s (sv_task (svc s p)) = Some tcb" by (auto simp: svc_ok_def)
  have ne: "sv_task (svc s q) \<noteq> sv_task (svc s p)" using amc_wf_task_unique [OF assms(2,4,3)] assms(5) by blast
  have "sys_tasks s' (sv_task (svc s q)) = sys_tasks s (sv_task (svc s q))" "amc_heap s' = amc_heap s"
    "am_cap (amc_asleep s') = am_cap (amc_asleep s)"
    "am_list (amc_asleep s') \<in> {am_list (amc_asleep s), remove1 p (am_list (amc_asleep s))}"
    using deliver_effect [OF assms(1) ok refl tcb] ne by auto
  then show ?thesis
    using assms(5,6) length_remove1 [of p "am_list (amc_asleep s)"] by (auto simp: sleeper_ok_def)
qed

lemma send_all_accepting:
  assumes "amc_wf s" and "distinct qs" and "\<forall>q \<in> set qs. q \<in> set (svcs s) \<and> sleeper_ok s q \<and> sv_delivery_enabled (svc s q)
      \<and> sv_name (svc s q) \<noteq> AXLE_CORE_SERVICE_NAME"
    and "length body < AMC_MAX_MESSAGE_SIZE"
  shows "\<exists>s'. send_all core c body (map (\<lambda>q. sv_name (svc s q)) qs) s = Inr s' \<and> amc_wf s'
    \<and> svcs s' = svcs s \<and> amc_heap s' = amc_heap s \<and> amc_pool s' = amc_pool s
    \<and> queues s' = queues s \<and> ts_all_tasks s' = ts_all_tasks s \<and> dom (sys_tasks s') = dom (sys_tasks s)
    \<and> (\<forall>q. inbox s' q = inbox s q @ (if q \<in> set qs
         then [\<lparr>msg_source = AXLE_CORE_SERVICE_NAME, msg_dest = sv_name (svc s q), msg_body = body\<rparr>] else []))"
  using assms
proof (induction qs arbitrary: s)
  case Nil
  then show ?case by simp
next
  case (Cons q qs)
  let ?m = "\<lparr>msg_source = take 64 AXLE_CORE_SERVICE_NAME, msg_dest = sv_name (svc s q), msg_body = body\<rparr>"
  have q: "q \<in> set (svcs s)" "accepts s (sv_name (svc s q)) q" using Cons.prems(3) by (auto simp: accepts_def)
  have "svc_ok s q" "am_ok (amc_asleep s)" "sleeper_ok s q" using Cons.prems(1,3) q(1) by (auto simp: amc_wf_def)
  then obtain s1 where s1: "amc_message_add_to_delivery_queue c q ?m s = Inr s1" using deliver_ok by (fastforce simp: is_ok_iff)
  have send: "amc_message_send_from_core core c (sv_name (svc s q)) body s = Inr (True, s1)"
    using send_to_accepting [OF Cons.prems(1) q(2) Cons.prems(4)] Cons.prems(3) s1 by (simp add: amc_message_send_from_core_def)
  note w = deliver_wf [OF s1 Cons.prems(1) q(1)]
  have later: "\<forall>r \<in> set qs. r \<in> set (svcs s1) \<and> sleeper_ok s1 r \<and> sv_delivery_enabled (svc s1 r) \<and> sv_name (svc s1 r) \<noteq> AXLE_CORE_SERVICE_NAME"
    using Cons.prems(2,3) w(4,5) sleeper_ok_other [OF s1 Cons.prems(1) q(1)] by auto
  obtain s' where s': "send_all core c body (map (\<lambda>q. sv_name (svc s1 q)) qs) s1 = Inr s'" "amc_wf s'" "svcs s' = svcs s1"
    "amc_heap s' = amc_heap s1" "amc_pool s' = amc_pool s1" "queues s' = queues s1" "ts_all_tasks s' = ts_all_tasks s1"
    "dom (sys_tasks s') = dom (sys_tasks s1)"
    "\<forall>r. inbox s' r = inbox s1 r @ (if r \<in> set qs
         then [\<lparr>msg_source = AXLE_CORE_SERVICE_NAME, msg_dest = sv_name (svc s1 r), msg_body = body\<rparr>] else [])"
    using Cons.IH [OF w(1) _ later Cons.prems(4)] Cons.prems(2) by auto
  have core: "take 64 AXLE_CORE_SERVICE_NAME = AXLE_CORE_SERVICE_NAME" by (simp add: AXLE_CORE_SERVICE_NAME_def)
  show ?case
    using send s' w Cons.prems(2) by (intro exI [of _ s']) (simp add: core)
qed

lemma teardown_effect:
  assumes "amc_wf s" and "p \<in> set (svcs s)" and "length (svcs s) < 256"
    and "am_ok (sv_message_queue (svc s p))" "am_list (sv_message_queue (svc s p)) = []" "am_size (sv_shmem_regions (svc s p)) = 0"
    and "am_ok (sv_notify (svc s p))" "am_list (sv_notify (svc s p)) = ls" "distinct ls"
    and "\<forall>q \<in> set ls. q \<in> set (svcs s) - {p} \<and> sleeper_ok s q \<and> sv_delivery_enabled (svc s q)
      \<and> sv_name (svc s q) \<noteq> AXLE_CORE_SERVICE_NAME"
  shows "\<exists>s'. amc_teardown_service_for_task core c (sv_task (svc s p)) s = Inr s' \<and> amc_wf s'
    \<and> svcs s' = remove1 p (svcs s) \<and> amc_heap s' = (amc_heap s)(p := None)
    \<and> amc_service_with_name (sv_name (svc s p)) s' = Inr None
    \<and> (\<forall>q. inbox s' q = inbox s q @ (if q \<in> set ls then [\<lparr>msg_source = AXLE_CORE_SERVICE_NAME, msg_dest = sv_name (svc s q),
          msg_body = service_died_notification (sv_name (svc s p))\<rparr>] else []))
    \<and> inbox s' p = inbox s p \<and> queues s' = queues s \<and> ts_all_tasks s' = ts_all_tasks s \<and> dom (sys_tasks s') = dom (sys_tasks s)"
proof -
  let ?body = "service_died_notification (sv_name (svc s p))"
  obtain a where a: "am_ok a" "am_cap a = 256" "am_list a = remove1 p (svcs s)"
    and td: "amc_teardown_service_for_task core c (sv_task (svc s p)) s = (if set ls \<subseteq> dom (amc_heap s)
        then send_all core c ?body (rev (map (\<lambda>q. sv_name (svc s q)) ls)) (s\<lparr>amc_heap := (amc_heap s)(p := None), amc_services := a\<rparr>)
        else Inl UseAfterFree)"
    using teardown_frees [OF assms(1-7), of core c] assms(8) by auto
  define s1 where "s1 = s\<lparr>amc_heap := (amc_heap s)(p := None), amc_services := a\<rparr>"
  have wf1: "amc_wf s1" unfolding s1_def by (rule amc_wf_remove [OF assms(1,2) a])
  have dist: "distinct (svcs s)" using assms(1) by (simp add: amc_wf_def)
  have live: "set ls \<subseteq> dom (amc_heap s)" using assms(10) amc_wf_services [OF assms(1)] by auto
  have same: "\<forall>q \<in> set ls. svc s1 q = svc s q" using assms(10) by (auto simp: s1_def)
  have ready: "\<forall>q \<in> set (rev ls). q \<in> set (svcs s1) \<and> sleeper_ok s1 q \<and> sv_delivery_enabled (svc s1 q) \<and> sv_name (svc s1 q) \<noteq> AXLE_CORE_SERVICE_NAME"
    using assms(10) same a(3) dist by (auto simp: s1_def sleeper_ok_def)
  have "length ?body < AMC_MAX_MESSAGE_SIZE"
    by (simp add: service_died_notification_def AMC_MAX_MESSAGE_SIZE_def)
  then obtain s' where s': "send_all core c ?body (map (\<lambda>q. sv_name (svc s1 q)) (rev ls)) s1 = Inr s'" "amc_wf s'" "svcs s' = svcs s1"
    "amc_heap s' = amc_heap s1" "queues s' = queues s1" "ts_all_tasks s' = ts_all_tasks s1" "dom (sys_tasks s') = dom (sys_tasks s1)"
    "\<forall>q. inbox s' q = inbox s1 q @ (if q \<in> set (rev ls)
         then [\<lparr>msg_source = AXLE_CORE_SERVICE_NAME, msg_dest = sv_name (svc s1 q), msg_body = ?body\<rparr>] else [])"
    using send_all_accepting [OF wf1 _ ready] assms(9) by fastforce
  have names: "map (\<lambda>q. sv_name (svc s1 q)) (rev ls) = rev (map (\<lambda>q. sv_name (svc s q)) ls)"
    using same by (simp add: rev_map)
  have free: "\<forall>q \<in> set (svcs s'). sv_name (svc s' q) \<noteq> sv_name (svc s p)"
    using s'(3,4) a(3) dist amc_wf_name_unique [OF assms(1) _ assms(2)] by (auto simp: s1_def)
  have "inbox s1 = inbox s" by (auto simp: s1_def inbox_def)
  moreover have "p \<notin> set ls" using assms(10) by blast
  ultimately show ?thesis
    using td live s' names same with_name_none [OF s'(2) free] a(3) by (intro exI [of _ s']) (auto simp: s1_def)
qed

text \<open>
  Tearing down the service of a dead task unregisters it: its name is free again, its control
  block is gone, the other services stay, and every service that asked to be told receives exactly
  one death notification. The messages in the dead service's inbox stay behind: a later service at the
  same address finds them.
\<close>

lemma teardown_unregisters_and_notifies:
  assumes "amc_wf s" and "p \<in> set (svcs s)" and "length (svcs s) < 256"
    and "am_ok (sv_message_queue (svc s p))" "am_list (sv_message_queue (svc s p)) = []" "am_size (sv_shmem_regions (svc s p)) = 0"
    and "am_ok (sv_notify (svc s p))" "am_list (sv_notify (svc s p)) = ls" "distinct ls"
    and "\<forall>q \<in> set ls. q \<in> set (svcs s) - {p} \<and> sleeper_ok s q \<and> sv_delivery_enabled (svc s q)
      \<and> sv_name (svc s q) \<noteq> AXLE_CORE_SERVICE_NAME"
  shows "\<exists>s'. amc_teardown_service_for_task core c (sv_task (svc s p)) s = Inr s' \<and> amc_wf s'
    \<and> svcs s' = remove1 p (svcs s) \<and> amc_heap s' = (amc_heap s)(p := None)
    \<and> amc_service_with_name (sv_name (svc s p)) s' = Inr None
    \<and> (\<forall>q. inbox s' q = inbox s q @ (if q \<in> set ls then [\<lparr>msg_source = AXLE_CORE_SERVICE_NAME, msg_dest = sv_name (svc s q),
          msg_body = service_died_notification (sv_name (svc s p))\<rparr>] else []))
    \<and> inbox s' p = inbox s p"
  using teardown_effect [OF assms, of core c] by blast

text \<open>
  A service that asked to be told of another's death and died first is never taken off the
  other's list, so that tearing down the other service reads the freed control block.
\<close>

lemma teardown_reads_dead_listener:
  assumes "amc_wf s" and "p \<in> set (svcs s)" and "length (svcs s) < 256"
    and "am_ok (sv_message_queue (svc s p))" "am_list (sv_message_queue (svc s p)) = []" "am_size (sv_shmem_regions (svc s p)) = 0"
    and "am_ok (sv_notify (svc s p))" and "q \<in> set (am_list (sv_notify (svc s p)))" and "amc_heap s q = None"
  shows "amc_teardown_service_for_task core c (sv_task (svc s p)) s = Inl UseAfterFree"
proof -
  have "\<not> set (am_list (sv_notify (svc s p))) \<subseteq> dom (amc_heap s)" using assms(8,9) by blast
  then show ?thesis using teardown_frees [OF assms(1-7), of core c] by auto
qed

subsection \<open>A concrete system\<close>

definition am_of :: "nat \<Rightarrow> 'a list \<Rightarrow> 'a array_m" where
  "am_of n xs = \<lparr>am_array = map Some xs @ replicate (n - length xs) None, am_size = int (length xs),
     am_max_size = int n, am_lock = False\<rparr>"

lemma am_of_ok [simp]:
  "length xs \<le> n \<Longrightarrow> am_ok (am_of n xs)" "am_list (am_of n xs) = xs" "am_cap (am_of n xs) = n"
  "am_size (am_of n xs) = int (length xs)"
  by (auto simp: am_of_def am_defs slots_wf_def slots_list_def comp_def)

definition demo_msg :: "string \<Rightarrow> string \<Rightarrow> nat \<Rightarrow> amc_message" where
  "demo_msg src dest n = \<lparr>msg_source = src, msg_dest = dest, msg_body = put_le 4 (of_nat n :: u32)\<rparr>"

definition demo_amc :: amc_sys where
  "demo_amc = \<lparr>sys_tasks = [4 \<mapsto> demo_task 4 RUNNABLE True,
       2 \<mapsto> (demo_task 2 (AMC_AWAIT_MESSAGE OR AMC_AWAIT_TIMESTAMP) False)\<lparr>t_wake_timestamp := 1500\<rparr>,
       3 \<mapsto> demo_task 3 RUNNABLE True, 10 \<mapsto> demo_task 10 RUNNABLE False],
     sys_now = 2000, queues = demo_queues demo_levels,
     ts_cpu = (\<lambda>c. demo_cpu (if c = 0 then Some 4 else Some 3) (Some 10)),
     ts_next_pid = 12, ts_multitasking_ready = True, ts_schedule_disabled = False, ts_select_lock = False,
     ts_all_tasks = [4, 2, 3, 10], ts_smp_info = True, ts_bootstrap_addr = 0x5000, ts_core_slot = (\<lambda>_. 0),
     amc_up = True, amc_services = am_of 256 [100, 101],
     amc_pool = am_of 512 [demo_msg ''a'' ''c'' 1, demo_msg ''a'' ''d'' 2, demo_msg ''b'' ''c'' 3],
     amc_asleep = am_of 64 [101],
     amc_heap = [100 \<mapsto> (new_amc_service ''a'' 4 0)\<lparr>sv_notify := am_of 32 [101]\<rparr>,
                 101 \<mapsto> (new_amc_service ''b'' 2 0)\<lparr>sv_notify := am_of 32 [77]\<rparr>],
     amc_inboxes = [101 \<mapsto> [demo_msg ''a'' ''b'' 4, demo_msg ''z'' ''b'' 5, demo_msg ''a'' ''b'' 6]],
     amc_delivered = Map.empty\<rparr>"

lemma demo_amc_svc [simp]:
  "svcs demo_amc = [100, 101]" "amc_asleep demo_amc = am_of 64 [101]" "cpu_current_task 0 demo_amc = Some 4"
  "cpu_current_task 2 demo_amc = Some 3" "amc_init demo_amc = demo_amc"
  "svc demo_amc 100 = (new_amc_service ''a'' 4 0)\<lparr>sv_notify := am_of 32 [101]\<rparr>"
  "svc demo_amc 101 = (new_amc_service ''b'' 2 0)\<lparr>sv_notify := am_of 32 [77]\<rparr>"
  "sys_tasks demo_amc 4 = Some (demo_task 4 RUNNABLE True)" "sys_tasks demo_amc 3 = Some (demo_task 3 RUNNABLE True)"
  "sys_tasks demo_amc 2 = Some ((demo_task 2 (AMC_AWAIT_MESSAGE OR AMC_AWAIT_TIMESTAMP) False)\<lparr>t_wake_timestamp := 1500\<rparr>)"
  by (simp_all add: demo_amc_def cpu_current_task_def demo_cpu_def amc_init_def)

lemma new_service_simps [simp]:
  "sv_name (new_amc_service n t d) = n" "sv_task (new_amc_service n t d) = t" "sv_delivery_enabled (new_amc_service n t d)"
  "sv_message_queue (new_amc_service n t d) = array_m_create 2048" "sv_shmem_regions (new_amc_service n t d) = array_m_create 32"
  by (simp_all add: new_amc_service_def)

lemma demo_amc_wf: "amc_wf demo_amc"
  by (simp add: amc_wf_def svc_ok_def) (simp add: demo_amc_def new_amc_service_def)

lemma demo_amc_sleepers: "\<forall>p \<in> set (svcs demo_amc). sleeper_ok demo_amc p"
  by (simp add: sleeper_ok_def demo_task_def sleeps_for_message_def awaits_message_def task_state_defs)

lemma demo_amc_inbox [simp]: "inbox demo_amc 100 = []"
  "inbox demo_amc 101 = [demo_msg ''a'' ''b'' 4, demo_msg ''z'' ''b'' 5, demo_msg ''a'' ''b'' 6]"
  by (simp_all add: inbox_def demo_amc_def)

lemma demo_amc_pool [simp]: "am_list (amc_pool demo_amc) = [demo_msg ''a'' ''c'' 1, demo_msg ''a'' ''d'' 2, demo_msg ''b'' ''c'' 3]"
  by (simp add: demo_amc_def)

lemma runnable_not_awaiting [simp]: "\<not> awaits_message (t_status (demo_task n RUNNABLE b))"
  by (simp add: demo_task_def awaits_message_def task_state_defs)

lemma created_simps [simp]: "am_size (array_m_create n) = 0"
  by (simp add: array_m_create_def)

theorem amc_send_routes_message_witness:
  "\<exists>s'. amc_message_send_from_service_name (\<lambda>_ _ _. Inl NullDeref) 0 ''a'' ''b'' [1, 2] demo_amc = Inr (True, s')
     \<and> last (inbox s' 101) = \<lparr>msg_source = ''a'', msg_dest = ''b'', msg_body = [1, 2]\<rparr>"
proof -
  have acc: "accepts demo_amc ''b'' 101" by (simp add: accepts_def)
  have "length [1, 2 :: u8] < AMC_MAX_MESSAGE_SIZE" "''b'' \<noteq> AXLE_CORE_SERVICE_NAME"
    by (simp_all add: AMC_MAX_MESSAGE_SIZE_def AXLE_CORE_SERVICE_NAME_def)
  then show ?thesis
    using amc_send_routes_message [OF demo_amc_wf, of "[1, 2]" "''b''" "\<lambda>_ _ _. Inl NullDeref" 0 "''a''"] acc demo_amc_sleepers
    by (auto simp: Let_def)
qed

theorem register_service_delivers_pending_witness:
  "\<exists>s'. amc_register_service 2 102 0 ''c'' demo_amc = Inr s'
     \<and> inbox s' 102 = [demo_msg ''a'' ''c'' 1, demo_msg ''b'' ''c'' 3] \<and> am_list (amc_pool s') = [demo_msg ''a'' ''d'' 2]"
proof -
  have cur: "tasking_get_current_task 2 demo_amc = Inr (Some 3)"
    by (simp add: tasking_get_current_task_def getpid_def tasking_get_task_with_pid_def)
      (simp add: demo_amc_def demo_task_def)
  have ib: "inbox demo_amc 102 = []" by (simp add: inbox_def demo_amc_def)
  show ?thesis
    using register_service_delivers_pending [of demo_amc "''c''" 2 3 _ 102 0] demo_amc_wf cur ib
    by (auto simp: demo_msg_def name_eq_def AMC_MAX_SERVICE_NAME_LEN_def)
qed

theorem messages_per_source_fifo_witness:
  "\<exists>got s'. exchange amc_message_add_to_delivery_queue (\<lambda>p sel. amc_await_select p (fst sel) (snd sel))
       [(100, Inl (0, demo_msg ''b'' ''a'' 7)), (100, Inr ([], None))] demo_amc = Inr (got, s')
     \<and> filter (msg_class ''b'' None) (on_queue 100 got) @ filter (msg_class ''b'' None) (inbox s' 100)
       = [demo_msg ''b'' ''a'' 7]"
proof -
  let ?acts = "[(100, Inl (0, demo_msg ''b'' ''a'' 7)), (100, Inr ([], None))]"
  have ok: "svc_ok demo_amc 100" using demo_amc_wf by (simp add: amc_wf_def)
  define s1 where "s1 = demo_amc\<lparr>amc_inboxes := (amc_inboxes demo_amc)(100 \<mapsto> inbox demo_amc 100 @ [demo_msg ''b'' ''a'' 7])\<rparr>"
  have s1: "amc_message_add_to_delivery_queue 0 100 (demo_msg ''b'' ''a'' 7) demo_amc = Inr s1"
    using deliver_running [OF ok, of "demo_task 4 RUNNABLE True"] by (simp add: s1_def)
  have "amc_wf s1" "svc_ok s1 100" using deliver_wf(1) [OF s1 demo_amc_wf] ok by (auto simp: s1_def svc_ok_def)
  then obtain got s' where run: "exchange amc_message_add_to_delivery_queue (\<lambda>p sel. amc_await_select p (fst sel) (snd sel))
      ?acts demo_amc = Inr (got, s')"
    using s1 await_select_effect [of s1 100 "[]" None] find_msg_ok [of None "inbox s1 100" "[]"] by (auto simp: is_ok_iff Let_def)
  show ?thesis
    using messages_per_source_fifo [OF run demo_amc_wf, of None "''b''" 100] run by (auto simp: demo_msg_def msg_class_def)
qed

theorem wake_sleeping_services_wakes_due_witness:
  "\<exists>s'. amc_wake_sleeping_services 0 demo_amc = Inr s' \<and> am_list (amc_asleep s') = []"
proof -
  have "amc_is_active 0 demo_amc"
    by (simp add: amc_is_active_def tasking_is_active_def) (simp add: demo_amc_def demo_cpu_def cpu_scheduler_enabled_def)
  moreover have "sleepers_live demo_amc" by (simp add: sleepers_live_def) (simp add: demo_amc_def)
  moreover have "due 2000 demo_amc 101" by (simp add: due_def)
  moreover have "ucast (sys_now demo_amc) = (2000 :: u32)" by (simp add: demo_amc_def)
  ultimately show ?thesis using wake_sleeping_services_wakes_due [of 0 demo_amc 2000] by auto
qed

theorem await_can_miss_a_wakeup_witness:
  "\<exists>s1 s2 s3. amc_await_select 100 [] None demo_amc = Inr (None, s1)
     \<and> amc_message_add_to_delivery_queue 2 100 (demo_msg ''b'' ''a'' 7) s1 = Inr s2
     \<and> tasking_block_task 0 4 AMC_AWAIT_MESSAGE s2 = task_switch 0 s3
     \<and> inbox s3 100 = [demo_msg ''b'' ''a'' 7] \<and> \<not> task_runnable (sys_tasks s3) 4"
  using await_can_miss_a_wakeup [OF demo_amc_wf, of 100 4 "demo_task 4 RUNNABLE True" 0 "[]" None 2 "demo_msg ''b'' ''a'' 7"] by auto

end
