(* ===== verification/Frame_Bitmap.thy ===== *)
theory Frame_Bitmap
  imports Prelude
begin

text \<open>
  The bitmap of the frames of a 32-bit address space (\<^verbatim>\<open>kernel/kernel/address_space_bitmap.c\<close>) and
  the rounding of addresses to frames (\<^verbatim>\<open>kernel/kernel/address_space.c\<close>).

  The bitmap is its array of 32-bit words with the lock's flag; \<^verbatim>\<open>invlpg\<close> only drops a cached
  translation. A range loop whose bound does not fit in 32 bits is the code's own wrap-around; the
  loop is an optional result, so that not returning would be \<open>None\<close>. The abstraction is the set of
  the numbers of the frames whose bit is set.
\<close>

subsection \<open>The bitmap\<close>

record frame_bitmap =
  fb_set :: "u32 list"
  fb_lock :: bool

definition ADDRESS_SPACE_BITMAP_SIZE :: nat where "ADDRESS_SPACE_BITMAP_SIZE = 0x8000"

definition bitmap_set :: "frame_bitmap \<Rightarrow> u32 \<Rightarrow> u32 \<Rightarrow> frame_bitmap res" where
  "bitmap_set bitmap index offset =
     ebind (buf_read (fb_set bitmap) (uint index)) (\<lambda>w.
     ebind (buf_write (fb_set bitmap) (uint index) (w OR push_bit (unat offset) 1)) (\<lambda>ws.
     Inr (bitmap\<lparr>fb_set := ws\<rparr>)))"

definition bitmap_unset :: "frame_bitmap \<Rightarrow> u32 \<Rightarrow> u32 \<Rightarrow> frame_bitmap res" where
  "bitmap_unset bitmap index offset =
     ebind (buf_read (fb_set bitmap) (uint index)) (\<lambda>w.
     ebind (buf_write (fb_set bitmap) (uint index) (w AND NOT (push_bit (unat offset) 1))) (\<lambda>ws.
     Inr (bitmap\<lparr>fb_set := ws\<rparr>)))"

definition bitmap_check :: "frame_bitmap \<Rightarrow> u32 \<Rightarrow> u32 \<Rightarrow> bool res" where
  "bitmap_check bitmap index offset =
     ebind (buf_read (fb_set bitmap) (uint index)) (\<lambda>w. Inr (w AND push_bit (unat offset) 1 \<noteq> 0))"

fun first_bit_in_entry :: "u32 \<Rightarrow> bool \<Rightarrow> nat list \<Rightarrow> nat option" where
  "first_bit_in_entry w desired_value [] = None"
| "first_bit_in_entry w desired_value (j # js) =
     (if (w AND push_bit j 1 \<noteq> 0) = desired_value then Some j else first_bit_in_entry w desired_value js)"

fun first_bit_from :: "u32 list \<Rightarrow> nat \<Rightarrow> bool \<Rightarrow> nat res" where
  "first_bit_from [] i desired_value = Inl (Panic ''bitmap_index_of_first_bit_with_value found no available bits'')"
| "first_bit_from (w # ws) i desired_value =
     (if NOT w = 0 then first_bit_from ws (Suc i) desired_value
      else case first_bit_in_entry w desired_value [0..<32] of
             Some j \<Rightarrow> Inr (i * 32 + j)
           | None \<Rightarrow> first_bit_from ws (Suc i) desired_value)"

definition bitmap_index_of_first_bit_with_value :: "frame_bitmap \<Rightarrow> bool \<Rightarrow> nat res" where
  "bitmap_index_of_first_bit_with_value bitmap desired_value = first_bit_from (fb_set bitmap) 0 desired_value"

definition bitmap_index_of_first_set_bit :: "frame_bitmap \<Rightarrow> nat res" where
  "bitmap_index_of_first_set_bit bitmap = bitmap_index_of_first_bit_with_value bitmap True"

definition bitmap_index_of_first_unset_bit :: "frame_bitmap \<Rightarrow> nat res" where
  "bitmap_index_of_first_unset_bit bitmap = bitmap_index_of_first_bit_with_value bitmap False"

definition addr_to_bitmap_index :: "u32 \<Rightarrow> u32" where
  "addr_to_bitmap_index address = (address div 0x1000) div 32"

definition addr_to_bitmap_entry_offset :: "u32 \<Rightarrow> u32" where
  "addr_to_bitmap_entry_offset address = (address div 0x1000) mod 32"

definition addr_space_bitmap_set_address_unlocked :: "frame_bitmap \<Rightarrow> u32 \<Rightarrow> frame_bitmap res" where
  "addr_space_bitmap_set_address_unlocked bitmap address =
     bitmap_set bitmap (addr_to_bitmap_index address) (addr_to_bitmap_entry_offset address)"

definition addr_space_bitmap_unset_address_unlocked :: "frame_bitmap \<Rightarrow> u32 \<Rightarrow> frame_bitmap res" where
  "addr_space_bitmap_unset_address_unlocked bitmap address =
     bitmap_unset bitmap (addr_to_bitmap_index address) (addr_to_bitmap_entry_offset address)"

partial_function (option) range_loop ::
  "(frame_bitmap \<Rightarrow> u32 \<Rightarrow> frame_bitmap res) \<Rightarrow> u32 \<Rightarrow> u32 \<Rightarrow> frame_bitmap \<Rightarrow> frame_bitmap res option" where
  "range_loop f addr limit bitmap =
     (if addr < limit
      then (case f bitmap addr of Inl e \<Rightarrow> Some (Inl e) | Inr b \<Rightarrow> range_loop f (addr + 0x1000) limit b)
      else Some (Inr bitmap))"

declare range_loop.simps [code]

definition range_unlocked ::
  "(frame_bitmap \<Rightarrow> u32 \<Rightarrow> frame_bitmap res) \<Rightarrow> frame_bitmap \<Rightarrow> u32 \<Rightarrow> u32 \<Rightarrow> frame_bitmap res option" where
  "range_unlocked f bitmap start_address range_size =
     (if start_address AND 0xfff \<noteq> 0 then Some (Inl (Panic ''start_address is not page-aligned''))
      else if range_size AND 0xfff \<noteq> 0 then Some (Inl (Panic ''size is not page-aligned''))
      else range_loop f start_address (start_address + range_size) bitmap)"

definition addr_space_bitmap_set_range_unlocked :: "frame_bitmap \<Rightarrow> u32 \<Rightarrow> u32 \<Rightarrow> frame_bitmap res option" where
  "addr_space_bitmap_set_range_unlocked = range_unlocked addr_space_bitmap_set_address_unlocked"

definition addr_space_bitmap_unset_range_unlocked :: "frame_bitmap \<Rightarrow> u32 \<Rightarrow> u32 \<Rightarrow> frame_bitmap res option" where
  "addr_space_bitmap_unset_range_unlocked = range_unlocked addr_space_bitmap_unset_address_unlocked"

definition addr_space_bitmap_check_address_unlocked :: "frame_bitmap \<Rightarrow> u32 \<Rightarrow> bool res" where
  "addr_space_bitmap_check_address_unlocked bitmap address =
     bitmap_check bitmap (addr_to_bitmap_index address) (addr_to_bitmap_entry_offset address)"

subsection \<open>The locked operations\<close>

definition locked :: "(frame_bitmap \<Rightarrow> 'a res) \<Rightarrow> (bool \<Rightarrow> 'a \<Rightarrow> 'a) \<Rightarrow> frame_bitmap \<Rightarrow> 'a res" where
  "locked f unlock bitmap =
     (if fb_lock bitmap then Inl Deadlock
      else ebind (f (bitmap\<lparr>fb_lock := True\<rparr>)) (\<lambda>r. Inr (unlock False r)))"

definition release_bitmap :: "bool \<Rightarrow> frame_bitmap \<Rightarrow> frame_bitmap" where
  "release_bitmap b bitmap = bitmap\<lparr>fb_lock := b\<rparr>"

definition addr_space_bitmap_set_address :: "frame_bitmap \<Rightarrow> u32 \<Rightarrow> frame_bitmap res" where
  "addr_space_bitmap_set_address bitmap address =
     locked (\<lambda>b. addr_space_bitmap_set_address_unlocked b address) release_bitmap bitmap"

definition addr_space_bitmap_unset_address :: "frame_bitmap \<Rightarrow> u32 \<Rightarrow> frame_bitmap res" where
  "addr_space_bitmap_unset_address bitmap address =
     locked (\<lambda>b. addr_space_bitmap_unset_address_unlocked b address) release_bitmap bitmap"

definition locked_range ::
  "(frame_bitmap \<Rightarrow> frame_bitmap res option) \<Rightarrow> frame_bitmap \<Rightarrow> frame_bitmap res option" where
  "locked_range f bitmap =
     (if fb_lock bitmap then Some (Inl Deadlock)
      else map_option (\<lambda>r. ebind r (\<lambda>b. Inr (release_bitmap False b))) (f (bitmap\<lparr>fb_lock := True\<rparr>)))"

definition addr_space_bitmap_set_range :: "frame_bitmap \<Rightarrow> u32 \<Rightarrow> u32 \<Rightarrow> frame_bitmap res option" where
  "addr_space_bitmap_set_range bitmap start_address range_size =
     locked_range (\<lambda>b. addr_space_bitmap_set_range_unlocked b start_address range_size) bitmap"

definition addr_space_bitmap_unset_range :: "frame_bitmap \<Rightarrow> u32 \<Rightarrow> u32 \<Rightarrow> frame_bitmap res option" where
  "addr_space_bitmap_unset_range bitmap start_address range_size =
     locked_range (\<lambda>b. addr_space_bitmap_unset_range_unlocked b start_address range_size) bitmap"

definition addr_space_bitmap_check_address :: "frame_bitmap \<Rightarrow> u32 \<Rightarrow> bool res" where
  "addr_space_bitmap_check_address bitmap address =
     locked (\<lambda>b. addr_space_bitmap_check_address_unlocked b address) (\<lambda>_ r. r) bitmap"

subsection \<open>Rounding to frames\<close>

definition PAGING_FRAME_MASK :: u64 where "PAGING_FRAME_MASK = 0xfffffffffffff000"

definition addr_space_frame_floor :: "u64 \<Rightarrow> u64" where
  "addr_space_frame_floor addr =
     (if addr AND NOT PAGING_FRAME_MASK \<noteq> 0 then (addr AND PAGING_FRAME_MASK) - 0x1000 else addr)"

definition addr_space_page_floor :: "u64 \<Rightarrow> u64" where
  "addr_space_page_floor addr = addr_space_frame_floor addr"

definition addr_space_frame_ceil :: "u64 \<Rightarrow> u64" where
  "addr_space_frame_ceil addr =
     (if addr AND NOT PAGING_FRAME_MASK \<noteq> 0 then (addr AND PAGING_FRAME_MASK) + 0x1000 else addr)"

definition addr_space_page_ceil :: "u64 \<Rightarrow> u64" where
  "addr_space_page_ceil addr = addr_space_frame_ceil addr"

subsection \<open>The set of frames\<close>

definition fb_wf :: "frame_bitmap \<Rightarrow> bool" where
  "fb_wf bitmap \<longleftrightarrow> length (fb_set bitmap) = ADDRESS_SPACE_BITMAP_SIZE"

definition frames :: "frame_bitmap \<Rightarrow> nat set" where
  "frames bitmap = {k. k < 0x100000 \<and> bit (fb_set bitmap ! (k div 32)) (k mod 32)}"

definition frame_of :: "u32 \<Rightarrow> nat" where
  "frame_of address = unat address div 0x1000"

lemma index_offset:
  "unat (addr_to_bitmap_index a) = frame_of a div 32" "unat (addr_to_bitmap_entry_offset a) = frame_of a mod 32"
  "uint (addr_to_bitmap_index a) = int (frame_of a div 32)"
proof -
  show i: "unat (addr_to_bitmap_index a) = frame_of a div 32" "unat (addr_to_bitmap_entry_offset a) = frame_of a mod 32"
    by (simp_all add: addr_to_bitmap_index_def addr_to_bitmap_entry_offset_def frame_of_def unat_div unat_mod)
  show "uint (addr_to_bitmap_index a) = int (frame_of a div 32)"
    unfolding i(1) [symmetric] by simp
qed

lemma frame_of_less: "frame_of a < 0x100000"
proof -
  have "unat a < 2 ^ LENGTH(32)" by (rule unsigned_less)
  then show ?thesis by (simp add: frame_of_def)
qed

lemma frame_index_less: "fb_wf bitmap \<Longrightarrow> frame_of a div 32 < length (fb_set bitmap)"
  using frame_of_less [of a] by (simp add: fb_wf_def ADDRESS_SPACE_BITMAP_SIZE_def)

lemma frames_update:
  assumes "fb_wf bitmap" and "i < 0x100000" and "bitmap' = bitmap\<lparr>fb_set := (fb_set bitmap)[i div 32 := w]\<rparr>"
    and "\<And>j. j < 32 \<Longrightarrow> bit w j \<longleftrightarrow> (if j = i mod 32 then v else bit (fb_set bitmap ! (i div 32)) j)"
  shows "fb_wf bitmap'" and "frames bitmap' = (if v then insert i (frames bitmap) else frames bitmap - {i})"
proof -
  show "fb_wf bitmap'" using assms(1,3) by (simp add: fb_wf_def)
  have len: "i div 32 < length (fb_set bitmap)" using assms(1,2) by (simp add: fb_wf_def ADDRESS_SPACE_BITMAP_SIZE_def)
  have "bit (fb_set bitmap' ! (k div 32)) (k mod 32) \<longleftrightarrow> (if k = i then v else bit (fb_set bitmap ! (k div 32)) (k mod 32))" for k
  proof (cases "k div 32 = i div 32")
    case True
    then have "k = i \<longleftrightarrow> k mod 32 = i mod 32" by (metis div_mult_mod_eq)
    then show ?thesis using True assms(3) assms(4) [of "k mod 32"] len by auto
  next
    case False
    then show ?thesis using assms(3) by auto
  qed
  then show "frames bitmap' = (if v then insert i (frames bitmap) else frames bitmap - {i})"
    using assms(2) by (auto simp: frames_def)
qed

lemma set_address_frames:
  assumes "fb_wf bitmap"
  shows "\<exists>b. addr_space_bitmap_set_address_unlocked bitmap a = Inr b \<and> fb_wf b \<and> fb_lock b = fb_lock bitmap
    \<and> frames b = insert (frame_of a) (frames bitmap)"
proof -
  let ?i = "frame_of a"
  let ?w = "fb_set bitmap ! (?i div 32) OR push_bit (?i mod 32) 1"
  let ?b = "bitmap\<lparr>fb_set := (fb_set bitmap)[?i div 32 := ?w]\<rparr>"
  have bits: "bit ?w j \<longleftrightarrow> (if j = ?i mod 32 then True else bit (fb_set bitmap ! (?i div 32)) j)" if "j < 32" for j
    using that by (auto simp: bit_or_iff bit_exp_iff)
  have "addr_space_bitmap_set_address_unlocked bitmap a = Inr ?b"
    using frame_index_less [OF assms, of a]
    by (simp add: addr_space_bitmap_set_address_unlocked_def bitmap_set_def index_offset buf_read_ok buf_write_ok)
  then show ?thesis using frames_update [OF assms frame_of_less [of a] refl bits] by auto
qed

lemma unset_address_frames:
  assumes "fb_wf bitmap"
  shows "\<exists>b. addr_space_bitmap_unset_address_unlocked bitmap a = Inr b \<and> fb_wf b \<and> fb_lock b = fb_lock bitmap
    \<and> frames b = frames bitmap - {frame_of a}"
proof -
  let ?i = "frame_of a"
  let ?w = "fb_set bitmap ! (?i div 32) AND NOT (push_bit (?i mod 32) 1)"
  let ?b = "bitmap\<lparr>fb_set := (fb_set bitmap)[?i div 32 := ?w]\<rparr>"
  have bits: "bit ?w j \<longleftrightarrow> (if j = ?i mod 32 then False else bit (fb_set bitmap ! (?i div 32)) j)" if "j < 32" for j
    using that by (auto simp: bit_and_iff bit_not_iff bit_exp_iff)
  have "addr_space_bitmap_unset_address_unlocked bitmap a = Inr ?b"
    using frame_index_less [OF assms, of a]
    by (simp add: addr_space_bitmap_unset_address_unlocked_def bitmap_unset_def index_offset buf_read_ok buf_write_ok)
  then show ?thesis using frames_update [OF assms frame_of_less [of a] refl bits] by auto
qed

lemma check_address_frames:
  assumes "fb_wf bitmap"
  shows "addr_space_bitmap_check_address_unlocked bitmap a = Inr (frame_of a \<in> frames bitmap)"
  using frame_index_less [OF assms, of a] frame_of_less [of a]
  by (simp add: addr_space_bitmap_check_address_unlocked_def bitmap_check_def index_offset buf_read_ok frames_def
      and_exp_eq_0_iff_not_bit)

subsection \<open>Ranges\<close>

text \<open>What the range operations need of the operation on one address: it updates one frame.\<close>

locale frame_update =
  fixes f :: "frame_bitmap \<Rightarrow> u32 \<Rightarrow> frame_bitmap res"
    and upd :: "nat set \<Rightarrow> nat set \<Rightarrow> nat set"
  assumes one: "fb_wf bitmap \<Longrightarrow> \<exists>b. f bitmap a = Inr b \<and> fb_wf b \<and> fb_lock b = fb_lock bitmap
      \<and> frames b = upd (frames bitmap) {frame_of a}"
    and upd_empty: "upd S {} = S"
    and upd_union: "upd (upd S A) B = upd S (A \<union> B)"
begin

lemma range_loop_frames:
  assumes "unat addr = p * 0x1000" and "unat limit = (p + n) * 0x1000" and "fb_wf bitmap"
  shows "\<exists>b. range_loop f addr limit bitmap = Some (Inr b) \<and> fb_wf b \<and> fb_lock b = fb_lock bitmap
    \<and> frames b = upd (frames bitmap) {p..<p + n}"
  using assms
proof (induction n arbitrary: addr p bitmap)
  case 0
  then have "\<not> addr < limit" by (simp add: word_less_nat_alt)
  then show ?case using 0(3) upd_empty by (simp add: range_loop.simps [of f addr limit bitmap])
next
  case (Suc n)
  have lt: "addr < limit" using Suc.prems by (simp add: word_less_nat_alt)
  obtain b where b: "f bitmap addr = Inr b" "fb_wf b" "fb_lock b = fb_lock bitmap" "frames b = upd (frames bitmap) {p}"
    using one [OF Suc.prems(3), of addr] Suc.prems(1) by (auto simp: frame_of_def)
  have "unat limit < 2 ^ LENGTH(32)" by (rule unsigned_less)
  then have "unat addr + 0x1000 < 2 ^ 32" using Suc.prems(1,2) lt by (simp add: word_less_nat_alt)
  then have next_addr: "unat (addr + 0x1000) = Suc p * 0x1000"
    using Suc.prems(1) by (simp add: unat_word_ariths)
  obtain c where c: "range_loop f (addr + 0x1000) limit b = Some (Inr c)" "fb_wf c" "fb_lock c = fb_lock b"
    "frames c = upd (frames b) {Suc p..<Suc p + n}"
    using Suc.IH [OF next_addr _ b(2)] Suc.prems(2) by auto
  have "{p} \<union> {Suc p..<Suc p + n} = {p..<p + Suc n}" by auto
  then show ?case
    using lt b c upd_union [of "frames bitmap" "{p}" "{Suc p..<Suc p + n}"]
    by (simp add: range_loop.simps [of f addr limit bitmap])
qed

end

interpretation fset: frame_update addr_space_bitmap_set_address_unlocked "\<lambda>S A. S \<union> A"
  by unfold_locales (use set_address_frames in auto)

interpretation funset: frame_update addr_space_bitmap_unset_address_unlocked "\<lambda>S A. S - A"
  by unfold_locales (use unset_address_frames in auto)

lemma aligned_pages: "(a :: u32) AND 0xfff = 0 \<longleftrightarrow> unat a mod 0x1000 = 0"
proof -
  have "a AND mask 12 = take_bit 12 a" by (simp add: take_bit_eq_mask)
  then have "a AND 0xfff = take_bit 12 a" by (simp add: mask_eq_exp_minus_1)
  then have "unat (a AND 0xfff) = unat a mod 0x1000" by (simp add: take_bit_eq_mod unat_mod)
  then show ?thesis by (metis unat_0 unsigned_eq_0_iff)
qed

lemma aligned_sum:
  assumes "(start :: u32) AND 0xfff = 0" and "len AND 0xfff = 0" and "unat start + unat len < 2 ^ 32"
  shows "unat start = frame_of start * 0x1000" "unat (start + len) = (frame_of start + frame_of len) * 0x1000"
proof -
  have p: "unat start = frame_of start * 0x1000" "unat len = frame_of len * 0x1000"
    using assms(1,2) by (auto simp: aligned_pages frame_of_def)
  moreover have "unat (start + len) = unat start + unat len" using assms(3) by (simp add: unat_word_ariths)
  ultimately show "unat start = frame_of start * 0x1000" "unat (start + len) = (frame_of start + frame_of len) * 0x1000"
    by simp_all
qed

lemma range_frames:
  assumes "frame_update f upd" and "fb_wf bitmap" and "\<not> fb_lock bitmap" and "start AND 0xfff = 0" and "len AND 0xfff = 0"
    and "unat start + unat len < 2 ^ 32"
  shows "\<exists>b. locked_range (\<lambda>b. range_unlocked f b start len) bitmap = Some (Inr b) \<and> fb_wf b \<and> \<not> fb_lock b
    \<and> frames b = upd (frames bitmap) {frame_of start..<frame_of start + frame_of len}"
proof -
  have wf: "fb_wf (bitmap\<lparr>fb_lock := True\<rparr>)" "frames (b\<lparr>fb_lock := x\<rparr>) = frames b" for x b
    using assms(2) by (simp_all add: fb_wf_def frames_def)
  show ?thesis
    using frame_update.range_loop_frames [OF assms(1) aligned_sum [OF assms(4-6)] wf(1)] assms(3-5) wf(2)
    by (auto simp: locked_range_def range_unlocked_def release_bitmap_def fb_wf_def)
qed

text \<open>
  C16. On a page-aligned range below 4 GiB, setting marks exactly the frames of the range and unsetting
  clears exactly them, both return and leave the lock free, and checking an address afterwards tells
  whether its frame is marked: the bitmap implements a set of frames.
\<close>

theorem bitmap_ranges_implement_frame_set:
  assumes "fb_wf bitmap" and "\<not> fb_lock bitmap" and "start AND 0xfff = 0" and "len AND 0xfff = 0"
    and "unat start + unat len < 2 ^ 32"
  shows "\<exists>b1 b2. addr_space_bitmap_set_range bitmap start len = Some (Inr b1) \<and> fb_wf b1
    \<and> frames b1 = frames bitmap \<union> {frame_of start..<frame_of start + frame_of len}
    \<and> addr_space_bitmap_check_address b1 a = Inr (frame_of a \<in> frames b1)
    \<and> addr_space_bitmap_unset_range bitmap start len = Some (Inr b2) \<and> fb_wf b2
    \<and> frames b2 = frames bitmap - {frame_of start..<frame_of start + frame_of len}
    \<and> addr_space_bitmap_check_address b2 a = Inr (frame_of a \<in> frames b2)"
proof -
  have check: "addr_space_bitmap_check_address b a = Inr (frame_of a \<in> frames b)" if "fb_wf b" "\<not> fb_lock b" for b
    using check_address_frames [of "b\<lparr>fb_lock := True\<rparr>" a] that
    by (simp add: addr_space_bitmap_check_address_def locked_def fb_wf_def frames_def)
  show ?thesis
    using range_frames [OF fset.frame_update_axioms assms] range_frames [OF funset.frame_update_axioms assms] check
    by (auto simp: addr_space_bitmap_set_range_def addr_space_bitmap_unset_range_def
        addr_space_bitmap_set_range_unlocked_def addr_space_bitmap_unset_range_unlocked_def)
qed

text \<open>
  A range that ends exactly at 4 GiB is silently ignored: the loop's bound wraps around to zero.
\<close>

lemma bitmap_range_to_the_top_is_ignored:
  assumes "\<not> fb_lock bitmap" and "start AND 0xfff = 0" and "len AND 0xfff = 0" and "unat start + unat len = 2 ^ 32"
  shows "addr_space_bitmap_set_range bitmap start len = Some (Inr bitmap)"
proof -
  have "unat (start + len) = 0" using assms(4) by (simp add: unat_word_ariths)
  then have "start + len = 0" by (simp add: unsigned_eq_0_iff)
  then show ?thesis
    using assms(1-3)
    by (simp add: addr_space_bitmap_set_range_def locked_range_def addr_space_bitmap_set_range_unlocked_def
        range_unlocked_def range_loop.simps release_bitmap_def)
qed

subsection \<open>The first free frame\<close>

lemma find_append: "find P (xs @ ys) = (case find P xs of None \<Rightarrow> find P ys | Some x \<Rightarrow> Some x)"
  by (induction xs) auto

lemma find_map: "find P (map f xs) = map_option f (find (\<lambda>x. P (f x)) xs)"
  by (induction xs) auto

lemma first_bit_in_entry_find: "first_bit_in_entry w v js = find (\<lambda>j. bit w j = v) js"
  by (induction js) (auto simp: and_exp_eq_0_iff_not_bit)

lemma first_bit_unset:
  "first_bit_from ws i False =
    (case find (\<lambda>k. \<not> bit (ws ! (k div 32)) (k mod 32)) [0..<32 * length ws] of
       None \<Rightarrow> Inl (Panic ''bitmap_index_of_first_bit_with_value found no available bits'')
     | Some k \<Rightarrow> Inr (i * 32 + k))"
proof (induction ws arbitrary: i)
  case Nil
  then show ?case by simp
next
  case (Cons w ws)
  let ?P = "\<lambda>k. \<not> bit ((w # ws) ! (k div 32)) (k mod 32)"
  have split: "[0..<32 * length (w # ws)] = [0..<32] @ map (\<lambda>k. k + 32) [0..<32 * length ws]"
    using upt_add_eq_append [of 0 32 "32 * length ws"] by (simp add: map_add_upt add.commute)
  have head: "find ?P [0..<32] = find (\<lambda>j. \<not> bit w j) [0..<32]" by (rule find_cong) auto
  have tail: "find (\<lambda>k. ?P (k + 32)) [0..<32 * length ws] = find (\<lambda>k. \<not> bit (ws ! (k div 32)) (k mod 32)) [0..<32 * length ws]"
    by (rule find_cong) (auto simp: div_add_self2)
  have all: "find ?P [0..<32 * length (w # ws)] = (case find (\<lambda>j. \<not> bit w j) [0..<32] of
      None \<Rightarrow> map_option (\<lambda>k. k + 32) (find (\<lambda>k. \<not> bit (ws ! (k div 32)) (k mod 32)) [0..<32 * length ws])
    | Some j \<Rightarrow> Some j)"
    unfolding split find_append find_map head tail ..
  show ?case
  proof (cases "NOT w = 0")
    case True
    then have "w = NOT 0" by (metis not_not bit.double_compl)
    then have "find (\<lambda>j. \<not> bit w j) [0..<32] = None" by (auto simp: find_None_iff bit_not_iff)
    then show ?thesis using True Cons.IH [of "Suc i"] unfolding all
      by (auto split: option.splits)
  next
    case False
    then show ?thesis using Cons.IH [of "Suc i"] unfolding all
      by (auto simp: first_bit_in_entry_find split: option.splits)
  qed
qed

text \<open>
  Looking for a free frame returns the lowest frame whose bit is clear, and panics exactly when
  all frames of the 4 GiB are marked.
\<close>

lemma first_unset_bit_is_lowest_free_frame:
  assumes "fb_wf bitmap"
  shows "case bitmap_index_of_first_unset_bit bitmap of
      Inr k \<Rightarrow> k < 0x100000 \<and> k \<notin> frames bitmap \<and> {0..<k} \<subseteq> frames bitmap
    | Inl e \<Rightarrow> frames bitmap = {0..<0x100000}"
proof -
  let ?P = "\<lambda>k. \<not> bit (fb_set bitmap ! (k div 32)) (k mod 32)"
  have len: "32 * length (fb_set bitmap) = 0x100000" using assms by (simp add: fb_wf_def ADDRESS_SPACE_BITMAP_SIZE_def)
  show ?thesis
  proof (cases "find ?P [0..<0x100000]")
    case None
    then have "\<forall>k < 0x100000. \<not> ?P k" by (simp add: find_None_iff)
    then show ?thesis using None
      by (auto simp: bitmap_index_of_first_unset_bit_def bitmap_index_of_first_bit_with_value_def first_bit_unset len frames_def)
  next
    case (Some k)
    then have "k < 0x100000" "?P k" "\<forall>j < k. \<not> ?P j" by (auto simp: find_Some_iff)
    then show ?thesis using Some
      by (auto simp: bitmap_index_of_first_unset_bit_def bitmap_index_of_first_bit_with_value_def first_bit_unset len frames_def)
  qed
qed

subsection \<open>Rounding\<close>

lemma unaligned_iff: "a AND NOT PAGING_FRAME_MASK \<noteq> 0 \<longleftrightarrow> unat a mod 0x1000 \<noteq> 0"
  and masked: "unat (a AND PAGING_FRAME_MASK) = unat a - unat a mod 0x1000"
proof -
  have nm: "NOT PAGING_FRAME_MASK = mask 12" by (simp add: PAGING_FRAME_MASK_def mask_eq_exp_minus_1)
  have m: "PAGING_FRAME_MASK = NOT (mask 12)" by (simp add: PAGING_FRAME_MASK_def mask_eq_exp_minus_1)
  have tb: "unat (take_bit 12 a) = unat a mod 0x1000" by (simp add: take_bit_eq_mod unat_mod)
  have "a AND NOT PAGING_FRAME_MASK = take_bit 12 a" by (simp add: nm take_bit_eq_mask)
  then show "a AND NOT PAGING_FRAME_MASK \<noteq> 0 \<longleftrightarrow> unat a mod 0x1000 \<noteq> 0"
    using tb by (metis unat_0 unsigned_eq_0_iff)
  have le: "take_bit 12 a \<le> a" by (simp add: word_le_nat_alt tb)
  have "a AND PAGING_FRAME_MASK = push_bit 12 (drop_bit 12 a)"
    by (rule bit_eqI) (auto simp: m bit_and_iff bit_not_iff bit_mask_iff bit_push_bit_iff bit_drop_bit_eq)
  also have "\<dots> = a - take_bit 12 a" using bits_ident [of 12 a] by (simp add: algebra_simps)
  finally have "a AND PAGING_FRAME_MASK = a - take_bit 12 a" .
  then show "unat (a AND PAGING_FRAME_MASK) = unat a - unat a mod 0x1000"
    using le tb by (simp add: unat_sub)
qed

lemma ceil_step:
  assumes "n mod 0x1000 \<noteq> 0"
  shows "(n + 0xfff) div 0x1000 = n div 0x1000 + (1 :: nat)"
proof -
  have "n + 0xfff = (n mod 0x1000 - 1) + (n div 0x1000 + 1) * 0x1000"
    using assms div_mod_decomp [of n "0x1000"] by simp
  moreover have "n mod 0x1000 - 1 < 0x1000" using mod_less_divisor [of "0x1000" n] by linarith
  ultimately show ?thesis by (simp add: div_mult_self3)
qed

text \<open>
  Rounding up returns the smallest frame boundary not below the address, for every address whose
  boundary fits in 64 bits. Rounding down does not do the same: for an address inside a frame it
  returns the start of the frame below it.
\<close>

lemma frame_rounding:
  assumes "unat addr \<le> 2 ^ 64 - 0x1000"
  shows "unat (addr_space_frame_ceil addr) = (unat addr + 0xfff) div 0x1000 * 0x1000
    \<and> (0x1000 \<le> unat addr \<longrightarrow> unat (addr_space_frame_floor addr) =
      unat addr div 0x1000 * 0x1000 - (if unat addr mod 0x1000 = 0 then 0 else 0x1000))"
proof -
  have base: "unat (addr AND PAGING_FRAME_MASK) = unat addr div 0x1000 * 0x1000"
    using masked [of addr] by (simp add: minus_mod_eq_div_mult)
  have up: "unat (addr_space_frame_ceil addr) = (unat addr + 0xfff) div 0x1000 * 0x1000"
  proof (cases "unat addr mod 0x1000 = 0")
    case True
    then show ?thesis using unaligned_iff [of addr] by (auto simp: addr_space_frame_ceil_def)
  next
    case False
    then have "(unat addr + 0xfff) div 0x1000 = unat addr div 0x1000 + 1" by (rule ceil_step)
    moreover have "unat addr div 0x1000 * 0x1000 + 0x1000 < 2 ^ 64"
      using assms False div_mod_decomp [of "unat addr" "0x1000"] by linarith
    ultimately show ?thesis
      using False unaligned_iff [of addr] base by (simp add: addr_space_frame_ceil_def unat_word_ariths)
  qed
  have down: "unat (addr_space_frame_floor addr) =
      unat addr div 0x1000 * 0x1000 - (if unat addr mod 0x1000 = 0 then 0 else 0x1000)" if "0x1000 \<le> unat addr"
  proof (cases "unat addr mod 0x1000 = 0")
    case True
    then show ?thesis using unaligned_iff [of addr] by (auto simp: addr_space_frame_floor_def)
  next
    case False
    have "(0x1000 :: u64) \<le> addr AND PAGING_FRAME_MASK" using that div_le_mono [of "0x1000" "unat addr" "0x1000"] by (simp add: word_le_nat_alt base)
    then show ?thesis
      using False unaligned_iff [of addr] base by (simp add: addr_space_frame_floor_def unat_sub)
  qed
  show ?thesis using up down by blast
qed

definition demo_bitmap :: frame_bitmap where
  "demo_bitmap = \<lparr>fb_set = replicate 0x8000 0, fb_lock = False\<rparr>"

lemma demo_bitmap_ok: "fb_wf demo_bitmap" "\<not> fb_lock demo_bitmap" "frames demo_bitmap = {}"
  by (auto simp: demo_bitmap_def fb_wf_def ADDRESS_SPACE_BITMAP_SIZE_def frames_def)

theorem bitmap_ranges_implement_frame_set_witness:
  "\<exists>b. addr_space_bitmap_set_range demo_bitmap 0x2000 0x3000 = Some (Inr b) \<and> frames b = {2..<5}
     \<and> addr_space_bitmap_check_address b 0x4fff = Inr True"
  using bitmap_ranges_implement_frame_set [OF demo_bitmap_ok(1,2), of "0x2000" "0x3000" "0x4fff"]
  by (auto simp: demo_bitmap_ok frame_of_def)

end
