(* ===== verification/Amc_Core.thy ===== *)
theory Amc_Core
  imports Amc Frame_Bitmap
begin

text \<open>
  The kernel's own service \<^verbatim>\<open>com.axle.core\<close> (\<^verbatim>\<open>kernel/kernel/util/amc/core_commands.c\<close>), the events it
  sends to the parents of supervised processes, and the end of a task: \<^verbatim>\<open>task_die\<close>,
  \<^verbatim>\<open>_thread_destroy\<close> (\<^verbatim>\<open>task_small.c\<close>) and the reaper (\<^verbatim>\<open>reaper.c\<close>).

  Requests and replies are the C structs as bytes, with the offsets of the x86-64 ABI. What the
  memory manager, the boot loader and the heap hand to a handler (mapped addresses, the frame
  buffer, fresh blocks) is the argument \<open>env\<close>. A handler that answers the service \<^verbatim>\<open>com.axle.core\<close>
  itself would call the dispatcher again; \<open>amc_core_handle_message\<close> counts these nested calls.
\<close>

subsection \<open>What the handlers get from outside\<close>

record core_env =
  ce_map_range :: "nat \<Rightarrow> u64 \<Rightarrow> u64 \<Rightarrow> u64 \<Rightarrow> u64"     \<comment> \<open>\<^verbatim>\<open>vas_map_range\<close>: space, minimum, size, frame\<close>
  ce_alloc_range :: "nat \<Rightarrow> u64 \<Rightarrow> u64 \<Rightarrow> u64"         \<comment> \<open>\<^verbatim>\<open>vas_alloc_range\<close>\<close>
  ce_copy_phys_mapping :: "nat \<Rightarrow> nat \<Rightarrow> u64 \<Rightarrow> u64 \<Rightarrow> u64 \<Rightarrow> u64"
  ce_alloc_phys :: "u64 \<Rightarrow> u64"                        \<comment> \<open>\<^verbatim>\<open>pmm_alloc_continuous_range\<close>\<close>
  ce_framebuffer :: "u64 \<times> u64 \<times> u64 \<times> u8 \<times> u8 \<times> u32 \<times> u64"
    \<comment> \<open>address, width, height, bits and bytes per pixel, pixels per scanline, size\<close>
  ce_initrd_start :: u64
  ce_initrd_size :: u64
  ce_user_string :: "u64 \<Rightarrow> string"                    \<comment> \<open>the string at a user address\<close>
  ce_name_copy :: u64
  ce_buffer_copy :: u64
  ce_exec_trampoline :: u64
  ce_new_task :: task_ptr
  ce_new_stack :: u64
  ce_new_vas :: nat
  ce_task_info :: "u8 list"                            \<comment> \<open>\<^verbatim>\<open>tasking_populate_tasks_info()\<close>\<close>
  ce_pml1_mapping :: "u64 \<times> u64 \<times> u64 \<times> u64"          \<comment> \<open>\<^verbatim>\<open>dangerous_map_pml1_entry\<close>\<close>

type_synonym 's handler = "string \<Rightarrow> u8 list \<Rightarrow> 's \<Rightarrow> 's res"

definition reply ::
  "'z amc_sys_scheme handler \<Rightarrow> nat \<Rightarrow> string \<Rightarrow> u8 list \<Rightarrow> 'z amc_sys_scheme \<Rightarrow> 'z amc_sys_scheme res" where
  "reply core c source_service body s =
     ebind (amc_message_send_from_core core c source_service body s) (\<lambda>(_, s). Inr s)"

definition pad :: "nat \<Rightarrow> u8 list" where "pad n = replicate n 0"

text \<open>\<^verbatim>\<open>amc_service_with_name(source_service)\<close> followed by the assertion that it is there.\<close>

definition sending_service :: "string \<Rightarrow> 'z amc_sys_scheme \<Rightarrow> svc_ptr res" where
  "sending_service source_service s =
     ebind (amc_service_with_name source_service s) (\<lambda>source.
     ebind (kassert (source \<noteq> None) ''Failed to find service that sent the message...'') (\<lambda>_. deref source))"

definition active_vas :: "nat \<Rightarrow> 'z tasking_sys_scheme \<Rightarrow> nat" where
  "active_vas c s = ci_loaded_vas (ts_cpu s c)"

subsection \<open>Handlers\<close>

text \<open>The loop reaches \<^verbatim>\<open>NotImplemented()\<close> in its first round, after the lookup and the copy.\<close>

definition amc_core_copy_amc_services ::
  "'z amc_sys_scheme handler \<Rightarrow> nat \<Rightarrow> string \<Rightarrow> 'z amc_sys_scheme \<Rightarrow> 'z amc_sys_scheme res" where
  "amc_core_copy_amc_services core c source_service s =
     (if am_size (amc_services s) > 0
      then ebind (ebind (array_m_lookup (amc_services s) 0) deref) (\<lambda>p.
           ebind (load (amc_heap s) p) (\<lambda>_. Inl (Panic ''Not implemented'')))
      else reply core c source_service
             (put_le 4 (200 :: u32) @ put_le 4 (word_of_int (am_size (amc_services s)) :: u32)) s)"

definition amc_core_awm_map_framebuffer ::
  "core_env \<Rightarrow> 'z amc_sys_scheme handler \<Rightarrow> nat \<Rightarrow> string \<Rightarrow> 'z amc_sys_scheme \<Rightarrow> 'z amc_sys_scheme res" where
  "amc_core_awm_map_framebuffer env core c source_service s =
     ebind (kassert (name_eq source_service ''com.axle.awm'') ''Only AWM may use this syscall'') (\<lambda>_.
     ebind (amc_service_with_name source_service s) (\<lambda>_.
     let (address, width, height, bits, bytes, per_line, fb_size) = ce_framebuffer env;
         framebuf_start_addr = ucast address :: u32;
         framebuf_end_addr = ucast (address + fb_size) :: u32;
         framebuf_end_addr = (framebuf_end_addr + 0xfff) AND 0xfffff000;
         framebuf_size = ucast (framebuf_end_addr - framebuf_start_addr) :: u64;
         mapped_framebuffer = ce_map_range env (active_vas c s) 0x7d0000000000 framebuf_size (ucast framebuf_start_addr)
     in reply core c source_service
          (put_le 4 (201 :: u32) @ pad 4 @ put_le 8 mapped_framebuffer @ put_le 4 (ucast width :: u32) @
           put_le 4 (ucast height :: u32) @ put_le 4 (ucast bits :: u32) @ put_le 4 (ucast bytes :: u32) @
           put_le 4 per_line @ put_le 4 (ucast framebuf_size :: u32)) s))"

definition amc_core_put_service_to_sleep ::
  "nat \<Rightarrow> string \<Rightarrow> u32 \<Rightarrow> bool \<Rightarrow> 'z amc_sys_scheme \<Rightarrow> 'z amc_sys_scheme res" where
  "amc_core_put_service_to_sleep c source_service ms awake_on_message s =
     ebind (ebind (amc_service_with_name source_service s) deref) (\<lambda>service.
     ebind (load (amc_heap s) service) (\<lambda>sv.
     let now = ucast (sys_now s) :: u32; wake = now + ms in
     ebind (upd_task (sv_task sv) (t_wake_timestamp_update (\<lambda>_. wake)) s) (\<lambda>s.
     ebind (array_m_insert (amc_asleep s) service) (\<lambda>a.
     tasking_block_task c (sv_task sv)
       (if awake_on_message then AMC_AWAIT_TIMESTAMP OR AMC_AWAIT_MESSAGE else AMC_AWAIT_TIMESTAMP)
       (s\<lparr>amc_asleep := a\<rparr>)))))"

definition amc_core_file_server_map_initrd ::
  "core_env \<Rightarrow> 'z amc_sys_scheme handler \<Rightarrow> nat \<Rightarrow> string \<Rightarrow> 'z amc_sys_scheme \<Rightarrow> 'z amc_sys_scheme res" where
  "amc_core_file_server_map_initrd env core c source_service s =
     ebind (kassert (name_eq source_service ''com.axle.file_server'') ''Only File Server may use this syscall'') (\<lambda>_.
     ebind (ebind (amc_service_with_name source_service s) deref) (\<lambda>current_service.
     ebind (service_acquire current_service s) (\<lambda>s.
     let page_padded_size = (ucast (ce_initrd_size env) + 0xfff) AND NOT 0xfff :: u32;
         mapped_initrd = ce_map_range env (active_vas c s) 0x7d0000000000 (ucast page_padded_size) (ce_initrd_start env)
     in ebind (service_release current_service s) (\<lambda>s.
        reply core c source_service
          (put_le 4 (203 :: u32) @ pad 4 @ put_le 8 mapped_initrd @ put_le 8 (mapped_initrd + ce_initrd_size env) @
           put_le 8 (ce_initrd_size env)) s))))"

subsection \<open>Supervised processes\<close>

datatype supervisor_event =
    ProcessCreate u64
  | ProcessStart u64 u64
  | ProcessExit u64 u64
  | ProcessWrite u64 u64 "u8 list"

definition AMC_SUPERVISED_PROCESS_EVENT :: u32 where "AMC_SUPERVISED_PROCESS_EVENT = 215"

text \<open>The fields of the union; \<^verbatim>\<open>strncpy\<close> into the 128 message bytes stops after \<open>len\<close> bytes.\<close>

fun event_discriminant :: "supervisor_event \<Rightarrow> u32" where
  "event_discriminant (ProcessCreate _) = 0"
| "event_discriminant (ProcessStart _ _) = 1"
| "event_discriminant (ProcessExit _ _) = 2"
| "event_discriminant (ProcessWrite _ _ _) = 3"

fun event_fields :: "supervisor_event \<Rightarrow> u8 list" where
  "event_fields (ProcessCreate pid) = put_le 8 pid"
| "event_fields (ProcessStart pid entry_point) = put_le 8 pid @ put_le 8 entry_point"
| "event_fields (ProcessExit pid status_code) = put_le 8 pid @ put_le 8 status_code"
| "event_fields (ProcessWrite pid len msg) = put_le 8 pid @ put_le 8 len @ msg"

definition supervised_process_event :: "supervisor_event \<Rightarrow> u8 list" where
  "supervised_process_event ev =
     put_le 4 AMC_SUPERVISED_PROCESS_EVENT @ pad 4 @ put_le 4 (event_discriminant ev) @ pad 4 @
     event_fields ev @ pad (144 - length (event_fields ev))"

definition inform_supervisor ::
  "'z amc_sys_scheme handler \<Rightarrow> nat \<Rightarrow> task_small \<Rightarrow> supervisor_event \<Rightarrow> 'z amc_sys_scheme \<Rightarrow> 'z amc_sys_scheme res" where
  "inform_supervisor core c task ev s =
     (if \<not> t_is_managed_by_parent task then Inr s
      else ebind (deref (t_managing_parent_service_name task)) (\<lambda>parent.
           reply core c parent (supervised_process_event ev) s))"

definition task_inform_supervisor_process_create_with_task ::
  "'z amc_sys_scheme handler \<Rightarrow> nat \<Rightarrow> task_ptr \<Rightarrow> u64 \<Rightarrow> 'z amc_sys_scheme \<Rightarrow> 'z amc_sys_scheme res" where
  "task_inform_supervisor_process_create_with_task core c task pid s =
     ebind (load (sys_tasks s) task) (\<lambda>t. inform_supervisor core c t (ProcessCreate pid) s)"

definition current_task_block :: "nat \<Rightarrow> 'z tasking_sys_scheme \<Rightarrow> task_small res" where
  "current_task_block c s =
     ebind (ebind (tasking_get_current_task c s) deref) (load (sys_tasks s))"

definition task_inform_supervisor_process_start ::
  "'z amc_sys_scheme handler \<Rightarrow> nat \<Rightarrow> u64 \<Rightarrow> 'z amc_sys_scheme \<Rightarrow> 'z amc_sys_scheme res" where
  "task_inform_supervisor_process_start core c entry_point s =
     ebind (current_task_block c s) (\<lambda>t.
     ebind (getpid c s) (\<lambda>pid. inform_supervisor core c t (ProcessStart (word_of_int pid) entry_point) s))"

definition task_inform_supervisor_process_exit ::
  "'z amc_sys_scheme handler \<Rightarrow> nat \<Rightarrow> u64 \<Rightarrow> 'z amc_sys_scheme \<Rightarrow> 'z amc_sys_scheme res" where
  "task_inform_supervisor_process_exit core c exit_code s =
     ebind (current_task_block c s) (\<lambda>t.
     ebind (getpid c s) (\<lambda>pid. inform_supervisor core c t (ProcessExit (word_of_int pid) exit_code) s))"

text \<open>
  \<open>buf\<close> is the string to write; the copy of \<open>len\<close> bytes overruns the 128 bytes of the field when
  \<open>len\<close> is larger.
\<close>

definition task_inform_supervisor_process_write ::
  "'z amc_sys_scheme handler \<Rightarrow> nat \<Rightarrow> string \<Rightarrow> u64 \<Rightarrow> 'z amc_sys_scheme \<Rightarrow> 'z amc_sys_scheme res" where
  "task_inform_supervisor_process_write core c buf len s =
     ebind (current_task_block c s) (\<lambda>t.
     if \<not> t_is_managed_by_parent t then Inr s
     else ebind (getpid c s) (\<lambda>pid.
       if unat len > 128 then Inl OutOfBounds
       else inform_supervisor core c t (ProcessWrite (word_of_int pid) len (put_name (unat len) buf)) s))"

definition task_spawn_managed_with_args ::
  "core_env \<Rightarrow> 'z amc_sys_scheme handler \<Rightarrow> nat \<Rightarrow> string \<Rightarrow> u64 \<Rightarrow> u64 \<Rightarrow> u64 \<Rightarrow> u64 \<Rightarrow>
   'z amc_sys_scheme \<Rightarrow> 'z amc_sys_scheme res" where
  "task_spawn_managed_with_args env core c task_name entry_point arg1 arg2 arg3 s =
     (let task = ce_new_task env in
      ebind (task_spawn_entry_point_with_args c task (ce_new_stack env) (ce_new_vas env) task_name entry_point arg1 arg2 arg3 s) (\<lambda>s.
      ebind (upd_task task (t_is_managed_by_parent_update (\<lambda>_. True)) s) (\<lambda>s.
      ebind (amc_service_of_active_task c s) (\<lambda>parent.
      if parent = None then Inl (TaskAssert ''task_spawn__managed__with_args called without an AMC service'')
      else ebind (ebind (deref parent) (load (amc_heap s))) (\<lambda>psv.
           ebind (upd_task task (t_managing_parent_service_name_update (\<lambda>_. Some (sv_name psv))) s) (\<lambda>s.
           ebind (load (sys_tasks s) task) (\<lambda>t.
           ebind (task_inform_supervisor_process_create_with_task core c task (ucast (t_id t)) s)
             (task_make_schedulable task))))))))"

definition amc_core_file_server_exec_buffer ::
  "core_env \<Rightarrow> 'z amc_sys_scheme handler \<Rightarrow> nat \<Rightarrow> string \<Rightarrow> u8 list \<Rightarrow> 'z amc_sys_scheme \<Rightarrow> 'z amc_sys_scheme res" where
  "amc_core_file_server_exec_buffer env core c source_service buf s =
     ebind (kassert (name_eq source_service ''com.axle.file_server'' \<or> name_eq source_service ''com.axle.linker''
        \<or> name_eq source_service ''com.axle.ide'') ''Only certain services may use this syscall'') (\<lambda>_.
     ebind (get_le 8 buf 8) (\<lambda>program_name :: u64.
     ebind (get_le 1 buf 16) (\<lambda>with_supervisor :: u8.
     ebind (get_le 4 buf 32) (\<lambda>buffer_size :: u32.
     let name = ce_user_string env program_name in
     if with_supervisor \<noteq> 0
     then task_spawn_managed_with_args env core c name (ce_exec_trampoline env) (ce_name_copy env) (ce_buffer_copy env)
            (ucast buffer_size) s
     else task_spawn_with_args c (ce_new_task env) (ce_new_stack env) (ce_new_vas env) name (ce_exec_trampoline env)
            (ce_name_copy env) (ce_buffer_copy env) (ucast buffer_size) s))))"

subsection \<open>More handlers\<close>

definition amc_core_handle_profile_request :: "'z amc_sys_scheme \<Rightarrow> 'z amc_sys_scheme res" where
  "amc_core_handle_profile_request s = Inl (Panic ''Not implemented'')"

definition amc_core_handle_notify_service_died ::
  "string \<Rightarrow> u8 list \<Rightarrow> 'z amc_sys_scheme \<Rightarrow> 'z amc_sys_scheme res" where
  "amc_core_handle_notify_service_died source_service buf s =
     ebind (sending_service source_service s) (\<lambda>source.
     ebind (get_name 64 buf 4) (\<lambda>remote_service.
     ebind (amc_service_with_name remote_service s) (\<lambda>remote.
     case remote of
       None \<Rightarrow> Inr s
     | Some p \<Rightarrow>
         ebind (load (amc_heap s) p) (\<lambda>sv.
         ebind (array_m_insert (sv_notify sv) source) (\<lambda>a. upd_service p (sv_notify_update (\<lambda>_. a)) s)))))"

text \<open>
  The loop over the pool from its end, inside the pool's lock; \<^verbatim>\<open>array_m_lookup\<close> and
  \<^verbatim>\<open>array_m_remove\<close> acquire that lock again.
\<close>

fun flush_pool :: "string \<Rightarrow> string \<Rightarrow> nat \<Rightarrow> amc_message array_m \<Rightarrow> amc_message array_m res" where
  "flush_pool source_service remote_service 0 pool = Inr pool"
| "flush_pool source_service remote_service (Suc i) pool =
     ebind (ebind (array_m_lookup pool (int i)) deref) (\<lambda>msg.
     ebind (if name_eq (msg_source msg) source_service \<and> name_eq (msg_dest msg) remote_service
            then array_m_remove pool (int i) else Inr pool)
       (flush_pool source_service remote_service i))"

definition amc_core_flush_messages_from_service_to_service ::
  "string \<Rightarrow> u8 list \<Rightarrow> 'z amc_sys_scheme \<Rightarrow> 'z amc_sys_scheme res" where
  "amc_core_flush_messages_from_service_to_service source_service buf s =
     ebind (sending_service source_service s) (\<lambda>_.
     ebind (get_name 64 buf 4) (\<lambda>remote_service.
     ebind (amc_service_with_name remote_service s) (\<lambda>remote.
     if remote \<noteq> None then Inl (Panic ''Not implemented'')
     else if \<not> amc_up s then Inl NullDeref
     else ebind (am_acquire (amc_pool s)) (\<lambda>pool.
          ebind (flush_pool source_service remote_service (nat (am_size pool)) pool) (\<lambda>pool.
          Inr (s\<lparr>amc_pool := am_release pool\<rparr>))))))"

definition amc_shared_memory_create ::
  "core_env \<Rightarrow> 'z amc_sys_scheme handler \<Rightarrow> nat \<Rightarrow> string \<Rightarrow> u8 list \<Rightarrow> 'z amc_sys_scheme \<Rightarrow> 'z amc_sys_scheme res" where
  "amc_shared_memory_create env core c source_service buf s =
     ebind (sending_service source_service s) (\<lambda>source.
     ebind (get_name 64 buf 4) (\<lambda>remote_service_name.
     ebind (amc_service_with_name remote_service_name s) (\<lambda>remote.
     case remote of
       None \<Rightarrow> Inr s
     | Some r \<Rightarrow>
         ebind (get_le 4 buf 68) (\<lambda>buffer_size :: u32.
         ebind (ebind (load (amc_heap s) source) (\<lambda>sv. load (sys_tasks s) (sv_task sv))) (\<lambda>st.
         ebind (ebind (load (amc_heap s) r) (\<lambda>sv. load (sys_tasks s) (sv_task sv))) (\<lambda>rt.
         let local_vas_base = ce_alloc_range env (t_vas_state st) 0x7f0000000000 (ucast buffer_size);
             remote_vas_base = ce_copy_phys_mapping env (t_vas_state rt) (t_vas_state st) 0x7f0000000000 (ucast buffer_size)
               local_vas_base
         in reply core c source_service (put_le 4 (210 :: u32) @ pad 4 @ put_le 8 local_vas_base @ put_le 8 remote_vas_base) s))))))"

definition amc_query_service ::
  "'z amc_sys_scheme handler \<Rightarrow> nat \<Rightarrow> string \<Rightarrow> u8 list \<Rightarrow> 'z amc_sys_scheme \<Rightarrow> 'z amc_sys_scheme res" where
  "amc_query_service core c source_service buf s =
     ebind (sending_service source_service s) (\<lambda>_.
     ebind (get_name 64 buf 4) (\<lambda>remote_service_name.
     ebind (amc_service_with_name remote_service_name s) (\<lambda>remote.
     reply core c source_service
       (put_le 4 (211 :: u32) @ put_name 64 remote_service_name @ [if remote \<noteq> None then 1 else 0] @ pad 3) s)))"

definition amc_core_map_physical_range ::
  "core_env \<Rightarrow> 'z amc_sys_scheme handler \<Rightarrow> nat \<Rightarrow> string \<Rightarrow> u8 list \<Rightarrow> 'z amc_sys_scheme \<Rightarrow> 'z amc_sys_scheme res" where
  "amc_core_map_physical_range env core c source_service buf s =
     ebind (sending_service source_service s) (\<lambda>_.
     ebind (get_le 8 buf 8) (\<lambda>phys_base :: u64.
     ebind (get_le 8 buf 16) (\<lambda>range_size :: u64.
     reply core c source_service
       (put_le 4 (212 :: u32) @ pad 4 @ put_le 8 (ce_map_range env (active_vas c s) 0x7d0000000000 range_size phys_base)) s)))"

definition amc_core_alloc_physical_range ::
  "core_env \<Rightarrow> 'z amc_sys_scheme handler \<Rightarrow> nat \<Rightarrow> string \<Rightarrow> u8 list \<Rightarrow> 'z amc_sys_scheme \<Rightarrow> 'z amc_sys_scheme res" where
  "amc_core_alloc_physical_range env core c source_service buf s =
     ebind (sending_service source_service s) (\<lambda>_.
     ebind (get_le 8 buf 8) (\<lambda>wanted :: u64.
     let range_size = addr_space_page_ceil wanted;
         phys_base = ce_alloc_phys env range_size;
         virt_base = ce_map_range env (active_vas c s) 0x7d0000000000 range_size phys_base
     in reply core c source_service (put_le 4 (213 :: u32) @ pad 4 @ put_le 8 phys_base @ put_le 8 virt_base) s))"

definition amc_core_free_physical_range ::
  "'z amc_sys_scheme handler \<Rightarrow> nat \<Rightarrow> string \<Rightarrow> u8 list \<Rightarrow> 'z amc_sys_scheme \<Rightarrow> 'z amc_sys_scheme res" where
  "amc_core_free_physical_range core c source_service buf s =
     ebind (sending_service source_service s) (\<lambda>_.
     ebind (get_le 8 buf 8) (\<lambda>vaddr :: u64.
     ebind (get_le 8 buf 16) (\<lambda>range_size :: u64.
     reply core c source_service (put_le 4 (214 :: u32)) s)))"

definition amc_core_grant_pml1_entry ::
  "core_env \<Rightarrow> 'z amc_sys_scheme handler \<Rightarrow> nat \<Rightarrow> string \<Rightarrow> 'z amc_sys_scheme \<Rightarrow> 'z amc_sys_scheme res" where
  "amc_core_grant_pml1_entry env core c source_service s =
     ebind (amc_service_with_name source_service s) (\<lambda>_.
     let (pt_virt_base, pt_phys_base, mapped_memory_virt_base, uninteresting_page_phys) = ce_pml1_mapping env
     in reply core c source_service
          (put_le 4 (666 :: u32) @ pad 4 @ put_le 8 pt_virt_base @ put_le 8 pt_phys_base @ put_le 8 mapped_memory_virt_base @
           put_le 8 uninteresting_page_phys) s)"

definition amc_core_send_task_info ::
  "core_env \<Rightarrow> 'z amc_sys_scheme handler \<Rightarrow> nat \<Rightarrow> string \<Rightarrow> 'z amc_sys_scheme \<Rightarrow> 'z amc_sys_scheme res" where
  "amc_core_send_task_info env core c source_service s = reply core c source_service (ce_task_info env) s"

text \<open>The dispatch on the first word of the message.\<close>

fun amc_core_handle_message ::
  "nat \<Rightarrow> core_env \<Rightarrow> nat \<Rightarrow> string \<Rightarrow> u8 list \<Rightarrow> 'z amc_sys_scheme \<Rightarrow> 'z amc_sys_scheme res" where
  "amc_core_handle_message 0 env c source_service buf s = Inl (Panic ''kernel stack overflow'')"
| "amc_core_handle_message (Suc n) env c source_service buf s =
     (let core = amc_core_handle_message n env c in
      ebind (get_le 4 buf 0) (\<lambda>event :: u32.
      if event = 200 then amc_core_copy_amc_services core c source_service s
      else if event = 201 then amc_core_awm_map_framebuffer env core c source_service s
      else if event = 202 then ebind (get_le 4 buf 4) (\<lambda>ms. amc_core_put_service_to_sleep c source_service ms False s)
      else if event = 207 then ebind (get_le 4 buf 4) (\<lambda>ms. amc_core_put_service_to_sleep c source_service ms True s)
      else if event = 203 then amc_core_file_server_map_initrd env core c source_service s
      else if event = 204 then amc_core_file_server_exec_buffer env core c source_service buf s
      else if event = 205 then Inl (Panic ''shmem destroy amccmd'')
      else if event = 206 then amc_core_handle_profile_request s
      else if event = 208 then amc_core_handle_notify_service_died source_service buf s
      else if event = 209 then amc_core_flush_messages_from_service_to_service source_service buf s
      else if event = 210 then amc_shared_memory_create env core c source_service buf s
      else if event = 211 then amc_query_service core c source_service buf s
      else if event = 212 then amc_core_map_physical_range env core c source_service buf s
      else if event = 213 then amc_core_alloc_physical_range env core c source_service buf s
      else if event = 214 then amc_core_free_physical_range core c source_service buf s
      else if event = 666 then amc_core_grant_pml1_entry env core c source_service s
      else if event = 777 then amc_core_send_task_info env core c source_service s
      else Inl (Panic ''Unknown message to core'')))"

subsection \<open>The end of a task\<close>

text \<open>
  \<^verbatim>\<open>task_die\<close> up to where it hands the CPU over: the supervisor and the reaper are told, then the
  task becomes a zombie and another task is switched to.
\<close>

definition task_die :: "'z amc_sys_scheme handler \<Rightarrow> nat \<Rightarrow> u64 \<Rightarrow> 'z amc_sys_scheme \<Rightarrow> 'z amc_sys_scheme res" where
  "task_die core c exit_code s =
     ebind (task_inform_supervisor_process_exit core c exit_code s) (\<lambda>s.
     ebind (ebind (tasking_get_current_task c s) deref) (\<lambda>current_task.
     ebind (load (sys_tasks s) current_task) (\<lambda>_.
     ebind (reply core c ''com.axle.reaper'' (put_le 8 (of_nat current_task :: u64)) s) (\<lambda>s.
     ebind (ebind (tasking_get_current_task c s) deref) (\<lambda>t.
     ebind (upd_task t (t_status_update (\<lambda>_. ZOMBIE)) s) (task_switch_without_transitioning c))))))"

definition thread_destroy ::
  "'z amc_sys_scheme handler \<Rightarrow> nat \<Rightarrow> task_ptr \<Rightarrow> 'z amc_sys_scheme \<Rightarrow> 'z amc_sys_scheme res" where
  "thread_destroy core c thread s =
     ebind (task_remove_from_scheduler thread s) (\<lambda>s.
     ebind (load (sys_tasks s) thread) (\<lambda>t.
     ebind (if \<not> t_is_thread t then amc_teardown_service_for_task core c thread s else Inr s) (\<lambda>s.
     Inr (s\<lparr>sys_tasks := (sys_tasks s)(thread := None)\<rparr>))))"

text \<open>What the reaper does with one message.\<close>

definition reaper_handle ::
  "'z amc_sys_scheme handler \<Rightarrow> nat \<Rightarrow> amc_message \<Rightarrow> 'z amc_sys_scheme \<Rightarrow> 'z amc_sys_scheme res" where
  "reaper_handle core c msg s =
     (if \<not> name_eq (msg_source msg) AXLE_CORE_SERVICE_NAME then Inr s
      else ebind (get_le 8 (msg_body msg) 0) (\<lambda>zombie :: u64.
           ebind (load (sys_tasks s) (unat zombie)) (\<lambda>t.
           ebind (kassert (t_status t = ZOMBIE) ''Status was not zombie'') (\<lambda>_.
           thread_destroy core c (unat zombie) s))))"

subsection \<open>Replies\<close>

lemma reply_accepting:
  assumes "amc_wf s" and "accepts s src p" and "sleeper_ok s p" and "length body < AMC_MAX_MESSAGE_SIZE"
    and "src \<noteq> AXLE_CORE_SERVICE_NAME"
  shows "\<exists>s'. reply core c src body s = Inr s' \<and> amc_wf s' \<and> svcs s' = svcs s \<and> amc_heap s' = amc_heap s
    \<and> queues s' = queues s \<and> ts_all_tasks s' = ts_all_tasks s \<and> dom (sys_tasks s') = dom (sys_tasks s)
    \<and> (\<forall>q. inbox s' q = inbox s q @ (if q = p
         then [\<lparr>msg_source = AXLE_CORE_SERVICE_NAME, msg_dest = src, msg_body = body\<rparr>] else []))"
proof -
  have p: "p \<in> set (svcs s)" using assms(2) by (simp add: accepts_def)
  have core: "take 64 AXLE_CORE_SERVICE_NAME = AXLE_CORE_SERVICE_NAME" by (simp add: AXLE_CORE_SERVICE_NAME_def)
  let ?m = "\<lparr>msg_source = AXLE_CORE_SERVICE_NAME, msg_dest = src, msg_body = body\<rparr>"
  obtain s' where s': "amc_message_add_to_delivery_queue c p ?m s = Inr s'"
    using deliver_ok [of s p c ?m] assms(1,3) p by (auto simp: is_ok_iff amc_wf_def)
  have "reply core c src body s = Inr s'"
    using send_to_accepting [OF assms(1,2,4,5), of core c AXLE_CORE_SERVICE_NAME] s'
    by (simp add: reply_def amc_message_send_from_core_def core)
  then show ?thesis using deliver_wf [OF s' assms(1) p] by auto
qed

lemma sending_service_ok: "amc_wf s \<Longrightarrow> p \<in> set (svcs s) \<Longrightarrow> sending_service (sv_name (svc s p)) s = Inr p"
  by (simp add: sending_service_def with_name_found)

text \<open>
  A service that asks the kernel whether a name is registered gets exactly one answer, from the
  kernel, that names the service asked for and says whether it is registered; other inboxes do not
  change.
\<close>

lemma query_service_answers:
  assumes "amc_wf s" and "accepts s src p" and "sleeper_ok s p" and "src \<noteq> AXLE_CORE_SERVICE_NAME"
    and "no_nul remote" and "length remote < 64"
  shows "\<exists>s' m. amc_core_handle_message (Suc n) env c src (put_le 4 (211 :: u32) @ put_name 64 remote) s = Inr s' \<and> amc_wf s'
    \<and> (\<forall>q. inbox s' q = inbox s q @ (if q = p then [m] else []))
    \<and> msg_source m = AXLE_CORE_SERVICE_NAME \<and> get_name 64 (msg_body m) 4 = Inr remote
    \<and> get_le 1 (msg_body m) 68 = Inr (if \<exists>q \<in> set (svcs s). sv_name (svc s q) = remote then 1 else 0 :: u8)"
proof -
  have p: "p \<in> set (svcs s)" "sv_name (svc s p) = src" using assms(2) by (auto simp: accepts_def)
  let ?buf = "put_le 4 (211 :: u32) @ put_name 64 remote"
  have ev: "get_le 4 ?buf 0 = Inr (211 :: u32)" using get_le_put [of 4 "[]" "211 :: u32"] by simp
  have nm: "get_name 64 ?buf 4 = Inr remote"
    using get_name_put [OF assms(5), of 64 "put_le 4 (211 :: u32)" "[]"] assms(6) by simp
  obtain r where r: "amc_service_with_name remote s = Inr r"
    and known: "r \<noteq> None \<longleftrightarrow> (\<exists>q \<in> set (svcs s). sv_name (svc s q) = remote)"
    by (rule with_name_cases [OF assms(1), of remote]) auto
  define flag where "flag = (if r \<noteq> None then 1 else 0 :: u8)"
  define body where "body = put_le 4 (211 :: u32) @ put_name 64 remote @ [flag] @ pad 3"
  have "length body < AMC_MAX_MESSAGE_SIZE" by (simp add: body_def pad_def AMC_MAX_MESSAGE_SIZE_def)
  then obtain s' where s': "reply (amc_core_handle_message n env c) c src body s = Inr s'" "amc_wf s'"
    "\<forall>q. inbox s' q = inbox s q @ (if q = p then [\<lparr>msg_source = AXLE_CORE_SERVICE_NAME, msg_dest = src, msg_body = body\<rparr>] else [])"
    using reply_accepting [OF assms(1-3) _ assms(4)] by blast
  have run: "amc_core_handle_message (Suc n) env c src ?buf s = Inr s'"
    using ev nm r s'(1) sending_service_ok [OF assms(1) p(1)] p(2)
    by (simp add: amc_query_service_def body_def flag_def)
  have name: "get_name 64 body 4 = Inr remote"
    using get_name_put [OF assms(5), of 64 "put_le 4 (211 :: u32)" "[flag] @ pad 3"] assms(6) by (simp add: body_def)
  have "[flag] = put_le 1 flag" by (simp add: put_le_def)
  then have "get_le 1 body 68 = Inr flag"
    using get_le_put [of 1 "put_le 4 (211 :: u32) @ put_name 64 remote" flag "pad 3"] by (simp add: body_def)
  then show ?thesis using run s' name known by (auto simp: flag_def)
qed

text \<open>
  Asking the kernel to flush the undelivered messages to a service that is not registered never
  returns when any undelivered message exists: the handler holds the pool's lock and looks the
  messages up with the locking accessor.
\<close>

lemma flush_messages_deadlocks:
  assumes "amc_wf s" and "p \<in> set (svcs s)" and "no_nul remote" and "length remote < 64"
    and "\<forall>q \<in> set (svcs s). sv_name (svc s q) \<noteq> remote" and "am_list (amc_pool s) \<noteq> []"
  shows "amc_core_handle_message (Suc n) env c (sv_name (svc s p)) (put_le 4 (209 :: u32) @ put_name 64 remote) s = Inl Deadlock"
proof -
  let ?buf = "put_le 4 (209 :: u32) @ put_name 64 remote"
  have ev: "get_le 4 ?buf 0 = Inr (209 :: u32)" using get_le_put [of 4 "[]" "209 :: u32"] by simp
  have nm: "get_name 64 ?buf 4 = Inr remote"
    using get_name_put [OF assms(3), of 64 "put_le 4 (209 :: u32)" "[]"] assms(4) by simp
  let ?pool = "(amc_pool s)\<lparr>am_lock := True\<rparr>"
  have pool: "am_ok (amc_pool s)" "amc_up s" using assms(1) by (simp_all add: amc_wf_def)
  then have acq: "am_acquire (amc_pool s) = Inr ?pool" by (simp add: am_acquire_def am_ok_def)
  have "am_size (amc_pool s) = int (length (am_list (amc_pool s)))" using am_wf_size pool(1) by (auto simp: am_ok_def)
  then obtain k where k: "nat (am_size ?pool) = Suc k" using assms(6) by (cases "length (am_list (amc_pool s))") auto
  have "flush_pool (sv_name (svc s p)) remote (Suc k) ?pool = Inl Deadlock"
    by (simp add: array_m_lookup_def am_acquire_def)
  then show ?thesis
    using ev nm acq k pool(2) sending_service_ok [OF assms(1,2)] with_name_none [OF assms(1,5)]
    by (simp add: amc_core_flush_messages_from_service_to_service_def)
qed

text \<open>
  A service that asks to sleep is appended to the sleep list with its wake time set to now plus
  the wanted milliseconds (as 32-bit numbers), its task is blocked for the timestamp, and for a
  message too if it asked for that; it becomes due exactly when the clock reaches that time, and only
  if the task is current does the CPU switch away.
\<close>

lemma sleep_request_enters_sleep_list:
  fixes ms :: u32
  assumes "amc_wf s" and "p \<in> set (svcs s)" and "length (am_list (amc_asleep s)) < 64" and "t = sv_task (svc s p)"
    and "sys_tasks s t = Some tcb" and "Suc (length (am_list (amc_asleep s))) < 64"
  shows "\<exists>s1. amc_core_handle_message (Suc n) env c (sv_name (svc s p))
        (put_le 4 (if on_message then 207 else 202 :: u32) @ put_le 4 ms) s =
          (if Some t = cpu_current_task c s then task_switch c s1 else Inr s1)
    \<and> amc_wf s1 \<and> am_list (amc_asleep s1) = am_list (amc_asleep s) @ [p] \<and> inbox s1 = inbox s
    \<and> sys_tasks s1 t = Some (tcb\<lparr>t_wake_timestamp := ucast (sys_now s) + ms,
        t_status := (if on_message then AMC_AWAIT_TIMESTAMP OR AMC_AWAIT_MESSAGE else AMC_AWAIT_TIMESTAMP)\<rparr>)
    \<and> sleeper_ok s1 p \<and> (\<forall>now. due now s1 p \<longleftrightarrow> ucast (sys_now s) + ms \<le> now)"
proof -
  let ?ev = "if on_message then 207 else 202 :: u32"
  let ?buf = "put_le 4 ?ev @ put_le 4 ms"
  let ?st = "if on_message then AMC_AWAIT_TIMESTAMP OR AMC_AWAIT_MESSAGE else AMC_AWAIT_TIMESTAMP"
  have ev: "get_le 4 ?buf 0 = Inr ?ev" using get_le_put [of 4 "[]" ?ev "put_le 4 ms"] by simp
  have arg: "get_le 4 ?buf 4 = Inr ms" using get_le_put [of 4 "put_le 4 ?ev" ms "[]"] by simp
  have heap: "amc_heap s p = Some (svc s p)" using amc_wf_services [OF assms(1)] assms(2) by auto
  obtain a where a: "array_m_insert (amc_asleep s) p = Inr a" "am_ok a" "am_list a = am_list (amc_asleep s) @ [p]" "am_cap a = 64"
    using am.ins_ok [of "amc_asleep s" p] assms(1,3) by (auto simp: amc_wf_def)
  define tcb' where "tcb' = tcb\<lparr>t_wake_timestamp := ucast (sys_now s) + ms, t_status := ?st\<rparr>"
  define s1 where "s1 = s\<lparr>amc_asleep := a, sys_tasks := (sys_tasks s)(t \<mapsto> tcb')\<rparr>"
  have blk: "tasking_block_task c t ?st (s\<lparr>sys_tasks := (sys_tasks s)(t \<mapsto> tcb\<lparr>t_wake_timestamp := ucast (sys_now s) + ms\<rparr>), amc_asleep := a\<rparr>)
      = (if Some t = cpu_current_task c s then task_switch c s1 else Inr s1)"
    by (simp add: tasking_block_task_def upd_task_def s1_def tcb'_def cpu_current_task_def task_state_defs)
  have "amc_core_put_service_to_sleep c (sv_name (svc s p)) ms on_message s =
      (if Some t = cpu_current_task c s then task_switch c s1 else Inr s1)"
    using with_name_found [OF assms(1,2)] heap assms(4,5) a(1) blk
    by (simp add: amc_core_put_service_to_sleep_def upd_task_ok Let_def)
  then have run: "amc_core_handle_message (Suc n) env c (sv_name (svc s p)) ?buf s =
      (if Some t = cpu_current_task c s then task_switch c s1 else Inr s1)"
    using ev arg by (cases on_message) simp_all
  have s1t: "sys_tasks s1 t = Some tcb'" "svc s1 p = svc s p" "inbox s1 = inbox s" "am_list (amc_asleep s1) = am_list (amc_asleep s) @ [p]"
    using a(3) by (simp_all add: s1_def inbox_def fun_eq_iff)
  have wf: "amc_wf s1" by (rule amc_wf_frame [OF assms(1)]) (use a assms(1,5) in \<open>auto simp: s1_def amc_wf_def\<close>)
  then have "am_cap (amc_asleep s1) = 64" by (simp add: amc_wf_def)
  then have "sleeper_ok s1 p" using s1t assms(6) by (simp add: sleeper_ok_def)
  moreover have "\<forall>now. due now s1 p \<longleftrightarrow> ucast (sys_now s) + ms \<le> now"
    using s1t assms(4) by (simp add: due_def tcb'_def)
  ultimately show ?thesis using run wf s1t by (intro exI [of _ s1]) (simp add: tcb'_def)
qed

subsection \<open>The end of a task\<close>

lemma remove_from_scheduler_effect:
  fixes s :: "'z amc_sys_scheme"
  assumes "mlfq_wf s" and "\<And>i. i < 4 \<Longrightarrow> length (levels s ! i) < 128"
  shows "\<exists>qs. task_remove_from_scheduler t s = Inr (s\<lparr>queues := qs, ts_all_tasks := filter (\<lambda>u. u \<noteq> t) (ts_all_tasks s)\<rparr>)
    \<and> mset (sched_tasks (s\<lparr>queues := qs\<rparr>)) = mset (sched_tasks s) - {#t#}"
proof -
  obtain s1 where s1: "mlfq_delete_task t s = Inr s1" using delete_ok [OF assms] by (auto simp: is_ok_iff)
  note d = delete_refines [OF assms(1) s1]
  then have eq: "s1 = s\<lparr>queues := queues s1\<rparr>" by (simp add: only_queues_def)
  have "mset (sched_tasks s1) = mset (sched_tasks s) - {#t#}"
    using d tasks_of_spec_delete [of t "levels s"] by (simp add: sched_tasks_mset)
  moreover have "sched_tasks (s\<lparr>queues := queues s1\<rparr>) = sched_tasks s1" by (rule sched_tasks_queues) simp
  moreover have "task_remove_from_scheduler t s = Inr (s1\<lparr>ts_all_tasks := filter (\<lambda>u. u \<noteq> t) (ts_all_tasks s1)\<rparr>)"
    using s1 by (simp add: task_remove_from_scheduler_def scheduler_drop_task_def)
  ultimately show ?thesis by (intro exI [of _ "queues s1"]) (subst (asm) (3) eq, subst (asm) (3) eq, simp)
qed

lemma amc_wf_free_task:
  assumes "amc_wf s" and "\<forall>p \<in> set (svcs s). sv_task (svc s p) \<noteq> t"
  shows "amc_wf (s\<lparr>sys_tasks := (sys_tasks s)(t := None)\<rparr>)"
  using assms by (auto simp: amc_wf_def svc_ok_def)

text \<open>
  C15. When the reaper is told by the kernel of a zombie, every trace of the task is removed: it is in
  no scheduler queue and not in the task list, the other tasks stay scheduled, its service is
  unregistered and its name is free again, its control block is freed, and every registered service
  still has a live task.
\<close>

theorem reaped_task_leaves_no_trace:
  fixes s :: "'z amc_sys_scheme"
  assumes "mlfq_wf s" and "\<And>i. i < 4 \<Longrightarrow> length (levels s ! i) < 128" and "distinct (sched_tasks s)"
    and "amc_wf s" and "p \<in> set (svcs s)" and "length (svcs s) < 256" and "t = sv_task (svc s p)" and "t < 2 ^ 64"
    and "sys_tasks s t = Some tcb" and "t_status tcb = ZOMBIE" and "\<not> t_is_thread tcb"
    and "am_ok (sv_message_queue (svc s p))" "am_list (sv_message_queue (svc s p)) = []" "am_size (sv_shmem_regions (svc s p)) = 0"
    and "am_ok (sv_notify (svc s p))" "am_list (sv_notify (svc s p)) = ls" "distinct ls"
    and "\<forall>q \<in> set ls. q \<in> set (svcs s) - {p} \<and> sleeper_ok s q \<and> sv_delivery_enabled (svc s q)
      \<and> sv_name (svc s q) \<noteq> AXLE_CORE_SERVICE_NAME"
    and "msg_source m = AXLE_CORE_SERVICE_NAME" and "msg_body m = put_le 8 (of_nat t :: u64)"
  shows "\<exists>s'. reaper_handle core c m s = Inr s' \<and> t \<notin> dom (sys_tasks s') \<and> t \<notin> set (sched_tasks s')
    \<and> t \<notin> set (ts_all_tasks s') \<and> mset (sched_tasks s') = mset (sched_tasks s) - {#t#}
    \<and> amc_wf s' \<and> svcs s' = remove1 p (svcs s) \<and> amc_service_with_name (sv_name (svc s p)) s' = Inr None"
proof -
  obtain qs where rm: "task_remove_from_scheduler t s = Inr (s\<lparr>queues := qs, ts_all_tasks := filter (\<lambda>u. u \<noteq> t) (ts_all_tasks s)\<rparr>)"
    and ms: "mset (sched_tasks (s\<lparr>queues := qs\<rparr>)) = mset (sched_tasks s) - {#t#}"
    using remove_from_scheduler_effect [OF assms(1,2), of t] by blast
  define s1 where "s1 = s\<lparr>queues := qs, ts_all_tasks := filter (\<lambda>u. u \<noteq> t) (ts_all_tasks s)\<rparr>"
  have same: "amc_heap s1 = amc_heap s" "svcs s1 = svcs s" "sys_tasks s1 = sys_tasks s" by (simp_all add: s1_def)
  have wf1: "amc_wf s1" by (rule amc_wf_frame [OF assms(4)]) (use assms(4) in \<open>simp_all add: s1_def amc_wf_def\<close>)
  have ls1: "\<forall>q \<in> set ls. q \<in> set (svcs s1) - {p} \<and> sleeper_ok s1 q \<and> sv_delivery_enabled (svc s1 q) \<and> sv_name (svc s1 q) \<noteq> AXLE_CORE_SERVICE_NAME"
    using assms(18) by (simp add: s1_def sleeper_ok_def)
  obtain s2 where s2: "amc_teardown_service_for_task core c t s1 = Inr s2" "amc_wf s2" "svcs s2 = remove1 p (svcs s)"
    "amc_heap s2 = (amc_heap s)(p := None)" "queues s2 = qs" "ts_all_tasks s2 = filter (\<lambda>u. u \<noteq> t) (ts_all_tasks s)"
    "amc_service_with_name (sv_name (svc s p)) s2 = Inr None" "dom (sys_tasks s2) = dom (sys_tasks s)"
    using teardown_effect [OF wf1, of p ls core c] assms(5-7,12-17) ls1 unfolding same
    by (auto simp: s1_def)
  let ?s' = "s2\<lparr>sys_tasks := (sys_tasks s2)(t := None)\<rparr>"
  have zombie: "get_le 8 (msg_body m) 0 = Inr (of_nat t :: u64)" "unat (of_nat t :: u64) = t"
    using get_le_put [of 8 "[]" "of_nat t :: u64" "[]"] assms(8,20) by (simp_all add: unat_of_nat)
  have run: "reaper_handle core c m s = Inr ?s'"
    using zombie rm s2(1) assms(9-11,19) by (simp add: reaper_handle_def thread_destroy_def s1_def)
  have others: "\<forall>q \<in> set (svcs s2). sv_task (svc s2 q) \<noteq> t"
  proof
    fix q assume "q \<in> set (svcs s2)"
    then have q: "q \<in> set (svcs s)" "q \<noteq> p" using s2(3) assms(4) by (auto simp: amc_wf_def)
    then show "sv_task (svc s2 q) \<noteq> t" using amc_wf_task_unique [OF assms(4) q(1) assms(5)] s2(4) assms(7) by auto
  qed
  have wf': "amc_wf ?s'" by (rule amc_wf_free_task [OF s2(2) others])
  have free: "\<forall>q \<in> set (svcs ?s'). sv_name (svc ?s' q) \<noteq> sv_name (svc s p)"
    using with_name_dest [OF s2(2,7)] by simp
  have sched: "sched_tasks ?s' = sched_tasks (s\<lparr>queues := qs\<rparr>)" by (rule sched_tasks_queues) (simp add: s2(5))
  have "t \<notin># mset (sched_tasks s) - {#t#}" using assms(3) by (simp add: in_diff_count distinct_count_atmost_1)
  then have "t \<notin> set (sched_tasks ?s')" using ms sched by (metis set_mset_mset)
  then show ?thesis
    using run wf' s2(3,6) sched ms with_name_none [OF wf' free] by (intro exI [of _ ?s']) simp
qed

subsection \<open>A concrete system\<close>

definition demo_env :: core_env where
  "demo_env = \<lparr>ce_map_range = (\<lambda>_ base _ _. base), ce_alloc_range = (\<lambda>_ base _. base),
     ce_copy_phys_mapping = (\<lambda>_ _ base _ _. base), ce_alloc_phys = (\<lambda>_. 0x100000),
     ce_framebuffer = (0, 0, 0, 0, 0, 0, 0), ce_initrd_start = 0, ce_initrd_size = 0, ce_user_string = (\<lambda>_. ''prog''),
     ce_name_copy = 0, ce_buffer_copy = 0, ce_exec_trampoline = 0, ce_new_task = 50, ce_new_stack = 0, ce_new_vas = 1,
     ce_task_info = [], ce_pml1_mapping = (0, 0, 0, 0)\<rparr>"

lemma no_nul_c [simp]: "no_nul ''c''"
  by (simp add: no_nul_def)

definition demo_zombie :: amc_sys where
  "demo_zombie = demo_amc\<lparr>sys_tasks := (sys_tasks demo_amc)(4 \<mapsto> demo_task 4 ZOMBIE False)\<rparr>"

theorem reaped_task_leaves_no_trace_witness:
  "\<exists>s'. reaper_handle (\<lambda>_ _ _. Inl NullDeref) 2 \<lparr>msg_source = AXLE_CORE_SERVICE_NAME, msg_dest = ''com.axle.reaper'',
       msg_body = put_le 8 (4 :: u64)\<rparr> demo_zombie = Inr s' \<and> 4 \<notin> dom (sys_tasks s') \<and> svcs s' = [101]"
proof -
  have wf: "amc_wf demo_zombie"
    by (rule amc_wf_frame [OF demo_amc_wf]) (use demo_amc_wf in \<open>auto simp: demo_zombie_def amc_wf_def\<close>)
  have q: "queues demo_zombie = demo_queues demo_levels" by (simp add: demo_zombie_def demo_amc_def)
  have mq: "mlfq_wf demo_zombie" "levels demo_zombie = demo_levels"
    by (rule demo_queues_ok [OF q]; simp add: demo_levels_def)+
  have len: "length (levels demo_zombie ! i) < 128" if "i < 4" for i
    using that unfolding mq(2) by (auto simp: demo_levels_def nth_Cons split: nat.split)
  have dist: "distinct (sched_tasks demo_zombie)" unfolding sched_tasks_def mq(2) by (simp add: demo_levels_def)
  have svcs: "svcs demo_zombie = [100, 101]" "svc demo_zombie p = svc demo_amc p" for p by (simp_all add: demo_zombie_def)
  have sl: "sleeper_ok demo_zombie 101" using demo_amc_sleepers by (simp add: demo_zombie_def sleeper_ok_def)
  let ?m = "\<lparr>msg_source = AXLE_CORE_SERVICE_NAME, msg_dest = ''com.axle.reaper'', msg_body = put_le 8 (4 :: u64)\<rparr>"
  have task: "sys_tasks demo_zombie 4 = Some (demo_task 4 ZOMBIE False)" by (simp add: demo_zombie_def)
  have "\<exists>s'. reaper_handle (\<lambda>_ _ _. Inl NullDeref) 2 ?m demo_zombie = Inr s' \<and> 4 \<notin> dom (sys_tasks s') \<and> 4 \<notin> set (sched_tasks s')
    \<and> 4 \<notin> set (ts_all_tasks s') \<and> mset (sched_tasks s') = mset (sched_tasks demo_zombie) - {#4#}
    \<and> amc_wf s' \<and> svcs s' = remove1 100 (svcs demo_zombie) \<and> amc_service_with_name (sv_name (svc demo_zombie 100)) s' = Inr None"
    by (rule reaped_task_leaves_no_trace [OF mq(1) len dist wf _ _ _ _ task, where ls = "[101]"])
      (simp_all add: svcs sl AXLE_CORE_SERVICE_NAME_def demo_task_def zero_task_def)
  then show ?thesis by (auto simp: svcs)
qed

end
