(* ===== verification/C_Memory.thy ===== *)
theory C_Memory
  imports Prelude
begin

text \<open>
  The kernel's block operations (\<^verbatim>\<open>kernel/std/memory.c\<close>) on a memory that maps addresses to bytes.
  Sizes and addresses are numbers, with the truncation to 32 bits where the code stores a count in a
  \<^verbatim>\<open>uint32_t\<close>. The string instructions \<^verbatim>\<open>rep movsb\<close> and \<^verbatim>\<open>rep movsl\<close> copy bytes and 32-bit words
  upwards. The reference for a copy is \<open>copied\<close>: the destination holds what the source held before.
\<close>

type_synonym mem = "nat \<Rightarrow> u8"

subsection \<open>Comparing and filling\<close>

fun memcmp_from :: "mem \<Rightarrow> nat \<Rightarrow> nat \<Rightarrow> nat \<Rightarrow> int" where
  "memcmp_from m a b 0 = 0"
| "memcmp_from m a b (Suc n) =
     (if m a < m b then -1
      else if m b > m a then 1
      else memcmp_from m (a + 1) (b + 1) n)"

definition memcmp :: "mem \<Rightarrow> nat \<Rightarrow> nat \<Rightarrow> nat \<Rightarrow> int" where
  "memcmp m aptr bptr count = memcmp_from m aptr bptr count"

definition read32 :: "mem \<Rightarrow> nat \<Rightarrow> u32" where
  "read32 m p = ucast (m p) OR push_bit 8 (ucast (m (p + 1))) OR push_bit 16 (ucast (m (p + 2)))
     OR push_bit 24 (ucast (m (p + 3)))"

definition write32 :: "nat \<Rightarrow> u32 \<Rightarrow> mem \<Rightarrow> mem" where
  "write32 p w m = m(p := ucast w, p + 1 := ucast (drop_bit 8 w), p + 2 := ucast (drop_bit 16 w),
     p + 3 := ucast (drop_bit 24 w))"

fun set_dwords :: "nat \<Rightarrow> nat \<Rightarrow> u32 \<Rightarrow> mem \<Rightarrow> mem" where
  "set_dwords 0 dest32 val32 m = m"
| "set_dwords (Suc n) dest32 val32 m = set_dwords n (dest32 + 4) val32 (write32 dest32 val32 m)"

fun set_bytes :: "nat \<Rightarrow> nat \<Rightarrow> u8 \<Rightarrow> mem \<Rightarrow> mem" where
  "set_bytes 0 dest8 val8 m = m"
| "set_bytes (Suc n) dest8 val8 m = set_bytes n (dest8 + 1) val8 (m(dest8 := val8))"

definition memset :: "nat \<Rightarrow> u32 \<Rightarrow> nat \<Rightarrow> mem \<Rightarrow> mem" where
  "memset bufptr value count m =
     (let num_dwords = (count div 4) mod 2 ^ 32;
          num_bytes = count mod 4;
          val32 = value OR push_bit 8 value OR push_bit 16 value OR push_bit 24 value
      in set_bytes num_bytes (bufptr + num_dwords * 4 mod 2 ^ 32) (ucast value) (set_dwords num_dwords bufptr val32 m))"

fun add_dwords :: "nat \<Rightarrow> nat \<Rightarrow> nat \<Rightarrow> mem \<Rightarrow> mem" where
  "add_dwords 0 dest32 src32 m = m"
| "add_dwords (Suc n) dest32 src32 m =
     add_dwords n (dest32 + 4) (src32 + 4) (write32 dest32 (read32 m dest32 + read32 m src32) m)"

fun add_bytes :: "nat \<Rightarrow> nat \<Rightarrow> nat \<Rightarrow> mem \<Rightarrow> mem" where
  "add_bytes 0 dest8 src8 m = m"
| "add_bytes (Suc n) dest8 src8 m = add_bytes n (dest8 + 1) (src8 + 1) (m(dest8 := m dest8 + m src8))"

definition memadd :: "nat \<Rightarrow> nat \<Rightarrow> nat \<Rightarrow> mem \<Rightarrow> mem" where
  "memadd dstptr srcptr count m =
     (let num_dwords = (count div 4) mod 2 ^ 32; num_bytes = count mod 4
      in add_bytes num_bytes (dstptr + num_dwords * 4 mod 2 ^ 32) (srcptr + num_dwords * 4 mod 2 ^ 32)
           (add_dwords num_dwords dstptr srcptr m))"

subsection \<open>Copying\<close>

fun rep_movsb :: "nat \<Rightarrow> nat \<Rightarrow> nat \<Rightarrow> mem \<Rightarrow> mem" where
  "rep_movsb 0 di si m = m"
| "rep_movsb (Suc cx) di si m = rep_movsb cx (di + 1) (si + 1) (m(di := m si))"

fun rep_movsl :: "nat \<Rightarrow> nat \<Rightarrow> nat \<Rightarrow> mem \<Rightarrow> mem" where
  "rep_movsl 0 di si m = m"
| "rep_movsl (Suc cx) di si m =
     rep_movsl cx (di + 4) (si + 4) (m(di := m si, di + 1 := m (si + 1), di + 2 := m (si + 2), di + 3 := m (si + 3)))"

definition align_offset :: "nat \<Rightarrow> nat" where
  "align_offset p1 = (8 - p1 mod 8) mod 8"

definition memcpy :: "nat \<Rightarrow> nat \<Rightarrow> nat \<Rightarrow> mem \<Rightarrow> mem" where
  "memcpy s1 s2 n m =
     (if n = 0 then m
      else if n \<le> 8 then rep_movsb n s1 s2 m
      else
        let offset = align_offset s1;
            n' = n - offset;
            m = rep_movsb offset s1 s2 m;
            m = rep_movsl (n' div 4) (s1 + offset) (s2 + offset) m;
            moved = offset + 4 * (n' div 4)
        in rep_movsb (n' mod 8) (s1 + moved) (s2 + moved) m)"

fun copy_down :: "nat \<Rightarrow> nat \<Rightarrow> nat \<Rightarrow> mem \<Rightarrow> mem" where
  "copy_down 0 dst src m = m"
| "copy_down (Suc i) dst src m = copy_down i dst src (m(dst + i := m (src + i)))"

text \<open>\<^verbatim>\<open>(int)count\<close>, the length narrowed to a signed 32-bit integer.\<close>

definition c_int :: "nat \<Rightarrow> int" where
  "c_int n = (let k = n mod 2 ^ 32 in if k < 2 ^ 31 then int k else int k - 2 ^ 32)"

definition memmove :: "nat \<Rightarrow> nat \<Rightarrow> nat \<Rightarrow> mem \<Rightarrow> mem" where
  "memmove dst src count m =
     (if src = dst \<or> count = 0 then m
      else if dst > src \<and> int (dst - src) < c_int count then copy_down (nat (c_int count)) dst src m
      else if src > dst \<and> int (src - dst) < c_int count then rep_movsb count dst src m
      else memcpy dst src count m)"

subsection \<open>The reference copy\<close>

definition copied :: "nat \<Rightarrow> nat \<Rightarrow> nat \<Rightarrow> mem \<Rightarrow> mem" where
  "copied dst src n m = (\<lambda>a. if dst \<le> a \<and> a < dst + n then m (src + (a - dst)) else m a)"

definition upward_safe :: "nat \<Rightarrow> nat \<Rightarrow> nat \<Rightarrow> bool" where
  "upward_safe dst src n \<longleftrightarrow> dst \<le> src \<or> src + n \<le> dst"

lemma copied_0 [simp]: "copied dst src 0 m = m"
  by (auto simp: copied_def fun_eq_iff)

lemma copied_append:
  assumes "upward_safe dst src (j + k)"
  shows "copied (dst + j) (src + j) k (copied dst src j m) = copied dst src (j + k) m"
proof
  fix a
  show "copied (dst + j) (src + j) k (copied dst src j m) a = copied dst src (j + k) m a"
  proof (cases "dst + j \<le> a \<and> a < dst + (j + k)")
    case True
    then have "src + j + (a - (dst + j)) = src + (a - dst)" by simp
    moreover have "\<not> (dst \<le> src + (a - dst) \<and> src + (a - dst) < dst + j)"
      using assms True by (auto simp: upward_safe_def)
    ultimately show ?thesis using True by (auto simp: copied_def)
  qed (auto simp: copied_def)
qed

lemma upward_safe_step: "upward_safe dst src (j + k) \<Longrightarrow> upward_safe (dst + j) (src + j) k \<and> upward_safe dst src j"
  by (auto simp: upward_safe_def)

lemma rep_movsb_copied: "upward_safe dst src n \<Longrightarrow> rep_movsb n dst src m = copied dst src n m"
proof (induction n arbitrary: dst src m)
  case (Suc n)
  have "m(dst := m src) = copied dst src 1 m" by (auto simp: copied_def)
  then show ?case
    using Suc.IH [of "dst + 1" "src + 1" "copied dst src 1 m"] Suc.prems upward_safe_step [of dst src 1 n] copied_append [of dst src 1 n m]
    by simp
qed simp

lemma rep_movsl_copied: "upward_safe dst src (4 * n) \<Longrightarrow> rep_movsl n dst src m = copied dst src (4 * n) m"
proof (induction n arbitrary: dst src m)
  case (Suc n)
  have "copied dst src 4 m = m(dst := m src, dst + 1 := m (src + 1), dst + 2 := m (src + 2), dst + 3 := m (src + 3))" (is "?l = ?r")
  proof
    fix a
    consider "a < dst \<or> dst + 4 \<le> a" | "a = dst" | "a = dst + 1" | "a = dst + 2" | "a = dst + 3" by linarith
    then show "?l a = ?r a" by cases (auto simp: copied_def)
  qed
  moreover have s: "upward_safe dst src (4 + 4 * n)" using Suc.prems by simp
  ultimately show ?case
    using Suc.IH [of "dst + 4" "src + 4" "copied dst src 4 m"] upward_safe_step [OF s] copied_append [OF s, of m]
    by (simp only: rep_movsl.simps mult_Suc_right)
qed simp

lemma copy_down_copied:
  assumes "src \<le> dst"
  shows "copy_down n dst src m = copied dst src n m"
proof (induction n arbitrary: m)
  case (Suc n)
  have "copied dst src n (m(dst + n := m (src + n))) = copied dst src (Suc n) m" (is "?l = ?r")
  proof
    fix a
    show "?l a = ?r a"
    proof (cases "dst \<le> a \<and> a < dst + n")
      case True
      then have "src + (a - dst) \<noteq> dst + n" using assms by linarith
      then show ?thesis using True by (simp add: copied_def)
    next
      case False
      then show ?thesis by (cases "a = dst + n") (auto simp: copied_def)
    qed
  qed
  then show ?case using Suc.IH [of "m(dst + n := m (src + n))"] by (simp only: copy_down.simps)
qed simp

text \<open>The bytes \<^verbatim>\<open>memcpy\<close> really copies.\<close>

definition memcpy_extent :: "nat \<Rightarrow> nat \<Rightarrow> nat" where
  "memcpy_extent dst n = (if 8 < n \<and> 4 \<le> (n - align_offset dst) mod 8 then n + 4 else n)"

lemma memcpy_copied:
  assumes "upward_safe dst src (memcpy_extent dst n)"
  shows "memcpy dst src n m = copied dst src (memcpy_extent dst n) m"
proof (cases "n \<le> 8")
  case True
  then show ?thesis using rep_movsb_copied [of dst src n m] assms by (auto simp: memcpy_def memcpy_extent_def)
next
  case False
  define off k where "off = align_offset dst" and "k = n - align_offset dst"
  have off: "off \<le> n" using False mod_less_divisor [of 8 "8 - dst mod 8"] by (simp add: off_def align_offset_def)
  have ext: "memcpy_extent dst n = off + 4 * (k div 4) + k mod 8"
  proof -
    have "4 * (k div 4) + k mod 8 = k + (if 4 \<le> k mod 8 then 4 else 0)" by presburger
    moreover have "n = off + k" using off by (simp add: k_def off_def)
    ultimately show ?thesis using False by (simp add: memcpy_extent_def off_def)
  qed
  have safe: "upward_safe dst src (off + 4 * (k div 4) + k mod 8)" using assms ext by simp
  then have safe1: "upward_safe dst src (off + 4 * (k div 4))" using upward_safe_step by blast
  have "memcpy dst src n m = rep_movsb (k mod 8) (dst + (off + 4 * (k div 4))) (src + (off + 4 * (k div 4)))
      (rep_movsl (k div 4) (dst + off) (src + off) (rep_movsb off dst src m))"
    using False by (simp add: memcpy_def Let_def off_def k_def)
  also have "\<dots> = copied dst src (off + 4 * (k div 4) + k mod 8) m"
    using rep_movsb_copied upward_safe_step [OF safe] upward_safe_step [OF safe1] rep_movsl_copied
      copied_append [OF safe1] copied_append [OF safe] by simp
  finally show ?thesis using ext by simp
qed

lemma c_int_small: "n < 2 ^ 31 \<Longrightarrow> c_int n = int n"
  by (simp add: c_int_def)

text \<open>
  C17. Moving a block between overlapping regions is a copy of exactly the wanted bytes as they were
  before, for lengths below 2 GiB, in whichever direction the regions overlap. Between disjoint regions the code uses the
  aligned copy, which moves exactly the wanted bytes or, when the aligned rest is 4 to 7 modulo 8,
  four bytes more.
\<close>

theorem memmove_copies:
  assumes "dst \<noteq> src" and "n \<noteq> 0" and "n < 2 ^ 31"
  shows "if dst < src + n \<and> src < dst + n then memmove dst src n m = copied dst src n m
    else upward_safe dst src (memcpy_extent dst n) \<longrightarrow> memmove dst src n m = copied dst src (memcpy_extent dst n) m"
proof (cases "dst < src + n \<and> src < dst + n")
  case True
  then show ?thesis using assms rep_movsb_copied [of dst src n m] copy_down_copied [of src dst n m]
    by (auto simp: memmove_def upward_safe_def c_int_small [OF assms(3)])
next
  case False
  then show ?thesis using assms memcpy_copied [of dst src n m] by (auto simp: memmove_def c_int_small [OF assms(3)])
qed

theorem memmove_copies_witness:
  "memmove 10 12 5 = copied 10 12 5 \<and> memmove 12 10 5 = copied 12 10 5 \<and> memmove 0 100 12 = copied 0 100 16"
  using memmove_copies [of 10 12 5] memmove_copies [of 12 10 5] memmove_copies [of 0 100 12]
  by (simp add: memcpy_extent_def align_offset_def upward_safe_def fun_eq_iff)

text \<open>
  Copying 12 bytes to an aligned address writes 16: more generally, a copy of more than 8 bytes
  whose length beyond the alignment is 4 to 7 modulo 8 overwrites the four bytes behind the
  destination with the four bytes behind the source.
\<close>

lemma memcpy_overruns_destination:
  assumes "8 < n" and "4 \<le> (n - align_offset dst) mod 8" and "upward_safe dst src (n + 4)" and "j < 4"
  shows "memcpy dst src n m (dst + n + j) = m (src + n + j)"
  using memcpy_copied [of dst src n m] assms by (simp add: memcpy_extent_def copied_def add.assoc)

text \<open>
  \<^verbatim>\<open>memcmp\<close> never reports that the first block is greater: it returns -1 when some byte of the
  first block is smaller than its counterpart, and 0 otherwise, so that blocks that differ compare
  as equal whenever every byte of the first is at least that of the second.
\<close>

lemma memcmp_never_greater:
  "memcmp m a b n = (if \<exists>i < n. m (a + i) < m (b + i) then -1 else 0)"
proof -
  have "memcmp_from m a b n = (if \<exists>i < n. m (a + i) < m (b + i) then -1 else 0)"
  proof (induction n arbitrary: a b)
    case (Suc n)
    have "(\<exists>i < Suc n. m (a + i) < m (b + i)) \<longleftrightarrow> m a < m b \<or> (\<exists>i < n. m (a + 1 + i) < m (b + 1 + i))"
      by (auto simp: less_Suc_eq_0_disj)
    then show ?case using Suc.IH [of "a + 1" "b + 1"] by auto
  qed simp
  then show ?thesis by (simp add: memcmp_def)
qed

subsection \<open>Filling\<close>

definition filled :: "nat \<Rightarrow> nat \<Rightarrow> u8 \<Rightarrow> mem \<Rightarrow> mem" where
  "filled p n v m = (\<lambda>a. if p \<le> a \<and> a < p + n then v else m a)"

lemma filled_append: "filled (p + j) k v (filled p j v m) = filled p (j + k) v m"
  by (auto simp: filled_def)

lemma set_bytes_filled: "set_bytes n p v m = filled p n v m"
proof (induction n arbitrary: p m)
  case (Suc n)
  have "m(p := v) = filled p 1 v m" by (auto simp: filled_def)
  then show ?case using Suc.IH [of "p + 1"] filled_append [of p 1 n v m] by simp
qed (auto simp: filled_def fun_eq_iff)

lemma set_dwords_filled:
  assumes "\<And>k. k < 4 \<Longrightarrow> ucast (drop_bit (8 * k) w) = v"
  shows "set_dwords n p w m = filled p (4 * n) v m"
proof (induction n arbitrary: p m)
  case (Suc n)
  have bytes: "ucast w = v" "ucast (drop_bit 8 w) = v" "ucast (drop_bit 16 w) = v" "ucast (drop_bit 24 w) = v"
    using assms [of 0] assms [of 1] assms [of 2] assms [of 3] by simp_all
  have "write32 p w m = filled p 4 v m"
  proof
    fix a
    consider "a < p \<or> p + 4 \<le> a" | "a = p" | "a = p + 1" | "a = p + 2" | "a = p + 3" by linarith
    then show "write32 p w m a = filled p 4 v m a" by cases (auto simp: write32_def filled_def bytes)
  qed
  then show ?case using Suc.IH [of "p + 4"] filled_append [of p 4 "4 * n" v m] by simp
qed (auto simp: filled_def fun_eq_iff)

lemma spread_byte:
  fixes v :: u8
  assumes "k < 4"
  shows "ucast (drop_bit (8 * k) (ucast v OR push_bit 8 (ucast v) OR push_bit 16 (ucast v) OR push_bit 24 (ucast v) :: u32)) = v"
proof (rule bit_eqI)
  fix n
  assume "possible_bit TYPE(8 word) n"
  then have "n < 8" by simp
  moreover have "k = 0 \<or> k = 1 \<or> k = 2 \<or> k = 3" using assms by linarith
  ultimately show "bit (ucast (drop_bit (8 * k) (ucast v OR push_bit 8 (ucast v) OR push_bit 16 (ucast v) OR push_bit 24 (ucast v) :: u32)) :: u8) n \<longleftrightarrow> bit v n"
    by (auto simp: bit_ucast_iff bit_drop_bit_eq bit_or_iff bit_push_bit_iff dest: bit_imp_le_length)
qed

text \<open>
  Filling a block with a byte value sets exactly the bytes of the block to it, for every block
  below 4 GiB: the words and the rest written separately cover it exactly.
\<close>

lemma memset_fills:
  fixes v :: u8
  assumes "n < 2 ^ 32"
  shows "memset p (ucast v) n m = filled p n v m"
proof -
  have dw: "n div 4 mod 4294967296 = n div 4" using assms by simp
  have "4 * (n div 4) \<le> n" by simp
  then have "4 * (n div 4) < 4294967296" using assms by (simp add: order_le_less_trans)
  then have dest8: "4 * (n div 4) mod 4294967296 = 4 * (n div 4)" by simp
  have "set_dwords (n div 4) p (ucast v OR push_bit 8 (ucast v) OR push_bit 16 (ucast v) OR push_bit 24 (ucast v)) m =
      filled p (4 * (n div 4)) v m"
    by (rule set_dwords_filled) (rule spread_byte, assumption)
  moreover have "(ucast (ucast v :: u32) :: u8) = v" by (rule ucast_up_ucast_id) (simp add: is_up)
  ultimately show ?thesis
    using filled_append [of p "4 * (n div 4)" "n mod 4" v m]
    by (simp add: memset_def Let_def dw dest8 set_bytes_filled mult.commute)
qed

end
