(* ===== verification/Hash_Map.thy ===== *)
theory Hash_Map
  imports Prelude
begin

text \<open>
  The chained hash tables of the kernel (\<^verbatim>\<open>kernel/std/hash_map.c\<close>) and of the graphics library
  (\<^verbatim>\<open>programs/subprojects/libagx/lib/hash_map.c\<close>). A bucket is the list of its elements: the one in
  the table first, then the chain. Values are pointers, 0 is NULL. Neither table compares keys: two
  keys with the same hash are the same key to it. The abstraction of a table is, for every hash, the
  list of the values in use.
\<close>

type_synonym ptr = u64

subsection \<open>The hash function\<close>

text \<open>Jenkins' one-at-a-time hash.\<close>

definition hash_byte :: "u32 \<Rightarrow> u8 \<Rightarrow> u32" where
  "hash_byte h b =
     (let h = h + ucast b; h = h + push_bit 10 h in h XOR drop_bit 6 h)"

definition hash_bytes :: "u8 list \<Rightarrow> u32" where
  "hash_bytes key =
     (let h = foldl hash_byte 0 key; h = h + push_bit 3 h; h = h XOR drop_bit 11 h in h + push_bit 15 h)"

subsection \<open>The kernel's table\<close>

record hash_map_elem =
  he_in_use :: bool
  he_hash :: u32
  he_value :: ptr

record hash_map =
  hm_data :: "hash_map_elem list list"
  hm_data_size :: u32

definition zero_elem :: hash_map_elem where
  "zero_elem = \<lparr>he_in_use = False, he_hash = 0, he_value = 0\<rparr>"

definition hash_map_create :: hash_map where
  "hash_map_create = \<lparr>hm_data = replicate 512 [zero_elem], hm_data_size = 512\<rparr>"

definition bucket_index :: "'z hash_map_scheme \<Rightarrow> u32 \<Rightarrow> nat" where
  "bucket_index hm h = unat (h mod hm_data_size hm)"

definition hash_map_put :: "hash_map \<Rightarrow> u8 list \<Rightarrow> ptr \<Rightarrow> hash_map" where
  "hash_map_put hm key value =
     (let h = hash_bytes key; idx = bucket_index hm h
      in hm\<lparr>hm_data := (hm_data hm)[idx := hm_data hm ! idx @ [\<lparr>he_in_use = True, he_hash = h, he_value = value\<rparr>]]\<rparr>)"

fun delete_first :: "u32 \<Rightarrow> hash_map_elem list \<Rightarrow> hash_map_elem list" where
  "delete_first h [] = []"
| "delete_first h (e # es) = (if he_hash e = h then e\<lparr>he_in_use := False\<rparr> # es else e # delete_first h es)"

definition hash_map_delete :: "hash_map \<Rightarrow> u8 list \<Rightarrow> hash_map" where
  "hash_map_delete hm key =
     (let h = hash_bytes key; idx = bucket_index hm h
      in hm\<lparr>hm_data := (hm_data hm)[idx := delete_first h (hm_data hm ! idx)]\<rparr>)"

fun find_in_use :: "u32 \<Rightarrow> hash_map_elem list \<Rightarrow> ptr" where
  "find_in_use h [] = 0"
| "find_in_use h (e # es) = (if he_hash e = h \<and> he_in_use e then he_value e else find_in_use h es)"

definition hash_map_get :: "'z hash_map_scheme \<Rightarrow> u8 list \<Rightarrow> ptr" where
  "hash_map_get hm key = (let h = hash_bytes key in find_in_use h (hm_data hm ! bucket_index hm h))"

subsection \<open>The graphics library's table\<close>

record agx_hash_map = hash_map +
  hm_size :: u32

text \<open>\<^verbatim>\<open>hash_map_create\<close> there builds this table and then ends without returning it.\<close>

definition agx_hash_map_new :: "u32 \<Rightarrow> agx_hash_map" where
  "agx_hash_map_new initial_size =
     \<lparr>hm_data = replicate (unat initial_size) [zero_elem], hm_data_size = initial_size, hm_size = 0\<rparr>"

definition agx_hash_map_put :: "agx_hash_map \<Rightarrow> u8 list \<Rightarrow> ptr \<Rightarrow> agx_hash_map" where
  "agx_hash_map_put hm key value =
     (let h = hash_bytes key; idx = bucket_index hm h; new = \<lparr>he_in_use = True, he_hash = h, he_value = value\<rparr>
      in case hm_data hm ! idx of
           [] \<Rightarrow> hm
         | e # es \<Rightarrow>
             if he_in_use e then hm\<lparr>hm_data := (hm_data hm)[idx := e # es @ [new]]\<rparr>
             else hm\<lparr>hm_data := (hm_data hm)[idx := new # es], hm_size := hm_size hm + 1\<rparr>)"

definition agx_hash_map_get :: "agx_hash_map \<Rightarrow> u8 list \<Rightarrow> ptr" where
  "agx_hash_map_get hm key =
     (let h = hash_bytes key
      in case hm_data hm ! bucket_index hm h of
           [] \<Rightarrow> 0
         | e # es \<Rightarrow>
             if \<not> he_in_use e then 0
             else if he_hash e \<noteq> h then find_in_use h (e # es)
             else he_value e)"

definition agx_hash_map_size :: "agx_hash_map \<Rightarrow> u32" where
  "agx_hash_map_size hm = hm_size hm"

subsection \<open>The values of a hash\<close>

definition used :: "u32 \<Rightarrow> hash_map_elem list \<Rightarrow> ptr list" where
  "used h es = map he_value (filter (\<lambda>e. he_in_use e \<and> he_hash e = h) es)"

definition vals :: "'z hash_map_scheme \<Rightarrow> u32 \<Rightarrow> ptr list" where
  "vals hm h = used h (hm_data hm ! bucket_index hm h)"

definition hm_wf :: "'z hash_map_scheme \<Rightarrow> bool" where
  "hm_wf hm \<longleftrightarrow> hm_data_size hm \<noteq> 0 \<and> length (hm_data hm) = unat (hm_data_size hm) \<and> (\<forall>es \<in> set (hm_data hm). es \<noteq> [])"

lemma used_append: "used h (xs @ ys) = used h xs @ used h ys"
  by (simp add: used_def)

lemma used_Cons: "used h (e # es) = (if he_in_use e \<and> he_hash e = h then [he_value e] else []) @ used h es"
  by (simp add: used_def)

lemma find_in_use_vals: "find_in_use h es = (case used h es of [] \<Rightarrow> 0 | v # _ \<Rightarrow> v)"
  by (induction es) (auto simp: used_def)

lemma used_delete:
  "used h' (delete_first h es) =
    (if h' = h \<and> (\<exists>e. find (\<lambda>e. he_hash e = h) es = Some e \<and> he_in_use e) then tl (used h es) else used h' es)"
  by (induction es) (auto simp: used_def)

lemma bucket_index_less: "hm_wf hm \<Longrightarrow> bucket_index hm h < length (hm_data hm)"
  by (simp add: hm_wf_def bucket_index_def unat_mod unat_gt_0)

lemma vals_update:
  assumes "hm_wf hm" and "hm_data hm' = (hm_data hm)[bucket_index hm h := es]" and "hm_data_size hm' = hm_data_size hm"
    and "\<And>h'. h' \<noteq> h \<Longrightarrow> used h' es = used h' (hm_data hm ! bucket_index hm h)"
  shows "vals hm' h' = (if h' = h then used h es else vals hm h')"
proof -
  have i: "bucket_index hm' h' = bucket_index hm h'" using assms(3) by (simp add: bucket_index_def)
  show ?thesis
  proof (cases "bucket_index hm h' = bucket_index hm h")
    case True
    then show ?thesis using bucket_index_less [OF assms(1), of h] assms(2,4) i by (auto simp: vals_def)
  next
    case False
    then show ?thesis using assms(2) i by (auto simp: vals_def)
  qed
qed

lemma hm_wf_update:
  assumes "hm_wf hm" and "hm_data hm' = (hm_data hm)[i := es]" and "hm_data_size hm' = hm_data_size hm" and "es \<noteq> []"
  shows "hm_wf hm'"
  using assms set_update_subset_insert [of "hm_data hm" i es] by (auto simp: hm_wf_def)

lemma hm_bucket_nonempty: "hm_wf hm \<Longrightarrow> hm_data hm ! bucket_index hm h \<noteq> []"
  using bucket_index_less [of hm h] nth_mem by (fastforce simp: hm_wf_def)

text \<open>
  What both tables promise: a table keeps, per hash, the list of the values put under it, and looking
  a key up returns the oldest of them.
\<close>

locale first_value_table =
  fixes inv :: "'m \<Rightarrow> bool"
    and contents :: "'m \<Rightarrow> u32 \<Rightarrow> ptr list"
    and put :: "'m \<Rightarrow> u8 list \<Rightarrow> ptr \<Rightarrow> 'm"
    and get :: "'m \<Rightarrow> u8 list \<Rightarrow> ptr"
  assumes put_inv: "inv m \<Longrightarrow> inv (put m k v)"
    and put_contents: "inv m \<Longrightarrow> contents (put m k v) h = contents m h @ (if h = hash_bytes k then [v] else [])"
    and get_contents: "inv m \<Longrightarrow> get m k = (case contents m (hash_bytes k) of [] \<Rightarrow> 0 | v # _ \<Rightarrow> v)"
begin

text \<open>Putting many keys and then looking one up returns the first value put under its hash.\<close>

definition put_all :: "(u8 list \<times> ptr) list \<Rightarrow> 'm \<Rightarrow> 'm" where
  "put_all kvs m = foldl (\<lambda>m (k, v). put m k v) m kvs"

lemma put_all_contents:
  assumes "inv m"
  shows "inv (put_all kvs m) \<and> contents (put_all kvs m) h =
    contents m h @ map snd (filter (\<lambda>kv. hash_bytes (fst kv) = h) kvs)"
  using assms
proof (induction kvs arbitrary: m)
  case (Cons kv kvs)
  obtain k v where "kv = (k, v)" by (cases kv)
  then show ?case using Cons.IH [OF put_inv [OF Cons.prems]] put_contents [OF Cons.prems, of k v h] by (auto simp: put_all_def)
qed (simp add: put_all_def)

lemma get_first:
  assumes "inv m" and "contents m (hash_bytes k) = []"
  shows "get (put_all kvs m) k = (case filter (\<lambda>kv. hash_bytes (fst kv) = hash_bytes k) kvs of [] \<Rightarrow> 0 | kv # _ \<Rightarrow> snd kv)"
  using put_all_contents [OF assms(1), of kvs "hash_bytes k"] get_contents [of "put_all kvs m" k] assms(2)
  by (auto split: list.splits)

end

interpretation km: first_value_table hm_wf vals hash_map_put hash_map_get
proof (unfold_locales, goal_cases)
  case (1 m k v)
  show ?case by (rule hm_wf_update [OF 1, where es = "hm_data m ! bucket_index m (hash_bytes k) @ [\<lparr>he_in_use = True, he_hash = hash_bytes k, he_value = v\<rparr>]"])
      (simp_all add: hash_map_put_def Let_def)
next
  case (2 m k v h)
  let ?h = "hash_bytes k"
  have "vals (hash_map_put m k v) h = (if h = ?h then used ?h (hm_data m ! bucket_index m ?h @ [\<lparr>he_in_use = True, he_hash = ?h, he_value = v\<rparr>]) else vals m h)"
    by (rule vals_update [OF 2]) (simp_all add: hash_map_put_def Let_def used_append used_Cons, simp add: used_def)
  then show ?case by (auto simp: used_append vals_def used_def)
next
  case (3 m k)
  then show ?case by (simp add: hash_map_get_def Let_def find_in_use_vals vals_def)
qed

text \<open>In the graphics library's table the chain is only used behind a used head.\<close>

definition agx_wf :: "agx_hash_map \<Rightarrow> bool" where
  "agx_wf hm \<longleftrightarrow> hm_wf hm \<and> (\<forall>es \<in> set (hm_data hm). (he_in_use (hd es) \<or> tl es = []))"

lemma agx_bucket:
  assumes "agx_wf m"
  obtains e es where "hm_data m ! bucket_index m h = e # es" "he_in_use e \<or> es = []"
proof -
  have wf: "hm_wf m" using assms by (simp add: agx_wf_def)
  obtain e es where b: "hm_data m ! bucket_index m h = e # es" using hm_bucket_nonempty [OF wf, of h] by (cases "hm_data m ! bucket_index m h") auto
  moreover have "hm_data m ! bucket_index m h \<in> set (hm_data m)" using bucket_index_less [OF wf] by simp
  ultimately show ?thesis using that assms by (fastforce simp: agx_wf_def)
qed

lemma agx_put_data:
  assumes "hm_data m ! bucket_index m (hash_bytes k) = e # es"
  shows "hm_data (agx_hash_map_put m k v) = (hm_data m)[bucket_index m (hash_bytes k) :=
      (if he_in_use e then e # es @ [\<lparr>he_in_use = True, he_hash = hash_bytes k, he_value = v\<rparr>]
       else \<lparr>he_in_use = True, he_hash = hash_bytes k, he_value = v\<rparr> # es)]"
    and "hm_data_size (agx_hash_map_put m k v) = hm_data_size m"
  using assms by (simp_all add: agx_hash_map_put_def Let_def)

interpretation agx: first_value_table agx_wf vals agx_hash_map_put agx_hash_map_get
proof (unfold_locales, goal_cases)
  case (1 m k v)
  obtain e es where b: "hm_data m ! bucket_index m (hash_bytes k) = e # es" "he_in_use e \<or> es = []" using agx_bucket [OF 1] by metis
  note d = agx_put_data [OF b(1), of v]
  have "hm_wf (agx_hash_map_put m k v)"
    by (rule hm_wf_update [OF _ d]) (use 1 in \<open>auto simp: agx_wf_def\<close>)
  moreover have "\<forall>es' \<in> set (hm_data (agx_hash_map_put m k v)). he_in_use (hd es') \<or> tl es' = []"
    using 1 b set_update_subset_insert [of "hm_data m"] unfolding d(1) by (fastforce simp: agx_wf_def)
  ultimately show ?case by (simp add: agx_wf_def)
next
  case (2 m k v h)
  obtain e es where b: "hm_data m ! bucket_index m (hash_bytes k) = e # es" "he_in_use e \<or> es = []" using agx_bucket [OF 2] by metis
  have wf: "hm_wf m" using 2 by (simp add: agx_wf_def)
  show ?case
    using vals_update [OF wf agx_put_data [OF b(1), of v], of h] b
    by (cases "he_in_use e") (auto simp: used_append used_Cons vals_def, auto simp: used_def)
next
  case (3 m k)
  obtain e es where b: "hm_data m ! bucket_index m (hash_bytes k) = e # es" "he_in_use e \<or> es = []" using agx_bucket [OF 3] by metis
  show ?case
    using b find_in_use_vals [of "hash_bytes k" "e # es"] by (auto simp: agx_hash_map_get_def Let_def vals_def used_Cons)
qed

text \<open>
  Both hash tables return, for a key, the first value that was put under its hash (and NULL when
  there is none): they implement the same first-value table, in spite of their different use of the
  bucket heads; putting a key again does not replace its value.
\<close>

lemma hash_maps_return_first_value:
  assumes "0 < n"
  shows "hash_map_get (foldl (\<lambda>m (k, v). hash_map_put m k v) hash_map_create kvs) k =
      (case filter (\<lambda>kv. hash_bytes (fst kv) = hash_bytes k) kvs of [] \<Rightarrow> 0 | kv # _ \<Rightarrow> snd kv)
    \<and> agx_hash_map_get (foldl (\<lambda>m (k, v). agx_hash_map_put m k v) (agx_hash_map_new n) kvs) k =
      (case filter (\<lambda>kv. hash_bytes (fst kv) = hash_bytes k) kvs of [] \<Rightarrow> 0 | kv # _ \<Rightarrow> snd kv)"
proof -
  have k: "hm_wf hash_map_create" by (auto simp: hm_wf_def hash_map_create_def)
  have a: "agx_wf (agx_hash_map_new n)" using assms by (auto simp: agx_wf_def hm_wf_def agx_hash_map_new_def zero_elem_def)
  have "vals hash_map_create h = []" for h
    using bucket_index_less [OF k, of h] by (simp add: vals_def hash_map_create_def used_def zero_elem_def)
  moreover have "vals (agx_hash_map_new n) h = []" for h
    using bucket_index_less [of "agx_hash_map_new n" h] a by (simp add: vals_def agx_wf_def agx_hash_map_new_def used_def zero_elem_def)
  ultimately show ?thesis
    using km.get_first [OF k, of k kvs] agx.get_first [OF a, of k kvs] by (simp add: km.put_all_def agx.put_all_def)
qed

text \<open>
  A key of the kernel's table that was deleted and put again cannot be deleted any more: deletion
  stops at the first element with the hash, which is the one already unused, and the value stays.
\<close>

lemma second_delete_is_lost:
  assumes "hm_wf m" and "find (\<lambda>e. he_hash e = hash_bytes k) (hm_data m ! bucket_index m (hash_bytes k)) = None" and "v2 \<noteq> 0"
  shows "hash_map_get (hash_map_delete (hash_map_put m k v1) k) k = 0
    \<and> hash_map_get (hash_map_delete (hash_map_put (hash_map_delete (hash_map_put m k v1) k) k v2) k) k = v2"
proof -
  let ?h = "hash_bytes k"
  let ?i = "bucket_index m ?h"
  let ?e = "\<lambda>u v. \<lparr>he_in_use = u, he_hash = ?h, he_value = v\<rparr>"
  have i: "?i < length (hm_data m)" by (rule bucket_index_less [OF assms(1)])
  have app: "delete_first ?h (es @ e # fs) = es @ e\<lparr>he_in_use := False\<rparr> # fs"
    if "find (\<lambda>e. he_hash e = ?h) es = None" "he_hash e = ?h" for es e fs
    using that by (induction es) (auto split: if_splits)
  have get: "find_in_use ?h (es @ fs) = find_in_use ?h fs" if "find (\<lambda>e. he_hash e = ?h) es = None" for es fs
    using that by (induction es) (auto split: if_splits)
  define m1 where "m1 = hash_map_delete (hash_map_put m k v1) k"
  have m1: "m1 = m\<lparr>hm_data := (hm_data m)[?i := hm_data m ! ?i @ [?e False v1]]\<rparr>"
    using i app [OF assms(2), of "?e True v1" "[]"] by (simp add: m1_def hash_map_delete_def hash_map_put_def Let_def bucket_index_def)
  define m2 where "m2 = hash_map_delete (hash_map_put m1 k v2) k"
  have m2: "m2 = m\<lparr>hm_data := (hm_data m)[?i := hm_data m ! ?i @ [?e False v1, ?e True v2]]\<rparr>"
    using i app [OF assms(2), of "?e False v1" "[?e True v2]"]
    by (simp add: m2_def m1 hash_map_delete_def hash_map_put_def Let_def bucket_index_def)
  have "hash_map_get m1 k = 0" "hash_map_get m2 k = v2"
    using i get [OF assms(2)] by (simp_all add: m1 m2 hash_map_get_def Let_def bucket_index_def)
  then show ?thesis by (simp add: m1_def m2_def)
qed

end
