(* ===== verification/C_List.thy ===== *)
theory C_List
  imports Prelude
begin

text \<open>
  The kernel's doubly linked list (\<^verbatim>\<open>kernel/std/list.c\<close>, \<^verbatim>\<open>kernel/std/list_node.c\<close>) on a heap of
  nodes. Pointers are numbers, 0 is NULL; a freed node has no entry, and the pointer that
  \<^verbatim>\<open>kmalloc\<close> returns (0 when it fails) is an argument. The walk to the end of the list is an optional
  result, \<open>None\<close> if it never ends. The refinement relates the heap to the list of the payloads.
\<close>

subsection \<open>Nodes and lists\<close>

record list_node =
  ln_payload :: nat
  ln_prev :: nat
  ln_next :: nat

type_synonym node_heap = "nat \<rightharpoonup> list_node"

record list_rec =
  l_count :: u32
  l_root_node :: nat

definition List_new :: "nat \<Rightarrow> list_rec option" where
  "List_new p = (if p = 0 then None else Some \<lparr>l_count = 0, l_root_node = 0\<rparr>)"

definition list_node_create :: "nat \<Rightarrow> nat \<Rightarrow> node_heap \<Rightarrow> node_heap" where
  "list_node_create node payload h =
     (if node = 0 then h else h(node \<mapsto> \<lparr>ln_payload = payload, ln_prev = 0, ln_next = 0\<rparr>))"

partial_function (option) last_node :: "node_heap \<Rightarrow> nat \<Rightarrow> nat res option" where
  "last_node h current_node =
     (case h current_node of
        None \<Rightarrow> Some (Inl UseAfterFree)
      | Some n \<Rightarrow> if ln_next n \<noteq> 0 then last_node h (ln_next n) else Some (Inr current_node))"

definition set_next :: "nat \<Rightarrow> nat \<Rightarrow> node_heap \<Rightarrow> node_heap res" where
  "set_next p v h = ebind (load h p) (\<lambda>n. Inr (h(p \<mapsto> n\<lparr>ln_next := v\<rparr>)))"

definition set_prev :: "nat \<Rightarrow> nat \<Rightarrow> node_heap \<Rightarrow> node_heap res" where
  "set_prev p v h = ebind (load h p) (\<lambda>n. Inr (h(p \<mapsto> n\<lparr>ln_prev := v\<rparr>)))"

definition List_add :: "nat \<Rightarrow> list_rec \<Rightarrow> nat \<Rightarrow> node_heap \<Rightarrow> (bool \<times> list_rec \<times> node_heap) res option" where
  "List_add new_node l payload h =
     (if new_node = 0 then Some (Inr (False, l, h))
      else
        let h = list_node_create new_node payload h in
        if l_root_node l = 0
        then Some (Inr (True, l\<lparr>l_root_node := new_node, l_count := l_count l + 1\<rparr>, h))
        else map_option (\<lambda>r.
          ebind r (\<lambda>current_node.
          ebind (set_next current_node new_node h) (\<lambda>h.
          ebind (set_prev new_node current_node h) (\<lambda>h.
          Inr (True, l\<lparr>l_count := l_count l + 1\<rparr>, h))))) (last_node h (l_root_node l)))"

fun walk :: "node_heap \<Rightarrow> nat \<Rightarrow> nat \<Rightarrow> nat res" where
  "walk h 0 current_node = Inr current_node"
| "walk h (Suc i) current_node =
     (if current_node = 0 then Inr 0 else ebind (load h current_node) (\<lambda>n. walk h i (ln_next n)))"

definition List_get_at :: "list_rec \<Rightarrow> u32 \<Rightarrow> node_heap \<Rightarrow> nat res" where
  "List_get_at l index h =
     (if l_count l = 0 \<or> index \<ge> l_count l then Inr 0
      else ebind (walk h (unat index) (l_root_node l)) (\<lambda>current_node.
           if current_node = 0 then Inr 0 else ebind (load h current_node) (\<lambda>n. Inr (ln_payload n))))"

definition List_remove_at :: "list_rec \<Rightarrow> u32 \<Rightarrow> node_heap \<Rightarrow> (nat \<times> list_rec \<times> node_heap) res" where
  "List_remove_at l index h =
     (if l_count l = 0 \<or> index \<ge> l_count l then Inr (0, l, h)
      else ebind (walk h (unat index) (l_root_node l)) (\<lambda>current_node.
           if current_node = 0 then Inr (0, l, h)
           else ebind (load h current_node) (\<lambda>n.
                ebind (if ln_prev n \<noteq> 0 then set_next (ln_prev n) (ln_next n) h else Inr h) (\<lambda>h.
                ebind (if ln_next n \<noteq> 0 then set_prev (ln_next n) (ln_prev n) h else Inr h) (\<lambda>h.
                let l = (if index = 0 then l\<lparr>l_root_node := ln_next n\<rparr> else l)
                in Inr (ln_payload n, l\<lparr>l_count := l_count l - 1\<rparr>, h(current_node := None)))))))"

subsection \<open>What a heap represents\<close>

text \<open>
  \<open>dseg h prv p qs lst e\<close>: following \<^verbatim>\<open>next\<close> from \<open>p\<close> visits the nodes and payloads \<open>qs\<close> and ends at
  \<open>e\<close>; the \<^verbatim>\<open>prev\<close> pointers lead back to \<open>prv\<close>, and \<open>lst\<close> is the last node visited.
\<close>

fun dseg :: "node_heap \<Rightarrow> nat \<Rightarrow> nat \<Rightarrow> (nat \<times> nat) list \<Rightarrow> nat \<Rightarrow> nat \<Rightarrow> bool" where
  "dseg h prv p [] lst e \<longleftrightarrow> p = e \<and> lst = prv"
| "dseg h prv p ((q, x) # qs) lst e \<longleftrightarrow> p = q \<and> q \<noteq> 0
     \<and> (\<exists>nxt. h q = Some \<lparr>ln_payload = x, ln_prev = prv, ln_next = nxt\<rparr> \<and> dseg h q nxt qs lst e)"

definition list_ok :: "list_rec \<Rightarrow> node_heap \<Rightarrow> (nat \<times> nat) list \<Rightarrow> bool" where
  "list_ok l h qs \<longleftrightarrow> distinct (map fst qs) \<and> length qs < 2 ^ 32 - 1 \<and> l_count l = of_nat (length qs)
     \<and> (\<exists>lst. dseg h 0 (l_root_node l) qs lst 0)"

lemma dseg_append:
  "dseg h prv p (as @ bs) lst e \<longleftrightarrow> (\<exists>m q. dseg h prv p as m q \<and> dseg h m q bs lst e)"
  by (induction as arbitrary: prv p) (auto, blast+)

lemma dseg_frame:
  "dseg h prv p qs lst e \<Longrightarrow> (\<And>q. q \<in> fst ` set qs \<Longrightarrow> h' q = h q) \<Longrightarrow> dseg h' prv p qs lst e"
proof (induction qs arbitrary: prv p)
  case (Cons qx qs)
  then show ?case by (cases qx) force
qed simp

lemma dseg_last: "dseg h prv p qs lst e \<Longrightarrow> lst = (if qs = [] then prv else fst (last qs))"
proof (induction qs arbitrary: prv p)
  case (Cons qx qs)
  then show ?case by (cases qx) auto
qed simp

lemma dseg_start: "dseg h prv p qs lst e \<Longrightarrow> p = (if qs = [] then e else fst (hd qs))"
  by (cases qs) auto

lemma dseg_nonzero: "dseg h prv p qs lst e \<Longrightarrow> 0 \<notin> fst ` set qs"
proof (induction qs arbitrary: prv p)
  case (Cons qx qs)
  then show ?case by (cases qx) auto
qed simp

lemma walk_dseg: "dseg h prv p as m q \<Longrightarrow> walk h (length as) p = Inr q"
proof (induction as arbitrary: prv p)
  case (Cons qx as)
  then show ?case by (cases qx) (auto simp: load_def)
qed simp

lemma last_node_dseg:
  "dseg h prv p (qs @ [(q, x)]) lst 0 \<Longrightarrow> last_node h p = Some (Inr q)"
proof (induction qs arbitrary: prv p)
  case Nil
  then show ?case by (auto simp: last_node.simps [of h q])
next
  case (Cons qx qs)
  obtain q' x' where qx: "qx = (q', x')" by (cases qx)
  obtain nxt where n: "h p = Some \<lparr>ln_payload = x', ln_prev = prv, ln_next = nxt\<rparr>" "dseg h q' nxt (qs @ [(q, x)]) lst 0"
    using Cons.prems by (auto simp: qx)
  have "nxt \<noteq> 0" using dseg_start [OF n(2)] dseg_nonzero [OF n(2)] by (cases "qs @ [(q, x)]") auto
  then show ?case using n Cons.IH [OF n(2)] by (simp add: last_node.simps [of h p])
qed

text \<open>Redirecting the end of a segment, and the \<^verbatim>\<open>prev\<close> pointer at its start.\<close>

lemma dseg_set_end:
  assumes "dseg h prv p qs lst e" and "qs \<noteq> []" and "distinct (map fst qs)"
  shows "\<exists>h'. set_next lst e' h = Inr h' \<and> dseg h' prv p qs lst e' \<and> (\<forall>r. r \<noteq> lst \<longrightarrow> h' r = h r)"
proof -
  obtain as q x where qs: "qs = as @ [(q, x)]" using assms(2) by (metis rev_exhaust surj_pair)
  then obtain m n where m: "dseg h prv p as m q" "h q = Some \<lparr>ln_payload = x, ln_prev = m, ln_next = n\<rparr>" "n = e" "lst = q" "q \<noteq> 0"
    using assms(1) by (auto simp: dseg_append)
  let ?h' = "h(q \<mapsto> \<lparr>ln_payload = x, ln_prev = m, ln_next = e'\<rparr>)"
  have "dseg ?h' prv p as m q" by (rule dseg_frame [OF m(1)]) (use assms(3) qs in auto)
  then have "dseg ?h' prv p qs lst e'" using m qs by (auto simp: dseg_append)
  then show ?thesis using m by (intro exI [of _ ?h']) (simp add: set_next_def)
qed

lemma dseg_set_start:
  assumes "dseg h prv p qs lst e" and "qs \<noteq> []" and "distinct (map fst qs)"
  shows "\<exists>h'. set_prev p prv' h = Inr h' \<and> dseg h' prv' p qs lst e \<and> (\<forall>r. r \<noteq> p \<longrightarrow> h' r = h r)"
proof -
  obtain x bs where qs: "qs = (p, x) # bs" using assms(1,2) by (cases qs) auto
  then obtain n where n: "h p = Some \<lparr>ln_payload = x, ln_prev = prv, ln_next = n\<rparr>" "dseg h p n bs lst e" "p \<noteq> 0"
    using assms(1) by auto
  let ?h' = "h(p \<mapsto> \<lparr>ln_payload = x, ln_prev = prv', ln_next = n\<rparr>)"
  have "dseg ?h' p n bs lst e" by (rule dseg_frame [OF n(2)]) (use assms(3) qs in auto)
  then show ?thesis using n qs by (intro exI [of _ ?h']) (simp add: set_prev_def)
qed

lemma length_count: "length qs < 2 ^ 32 - 1 \<Longrightarrow> unat (of_nat (length qs) :: u32) = length qs"
  by (simp add: unat_of_nat)

lemma list_add_refines:
  assumes "list_ok l h qs" and "new \<noteq> 0" and "h new = None" and "Suc (length qs) < 2 ^ 32 - 1"
  shows "\<exists>l' h'. List_add new l v h = Some (Inr (True, l', h')) \<and> list_ok l' h' (qs @ [(new, v)])"
proof -
  obtain lst where d: "dseg h 0 (l_root_node l) qs lst 0" and dist: "distinct (map fst qs)" and c: "l_count l = of_nat (length qs)"
    using assms(1) by (auto simp: list_ok_def)
  have fresh: "new \<notin> fst ` set qs"
  proof
    assume "new \<in> fst ` set qs"
    then obtain as x bs where "qs = as @ (new, x) # bs" by (metis (no_types) imageE prod.collapse split_list)
    then show False using d assms(3) by (auto simp: dseg_append)
  qed
  let ?h = "h(new \<mapsto> \<lparr>ln_payload = v, ln_prev = 0, ln_next = 0\<rparr>)"
  have d1: "dseg ?h 0 (l_root_node l) qs lst 0" by (rule dseg_frame [OF d]) (use fresh in auto)
  show ?thesis
  proof (cases "qs = []")
    case True
    then show ?thesis
      using d assms(2,4) c by (auto simp: List_add_def list_node_create_def list_ok_def)
  next
    case False
    have root: "l_root_node l \<noteq> 0" using dseg_start [OF d1] dseg_nonzero [OF d1] False by (cases qs) auto
    have lst: "lst = fst (last qs)" using dseg_last [OF d1] False by simp
    have last: "last_node ?h (l_root_node l) = Some (Inr lst)"
      using last_node_dseg [of ?h 0 "l_root_node l" "butlast qs" "fst (last qs)" "snd (last qs)" lst] d1 False lst by simp
    have lst_in: "lst \<in> fst ` set qs" using lst False by simp
    then have ne: "lst \<noteq> new" using fresh by auto
    obtain h1 where h1: "set_next lst new ?h = Inr h1" "dseg h1 0 (l_root_node l) qs lst new" "\<forall>r. r \<noteq> lst \<longrightarrow> h1 r = ?h r"
      using dseg_set_end [OF d1 False dist, of new] by blast
    let ?h2 = "h1(new \<mapsto> \<lparr>ln_payload = v, ln_prev = lst, ln_next = 0\<rparr>)"
    have h2: "set_prev new lst h1 = Inr ?h2" using h1(3) ne by (simp add: set_prev_def)
    have "dseg ?h2 0 (l_root_node l) qs lst new" by (rule dseg_frame [OF h1(2)]) (use fresh in auto)
    then have "dseg ?h2 0 (l_root_node l) (qs @ [(new, v)]) new 0" using assms(2) by (auto simp: dseg_append)
    then show ?thesis
      using root last h1(1) h2 assms(2,4) dist fresh c
      by (intro exI [of _ "l\<lparr>l_count := l_count l + 1\<rparr>"] exI [of _ ?h2])
        (auto simp: List_add_def list_node_create_def list_ok_def Let_def)
  qed
qed

lemma list_get_refines:
  assumes "list_ok l h qs"
  shows "List_get_at l index h = Inr (if unat index < length qs then snd (qs ! unat index) else 0)"
proof -
  obtain lst where d: "dseg h 0 (l_root_node l) qs lst 0" and c: "l_count l = of_nat (length qs)" and len: "length qs < 2 ^ 32 - 1"
    using assms by (auto simp: list_ok_def)
  note cnt = length_count [OF len]
  show ?thesis
  proof (cases "unat index < length qs")
    case True
    let ?i = "unat index"
    obtain q x where qx: "qs ! ?i = (q, x)" by (cases "qs ! ?i")
    have split: "qs = take ?i qs @ (q, x) # drop (Suc ?i) qs" using id_take_nth_drop [OF True] qx by simp
    obtain m n where m: "dseg h 0 (l_root_node l) (take ?i qs) m q" "h q = Some \<lparr>ln_payload = x, ln_prev = m, ln_next = n\<rparr>" "q \<noteq> 0"
      using d by (subst (asm) split) (auto simp: dseg_append)
    have "walk h ?i (l_root_node l) = Inr q" using walk_dseg [OF m(1)] True by simp
    moreover have "\<not> (l_count l = 0 \<or> index \<ge> l_count l)" using True cnt c by (auto simp: word_le_nat_alt)
    ultimately show ?thesis using m True qx by (simp add: List_get_at_def)
  next
    case False
    then show ?thesis using cnt c by (simp add: List_get_at_def word_le_nat_alt)
  qed
qed

lemma dseg_bypass_end:
  assumes "dseg h 0 r as m q" and "distinct (map fst as)"
  shows "\<exists>h1. (if m \<noteq> 0 then set_next m n h else Inr h) = Inr h1 \<and> (as \<noteq> [] \<longrightarrow> dseg h1 0 r as m n)
    \<and> (\<forall>r. r \<notin> fst ` set as \<longrightarrow> h1 r = h r)"
proof -
  have m0: "m = 0 \<longleftrightarrow> as = []"
    using dseg_last [OF assms(1)] dseg_nonzero [OF assms(1)] by (cases as rule: rev_cases) auto
  show ?thesis
  proof (cases "as = []")
    case False
    then have "m \<in> fst ` set as" using dseg_last [OF assms(1)] by simp
    then show ?thesis using dseg_set_end [OF assms(1) False assms(2), of n] m0 False by auto
  qed (use m0 in auto)
qed

lemma dseg_bypass_start:
  assumes "dseg h q n bs lst 0" and "distinct (map fst bs)"
  shows "\<exists>h2. (if n \<noteq> 0 then set_prev n m h else Inr h) = Inr h2 \<and> (bs \<noteq> [] \<longrightarrow> dseg h2 m n bs lst 0)
    \<and> (\<forall>r. r \<notin> fst ` set bs \<longrightarrow> h2 r = h r)"
proof -
  have n0: "n = 0 \<longleftrightarrow> bs = []"
    using dseg_start [OF assms(1)] dseg_nonzero [OF assms(1)] by (cases bs) auto
  show ?thesis
  proof (cases "bs = []")
    case False
    then have "n \<in> fst ` set bs" using dseg_start [OF assms(1)] by simp
    then show ?thesis using dseg_set_start [OF assms(1) False assms(2), of m] n0 False by auto
  qed (use n0 in auto)
qed

lemma list_remove_refines:
  assumes "list_ok l h qs" and "unat index < length qs"
  shows "\<exists>l' h'. List_remove_at l index h = Inr (snd (qs ! unat index), l', h') \<and> list_ok l' h' (remove_nth (unat index) qs)
    \<and> h' (fst (qs ! unat index)) = None"
proof -
  let ?i = "unat index"
  obtain lst where d: "dseg h 0 (l_root_node l) qs lst 0" and dist: "distinct (map fst qs)" and c: "l_count l = of_nat (length qs)"
    and len: "length qs < 2 ^ 32 - 1"
    using assms(1) by (auto simp: list_ok_def)
  obtain q x where qx: "qs ! ?i = (q, x)" by (cases "qs ! ?i")
  define as bs where "as = take ?i qs" and "bs = drop (Suc ?i) qs"
  have split: "qs = as @ (q, x) # bs" using id_take_nth_drop [OF assms(2)] qx by (simp add: as_def bs_def)
  have la: "length as = ?i" using assms(2) by (simp add: as_def)
  obtain m n where sa: "dseg h 0 (l_root_node l) as m q" and hq: "h q = Some \<lparr>ln_payload = x, ln_prev = m, ln_next = n\<rparr>" "q \<noteq> 0"
    and sb: "dseg h q n bs lst 0"
    using d split by (auto simp: dseg_append)
  have walk: "walk h ?i (l_root_node l) = Inr q" using walk_dseg [OF sa] la by simp
  have guard: "\<not> (l_count l = 0 \<or> index \<ge> l_count l)" using assms(2) length_count [OF len] c by (auto simp: word_le_nat_alt)
  have out: "q \<notin> fst ` set as" "q \<notin> fst ` set bs" "fst ` set as \<inter> fst ` set bs = {}" "distinct (map fst as)" "distinct (map fst bs)"
    using dist split by auto
  have n0: "n = 0 \<longleftrightarrow> bs = []" using dseg_start [OF sb] dseg_nonzero [OF sb] by (cases bs) auto
  obtain h1 where h1: "(if m \<noteq> 0 then set_next m n h else Inr h) = Inr h1" "as \<noteq> [] \<Longrightarrow> dseg h1 0 (l_root_node l) as m n"
      "\<forall>r. r \<notin> fst ` set as \<longrightarrow> h1 r = h r"
    using dseg_bypass_end [OF sa out(4)] by blast
  have sb1: "dseg h1 q n bs lst 0" by (rule dseg_frame [OF sb]) (use h1(3) out(3) in blast)
  obtain h2 where h2: "(if n \<noteq> 0 then set_prev n m h1 else Inr h1) = Inr h2" "bs \<noteq> [] \<Longrightarrow> dseg h2 m n bs lst 0"
      "\<forall>r. r \<notin> fst ` set bs \<longrightarrow> h2 r = h1 r"
    using dseg_bypass_start [OF sb1 out(5)] by blast
  define l1 where "l1 = (if index = 0 then l\<lparr>l_root_node := n\<rparr> else l)"
  have i0: "index = 0 \<longleftrightarrow> as = []" using la by (auto simp: unsigned_eq_0_iff)
  have sa2: "dseg (h2(q := None)) 0 (l_root_node l1) as m n"
  proof (cases "as = []")
    case True
    then show ?thesis using sa i0 by (simp add: l1_def)
  next
    case False
    have "dseg (h2(q := None)) 0 (l_root_node l) as m n"
      by (rule dseg_frame [OF h1(2) [OF False]]) (use h2(3) out in \<open>auto simp: disjoint_iff\<close>)
    then show ?thesis using False i0 by (simp add: l1_def)
  qed
  have sb2: "\<exists>lst'. dseg (h2(q := None)) m n bs lst' 0"
  proof (cases "bs = []")
    case False
    have "dseg (h2(q := None)) m n bs lst 0" by (rule dseg_frame [OF h2(2) [OF False]]) (use out in auto)
    then show ?thesis by blast
  qed (use n0 in simp)
  have rm: "remove_nth ?i qs = as @ bs" using split la remove_nth_mid [of as] by metis
  have "l_count l - 1 = of_nat (length (as @ bs))" using c split by simp
  then have ok: "list_ok (l1\<lparr>l_count := l_count l - 1\<rparr>) (h2(q := None)) (remove_nth ?i qs)"
    using sa2 sb2 out len split unfolding rm list_ok_def dseg_append by auto
  have "List_remove_at l index h = Inr (x, l1\<lparr>l_count := l_count l - 1\<rparr>, h2(q := None))"
    using guard walk hq h1(1) h2(1)
    by (cases "m = 0"; cases "n = 0"; cases "index = 0") (simp_all add: List_remove_at_def l1_def Let_def)
  then show ?thesis using ok qx by auto
qed

text \<open>
  C18. The linked list implements a sequence: adding appends (the walk to the end terminates), reading
  an index returns that element and 0 beyond the end, and removing an index returns the element,
  leaves exactly the others in order with consistent forward and backward links, and frees the node.
\<close>

theorem list_implements_sequence:
  assumes "list_ok l h qs" and "new \<noteq> 0" and "h new = None" and "Suc (length qs) < 2 ^ 32 - 1" and "unat index < length qs"
  shows "(\<exists>l' h'. List_add new l v h = Some (Inr (True, l', h')) \<and> list_ok l' h' (qs @ [(new, v)]))
    \<and> (\<forall>i. List_get_at l i h = Inr (if unat i < length qs then snd (qs ! unat i) else 0))
    \<and> (\<exists>l' h'. List_remove_at l index h = Inr (snd (qs ! unat index), l', h') \<and> list_ok l' h' (remove_nth (unat index) qs)
      \<and> h' (fst (qs ! unat index)) = None)"
  using list_add_refines [OF assms(1-4)] list_get_refines [OF assms(1)] list_remove_refines [OF assms(1,5)] by blast

definition demo_heap :: node_heap where
  "demo_heap = [10 \<mapsto> \<lparr>ln_payload = 7, ln_prev = 0, ln_next = 20\<rparr>, 20 \<mapsto> \<lparr>ln_payload = 8, ln_prev = 10, ln_next = 0\<rparr>]"

theorem list_implements_sequence_witness:
  "\<exists>l' h'. List_remove_at \<lparr>l_count = 2, l_root_node = 10\<rparr> 0 demo_heap = Inr (7, l', h') \<and> list_ok l' h' [(20, 8)]"
proof -
  have "list_ok \<lparr>l_count = 2, l_root_node = 10\<rparr> demo_heap [(10, 7), (20, 8)]" by (simp add: list_ok_def demo_heap_def)
  moreover have "demo_heap 30 = None" by (simp add: demo_heap_def)
  ultimately show ?thesis
    using list_implements_sequence [of "\<lparr>l_count = 2, l_root_node = 10\<rparr>" demo_heap "[(10, 7), (20, 8)]" 30 0]
    by (simp add: remove_nth_def) blast
qed

end
