(* ===== verification/Net_Checksum.thy ===== *)
theory Net_Checksum
  imports Bytes
begin

text \<open>
  The Internet checksum of the network stack: \<^verbatim>\<open>_net_checksum_add\<close>, \<^verbatim>\<open>_net_checksum_finish\<close> and their
  callers (\<^verbatim>\<open>programs/subprojects/net/util.c\<close>) and the copies in \<^verbatim>\<open>tcp.c\<close>. The buffer argument of
  each is the list of the bytes the code reads. The sums are taken over 16-bit words as the CPU
  loads them, little-endian; the theorem shows that a message with the checksum written into it
  verifies for a receiver that adds big-endian words, as RFC 1071 defines it.
\<close>

subsection \<open>The code\<close>

fun net_checksum_add :: "u8 list \<Rightarrow> u32 \<Rightarrow> u32" where
  "net_checksum_add [] acc = acc"
| "net_checksum_add [b] acc = acc + ucast b"
| "net_checksum_add (b0 # b1 # bs) acc = net_checksum_add bs (acc + (ucast b0 OR push_bit 8 (ucast b1)))"

lemma unat_low_16: "unat (acc AND 0xffff) = unat acc mod 65536" for acc :: u32
proof -
  have "acc AND 0xffff = take_bit 16 acc" by (simp add: take_bit_eq_mask mask_eq_exp_minus_1)
  then have "unat (acc AND 0xffff) = take_bit 16 (unat acc)" by (simp only: unsigned_take_bit_eq)
  then show ?thesis by (simp only: take_bit_eq_mod) simp
qed

lemma unat_high_16: "unat (drop_bit 16 acc) = unat acc div 65536" for acc :: u32
proof -
  have "take_bit LENGTH(32) (unat acc) = unat acc" by (rule take_bit_nat_eq_self) (rule unsigned_less)
  then have "unat (drop_bit 16 acc) = drop_bit 16 (unat acc)" by (simp only: unsigned_drop_bit_eq)
  then show ?thesis by (simp only: drop_bit_eq_div) simp
qed

lemma mod_add_div_less: "65536 \<le> n \<Longrightarrow> n mod 65536 + n div 65536 < n" for n :: nat
  using div_mult_mod_eq [of n 65536] by linarith

lemma fold_step_unat:
  "unat ((acc AND 0xffff) + drop_bit 16 acc) = unat acc mod 65536 + unat acc div 65536" for acc :: u32
proof -
  have "unat acc < 2 ^ 32" using unsigned_less [of acc] by simp
  then have "unat acc mod 65536 + unat acc div 65536 < 2 ^ 32"
    using div_mult_mod_eq [of "unat acc" 65536] by linarith
  then show ?thesis by (simp only: unat_word_ariths unat_low_16 unat_high_16) simp
qed

lemma drop_16_eq_0: "drop_bit 16 acc = 0 \<longleftrightarrow> unat acc < 65536" for acc :: u32
proof -
  have "drop_bit 16 acc = 0 \<longleftrightarrow> unat (drop_bit 16 acc) = 0" by (metis unsigned_0 unsigned_eq_0_iff)
  also have "\<dots> \<longleftrightarrow> unat acc < 65536" by (simp only: unat_high_16) (simp add: div_eq_0_iff)
  finally show ?thesis .
qed

function net_checksum_fold :: "u32 \<Rightarrow> u32" where
  "net_checksum_fold acc =
     (if drop_bit 16 acc \<noteq> 0 then net_checksum_fold ((acc AND 0xffff) + drop_bit 16 acc) else acc)"
  by pat_completeness auto
termination
proof (relation "measure unat")
  fix acc :: u32
  assume "drop_bit 16 acc \<noteq> 0"
  then have "65536 \<le> unat acc" by (simp only: drop_16_eq_0 not_less)
  then show "((acc AND 0xffff) + drop_bit 16 acc, acc) \<in> measure unat"
    by (simp only: in_measure fold_step_unat mod_add_div_less)
qed simp

declare net_checksum_fold.simps [simp del]

definition net_checksum_finish :: "u32 \<Rightarrow> u16" where
  "net_checksum_finish acc = ucast (NOT (net_checksum_fold acc))"

definition net_checksum_ipv4 :: "u8 list \<Rightarrow> u16" where
  "net_checksum_ipv4 bytes = net_checksum_finish (net_checksum_add bytes 0)"

definition net_checksum_tcp_udp :: "u16 \<Rightarrow> u16 \<Rightarrow> u8 list \<Rightarrow> u8 list \<Rightarrow> u8 list \<Rightarrow> u16" where
  "net_checksum_tcp_udp proto len src_ip dst_ip bytes =
     net_checksum_finish (net_checksum_add bytes 0 + net_checksum_add src_ip 0 + net_checksum_add dst_ip 0
       + (ucast proto + ucast len))"

definition net_checksum_tcp_udp2 :: "u8 list \<Rightarrow> u8 list \<Rightarrow> u16 \<Rightarrow> u16 \<Rightarrow> u16 \<Rightarrow> u16 \<Rightarrow> u8 list \<Rightarrow> u16" where
  "net_checksum_tcp_udp2 src_ip dst_ip proto len src_port dst_port bytes =
     net_checksum_finish (net_checksum_add src_ip 0 + net_checksum_add dst_ip 0 + ucast proto + ucast len
       + ucast src_port + ucast dst_port + ucast len + net_checksum_add bytes 0)"

text \<open>The copies of \<^verbatim>\<open>tcp.c\<close>.\<close>

fun sum_every_16bits :: "u8 list \<Rightarrow> u32 \<Rightarrow> u32" where
  "sum_every_16bits (b0 # b1 # bs) acc = sum_every_16bits bs (acc + (ucast b0 OR push_bit 8 (ucast b1)))"
| "sum_every_16bits [b] acc = acc + ucast b"
| "sum_every_16bits [] acc = acc"

definition checksum :: "u8 list \<Rightarrow> u32 \<Rightarrow> u16" where
  "checksum bytes start_sum = ucast (NOT (net_checksum_fold (start_sum + sum_every_16bits bytes 0)))"

text \<open>\<^verbatim>\<open>htons\<close> and \<^verbatim>\<open>htonl\<close> (\<^verbatim>\<open>libport.c\<close>) reverse the bytes.\<close>

definition byte_at :: "nat \<Rightarrow> 'a::len word \<Rightarrow> u8" where
  "byte_at k w = ucast (drop_bit (8 * k) w)"

definition htons :: "u16 \<Rightarrow> u16" where
  "htons short_int = push_bit 8 (ucast (byte_at 0 short_int)) OR ucast (byte_at 1 short_int)"

definition htonl :: "u32 \<Rightarrow> u32" where
  "htonl long_int = push_bit 24 (ucast (byte_at 0 long_int)) OR push_bit 16 (ucast (byte_at 1 long_int))
     OR push_bit 8 (ucast (byte_at 2 long_int)) OR ucast (byte_at 3 long_int)"

lemma byte_and_bit:
  fixes n :: nat
  obtains k m where "n = 8 * k + m" and "m < 8"
  by (rule that [of "n div 8" "n mod 8"]) simp_all

lemma htons_htons [simp]: "htons (htons w) = w"
proof (rule bit_eqI)
  fix n
  assume "possible_bit TYPE(16 word) n"
  moreover obtain k m where "n = 8 * k + m" "m < 8" by (rule byte_and_bit)
  moreover from calculation have "k = 0 \<or> k = 1" by auto
  ultimately show "bit (htons (htons w)) n = bit w n"
    by (auto simp: htons_def byte_at_def bit_or_iff bit_push_bit_iff bit_ucast_iff bit_drop_bit_eq)
qed

lemma bit_htonl:
  assumes "m < 8" and "k < 4"
  shows "bit (htonl w) (8 * k + m) \<longleftrightarrow> bit w (8 * (3 - k) + m)"
proof -
  have "k = 0 \<or> k = 1 \<or> k = 2 \<or> k = 3" using assms(2) by linarith
  then show ?thesis
    using assms(1) by (elim disjE) (simp_all add: htonl_def byte_at_def bit_or_iff bit_push_bit_iff bit_ucast_iff bit_drop_bit_eq)
qed

lemma htonl_htonl [simp]: "htonl (htonl w) = w"
proof (rule bit_eqI)
  fix n
  assume n: "possible_bit TYPE(32 word) n"
  obtain k m where k: "n = 8 * k + m" "m < 8" by (rule byte_and_bit)
  then have "k < 4" "3 - k < 4" "3 - (3 - k) = k" using n by auto
  then show "bit (htonl (htonl w)) n = bit w n" using k by (simp only: bit_htonl)
qed

definition tcp_udp_checksum :: "u32 \<Rightarrow> u32 \<Rightarrow> u8 \<Rightarrow> u8 list \<Rightarrow> u16 \<Rightarrow> u16" where
  "tcp_udp_checksum saddr daddr proto bytes len =
     checksum bytes (saddr + daddr + ucast (htons (push_bit 1 (ucast proto))) + ucast (htons len))"

definition tcp_v4_checksum :: "u8 list \<Rightarrow> u16 \<Rightarrow> u32 \<Rightarrow> u32 \<Rightarrow> u32" where
  "tcp_v4_checksum bytes len saddr daddr = ucast (tcp_udp_checksum saddr daddr 6 bytes len)"

subsection \<open>Byte order\<close>

lemma unat_drop_bit: "unat (drop_bit n w) = unat w div 2 ^ n" for w :: "'a::len word"
proof -
  have "take_bit LENGTH('a) (unat w) = unat w" by (rule take_bit_nat_eq_self) (rule unsigned_less)
  then have "unat (drop_bit n w) = drop_bit n (unat w)" by (simp only: unsigned_drop_bit_eq)
  then show ?thesis by (simp only: drop_bit_eq_div)
qed

lemma byte_at_of_nat: "byte_at k w = of_nat (unat w div 256 ^ k)" for w :: "'a::len word"
proof -
  have "byte_at k w = of_nat (unat (drop_bit (8 * k) w))" unfolding byte_at_def by (simp only: of_nat_unat)
  then show ?thesis by (simp add: unat_drop_bit power_mult)
qed

lemma le_digits_bytes: "le_digits n v = map (\<lambda>k. of_nat (v div 256 ^ k)) [0..<n]"
proof (induction n arbitrary: v)
  case (Suc n)
  have "map (\<lambda>k. of_nat (v div 256 ^ k) :: u8) [0..<Suc n] = of_nat v # map (\<lambda>k. of_nat (v div 256 ^ Suc k)) [0..<n]"
    by (simp add: upt_conv_Cons map_Suc_upt [symmetric] comp_def del: upt_Suc)
  then show ?case using Suc.IH [of "v div 256"] by (simp add: div_mult2_eq)
qed simp

lemma put_le_bytes: "put_le n w = map (\<lambda>k. byte_at k w) [0..<n]"
  by (simp add: put_le_def le_digits_bytes byte_at_of_nat)

lemma put_be_bytes: "put_be n w = rev (map (\<lambda>k. byte_at k w) [0..<n])"
  by (simp add: put_be_def le_digits_bytes byte_at_of_nat)

lemma byte_at_htons: "byte_at 0 (htons w) = byte_at 1 w" "byte_at 1 (htons w) = byte_at 0 w"
  by (rule bit_eqI, auto simp: htons_def byte_at_def bit_or_iff bit_push_bit_iff bit_ucast_iff bit_drop_bit_eq)+

lemma byte_at_htonl:
  assumes "k < 4"
  shows "byte_at k (htonl w) = byte_at (3 - k) w"
proof (rule bit_eqI)
  fix m
  assume "possible_bit TYPE(8 word) m"
  then have "m < 8" by simp
  then show "bit (byte_at k (htonl w)) m = bit (byte_at (3 - k) w) m"
    using bit_htonl [of m k w] assms by (simp add: byte_at_def bit_ucast_iff bit_drop_bit_eq)
qed

text \<open>Storing the result of \<^verbatim>\<open>htons\<close> or \<^verbatim>\<open>htonl\<close> in the CPU's byte order stores the value in network byte order.\<close>

lemma put_le_htons: "put_le 2 (htons w) = put_be 2 w"
  using byte_at_htons [of w] by (simp add: put_le_bytes put_be_bytes upt_rec)

lemma put_le_htonl: "put_le 4 (htonl w) = put_be 4 w"
  using byte_at_htonl [of 0 w] byte_at_htonl [of 1 w] byte_at_htonl [of 2 w] byte_at_htonl [of 3 w]
  by (simp add: put_le_bytes put_be_bytes upt_rec numeral_3_eq_3 numeral_2_eq_2)

subsection \<open>Sums of words\<close>

fun le_sum :: "u8 list \<Rightarrow> nat" where
  "le_sum [] = 0"
| "le_sum [b] = unat b"
| "le_sum (b0 # b1 # bs) = unat b0 + 256 * unat b1 + le_sum bs"

text \<open>RFC 1071: the acc of the big-endian 16-bit words, an odd last byte padded with a zero byte.\<close>

fun be_sum :: "u8 list \<Rightarrow> nat" where
  "be_sum [] = 0"
| "be_sum [b] = 256 * unat b"
| "be_sum (b0 # b1 # bs) = 256 * unat b0 + unat b1 + be_sum bs"

text \<open>Ones' complement reduction to 16 bits.\<close>

definition ones_fold :: "nat \<Rightarrow> nat" where
  "ones_fold s = (if s = 0 then 0 else (s - 1) mod 65535 + 1)"

definition verifies :: "u8 list \<Rightarrow> bool" where
  "verifies bytes \<longleftrightarrow> ones_fold (be_sum bytes) = 65535"

lemma ones_fold_cong:
  assumes "a mod 65535 = b mod 65535" and "0 < a" and "0 < b"
  shows "ones_fold a = ones_fold b"
proof -
  obtain a' b' where "a = Suc a'" "b = Suc b'" using assms(2,3) by (metis gr0_implies_Suc)
  moreover from this have "a' mod 65535 = b' mod 65535" using assms(1) by (auto simp: mod_Suc split: if_splits)
  ultimately show ?thesis by (simp add: ones_fold_def)
qed

lemma ones_fold_step:
  assumes "65536 \<le> n"
  shows "ones_fold (n mod 65536 + n div 65536) = ones_fold n"
proof (rule ones_fold_cong)
  have "n = n mod 65536 + n div 65536 + n div 65536 * 65535" using div_mult_mod_eq [of n 65536] by linarith
  then show "(n mod 65536 + n div 65536) mod 65535 = n mod 65535" by (metis mod_mult_self1)
qed (use assms in \<open>auto simp: div_greater_zero_iff\<close>)

lemma net_checksum_fold_unat: "unat (net_checksum_fold acc) = ones_fold (unat acc)"
proof (induction acc rule: net_checksum_fold.induct)
  case (1 acc)
  show ?case
  proof (cases "drop_bit 16 acc = 0")
    case True
    then have "unat acc < 65536" by (simp only: drop_16_eq_0)
    then show ?thesis using True by (simp add: net_checksum_fold.simps [of acc] ones_fold_def)
  next
    case False
    then have "65536 \<le> unat acc" by (simp only: drop_16_eq_0 not_less)
    then have "ones_fold (unat ((acc AND 0xffff) + drop_bit 16 acc)) = ones_fold (unat acc)"
      by (simp only: fold_step_unat ones_fold_step)
    then show ?thesis using "1.IH" [OF False] False by (simp only: net_checksum_fold.simps [of acc] if_True simp_thms)
  qed
qed

lemma unat_byte_less: "unat b < 256" for b :: u8
proof -
  have "unat b < 2 ^ LENGTH(8)" by (rule unsigned_less)
  then show ?thesis by simp
qed

lemma unat_ucast_byte [simp]: "unat (ucast b :: u32) = unat b" for b :: u8
  using unat_byte_less [of b] by (simp add: unsigned_ucast_eq take_bit_nat_eq_self)

lemma unat_pair: "unat (ucast b0 OR push_bit 8 (ucast b1) :: u32) = unat b0 + 256 * unat b1" for b0 b1 :: u8
proof -
  have dis: "ucast b0 AND push_bit 8 (ucast b1) = (0 :: u32)"
    by (rule bit_eqI) (auto simp: bit_and_iff bit_push_bit_iff bit_ucast_iff dest: bit_imp_le_length)
  note b = unat_byte_less [of b0] unat_byte_less [of b1]
  have "unat (push_bit 8 (ucast b1) :: u32) = 256 * unat b1"
    using b by (simp add: push_bit_eq_mult unat_word_ariths)
  then show ?thesis
    using b by (simp add: disjunctive_add_eq_or [OF dis, symmetric] unat_word_ariths)
qed

lemma net_checksum_add_unat:
  "unat acc + le_sum bs < 2 ^ 32 \<Longrightarrow> unat (net_checksum_add bs acc) = unat acc + le_sum bs"
proof (induction bs acc rule: net_checksum_add.induct)
  case (2 b acc)
  then show ?case by (simp add: unat_word_ariths)
next
  case (3 b0 b1 bs acc)
  have "unat (acc + (ucast b0 OR push_bit 8 (ucast b1))) = unat acc + (unat b0 + 256 * unat b1)"
    using "3.prems" by (simp add: unat_word_ariths unat_pair)
  then show ?case using "3.IH" "3.prems" by simp
qed simp

lemma sum_every_16bits_eq: "sum_every_16bits bs acc = net_checksum_add bs acc"
  by (induction bs acc rule: net_checksum_add.induct) simp_all

lemma le_sum_append: "even (length xs) \<Longrightarrow> le_sum (xs @ ys) = le_sum xs + le_sum ys"
  by (induction xs rule: le_sum.induct) simp_all

lemma le_sum_bound: "le_sum bs \<le> 65535 * ((length bs + 1) div 2)"
proof (induction bs rule: le_sum.induct)
  case (2 b)
  then show ?case using unat_byte_less [of b] by simp
next
  case (3 b0 b1 bs)
  then show ?case using unat_byte_less [of b0] unat_byte_less [of b1] by simp
qed simp

lemma be_sum_le_sum: "be_sum bs mod 65535 = 256 * le_sum bs mod 65535" "be_sum bs = 0 \<longleftrightarrow> le_sum bs = 0"
proof (induction bs rule: le_sum.induct)
  case (3 b0 b1 bs)
  case 1
  have "256 * le_sum (b0 # b1 # bs) = (256 * unat b0 + unat b1 + 256 * le_sum bs) + 65535 * unat b1" by simp
  then have "256 * le_sum (b0 # b1 # bs) mod 65535 = (256 * unat b0 + unat b1 + 256 * le_sum bs) mod 65535"
    by (simp only: mod_mult_self2)
  also have "\<dots> = (256 * unat b0 + unat b1 + be_sum bs) mod 65535" using 3(1) by (metis mod_add_right_eq)
  finally show ?case by simp
qed simp_all

lemma net_checksum_finish_unat: "unat (net_checksum_finish acc) = 65535 - ones_fold (unat acc)"
proof -
  define f where "f = net_checksum_fold acc"
  have f: "unat f = ones_fold (unat acc)" "unat f < 65536"
  proof -
    show eq: "unat f = ones_fold (unat acc)" by (simp add: f_def net_checksum_fold_unat)
    have "(unat acc - 1) mod 65535 < 65535" by simp
    then show "unat f < 65536" unfolding eq ones_fold_def by simp
  qed
  have "unat (NOT f) = unat (- 1 :: u32) - unat f"
    by (subst unat_sub [symmetric]) (simp_all only: not_eq_complement minus_diff_commute word_n1_ge)
  then have "unat (NOT f) = 4294967295 - unat f" by (simp add: unsigned_minus_1_eq_mask mask_eq_exp_minus_1)
  then have "unat (ucast (NOT f) :: u16) = (4294967295 - unat f) mod 65536"
    by (simp add: unsigned_ucast_eq take_bit_eq_mod)
  also have "\<dots> = 65535 - unat f"
  proof -
    have "4294967295 - unat f = 65535 - unat f + 65535 * 65536" using f(2) by simp
    then show ?thesis using f(2) by (simp only: mod_mult_self1) simp
  qed
  finally show ?thesis using f(1) by (simp add: net_checksum_finish_def f_def)
qed

lemma ones_fold_complement: "(s + (65535 - ones_fold s)) mod 65535 = 0" "0 < s + (65535 - ones_fold s)"
proof -
  have r: "(s - 1) mod 65535 < 65535" by simp
  then show "0 < s + (65535 - ones_fold s)" by (cases s) (simp_all add: ones_fold_def)
  show "(s + (65535 - ones_fold s)) mod 65535 = 0"
  proof (cases "s = 0")
    case False
    define d q where "d = (s - 1) mod 65535" and "q = (s - 1) div 65535"
    have "s - 1 = q * 65535 + d" unfolding d_def q_def by simp
    moreover have "d < 65535" using r by (simp add: d_def)
    ultimately have "s + (65535 - (d + 1)) = (q + 1) * 65535" using False by simp
    then have "s + (65535 - ones_fold s) = (q + 1) * 65535" using False by (simp add: ones_fold_def d_def)
    then show ?thesis by (simp only: mod_mult_self2_is_0)
  qed (simp add: ones_fold_def)
qed

lemma le_sum_put_le: "le_sum (put_le 2 c @ bs) = unat c + le_sum bs" for c :: u16
proof -
  have c: "unat c < 65536" using unsigned_less [of c] by simp
  have "put_le 2 c = [of_nat (unat c), of_nat (unat c div 256)]" by (simp add: put_le_def numeral_2_eq_2)
  moreover have "unat (of_nat (unat c) :: u8) = unat c mod 256" "unat (of_nat (unat c div 256) :: u8) = unat c div 256"
    using c by (simp_all only: unat_of_nat) simp_all
  ultimately show ?thesis using mod_mult_div_eq [of "unat c" 256] by simp
qed

lemma checksum_field_verifies:
  assumes "even (length pre)" and "length pre + length post \<le> 2 ^ 17 - 2"
  shows "verifies (pre @ put_le 2 (net_checksum_ipv4 (pre @ [0, 0] @ post)) @ post)
    \<and> checksum (pre @ [0, 0] @ post) 0 = net_checksum_ipv4 (pre @ [0, 0] @ post)"
proof
  let ?m = "pre @ [0, 0] @ post" and ?c = "net_checksum_ipv4 (pre @ [0, 0] @ post)"
  have sums: "le_sum ?m = le_sum pre + le_sum post" "le_sum (pre @ put_le 2 ?c @ post) = le_sum ?m + unat ?c"
    using assms(1) by (simp_all add: le_sum_append le_sum_put_le)
  have "(length ?m + 1) div 2 \<le> 65536" using assms(2) by simp
  then have "le_sum ?m < 2 ^ 32" using le_sum_bound [of ?m] by simp
  then have c: "unat ?c = 65535 - ones_fold (le_sum ?m)"
    using net_checksum_add_unat [of 0 ?m] by (simp add: net_checksum_ipv4_def net_checksum_finish_unat)
  have total: "(le_sum ?m + unat ?c) mod 65535 = 0" "0 < le_sum ?m + unat ?c"
    unfolding c using ones_fold_complement [of "le_sum ?m"] by simp_all
  have "be_sum (pre @ put_le 2 ?c @ post) mod 65535 = 65535 mod 65535"
    unfolding be_sum_le_sum(1) sums(2) using total(1) by (simp only: mod_eq_0_iff_dvd mod_self dvd_mult)
  then have "ones_fold (be_sum (pre @ put_le 2 ?c @ post)) = ones_fold 65535"
    by (rule ones_fold_cong) (use be_sum_le_sum(2) [of "pre @ put_le 2 ?c @ post"] total(2) sums(2) in auto)
  then show "verifies (pre @ put_le 2 ?c @ post)" by (simp add: verifies_def ones_fold_def)
  show "checksum ?m 0 = ?c"
    by (simp add: checksum_def net_checksum_ipv4_def net_checksum_finish_def sum_every_16bits_eq)
qed

text \<open>
  C19. A message with its checksum verifies: when the code computes the checksum of a message (an IPv4
  header or a TCP segment behind its pseudo header) with the two bytes of the checksum field zero and
  writes the result into the field, the ones' complement sum of the big-endian words of the message
  is 0xffff, for every message up to 128 KiB with the field at an even offset. Both copies of the
  routine compute the same value, and both loops terminate.
\<close>

theorem internet_checksum_verifies:
  assumes "even (length pre)" and "length pre + length post \<le> 2 ^ 17 - 2"
  shows "verifies (pre @ put_le 2 (net_checksum_ipv4 (pre @ [0, 0] @ post)) @ post)
    \<and> checksum (pre @ [0, 0] @ post) 0 = net_checksum_ipv4 (pre @ [0, 0] @ post)"
  using checksum_field_verifies [OF assms] .

theorem internet_checksum_verifies_witness:
  "verifies ([0x45, 0, 0, 28] @ put_le 2 (net_checksum_ipv4 ([0x45, 0, 0, 28] @ [0, 0] @ [192, 168, 0])) @ [192, 168, 0])"
  using internet_checksum_verifies [of "[0x45, 0, 0, 28]" "[192, 168, 0]"] by simp

end
