(* ===== verification/Net_Core.thy ===== *)
theory Net_Core
  imports Net_Checksum Array_M
begin

text \<open>
  The state of the network service (\<^verbatim>\<open>programs/subprojects/net\<close>), its pending-request lists
  (\<^verbatim>\<open>callback.c\<close>), the sending half of the stack (\<^verbatim>\<open>ethernet.c\<close>, \<^verbatim>\<open>ipv4.c\<close>, \<^verbatim>\<open>udp.c\<close>) and the address
  resolution cache (\<^verbatim>\<open>arp.c\<close>). A packet is the list of its bytes; a field is read at its offset in
  the packed struct and reading outside the buffer is \<open>OutOfBounds\<close>. Messages to other processes
  (\<^verbatim>\<open>amc_message_send\<close>) are appended to the outbox of the state, timers that were started to its
  timer list; drawing the tables in the window is left out.
\<close>

subsection \<open>The statics of the service\<close>

datatype net_message =
    TxFrame "u8 list"                     \<comment> \<open>\<^verbatim>\<open>NET_TX_ETHERNET_FRAME\<close>\<close>
  | RpcResponse u32 "u8 list"             \<comment> \<open>event and data of \<^verbatim>\<open>net_send_rpc_response\<close>\<close>
  | TcpOpenResponse u32                   \<comment> \<open>connection descriptor\<close>
  | TcpReadResponse u32 u32 "u8 list"     \<comment> \<open>connection descriptor, length, data\<close>

record net_config =
  nic_mac :: "u8 list"
  ip_addr :: "u8 list"
  router_ip_addr :: "u8 list"

record arp_entry =
  ae_allocated :: bool
  ae_mac_addr :: "u8 list"
  ae_ip_addr :: "u8 list"

record arp_active_request =
  aq_request_count :: u32
  aq_max_request_count :: u32
  aq_request_packet :: "u8 list"

record arp_amc_rpc_info =
  ai_ipv4 :: "u8 list"
  ai_amc_service :: string

text \<open>A \<^verbatim>\<open>callback_t\<close>: the address of its context and the context; the functions are those of its list.\<close>

record 'c callback =
  cb_addr :: nat
  cb_ctx :: 'c

datatype tcp_conn_status = TCP_SYN_SENT | TCP_SYN_ACK_RECV | TCP_ESTABLISHED

record tcp_segment =
  seg_buf :: "u8 list"
  seg_len :: u32
  seg_sequence_start :: u32

record tcp_conn =
  tc_dest_ip :: "u8 list"
  tc_src_port :: u16
  tc_dst_port :: u16
  tc_status :: tcp_conn_status
  tc_send_initial_seqnum :: u32
  tc_send_oldest_unacked_seqnum :: u32
  tc_send_next_seqnum :: u32
  tc_recv_initial_seqnum :: u32
  tc_recv_next_seqnum :: u32
  tc_receive_buffer :: "tcp_segment array_t"

text \<open>A connection is named by its index in \<^verbatim>\<open>_tcp_conns\<close>: connections are never removed or freed.\<close>

datatype tcp_amc_rpc =
    ConnOpen string nat          \<comment> \<open>service, connection\<close>
  | ConnRead string nat u32 u32  \<comment> \<open>service, connection, length, next sequence number to deliver\<close>

record dns_name_parse_state =
  dn_label_count :: int
  dn_name_len :: u8
  dn_name :: "u8 list"

record dns_service_instance =
  si_allocated :: bool
  si_service_name :: dns_name_parse_state

record dns_service_type =
  st_allocated :: bool
  st_type_name :: dns_name_parse_state
  st_instances :: "dns_service_instance list"

record dns_domain =
  dd_allocated :: bool
  dd_name :: dns_name_parse_state
  dd_a_record :: "u8 list"

record dns_amc_rpc_info =
  di_domain_name :: "u8 list"
  di_domain_name_len :: u32
  di_amc_service :: string

record net_state =
  ns_config :: net_config
  ns_arp_table :: "arp_entry list"
  ns_arp_callbacks :: "arp_amc_rpc_info callback array_t"
  ns_arp_timers :: "arp_active_request list"
  ns_tcp_conns :: "tcp_conn list"
  ns_tcp_callbacks :: "tcp_amc_rpc callback array_t"
  ns_dns_services :: "dns_service_type list"
  ns_dns_domains :: "dns_domain list"
  ns_dns_callbacks :: "dns_amc_rpc_info callback array_t"
  ns_outbox :: "(string \<times> net_message) list"

definition RTL8139_SERVICE_NAME :: string where "RTL8139_SERVICE_NAME = ''com.axle.realtek_8139_driver''"

definition amc_message_send :: "string \<Rightarrow> net_message \<Rightarrow> net_state \<Rightarrow> net_state" where
  "amc_message_send service msg s = s\<lparr>ns_outbox := ns_outbox s @ [(service, msg)]\<rparr>"

definition net_send_rpc_response :: "string \<Rightarrow> u32 \<Rightarrow> u8 list \<Rightarrow> net_state \<Rightarrow> net_state" where
  "net_send_rpc_response service event buf s = amc_message_send service (RpcResponse event buf) s"

text \<open>\<^verbatim>\<open>net_copy_local_ipv4_addr__u32\<close>, stored into a header in the CPU's byte order.\<close>

definition net_copy_local_ipv4_addr_u32 :: "net_state \<Rightarrow> u32 res" where
  "net_copy_local_ipv4_addr_u32 s = get_le 4 (ip_addr (ns_config s)) 0"

subsection \<open>Pending requests\<close>

definition callback_list_add_callback :: "'c callback array_t \<Rightarrow> nat \<Rightarrow> 'c \<Rightarrow> 'c callback array_t res" where
  "callback_list_add_callback callback_list addr callback_info =
     array_insert callback_list \<lparr>cb_addr = addr, cb_ctx = callback_info\<rparr>"

text \<open>The indexes of the satisfied callbacks from \<open>i\<close> on, and their completion from the last to the first.\<close>

function satisfied_from ::
  "'c callback array_t \<Rightarrow> ('c \<Rightarrow> bool res) \<Rightarrow> int \<Rightarrow> int list res" where
  "satisfied_from callback_list is_satisfied i =
     (if i < at_size callback_list
      then ebind (array_lookup callback_list i) (\<lambda>p. ebind (deref p) (\<lambda>cb.
           ebind (is_satisfied (cb_ctx cb)) (\<lambda>b.
           ebind (satisfied_from callback_list is_satisfied (i + 1)) (\<lambda>rest.
           Inr (if b then i # rest else rest)))))
      else Inr [])"
  by pat_completeness auto
termination
  by (relation "measure (\<lambda>(a, _, i). nat (at_size a - i))") auto

declare satisfied_from.simps [simp del]

fun complete_indexes ::
  "('s \<Rightarrow> 'c callback array_t) \<Rightarrow> ('c callback array_t \<Rightarrow> 's \<Rightarrow> 's) \<Rightarrow> ('c \<Rightarrow> 's \<Rightarrow> 's res) \<Rightarrow> int list \<Rightarrow> 's \<Rightarrow> 's res" where
  "complete_indexes get set_list complete [] s = Inr s"
| "complete_indexes get set_list complete (idx # idxs) s =
     ebind (array_lookup (get s) idx) (\<lambda>p. ebind (deref p) (\<lambda>cb.
     ebind (array_remove (get s) idx) (\<lambda>l.
     ebind (complete (cb_ctx cb) (set_list l s)) (\<lambda>s.
     complete_indexes get set_list complete idxs s))))"

definition callback_list_invoke_ready_callbacks ::
  "('s \<Rightarrow> 'c callback array_t) \<Rightarrow> ('c callback array_t \<Rightarrow> 's \<Rightarrow> 's) \<Rightarrow> ('s \<Rightarrow> 'c \<Rightarrow> bool res) \<Rightarrow> ('c \<Rightarrow> 's \<Rightarrow> 's res)
    \<Rightarrow> 's \<Rightarrow> 's res" where
  "callback_list_invoke_ready_callbacks get set_list is_satisfied complete s =
     ebind (satisfied_from (get s) (is_satisfied s) 0) (\<lambda>idxs.
     complete_indexes get set_list complete (rev idxs) s)"

text \<open>The first callback with the given context address: the index and the callback, if there is one.\<close>

function find_callback_from :: "'c callback array_t \<Rightarrow> nat \<Rightarrow> int \<Rightarrow> (int \<times> 'c callback) option res" where
  "find_callback_from callback_list addr i =
     (if i < at_size callback_list
      then ebind (array_lookup callback_list i) (\<lambda>p. ebind (deref p) (\<lambda>cb.
           if cb_addr cb = addr then Inr (Some (i, cb)) else find_callback_from callback_list addr (i + 1)))
      else Inr None)"
  by pat_completeness auto
termination
  by (relation "measure (\<lambda>(a, _, i). nat (at_size a - i))") auto

declare find_callback_from.simps [simp del]

definition callback_list_invoke_callback_if_ready ::
  "('s \<Rightarrow> 'c callback array_t) \<Rightarrow> ('c callback array_t \<Rightarrow> 's \<Rightarrow> 's) \<Rightarrow> ('s \<Rightarrow> 'c \<Rightarrow> bool res) \<Rightarrow> ('c \<Rightarrow> 's \<Rightarrow> 's res)
    \<Rightarrow> nat \<Rightarrow> 's \<Rightarrow> (bool \<times> 's) res" where
  "callback_list_invoke_callback_if_ready get set_list is_satisfied complete addr s =
     ebind (find_callback_from (get s) addr 0) (\<lambda>r.
     case r of
       None \<Rightarrow> Inr (False, s)
     | Some (i, cb) \<Rightarrow>
         ebind (is_satisfied s (cb_ctx cb)) (\<lambda>b.
         if b then ebind (array_remove (get s) i) (\<lambda>l.
                   ebind (complete (cb_ctx cb) (set_list l s)) (\<lambda>s. Inr (True, s)))
         else Inr (False, s)))"

subsection \<open>What invoking the ready callbacks does\<close>

definition ready_indexes :: "('a \<Rightarrow> bool) \<Rightarrow> 'a list \<Rightarrow> int list" where
  "ready_indexes P xs = map int (filter (\<lambda>i. P (xs ! i)) [0..<length xs])"

lemma ready_indexes_snoc:
  "ready_indexes P (xs @ [x]) = ready_indexes P xs @ (if P x then [int (length xs)] else [])"
  by (auto simp: ready_indexes_def nth_append intro!: filter_cong)

lemma satisfied_from_indexes:
  assumes "at_ok a" and "\<And>cb. cb \<in> set (at_list a) \<Longrightarrow> is_satisfied (cb_ctx cb) = Inr (P cb)" and "i \<le> length (at_list a)"
  shows "satisfied_from a is_satisfied (int i) = Inr (map int (filter (\<lambda>i. P (at_list a ! i)) [i..<length (at_list a)]))"
  using assms(3)
proof (induction "length (at_list a) - i" arbitrary: i)
  case 0
  then show ?case using at_ok_size [OF assms(1)] by (simp add: satisfied_from.simps [of a])
next
  case (Suc n)
  then have i: "i < length (at_list a)" and n: "n = length (at_list a) - Suc i" by simp_all
  have "satisfied_from a is_satisfied (int i + 1) = Inr (map int (filter (\<lambda>i. P (at_list a ! i)) [Suc i..<length (at_list a)]))"
    using Suc.hyps(1) [OF n] i by (simp add: add.commute)
  then show ?case
    using i array_lookup_as [OF assms(1) i] assms(2) [of "at_list a ! i"] at_ok_size [OF assms(1)]
    by (simp add: satisfied_from.simps [of a _ "int i"] upt_conv_Cons)
qed

text \<open>
  A list of pending requests inside a larger state: completing a request neither reads nor changes
  the list itself.
\<close>

locale callback_list =
  fixes get :: "'s \<Rightarrow> 'c callback array_t"
    and set_list :: "'c callback array_t \<Rightarrow> 's \<Rightarrow> 's"
    and is_satisfied :: "'s \<Rightarrow> 'c \<Rightarrow> bool res"
    and complete :: "'c \<Rightarrow> 's \<Rightarrow> 's res"
  assumes get_set: "get (set_list l s) = l"
    and set_set: "set_list l (set_list l' s) = set_list l s"
    and set_get: "set_list (get s) s = s"
    and complete_frame: "complete c (set_list l s) = ebind (complete c s) (\<lambda>s'. Inr (set_list l s'))"
begin

lemma complete_indexes_frame:
  assumes "at_ok (get s)" and "at_list (get s) = xs @ zs" and "length xs + length zs < at_cap (get s)"
  shows "\<exists>l. at_ok l \<and> at_cap l = at_cap (get s) \<and> at_list l = filter (\<lambda>x. \<not> P x) xs @ zs
    \<and> complete_indexes get set_list complete (rev (ready_indexes P xs)) s
      = ebind (run_ops complete (map cb_ctx (rev (filter P xs))) s) (\<lambda>s'. Inr (set_list l s'))"
  using assms
proof (induction xs arbitrary: s zs rule: rev_induct)
  case Nil
  then show ?case by (intro exI [of _ "get s"]) (simp add: ready_indexes_def set_get)
next
  case (snoc x xs)
  show ?case
  proof (cases "P x")
    case False
    then show ?thesis using snoc.IH [of s "x # zs"] snoc.prems by (simp add: ready_indexes_snoc)
  next
    case True
    have i: "length xs < length (at_list (get s))" and nth: "at_list (get s) ! length xs = x"
      using snoc.prems(2) by simp_all
    obtain a where a: "array_remove (get s) (int (length xs)) = Inr a" "at_ok a" "at_list a = xs @ zs" "at_cap a = at_cap (get s)"
      using ut.del_ok [OF snoc.prems(1) i] snoc.prems(2,3) by (auto simp: remove_nth_def)
    have step: "complete_indexes get set_list complete (rev (ready_indexes P (xs @ [x]))) s =
        ebind (complete (cb_ctx x) s) (\<lambda>s'. complete_indexes get set_list complete (rev (ready_indexes P xs)) (set_list a s'))"
      using True a(1) array_lookup_as [OF snoc.prems(1) i] nth
      by (simp add: ready_indexes_snoc complete_frame ebind_assoc)
    show ?thesis
    proof (cases "complete (cb_ctx x) s")
      case (Inl e)
      then show ?thesis
        using step True snoc.IH [of "set_list a s" zs] a snoc.prems(3) by (auto simp: get_set)
    next
      case (Inr s')
      obtain l where l: "at_ok l" "at_cap l = at_cap (get s)" "at_list l = filter (\<lambda>x. \<not> P x) xs @ zs"
          "complete_indexes get set_list complete (rev (ready_indexes P xs)) (set_list a s')
            = ebind (run_ops complete (map cb_ctx (rev (filter P xs))) (set_list a s')) (\<lambda>s'. Inr (set_list l s'))"
        using snoc.IH [of "set_list a s'" zs] a snoc.prems(3) by (auto simp: get_set)
      have "run_ops complete cs (set_list a s') = ebind (run_ops complete cs s') (\<lambda>s'. Inr (set_list a s'))" for cs
        by (induction cs arbitrary: s') (simp_all add: complete_frame ebind_assoc cong: ebind_cong)
      then show ?thesis
        using step Inr True l by (auto simp: ebind_assoc set_set)
    qed
  qed
qed

text \<open>
  Exactly the satisfied requests are completed, once each, the newest first, and exactly the others
  stay, in their order.
\<close>

lemma invoke_ready:
  assumes "at_ok (get s)" and "length (at_list (get s)) < at_cap (get s)"
    and "\<And>cb. cb \<in> set (at_list (get s)) \<Longrightarrow> is_satisfied s (cb_ctx cb) = Inr (P cb)"
  shows "\<exists>l. at_ok l \<and> at_cap l = at_cap (get s) \<and> at_list l = filter (\<lambda>cb. \<not> P cb) (at_list (get s))
    \<and> callback_list_invoke_ready_callbacks get set_list is_satisfied complete s
      = ebind (run_ops complete (map cb_ctx (rev (filter P (at_list (get s))))) s) (\<lambda>s'. Inr (set_list l s'))"
proof -
  have "satisfied_from (get s) (is_satisfied s) 0 = Inr (ready_indexes P (at_list (get s)))"
    using satisfied_from_indexes [of "get s" "is_satisfied s" P 0] assms(1,3) by (simp add: ready_indexes_def)
  then show ?thesis
    using complete_indexes_frame [OF assms(1), of "at_list (get s)" "[]" P] assms(2)
    by (simp add: callback_list_invoke_ready_callbacks_def)
qed

end

subsection \<open>Reading packed structures\<close>

lemma field_skip: "length xs \<le> off \<Longrightarrow> field (xs @ ys) off n = field ys (off - length xs) n"
  by (auto simp: field_def)

lemma field_here: "length xs = n \<Longrightarrow> field (xs @ ys) 0 n = Inr xs"
  by (auto simp: field_def)

lemma field_exact: "length xs = n \<Longrightarrow> field xs 0 n = Inr xs"
  by (auto simp: field_def)

lemma field_Cons: "0 < off \<Longrightarrow> field (x # xs) off n = field xs (off - 1) n"
  by (cases off) (auto simp: field_def)

lemma field_one: "field (x # xs) 0 (Suc 0) = Inr [x]"
  by (simp add: field_def)

lemma le_val_put_le: "LENGTH('a) \<le> 8 * n \<Longrightarrow> of_nat (le_val (put_le n w)) = w" for w :: "'a::len word"
  using get_le_put [of n "[]" w "[]"] by (simp add: get_le_def field_def)

lemma le_val_put_be: "LENGTH('a) \<le> 8 * n \<Longrightarrow> of_nat (le_val (rev (put_be n w))) = w" for w :: "'a::len word"
  using get_be_put [of n "[]" w "[]"] by (simp add: get_be_def field_def)

lemma get_le_1: "get_le (Suc 0) bs off = ebind (field bs off (Suc 0)) (\<lambda>f. Inr (of_nat (le_val f)))"
  by (simp add: get_le_def)

lemmas packed_simps = field_skip field_here field_exact field_Cons field_one le_val_put_le get_le_def

end
