(* ===== verification/Net_Arp.thy ===== *)
theory Net_Arp
  imports Net_Core
begin

text \<open>
  The sending half of the stack (\<^verbatim>\<open>ethernet.c\<close>, \<^verbatim>\<open>ipv4.c\<close>, \<^verbatim>\<open>udp.c\<close>) and address resolution (\<^verbatim>\<open>arp.c\<close>):
  the table of known addresses, announcements, requests with their retries, and the requests of
  other processes that wait for an answer. The table implements a partial map from IPv4 addresses
  to MAC addresses of at most 256 entries.
\<close>

definition uassert :: "bool \<Rightarrow> string \<Rightarrow> unit res" where
  "uassert c msg = (if c then Inr () else Inl (TaskAssert msg))"

lemma uassert_simps [simp]: "uassert True msg = Inr ()" "uassert False msg = Inl (TaskAssert msg)" "uassert c msg = Inr u \<longleftrightarrow> c"
  by (simp_all add: uassert_def)

subsection \<open>The table\<close>

definition ARP_TABLE_SIZE :: nat where "ARP_TABLE_SIZE = 256"

definition arp_matches :: "u8 list \<Rightarrow> arp_entry \<Rightarrow> bool" where
  "arp_matches ip ent \<longleftrightarrow> ae_allocated ent \<and> ip = ae_ip_addr ent"

definition arp_copy_mac :: "net_state \<Rightarrow> u8 list \<Rightarrow> u8 list option" where
  "arp_copy_mac s ip = map_option ae_mac_addr (find (arp_matches ip) (ns_arp_table s))"

definition arp_cache_contains_ipv4 :: "net_state \<Rightarrow> u8 list \<Rightarrow> bool" where
  "arp_cache_contains_ipv4 s ip \<longleftrightarrow> find (arp_matches ip) (ns_arp_table s) \<noteq> None"

definition update_arp_table :: "u8 list \<Rightarrow> u8 list \<Rightarrow> net_state \<Rightarrow> net_state res" where
  "update_arp_table mac ip s =
     (let tab = ns_arp_table s in
      case first_index (arp_matches ip) tab of
        Some i \<Rightarrow> Inr (s\<lparr>ns_arp_table := tab[i := (tab ! i)\<lparr>ae_mac_addr := mac\<rparr>]\<rparr>)
      | None \<Rightarrow>
          (case first_index (\<lambda>ent. \<not> ae_allocated ent) tab of
             Some i \<Rightarrow> Inr (s\<lparr>ns_arp_table := tab[i := \<lparr>ae_allocated = True, ae_mac_addr = mac, ae_ip_addr = ip\<rparr>]\<rparr>)
           | None \<Rightarrow> Inl (TaskAssert ''Failed to find a free ARP slot'')))"

subsection \<open>Sending\<close>

definition ethernet_send :: "u8 list \<Rightarrow> u16 \<Rightarrow> u8 list \<Rightarrow> net_state \<Rightarrow> net_state" where
  "ethernet_send dst_mac_addr ethtype packet s =
     amc_message_send RTL8139_SERVICE_NAME
       (TxFrame (dst_mac_addr @ nic_mac (ns_config s) @ put_le 2 (htons ethtype) @ packet)) s"

definition ETHTYPE_ARP :: u16 where "ETHTYPE_ARP = 0x0806"
definition ETHTYPE_IPv4 :: u16 where "ETHTYPE_IPv4 = 0x0800"
definition IPv4_PROTOCOL_TCP :: u8 where "IPv4_PROTOCOL_TCP = 0x06"
definition IPv4_PROTOCOL_UDP :: u8 where "IPv4_PROTOCOL_UDP = 0x11"

text \<open>The 20 header bytes \<^verbatim>\<open>ipv4_send\<close> fills in: version and length, total length, identification, time to live, protocol, checksum, addresses.\<close>

definition ipv4_header :: "u32 \<Rightarrow> u8 \<Rightarrow> u16 \<Rightarrow> u32 \<Rightarrow> u8 list \<Rightarrow> u8 list" where
  "ipv4_header total_length protocol header_checksum source_ip dest_ip =
     ([0x45, 0] @ put_le 2 (htons (ucast total_length)) @ put_le 2 (4 :: u16) @ [0, 0, 64, protocol])
     @ put_le 2 header_checksum @ (put_le 4 source_ip @ dest_ip)"

definition ipv4_send :: "u8 list \<Rightarrow> u8 \<Rightarrow> u8 list \<Rightarrow> net_state \<Rightarrow> net_state res" where
  "ipv4_send dst_ipv4_addr protocol packet s =
     (let ipv4_packet_size = 20 + of_nat (length packet) in
      ebind (net_copy_local_ipv4_addr_u32 s) (\<lambda>source_ip.
      let header_checksum = net_checksum_ipv4 (ipv4_header ipv4_packet_size protocol 0 source_ip dst_ipv4_addr);
          wrapper = ipv4_header ipv4_packet_size protocol header_checksum source_ip dst_ipv4_addr @ packet
      in case arp_copy_mac s (router_ip_addr (ns_config s)) of
           None \<Rightarrow> Inl (TaskAssert ''ARP failed to map the routers MAC'')
         | Some router_mac \<Rightarrow> Inr (ethernet_send router_mac ETHTYPE_IPv4 wrapper s)))"

definition udp_send :: "u8 list \<Rightarrow> u16 \<Rightarrow> u16 \<Rightarrow> u8 list \<Rightarrow> net_state \<Rightarrow> net_state res" where
  "udp_send packet source_port dest_port dst_ip s =
     (let udp_packet_size = 8 + length packet;
          wrapper = put_le 2 (htons source_port) @ put_le 2 (htons dest_port) @ put_le 2 (htons (of_nat udp_packet_size))
            @ [0, 0] @ packet
      in ipv4_send dst_ip IPv4_PROTOCOL_UDP wrapper s)"

subsection \<open>Address resolution\<close>

definition arp_packet :: "u16 \<Rightarrow> u8 list \<Rightarrow> u8 list \<Rightarrow> u8 list \<Rightarrow> u8 list \<Rightarrow> u8 list" where
  "arp_packet opcode sender_hware_addr sender_proto_addr target_hware_addr target_proto_addr =
     put_le 2 (htons 1) @ put_le 2 (htons 0x0800) @ [6, 4] @ put_le 2 (htons opcode)
     @ sender_hware_addr @ sender_proto_addr @ target_hware_addr @ target_proto_addr"

definition arp_send_reply :: "u8 list \<Rightarrow> u8 list \<Rightarrow> net_state \<Rightarrow> net_state" where
  "arp_send_reply target_ipv4_addr target_mac_addr s =
     ethernet_send target_mac_addr ETHTYPE_ARP
       (arp_packet 2 (nic_mac (ns_config s)) (ip_addr (ns_config s)) (replicate 6 0) target_ipv4_addr) s"

definition arp_is_amc_rpc_satisfied :: "net_state \<Rightarrow> arp_amc_rpc_info \<Rightarrow> bool res" where
  "arp_is_amc_rpc_satisfied s rpc = Inr (arp_cache_contains_ipv4 s (ai_ipv4 rpc))"

definition arp_complete_amc_rpc :: "arp_amc_rpc_info \<Rightarrow> net_state \<Rightarrow> net_state res" where
  "arp_complete_amc_rpc rpc s =
     (case arp_copy_mac s (ai_ipv4 rpc) of
        None \<Rightarrow> Inl (TaskAssert ''Failed to map IPv4 to MAC'')
      | Some mac \<Rightarrow> Inr (net_send_rpc_response (ai_amc_service rpc) 8 mac s))"

definition set_arp_callbacks :: "arp_amc_rpc_info callback array_t \<Rightarrow> net_state \<Rightarrow> net_state" where
  "set_arp_callbacks l s = s\<lparr>ns_arp_callbacks := l\<rparr>"

definition arp_invoke_ready_callbacks :: "net_state \<Rightarrow> net_state res" where
  "arp_invoke_ready_callbacks s =
     callback_list_invoke_ready_callbacks ns_arp_callbacks set_arp_callbacks arp_is_amc_rpc_satisfied arp_complete_amc_rpc s"

definition arp_receive :: "u8 list \<Rightarrow> net_state \<Rightarrow> net_state res" where
  "arp_receive pkt s =
     ebind (get_le 2 pkt 0) (\<lambda>hardware_type.
     ebind (uassert (htons hardware_type = 1) ''Unknown ARP hardware type'') (\<lambda>_.
     ebind (get_le 2 pkt 2) (\<lambda>protocol_type.
     ebind (uassert (htons protocol_type = 0x0800) ''Unknown ARP protocol type'') (\<lambda>_.
     ebind (get_le 1 pkt 4) (\<lambda>hware_addr_len.
     ebind (uassert (hware_addr_len = (6 :: u8)) ''MAC address was not 6 bytes'') (\<lambda>_.
     ebind (get_le 1 pkt 5) (\<lambda>proto_addr_len.
     ebind (uassert (proto_addr_len = (4 :: u8)) ''IPv4 address was not 4 bytes'') (\<lambda>_.
     ebind (get_le 2 pkt 6) (\<lambda>op.
     let opcode = htons op in
     ebind (if opcode = 2 then
              ebind (field pkt 8 6) (\<lambda>sender_hware_addr. ebind (field pkt 14 4) (\<lambda>sender_proto_addr.
              ebind (update_arp_table sender_hware_addr sender_proto_addr s) (\<lambda>s.
              ebind (field pkt 18 6) (\<lambda>target_hware_addr. ebind (field pkt 24 4) (\<lambda>target_proto_addr.
              ebind (update_arp_table target_hware_addr target_proto_addr s) arp_invoke_ready_callbacks)))))
            else if opcode = 1 then
              ebind (field pkt 8 6) (\<lambda>sender_hware_addr. ebind (field pkt 14 4) (\<lambda>sender_proto_addr.
              ebind (update_arp_table sender_hware_addr sender_proto_addr s) (\<lambda>s.
              ebind (field pkt 24 4) (\<lambda>target_proto_addr.
              Inr (if target_proto_addr = ip_addr (ns_config s)
                   then arp_send_reply sender_proto_addr sender_hware_addr s else s)))))
            else Inr s) (\<lambda>s.
     ebind (field pkt 8 20) (\<lambda>_. Inr s)))))))))))"

definition global_broadcast_mac :: "u8 list" where "global_broadcast_mac = replicate 6 0xff"

definition arp_rerequest_mac :: "arp_active_request \<Rightarrow> net_state \<Rightarrow> net_state res" where
  "arp_rerequest_mac request s =
     ebind (field (aq_request_packet request) 24 4) (\<lambda>target_proto_addr.
     if arp_cache_contains_ipv4 s target_proto_addr then Inr s
     else if aq_request_count request \<ge> aq_max_request_count request then Inr s
     else
       let request = request\<lparr>aq_request_count := aq_request_count request + 1\<rparr>;
           s = s\<lparr>ns_arp_timers := ns_arp_timers s @ [request]\<rparr>
       in Inr (ethernet_send global_broadcast_mac ETHTYPE_ARP (aq_request_packet request) s))"

definition arp_request_mac :: "u8 list \<Rightarrow> net_state \<Rightarrow> net_state" where
  "arp_request_mac dst_ip_addr s =
     (let req = arp_packet 1 (nic_mac (ns_config s)) (ip_addr (ns_config s)) (replicate 6 0) dst_ip_addr;
          request = \<lparr>aq_request_count = 1, aq_max_request_count = 10, aq_request_packet = req\<rparr>;
          s = s\<lparr>ns_arp_timers := ns_arp_timers s @ [request]\<rparr>
      in ethernet_send global_broadcast_mac ETHTYPE_ARP req s)"

definition arp_announce :: "net_state \<Rightarrow> net_state" where
  "arp_announce s = arp_send_reply (ip_addr (ns_config s)) global_broadcast_mac s"

definition arp_perform_amc_rpc_discover_mac :: "nat \<Rightarrow> string \<Rightarrow> u8 list \<Rightarrow> net_state \<Rightarrow> net_state res" where
  "arp_perform_amc_rpc_discover_mac addr source_service ipv4 s =
     (let cb_info = \<lparr>ai_ipv4 = ipv4, ai_amc_service = take 64 source_service\<rparr> in
      ebind (callback_list_add_callback (ns_arp_callbacks s) addr cb_info) (\<lambda>l.
      ebind (callback_list_invoke_callback_if_ready ns_arp_callbacks set_arp_callbacks arp_is_amc_rpc_satisfied
               arp_complete_amc_rpc addr (set_arp_callbacks l s)) (\<lambda>(invoked, s).
      if invoked then Inr s else Inr (arp_request_mac ipv4 s))))"

definition arp_init :: "net_state \<Rightarrow> net_state" where
  "arp_init s = s\<lparr>ns_arp_callbacks := array_create 64\<rparr>"

definition nic_config_received :: "u8 list \<Rightarrow> net_state \<Rightarrow> net_state" where
  "nic_config_received mac s =
     (let s = s\<lparr>ns_config := (ns_config s)\<lparr>nic_mac := mac, ip_addr := [192, 169, 0, 1]\<rparr>\<rparr>;
          s = arp_announce s;
          router_ip = [192, 168, 0, 1];
          s = s\<lparr>ns_config := (ns_config s)\<lparr>router_ip_addr := router_ip\<rparr>\<rparr>
      in arp_request_mac router_ip s)"

subsection \<open>The table is a map\<close>

definition arp_alist :: "arp_entry list \<Rightarrow> (u8 list \<times> u8 list) list" where
  "arp_alist tab = map (\<lambda>ent. (ae_ip_addr ent, ae_mac_addr ent)) (filter ae_allocated tab)"

lemma arp_alist_simps [simp]:
  "arp_alist [] = []"
  "arp_alist (ent # tab) = (if ae_allocated ent then [(ae_ip_addr ent, ae_mac_addr ent)] else []) @ arp_alist tab"
  "arp_alist (xs @ ys) = arp_alist xs @ arp_alist ys"
  by (simp_all add: arp_alist_def)

lemma find_arp_matches: "map_option ae_mac_addr (find (arp_matches ip) tab) = map_of (arp_alist tab) ip"
  by (induction tab) (auto simp: arp_matches_def)

lemma arp_copy_mac_map: "arp_copy_mac s = map_of (arp_alist (ns_arp_table s))"
  by (rule ext) (simp add: arp_copy_mac_def find_arp_matches)

lemma arp_cache_contains_iff: "arp_cache_contains_ipv4 s ip \<longleftrightarrow> ip \<in> dom (arp_copy_mac s)"
  by (auto simp: arp_cache_contains_ipv4_def arp_copy_mac_def)

lemma map_of_insert_mid:
  "ip \<notin> fst ` set xs \<Longrightarrow> map_of (xs @ (ip, mac) # ys) = (map_of (xs @ ys))(ip \<mapsto> mac)"
  by (induction xs) (auto simp: fun_eq_iff)

lemma first_index_split:
  assumes "first_index P xs = Some i"
  obtains as x bs where "xs = as @ x # bs" and "i = length as" and "P x" and "\<forall>y \<in> set as. \<not> P y"
proof -
  have i: "i < length xs" "P (xs ! i)" "\<forall>j < i. \<not> P (xs ! j)" using assms by (simp_all add: first_index_Some)
  show ?thesis
    by (rule that [of "take i xs" "xs ! i" "drop (Suc i) xs"])
      (use i id_take_nth_drop [OF i(1)] in \<open>auto simp: in_set_conv_nth\<close>)
qed

definition free_slots :: "net_state \<Rightarrow> nat" where
  "free_slots s = length (filter (\<lambda>ent. \<not> ae_allocated ent) (ns_arp_table s))"

lemma no_match_fst: "\<forall>y \<in> set as. \<not> arp_matches ip y \<Longrightarrow> ip \<notin> fst ` set (arp_alist as)"
  by (auto simp: arp_alist_def arp_matches_def)

text \<open>
  Recording an address pair updates the map, uses up at most one free slot and touches nothing else;
  without a free slot only known addresses can be updated.
\<close>

lemma update_arp_table_map:
  assumes "0 < free_slots s \<or> ip \<in> dom (arp_copy_mac s)"
  shows "\<exists>tab. update_arp_table mac ip s = Inr (s\<lparr>ns_arp_table := tab\<rparr>) \<and> length tab = length (ns_arp_table s)
    \<and> arp_copy_mac (s\<lparr>ns_arp_table := tab\<rparr>) = (arp_copy_mac s)(ip \<mapsto> mac)
    \<and> free_slots s \<le> free_slots (s\<lparr>ns_arp_table := tab\<rparr>) + 1"
proof (cases "first_index (arp_matches ip) (ns_arp_table s)")
  case (Some i)
  obtain as x bs where sp: "ns_arp_table s = as @ x # bs" "i = length as" "arp_matches ip x" "\<forall>y \<in> set as. \<not> arp_matches ip y"
    using Some by (rule first_index_split)
  then show ?thesis
    using Some map_of_insert_mid [OF no_match_fst [OF sp(4)]]
    by (auto simp: update_arp_table_def arp_copy_mac_map free_slots_def arp_matches_def)
next
  case None
  then have new: "\<forall>y \<in> set (ns_arp_table s). \<not> arp_matches ip y" by (simp add: first_index_None)
  then have "ip \<notin> dom (arp_copy_mac s)" using no_match_fst [OF new] by (simp add: arp_copy_mac_map dom_map_of_conv_image_fst)
  then have "\<exists>i. first_index (\<lambda>ent. \<not> ae_allocated ent) (ns_arp_table s) = Some i"
    using assms first_index_None [of "\<lambda>ent. \<not> ae_allocated ent" "ns_arp_table s"]
    by (cases "first_index (\<lambda>ent. \<not> ae_allocated ent) (ns_arp_table s)") (auto simp: free_slots_def filter_empty_conv)
  then obtain i where i: "first_index (\<lambda>ent. \<not> ae_allocated ent) (ns_arp_table s) = Some i" ..
  obtain as x bs where sp: "ns_arp_table s = as @ x # bs" "i = length as" "\<not> ae_allocated x"
    using i by (rule first_index_split)
  have "\<forall>y \<in> set as. \<not> arp_matches ip y" using new sp(1) by simp
  then show ?thesis
    using None i sp map_of_insert_mid [OF no_match_fst]
    by (auto simp: update_arp_table_def arp_copy_mac_map free_slots_def)
qed

lemma update_arp_table_full:
  assumes "free_slots s = 0" and "ip \<notin> dom (arp_copy_mac s)"
  shows "update_arp_table mac ip s = Inl (TaskAssert ''Failed to find a free ARP slot'')"
proof -
  have "first_index (arp_matches ip) (ns_arp_table s) = None"
    using assms(2) by (auto simp: first_index_None arp_copy_mac_def find_None_iff)
  moreover have "first_index (\<lambda>ent. \<not> ae_allocated ent) (ns_arp_table s) = None"
    using assms(1) by (auto simp: first_index_None free_slots_def filter_empty_conv)
  ultimately show ?thesis by (simp add: update_arp_table_def)
qed

subsection \<open>Answering the waiting requests\<close>

interpretation arpcb: callback_list ns_arp_callbacks set_arp_callbacks arp_is_amc_rpc_satisfied arp_complete_amc_rpc
  by unfold_locales
    (auto simp: set_arp_callbacks_def arp_complete_amc_rpc_def arp_copy_mac_def net_send_rpc_response_def
      amc_message_send_def split: option.splits)

definition arp_answer :: "net_state \<Rightarrow> arp_amc_rpc_info \<Rightarrow> string \<times> net_message" where
  "arp_answer s rpc = (ai_amc_service rpc, RpcResponse 8 (the (arp_copy_mac s (ai_ipv4 rpc))))"

lemma run_arp_complete:
  assumes "\<forall>rpc \<in> set rpcs. ai_ipv4 rpc \<in> dom (arp_copy_mac s)"
  shows "run_ops arp_complete_amc_rpc rpcs s = Inr (s\<lparr>ns_outbox := ns_outbox s @ map (arp_answer s) rpcs\<rparr>)"
  using assms
proof (induction rpcs arbitrary: s)
  case (Cons rpc rpcs)
  let ?s = "s\<lparr>ns_outbox := ns_outbox s @ [arp_answer s rpc]\<rparr>"
  have "arp_complete_amc_rpc rpc s = Inr ?s"
    using Cons.prems by (auto simp: arp_complete_amc_rpc_def net_send_rpc_response_def amc_message_send_def arp_answer_def)
  moreover have "arp_copy_mac ?s = arp_copy_mac s" by (rule ext) (simp add: arp_copy_mac_def)
  ultimately show ?case using Cons.IH [of ?s] Cons.prems by (simp add: arp_answer_def)
qed simp

lemma arp_invoke_ready:
  assumes "at_ok (ns_arp_callbacks s)" and "length (at_list (ns_arp_callbacks s)) < at_cap (ns_arp_callbacks s)"
  shows "\<exists>s'. arp_invoke_ready_callbacks s = Inr s' \<and> arp_copy_mac s' = arp_copy_mac s
    \<and> at_list (ns_arp_callbacks s') = filter (\<lambda>cb. ai_ipv4 (cb_ctx cb) \<notin> dom (arp_copy_mac s)) (at_list (ns_arp_callbacks s))
    \<and> ns_outbox s' = ns_outbox s @ map (arp_answer s \<circ> cb_ctx)
        (rev (filter (\<lambda>cb. ai_ipv4 (cb_ctx cb) \<in> dom (arp_copy_mac s)) (at_list (ns_arp_callbacks s))))"
proof -
  let ?P = "\<lambda>cb. ai_ipv4 (cb_ctx cb) \<in> dom (arp_copy_mac s)"
  obtain l where l: "at_list l = filter (\<lambda>cb. \<not> ?P cb) (at_list (ns_arp_callbacks s))"
      "arp_invoke_ready_callbacks s = ebind (run_ops arp_complete_amc_rpc (map cb_ctx (rev (filter ?P (at_list (ns_arp_callbacks s))))) s)
         (\<lambda>s'. Inr (set_arp_callbacks l s'))"
    using arpcb.invoke_ready [of s ?P] assms
    by (auto simp: arp_invoke_ready_callbacks_def arp_is_amc_rpc_satisfied_def arp_cache_contains_iff)
  have "run_ops arp_complete_amc_rpc (map cb_ctx (rev (filter ?P (at_list (ns_arp_callbacks s))))) s =
      Inr (s\<lparr>ns_outbox := ns_outbox s @ map (arp_answer s \<circ> cb_ctx) (rev (filter ?P (at_list (ns_arp_callbacks s))))\<rparr>)"
    using run_arp_complete [of "map cb_ctx (rev (filter ?P (at_list (ns_arp_callbacks s))))" s] by (simp add: comp_def)
  then show ?thesis using l by (simp add: set_arp_callbacks_def arp_copy_mac_map)
qed

subsection \<open>Receiving address resolution packets\<close>

definition arp_ready :: "net_state \<Rightarrow> bool" where
  "arp_ready s \<longleftrightarrow> at_ok (ns_arp_callbacks s) \<and> length (at_list (ns_arp_callbacks s)) < at_cap (ns_arp_callbacks s)"

lemma arp_packet_fields:
  assumes "length sm = 6" and "length sip = 4" and "length tm = 6" and "length tip = 4"
  shows "get_le 2 (arp_packet opc sm sip tm tip) 0 = Inr (htons 1)" "get_le 2 (arp_packet opc sm sip tm tip) 2 = Inr (htons 0x0800)"
    "get_le 1 (arp_packet opc sm sip tm tip) 4 = Inr (6 :: u8)" "get_le 1 (arp_packet opc sm sip tm tip) 5 = Inr (4 :: u8)"
    "get_le 2 (arp_packet opc sm sip tm tip) 6 = Inr (htons opc)" "field (arp_packet opc sm sip tm tip) 8 6 = Inr sm"
    "field (arp_packet opc sm sip tm tip) 14 4 = Inr sip" "field (arp_packet opc sm sip tm tip) 18 6 = Inr tm"
    "field (arp_packet opc sm sip tm tip) 24 4 = Inr tip" "field (arp_packet opc sm sip tm tip) 8 20 = Inr (sm @ sip @ tm @ tip)"
  unfolding arp_packet_def using assms by (simp_all add: packed_simps)

lemma arp_receive_reply_map:
  assumes "length sm = 6" and "length sip = 4" and "length tm = 6" and "length tip = 4"
    and "arp_ready s" and "2 \<le> free_slots s"
  shows "\<exists>s'. arp_receive (arp_packet 2 sm sip tm tip) s = Inr s' \<and> arp_copy_mac s' = (arp_copy_mac s)(sip \<mapsto> sm, tip \<mapsto> tm)
    \<and> at_list (ns_arp_callbacks s') = filter (\<lambda>cb. ai_ipv4 (cb_ctx cb) \<notin> dom (arp_copy_mac s')) (at_list (ns_arp_callbacks s))
    \<and> ns_outbox s' = ns_outbox s @ map (arp_answer s' \<circ> cb_ctx)
        (rev (filter (\<lambda>cb. ai_ipv4 (cb_ctx cb) \<in> dom (arp_copy_mac s')) (at_list (ns_arp_callbacks s))))"
proof -
  note flds = arp_packet_fields [OF assms(1-4), of 2]
  obtain t1 where t1: "update_arp_table sm sip s = Inr (s\<lparr>ns_arp_table := t1\<rparr>)"
      "arp_copy_mac (s\<lparr>ns_arp_table := t1\<rparr>) = (arp_copy_mac s)(sip \<mapsto> sm)" "free_slots s \<le> free_slots (s\<lparr>ns_arp_table := t1\<rparr>) + 1"
    using update_arp_table_map [of s sip sm] assms(6) by auto
  obtain t2 where t2: "update_arp_table tm tip (s\<lparr>ns_arp_table := t1\<rparr>) = Inr (s\<lparr>ns_arp_table := t2\<rparr>)"
      "arp_copy_mac (s\<lparr>ns_arp_table := t2\<rparr>) = (arp_copy_mac s)(sip \<mapsto> sm, tip \<mapsto> tm)"
    using update_arp_table_map [of "s\<lparr>ns_arp_table := t1\<rparr>" tip tm] assms(6) t1(2,3) by auto
  let ?s = "s\<lparr>ns_arp_table := t2\<rparr>"
  obtain s' where s': "arp_invoke_ready_callbacks ?s = Inr s'" "arp_copy_mac s' = arp_copy_mac ?s"
      "at_list (ns_arp_callbacks s') = filter (\<lambda>cb. ai_ipv4 (cb_ctx cb) \<notin> dom (arp_copy_mac ?s)) (at_list (ns_arp_callbacks ?s))"
      "ns_outbox s' = ns_outbox ?s @ map (arp_answer ?s \<circ> cb_ctx)
        (rev (filter (\<lambda>cb. ai_ipv4 (cb_ctx cb) \<in> dom (arp_copy_mac ?s)) (at_list (ns_arp_callbacks ?s))))"
    using arp_invoke_ready [of ?s] assms(5) by (auto simp: arp_ready_def)
  have "arp_receive (arp_packet 2 sm sip tm tip) s = Inr s'"
    using flds t1(1) t2(1) s'(1) by (simp add: arp_receive_def)
  moreover have "arp_answer s' = arp_answer ?s" using s'(2) by (auto simp: arp_answer_def fun_eq_iff)
  ultimately show ?thesis using s' t2(2) by (intro exI [of _ s']) simp
qed

text \<open>
  C20. A reply is learned and answers who waited for it: with two free slots in the table, receiving an
  ARP reply maps the sender's and then the target's address to the MAC addresses in it and changes no
  other mapping; every request of another process that waits for a now known address is answered with
  its MAC address, exactly once, the newest request first, and exactly the other requests keep waiting.
\<close>

theorem arp_reply_answers_waiting_requests:
  assumes "length sm = 6" and "length sip = 4" and "length tm = 6" and "length tip = 4"
    and "arp_ready s" and "2 \<le> free_slots s"
  shows "\<exists>s'. arp_receive (arp_packet 2 sm sip tm tip) s = Inr s' \<and> arp_copy_mac s' = (arp_copy_mac s)(sip \<mapsto> sm, tip \<mapsto> tm)
    \<and> at_list (ns_arp_callbacks s') = filter (\<lambda>cb. ai_ipv4 (cb_ctx cb) \<notin> dom (arp_copy_mac s')) (at_list (ns_arp_callbacks s))
    \<and> ns_outbox s' = ns_outbox s @ map (arp_answer s' \<circ> cb_ctx)
        (rev (filter (\<lambda>cb. ai_ipv4 (cb_ctx cb) \<in> dom (arp_copy_mac s')) (at_list (ns_arp_callbacks s))))"
  using arp_receive_reply_map [OF assms] .

definition demo_net :: net_state where
  "demo_net = \<lparr>ns_config = \<lparr>nic_mac = [2, 0, 0, 0, 0, 9], ip_addr = [192, 168, 0, 9], router_ip_addr = [192, 168, 0, 1]\<rparr>,
     ns_arp_table = replicate 256 \<lparr>ae_allocated = False, ae_mac_addr = replicate 6 0, ae_ip_addr = replicate 4 0\<rparr>,
     ns_arp_callbacks = array_create 64, ns_arp_timers = [], ns_tcp_conns = [], ns_tcp_callbacks = array_create 64,
     ns_dns_services = [], ns_dns_domains = [], ns_dns_callbacks = array_create 64, ns_outbox = []\<rparr>"

lemma demo_net_arp: "arp_ready demo_net" "free_slots demo_net = 256" "arp_copy_mac demo_net ip = None"
  by (simp_all add: arp_ready_def demo_net_def free_slots_def filter_replicate arp_copy_mac_def find_None_iff arp_matches_def)

theorem arp_reply_answers_waiting_requests_witness:
  "\<exists>s'. arp_receive (arp_packet 2 [1, 2, 3, 4, 5, 6] [10, 0, 0, 7] [0, 0, 0, 0, 0, 0] [10, 0, 0, 8]) demo_net = Inr s'
     \<and> arp_copy_mac s' [10, 0, 0, 7] = Some [1, 2, 3, 4, 5, 6]"
  using arp_reply_answers_waiting_requests [of "[1, 2, 3, 4, 5, 6]" "[10, 0, 0, 7]" "[0, 0, 0, 0, 0, 0]" "[10, 0, 0, 8]" demo_net]
    demo_net_arp(1,2) by auto

text \<open>
  An announcement erases its sender: the ARP announcement a host broadcasts at startup names its
  own address as sender and as target, the target with the MAC address zero. A host running the
  same code that receives it ends up with the zero MAC address for the announced address, whatever
  it knew before.
\<close>

lemma arp_announcement_maps_sender_to_zero:
  assumes "length (nic_mac (ns_config a)) = 6" and "length (ip_addr (ns_config a)) = 4"
    and "arp_ready b" and "2 \<le> free_slots b"
  shows "\<exists>pkt b'. arp_announce a = ethernet_send global_broadcast_mac ETHTYPE_ARP pkt a \<and> arp_receive pkt b = Inr b'
    \<and> arp_copy_mac b' (ip_addr (ns_config a)) = Some (replicate 6 0)"
proof -
  let ?ip = "ip_addr (ns_config a)"
  let ?pkt = "arp_packet 2 (nic_mac (ns_config a)) ?ip (replicate 6 0) ?ip"
  have "\<exists>b'. arp_receive ?pkt b = Inr b' \<and> arp_copy_mac b' ?ip = Some (replicate 6 0)"
    using arp_receive_reply_map [OF assms(1,2) _ assms(2-4), of "replicate 6 0"] by auto
  then show ?thesis by (auto simp: arp_announce_def arp_send_reply_def)
qed

end
