(* ===== verification/Net_Tcp.thy ===== *)
theory Net_Tcp
  imports Net_Arp
begin

text \<open>
  TCP (\<^verbatim>\<open>programs/subprojects/net/tcp.c\<close>): building and checksumming segments, the client side of the
  handshake, receiving data into the per-connection buffer, and the open, send and read requests of
  other processes. Connections live in the array \<^verbatim>\<open>_tcp_conns\<close>, which only grows, so a connection
  pointer is its index. The random initial sequence number is an argument. The segment record of
  \<^verbatim>\<open>_tcp_conn_recv\<close> is allocated with the size of a pointer; its fields are modelled as if the
  allocation had the record's size.
\<close>

subsection \<open>Sending segments\<close>

definition inet_addr :: "u8 list \<Rightarrow> u32 res" where
  "inet_addr ip = get_le 4 ip 0"

definition TCP_FLAG_SYN :: u8 where "TCP_FLAG_SYN = 0x02"
definition TCP_FLAG_RST :: u8 where "TCP_FLAG_RST = 0x04"
definition TCP_FLAG_PUSH :: u8 where "TCP_FLAG_PUSH = 0x08"
definition TCP_FLAG_ACK :: u8 where "TCP_FLAG_ACK = 0x10"

definition tcp_header :: "u16 \<Rightarrow> u16 \<Rightarrow> u32 \<Rightarrow> u32 \<Rightarrow> u8 \<Rightarrow> u16 \<Rightarrow> u8 list" where
  "tcp_header source_port dest_port sequence_number acknowledgement_number flags chksum =
     (put_le 2 (htons source_port) @ put_le 2 (htons dest_port) @ put_le 4 (htonl sequence_number)
      @ put_le 4 (htonl acknowledgement_number) @ [0x50, flags] @ put_le 2 (htons 0xffff)) @ put_le 2 chksum @ [0, 0]"

definition tcp_pseudo_header :: "u32 \<Rightarrow> u32 \<Rightarrow> nat \<Rightarrow> u8 list" where
  "tcp_pseudo_header src_ip dst_ip tcp_packet_size =
     put_le 4 src_ip @ put_le 4 dst_ip @ [0, 6] @ put_le 2 (htons (of_nat tcp_packet_size))"

definition tcp_send :: "u16 \<Rightarrow> u16 \<Rightarrow> u8 list \<Rightarrow> u32 \<Rightarrow> u32 \<Rightarrow> u8 \<Rightarrow> u8 list \<Rightarrow> net_state \<Rightarrow> net_state res" where
  "tcp_send src_port dst_port dest_ip sequence_num acknowledge_num flags bytes s =
     ebind (inet_addr (ip_addr (ns_config s))) (\<lambda>src_ip. ebind (inet_addr dest_ip) (\<lambda>dst_ip.
     let tcp_packet_size = 20 + length bytes;
         packet = tcp_header src_port dst_port sequence_num acknowledge_num flags 0 @ bytes;
         chk3 = checksum (tcp_pseudo_header src_ip dst_ip tcp_packet_size @ packet) 0
     in ipv4_send dest_ip IPv4_PROTOCOL_TCP (tcp_header src_port dst_port sequence_num acknowledge_num flags chk3 @ bytes) s))"

subsection \<open>Connections\<close>

definition tcp_init :: "net_state \<Rightarrow> net_state" where
  "tcp_init s = s\<lparr>ns_tcp_conns := [], ns_tcp_callbacks := array_create 64\<rparr>"

definition conn_at :: "net_state \<Rightarrow> nat \<Rightarrow> tcp_conn res" where
  "conn_at s i = (if i < length (ns_tcp_conns s) then Inr (ns_tcp_conns s ! i) else Inl (TaskAssert ''index was out of bounds''))"

definition set_conn :: "nat \<Rightarrow> tcp_conn \<Rightarrow> net_state \<Rightarrow> net_state" where
  "set_conn i conn s = s\<lparr>ns_tcp_conns := (ns_tcp_conns s)[i := conn]\<rparr>"

definition tcp_conn_alloc :: "u32 \<Rightarrow> u16 \<Rightarrow> u16 \<Rightarrow> u8 list \<Rightarrow> net_state \<Rightarrow> (nat \<times> net_state) res" where
  "tcp_conn_alloc rand_num src_port dst_port dest_ip s =
     (let conn = \<lparr>tc_dest_ip = dest_ip, tc_src_port = src_port, tc_dst_port = dst_port, tc_status = TCP_SYN_SENT,
            tc_send_initial_seqnum = rand_num, tc_send_oldest_unacked_seqnum = 0, tc_send_next_seqnum = rand_num,
            tc_recv_initial_seqnum = 0, tc_recv_next_seqnum = 0, tc_receive_buffer = array_create 64\<rparr>
      in if length (ns_tcp_conns s) + 1 > 64 then Inl NullDeref
         else Inr (length (ns_tcp_conns s), s\<lparr>ns_tcp_conns := ns_tcp_conns s @ [conn]\<rparr>))"

text \<open>Sending on a connection: no data, or the given data.\<close>

definition conn_send :: "tcp_conn \<Rightarrow> u32 \<Rightarrow> u32 \<Rightarrow> u8 \<Rightarrow> u8 list \<Rightarrow> net_state \<Rightarrow> net_state res" where
  "conn_send conn seqnum acknum flags bytes s =
     tcp_send (tc_src_port conn) (tc_dst_port conn) (tc_dest_ip conn) seqnum acknum flags bytes s"

definition tcp_conn_init :: "nat \<Rightarrow> net_state \<Rightarrow> net_state res" where
  "tcp_conn_init i s =
     ebind (conn_at s i) (\<lambda>conn.
     conn_send conn (tc_send_initial_seqnum conn) (tc_recv_initial_seqnum conn) TCP_FLAG_SYN [] s)"

subsection \<open>Waiting requests\<close>

text \<open>The first buffered segment that is not further along in the stream than wanted.\<close>

function find_segment_from :: "tcp_segment array_t \<Rightarrow> u32 \<Rightarrow> int \<Rightarrow> (int \<times> tcp_segment) option res" where
  "find_segment_from receive_buffer next_seqnum i =
     (if i < at_size receive_buffer
      then ebind (array_lookup receive_buffer i) (\<lambda>p. ebind (deref p) (\<lambda>seg.
           if seg_sequence_start seg > next_seqnum then find_segment_from receive_buffer next_seqnum (i + 1)
           else Inr (Some (i, seg))))
      else Inr None)"
  by pat_completeness auto
termination
  by (relation "measure (\<lambda>(a, _, i). nat (at_size a - i))") auto

declare find_segment_from.simps [simp del]

fun tcp_is_amc_rpc_satisfied :: "net_state \<Rightarrow> tcp_amc_rpc \<Rightarrow> bool res" where
  "tcp_is_amc_rpc_satisfied s (ConnOpen amc_service i) =
     ebind (conn_at s i) (\<lambda>conn. Inr (tc_status conn = TCP_ESTABLISHED))"
| "tcp_is_amc_rpc_satisfied s (ConnRead amc_service i len next_seqnum) =
     ebind (conn_at s i) (\<lambda>conn.
     ebind (find_segment_from (tc_receive_buffer conn) next_seqnum 0) (\<lambda>r.
     case r of
       None \<Rightarrow> Inr False
     | Some (_, seg) \<Rightarrow> ebind (uassert (seg_len seg \<le> len) ''Segment was larger than RPC buffer'') (\<lambda>_. Inr True)))"

fun tcp_complete_amc_rpc :: "tcp_amc_rpc \<Rightarrow> net_state \<Rightarrow> net_state res" where
  "tcp_complete_amc_rpc (ConnOpen amc_service i) s = Inr (amc_message_send amc_service (TcpOpenResponse (of_nat i)) s)"
| "tcp_complete_amc_rpc (ConnRead amc_service i len next_seqnum) s =
     ebind (conn_at s i) (\<lambda>conn.
     ebind (find_segment_from (tc_receive_buffer conn) next_seqnum 0) (\<lambda>r.
     case r of
       None \<Rightarrow> Inl (TaskAssert ''Failed to find segment to complete read with'')
     | Some (j, seg) \<Rightarrow>
         let s = amc_message_send amc_service (TcpReadResponse (of_nat i) (seg_len seg) (seg_buf seg)) s in
         ebind (array_remove (tc_receive_buffer conn) j) (\<lambda>b. Inr (set_conn i (conn\<lparr>tc_receive_buffer := b\<rparr>) s))))"

definition set_tcp_callbacks :: "tcp_amc_rpc callback array_t \<Rightarrow> net_state \<Rightarrow> net_state" where
  "set_tcp_callbacks l s = s\<lparr>ns_tcp_callbacks := l\<rparr>"

definition tcp_invoke_ready_callbacks :: "net_state \<Rightarrow> net_state res" where
  "tcp_invoke_ready_callbacks s =
     callback_list_invoke_ready_callbacks ns_tcp_callbacks set_tcp_callbacks tcp_is_amc_rpc_satisfied tcp_complete_amc_rpc s"

subsection \<open>Receiving\<close>

definition tcp_complete_handshake :: "nat \<Rightarrow> u8 list \<Rightarrow> net_state \<Rightarrow> net_state res" where
  "tcp_complete_handshake i packet s =
     ebind (conn_at s i) (\<lambda>conn.
     let conn = conn\<lparr>tc_send_next_seqnum := tc_send_next_seqnum conn + 1\<rparr>; s = set_conn i conn s in
     ebind (get_le 4 packet 8) (\<lambda>ack. ebind (get_le 4 packet 4) (\<lambda>seqn.
     let recv_ack_num = htonl ack; recv_seq_num = htonl seqn in
     if recv_ack_num = tc_send_next_seqnum conn then
       let conn = conn\<lparr>tc_recv_initial_seqnum := recv_seq_num, tc_recv_next_seqnum := recv_seq_num + 1,
             tc_status := TCP_ESTABLISHED\<rparr>
       in ebind (conn_send conn (tc_send_next_seqnum conn) (tc_recv_next_seqnum conn) TCP_FLAG_ACK [] (set_conn i conn s))
            tcp_invoke_ready_callbacks
     else Inr s)))"

text \<open>The second test of the code is \<^verbatim>\<open>packet->header.flags && TCP_FLAG_ACK\<close>, which holds whenever any flag is set.\<close>

definition tcp_handle_syn_response :: "nat \<Rightarrow> u8 list \<Rightarrow> net_state \<Rightarrow> net_state res" where
  "tcp_handle_syn_response i packet s =
     ebind (get_le 1 packet 13) (\<lambda>flags :: u8.
     if flags AND TCP_FLAG_SYN \<noteq> 0 \<and> flags \<noteq> 0 then tcp_complete_handshake i packet s
     else
       ebind (get_le 4 packet 8) (\<lambda>ack. ebind (conn_at s i) (\<lambda>conn.
       ebind (conn_send conn (htonl ack) 0 TCP_FLAG_RST [] s)
         (conn_send conn (tc_send_initial_seqnum conn) (tc_recv_initial_seqnum conn) TCP_FLAG_SYN []))))"

text \<open>
  The two halves of \<^verbatim>\<open>_tcp_conn_recv\<close>: noting an acknowledgement, and taking in data. The data is copied
  from behind the fixed header of 20 bytes, whatever the header length field says.
\<close>

definition tcp_note_ack :: "u8 \<Rightarrow> u32 \<Rightarrow> tcp_conn \<Rightarrow> tcp_conn" where
  "tcp_note_ack flags recv_ack_num conn =
     (if flags AND TCP_FLAG_ACK \<noteq> 0 \<and> recv_ack_num > tc_send_oldest_unacked_seqnum conn
      then conn\<lparr>tc_send_oldest_unacked_seqnum := recv_ack_num\<rparr> else conn)"

definition tcp_ingest :: "nat \<Rightarrow> u8 list \<Rightarrow> u32 \<Rightarrow> u32 \<Rightarrow> tcp_conn \<Rightarrow> net_state \<Rightarrow> net_state res" where
  "tcp_ingest i packet data_len recv_seq_num conn s =
     (let relative_recv_seq_num = recv_seq_num - tc_recv_initial_seqnum conn
      in if data_len = 0 then Inr s
         else if tc_recv_next_seqnum conn \<ge> recv_seq_num + data_len then Inr s
         else if tc_recv_next_seqnum conn < recv_seq_num then
           conn_send conn (tc_send_next_seqnum conn) (tc_recv_next_seqnum conn) TCP_FLAG_ACK [] s
         else
           let conn = conn\<lparr>tc_recv_next_seqnum := tc_recv_next_seqnum conn + data_len\<rparr> in
           ebind (conn_send conn (tc_send_next_seqnum conn) (tc_recv_next_seqnum conn) TCP_FLAG_ACK [] (set_conn i conn s)) (\<lambda>s.
           ebind (field packet 20 (unat data_len)) (\<lambda>buf.
           ebind (array_insert (tc_receive_buffer conn)
                   \<lparr>seg_buf = buf, seg_len = data_len, seg_sequence_start = relative_recv_seq_num\<rparr>) (\<lambda>b.
           tcp_invoke_ready_callbacks (set_conn i (conn\<lparr>tc_receive_buffer := b\<rparr>) s)))))"

definition tcp_conn_recv :: "nat \<Rightarrow> u8 list \<Rightarrow> u32 \<Rightarrow> net_state \<Rightarrow> net_state res" where
  "tcp_conn_recv i packet data_len s =
     ebind (conn_at s i) (\<lambda>conn.
     ebind (get_le 4 packet 8) (\<lambda>ack. ebind (get_le 4 packet 4) (\<lambda>seqn. ebind (get_le 1 packet 13) (\<lambda>flags :: u8.
     let recv_ack_num = htonl ack; recv_seq_num = htonl seqn;
         conn = tcp_note_ack flags recv_ack_num conn
     in tcp_ingest i packet data_len recv_seq_num conn (set_conn i conn s)))))"

text \<open>The loop of \<^verbatim>\<open>tcp_receive\<close> over the connections from \<open>i\<close> on.\<close>

definition tcp_dispatch :: "u8 list \<Rightarrow> u8 list \<Rightarrow> u16 \<Rightarrow> u16 \<Rightarrow> u32 \<Rightarrow> nat \<Rightarrow> net_state \<Rightarrow> net_state res" where
  "tcp_dispatch src_ipv4 packet src_port dst_port data_len i s =
     ebind (conn_at s i) (\<lambda>conn.
     if tc_src_port conn \<noteq> dst_port \<or> tc_dst_port conn \<noteq> src_port then Inr s
     else if tc_dest_ip conn \<noteq> src_ipv4 then Inr s
     else if tc_status conn = TCP_SYN_SENT then tcp_handle_syn_response i packet s
     else if tc_status conn = TCP_ESTABLISHED then tcp_conn_recv i packet data_len s
     else Inr s)"

definition tcp_receive :: "u8 list \<Rightarrow> u8 list \<Rightarrow> u8 list \<Rightarrow> net_state \<Rightarrow> net_state res" where
  "tcp_receive src_ipv4 dst_ipv4 packet s =
     ebind (get_le 2 packet 0) (\<lambda>source_port. ebind (get_le 2 packet 2) (\<lambda>dest_port. ebind (get_le 1 packet 12) (\<lambda>hl :: u8.
     let src_port = htons source_port; dst_port = htons dest_port;
         packet_header_len = ucast (drop_bit 4 hl) * 4
     in if dst_ipv4 \<noteq> ip_addr (ns_config s) then Inr s
        else
          let data_len = of_nat (length packet) - packet_header_len :: u32
          in run_ops (tcp_dispatch src_ipv4 packet src_port dst_port data_len) [0..<length (ns_tcp_conns s)] s)))"

subsection \<open>Requests of other processes\<close>

definition tcp_perform_amc_rpc_conn_open :: "nat \<Rightarrow> u32 \<Rightarrow> string \<Rightarrow> u16 \<Rightarrow> u16 \<Rightarrow> u8 list \<Rightarrow> net_state \<Rightarrow> net_state res" where
  "tcp_perform_amc_rpc_conn_open addr rand_num amc_service src_port dst_port dst_ipv4 s =
     ebind (tcp_conn_alloc rand_num src_port dst_port dst_ipv4 s) (\<lambda>(i, s).
     ebind (callback_list_add_callback (ns_tcp_callbacks s) addr (ConnOpen (take 64 amc_service) i)) (\<lambda>l.
     tcp_conn_init i (set_tcp_callbacks l s)))"

definition tcp_perform_amc_rpc_conn_send :: "u32 \<Rightarrow> u8 list \<Rightarrow> net_state \<Rightarrow> net_state res" where
  "tcp_perform_amc_rpc_conn_send tcp_conn_descriptor bytes s =
     (let i = unat tcp_conn_descriptor in
      ebind (conn_at s i) (\<lambda>conn.
      ebind (conn_send conn (tc_send_next_seqnum conn) (tc_recv_next_seqnum conn) (TCP_FLAG_ACK OR TCP_FLAG_PUSH) bytes s) (\<lambda>s.
      Inr (set_conn i (conn\<lparr>tc_send_next_seqnum := tc_send_next_seqnum conn + of_nat (length bytes)\<rparr>) s))))"

definition tcp_perform_amc_rpc_conn_read :: "nat \<Rightarrow> string \<Rightarrow> u32 \<Rightarrow> u32 \<Rightarrow> net_state \<Rightarrow> net_state res" where
  "tcp_perform_amc_rpc_conn_read addr amc_service tcp_conn_descriptor len s =
     (let i = unat tcp_conn_descriptor in
      ebind (conn_at s i) (\<lambda>conn.
      ebind (callback_list_add_callback (ns_tcp_callbacks s) addr
               (ConnRead (take 64 amc_service) i len (tc_recv_next_seqnum conn - tc_recv_initial_seqnum conn))) (\<lambda>l.
      ebind (callback_list_invoke_callback_if_ready ns_tcp_callbacks set_tcp_callbacks tcp_is_amc_rpc_satisfied
               tcp_complete_amc_rpc addr (set_tcp_callbacks l s)) (\<lambda>(_, s). Inr s))))"

subsection \<open>What is sent\<close>

interpretation tcpcb: callback_list ns_tcp_callbacks set_tcp_callbacks tcp_is_amc_rpc_satisfied tcp_complete_amc_rpc
proof
  fix c :: tcp_amc_rpc and l and s :: net_state
  show "tcp_complete_amc_rpc c (set_tcp_callbacks l s) = ebind (tcp_complete_amc_rpc c s) (\<lambda>s'. Inr (set_tcp_callbacks l s'))"
    by (cases c)
      (auto simp: set_tcp_callbacks_def conn_at_def amc_message_send_def set_conn_def ebind_assoc Let_def
        intro!: ebind_cong split: option.splits)
qed (simp_all add: set_tcp_callbacks_def)

definition net_up :: "net_state \<Rightarrow> bool" where
  "net_up s \<longleftrightarrow> length (ip_addr (ns_config s)) = 4 \<and> router_ip_addr (ns_config s) \<in> dom (arp_copy_mac s)"

definition ip_u32 :: "u8 list \<Rightarrow> u32" where
  "ip_u32 ip = of_nat (le_val ip)"

lemma inet_addr_ok: "length ip = 4 \<Longrightarrow> inet_addr ip = Inr (ip_u32 ip)"
  by (simp add: inet_addr_def get_le_def field_exact ip_u32_def)

lemma put_le_ip_u32: "length ip = 4 \<Longrightarrow> put_le 4 (ip_u32 ip) = ip"
proof -
  have digits: "le_digits (length bs) (le_val bs) = bs" for bs
  proof (induction bs)
    case (Cons b bs)
    have "unat (of_nat (unat b + 256 * le_val bs) :: u8) = unat b"
      using unat_byte_less [of b] by (simp only: unat_of_nat) simp
    then have "of_nat (unat b + 256 * le_val bs) = b" by (rule unsigned_word_eqI)
    then show ?case using Cons unat_byte_less [of b] by simp
  qed simp
  assume ip: "length ip = 4"
  then have "unat (ip_u32 ip) = le_val ip" using le_val_bound [of ip] by (simp add: ip_u32_def unat_of_nat)
  then show ?thesis using digits [of ip] ip by (simp add: put_le_def)
qed

text \<open>The IPv4 packet and the TCP segment inside the frame that goes to the network card.\<close>

definition ipv4_packet_sent :: "net_state \<Rightarrow> u8 list \<Rightarrow> u8 \<Rightarrow> u8 list \<Rightarrow> u8 list" where
  "ipv4_packet_sent s dst protocol packet =
     (let sz = 20 + of_nat (length packet); src = ip_u32 (ip_addr (ns_config s))
      in ipv4_header sz protocol (net_checksum_ipv4 (ipv4_header sz protocol 0 src dst)) src dst @ packet)"

definition frame_sent :: "net_state \<Rightarrow> u8 list \<Rightarrow> u8 list" where
  "frame_sent s packet =
     the (arp_copy_mac s (router_ip_addr (ns_config s))) @ nic_mac (ns_config s) @ put_le 2 (htons ETHTYPE_IPv4) @ packet"

lemma ipv4_send_ok:
  "net_up s \<Longrightarrow> ipv4_send dst protocol packet s =
     Inr (amc_message_send RTL8139_SERVICE_NAME (TxFrame (frame_sent s (ipv4_packet_sent s dst protocol packet))) s)"
  by (auto simp: net_up_def ipv4_send_def net_copy_local_ipv4_addr_u32_def inet_addr_ok [unfolded inet_addr_def] Let_def
      ethernet_send_def frame_sent_def ipv4_packet_sent_def)

definition tcp_segment_sent :: "net_state \<Rightarrow> u16 \<Rightarrow> u16 \<Rightarrow> u8 list \<Rightarrow> u32 \<Rightarrow> u32 \<Rightarrow> u8 \<Rightarrow> u8 list \<Rightarrow> u8 list" where
  "tcp_segment_sent s src_port dst_port dst seqn ackn flags bytes =
     tcp_header src_port dst_port seqn ackn flags
       (checksum (tcp_pseudo_header (ip_u32 (ip_addr (ns_config s))) (ip_u32 dst) (20 + length bytes)
          @ tcp_header src_port dst_port seqn ackn flags 0 @ bytes) 0) @ bytes"

lemma tcp_send_ok:
  "net_up s \<Longrightarrow> length dst = 4 \<Longrightarrow> tcp_send src_port dst_port dst seqn ackn flags bytes s =
     Inr (amc_message_send RTL8139_SERVICE_NAME (TxFrame (frame_sent s
       (ipv4_packet_sent s dst IPv4_PROTOCOL_TCP (tcp_segment_sent s src_port dst_port dst seqn ackn flags bytes)))) s)"
  by (simp add: net_up_def tcp_send_def inet_addr_ok Let_def ipv4_send_ok tcp_segment_sent_def)

lemma tcp_header_fields:
  "get_le 2 (tcp_header sp dp sq ak fl c @ bs) 0 = Inr (htons sp)" "get_le 2 (tcp_header sp dp sq ak fl c @ bs) 2 = Inr (htons dp)"
  "get_le 4 (tcp_header sp dp sq ak fl c @ bs) 4 = Inr (htonl sq)" "get_le 4 (tcp_header sp dp sq ak fl c @ bs) 8 = Inr (htonl ak)"
  "get_le 1 (tcp_header sp dp sq ak fl c @ bs) 12 = Inr (0x50 :: u8)" "get_le 1 (tcp_header sp dp sq ak fl c @ bs) 13 = Inr fl"
  "field (tcp_header sp dp sq ak fl c @ bs) 20 (length bs) = Inr bs"
  by (simp_all add: tcp_header_def packed_simps)

lemma ipv4_header_verifies:
  assumes "length dst = 4"
  shows "verifies (ipv4_header sz protocol (net_checksum_ipv4 (ipv4_header sz protocol 0 src dst)) src dst)"
proof -
  let ?pre = "[0x45, 0] @ put_le 2 (htons (ucast sz)) @ put_le 2 (4 :: u16) @ [0, 0, 64, protocol]" and ?post = "put_le 4 src @ dst"
  have "put_le 2 (0 :: u16) = [0, 0]" by (simp add: put_le_def numeral_2_eq_2)
  then show ?thesis
    using checksum_field_verifies [of ?pre ?post] assms by (simp only: ipv4_header_def) simp
qed

lemma tcp_segment_verifies:
  assumes "net_up s" and "length dst = 4" and "length bytes \<le> 65495"
    and "seg = tcp_segment_sent s sp dp dst sq ak fl bytes"
  shows "verifies (ip_addr (ns_config s) @ dst @ [0, 6] @ put_be 2 (of_nat (length seg) :: u16) @ seg)"
proof -
  let ?src = "ip_u32 (ip_addr (ns_config s))" and ?dst = "ip_u32 dst" and ?n = "20 + length bytes"
  let ?head = "put_le 2 (htons sp) @ put_le 2 (htons dp) @ put_le 4 (htonl sq) @ put_le 4 (htonl ak) @ [0x50, fl] @ put_le 2 (htons 0xffff)"
  let ?pre = "tcp_pseudo_header ?src ?dst ?n @ ?head" and ?post = "[0, 0] @ bytes"
  have zero: "put_le 2 (0 :: u16) = [0, 0]" by (simp add: put_le_def numeral_2_eq_2)
  have chk: "checksum (tcp_pseudo_header ?src ?dst ?n @ tcp_header sp dp sq ak fl 0 @ bytes) 0 = net_checksum_ipv4 (?pre @ [0, 0] @ ?post)"
    and ok: "verifies (?pre @ put_le 2 (net_checksum_ipv4 (?pre @ [0, 0] @ ?post)) @ ?post)"
    using checksum_field_verifies [of ?pre ?post] assms(3) zero
    by (simp_all add: tcp_pseudo_header_def tcp_header_def)
  have seg: "seg = ?head @ put_le 2 (net_checksum_ipv4 (?pre @ [0, 0] @ ?post)) @ ?post"
    unfolding assms(4) tcp_segment_sent_def chk by (simp add: tcp_header_def)
  have "tcp_pseudo_header ?src ?dst ?n = ip_addr (ns_config s) @ dst @ [0, 6] @ put_be 2 (of_nat (length seg) :: u16)"
    using assms(1,2) put_le_ip_u32 [of dst] put_le_ip_u32 [of "ip_addr (ns_config s)"]
    by (simp add: tcp_pseudo_header_def net_up_def put_le_htons assms(4) tcp_segment_sent_def tcp_header_def)
  then show ?thesis using ok unfolding seg by simp
qed

lemma tcp_conn_recv_segment:
  "i < length (ns_tcp_conns s) \<Longrightarrow> tcp_conn_recv i (tcp_header sp dp sq ak fl c @ bs) data_len s =
     (let conn = tcp_note_ack fl ak (ns_tcp_conns s ! i)
      in tcp_ingest i (tcp_header sp dp sq ak fl c @ bs) data_len sq conn (set_conn i conn s))"
  by (simp add: tcp_conn_recv_def conn_at_def tcp_header_fields del: One_nat_def)

text \<open>
  C22. What is sent is well formed: with the router's address known, sending on a TCP connection hands
  exactly one frame to the network card, addressed to the router; its IPv4 header verifies, the segment
  with its pseudo header verifies, and the ports, sequence number, acknowledgement, flags and data can
  be read back from it.
\<close>

theorem tcp_send_emits_valid_segment:
  assumes "net_up s" and "length dst = 4" and "length bytes \<le> 65495"
  shows "\<exists>hdr seg. tcp_send src_port dst_port dst seqn ackn flags bytes s =
      Inr (amc_message_send RTL8139_SERVICE_NAME (TxFrame (frame_sent s (hdr @ seg))) s)
    \<and> length hdr = 20 \<and> verifies hdr \<and> take 4 (drop 12 hdr) = ip_addr (ns_config s) \<and> drop 16 hdr = dst
    \<and> verifies (ip_addr (ns_config s) @ dst @ [0, 6] @ put_be 2 (of_nat (length seg) :: u16) @ seg)
    \<and> get_be 2 seg 0 = Inr src_port \<and> get_be 2 seg 2 = Inr dst_port \<and> get_be 4 seg 4 = Inr seqn \<and> get_be 4 seg 8 = Inr ackn
    \<and> get_le 1 seg 13 = Inr flags \<and> drop 20 seg = bytes"
proof (intro exI conjI)
  let ?seg = "tcp_segment_sent s src_port dst_port dst seqn ackn flags bytes"
  let ?src = "ip_u32 (ip_addr (ns_config s))" and ?sz = "20 + of_nat (length ?seg) :: u32"
  let ?hdr = "ipv4_header ?sz IPv4_PROTOCOL_TCP (net_checksum_ipv4 (ipv4_header ?sz IPv4_PROTOCOL_TCP 0 ?src dst)) ?src dst"
  have ip: "put_le 4 ?src = ip_addr (ns_config s)" using assms(1) by (simp add: net_up_def put_le_ip_u32)
  show "tcp_send src_port dst_port dst seqn ackn flags bytes s =
      Inr (amc_message_send RTL8139_SERVICE_NAME (TxFrame (frame_sent s (?hdr @ ?seg))) s)"
    by (simp only: tcp_send_ok [OF assms(1,2)] ipv4_packet_sent_def Let_def)
  show "length ?hdr = 20" "take 4 (drop 12 ?hdr) = ip_addr (ns_config s)" "drop 16 ?hdr = dst"
    using assms(1,2) ip by (simp_all add: ipv4_header_def net_up_def)
  show "verifies ?hdr" by (rule ipv4_header_verifies [OF assms(2)])
  show "verifies (ip_addr (ns_config s) @ dst @ [0, 6] @ put_be 2 (of_nat (length ?seg) :: u16) @ ?seg)"
    by (rule tcp_segment_verifies [OF assms refl])
  show "get_be 2 ?seg 0 = Inr src_port" "get_be 2 ?seg 2 = Inr dst_port" "get_be 4 ?seg 4 = Inr seqn" "get_be 4 ?seg 8 = Inr ackn"
    "get_le 1 ?seg 13 = Inr flags" "drop 20 ?seg = bytes"
    by (simp_all add: tcp_segment_sent_def tcp_header_def put_le_htons put_le_htonl get_be_def packed_simps le_val_put_be)
qed

definition demo_up :: net_state where
  "demo_up = demo_net\<lparr>ns_arp_table := [\<lparr>ae_allocated = True, ae_mac_addr = [9, 9, 9, 9, 9, 9], ae_ip_addr = [192, 168, 0, 1]\<rparr>]\<rparr>"

lemma demo_up_callbacks [simp]: "ns_tcp_callbacks demo_up = array_create 64"
  by (simp add: demo_up_def demo_net_def)

lemma demo_up_net: "net_up demo_up"
  by (simp add: net_up_def demo_up_def demo_net_def arp_copy_mac_def arp_matches_def dom_def)

theorem tcp_send_emits_valid_segment_witness:
  "\<exists>hdr seg. tcp_send 4000 80 [10, 0, 0, 7] 5 6 TCP_FLAG_ACK [1, 2, 3] demo_up =
      Inr (amc_message_send RTL8139_SERVICE_NAME (TxFrame (frame_sent demo_up (hdr @ seg))) demo_up)
    \<and> verifies hdr \<and> get_be 2 seg 2 = Inr (80 :: u16) \<and> drop 20 seg = [1, 2, 3]"
  using tcp_send_emits_valid_segment [OF demo_up_net, of "[10, 0, 0, 7]" "[1, 2, 3]" 4000 80 5 6 TCP_FLAG_ACK] by fastforce

subsection \<open>The handshake\<close>

lemma net_up_updates [simp]:
  "net_up (s\<lparr>ns_tcp_conns := cs\<rparr>) = net_up s" "net_up (s\<lparr>ns_tcp_callbacks := l\<rparr>) = net_up s" "net_up (s\<lparr>ns_outbox := ob\<rparr>) = net_up s"
  by (simp_all add: net_up_def arp_copy_mac_def dom_def)

lemma conn_send_ok:
  "net_up s \<Longrightarrow> length (tc_dest_ip conn) = 4 \<Longrightarrow>
   \<exists>f. conn_send conn seqn ackn flags bytes s = Inr (s\<lparr>ns_outbox := ns_outbox s @ [(RTL8139_SERVICE_NAME, TxFrame f)]\<rparr>)"
  by (auto simp: conn_send_def tcp_send_ok amc_message_send_def)

lemma tcp_invoke_none:
  assumes "at_ok (ns_tcp_callbacks s)" and "at_list (ns_tcp_callbacks s) = []"
  shows "tcp_invoke_ready_callbacks s = Inr s"
  using at_ok_size [OF assms(1)] assms(2)
  by (simp add: tcp_invoke_ready_callbacks_def callback_list_invoke_ready_callbacks_def satisfied_from.simps)

lemma complete_handshake_refused:
  assumes "i < length (ns_tcp_conns s)" and "conn = ns_tcp_conns s ! i" and "ak \<noteq> tc_send_next_seqnum conn + 1"
  shows "tcp_complete_handshake i (tcp_header sp dp sq ak fl c) s =
    Inr (set_conn i (conn\<lparr>tc_send_next_seqnum := tc_send_next_seqnum conn + 1\<rparr>) s)"
  using assms tcp_header_fields [of sp dp sq ak fl c "[]"] by (simp add: tcp_complete_handshake_def conn_at_def)

lemma complete_handshake_established:
  assumes "i < length (ns_tcp_conns s)" and "conn = ns_tcp_conns s ! i" and "ak = tc_send_next_seqnum conn + 1"
    and "net_up s" and "length (tc_dest_ip conn) = 4" and "at_list (ns_tcp_callbacks s) = []" and "at_ok (ns_tcp_callbacks s)"
  shows "\<exists>f. tcp_complete_handshake i (tcp_header sp dp sq ak fl c) s = Inr (set_conn i (conn\<lparr>tc_send_next_seqnum := ak,
      tc_recv_initial_seqnum := sq, tc_recv_next_seqnum := sq + 1, tc_status := TCP_ESTABLISHED\<rparr>)
      (s\<lparr>ns_outbox := ns_outbox s @ [(RTL8139_SERVICE_NAME, TxFrame f)]\<rparr>))"
proof -
  let ?conn = "conn\<lparr>tc_send_next_seqnum := ak, tc_recv_initial_seqnum := sq, tc_recv_next_seqnum := sq + 1, tc_status := TCP_ESTABLISHED\<rparr>"
  obtain f where "conn_send ?conn ak (sq + 1) TCP_FLAG_ACK [] (set_conn i ?conn s) =
      Inr (set_conn i ?conn s\<lparr>ns_outbox := ns_outbox s @ [(RTL8139_SERVICE_NAME, TxFrame f)]\<rparr>)"
    using conn_send_ok [of "set_conn i ?conn s" ?conn ak "sq + 1" TCP_FLAG_ACK "[]"] assms(4,5) by (auto simp: set_conn_def)
  then show ?thesis
    using assms tcp_header_fields [of sp dp sq ak fl c "[]"]
    by (intro exI [of _ f]) (simp add: tcp_complete_handshake_def conn_at_def set_conn_def tcp_invoke_none)
qed

lemma syn_ack_completes: "tcp_handle_syn_response i (tcp_header sp dp sq ak 0x12 c) s = tcp_complete_handshake i (tcp_header sp dp sq ak 0x12 c) s"
  using tcp_header_fields(6) [of sp dp sq ak "0x12" c "[]"] by (simp add: tcp_handle_syn_response_def TCP_FLAG_SYN_def)

text \<open>
  The handshake is not retried after a wrong answer: a connection whose first answer carries a
  wrong acknowledgement number stays in the initial state, but has already advanced its sequence
  number, so that it ignores the correct answer that follows as well. Had the correct answer come
  first, the connection would be established.
\<close>

lemma wrong_ack_blocks_handshake:
  assumes "i < length (ns_tcp_conns s)" and "conn = ns_tcp_conns s ! i" and "tc_status conn = TCP_SYN_SENT"
    and "tc_send_next_seqnum conn = tc_send_initial_seqnum conn" and "net_up s" and "length (tc_dest_ip conn) = 4"
    and "at_list (ns_tcp_callbacks s) = []" and "at_ok (ns_tcp_callbacks s)"
    and "wrong = tcp_header sp dp sq ak 0x12 c" and "ak \<noteq> tc_send_initial_seqnum conn + 1"
    and "right = tcp_header sp dp sq (tc_send_initial_seqnum conn + 1) 0x12 c"
  shows "(\<exists>s'. tcp_handle_syn_response i right s = Inr s' \<and> tc_status (ns_tcp_conns s' ! i) = TCP_ESTABLISHED
        \<and> tc_recv_next_seqnum (ns_tcp_conns s' ! i) = sq + 1)
    \<and> (\<exists>s1 s2. tcp_handle_syn_response i wrong s = Inr s1 \<and> tcp_handle_syn_response i right s1 = Inr s2
        \<and> tc_status (ns_tcp_conns s2 ! i) = TCP_SYN_SENT)"
proof
  note right = assms(11) and wrong = assms(9)
  have nxt: "tc_send_initial_seqnum conn + 1 = tc_send_next_seqnum conn + 1" "ak \<noteq> tc_send_next_seqnum conn + 1"
    using assms(4,10) by simp_all
  show "\<exists>s'. tcp_handle_syn_response i right s = Inr s' \<and> tc_status (ns_tcp_conns s' ! i) = TCP_ESTABLISHED
        \<and> tc_recv_next_seqnum (ns_tcp_conns s' ! i) = sq + 1"
    using complete_handshake_established [OF assms(1,2) nxt(1) assms(5-8), of sp dp sq "0x12" c] assms(1)
    unfolding right syn_ack_completes by (auto simp: set_conn_def)
  let ?conn1 = "conn\<lparr>tc_send_next_seqnum := tc_send_next_seqnum conn + 1\<rparr>"
  let ?s1 = "set_conn i ?conn1 s"
  have c1: "ns_tcp_conns ?s1 ! i = ?conn1" "i < length (ns_tcp_conns ?s1)" using assms(1) by (simp_all add: set_conn_def)
  have "tc_send_initial_seqnum conn + 1 \<noteq> tc_send_next_seqnum ?conn1 + 1" using assms(4) by simp
  then have "tcp_handle_syn_response i right ?s1 = Inr (set_conn i (?conn1\<lparr>tc_send_next_seqnum := tc_send_next_seqnum ?conn1 + 1\<rparr>) ?s1)"
    unfolding right syn_ack_completes by (rule complete_handshake_refused [OF c1(2) c1(1) [symmetric]])
  moreover have "tcp_handle_syn_response i wrong s = Inr ?s1"
    unfolding wrong syn_ack_completes by (rule complete_handshake_refused [OF assms(1,2) nxt(2)])
  ultimately show "\<exists>s1 s2. tcp_handle_syn_response i wrong s = Inr s1 \<and> tcp_handle_syn_response i right s1 = Inr s2
        \<and> tc_status (ns_tcp_conns s2 ! i) = TCP_SYN_SENT"
    using assms(1,3) by (auto simp: set_conn_def)
qed

definition demo_conn :: tcp_conn where
  "demo_conn = \<lparr>tc_dest_ip = [10, 0, 0, 7], tc_src_port = 4000, tc_dst_port = 80, tc_status = TCP_SYN_SENT,
     tc_send_initial_seqnum = 500, tc_send_oldest_unacked_seqnum = 0, tc_send_next_seqnum = 500,
     tc_recv_initial_seqnum = 0, tc_recv_next_seqnum = 0, tc_receive_buffer = array_create 64\<rparr>"

end
