(* ===== verification/Net_Stream.thy ===== *)
theory Net_Stream
  imports Net_Tcp
begin

text \<open>
  A TCP connection delivers a byte stream. The peer cuts its stream into segments once and for all; the
  network may lose, duplicate and reorder them, and the client process asks for data at any time, but has
  to wait for the answer to one read before it sends the next: two reads that wait for one segment stop the
  network service (lemma \<open>two_reads_one_segment_fails\<close>). What the client has received followed by what is
  buffered is then a prefix of the stream, which grows exactly when the next expected segment arrives.
\<close>

subsection \<open>Events\<close>

definition off :: "u8 list list \<Rightarrow> nat \<Rightarrow> nat" where
  "off segs j = length (concat (take j segs))"







text \<open>The data a service has been sent in answer to its reads of a connection.\<close>

fun payload_for :: "string \<Rightarrow> nat \<Rightarrow> string \<times> net_message \<Rightarrow> u8 list" where
  "payload_for svc i (t, TcpReadResponse c len bytes) = (if t = svc \<and> c = of_nat i then bytes else [])"
| "payload_for svc i _ = []"

definition delivered :: "string \<Rightarrow> nat \<Rightarrow> net_state \<Rightarrow> u8 list" where
  "delivered svc i s = concat (map (payload_for svc i) (ns_outbox s))"


subsection \<open>Offsets\<close>





definition seg_of :: "u8 list list \<Rightarrow> nat \<Rightarrow> tcp_segment" where
  "seg_of segs j = \<lparr>seg_buf = segs ! j, seg_len = of_nat (length (segs ! j)), seg_sequence_start = 1 + of_nat (off segs j)\<rparr>"

subsection \<open>The invariant\<close>

definition conn_inv :: "u8 list list \<Rightarrow> nat \<Rightarrow> nat \<Rightarrow> tcp_conn \<Rightarrow> bool" where
  "conn_inv segs d n conn \<longleftrightarrow> length (tc_dest_ip conn) = 4 \<and> d \<le> n \<and> n \<le> length segs
     \<and> unat (tc_recv_initial_seqnum conn) + 1 + off segs (length segs) < 2 ^ 32
     \<and> tc_recv_next_seqnum conn = tc_recv_initial_seqnum conn + 1 + of_nat (off segs n)
     \<and> at_ok (tc_receive_buffer conn) \<and> at_cap (tc_receive_buffer conn) = 64
     \<and> at_list (tc_receive_buffer conn) = map (seg_of segs) [d..<n]"

definition pending_read :: "u8 list list \<Rightarrow> nat \<Rightarrow> string \<Rightarrow> nat \<Rightarrow> tcp_amc_rpc callback list \<Rightarrow> bool" where
  "pending_read segs i svc n cbs \<longleftrightarrow>
     (\<exists>addr len. cbs = [\<lparr>cb_addr = addr, cb_ctx = ConnRead svc i len (1 + of_nat (off segs n))\<rparr>]
        \<and> list_all (\<lambda>seg. length seg \<le> unat len) segs)"

definition stream_inv :: "u8 list list \<Rightarrow> nat \<Rightarrow> string \<Rightarrow> nat \<Rightarrow> nat \<Rightarrow> net_state \<Rightarrow> bool" where
  "stream_inv segs i svc d n s \<longleftrightarrow> net_up s \<and> i < length (ns_tcp_conns s) \<and> conn_inv segs d n (ns_tcp_conns s ! i)
     \<and> delivered svc i s = concat (take d segs) \<and> at_ok (ns_tcp_callbacks s) \<and> at_cap (ns_tcp_callbacks s) = 64
     \<and> (at_list (ns_tcp_callbacks s) = [] \<or> d = n \<and> pending_read segs i svc n (at_list (ns_tcp_callbacks s)))"




lemma find_segment_first:
  assumes "at_ok b" and "at_list b = seg # rest" and "\<not> seg_sequence_start seg > nxt"
  shows "find_segment_from b nxt 0 = Inr (Some (0, seg))"
  using array_lookup_as [OF assms(1), of 0] at_ok_size [OF assms(1)] assms(2,3) by (simp add: find_segment_from.simps)

lemma find_segment_none: "at_ok b \<Longrightarrow> at_list b = [] \<Longrightarrow> find_segment_from b nxt 0 = Inr None"
  using at_ok_size [of b] by (simp add: find_segment_from.simps)



subsection \<open>Every event keeps the invariant\<close>

lemma delivered_frame: "delivered svc i (s\<lparr>ns_outbox := ns_outbox s @ [(t, TxFrame f)]\<rparr>) = delivered svc i s"
  by (simp add: delivered_def)

lemma delivered_updates [simp]:
  "delivered svc i (s\<lparr>ns_tcp_conns := cs\<rparr>) = delivered svc i s" "delivered svc i (s\<lparr>ns_tcp_callbacks := l\<rparr>) = delivered svc i s"
  by (simp_all add: delivered_def)

lemma stream_inv_same_conn:
  assumes "stream_inv segs i svc d n s" and "conn_inv segs d n conn"
  shows "stream_inv segs i svc d n (set_conn i conn s)"
    and "stream_inv segs i svc d n (set_conn i conn s\<lparr>ns_outbox := ns_outbox s @ [(t, TxFrame f)]\<rparr>)"
  using assms delivered_frame [of svc i "set_conn i conn s" t f] by (auto simp: stream_inv_def set_conn_def)




















text \<open>
  Two reads that wait for the same segment: both count as satisfied when it arrives, the newer one
  takes it, and completing the older one fails an assertion, which ends the network service.
\<close>

lemma two_reads_one_segment_fails:
  assumes "i < length (ns_tcp_conns s)" and "conn = ns_tcp_conns s ! i" and "at_ok (tc_receive_buffer conn)" and "at_cap (tc_receive_buffer conn) = 64"
    and "at_list (tc_receive_buffer conn) = [seg]" and "\<not> seg_sequence_start seg > nxt" and "seg_len seg \<le> len"
    and "at_ok (ns_tcp_callbacks s)" and "at_cap (ns_tcp_callbacks s) = 64"
    and "at_list (ns_tcp_callbacks s) = [\<lparr>cb_addr = a1, cb_ctx = ConnRead svc1 i len nxt\<rparr>, \<lparr>cb_addr = a2, cb_ctx = ConnRead svc2 i len nxt\<rparr>]"
  shows "tcp_invoke_ready_callbacks s = Inl (TaskAssert ''Failed to find segment to complete read with'')"
proof -
  have find: "find_segment_from (tc_receive_buffer conn) nxt 0 = Inr (Some (0, seg))"
    using find_segment_first [OF assms(3,5,6)] .
  obtain b where b: "array_remove (tc_receive_buffer conn) 0 = Inr b" "at_ok b" "at_list b = []"
    using ut.del_ok [OF assms(3), of 0] assms(4,5) by auto
  let ?s = "set_conn i (conn\<lparr>tc_receive_buffer := b\<rparr>) (amc_message_send svc2 (TcpReadResponse (of_nat i) (seg_len seg) (seg_buf seg)) s)"
  have "tcp_complete_amc_rpc (ConnRead svc2 i len nxt) s = Inr ?s"
    using assms(1,2) find b(1) by (simp add: conn_at_def)
  moreover have "tcp_complete_amc_rpc (ConnRead svc1 i len nxt) ?s = Inl (TaskAssert ''Failed to find segment to complete read with'')"
    using assms(1) find_segment_none [OF b(2,3)] by (simp add: conn_at_def set_conn_def amc_message_send_def)
  ultimately have "run_ops tcp_complete_amc_rpc [ConnRead svc2 i len nxt, ConnRead svc1 i len nxt] s =
      Inl (TaskAssert ''Failed to find segment to complete read with'')"
    by (simp only: run_ops.simps ebind_simps)
  moreover have "tcp_is_amc_rpc_satisfied s (ConnRead svc i len nxt) = Inr True" for svc
    using assms(1,2,7) find by (simp add: conn_at_def)
  moreover from this have "tcp_is_amc_rpc_satisfied s (cb_ctx cb) = Inr True" if "cb \<in> set (at_list (ns_tcp_callbacks s))" for cb
    using that assms(10) by (auto simp del: tcp_is_amc_rpc_satisfied.simps)
  ultimately show ?thesis
    using tcpcb.invoke_ready [of s "\<lambda>_. True"] assms(8-10) unfolding tcp_invoke_ready_callbacks_def
    by (auto simp del: tcp_complete_amc_rpc.simps tcp_is_amc_rpc_satisfied.simps run_ops.simps)
qed

end
