(* ===== verification/Net_Dns.thy ===== *)
theory Net_Dns
  imports Net_Arp
begin

text \<open>
  DNS (\<^verbatim>\<open>programs/subprojects/net/dns.c\<close>): parsing questions, answers and compressed names, the tables
  of services and address records, queries, and the requests of other processes for an address. The
  parser of a name calls itself for a compression pointer and loops over labels; it is given a fuel
  argument and is \<open>None\<close> when the fuel does not suffice, so a name on which it never returns is \<open>None\<close>
  for every fuel. A \<^verbatim>\<open>char[256]\<close> name is the list of its 256 bytes.
\<close>

subsection \<open>Names\<close>

definition cstr :: "u8 list \<Rightarrow> u8 list" where
  "cstr bs = takeWhile (\<lambda>b. b \<noteq> 0) bs"

text \<open>\<^verbatim>\<open>strndup\<close> reads up to the terminator or the given length; the buffer has to hold one of them.\<close>

definition strndup :: "u8 list \<Rightarrow> nat \<Rightarrow> u8 list res" where
  "strndup bs n = (if n \<le> length bs \<or> 0 \<in> set bs then Inr (cstr (take n bs)) else Inl OutOfBounds)"

definition get_byte :: "u8 list \<Rightarrow> nat \<Rightarrow> u8 res" where
  "get_byte b p = (if p < length b then Inr (b ! p) else Inl OutOfBounds)"

text \<open>\<^verbatim>\<open>strncpy\<close> of a label, which stops reading at a zero byte.\<close>

definition dns_name_read_label :: "u8 list \<Rightarrow> nat \<Rightarrow> u8 \<Rightarrow> u8 list res" where
  "dns_name_read_label b p label_len =
     (let bytes = take (unat label_len) (drop p b)
      in if length bytes < unat label_len \<and> 0 \<notin> set bytes then Inl OutOfBounds else Inr (cstr bytes))"

text \<open>\<^verbatim>\<open>snprintf(name + pos, sizeof(name), ...)\<close>: the bound is that of the whole array, so a write can leave it.\<close>

definition write_cstr :: "u8 list \<Rightarrow> nat \<Rightarrow> u8 list \<Rightarrow> u8 list res" where
  "write_cstr nm pos cs =
     (if pos + length cs < length nm then Inr (take pos nm @ cs @ [0] @ drop (pos + length cs + 1) nm) else Inl OutOfBounds)"

definition dns_name_zero :: dns_name_parse_state where
  "dns_name_zero = \<lparr>dn_label_count = 0, dn_name_len = 0, dn_name = replicate 256 0\<rparr>"

definition append_name :: "dns_name_parse_state \<Rightarrow> u8 list \<Rightarrow> dns_name_parse_state res" where
  "append_name st cs =
     ebind (write_cstr (dn_name st) (unat (dn_name_len st)) cs) (\<lambda>nm.
     Inr (st\<lparr>dn_name := nm, dn_name_len := dn_name_len st + of_nat (length cs)\<rparr>))"

fun parse_dns_name_loop :: "nat \<Rightarrow> u8 list \<Rightarrow> u8 list \<Rightarrow> nat \<Rightarrow> dns_name_parse_state \<Rightarrow> (dns_name_parse_state \<times> nat) res option" where
  "parse_dns_name_loop 0 packet b p st = None"
| "parse_dns_name_loop (Suc fuel) packet b p st =
     (case get_byte b p of
        Inl e \<Rightarrow> Some (Inl e)
      | Inr label_len \<Rightarrow>
          if drop_bit 6 label_len = 3 then
            (let st = st\<lparr>dn_label_count := dn_label_count st + 1\<rparr> in
             case get_byte b (p + 1) of
               Inl e \<Rightarrow> Some (Inl e)
             | Inr b2 \<Rightarrow>
                 let string_offset = unat (label_len AND NOT 0xc0) * 256 + unat b2
                 in map_option (\<lambda>r. ebind r (\<lambda>(pointer_parse, _).
                      ebind (append_name st (cstr (dn_name pointer_parse))) (\<lambda>st. Inr (st, p + 2))))
                      (parse_dns_name_loop fuel packet packet string_offset dns_name_zero))
          else if label_len = 0 then
            (let len = dn_name_len st - 1
             in Some (Inr (st\<lparr>dn_name_len := len, dn_name := (dn_name st)[unat len := 0]\<rparr>, p + 1)))
          else if unat (dn_name_len st) + unat label_len \<ge> 256 then
            Some (Inl (TaskAssert ''Would exceed maximum size of out_state->name''))
          else
            (case ebind (dns_name_read_label b (p + 1) label_len) (\<lambda>cs. append_name st (cs @ [46])) of
               Inl e \<Rightarrow> Some (Inl e)
             | Inr st \<Rightarrow> parse_dns_name_loop fuel packet b (p + 1 + unat label_len) st))"

definition parse_dns_name :: "nat \<Rightarrow> u8 list \<Rightarrow> u8 list \<Rightarrow> nat \<Rightarrow> (dns_name_parse_state \<times> nat) res option" where
  "parse_dns_name fuel packet b p = parse_dns_name_loop fuel packet b p dns_name_zero"

text \<open>\<^verbatim>\<open>_read_u32\<close> collects its four bytes in a 16-bit variable.\<close>

definition read_u16 :: "u8 list \<Rightarrow> nat \<Rightarrow> u16 res" where
  "read_u16 b p = get_be 2 b p"

definition read_u32 :: "u8 list \<Rightarrow> nat \<Rightarrow> u32 res" where
  "read_u32 b p = ebind (get_be 4 b p) (\<lambda>v :: u32. Inr (ucast (ucast v :: u16)))"

subsection \<open>Tables\<close>

definition name_eq_dns :: "dns_name_parse_state \<Rightarrow> dns_name_parse_state \<Rightarrow> bool" where
  "name_eq_dns a b \<longleftrightarrow> cstr (dn_name a) = cstr (dn_name b)"

definition find_or_create_dns_service_type :: "dns_name_parse_state \<Rightarrow> net_state \<Rightarrow> (nat \<times> net_state) res" where
  "find_or_create_dns_service_type parsed_name s =
     (let tab = ns_dns_services s in
      case first_index (\<lambda>ent. st_allocated ent \<and> name_eq_dns (st_type_name ent) parsed_name) tab of
        Some i \<Rightarrow> Inr (i, s)
      | None \<Rightarrow>
          (case first_index (\<lambda>ent. \<not> st_allocated ent) tab of
             Some i \<Rightarrow> Inr (i, s\<lparr>ns_dns_services := tab[i := \<lparr>st_allocated = True, st_type_name = parsed_name,
               st_instances = replicate 64 \<lparr>si_allocated = False, si_service_name = dns_name_zero\<rparr>\<rparr>]\<rparr>)
           | None \<Rightarrow> Inl (TaskAssert ''Failed to find a free slot to add a new DNS service type'')))"

definition update_dns_service_type_with_ptr_record :: "dns_name_parse_state \<Rightarrow> dns_name_parse_state \<Rightarrow> net_state \<Rightarrow> net_state res" where
  "update_dns_service_type_with_ptr_record parsed_name ptr_record s =
     ebind (find_or_create_dns_service_type parsed_name s) (\<lambda>(t, s).
     let service = ns_dns_services s ! t; insts = st_instances service in
     case first_index (\<lambda>ent. si_allocated ent \<and> name_eq_dns (si_service_name ent) ptr_record) insts of
       Some i \<Rightarrow> Inr s
     | None \<Rightarrow>
         (case first_index (\<lambda>ent. \<not> si_allocated ent) insts of
            Some i \<Rightarrow> Inr (s\<lparr>ns_dns_services := (ns_dns_services s)[t :=
              service\<lparr>st_instances := insts[i := \<lparr>si_allocated = True, si_service_name = ptr_record\<rparr>]\<rparr>]\<rparr>)
          | None \<Rightarrow> Inl (TaskAssert ''Failed to find a free slot to add a new DNS service instance'')))"

definition update_domain_name_with_a_record :: "dns_name_parse_state \<Rightarrow> u8 list \<Rightarrow> net_state \<Rightarrow> net_state res" where
  "update_domain_name_with_a_record parsed_name answer_data s =
     ebind (uassert (length answer_data = 4) ''A record data size was not right'') (\<lambda>_.
     let tab = ns_dns_domains s in
     case first_index (\<lambda>ent. dd_allocated ent \<and> name_eq_dns (dd_name ent) parsed_name) tab of
       Some i \<Rightarrow> Inr (s\<lparr>ns_dns_domains := tab[i := (tab ! i)\<lparr>dd_a_record := answer_data\<rparr>]\<rparr>)
     | None \<Rightarrow>
         (case first_index (\<lambda>ent. \<not> dd_allocated ent) tab of
            Some i \<Rightarrow> Inr (s\<lparr>ns_dns_domains := tab[i := \<lparr>dd_allocated = True, dd_name = parsed_name, dd_a_record = answer_data\<rparr>]\<rparr>)
          | None \<Rightarrow> Inr s))"

text \<open>\<^verbatim>\<open>strncmp\<close> of a cached name with a wanted name, up to the shorter of the two lengths.\<close>

definition domain_matches :: "u8 list \<Rightarrow> u32 \<Rightarrow> dns_domain \<Rightarrow> bool" where
  "domain_matches domain_name domain_name_len ent \<longleftrightarrow> dd_allocated ent \<and>
     (let n = min (unat (dn_name_len (dd_name ent))) (unat domain_name_len)
      in take n (cstr (dn_name (dd_name ent))) = take n (cstr domain_name))"

definition dns_cache_contains_domain :: "net_state \<Rightarrow> u8 list \<Rightarrow> u32 \<Rightarrow> bool" where
  "dns_cache_contains_domain s domain_name domain_name_len \<longleftrightarrow>
     find (domain_matches domain_name domain_name_len) (ns_dns_domains s) \<noteq> None"

definition dns_copy_a_record :: "net_state \<Rightarrow> u8 list \<Rightarrow> u32 \<Rightarrow> u8 list option" where
  "dns_copy_a_record s domain_name domain_name_len =
     map_option dd_a_record (find (domain_matches domain_name domain_name_len) (ns_dns_domains s))"

subsection \<open>Waiting requests\<close>

definition dns_is_amc_rpc_satisfied :: "net_state \<Rightarrow> dns_amc_rpc_info \<Rightarrow> bool res" where
  "dns_is_amc_rpc_satisfied s rpc = Inr (dns_cache_contains_domain s (di_domain_name rpc) (di_domain_name_len rpc))"

definition dns_complete_amc_rpc :: "dns_amc_rpc_info \<Rightarrow> net_state \<Rightarrow> net_state res" where
  "dns_complete_amc_rpc rpc s =
     (case dns_copy_a_record s (di_domain_name rpc) (di_domain_name_len rpc) of
        None \<Rightarrow> Inl (TaskAssert ''Failed to map domain name to A record'')
      | Some ipv4 \<Rightarrow> Inr (net_send_rpc_response (di_amc_service rpc) 9 ipv4 s))"

definition set_dns_callbacks :: "dns_amc_rpc_info callback array_t \<Rightarrow> net_state \<Rightarrow> net_state" where
  "set_dns_callbacks l s = s\<lparr>ns_dns_callbacks := l\<rparr>"

definition dns_invoke_ready_callbacks :: "net_state \<Rightarrow> net_state res" where
  "dns_invoke_ready_callbacks s =
     callback_list_invoke_ready_callbacks ns_dns_callbacks set_dns_callbacks dns_is_amc_rpc_satisfied dns_complete_amc_rpc s"

subsection \<open>Packets\<close>

definition parse_dns_question :: "nat \<Rightarrow> u8 list \<Rightarrow> nat \<Rightarrow> nat res option" where
  "parse_dns_question fuel packet p =
     map_option (\<lambda>r. ebind r (\<lambda>(parsed_name, p). ebind (read_u16 packet p) (\<lambda>ty. ebind (read_u16 packet (p + 2)) (\<lambda>cl. Inr (p + 4)))))
       (parse_dns_name fuel packet packet p)"

text \<open>Acting on a parsed answer: a pointer record names a service, an A record an address, a CNAME is only parsed.\<close>

definition handle_dns_answer :: "nat \<Rightarrow> u8 list \<Rightarrow> dns_name_parse_state \<Rightarrow> u16 \<Rightarrow> u8 list \<Rightarrow> net_state \<Rightarrow> net_state res option" where
  "handle_dns_answer fuel packet parsed_name ty answer_data s =
     (if ty = 12 then
        map_option (\<lambda>r. ebind r (\<lambda>(pointer_parse, _). update_dns_service_type_with_ptr_record parsed_name pointer_parse s))
          (parse_dns_name fuel packet answer_data 0)
      else if ty = 1 then
        Some (ebind (update_domain_name_with_a_record parsed_name answer_data s) dns_invoke_ready_callbacks)
      else if ty = 5 then
        map_option (\<lambda>r. ebind r (\<lambda>_. Inr s)) (parse_dns_name fuel packet answer_data 0)
      else Some (Inr s))"

definition parse_dns_answer :: "nat \<Rightarrow> u8 list \<Rightarrow> nat \<Rightarrow> net_state \<Rightarrow> (nat \<times> net_state) res option" where
  "parse_dns_answer fuel packet p s =
     (case parse_dns_name fuel packet packet p of
        None \<Rightarrow> None
      | Some r \<Rightarrow>
          (case ebind r (\<lambda>(parsed_name, p).
                  ebind (read_u16 packet p) (\<lambda>ty. ebind (read_u16 packet (p + 2)) (\<lambda>cl.
                  ebind (read_u32 packet (p + 4)) (\<lambda>ttl. ebind (read_u16 packet (p + 8)) (\<lambda>data_length.
                  ebind (field packet (p + 10) (unat data_length)) (\<lambda>answer_data.
                  Inr (parsed_name, ty, answer_data, p + 10 + unat data_length))))))) of
             Inl e \<Rightarrow> Some (Inl e)
           | Inr (parsed_name, ty, answer_data, p') \<Rightarrow>
               map_option (\<lambda>r. ebind r (\<lambda>s. Inr (p', s))) (handle_dns_answer fuel packet parsed_name ty answer_data s)))"

fun parse_questions :: "nat \<Rightarrow> u8 list \<Rightarrow> nat \<Rightarrow> nat \<Rightarrow> nat res option" where
  "parse_questions fuel packet 0 p = Some (Inr p)"
| "parse_questions fuel packet (Suc n) p =
     (case parse_dns_question fuel packet p of
        None \<Rightarrow> None
      | Some (Inl e) \<Rightarrow> Some (Inl e)
      | Some (Inr p) \<Rightarrow> parse_questions fuel packet n p)"

fun parse_answers :: "nat \<Rightarrow> u8 list \<Rightarrow> nat \<Rightarrow> nat \<Rightarrow> net_state \<Rightarrow> net_state res option" where
  "parse_answers fuel packet 0 p s = Some (Inr s)"
| "parse_answers fuel packet (Suc n) p s =
     (case parse_dns_answer fuel packet p s of
        None \<Rightarrow> None
      | Some (Inl e) \<Rightarrow> Some (Inl e)
      | Some (Inr (p, s)) \<Rightarrow> parse_answers fuel packet n p s)"

text \<open>
  The opcode is read from the bit field of \<^verbatim>\<open>dns_packet_t\<close>, whose first member is the lowest bit of the
  third byte on the wire, so it is bits 1 to 4 of that byte.
\<close>

definition dns_receive :: "nat \<Rightarrow> u8 list \<Rightarrow> net_state \<Rightarrow> net_state res option" where
  "dns_receive fuel packet s =
     (case ebind (get_byte packet 2) (\<lambda>b2. ebind (get_be 2 packet 4) (\<lambda>question_count :: u16.
           ebind (get_be 2 packet 6) (\<lambda>answer_count :: u16. ebind (field packet 8 4) (\<lambda>_.
           Inr (drop_bit 1 b2 AND 0xf, question_count, answer_count))))) of
        Inl e \<Rightarrow> Some (Inl e)
      | Inr (opcode, question_count, answer_count) \<Rightarrow>
          if opcode = 0 \<or> opcode = 2 then
            (case parse_questions fuel packet (unat question_count) 12 of
               None \<Rightarrow> None
             | Some (Inl e) \<Rightarrow> Some (Inl e)
             | Some (Inr p) \<Rightarrow> parse_answers fuel packet (unat answer_count) p s)
          else Some (Inr s))"

subsection \<open>Queries\<close>

definition dns_query_header :: "u8 list" where
  "dns_query_header = put_le 2 (htons 0x4546) @ put_le 2 (htons 0x0100) @ put_le 2 (htons 1) @ replicate 6 0"

fun split_dots :: "u8 list \<Rightarrow> u8 list list" where
  "split_dots [] = [[]]"
| "split_dots (b # bs) = (if b = 46 then [] # split_dots bs else (case split_dots bs of t # ts \<Rightarrow> (b # t) # ts | [] \<Rightarrow> [[b]]))"

text \<open>The number of characters of a token that are used: the loop stops at the length of the name.\<close>

definition label_len_of :: "nat \<Rightarrow> nat \<Rightarrow> u8 list \<Rightarrow> nat" where
  "label_len_of domain_name_len pos token = min (length token) (domain_name_len - 1 - pos)"

fun encode_labels :: "nat \<Rightarrow> u8 list list \<Rightarrow> u8 list \<Rightarrow> u8 list" where
  "encode_labels domain_name_len [] out = out"
| "encode_labels domain_name_len (token # tokens) out =
     (let n = label_len_of domain_name_len (length out) token
      in encode_labels domain_name_len tokens (out @ [of_nat n] @ take n token))"

definition dns_query_domain_name :: "u8 list \<Rightarrow> nat \<Rightarrow> net_state \<Rightarrow> net_state res" where
  "dns_query_domain_name domain_name domain_name_len s =
     ebind (strndup domain_name domain_name_len) (\<lambda>domain_name_copy.
      let dns_name_len = domain_name_len + 5;
          dns_name = encode_labels domain_name_len (split_dots domain_name_copy) [] @ [0] @ [0, 1] @ [0, 1]
      in if length dns_name > dns_name_len then Inl OutOfBounds
         else udp_send (dns_query_header @ dns_name) 51303 53 (router_ip_addr (ns_config s)) s)"

definition dns_send :: "net_state \<Rightarrow> net_state res" where
  "dns_send s =
     udp_send (dns_query_header @ concat (map (\<lambda>label. of_nat (length label) # map byte_of label) [''www'', ''google'', ''com''])
       @ [0] @ [0, 1] @ [0, 1]) 51303 53 (router_ip_addr (ns_config s)) s"

definition dns_init :: "net_state \<Rightarrow> net_state" where
  "dns_init s = s\<lparr>ns_dns_callbacks := array_create 64\<rparr>"

definition dns_perform_amc_rpc_discover_ipv4 :: "nat \<Rightarrow> string \<Rightarrow> u8 list \<Rightarrow> u32 \<Rightarrow> net_state \<Rightarrow> net_state res" where
  "dns_perform_amc_rpc_discover_ipv4 addr source_service domain_name domain_name_len s =
     ebind (strndup domain_name (unat domain_name_len)) (\<lambda>name.
      let callback_info = \<lparr>di_domain_name = name, di_domain_name_len = domain_name_len,
            di_amc_service = take 64 source_service\<rparr> in
      ebind (callback_list_add_callback (ns_dns_callbacks s) addr callback_info) (\<lambda>l.
      ebind (callback_list_invoke_callback_if_ready ns_dns_callbacks set_dns_callbacks dns_is_amc_rpc_satisfied
               dns_complete_amc_rpc addr (set_dns_callbacks l s)) (\<lambda>(invoked, s).
      if invoked then Inr s else dns_query_domain_name domain_name (unat domain_name_len) s)))"

subsection \<open>Waiting requests are answered\<close>

interpretation dnscb: callback_list ns_dns_callbacks set_dns_callbacks dns_is_amc_rpc_satisfied dns_complete_amc_rpc
  by unfold_locales
    (auto simp: set_dns_callbacks_def dns_complete_amc_rpc_def dns_copy_a_record_def net_send_rpc_response_def
      amc_message_send_def split: option.splits)

text \<open>
  The lookup compares only up to the shorter length: a cached name answers for every longer name that
  it is a prefix of.
\<close>

lemma cached_prefix_answers:
  assumes "dd_allocated ent" and "cstr (dn_name (dd_name ent)) = pre" and "unat (dn_name_len (dd_name ent)) = length pre"
    and "cstr wanted = pre @ rest" and "length pre \<le> unat len"
  shows "domain_matches wanted len ent"
  using assms by (simp add: domain_matches_def)

subsection \<open>Compression pointers\<close>

lemma pointer_to_itself_diverges:
  assumes "p + 1 < length packet" and "drop_bit 6 (packet ! p) = 3"
    and "unat (packet ! p AND NOT 0xc0) * 256 + unat (packet ! (p + 1)) = p"
  shows "parse_dns_name_loop fuel packet packet p st = None"
proof (induction fuel arbitrary: st)
  case (Suc fuel)
  then show ?case using assms by (simp add: get_byte_def Let_def)
qed simp

text \<open>
  C24. One packet stops the service: on a DNS packet whose first question is a compression pointer to
  itself the parser never returns, whatever the state of the service.
\<close>

theorem dns_pointer_loop_never_returns:
  assumes "14 \<le> length packet" and "drop_bit 1 (packet ! 2) AND 0xf = 0" and "get_be 2 packet 4 = Inr (q :: u16)" and "q \<noteq> 0"
    and "packet ! 12 = 0xc0" and "packet ! 13 = 12"
  shows "dns_receive fuel packet s = None"
proof -
  obtain n where n: "unat q = Suc n" using assms(4) by (cases "unat q") (auto simp: unsigned_eq_0_iff)
  have "parse_dns_name fuel packet packet 12 = None"
    unfolding parse_dns_name_def by (rule pointer_to_itself_diverges) (use assms in simp_all)
  moreover have "\<exists>a :: u16. get_be 2 packet 6 = Inr a" "\<exists>z. field packet 8 4 = Inr z"
    using assms(1) by (simp_all add: get_be_def field_def)
  ultimately show ?thesis
    using assms(1-3) n by (auto simp: dns_receive_def get_byte_def parse_dns_question_def)
qed

theorem dns_pointer_loop_never_returns_witness:
  "\<forall>fuel s. dns_receive fuel [0x45, 0x46, 1, 0, 0, 1, 0, 0, 0, 0, 0, 0, 0xc0, 12] s = None"
proof -
  have "get_be 2 [0x45, 0x46, 1, 0, 0, 1, 0, 0, 0, 0, 0, 0, 0xc0, 12 :: u8] 4 = Inr (1 :: u16)"
    by (simp add: get_be_def field_def)
  then show ?thesis
    using dns_pointer_loop_never_returns [of "[0x45, 0x46, 1, 0, 0, 1, 0, 0, 0, 0, 0, 0, 0xc0, 12]" 1] by simp
qed

subsection \<open>A query parses back\<close>

definition join_dots :: "u8 list list \<Rightarrow> u8 list" where
  "join_dots ls = concat (map (\<lambda>l. l @ [46]) (butlast ls)) @ last ls"

definition good_label :: "u8 list \<Rightarrow> bool" where
  "good_label l \<longleftrightarrow> l \<noteq> [] \<and> length l \<le> 63 \<and> 0 \<notin> set l \<and> 46 \<notin> set l"

definition wire :: "u8 list list \<Rightarrow> u8 list" where
  "wire ls = concat (map (\<lambda>l. of_nat (length l) # l) ls)"

lemma split_dots_nonempty: "split_dots bs \<noteq> []"
  by (induction bs) (auto split: list.splits)

lemma split_dots_append: "46 \<notin> set l \<Longrightarrow> split_dots (l @ 46 # bs) = l # split_dots bs"
  by (induction l) (auto split: list.splits)

lemma split_dots_single: "46 \<notin> set l \<Longrightarrow> split_dots l = [l]"
  by (induction l) auto

lemma join_dots_Cons: "ls \<noteq> [] \<Longrightarrow> join_dots (l # ls) = l @ 46 # join_dots ls"
  by (simp add: join_dots_def)

lemma split_join: "ls \<noteq> [] \<Longrightarrow> \<forall>l \<in> set ls. good_label l \<Longrightarrow> split_dots (join_dots ls) = ls"
proof (induction ls)
  case (Cons l ls)
  show ?case
  proof (cases "ls = []")
    case True
    then show ?thesis using Cons.prems by (simp add: join_dots_def split_dots_single good_label_def)
  next
    case False
    then show ?thesis using Cons by (simp add: join_dots_Cons split_dots_append good_label_def)
  qed
qed simp

lemma length_join: "ls \<noteq> [] \<Longrightarrow> length (wire ls) = Suc (length (join_dots ls))"
proof (induction ls)
  case (Cons l ls)
  then show ?case by (cases "ls = []") (auto simp: wire_def join_dots_Cons join_dots_def)
qed simp

lemma join_no_nul: "\<forall>l \<in> set ls. good_label l \<Longrightarrow> ls \<noteq> [] \<Longrightarrow> 0 \<notin> set (join_dots ls)"
  by (auto simp: join_dots_def good_label_def dest: in_set_butlastD last_in_set)

lemma encode_labels_wire:
  assumes "length out + length (wire ls) \<le> domain_name_len"
  shows "encode_labels domain_name_len ls out = out @ wire ls"
  using assms
proof (induction ls arbitrary: out)
  case (Cons l ls)
  then have "label_len_of domain_name_len (length out) l = length l" by (simp add: label_len_of_def wire_def)
  then show ?case using Cons.IH [of "out @ of_nat (length l) # l"] Cons.prems by (simp add: wire_def)
qed (simp add: wire_def)

text \<open>A parse in progress: the name read so far, every label followed by a dot.\<close>

definition so_far :: "u8 list \<Rightarrow> dns_name_parse_state \<Rightarrow> bool" where
  "so_far nm st \<longleftrightarrow> length nm < 256 \<and> dn_name st = nm @ replicate (256 - length nm) 0 \<and> dn_name_len st = of_nat (length nm)"

lemma so_far_append:
  assumes "so_far nm st" and "length nm + length cs < 256"
  shows "\<exists>st'. append_name st cs = Inr st' \<and> so_far (nm @ cs) st'"
proof -
  have n: "unat (dn_name_len st) = length nm" using assms(1) by (simp add: so_far_def unat_of_nat)
  have "drop (length nm + length cs + 1) (nm @ replicate (256 - length nm) (0 :: u8)) = replicate (255 - (length nm + length cs)) 0"
    using assms(2) by simp
  moreover have "0 # replicate (255 - (length nm + length cs)) 0 = replicate (256 - (length nm + length cs)) (0 :: u8)"
    using assms(2) by (simp add: replicate_Suc [symmetric] Suc_diff_le del: replicate_Suc)
  ultimately show ?thesis
    using assms n by (simp add: append_name_def write_cstr_def so_far_def)
qed

lemma cstr_append_zero: "0 \<notin> set xs \<Longrightarrow> cstr (xs @ 0 # ys) = xs" "0 \<notin> set xs \<Longrightarrow> cstr xs = xs"
  by (induction xs) (auto simp: cstr_def)

text \<open>The length byte of a label of at most 63 bytes is not a compression pointer.\<close>

lemma length_byte:
  assumes "good_label l"
  shows "unat (of_nat (length l) :: u8) = length l" "drop_bit 6 (of_nat (length l) :: u8) \<noteq> 3" "(of_nat (length l) :: u8) \<noteq> 0"
proof -
  show n: "unat (of_nat (length l) :: u8) = length l" using assms by (simp add: good_label_def unat_of_nat)
  have "unat (drop_bit 6 (of_nat (length l) :: u8)) = 0"
    using n assms by (simp only: unat_drop_bit) (simp add: good_label_def)
  then show "drop_bit 6 (of_nat (length l) :: u8) \<noteq> 3" by auto
  show "(of_nat (length l) :: u8) \<noteq> 0" using n assms by (metis good_label_def length_0_conv unsigned_0)
qed

lemma parse_end:
  assumes "so_far nm st" and "nm = m @ [46]" and "0 \<notin> set m" and "b = pre @ 0 # post"
  shows "\<exists>st'. parse_dns_name_loop (Suc fuel) packet b (length pre) st = Some (Inr (st', length pre + 1))
    \<and> cstr (dn_name st') = m \<and> unat (dn_name_len st') = length m"
proof -
  have len: "dn_name_len st - 1 = of_nat (length m)" "length m < 255" using assms(1,2) by (simp_all add: so_far_def)
  then have u: "unat (dn_name_len st - 1) = length m" by (simp add: unat_of_nat)
  have "(dn_name st)[length m := 0] = m @ 0 # replicate (256 - length nm) 0"
    using assms(1,2) by (simp add: so_far_def list_update_append)
  then have "cstr ((dn_name st)[length m := 0]) = m" using cstr_append_zero(1) [OF assms(3)] by simp
  then show ?thesis using u by (simp add: get_byte_def assms(4) Let_def)
qed

lemma parse_label:
  assumes "so_far nm st" and "good_label l" and "length nm + length l + 1 < 256" and "b = pre @ of_nat (length l) # l @ post"
  shows "\<exists>st'. so_far (nm @ l @ [46]) st' \<and> parse_dns_name_loop (Suc fuel) packet b (length pre) st =
    parse_dns_name_loop fuel packet b (length (pre @ of_nat (length l) # l)) st'"
proof -
  have n: "unat (dn_name_len st) = length nm" using assms(1) by (simp add: so_far_def unat_of_nat)
  have "dns_name_read_label b (length pre + 1) (of_nat (length l)) = Inr l"
    using assms(2,4) length_byte(1) [OF assms(2)] cstr_append_zero(2) [of l] by (simp add: dns_name_read_label_def good_label_def)
  moreover obtain st' where "append_name st (l @ [46]) = Inr st'" "so_far (nm @ l @ [46]) st'"
    using so_far_append [OF assms(1), of "l @ [46]"] assms(3) by auto
  ultimately show ?thesis
    using length_byte [OF assms(2)] n assms(3) by (intro exI [of _ st']) (simp add: get_byte_def assms(4))
qed

lemma parse_wire:
  assumes "\<forall>l \<in> set ls. good_label l" and "so_far nm st" and "nm \<noteq> [] \<or> ls \<noteq> []" and "nm \<noteq> [] \<longrightarrow> last nm = 46" and "0 \<notin> set nm"
    and "length nm + length (wire ls) < 256" and "b = pre @ wire ls @ 0 # post" and "length ls < fuel"
  shows "\<exists>st'. parse_dns_name_loop fuel packet b (length pre) st = Some (Inr (st', length pre + length (wire ls) + 1))
    \<and> cstr (dn_name st') = butlast (nm @ concat (map (\<lambda>l. l @ [46]) ls)) \<and> unat (dn_name_len st') = length nm + length (wire ls) - 1"
  using assms
proof (induction ls arbitrary: nm st pre fuel)
  case Nil
  then obtain m where "nm = m @ [46]" by (metis append_butlast_last_id)
  moreover obtain f where "fuel = Suc f" using Nil.prems(8) by (cases fuel) auto
  ultimately show ?case using parse_end [OF Nil.prems(2), of m b pre post f packet] Nil.prems(5,7) by (auto simp: wire_def)
next
  case (Cons l ls)
  obtain f where f: "fuel = Suc f" "length ls < f" using Cons.prems(8) by (cases fuel) auto
  have good: "good_label l" using Cons.prems(1) by simp
  have w: "wire (l # ls) = of_nat (length l) # l @ wire ls" by (simp add: wire_def)
  have b: "b = pre @ of_nat (length l) # l @ wire ls @ 0 # post" using Cons.prems(7) w by simp
  have "length nm + length l + 1 < 256" using Cons.prems(6) w by simp
  then obtain st' where st': "so_far (nm @ l @ [46]) st'" "parse_dns_name_loop fuel packet b (length pre) st =
      parse_dns_name_loop f packet b (length (pre @ of_nat (length l) # l)) st'"
    using parse_label [OF Cons.prems(2) good _ b] f(1) by blast
  have "\<exists>st''. parse_dns_name_loop f packet b (length (pre @ of_nat (length l) # l)) st' =
        Some (Inr (st'', length (pre @ of_nat (length l) # l) + length (wire ls) + 1))
      \<and> cstr (dn_name st'') = butlast ((nm @ l @ [46]) @ concat (map (\<lambda>l. l @ [46]) ls))
      \<and> unat (dn_name_len st'') = length (nm @ l @ [46]) + length (wire ls) - 1"
    by (rule Cons.IH [OF _ st'(1)]) (use Cons.prems good b w f(2) in \<open>auto simp: good_label_def\<close>)
  then show ?case unfolding st'(2) w by auto
qed

lemma join_dots_butlast: "ls \<noteq> [] \<Longrightarrow> butlast (concat (map (\<lambda>l. l @ [46]) ls)) = join_dots ls"
  by (cases ls rule: rev_cases) (auto simp: join_dots_def butlast_append)

text \<open>
  C23. A query asks for the name it was given: for a domain name of at most 253 bytes made of labels of
  1 to 63 bytes, the query packet that is handed to UDP carries, behind the header, a name from which
  the parser reads back exactly the domain name and its length, followed by the type and class of an
  address record; the buffer for it is not overrun.
\<close>

theorem dns_query_parses_back:
  assumes "ls \<noteq> []" and "\<forall>l \<in> set ls. good_label l" and "length (join_dots ls) \<le> 253"
    and "domain_name = join_dots ls @ 0 # rest" and "domain_name_len = Suc (length (join_dots ls))" and "length ls < fuel"
  shows "\<exists>query st. dns_query_domain_name domain_name domain_name_len s = udp_send query 51303 53 (router_ip_addr (ns_config s)) s
    \<and> parse_dns_name fuel query query 12 = Some (Inr (st, 12 + length (join_dots ls) + 2))
    \<and> cstr (dn_name st) = join_dots ls \<and> unat (dn_name_len st) = length (join_dots ls)
    \<and> read_u16 query (12 + length (join_dots ls) + 2) = Inr 1 \<and> read_u16 query (12 + length (join_dots ls) + 4) = Inr 1"
proof -
  let ?L = "length (join_dots ls)"
  let ?query = "dns_query_header @ wire ls @ [0, 0, 1, 0, 1]"
  have len: "length (wire ls) = Suc ?L" by (rule length_join [OF assms(1)])
  have hdr: "length dns_query_header = 12" by (simp add: dns_query_header_def)
  have "cstr (take domain_name_len domain_name) = join_dots ls"
    using cstr_append_zero [OF join_no_nul [OF assms(2,1)]] assms(4,5) by simp
  then have "encode_labels domain_name_len (split_dots (cstr (take domain_name_len domain_name))) [] = wire ls"
    using split_join [OF assms(1,2)] encode_labels_wire [of "[]" ls domain_name_len] len assms(5) by simp
  then have send: "dns_query_domain_name domain_name domain_name_len s = udp_send ?query 51303 53 (router_ip_addr (ns_config s)) s"
    using len assms(4,5) by (simp add: dns_query_domain_name_def strndup_def)
  have "so_far [] dns_name_zero" by (simp add: so_far_def dns_name_zero_def)
  then obtain st where st: "parse_dns_name fuel ?query ?query 12 = Some (Inr (st, 12 + length (wire ls) + 1))"
      "cstr (dn_name st) = butlast (concat (map (\<lambda>l. l @ [46]) ls))" "unat (dn_name_len st) = length (wire ls) - 1"
    using parse_wire [OF assms(2), of "[]" dns_name_zero ?query dns_query_header "[0, 1, 0, 1]" fuel ?query] assms(1,3,6) len hdr
    by (auto simp: parse_dns_name_def)
  have "read_u16 ?query (12 + ?L + 2) = Inr 1" "read_u16 ?query (12 + ?L + 4) = Inr 1"
    using len hdr by (simp_all add: read_u16_def get_be_def field_def)
  then show ?thesis using send st len join_dots_butlast [OF assms(1)] by auto
qed

theorem dns_query_parses_back_witness:
  "\<exists>query st. dns_query_domain_name (map byte_of ''www.axle.os'' @ [0]) 12 demo_net = udp_send query 51303 53 [192, 168, 0, 1] demo_net
     \<and> parse_dns_name 10 query query 12 = Some (Inr (st, 25)) \<and> cstr (dn_name st) = map byte_of ''www.axle.os''"
proof -
  let ?ls = "[map byte_of ''www'', map byte_of ''axle'', map byte_of ''os'']"
  have ls: "join_dots ?ls = map byte_of ''www.axle.os''" "\<forall>l \<in> set ?ls. good_label l"
    by (simp_all add: join_dots_def good_label_def byte_of_def of_char_def)
  have "router_ip_addr (ns_config demo_net) = [192, 168, 0, 1]" by (simp add: demo_net_def)
  then show ?thesis
    using dns_query_parses_back [of ?ls "map byte_of ''www.axle.os'' @ [0]" "[]" 12 10 demo_net] ls by auto
qed

end
