(* ===== verification/Net_Receive.thy ===== *)
theory Net_Receive
  imports Net_Tcp Net_Dns
begin

text \<open>
  The receiving half of the stack (\<^verbatim>\<open>ethernet_receive\<close>, \<^verbatim>\<open>ipv4_receive\<close>, \<^verbatim>\<open>udp_receive\<close>) and the
  dispatcher of the service (\<^verbatim>\<open>_amc_message_received\<close> in \<^verbatim>\<open>net.c\<close>), which hands frames from the network
  card to it and serves the requests of other processes. The layers are composed as in the code; the
  fuel is that of the DNS name parser.
\<close>

subsection \<open>Addresses\<close>

definition ip_equals_buf_u8 :: "u8 list \<Rightarrow> u8 \<Rightarrow> u8 \<Rightarrow> u8 \<Rightarrow> u8 \<Rightarrow> bool res" where
  "ip_equals_buf_u8 ip_buf b0 b1 b2 b3 =
     ebind (get_byte ip_buf 0) (\<lambda>i0. ebind (get_byte ip_buf 1) (\<lambda>i1. ebind (get_byte ip_buf 2) (\<lambda>i2. ebind (get_byte ip_buf 3) (\<lambda>i3.
     Inr (i0 = b0 \<and> i1 = b1 \<and> i2 = b2 \<and> i3 = b3)))))"

definition ip_equals_buf_buf :: "u8 list \<Rightarrow> u8 list \<Rightarrow> bool" where
  "ip_equals_buf_buf ip_buf ip_buf2 \<longleftrightarrow> take 4 ip_buf = take 4 ip_buf2"

definition ip_equals_buf_u32 :: "u8 list \<Rightarrow> u32 \<Rightarrow> bool res" where
  "ip_equals_buf_u32 ip_buf ip2 = ip_equals_buf_u8 ip_buf (byte_at 0 ip2) (byte_at 1 ip2) (byte_at 2 ip2) (byte_at 3 ip2)"

subsection \<open>The layers\<close>

text \<open>UDP: only the ports of DNS and multicast DNS are served. Sizes are unsigned 32-bit differences.\<close>

definition udp_receive :: "nat \<Rightarrow> u8 list \<Rightarrow> net_state \<Rightarrow> net_state res option" where
  "udp_receive fuel packet s =
     (case ebind (get_le 2 packet 0) (\<lambda>source_port. ebind (get_le 2 packet 2) (\<lambda>dest_port. ebind (field packet 4 2) (\<lambda>_.
           Inr (htons source_port, htons dest_port)))) of
        Inl e \<Rightarrow> Some (Inl e)
      | Inr (source_port, dest_port) \<Rightarrow>
          if dest_port = 53 \<or> source_port = 53 \<or> dest_port = 5353 \<or> source_port = 5353 then
            (let dns_packet_size = of_nat (length packet) - 8 :: u32 in
             case field packet 8 (unat dns_packet_size) of
               Inl e \<Rightarrow> Some (Inl e)
             | Inr copied_packet \<Rightarrow> dns_receive fuel copied_packet s)
          else Some (Inr s))"

text \<open>What the header of an IPv4 packet says: source, protocol and whether the packet is for us and has no options.\<close>

definition ipv4_accept :: "u8 list \<Rightarrow> net_state \<Rightarrow> (u8 list \<times> u8 \<times> u16) option res" where
  "ipv4_accept packet s =
     ebind (field packet 16 4) (\<lambda>dest_ip.
     if dest_ip \<noteq> ip_addr (ns_config s) then Inr None
     else
       ebind (field packet 12 4) (\<lambda>source_ip. ebind (get_byte packet 0) (\<lambda>b0.
       ebind (uassert (drop_bit 4 b0 = 4) ''IPv4 packet version must be 4'') (\<lambda>_.
       ebind (uassert (b0 AND 0xf \<ge> 5) ''IPv4 IHL must be at least 5'') (\<lambda>_.
       if b0 AND 0xf > 5 then Inr None
       else ebind (get_byte packet 9) (\<lambda>protocol. ebind (get_le 2 packet 2) (\<lambda>total_length.
            Inr (Some (source_ip, protocol, htons total_length)))))))))"

definition ipv4_receive :: "nat \<Rightarrow> u8 list \<Rightarrow> net_state \<Rightarrow> net_state res option" where
  "ipv4_receive fuel packet s =
     (case ipv4_accept packet s of
        Inl e \<Rightarrow> Some (Inl e)
      | Inr None \<Rightarrow> Some (Inr s)
      | Inr (Some (source_ip, protocol, total_length)) \<Rightarrow>
          let body_size = ucast total_length - 20 :: u32 in
          if protocol = IPv4_PROTOCOL_UDP then
            (case field packet 20 (unat body_size) of
               Inl e \<Rightarrow> Some (Inl e)
             | Inr copied_packet \<Rightarrow> udp_receive fuel copied_packet s)
          else if protocol = IPv4_PROTOCOL_TCP then
            (case field packet 20 (unat body_size) of
               Inl e \<Rightarrow> Some (Inl e)
             | Inr copied_packet \<Rightarrow> Some (tcp_receive source_ip (ip_addr (ns_config s)) copied_packet s))
          else Some (Inr s))"

definition ethernet_receive :: "nat \<Rightarrow> u8 list \<Rightarrow> net_state \<Rightarrow> net_state res option" where
  "ethernet_receive fuel ethernet_frame s =
     (case ebind (field ethernet_frame 0 12) (\<lambda>_. get_le 2 ethernet_frame 12) of
        Inl e \<Rightarrow> Some (Inl e)
      | Inr ty \<Rightarrow>
          let ethtype = htons ty in
          if ethtype = ETHTYPE_ARP then Some (arp_receive (drop 14 ethernet_frame) s)
          else if ethtype = ETHTYPE_IPv4 then ipv4_receive fuel (drop 14 ethernet_frame) s
          else Some (Inr s))"

subsection \<open>The dispatcher\<close>

datatype net_request =
    RxFrame "u8 list" | CopyLocalMac | CopyLocalIPv4 | CopyRouterIPv4 | ArpGetMac "u8 list" | DnsGetIPv4 u32 "u8 list"
  | TcpOpen u16 u16 "u8 list" | TcpSend u32 "u8 list" | TcpRead u32 u32 | OtherEvent u32

text \<open>
  A request for the address of a name carries the length its sender states and the bytes that follow it in the
  message, of which one more than stated may be read. The addresses of newly allocated contexts and the random
  number are arguments.
\<close>

definition net_serve_rpc :: "nat \<Rightarrow> u32 \<Rightarrow> string \<Rightarrow> net_request \<Rightarrow> net_state \<Rightarrow> net_state res" where
  "net_serve_rpc addr rand_num source_service req s =
     (case req of
        CopyLocalMac \<Rightarrow> Inr (net_send_rpc_response source_service 5 (nic_mac (ns_config s)) s)
      | CopyLocalIPv4 \<Rightarrow> Inr (net_send_rpc_response source_service 6 (ip_addr (ns_config s)) s)
      | CopyRouterIPv4 \<Rightarrow> Inr (net_send_rpc_response source_service 7 (router_ip_addr (ns_config s)) s)
      | ArpGetMac bytes \<Rightarrow>
          ebind (uassert (length bytes = 4) ''Provided data was not the size of an IPv4 address'') (\<lambda>_.
          arp_perform_amc_rpc_discover_mac addr source_service bytes s)
      | DnsGetIPv4 domain_name_len bytes \<Rightarrow>
          dns_perform_amc_rpc_discover_ipv4 addr source_service bytes (domain_name_len + 1) s
      | TcpOpen src_port dst_port dst_ipv4 \<Rightarrow> tcp_perform_amc_rpc_conn_open addr rand_num source_service src_port dst_port dst_ipv4 s
      | TcpSend tcp_conn_descriptor bytes \<Rightarrow> tcp_perform_amc_rpc_conn_send tcp_conn_descriptor bytes s
      | TcpRead tcp_conn_descriptor len \<Rightarrow> tcp_perform_amc_rpc_conn_read addr source_service tcp_conn_descriptor len s
      | _ \<Rightarrow> Inr s)"

definition amc_message_received :: "nat \<Rightarrow> nat \<Rightarrow> u32 \<Rightarrow> string \<Rightarrow> net_request \<Rightarrow> net_state \<Rightarrow> net_state res option" where
  "amc_message_received fuel addr rand_num source_service req s =
     (if take 64 source_service = take 64 RTL8139_SERVICE_NAME then
        (case req of RxFrame frame \<Rightarrow> ethernet_receive fuel frame s | _ \<Rightarrow> Some (Inr s))
      else Some (net_serve_rpc addr rand_num source_service req s))"

subsection \<open>Properties\<close>

lemma ipv4_header_fields:
  assumes "length dst = 4"
  shows "field (ipv4_header sz pr c src dst @ bs) 16 4 = Inr dst" "field (ipv4_header sz pr c src dst @ bs) 12 4 = Inr (put_le 4 src)"
    "get_byte (ipv4_header sz pr c src dst @ bs) 0 = Inr 0x45" "get_byte (ipv4_header sz pr c src dst @ bs) 9 = Inr pr"
    "get_le 2 (ipv4_header sz pr c src dst @ bs) 2 = Inr (htons (ucast sz))" "length (ipv4_header sz pr c src dst) = 20"
  using assms by (simp_all add: ipv4_header_def packed_simps get_byte_def nth_append)

lemma unat_ucast_mod: "unat (ucast w :: 'b::len word) = unat w mod 2 ^ LENGTH('b)" for w :: "'a::len word"
  by (simp only: unsigned_ucast_eq take_bit_eq_mod)

lemma ipv4_roundtrip:
  assumes "net_up a" and "length (ip_addr (ns_config b)) = 4" and "length packet \<le> 65515" and "protocol = IPv4_PROTOCOL_TCP"
  shows "ipv4_receive fuel (ipv4_packet_sent a (ip_addr (ns_config b)) protocol packet) b =
    Some (tcp_receive (ip_addr (ns_config a)) (ip_addr (ns_config b)) packet b)"
proof -
  let ?src = "ip_u32 (ip_addr (ns_config a))" and ?dst = "ip_addr (ns_config b)" and ?sz = "20 + of_nat (length packet) :: u32"
  have src: "put_le 4 ?src = ip_addr (ns_config a)" using assms(1) by (simp add: net_up_def put_le_ip_u32)
  have u: "unat (of_nat (length packet) :: u32) = length packet" using assms(3) by (simp add: unat_of_nat)
  then have "unat ?sz = 20 + length packet" using assms(3) by (simp add: unat_word_ariths)
  then have "unat (ucast (ucast ?sz :: u16) :: u32) = unat ?sz"
    using assms(3) by (simp only: unat_ucast_mod) simp
  then have "(ucast (ucast ?sz :: u16) :: u32) = ?sz" by (rule unsigned_word_eqI)
  then have size: "unat (ucast (ucast ?sz :: u16) - 20 :: u32) = length packet" using u by simp
  have acc: "ipv4_accept (ipv4_header ?sz protocol c ?src ?dst @ packet) b = Inr (Some (ip_addr (ns_config a), protocol, ucast ?sz))" for c
    using ipv4_header_fields [OF assms(2)] src by (simp add: ipv4_accept_def)
  have body: "field (ipv4_header ?sz protocol c ?src ?dst @ packet) 20 (length packet) = Inr packet" for c
    using ipv4_header_fields(6) [OF assms(2)] by (simp add: field_skip field_exact)
  show ?thesis
    using acc body size assms(4) by (simp add: ipv4_receive_def ipv4_packet_sent_def Let_def IPv4_PROTOCOL_TCP_def IPv4_PROTOCOL_UDP_def)
qed

text \<open>
  C25. A segment crosses the network unchanged: when a host sends a TCP segment to the address of another
  host and the frame reaches that host's network card, the whole receiving stack hands exactly that
  segment, with the sender's address, to the TCP layer of the other host.
\<close>

theorem sent_segment_reaches_peer_tcp:
  assumes "net_up a" and "length (nic_mac (ns_config a)) = 6" and "arp_copy_mac a (router_ip_addr (ns_config a)) = Some router_mac"
    and "length router_mac = 6" and "length (ip_addr (ns_config b)) = 4" and "length bytes \<le> 65495"
  shows "\<exists>frame. tcp_send src_port dst_port (ip_addr (ns_config b)) seqn ackn flags bytes a =
      Inr (amc_message_send RTL8139_SERVICE_NAME (TxFrame frame) a)
    \<and> amc_message_received fuel addr rnd RTL8139_SERVICE_NAME (RxFrame frame) b =
      Some (tcp_receive (ip_addr (ns_config a)) (ip_addr (ns_config b))
        (tcp_segment_sent a src_port dst_port (ip_addr (ns_config b)) seqn ackn flags bytes) b)"
proof (intro exI conjI)
  let ?seg = "tcp_segment_sent a src_port dst_port (ip_addr (ns_config b)) seqn ackn flags bytes"
  let ?pkt = "ipv4_packet_sent a (ip_addr (ns_config b)) IPv4_PROTOCOL_TCP ?seg"
  show "tcp_send src_port dst_port (ip_addr (ns_config b)) seqn ackn flags bytes a =
      Inr (amc_message_send RTL8139_SERVICE_NAME (TxFrame (frame_sent a ?pkt)) a)"
    by (rule tcp_send_ok [OF assms(1,5)])
  have frame: "frame_sent a ?pkt = (router_mac @ nic_mac (ns_config a)) @ put_le 2 (htons ETHTYPE_IPv4) @ ?pkt"
    using assms(3) by (simp add: frame_sent_def)
  have "length ?seg \<le> 65515" using assms(6) by (simp add: tcp_segment_sent_def tcp_header_def)
  then have ip: "ipv4_receive fuel ?pkt b = Some (tcp_receive (ip_addr (ns_config a)) (ip_addr (ns_config b)) ?seg b)"
    using ipv4_roundtrip [OF assms(1,5)] by blast
  have "field (frame_sent a ?pkt) 0 12 = Inr (router_mac @ nic_mac (ns_config a))" "get_le 2 (frame_sent a ?pkt) 12 = Inr (htons ETHTYPE_IPv4)"
      "drop 14 (frame_sent a ?pkt) = ?pkt"
    unfolding frame using assms(2,4) by (simp_all add: field_here field_skip get_le_def le_val_put_le del: append_assoc)
  then show "amc_message_received fuel addr rnd RTL8139_SERVICE_NAME (RxFrame (frame_sent a ?pkt)) b =
      Some (tcp_receive (ip_addr (ns_config a)) (ip_addr (ns_config b)) ?seg b)"
    using ip by (simp add: amc_message_received_def ethernet_receive_def ETHTYPE_ARP_def ETHTYPE_IPv4_def)
qed

theorem sent_segment_reaches_peer_tcp_witness:
  "\<exists>frame. tcp_send 4000 80 [192, 168, 0, 9] 5 6 TCP_FLAG_ACK [1, 2, 3] demo_up =
      Inr (amc_message_send RTL8139_SERVICE_NAME (TxFrame frame) demo_up)
    \<and> amc_message_received 9 0 0 RTL8139_SERVICE_NAME (RxFrame frame) demo_net =
      Some (tcp_receive [192, 168, 0, 9] [192, 168, 0, 9] (tcp_segment_sent demo_up 4000 80 [192, 168, 0, 9] 5 6 TCP_FLAG_ACK [1, 2, 3]) demo_net)"
proof -
  have "arp_copy_mac demo_up [192, 168, 0, 1] = Some [9, 9, 9, 9, 9, 9]" by (simp add: demo_up_def arp_copy_mac_def arp_matches_def)
  moreover have "ns_config demo_up = \<lparr>nic_mac = [2, 0, 0, 0, 0, 9], ip_addr = [192, 168, 0, 9], router_ip_addr = [192, 168, 0, 1]\<rparr>"
      "ns_config demo_net = ns_config demo_up"
    by (simp_all add: demo_up_def demo_net_def)
  ultimately show ?thesis
    using sent_segment_reaches_peer_tcp [OF demo_up_net, of "[9, 9, 9, 9, 9, 9]" demo_net "[1, 2, 3]" 4000 80 5 6 TCP_FLAG_ACK 9 0 0] by simp
qed

text \<open>
  A packet whose total length field exceeds what was received makes the code copy past the end of the
  received packet; the length is not compared with the received size.
\<close>

lemma ipv4_length_beyond_packet_overreads:
  assumes "ipv4_accept packet s = Inr (Some (src, IPv4_PROTOCOL_UDP, total_length))" and "20 \<le> unat total_length"
    and "length packet < unat total_length"
  shows "ipv4_receive fuel packet s = Some (Inl OutOfBounds)"
proof -
  have "unat total_length < 2 ^ LENGTH(16)" by (rule unsigned_less)
  then have "unat (ucast total_length :: u32) = unat total_length" by (simp add: unat_ucast_mod)
  then have "unat (ucast total_length - 20 :: u32) = unat total_length - 20"
    using assms(2) by (subst unat_sub) (simp_all add: word_le_nat_alt)
  then show ?thesis using assms by (simp add: ipv4_receive_def field_def)
qed

end
