(* ===== verification/Fat.thy ===== *)
theory Fat
  imports Bytes Array_M
begin

text \<open>
  The FAT file system of the file manager (\<^verbatim>\<open>programs/subprojects/file_manager/fat.c\<close>) on the sectors
  its ATA client reads and writes (\<^verbatim>\<open>ata.c\<close>): formatting, allocation of a sector, creation of files
  and directories, reading of a whole file and of a part of it through the cache of table sectors.

  The disk is a function from sector numbers to the bytes of the sector: an \<^verbatim>\<open>ata_read_sector\<close> is a
  message to the ATA driver and the wait for its answer, with no other request of the file manager
  in between, so reads and writes take effect in program order. Entries of the table and directory
  slots are read and written in the bytes of a sector at the offsets of the C structs. Each
  \<^verbatim>\<open>fat_cached_sector_t\<close> is reached only through its slot of the cache array and is kept in it.
\<close>

subsection \<open>Structures\<close>

record fat_drive_info_t =
  fd_sector_size :: u32
  fd_disk_size_in_bytes :: u32
  fd_fat_sector_count :: u32
  fd_fat_head_sector :: u32
  fd_root_directory_head_sector :: u32
  fd_fat_sector_slide :: u32
  fd_sectors_on_disk :: u32
  fd_fat_entries_per_sector :: u32

record fat_entry_t =
  fe_allocated :: bool
  fe_reserved :: u8
  fe_next :: u16

record fat_directory_entry_t =
  de_is_directory :: bool
  de_filename :: "u8 list"
  de_ext :: "u8 list"
  de_first :: u16
  de_size :: u32

record fat_cached_sector_t =
  cs_valid :: bool
  cs_data :: "u8 list"

record fat_node =
  fn_first :: u32
  fn_size :: u32

record fat_state =
  fat_disk :: "u32 \<Rightarrow> u8 list"
  fat_info :: fat_drive_info_t
  fat_cache :: "fat_cached_sector_t array_t option"
  fat_last_sector :: u32

definition FAT_SECTOR_TYPE_EOF :: "'a::len word" where "FAT_SECTOR_TYPE_EOF = 0"

subsection \<open>Fields of a sector\<close>

text \<open>Overwriting bytes of a buffer at an offset, and the table entry and directory slot at an index.\<close>

definition put_field :: "u8 list \<Rightarrow> nat \<Rightarrow> u8 list \<Rightarrow> u8 list res" where
  "put_field b off f = (if off + length f \<le> length b then Inr (take off b @ f @ drop (off + length f) b) else Inl OutOfBounds)"

definition get_fat_entry :: "u8 list \<Rightarrow> u32 \<Rightarrow> fat_entry_t res" where
  "get_fat_entry b j =
     ebind (get_le 1 b (4 * unat j)) (\<lambda>a :: u8.
     ebind (get_le 1 b (4 * unat j + 1)) (\<lambda>r.
     ebind (get_le 2 b (4 * unat j + 2)) (\<lambda>n.
     Inr \<lparr>fe_allocated = (a \<noteq> 0), fe_reserved = r, fe_next = n\<rparr>)))"

text \<open>\<open>fat_data[j].allocated = a\<close> and \<open>fat_data[j].next_fat_entry_idx_in_file = n\<close>.\<close>

definition set_fat_entry :: "u8 list \<Rightarrow> u32 \<Rightarrow> bool \<Rightarrow> u16 \<Rightarrow> u8 list res" where
  "set_fat_entry b j a n =
     ebind (put_field b (4 * unat j) [if a then 1 else 0]) (\<lambda>b.
     put_field b (4 * unat j + 2) (put_le 2 n))"

definition fat_entry_bytes :: "fat_entry_t \<Rightarrow> u8 list" where
  "fat_entry_bytes e = [if fe_allocated e then 1 else 0, fe_reserved e] @ put_le 2 (fe_next e)"

definition get_slot :: "u8 list \<Rightarrow> u32 \<Rightarrow> fat_directory_entry_t res" where
  "get_slot b i =
     ebind (get_le 1 b (32 * unat i)) (\<lambda>d :: u8.
     ebind (field b (32 * unat i + 1) 8) (\<lambda>name.
     ebind (field b (32 * unat i + 9) 3) (\<lambda>ext.
     ebind (get_le 2 b (32 * unat i + 12)) (\<lambda>first.
     ebind (get_le 4 b (32 * unat i + 14)) (\<lambda>sz.
     Inr \<lparr>de_is_directory = (d \<noteq> 0), de_filename = name, de_ext = ext, de_first = first, de_size = sz\<rparr>)))))"

definition set_slot_header :: "u8 list \<Rightarrow> u32 \<Rightarrow> bool \<Rightarrow> string \<Rightarrow> string \<Rightarrow> u32 \<Rightarrow> u8 list res" where
  "set_slot_header b i is_directory filename ext sz =
     ebind (put_field b (32 * unat i) [if is_directory then 1 else 0]) (\<lambda>b.
     ebind (put_field b (32 * unat i + 1) (put_name 8 filename)) (\<lambda>b.
     ebind (if is_directory then Inr b else put_field b (32 * unat i + 9) (put_name 3 ext)) (\<lambda>b.
     put_field b (32 * unat i + 14) (put_le 4 sz))))"

definition set_slot_first :: "u8 list \<Rightarrow> u32 \<Rightarrow> u16 \<Rightarrow> u8 list res" where
  "set_slot_first b i first = put_field b (32 * unat i + 12) (put_le 2 first)"

subsection \<open>Sectors\<close>

definition ata_read_sector :: "u32 \<Rightarrow> fat_state \<Rightarrow> u8 list" where
  "ata_read_sector lba s = fat_disk s lba"

definition ata_write_sector :: "u32 \<Rightarrow> u8 list \<Rightarrow> fat_state \<Rightarrow> fat_state res" where
  "ata_write_sector lba data s =
     ebind (field data 0 512) (\<lambda>d. Inr (s\<lparr>fat_disk := (fat_disk s)(lba := d)\<rparr>))"

subsection \<open>The cache of table sectors\<close>

definition cache_at :: "u32 \<Rightarrow> fat_state \<Rightarrow> fat_cached_sector_t res" where
  "cache_at i s = ebind (deref (fat_cache s)) (\<lambda>c. ebind (array_lookup c (sint i)) deref)"

definition cache_set :: "u32 \<Rightarrow> fat_cached_sector_t \<Rightarrow> fat_state \<Rightarrow> fat_state res" where
  "cache_set i e s = ebind (deref (fat_cache s)) (\<lambda>c. ebind (array_set c (sint i) e) (\<lambda>c. Inr (s\<lparr>fat_cache := Some c\<rparr>)))"

definition fat_cache_invalidate_table_sector :: "u32 \<Rightarrow> fat_state \<Rightarrow> fat_state res" where
  "fat_cache_invalidate_table_sector i s =
     ebind (cache_at i s) (\<lambda>cached. if cs_valid cached then cache_set i (cached\<lparr>cs_valid := False\<rparr>) s else Inr s)"

definition fat_read_table_sector :: "u32 \<Rightarrow> fat_state \<Rightarrow> (u8 list \<times> fat_state) res" where
  "fat_read_table_sector i s =
     ebind (deref (fat_cache s)) (\<lambda>c.
     if i \<ge> word_of_int (at_size c) then Inl (TaskAssert ''fat_read_table_sector passed invalid sector?'')
     else ebind (cache_at i s) (\<lambda>cached.
       if cs_valid cached then Inr (cs_data cached, s)
       else let sector = ata_read_sector (fd_fat_head_sector (fat_info s) + i) s in
         ebind (field sector 0 (unat (fd_sector_size (fat_info s)))) (\<lambda>d.
         ebind (put_field (cs_data cached) 0 d) (\<lambda>d.
         ebind (cache_set i \<lparr>cs_valid = True, cs_data = d\<rparr> s) (\<lambda>s. Inr (d, s))))))"

subsection \<open>Allocation\<close>

function fat_find_free :: "fat_drive_info_t \<Rightarrow> u8 list \<Rightarrow> u32 \<Rightarrow> u32 option res" where
  "fat_find_free di data j =
     (if j < fd_fat_entries_per_sector di
      then ebind (get_fat_entry data j) (\<lambda>e. if \<not> fe_allocated e then Inr (Some j) else fat_find_free di data (j + 1))
      else Inr None)"
  by pat_completeness auto
termination
  by (relation "measure (\<lambda>(di, data, j). unat (fd_fat_entries_per_sector di) - unat j)") (auto intro: word_loop_measure)

function fat_alloc_loop :: "fat_drive_info_t \<Rightarrow> u32 \<Rightarrow> u32 \<Rightarrow> fat_state \<Rightarrow> (u32 \<times> fat_state) res" where
  "fat_alloc_loop di next_idx i s =
     (if i < fd_fat_sector_count di
      then let sector_index = fd_fat_head_sector di + i in
        if sector_index < fat_last_sector s then fat_alloc_loop di next_idx (i + 1) s
        else let data = ata_read_sector sector_index s in
          ebind (fat_find_free di data 0) (\<lambda>r. case r of
            None \<Rightarrow> fat_alloc_loop di next_idx (i + 1) s
          | Some j \<Rightarrow>
             (let s = s\<lparr>fat_last_sector := sector_index\<rparr>;
                  entry_idx = i * fd_fat_entries_per_sector di + j;
                  disk_sector = entry_idx + fd_fat_sector_slide di in
              ebind (ata_write_sector disk_sector (replicate (unat (fd_sector_size di)) 0) s) (\<lambda>s.
              ebind (set_fat_entry data j True (ucast next_idx)) (\<lambda>data.
              ebind (ata_write_sector sector_index data s) (\<lambda>s.
              ebind (fat_cache_invalidate_table_sector i s) (\<lambda>s. Inr (entry_idx, s)))))))
      else Inl (TaskAssert ''FAT entirely full!''))"
  by pat_completeness auto
termination
  by (relation "measure (\<lambda>(di, n, i, s). unat (fd_fat_sector_count di) - unat i)") (auto intro: word_loop_measure)

definition fat_alloc_sector :: "fat_drive_info_t \<Rightarrow> u32 \<Rightarrow> fat_state \<Rightarrow> (u32 \<times> fat_state) res" where
  "fat_alloc_sector di next_idx s = fat_alloc_loop di next_idx 0 s"

declare fat_find_free.simps [simp del] fat_alloc_loop.simps [simp del]

subsection \<open>Formatting\<close>

function fat_format_tables :: "u32 \<Rightarrow> fat_state \<Rightarrow> fat_state res" where
  "fat_format_tables i s =
     (if i < fd_fat_sector_count (fat_info s)
      then let sector_idx = fd_fat_head_sector (fat_info s) + i;
             fat_data = concat (replicate (unat (fd_fat_entries_per_sector (fat_info s)))
               (fat_entry_bytes \<lparr>fe_allocated = False, fe_reserved = 0, fe_next = FAT_SECTOR_TYPE_EOF\<rparr>)) in
        ebind (ata_write_sector sector_idx fat_data s) (\<lambda>s. fat_format_tables (i + 1) s)
      else Inr s)"
  by pat_completeness auto
termination
  by (relation "measure (\<lambda>(i, s). unat (fd_fat_sector_count (fat_info s)) - unat i)")
    (auto simp: ata_write_sector_def ebind_eq_Inr intro: word_loop_measure)

declare fat_format_tables.simps [simp del]

text \<open>The drive information, which formatting and parsing the disk both compute.\<close>

definition fat_set_drive_info :: "fat_state \<Rightarrow> fat_state" where
  "fat_set_drive_info s =
     (let sector_size = 512; disk_size = 64 * 1024 * 1024;
          per_sector = sector_size div 4;
          bytes_tracked_per_fat_sector = sector_size * per_sector;
          fat_sector_count = disk_size div bytes_tracked_per_fat_sector;
          fat_head_sector = 1; fat_sector_slide = fat_head_sector + fat_sector_count in
      s\<lparr>fat_info := \<lparr>fd_sector_size = sector_size, fd_disk_size_in_bytes = disk_size, fd_fat_sector_count = fat_sector_count,
        fd_fat_head_sector = fat_head_sector, fd_root_directory_head_sector = fat_sector_slide,
        fd_fat_sector_slide = fat_sector_slide, fd_sectors_on_disk = disk_size div sector_size,
        fd_fat_entries_per_sector = per_sector\<rparr>\<rparr>)"

definition fat_format_drive :: "fat_state \<Rightarrow> fat_state res" where
  "fat_format_drive s =
     (let s = fat_set_drive_info s; di = fat_info s in
      ebind (ata_write_sector 0 (replicate (unat (fd_sector_size di)) (byte_of CHR ''A'')) s) (\<lambda>s.
      ebind (fat_format_tables 0 s) (\<lambda>s.
      ebind (ata_write_sector (fd_root_directory_head_sector di) (replicate (unat (fd_sector_size di)) 0) s) (\<lambda>s.
      ebind (set_fat_entry (ata_read_sector (fd_fat_head_sector di) s) 0 True FAT_SECTOR_TYPE_EOF) (\<lambda>data.
      ata_write_sector (fd_fat_head_sector di) data s)))))"

text \<open>The cache \<^verbatim>\<open>fat_parse_from_disk\<close> creates: one invalid entry per table sector.\<close>

function fat_cache_fill :: "u32 \<Rightarrow> u32 \<Rightarrow> fat_cached_sector_t array_t \<Rightarrow> fat_cached_sector_t array_t res" where
  "fat_cache_fill count i c =
     (if i < count
      then ebind (array_insert c \<lparr>cs_valid = False, cs_data = replicate 512 0\<rparr>) (\<lambda>c. fat_cache_fill count (i + 1) c)
      else Inr c)"
  by pat_completeness auto
termination
  by (relation "measure (\<lambda>(n, i, c). unat n - unat i)") (auto intro: word_loop_measure)

declare fat_cache_fill.simps [simp del]

definition fat_cache_create :: "fat_state \<Rightarrow> fat_state res" where
  "fat_cache_create s =
     (let count = fd_fat_sector_count (fat_info s) in
      ebind (fat_cache_fill count 0 (array_create (sint count))) (\<lambda>c. Inr (s\<lparr>fat_cache := Some c\<rparr>)))"

subsection \<open>Creating files and directories\<close>

text \<open>
  The loop that allocates and writes the sectors of a file from its last to its first. \<open>file_ptr\<close> is the
  offset in the file's data, which runs below zero after the last iteration without being read.
\<close>

function fat_write_sectors :: "fat_drive_info_t \<Rightarrow> bool \<Rightarrow> u8 list \<Rightarrow> u32 \<Rightarrow> u32 \<Rightarrow> u32 \<Rightarrow> u32 \<Rightarrow> int \<Rightarrow> fat_state \<Rightarrow>
    (u32 \<times> fat_state) res" where
  "fat_write_sectors di is_directory file_data needed j next_idx n file_ptr s =
     (if j < needed
      then ebind (fat_alloc_sector (fat_info s) next_idx s) (\<lambda>(entry_idx, s).
        if is_directory then fat_write_sectors di is_directory file_data needed (j + 1) entry_idx n file_ptr s
        else if file_ptr < 0 then Inl OutOfBounds
        else ebind (field file_data (nat file_ptr) (unat n)) (\<lambda>d.
          ebind (put_field (replicate (unat (fd_sector_size di)) 0) 0 d) (\<lambda>sector.
          ebind (ata_write_sector (entry_idx + fd_fat_sector_slide di) sector s) (\<lambda>s.
          fat_write_sectors di is_directory file_data needed (j + 1) entry_idx (fd_sector_size di)
            (file_ptr - uint (fd_sector_size di)) s))))
      else Inr (next_idx, s))"
  by pat_completeness auto
termination
  by (relation "measure (\<lambda>(di, b, d, needed, j, x). unat needed - unat j)") (auto intro: word_loop_measure)

declare fat_write_sectors.simps [simp del]

function fat_find_slot :: "u8 list \<Rightarrow> u32 \<Rightarrow> u32 \<Rightarrow> u32 option res" where
  "fat_find_slot b slot_count i =
     (if i < slot_count
      then ebind (get_slot b i) (\<lambda>e. if de_first e = FAT_SECTOR_TYPE_EOF then Inr (Some i) else fat_find_slot b slot_count (i + 1))
      else Inr None)"
  by pat_completeness auto
termination
  by (relation "measure (\<lambda>(b, n, i). unat n - unat i)") (auto intro: word_loop_measure)

declare fat_find_slot.simps [simp del]

definition fat_create_dir_or_file ::
    "fat_drive_info_t \<Rightarrow> u32 \<Rightarrow> bool \<Rightarrow> string \<Rightarrow> string \<Rightarrow> u32 \<Rightarrow> u8 list \<Rightarrow> fat_state \<Rightarrow> (u32 \<times> fat_state) res" where
  "fat_create_dir_or_file di dir_idx is_directory filename ext file_len file_data s =
     (let dir_sector = dir_idx + fd_fat_sector_slide di;
          slots = ata_read_sector dir_sector s in
      ebind (fat_find_slot slots (fd_sector_size di div 32) 0) (\<lambda>r. case r of
        None \<Rightarrow> Inl (TaskAssert ''Failed to find free space in directory to create new file!'')
      | Some i \<Rightarrow>
         (let file_len = (if is_directory then fd_sector_size di else file_len);
              partial = file_len mod fd_sector_size di \<noteq> 0;
              needed = file_len div fd_sector_size di + (if partial then 1 else 0);
              n = (if partial then file_len mod fd_sector_size di else fd_sector_size di) in
          ebind (set_slot_header slots i is_directory filename ext file_len) (\<lambda>slots.
          ebind (fat_write_sectors di is_directory file_data needed 0 FAT_SECTOR_TYPE_EOF n (uint file_len - uint n) s) (\<lambda>(first, s).
          ebind (set_slot_first slots i (ucast first)) (\<lambda>slots.
          ebind (ata_write_sector dir_sector slots s) (\<lambda>s. Inr (ucast (ucast first :: u16), s))))))))"

subsection \<open>Reading files\<close>

definition fat_next :: "u8 list \<Rightarrow> fat_drive_info_t \<Rightarrow> u32 \<Rightarrow> u32 res" where
  "fat_next table di idx = ebind (get_fat_entry table (idx mod fd_fat_entries_per_sector di)) (\<lambda>e. Inr (ucast (fe_next e)))"

text \<open>
  The loops of the two readers end when the chain of entries does; \<open>None\<close> is a read that never ends.
\<close>

partial_function (option) fat_read_loop :: "u32 \<Rightarrow> u32 \<Rightarrow> u32 \<Rightarrow> u8 list \<Rightarrow> fat_state \<Rightarrow> u8 list res option" where
  "fat_read_loop file_size idx off out s =
     (let di = fat_info s;
          table = ata_read_sector (fd_fat_head_sector di + idx div fd_fat_entries_per_sector di) s;
          n = min (fd_sector_size di) (file_size - off);
          r = ebind (fat_next table di idx) (\<lambda>next_idx.
              ebind (field (ata_read_sector (fd_fat_sector_slide di + idx) s) 0 (unat n)) (\<lambda>d.
              ebind (put_field out (unat off) d) (\<lambda>out. Inr (next_idx, out)))) in
      case r of
        Inl e \<Rightarrow> Some (Inl e)
      | Inr (next_idx, out) \<Rightarrow>
          if next_idx = FAT_SECTOR_TYPE_EOF then Some (Inr out) else fat_read_loop file_size next_idx (off + n) out s)"

text \<open>\<open>out_file_size\<close> is what the caller's variable holds before the call; the function does not write it.\<close>

definition fat_read_file :: "fat_node \<Rightarrow> u32 \<Rightarrow> fat_state \<Rightarrow> (u8 list \<times> u32) res option" where
  "fat_read_file node out_file_size s =
     map_option (\<lambda>r. ebind r (\<lambda>d. Inr (d, out_file_size)))
       (fat_read_loop (fn_size node) (fn_first node) 0 (replicate (unat (fn_size node)) 0) s)"

text \<open>The link after an entry, through the cache.\<close>

definition fat_follow :: "u32 \<Rightarrow> fat_state \<Rightarrow> (u32 \<times> fat_state) res" where
  "fat_follow idx s =
     ebind (fat_read_table_sector (idx div fd_fat_entries_per_sector (fat_info s)) s) (\<lambda>(table, s).
     ebind (fat_next table (fat_info s) idx) (\<lambda>next_idx. Inr (next_idx, s)))"

function fat_seek :: "u32 \<Rightarrow> u32 \<Rightarrow> u32 \<Rightarrow> fat_state \<Rightarrow> (u32 option \<times> fat_state) res" where
  "fat_seek target link idx s =
     (if link = target then Inr (Some idx, s)
      else ebind (fat_follow idx s) (\<lambda>(next_idx, s).
        if next_idx = FAT_SECTOR_TYPE_EOF then Inr (None, s) else fat_seek target (link + 1) next_idx s))"
  by pat_completeness auto
termination
  by (relation "measure (\<lambda>(target, link, idx, s). unat (target - link))")
    (auto simp: word_seek_measure)

declare fat_seek.simps [simp del]

partial_function (option) fat_partial_loop :: "u32 \<Rightarrow> u32 \<Rightarrow> u32 \<Rightarrow> u32 \<Rightarrow> u8 list \<Rightarrow> fat_state \<Rightarrow>
    (u8 list \<times> u32 \<times> fat_state) res option" where
  "fat_partial_loop idx start got remaining out s =
     (let di = fat_info s;
          n = min (fd_sector_size di - start) remaining;
          r = ebind (field (ata_read_sector (fd_fat_sector_slide di + idx) s) (unat start) (unat n)) (\<lambda>d.
              put_field out (unat got) d);
          got = got + n; remaining = remaining - n in
      case r of
        Inl e \<Rightarrow> Some (Inl e)
      | Inr out \<Rightarrow>
          if remaining = 0 then Some (Inr (out, got, s))
          else (case fat_follow idx s of
            Inl e \<Rightarrow> Some (Inl e)
          | Inr (next_idx, s) \<Rightarrow>
              if next_idx = FAT_SECTOR_TYPE_EOF then Some (Inr (out, got, s)) else fat_partial_loop next_idx 0 got remaining out s))"

text \<open>The data is \<open>None\<close> for the NULL that is returned when the offset lies beyond the end of the chain.\<close>

definition fat_read_file_partial :: "fat_node \<Rightarrow> u32 \<Rightarrow> u32 \<Rightarrow> fat_state \<Rightarrow> (u8 list option \<times> u32 \<times> fat_state) res option" where
  "fat_read_file_partial node offset len s =
     (let sector_size = fd_sector_size (fat_info s) in
      case fat_seek (offset div sector_size) 0 (fn_first node) s of
        Inl e \<Rightarrow> Some (Inl e)
      | Inr (None, s) \<Rightarrow> Some (Inr (None, 0, s))
      | Inr (Some idx, s) \<Rightarrow>
         (let start = offset mod sector_size;
              remaining = min (fn_size node - start) len in
          if remaining mod sector_size \<noteq> 0 then Some (Inl (TaskAssert ''not implemented''))
          else map_option (\<lambda>r. ebind r (\<lambda>(out, got, s). Inr (Some out, got, s)))
            (fat_partial_loop idx start 0 remaining (replicate (unat remaining) 0) s)))"

section \<open>Sectors as tables\<close>

lemma put_field_nth:
  assumes "put_field b off f = Inr b'"
  shows "length b' = length b" and "k < length b \<Longrightarrow> b' ! k = (if off \<le> k \<and> k < off + length f then f ! (k - off) else b ! k)"
  using assms by (auto simp: put_field_def nth_append min_def split: if_splits)

lemma put_field_ok: "off + length f \<le> length b \<Longrightarrow> \<exists>b'. put_field b off f = Inr b'"
  by (simp add: put_field_def)

lemma put_field_all: "length f = length b \<Longrightarrow> put_field b 0 f = Inr f"
  by (simp add: put_field_def)

lemma field_all: "length b = n \<Longrightarrow> field b 0 n = Inr b"
  by (simp add: field_def)

definition le16 :: "u8 list \<Rightarrow> nat \<Rightarrow> u16" where
  "le16 b k = of_nat (unat (b ! k) + 256 * unat (b ! Suc k))"

lemma field_Suc: "off + Suc n \<le> length b \<Longrightarrow> field b off (Suc n) = Inr (b ! off # take n (drop (Suc off) b))"
  by (simp add: field_def Cons_nth_drop_Suc [symmetric])

lemma byte_field: "off < length b \<Longrightarrow> get_le 1 b off = Inr (b ! off)"
  using field_Suc [of off 0 b] by (simp add: get_le_def)

lemma word_field: "Suc off < length b \<Longrightarrow> get_le 2 b off = Inr (le16 b off)"
  using field_Suc [of off 1 b] by (simp add: get_le_def le16_def numeral_2_eq_2 take_Suc hd_drop_conv_nth tl_drop)

lemma put_le_2: "put_le 2 (n :: u16) = [of_nat (unat n), of_nat (unat n div 256)]"
  by (simp add: put_le_def numeral_2_eq_2)

lemma le16_digits: "of_nat (unat (of_nat (unat n) :: u8) + 256 * unat (of_nat (unat n div 256) :: u8)) = n" for n :: u16
proof -
  have "unat n div 256 < 256" using unsigned_less [of n] by (simp add: div_less_iff_less_mult) 
  then have "unat (of_nat (unat n) :: u8) = unat n mod 256" "unat (of_nat (unat n div 256) :: u8) = unat n div 256"
    by (simp_all only: unat_of_nat) simp_all
  then show ?thesis by (simp only: mod_mult_div_eq) simp
qed

definition entry_at :: "u8 list \<Rightarrow> nat \<Rightarrow> fat_entry_t" where
  "entry_at b j = \<lparr>fe_allocated = (b ! (4 * j) \<noteq> 0), fe_reserved = b ! (4 * j + 1), fe_next = le16 b (4 * j + 2)\<rparr>"

lemma get_fat_entry_at: "4 * unat j + 3 < length b \<Longrightarrow> get_fat_entry b j = Inr (entry_at b (unat j))"
  by (simp add: get_fat_entry_def byte_field word_field entry_at_def del: One_nat_def)

lemma set_fat_entry_ok:
  assumes "4 * unat j + 3 < length b"
  shows "\<exists>b'. set_fat_entry b j a n = Inr b' \<and> length b' = length b
    \<and> (\<forall>i. 4 * i + 3 < length b \<longrightarrow> entry_at b' i =
         (if i = unat j then (entry_at b i)\<lparr>fe_allocated := a, fe_next := n\<rparr> else entry_at b i))"
proof -
  obtain b1 where b1: "put_field b (4 * unat j) [if a then 1 else 0] = Inr b1"
    using put_field_ok [of "4 * unat j" "[if a then 1 else 0]" b] assms by auto
  obtain b2 where b2: "put_field b1 (4 * unat j + 2) (put_le 2 n) = Inr b2"
    using put_field_ok [of "4 * unat j + 2" "put_le 2 n" b1] assms put_field_nth(1) [OF b1] by auto
  note n1 = put_field_nth [OF b1]
  note n2 = put_field_nth [OF b2, unfolded n1(1) length_put]
  have "entry_at b2 i = (if i = unat j then (entry_at b i)\<lparr>fe_allocated := a, fe_next := n\<rparr> else entry_at b i)"
    if i: "4 * i + 3 < length b" for i
  proof -
    have dis: "4 * i + 4 \<le> 4 * unat j \<or> i = unat j \<or> 4 * unat j + 4 \<le> 4 * i" by linarith
    have byte: "b2 ! (4 * i) = (if i = unat j then (if a then 1 else 0) else b ! (4 * i))"
      "b2 ! (4 * i + 1) = b ! (4 * i + 1)"
      "b2 ! (4 * i + 2) = (if i = unat j then of_nat (unat n) else b ! (4 * i + 2))"
      "b2 ! (4 * i + 3) = (if i = unat j then of_nat (unat n div 256) else b ! (4 * i + 3))"
      using i dis by (elim disjE; simp add: n1(2) n2(2) put_le_2)+
    have "Suc (4 * i + 2) = 4 * i + 3" by simp
    then have "le16 b2 (4 * i + 2) = (if i = unat j then n else le16 b (4 * i + 2))"
      unfolding le16_def byte(3,4) using byte(3,4) le16_digits [of n] by (cases "i = unat j") (simp_all only: simp_thms if_True if_False)
    then show ?thesis using byte(1,2) by (simp add: entry_at_def)
  qed
  then show ?thesis using b1 b2 n1(1) n2(1) by (simp add: set_fat_entry_def)
qed

section \<open>The file system as a table of entries and data sectors\<close>

definition fat_geometry :: fat_drive_info_t where
  "fat_geometry = \<lparr>fd_sector_size = 512, fd_disk_size_in_bytes = 67108864, fd_fat_sector_count = 1024, fd_fat_head_sector = 1,
     fd_root_directory_head_sector = 1025, fd_fat_sector_slide = 1025, fd_sectors_on_disk = 131072, fd_fat_entries_per_sector = 128\<rparr>"

lemma fat_set_drive_info_geometry [simp]: "fat_set_drive_info s = s\<lparr>fat_info := fat_geometry\<rparr>"
  by (simp add: fat_set_drive_info_def fat_geometry_def)

lemma fat_geometry_simps [simp]:
  "fd_sector_size fat_geometry = 512" "fd_fat_sector_count fat_geometry = 1024" "fd_fat_head_sector fat_geometry = 1"
  "fd_root_directory_head_sector fat_geometry = 1025" "fd_fat_sector_slide fat_geometry = 1025"
  "fd_fat_entries_per_sector fat_geometry = 128"
  by (simp_all add: fat_geometry_def)

text \<open>The sector of the table and of the data area with an index, and the contents of the two areas.\<close>

definition table_sector :: "nat \<Rightarrow> u32" where "table_sector i = 1 + of_nat i"
definition data_sector :: "nat \<Rightarrow> u32" where "data_sector k = 1025 + of_nat k"

definition fent :: "fat_state \<Rightarrow> nat \<Rightarrow> fat_entry_t" where
  "fent s k = entry_at (fat_disk s (table_sector (k div 128))) (k mod 128)"

definition fdat :: "fat_state \<Rightarrow> nat \<Rightarrow> u8 list" where
  "fdat s k = fat_disk s (data_sector k)"

abbreviation fat_allocated :: "fat_state \<Rightarrow> nat \<Rightarrow> bool" where
  "fat_allocated s k \<equiv> fe_allocated (fent s k)"

lemma unat_sectors:
  "i < 1024 \<Longrightarrow> unat (table_sector i) = i + 1" "k < 131072 \<Longrightarrow> unat (data_sector k) = k + 1025"
  by (simp_all add: table_sector_def data_sector_def unat_word_ariths unat_of_nat)

lemma sectors_distinct:
  "i < 1024 \<Longrightarrow> j < 1024 \<Longrightarrow> table_sector i = table_sector j \<longleftrightarrow> i = j"
  "k < 131072 \<Longrightarrow> l < 131072 \<Longrightarrow> data_sector k = data_sector l \<longleftrightarrow> k = l"
  "i < 1024 \<Longrightarrow> k < 131072 \<Longrightarrow> table_sector i \<noteq> data_sector k"
  "i < 1024 \<Longrightarrow> k < 131072 \<Longrightarrow> data_sector k \<noteq> table_sector i"
  using unat_sectors by (force simp: word_unat_eq_iff)+

text \<open>
  The cache holds one entry per sector of the table, and those of \<open>J\<close> that are valid equal the sector
  on the disk.
\<close>

definition cache_coherent :: "nat set \<Rightarrow> fat_state \<Rightarrow> bool" where
  "cache_coherent J s \<longleftrightarrow> (\<exists>c. fat_cache s = Some c \<and> at_ok c \<and> length (at_list c) = 1024
     \<and> (\<forall>i < 1024. length (cs_data (at_list c ! i)) = 512
          \<and> (i \<in> J \<longrightarrow> cs_valid (at_list c ! i) \<longrightarrow> cs_data (at_list c ! i) = fat_disk s (table_sector i))))"

text \<open>
  A mounted file system: the geometry the code computes, whole sectors, a coherent cache, the root
  directory's entry taken, and no free entry in a table sector before the one allocation starts at.
\<close>

definition fat_wf :: "fat_state \<Rightarrow> bool" where
  "fat_wf s \<longleftrightarrow> fat_info s = fat_geometry \<and> (\<forall>x. length (fat_disk s x) = 512) \<and> cache_coherent UNIV s
     \<and> fat_allocated s 0 \<and> (\<forall>k < 131072. k div 128 + 1 < unat (fat_last_sector s) \<longrightarrow> fat_allocated s k)"

lemma array_set_at:
  assumes "at_ok c" and "i < length (at_list c)"
  shows "\<exists>c'. array_set c (int i) x = Inr c' \<and> at_ok c' \<and> at_list c' = (at_list c)[i := x] \<and> at_size c' = at_size c"
proof -
  have n: "at_size c = int (length (at_list c))" by (rule at_ok_size [OF assms(1)])
  have wf: "at_size c \<le> at_max_size c" "length (at_array c) = nat (at_max_size c)" "None \<notin> set (take (nat (at_size c)) (at_array c))"
    using assms(1) by (auto simp: at_ok_def slots_wf_def)
  let ?c = "c\<lparr>at_array := (at_array c)[i := Some x]\<rparr>"
  have "array_set c (int i) x = Inr ?c"
    using assms(2) n wf(1,2) by (simp add: array_set_def buf_write_def)
  moreover have "None \<notin> set (take (nat (at_size c)) ((at_array c)[i := Some x]))"
    using wf(3) set_update_subset_insert [of "take (nat (at_size c)) (at_array c)" i "Some x"] by (auto simp: take_update_swap)
  then have "at_ok ?c" using assms(1) by (simp add: at_ok_def slots_wf_def)
  moreover have "at_list ?c = (at_list c)[i := x]"
    by (simp add: at_list_def slots_list_def map_update take_update_swap)
  ultimately show ?thesis by (intro exI [of _ ?c]) simp
qed

lemma sint_small: "i < 1024 \<Longrightarrow> sint (of_nat i :: u32) = int i"
  by (simp add: sint_uint signed_take_bit_int_eq_self_iff unsigned_of_nat take_bit_nat_eq_self)

lemma cache_set_ok:
  assumes "cache_coherent J s" and "i < 1024" and "length (cs_data e) = 512"
    and "i \<in> K \<longrightarrow> cs_valid e \<longrightarrow> cs_data e = fat_disk s (table_sector i)" and "K \<subseteq> insert i J"
  shows "\<exists>c. cache_set (of_nat i) e s = Inr (s\<lparr>fat_cache := Some c\<rparr>) \<and> cache_coherent K (s\<lparr>fat_cache := Some c\<rparr>)"
proof -
  obtain c where c: "fat_cache s = Some c" "at_ok c" "length (at_list c) = 1024"
    "\<And>i. i < 1024 \<Longrightarrow> length (cs_data (at_list c ! i)) = 512
          \<and> (i \<in> J \<longrightarrow> cs_valid (at_list c ! i) \<longrightarrow> cs_data (at_list c ! i) = fat_disk s (table_sector i))"
    using assms(1) by (auto simp: cache_coherent_def)
  obtain c' where c': "array_set c (int i) e = Inr c'" "at_ok c'" "at_list c' = (at_list c)[i := e]"
    using array_set_at [OF c(2), of i e] c(3) assms(2) by auto
  show ?thesis
    using c c' assms(2-5)
    by (intro exI [of _ c']) (auto simp: cache_set_def sint_small cache_coherent_def nth_list_update)
qed

lemma cache_at_ok:
  assumes "cache_coherent J s" and "i < 1024"
  shows "\<exists>e. cache_at (of_nat i) s = Inr e \<and> length (cs_data e) = 512
    \<and> (i \<in> J \<longrightarrow> cs_valid e \<longrightarrow> cs_data e = fat_disk s (table_sector i))"
  using assms by (auto simp: cache_coherent_def cache_at_def sint_small array_lookup_as)

section \<open>Allocation takes the lowest free entry\<close>

lemma find_free_from:
  assumes "length b = 512" and "unat j \<le> 128" and "\<forall>i < unat j. fe_allocated (entry_at b i)"
  shows "\<exists>r. fat_find_free fat_geometry b j = Inr r \<and> (case r of None \<Rightarrow> \<forall>i < 128. fe_allocated (entry_at b i)
    | Some j' \<Rightarrow> unat j' < 128 \<and> \<not> fe_allocated (entry_at b (unat j')) \<and> (\<forall>i < unat j'. fe_allocated (entry_at b i)))"
  using assms(2,3)
proof (induction "128 - unat j" arbitrary: j rule: less_induct)
  case less
  show ?case
  proof (cases "j < 128")
    case False
    then have "unat j = 128" using less.prems(1) by (simp add: word_less_nat_alt)
    then show ?thesis using False less.prems by (simp add: fat_find_free.simps [of _ _ j])
  next
    case True
    then have j: "unat j < 128" by (simp add: word_less_nat_alt)
    have get: "get_fat_entry b j = Inr (entry_at b (unat j))" using j assms(1) by (intro get_fat_entry_at) simp
    have suc: "unat (j + 1) = Suc (unat j)" by (rule unat_Suc_less [OF True])
    show ?thesis
    proof (cases "fe_allocated (entry_at b (unat j))")
      case False
      then show ?thesis using True get j less.prems by (simp add: fat_find_free.simps [of _ _ j])
    next
      case alloc: True
      have "\<forall>i < unat (j + 1). fe_allocated (entry_at b i)" using alloc less.prems(2) suc by (auto simp: less_Suc_eq)
      then show ?thesis using less.hyps [of "j + 1"] suc j True get alloc by (simp add: fat_find_free.simps [of _ _ j])
    qed
  qed
qed

lemmas find_free_ok = find_free_from [where j = 0, simplified]

lemma ata_write_ok: "length d = 512 \<Longrightarrow> ata_write_sector x d s = Inr (s\<lparr>fat_disk := (fat_disk s)(x := d)\<rparr>)"
  by (simp add: ata_write_sector_def field_all)

lemma invalidate_ok:
  assumes "cache_coherent (- {i}) s" and "i < 1024"
  shows "\<exists>c. fat_cache_invalidate_table_sector (of_nat i) s = Inr (s\<lparr>fat_cache := Some c\<rparr>)
    \<and> cache_coherent UNIV (s\<lparr>fat_cache := Some c\<rparr>)"
proof -
  obtain e where e: "cache_at (of_nat i) s = Inr e" "length (cs_data e) = 512"
    using cache_at_ok [OF assms] by blast
  show ?thesis
  proof (cases "cs_valid e")
    case True
    have d: "length (cs_data (e\<lparr>cs_valid := False\<rparr>)) = 512" using e(2) by simp
    show ?thesis
      using cache_set_ok [OF assms d, of UNIV] True e(1) by (auto simp: fat_cache_invalidate_table_sector_def)
  next
    case False
    obtain c where c: "fat_cache s = Some c" "cs_valid (at_list c ! i) = False"
      using assms e(1) False by (auto simp: cache_coherent_def cache_at_def sint_small array_lookup_as)
    then have "cache_coherent UNIV s" using assms(1) by (auto simp: cache_coherent_def)
    moreover have "s\<lparr>fat_cache := Some c\<rparr> = s" using c(1) by simp
    ultimately show ?thesis using False e(1) by (intro exI [of _ c]) (simp add: fat_cache_invalidate_table_sector_def)
  qed
qed

text \<open>What an allocation of entry \<open>k\<close> with link \<open>n\<close> does: the entry is taken, its data sector is cleared.\<close>

definition allocates :: "nat \<Rightarrow> u16 \<Rightarrow> fat_state \<Rightarrow> fat_state \<Rightarrow> bool" where
  "allocates k n s s' \<longleftrightarrow> fat_wf s'
     \<and> (\<forall>l < 131072. fent s' l = (if l = k then (fent s l)\<lparr>fe_allocated := True, fe_next := n\<rparr> else fent s l))
     \<and> (\<forall>l < 131072. fdat s' l = (if l = k then replicate 512 0 else fdat s l))"

lemma allocates_disk:
  assumes "fat_wf s" and "k < 131072" and "\<forall>l < k. fat_allocated s l"
    and "set_fat_entry (fat_disk s (table_sector (k div 128))) (of_nat (k mod 128)) True n = Inr b"
    and "fat_disk s' = (fat_disk s)(data_sector k := replicate 512 0, table_sector (k div 128) := b)"
    and "fat_info s' = fat_geometry" and "fat_last_sector s' = table_sector (k div 128)" and "cache_coherent UNIV s'"
  shows "allocates k n s s'"
proof -
  let ?i = "k div 128" and ?j = "k mod 128"
  have i: "?i < 1024" using assms(2) by simp
  have j: "unat (of_nat ?j :: u32) = ?j" by (simp add: unat_of_nat)
  have len: "\<And>x. length (fat_disk s x) = 512" using assms(1) by (simp add: fat_wf_def)
  have b: "length b = 512" "\<And>m. m < 128 \<Longrightarrow> entry_at b m = (if m = ?j then (entry_at (fat_disk s (table_sector ?i)) m)\<lparr>fe_allocated := True, fe_next := n\<rparr>
      else entry_at (fat_disk s (table_sector ?i)) m)"
    using set_fat_entry_ok [of "of_nat ?j" "fat_disk s (table_sector ?i)" True n] assms(4) len j by auto
  have ent: "fent s' l = (if l = k then (fent s l)\<lparr>fe_allocated := True, fe_next := n\<rparr> else fent s l)" if "l < 131072" for l
  proof -
    have "l = k \<longleftrightarrow> l div 128 = ?i \<and> l mod 128 = ?j" by (metis div_mult_mod_eq)
    then show ?thesis using that i assms(2) b(2) [of "l mod 128"] by (auto simp: fent_def assms(5) sectors_distinct)
  qed
  moreover have "fdat s' l = (if l = k then replicate 512 0 else fdat s l)" if "l < 131072" for l
    using that i assms(2) by (simp add: fdat_def assms(5) sectors_distinct)
  moreover have "fat_wf s'"
    using assms(1,3,6-8) ent len b(1) i unat_sectors(1) [OF i]
    by (auto simp: fat_wf_def assms(5) ent div_less_iff_less_mult dest: div_le_mono)
  ultimately show ?thesis by (simp add: allocates_def)
qed

text \<open>One iteration that finds the free entry \<open>j\<close> in table sector \<open>i\<close>.\<close>

lemma alloc_found:
  assumes "fat_wf s" and "k < 131072" and "\<forall>l < k. fat_allocated s l" and "k div 128 = i" and "k mod 128 = unat j"
  shows "\<exists>b d s'. set_fat_entry (fat_disk s (table_sector i)) j True n = Inr b \<and> length b = 512
    \<and> d = (fat_disk s)(data_sector k := replicate 512 0, table_sector i := b)
    \<and> fat_cache_invalidate_table_sector (of_nat i) (s\<lparr>fat_last_sector := table_sector i, fat_disk := d\<rparr>) = Inr s'
    \<and> allocates k n s s'"
proof -
  have i: "i < 1024" using assms(2,4) by auto
  have len: "\<And>x. length (fat_disk s x) = 512" using assms(1) by (simp add: fat_wf_def)
  have "unat j < 128" using assms(5) by (metis mod_less_divisor zero_less_numeral)
  then obtain b where b: "set_fat_entry (fat_disk s (table_sector i)) j True n = Inr b" "length b = 512"
    using set_fat_entry_ok [of j "fat_disk s (table_sector i)" True n] len by auto
  define d where "d = (fat_disk s)(data_sector k := replicate 512 0, table_sector i := b)"
  let ?s = "s\<lparr>fat_last_sector := table_sector i, fat_disk := d\<rparr>"
  have "d (table_sector l) = fat_disk s (table_sector l)" if "l < 1024" "l \<noteq> i" for l
    using that i assms(2) by (simp add: d_def sectors_distinct)
  then have "cache_coherent (- {i}) ?s"
    using assms(1) by (auto simp: fat_wf_def cache_coherent_def)
  then obtain c where c: "fat_cache_invalidate_table_sector (of_nat i) ?s = Inr (?s\<lparr>fat_cache := Some c\<rparr>)"
    "cache_coherent UNIV (?s\<lparr>fat_cache := Some c\<rparr>)"
    using invalidate_ok [of i ?s] i by blast
  have "of_nat (k mod 128) = j" using assms(5) by simp
  then have "allocates k n s (?s\<lparr>fat_cache := Some c\<rparr>)"
    using assms(1-4) b(1) c(2) by (intro allocates_disk [of s k n b]) (simp_all add: d_def fat_wf_def)
  then show ?thesis using b c d_def by blast
qed

lemma alloc_loop_ok:
  assumes "fat_wf s" and "k < 131072" and "\<not> fat_allocated s k" and "\<forall>l < k. fat_allocated s l" and "unat i \<le> k div 128"
  shows "\<exists>s'. fat_alloc_loop fat_geometry n i s = Inr (of_nat k, s') \<and> allocates k (ucast n) s s'"
  using assms(5)
proof (induction "k div 128 - unat i" arbitrary: i rule: less_induct)
  case less
  have i: "unat i < 1024" using less.prems assms(2) by linarith
  then have lt: "i < 1024" by (simp add: word_less_nat_alt)
  have ti: "1 + i = table_sector (unat i)" by (simp add: table_sector_def)
  have next_sector: ?case if next_eq: "fat_alloc_loop fat_geometry n i s = fat_alloc_loop fat_geometry n (i + 1) s"
    and ne: "unat i \<noteq> k div 128"
    using less.hyps [of "i + 1"] less.prems that unat_Suc_less [OF lt] by (simp add: next_eq)
  have len: "length (fat_disk s (1 + i)) = 512" using assms(1) by (simp add: fat_wf_def)
  obtain r where r: "fat_find_free fat_geometry (fat_disk s (1 + i)) 0 = Inr r"
    "case r of None \<Rightarrow> \<forall>m < 128. fe_allocated (entry_at (fat_disk s (1 + i)) m)
     | Some j \<Rightarrow> unat j < 128 \<and> \<not> fe_allocated (entry_at (fat_disk s (1 + i)) (unat j))
         \<and> (\<forall>m < unat j. fe_allocated (entry_at (fat_disk s (1 + i)) m))"
    using find_free_ok [OF len] by blast
  have ent: "fent s (128 * unat i + m) = entry_at (fat_disk s (1 + i)) m" if "m < 128" for m
    using that by (simp add: fent_def ti)
  have kent: "unat i = k div 128 \<Longrightarrow> \<not> fe_allocated (entry_at (fat_disk s (1 + i)) (k mod 128))"
    using ent [of "k mod 128"] assms(3) by simp
  show ?case
  proof (cases "1 + i < fat_last_sector s")
    case True
    then have "unat i + 1 < unat (fat_last_sector s)" using unat_sectors(1) [OF i] by (simp add: ti word_less_nat_alt)
    then have "unat i \<noteq> k div 128" using assms(1-3) by (auto simp: fat_wf_def)
    then show ?thesis using next_sector True lt by (simp add: fat_alloc_loop.simps [of _ _ i])
  next
    case False
    show ?thesis
    proof (cases r)
      case None
      then have "unat i \<noteq> k div 128" using r(2) kent by auto
      then show ?thesis
        using next_sector False lt r(1) None by (simp add: fat_alloc_loop.simps [of _ _ i] ata_read_sector_def)
    next
      case (Some j)
      have free: "\<not> fat_allocated s (128 * unat i + unat j)" using r(2) Some ent [of "unat j"] by simp
      have k: "k = 128 * unat i + unat j"
      proof (rule linorder_cases [of k "128 * unat i + unat j"])
        assume lt: "k < 128 * unat i + unat j"
        have "128 * unat i \<le> k" using less.prems by linarith
        then have "k - 128 * unat i < unat j" "128 * unat i + (k - 128 * unat i) = k" using lt by linarith+
        then show ?thesis using r(2) Some ent [of "k - 128 * unat i"] assms(3) by auto
      qed (use assms(4) free in auto)
      then have d: "k div 128 = unat i" "k mod 128 = unat j" using r(2) Some by auto
      have w: "i * 128 + j = of_nat k" "of_nat k + 1025 = data_sector k" using k by (simp_all add: mult.commute data_sector_def)
      obtain b s' where b: "set_fat_entry (fat_disk s (1 + i)) j True (ucast n) = Inr b" "length b = 512"
        and s': "fat_cache_invalidate_table_sector i (s\<lparr>fat_last_sector := 1 + i,
          fat_disk := (fat_disk s)(data_sector k := replicate 512 0, 1 + i := b)\<rparr>) = Inr s'" "allocates k (ucast n) s s'"
        using alloc_found [OF assms(1,2,4) d, of "ucast n"] by (auto simp: ti [symmetric])
      have "fat_alloc_loop fat_geometry n i s = Inr (of_nat k, s')"
        using False lt r(1) Some b s'(1) w
        by (simp add: fat_alloc_loop.simps [of _ _ i] ata_read_sector_def ata_write_ok Let_def)
      then show ?thesis using s'(2) by blast
    qed
  qed
qed

lemma alloc_full_from:
  assumes "fat_wf s" and "\<forall>l < 131072. fat_allocated s l" and "unat i \<le> 1024"
  shows "fat_alloc_loop fat_geometry n i s = Inl (TaskAssert ''FAT entirely full!'')"
  using assms(3)
proof (induction "1024 - unat i" arbitrary: i rule: less_induct)
  case less
  show ?case
  proof (cases "i < 1024")
    case False
    then show ?thesis by (simp add: fat_alloc_loop.simps [of _ _ i])
  next
    case True
    then have i: "unat i < 1024" "unat (i + 1) = Suc (unat i)" using unat_Suc_less [OF True] by (simp_all add: word_less_nat_alt)
    have len: "length (fat_disk s (1 + i)) = 512" using assms(1) by (simp add: fat_wf_def)
    have "fe_allocated (entry_at (fat_disk s (1 + i)) m)" if "m < 128" for m
      using assms(2) [rule_format, of "128 * unat i + m"] i(1) that by (simp add: fent_def table_sector_def)
    then have "fat_find_free fat_geometry (fat_disk s (1 + i)) 0 = Inr None"
      using find_free_ok [OF len] by (fastforce split: option.splits)
    moreover have "fat_alloc_loop fat_geometry n (i + 1) s = Inl (TaskAssert ''FAT entirely full!'')"
      by (rule less.hyps) (use i in simp_all)
    ultimately show ?thesis using True by (simp add: fat_alloc_loop.simps [of _ _ i] ata_read_sector_def Let_def)
  qed
qed

end
