(* ===== verification/Fat_Files.thy ===== *)
theory Fat_Files
  imports Fat
begin

text \<open>
  Files of the FAT file system: a file is a chain of table entries and the concatenation of their data
  sectors. Reading follows the chain, creation extends the file system by a new chain and leaves every
  other file as it was, and the partial reader returns the bytes asked for whatever its cache holds.
  The last section shows where the on-disk format gives out.
\<close>

section \<open>Reading a chain of entries\<close>

fun fat_chain :: "fat_state \<Rightarrow> nat list \<Rightarrow> bool" where
  "fat_chain s [] \<longleftrightarrow> False"
| "fat_chain s [k] \<longleftrightarrow> k < 131072 \<and> fe_next (fent s k) = 0"
| "fat_chain s (k # l # ks) \<longleftrightarrow> k < 131072 \<and> l \<noteq> 0 \<and> unat (fe_next (fent s k)) = l \<and> fat_chain s (l # ks)"

definition fat_bytes :: "fat_state \<Rightarrow> nat list \<Rightarrow> u8 list" where
  "fat_bytes s ks = concat (map (fdat s) ks)"

lemma fat_bytes_simps [simp]:
  "fat_bytes s [] = []" "fat_bytes s (k # ks) = fdat s k @ fat_bytes s ks"
  by (simp_all add: fat_bytes_def)

lemma index_words:
  assumes "k < 131072"
  shows "of_nat k div (128 :: u32) = of_nat (k div 128)" and "unat (of_nat k mod (128 :: u32)) = k mod 128"
  using assms by (simp_all add: word_unat_eq_iff unat_div_distrib unat_mod_distrib unat_of_nat)

lemma fat_next_ok:
  assumes "k < 131072" and "b = fat_disk s (table_sector (k div 128))" and "length b = 512"
  shows "fat_next b fat_geometry (of_nat k) = Inr (ucast (fe_next (fent s k)))"
  using assms index_words(2) [OF assms(1)] by (simp add: fat_next_def get_fat_entry_at fent_def)

lemma unat_link: "unat (ucast n :: u32) = unat n" for n :: u16
proof -
  have "unat n < 2 ^ 32" using unsigned_less [of n] by (rule less_trans) simp
  then show ?thesis by (simp add: unsigned_ucast_eq take_bit_nat_eq_self)
qed

lemma link_words: "(ucast n :: u32) = 0 \<longleftrightarrow> n = 0" "(ucast n :: u32) = of_nat (unat n)" for n :: u16
  using unat_link [of n] by (simp_all add: word_unat_eq_iff unat_of_nat)

text \<open>One iteration of the loop that reads a whole file.\<close>

lemma read_loop_step:
  assumes "fat_wf s" and "k < 131072" and "unat off \<le> unat sz" and "length out = unat sz"
    and "m = min 512 (unat sz - unat off)" and "out' = take (unat off) out @ take m (fdat s k) @ drop (unat off + m) out"
  shows "fat_read_loop sz (of_nat k) off out s =
    (if fe_next (fent s k) = 0 then Some (Inr out')
     else fat_read_loop sz (of_nat (unat (fe_next (fent s k)))) (off + of_nat m) out' s)"
proof -
  have wf: "fat_info s = fat_geometry" "\<And>x. length (fat_disk s x) = 512" using assms(1) by (auto simp: fat_wf_def)
  have "off \<le> sz" using assms(3) by (simp add: word_le_nat_alt)
  then have sub: "unat (sz - off) = unat sz - unat off" by (simp add: unat_sub)
  have n: "min 512 (sz - off) = of_nat m" "unat (min 512 (sz - off)) = m"
    using assms(5) sub by (auto simp: min_def word_unat_eq_iff word_le_nat_alt unat_of_nat)
  have fld: "field (fat_disk s (1025 + of_nat k)) 0 m = Inr (take m (fdat s k))"
    using assms(5) wf(2) by (simp add: field_def fdat_def data_sector_def)
  have "length (take m (fdat s k)) = m" using assms(5) wf(2) by (simp add: fdat_def)
  then have put: "put_field out (unat off) (take m (fdat s k)) = Inr out'"
    using assms(3-6) by (simp add: put_field_def)
  have nxt: "fat_next (fat_disk s (1 + of_nat k div 128)) fat_geometry (of_nat k) = Inr (ucast (fe_next (fent s k)))"
    by (rule fat_next_ok [OF assms(2)]) (use wf(2) index_words(1) [OF assms(2)] in \<open>simp_all add: table_sector_def\<close>)
  have r: "ebind (fat_next (fat_disk s (1 + of_nat k div 128)) fat_geometry (of_nat k)) (\<lambda>next_idx.
      ebind (field (fat_disk s (1025 + of_nat k)) 0 (unat (of_nat m :: u32))) (\<lambda>d.
      ebind (put_field out (unat off) d) (\<lambda>out. Inr (next_idx, out)))) = Inr (ucast (fe_next (fent s k)), out')"
    using nxt n fld put by simp
  show ?thesis
    by (simp only: fat_read_loop.simps [of sz "of_nat k" off out s] ata_read_sector_def wf(1) Let_def fat_geometry_simps r
        sum.case prod.case FAT_SECTOR_TYPE_EOF_def link_words(1) n(1)) (simp only: link_words(2))
qed

lemma take_shift: "length d = m \<Longrightarrow> off \<le> length out \<Longrightarrow> take (off + m) (take off out @ d @ r) = take off out @ d"
  by simp

lemma read_loop_ok:
  assumes "fat_wf s" and "fat_chain s ks" and "unat off \<le> unat sz" and "length out = unat sz"
    and "unat sz \<le> unat off + 512 * length ks"
  shows "fat_read_loop sz (of_nat (hd ks)) off out s = Some (Inr (take (unat off) out @ take (unat sz - unat off) (fat_bytes s ks)))"
  using assms(2-5)
proof (induction ks arbitrary: off out)
  case Nil
  then show ?case by simp
next
  case (Cons k ks)
  define m where "m = min 512 (unat sz - unat off)"
  define out' where "out' = take (unat off) out @ take m (fdat s k) @ drop (unat off + m) out"
  have k: "k < 131072" using Cons.prems(1) by (cases ks) auto
  have len: "length (fdat s k) = 512" using assms(1) by (simp add: fdat_def fat_wf_def)
  note step = read_loop_step [OF assms(1) k Cons.prems(2,3) m_def out'_def]
  show ?case
  proof (cases ks)
    case Nil
    then have "unat sz - unat off \<le> 512" "fe_next (fent s k) = 0" using Cons.prems(1,4) by simp_all
    then show ?thesis using step len Nil Cons.prems(2,3) by (simp add: out'_def m_def)
  next
    case (Cons l ls)
    have nx: "fe_next (fent s k) \<noteq> 0" "unat (fe_next (fent s k)) = l" "fat_chain s ks"
      using Cons.prems(1) Cons by auto
    have "unat off + m \<le> unat sz" using Cons.prems(2) by (simp add: m_def)
    moreover have "unat sz < 2 ^ LENGTH(32)" by (rule unsigned_less)
    ultimately have o: "unat (off + of_nat m) = unat off + m" by (simp add: unat_word_ariths unat_of_nat)
    have lo: "length out' = unat sz" using Cons.prems(2,3) len by (simp add: out'_def m_def)
    have "fat_read_loop sz (of_nat (hd ks)) (off + of_nat m) out' s =
        Some (Inr (take (unat off + m) out' @ take (unat sz - (unat off + m)) (fat_bytes s ks)))"
      using Cons.IH [OF nx(3), of "off + of_nat m" out'] o lo Cons.prems(2,4) by (simp add: m_def)
    moreover have "take (unat off + m) out' = take (unat off) out @ take m (fdat s k)"
      unfolding out'_def by (rule take_shift) (use len Cons.prems(2,3) in \<open>simp_all add: m_def\<close>)
    moreover have "take (unat sz - unat off) (fdat s k @ fat_bytes s ks) =
        take m (fdat s k) @ take (unat sz - (unat off + m)) (fat_bytes s ks)"
      using len by (auto simp: m_def min_def)
    ultimately show ?thesis using step nx Cons by simp
  qed
qed

lemma fat_read_file_ok:
  assumes "fat_wf s" and "fat_chain s ks" and "unat (fn_size node) \<le> 512 * length ks" and "fn_first node = of_nat (hd ks)"
  shows "fat_read_file node out_size s = Some (Inr (take (unat (fn_size node)) (fat_bytes s ks), out_size))"
  using read_loop_ok [OF assms(1,2), of 0 "fn_size node" "replicate (unat (fn_size node)) 0"] assms(3,4)
  by (simp add: fat_read_file_def)

section \<open>Directory slots\<close>

definition part :: "u8 list \<Rightarrow> nat \<Rightarrow> nat \<Rightarrow> u8 list" where
  "part b off n = take n (drop off b)"

lemma part_put_same: "put_field b off f = Inr b' \<Longrightarrow> n = length f \<Longrightarrow> part b' off n = f"
  by (auto simp: put_field_def part_def split: if_splits)

lemma part_put_other:
  assumes "put_field b off f = Inr b'" and "o' + n \<le> off \<or> off + length f \<le> o'" and "o' + n \<le> length b"
  shows "part b' o' n = part b o' n"
proof (rule nth_equalityI)
  show "length (part b' o' n) = length (part b o' n)" using put_field_nth(1) [OF assms(1)] by (simp add: part_def)
  fix k assume "k < length (part b' o' n)"
  then show "part b' o' n ! k = part b o' n ! k"
    using assms(2,3) put_field_nth [OF assms(1)] by (auto simp: part_def)
qed

lemma le_val_put: "LENGTH('a) \<le> 8 * n \<Longrightarrow> of_nat (le_val (put_le n w)) = w" for w :: "'a::len word"
  using get_le_put [where w = w and n = n and xs = "[]" and zs = "[]"] by (simp add: get_le_def field_def)

definition slot_at :: "u8 list \<Rightarrow> nat \<Rightarrow> fat_directory_entry_t" where
  "slot_at b i = \<lparr>de_is_directory = of_nat (le_val (part b (32 * i) 1)) \<noteq> (0 :: u8), de_filename = part b (32 * i + 1) 8,
     de_ext = part b (32 * i + 9) 3, de_first = of_nat (le_val (part b (32 * i + 12) 2)),
     de_size = of_nat (le_val (part b (32 * i + 14) 4))\<rparr>"

lemma get_slot_at: "32 * unat i + 31 < length b \<Longrightarrow> get_slot b i = Inr (slot_at b (unat i))"
  by (simp add: get_slot_def slot_at_def get_le_def field_def part_def)

text \<open>A finished slot holds what was written into it, and the other slots are untouched.\<close>

lemma set_slot_ok:
  assumes "32 * unat i + 31 < length b"
  shows "\<exists>b1. set_slot_header b i is_dir name ext sz = Inr b1 \<and> length b1 = length b
    \<and> (\<exists>b2. set_slot_first b1 i first = Inr b2 \<and> length b2 = length b
      \<and> slot_at b2 (unat i) = \<lparr>de_is_directory = is_dir, de_filename = put_name 8 name,
          de_ext = (if is_dir then de_ext (slot_at b (unat i)) else put_name 3 ext), de_first = first, de_size = sz\<rparr>
      \<and> (\<forall>j. j \<noteq> unat i \<longrightarrow> 32 * j + 31 < length b \<longrightarrow> slot_at b2 j = slot_at b j))"
proof -
  let ?o = "32 * unat i"
  obtain c1 where c1: "put_field b ?o [if is_dir then 1 else 0] = Inr c1" "length c1 = length b"
    using put_field_ok [of ?o "[if is_dir then 1 else 0]" b] put_field_nth(1) assms by auto
  obtain c2 where c2: "put_field c1 (?o + 1) (put_name 8 name) = Inr c2" "length c2 = length b"
    using put_field_ok [of "?o + 1" "put_name 8 name" c1] put_field_nth(1) assms c1(2) by fastforce
  obtain c3 where c3: "(if is_dir then Inr c2 else put_field c2 (?o + 9) (put_name 3 ext)) = Inr c3" "length c3 = length b"
    using put_field_ok [of "?o + 9" "put_name 3 ext" c2] put_field_nth(1) assms c2(2) by (cases is_dir) fastforce+
  obtain c4 where c4: "put_field c3 (?o + 14) (put_le 4 sz) = Inr c4" "length c4 = length b"
    using put_field_ok [of "?o + 14" "put_le 4 sz" c3] put_field_nth(1) assms c3(2) by fastforce
  obtain c5 where c5: "put_field c4 (?o + 12) (put_le 2 first) = Inr c5" "length c5 = length b"
    using put_field_ok [of "?o + 12" "put_le 2 first" c4] put_field_nth(1) assms c4(2) by fastforce
  have other3: "part c3 p n = part c2 p n" if "p + n \<le> ?o + 9 \<or> ?o + 12 \<le> p" "p + n \<le> length b" for p n
    using c3(1) part_put_other [of c2 "?o + 9" "put_name 3 ext" c3 p n] that c2(2) by (cases is_dir) auto
  note other = part_put_other [OF c1(1)] part_put_other [OF c2(1), unfolded c1(2)] other3
    part_put_other [OF c4(1), unfolded c3(2)] part_put_other [OF c5(1), unfolded c4(2)]
  note same = part_put_same [OF c1(1)] part_put_same [OF c2(1)] part_put_same [OF c4(1)] part_put_same [OF c5(1)]
  have rest: "slot_at c5 j = slot_at b j" if "j \<noteq> unat i" "32 * j + 31 < length b" for j
  proof -
    have "32 * j + 32 \<le> ?o \<or> ?o + 32 \<le> 32 * j" using that(1) by linarith
    then have "part c5 (32 * j + p) n = part b (32 * j + p) n" if "p + n \<le> 32" for p n
      using that \<open>32 * j + 31 < length b\<close> by (elim disjE) (simp_all add: other)
    from this [of 0 1] this [of 1 8] this [of 9 3] this [of 12 2] this [of 14 4]
    show ?thesis by (simp add: slot_at_def)
  qed
  have "part c5 ?o 1 = [if is_dir then 1 else 0]" using assms same(1) [of 1] by (simp add: other)
  moreover have "part c5 (?o + 1) 8 = put_name 8 name" using assms same(2) [of 8] by (simp add: other del: add_Suc_right One_nat_def)
  moreover have "part c5 (?o + 9) 3 = (if is_dir then part b (?o + 9) 3 else put_name 3 ext)"
  proof -
    have "part c5 (?o + 9) 3 = part c3 (?o + 9) 3" "part c2 (?o + 9) 3 = part b (?o + 9) 3" using assms by (simp_all add: other)
    then show ?thesis using c3(1) part_put_same [of c2 "?o + 9" "put_name 3 ext" c3 3] by (cases is_dir) auto
  qed
  moreover have "part c5 (?o + 12) 2 = put_le 2 first" using same(4) [of 2] by simp
  moreover have "part c5 (?o + 14) 4 = put_le 4 sz" using assms same(3) [of 4] by (simp add: other)
  ultimately have "slot_at c5 (unat i) = \<lparr>de_is_directory = is_dir, de_filename = put_name 8 name,
          de_ext = (if is_dir then de_ext (slot_at b (unat i)) else put_name 3 ext), de_first = first, de_size = sz\<rparr>"
    by (simp add: slot_at_def le_val_put)
  then show ?thesis
    using rest c1 c2 c3 c4 c5 by (intro exI [of _ c4] conjI exI [of _ c5]) (auto simp: set_slot_header_def set_slot_first_def)
qed

text \<open>The first free slot of a directory.\<close>

lemma find_slot_from:
  assumes "length b = 512" and "f < 16" and "de_first (slot_at b f) = 0" and "\<forall>j < f. de_first (slot_at b j) \<noteq> 0" and "unat i \<le> f"
  shows "fat_find_slot b 16 i = Inr (Some (of_nat f))"
  using assms(5)
proof (induction "f - unat i" arbitrary: i rule: less_induct)
  case less
  have lt: "i < 16" "unat i < 16" using less.prems assms(2) by (simp_all add: word_less_nat_alt)
  have get: "get_slot b i = Inr (slot_at b (unat i))" using lt(2) assms(1) by (intro get_slot_at) simp
  show ?case
  proof (cases "unat i = f")
    case True
    then have "fat_find_slot b 16 i = Inr (Some i)"
      using get lt(1) assms(3) by (simp add: fat_find_slot.simps [of _ _ i] FAT_SECTOR_TYPE_EOF_def)
    then show ?thesis using True by auto
  next
    case False
    then have "fat_find_slot b 16 (i + 1) = Inr (Some (of_nat f))"
      using less.hyps [of "i + 1"] less.prems unat_Suc_less [OF lt(1)] by simp
    then show ?thesis
      using get lt(1) assms(4) False less.prems by (simp add: fat_find_slot.simps [of _ _ i] FAT_SECTOR_TYPE_EOF_def)
  qed
qed

section \<open>Writing a file\<close>

lemma fat_chain_cong: "(\<And>k. k \<in> set ks \<Longrightarrow> k < 131072 \<Longrightarrow> fent s' k = fent s k) \<Longrightarrow> fat_chain s ks \<Longrightarrow> fat_chain s' ks"
  by (induction ks rule: induct_list012) auto

lemma fat_bytes_cong: "(\<And>k. k \<in> set ks \<Longrightarrow> fdat s' k = fdat s k) \<Longrightarrow> fat_bytes s' ks = fat_bytes s ks"
  unfolding fat_bytes_def by (metis (no_types, lifting) map_cong)

lemma fat_bytes_append [simp]: "fat_bytes s (ks @ ls) = fat_bytes s ks @ fat_bytes s ls"
  by (simp add: fat_bytes_def)

lemma fat_chain_index: "fat_chain s ks \<Longrightarrow> k \<in> set ks \<Longrightarrow> k < 131072"
  by (induction ks rule: induct_list012) auto

lemma write_data_ok:
  assumes "fat_wf s" and "k < 131072" and "length d = 512"
  shows "\<exists>s'. ata_write_sector (of_nat k + 1025) d s = Inr s' \<and> fat_wf s' \<and> (\<forall>l < 131072. fent s' l = fent s l)
    \<and> (\<forall>l < 131072. fdat s' l = (if l = k then d else fdat s l))"
proof -
  let ?s = "s\<lparr>fat_disk := (fat_disk s)(data_sector k := d)\<rparr>"
  have w: "ata_write_sector (of_nat k + 1025) d s = Inr ?s" using ata_write_ok [OF assms(3)] by (simp add: data_sector_def add.commute)
  have tab: "(fat_disk ?s) (table_sector i) = fat_disk s (table_sector i)" if "i < 1024" for i
    using that assms(2) by (simp add: sectors_distinct)
  then have ent: "\<forall>l < 131072. fent ?s l = fent s l" by (simp add: fent_def)
  moreover have "fat_wf ?s" using assms(1,3) ent tab by (auto simp: fat_wf_def cache_coherent_def)
  moreover have "\<forall>l < 131072. fdat ?s l = (if l = k then d else fdat s l)" using assms(2) by (simp add: fdat_def sectors_distinct)
  ultimately show ?thesis using w by blast
qed

text \<open>The free entries whose index fits a link, and the lowest free entry.\<close>

definition fat_free :: "fat_state \<Rightarrow> nat set" where
  "fat_free s = {k. k < 65536 \<and> \<not> fat_allocated s k}"

lemma finite_fat_free [simp]: "finite (fat_free s)"
  by (rule finite_subset [of _ "{..< 65536}"]) (auto simp: fat_free_def)

lemma lowest_free:
  assumes "fat_wf s" and "fat_free s \<noteq> {}"
  obtains k where "k \<in> fat_free s" "k \<noteq> 0" "k < 65536" "\<not> fat_allocated s k" "\<forall>l < k. fat_allocated s l"
proof -
  define k where "k = (LEAST k. k \<in> fat_free s)"
  have k: "k \<in> fat_free s" using assms(2) unfolding k_def by (metis LeastI ex_in_conv)
  moreover have "fat_allocated s l" if "l < k" for l
  proof -
    have "l \<notin> fat_free s" using not_less_Least [of l "\<lambda>k. k \<in> fat_free s"] that by (simp add: k_def)
    then show ?thesis using that k by (auto simp: fat_free_def)
  qed
  moreover have "k \<noteq> 0" using k assms(1) by (auto simp: fat_free_def fat_wf_def intro: gr0I)
  ultimately show ?thesis using that by (auto simp: fat_free_def)
qed

text \<open>The entries \<open>ks\<close> are newly taken, with their data; nothing else changes.\<close>

definition fat_adds :: "nat list \<Rightarrow> fat_state \<Rightarrow> fat_state \<Rightarrow> bool" where
  "fat_adds ks s s' \<longleftrightarrow> fat_wf s' \<and> distinct ks \<and> set ks \<subseteq> fat_free s \<and> (\<forall>k \<in> set ks. k \<noteq> 0 \<and> fat_allocated s' k)
     \<and> (\<forall>l < 131072. l \<notin> set ks \<longrightarrow> fent s' l = fent s l \<and> fdat s' l = fdat s l)"

lemma fat_adds_trans:
  assumes "fat_adds ks s s1" and "fat_adds ls s1 s2"
  shows "fat_adds (ls @ ks) s s2"
proof -
  have sub: "set ls \<subseteq> fat_free s1" "set ks \<subseteq> fat_free s" using assms by (auto simp: fat_adds_def)
  have dis: "set ls \<inter> set ks = {}" using sub assms(1) by (auto simp: fat_adds_def fat_free_def)
  have "set ls \<subseteq> fat_free s"
  proof
    fix l assume l: "l \<in> set ls"
    then have "l \<notin> set ks" "l < 65536" "\<not> fat_allocated s1 l" using dis sub by (auto simp: fat_free_def)
    then show "l \<in> fat_free s" using assms(1) by (auto simp: fat_adds_def fat_free_def)
  qed
  moreover have "fat_allocated s2 k" if "k \<in> set ks" for k
    using that dis assms sub by (auto simp: fat_adds_def fat_free_def dest!: subsetD)
  ultimately show ?thesis using assms dis sub by (auto simp: fat_adds_def)
qed

lemma alloc_adds:
  assumes "fat_wf s" and "fat_free s \<noteq> {}"
  obtains k s' where "fat_alloc_sector fat_geometry n s = Inr (of_nat k, s')" "fat_adds [k] s s'"
    "fe_next (fent s' k) = ucast n" "fdat s' k = replicate 512 0" "fat_free s' = fat_free s - {k}" "k \<in> fat_free s" "k \<noteq> 0"
proof -
  obtain k where k: "k \<in> fat_free s" "k \<noteq> 0" "k < 65536" "\<not> fat_allocated s k" "\<forall>l < k. fat_allocated s l"
    using lowest_free [OF assms] by blast
  then obtain s' where s': "fat_alloc_sector fat_geometry n s = Inr (of_nat k, s')" "allocates k (ucast n) s s'"
    using alloc_loop_ok [OF assms(1), of k 0 n] by (auto simp: fat_alloc_sector_def)
  have "fat_adds [k] s s'" using s'(2) k by (simp add: allocates_def fat_adds_def)
  moreover have "fat_allocated s' l \<longleftrightarrow> l = k \<or> fat_allocated s l" if "l < 65536" for l
    using that s'(2) by (simp add: allocates_def)
  then have "fat_free s' = fat_free s - {k}" by (auto simp: fat_free_def)
  ultimately show ?thesis using that s' k by (auto simp: allocates_def)
qed

text \<open>
  The sectors of a file, written from the last to the first: with \<open>p\<close> whole sectors of data before
  the current one and \<open>ks\<close> the entries written so far.
\<close>

lemma chain_link:
  assumes "fe_next (fent s k) = ucast (if ks = [] then 0 else of_nat (hd ks) :: u32)" and "k < 131072"
    and "ks = [] \<or> fat_chain s ks \<and> hd ks \<noteq> 0 \<and> hd ks < 65536"
  shows "fat_chain s (k # ks)"
proof (cases ks)
  case Nil
  then show ?thesis using assms by simp
next
  case (Cons l ls)
  then have "unat (ucast (of_nat l :: u32) :: u16) = l"
    using assms(3) by (simp add: unsigned_ucast_eq unat_of_nat take_bit_eq_mod)
  then show ?thesis using assms Cons by simp
qed

lemma write_one:
  assumes "fat_wf s" and "fat_free s \<noteq> {}" and "length d \<le> 512"
  obtains k s1 s2 where "fat_alloc_sector fat_geometry n s = Inr (of_nat k, s1)"
    "put_field (replicate 512 0) 0 d = Inr (d @ replicate (512 - length d) 0)"
    "ata_write_sector (of_nat k + 1025) (d @ replicate (512 - length d) 0) s1 = Inr s2"
    "fat_adds [k] s s2" "fe_next (fent s2 k) = ucast n" "fdat s2 k = d @ replicate (512 - length d) 0"
    "fat_free s2 = fat_free s - {k}" "k < 65536" "k \<noteq> 0" "\<not> fat_allocated s k" "k \<in> fat_free s"
proof -
  obtain k s1 where k: "fat_alloc_sector fat_geometry n s = Inr (of_nat k, s1)" "fat_adds [k] s s1"
    "fe_next (fent s1 k) = ucast n" "fat_free s1 = fat_free s - {k}" "k \<in> fat_free s" "k \<noteq> 0"
    using alloc_adds [OF assms(1,2)] by metis
  have kl: "k < 65536" "\<not> fat_allocated s k" using k(5) by (auto simp: fat_free_def)
  have wf1: "fat_wf s1" using k(2) by (simp add: fat_adds_def)
  obtain s2 where s2: "ata_write_sector (of_nat k + 1025) (d @ replicate (512 - length d) 0) s1 = Inr s2" "fat_wf s2"
    "\<forall>l < 131072. fent s2 l = fent s1 l" "\<forall>l < 131072. fdat s2 l = (if l = k then d @ replicate (512 - length d) 0 else fdat s1 l)"
    using write_data_ok [OF wf1, of k "d @ replicate (512 - length d) 0"] kl(1) assms(3) by auto
  have "fat_adds [k] s s2" using k(2,6) kl s2 by (auto simp: fat_adds_def)
  moreover have "fat_free s2 = fat_free s - {k}" using s2(3) k(4) by (auto simp: fat_free_def)
  moreover have "put_field (replicate 512 0) 0 d = Inr (d @ replicate (512 - length d) 0)" using assms(3) by (simp add: put_field_def)
  ultimately show ?thesis using that [OF k(1) _ s2(1)] k(3,5,6) kl s2(3,4) by simp
qed

lemma write_sectors_ok:
  assumes "fat_wf s" and "r \<le> card (fat_free s)" and "unat needed = unat j + r"
    and "next_idx = (if ks = [] then 0 else of_nat (hd ks))"
    and "ks = [] \<or> fat_chain s ks \<and> hd ks \<noteq> 0 \<and> hd ks < 65536" and "\<forall>k \<in> set ks. k < 65536 \<and> fat_allocated s k"
    and "0 < r \<Longrightarrow> file_ptr = 512 * (int r - 1)" and "unat n \<le> 512" and "0 < r \<Longrightarrow> 512 * (r - 1) + unat n \<le> length data"
  shows "\<exists>ks' s'. fat_write_sectors fat_geometry False data needed j next_idx n file_ptr s =
        Inr (if ks' @ ks = [] then 0 else of_nat (hd (ks' @ ks)), s')
      \<and> length ks' = r \<and> fat_adds ks' s s' \<and> (ks' @ ks = [] \<or> fat_chain s' (ks' @ ks))
      \<and> (0 < r \<longrightarrow> fat_bytes s' ks' = take (512 * (r - 1) + unat n) data @ replicate (512 - unat n) 0)"
  using assms
proof (induction r arbitrary: s j next_idx ks file_ptr n)
  case 0
  then show ?case by (intro exI [of _ "[]"] exI [of _ s]) (auto simp: fat_write_sectors.simps [of _ _ _ needed j] word_less_nat_alt fat_adds_def)
next
  case (Suc r)
  define d where "d = take (unat n) (drop (512 * r) data)"
  have d: "length d = unat n" "field data (512 * r) (unat n) = Inr d"
    using Suc.prems(9) by (simp_all add: d_def field_def)
  have "fat_free s \<noteq> {}" "length d \<le> 512" using Suc.prems(2,8) d(1) by auto
  then obtain k s1 s2 where k: "fat_alloc_sector fat_geometry next_idx s = Inr (of_nat k, s1)"
    "put_field (replicate 512 0) 0 d = Inr (d @ replicate (512 - length d) 0)"
    "ata_write_sector (of_nat k + 1025) (d @ replicate (512 - length d) 0) s1 = Inr s2"
    and a: "fat_adds [k] s s2" and e: "fe_next (fent s2 k) = ucast next_idx" "fdat s2 k = d @ replicate (512 - length d) 0"
    and fr: "fat_free s2 = fat_free s - {k}" and kl: "k < 65536" "k \<noteq> 0" "\<not> fat_allocated s k" "k \<in> fat_free s"
    using write_one [OF Suc.prems(1)] by metis
  have old: "fent s2 l = fent s l" if "l \<in> set ks" for l
  proof -
    have "l < 131072" "l \<noteq> k" using that Suc.prems(6) kl(3) by auto
    then show ?thesis using a by (simp add: fat_adds_def)
  qed
  have chain: "fat_chain s2 (k # ks)"
  proof (rule chain_link)
    show "ks = [] \<or> fat_chain s2 ks \<and> hd ks \<noteq> 0 \<and> hd ks < 65536"
      using Suc.prems(5) fat_chain_cong [of ks s2 s] old by blast
  qed (use e(1) kl(1) Suc.prems(4) in simp_all)
  have j: "j < needed" "unat (j + 1) = Suc (unat j)"
    using Suc.prems(3) unat_Suc_less [of j needed] by (simp_all add: word_less_nat_alt)
  have ptr: "file_ptr = 512 * int r" "nat file_ptr = 512 * r" using Suc.prems(7) by simp_all
  have "\<exists>ks' s'. fat_write_sectors fat_geometry False data needed (j + 1) (of_nat k) 512 (file_ptr - 512) s2 =
        Inr (if ks' @ k # ks = [] then 0 else of_nat (hd (ks' @ k # ks)), s')
      \<and> length ks' = r \<and> fat_adds ks' s2 s' \<and> (ks' @ k # ks = [] \<or> fat_chain s' (ks' @ k # ks))
      \<and> (0 < r \<longrightarrow> fat_bytes s' ks' = take (512 * (r - 1) + unat (512 :: u32)) data @ replicate (512 - unat (512 :: u32)) 0)"
  proof (rule Suc.IH)
    show "r \<le> card (fat_free s2)" using fr kl(4) Suc.prems(2) by (simp add: card_Diff_singleton)
    show "\<forall>l \<in> set (k # ks). l < 65536 \<and> fat_allocated s2 l" using Suc.prems(6) old a kl(1) by (auto simp: fat_adds_def)
    show "512 * (r - 1) + unat (512 :: u32) \<le> length data" if "0 < r" using Suc.prems(9) that by simp
  qed (use a j ptr chain kl Suc.prems(3) in \<open>auto simp: fat_adds_def\<close>)
  then obtain ks' s' where ih: "fat_write_sectors fat_geometry False data needed (j + 1) (of_nat k) 512 (file_ptr - 512) s2 =
        Inr (of_nat (hd (ks' @ k # ks)), s')" "length ks' = r" "fat_adds ks' s2 s'" "fat_chain s' (ks' @ k # ks)"
      "0 < r \<longrightarrow> fat_bytes s' ks' = take (512 * r) data"
    by (auto simp: Suc_diff_1 right_diff_distrib')
  have "fat_adds (ks' @ [k]) s s'" by (rule fat_adds_trans [OF a ih(3)])
  moreover have "fat_bytes s' ks' = take (512 * r) data" using ih(2,5) by (cases "r = 0") auto
  moreover have "k \<notin> set ks'" using ih(3) a by (auto simp: fat_adds_def fat_free_def)
  then have "fdat s' k = d @ replicate (512 - unat n) 0" using ih(3) e(2) kl(1) d(1) by (simp add: fat_adds_def)
  moreover have "take (512 * r + unat n) data = take (512 * r) data @ d" by (simp add: d_def take_add)
  moreover have "fat_write_sectors fat_geometry False data needed j next_idx n file_ptr s = Inr (of_nat (hd (ks' @ k # ks)), s')"
    using k d(2) ih(1) j(1) ptr Suc.prems(1) by (simp add: fat_write_sectors.simps [of _ _ _ needed j] fat_wf_def)
  ultimately show ?case using ih(2,4) by (intro exI [of _ "ks' @ [k]"] exI [of _ s']) simp
qed

text \<open>The number of sectors and the number of bytes in the last one, as the code computes them.\<close>

lemma sector_count:
  fixes len :: u32
  assumes "0 < unat len"
  defines "needed \<equiv> len div 512 + (if len mod 512 \<noteq> 0 then 1 else 0)" and "n \<equiv> (if len mod 512 \<noteq> 0 then len mod 512 else 512)"
  shows "unat needed = (unat len + 511) div 512" and "0 < (unat len + 511) div 512" and "unat n \<le> 512"
    and "unat len = 512 * ((unat len + 511) div 512 - 1) + unat n"
    and "uint len - uint n = 512 * (int ((unat len + 511) div 512) - 1)"
proof -
  define q r where "q = unat len div 512" and "r = unat len mod 512"
  have L: "unat len = 512 * q + r" "r < 512" by (simp_all add: q_def r_def)
  have d: "unat (len div 512) = q" and m: "unat (len mod 512) = r"
    by (simp_all add: unat_div_distrib unat_mod_distrib q_def r_def)
  have z: "len mod 512 \<noteq> 0 \<longleftrightarrow> r \<noteq> 0" using m by (metis unat_eq_zero)
  have "unat len < 2 ^ LENGTH(32)" by (rule unsigned_less)
  then have s: "unat (len div 512 + 1) = q + 1" using L by (simp add: unat_word_ariths d)
  have c: "(unat len + 511) div 512 = (if r = 0 then q else q + 1)"
    unfolding L(1) using L(2) by (cases "r = 0") (simp_all add: div_nat_eqI)
  then show "unat needed = (unat len + 511) div 512" unfolding needed_def z using d s by simp
  show pos: "0 < (unat len + 511) div 512" unfolding c using assms(1) L(1) by (cases "r = 0") simp_all
  have n: "unat n = (if r = 0 then 512 else r)" unfolding n_def z using m by simp
  then show "unat n \<le> 512" using L(2) by simp
  show e: "unat len = 512 * ((unat len + 511) div 512 - 1) + unat n"
    unfolding c n using L assms(1) by (cases "r = 0"; cases q) simp_all
  have "int (unat len) - int (unat n) = int (512 * ((unat len + 511) div 512 - 1))" using e by linarith
  then show "uint len - uint n = 512 * (int ((unat len + 511) div 512) - 1)"
    using pos by (simp only: uint_nat of_nat_mult of_nat_diff of_nat_numeral of_nat_1 Suc_leI One_nat_def of_nat_Suc of_nat_0)
      (simp add: of_nat_diff)
qed

text \<open>
  Creating a file or a directory, given what the loop over its sectors does: the slot is filled in and
  the directory's sector written back last.
\<close>

lemma create_ok:
  assumes "fat_wf s" and "d < 131072" and "fat_allocated s d"
    and "f < 16" and "de_first (slot_at (fdat s d) f) = 0" and "\<forall>j < f. de_first (slot_at (fdat s d) j) \<noteq> 0"
    and "len' = (if is_dir then 512 else len)"
    and "needed = len' div 512 + (if len' mod 512 \<noteq> 0 then 1 else 0)" and "n = (if len' mod 512 \<noteq> 0 then len' mod 512 else 512)"
    and "fat_write_sectors fat_geometry is_dir data needed 0 0 n (uint len' - uint n) s = Inr (of_nat k0, s1)"
    and "fat_wf s1" and "k0 < 65536"
  shows "\<exists>s'. fat_create_dir_or_file (fat_info s) (of_nat d) is_dir name ext len data s = Inr (of_nat k0, s')
    \<and> fat_wf s'
    \<and> (\<forall>l < 131072. fent s' l = fent s1 l) \<and> (\<forall>l < 131072. l \<noteq> d \<longrightarrow> fdat s' l = fdat s1 l)
    \<and> slot_at (fdat s' d) f = \<lparr>de_is_directory = is_dir, de_filename = put_name 8 name,
          de_ext = (if is_dir then de_ext (slot_at (fdat s d) f) else put_name 3 ext), de_first = of_nat k0, de_size = len'\<rparr>
    \<and> (\<forall>j < 16. j \<noteq> f \<longrightarrow> slot_at (fdat s' d) j = slot_at (fdat s d) j)"
proof -
  have wf: "fat_info s = fat_geometry" "\<And>k. length (fdat s k) = 512" using assms(1) by (auto simp: fat_wf_def fdat_def)
  have f: "unat (of_nat f :: u32) = f" using assms(4) by (simp add: unat_of_nat)
  have u: "ucast (of_nat k0 :: u32) = (of_nat k0 :: u16)" "ucast (of_nat k0 :: u16) = (of_nat k0 :: u32)"
    using assms(12) by (simp_all add: word_unat_eq_iff unsigned_ucast_eq unat_of_nat take_bit_eq_mod)
  have rd: "fat_disk s (of_nat d + 1025) = fdat s d" by (simp add: fdat_def data_sector_def add.commute)
  have slot: "fat_find_slot (fdat s d) 16 0 = Inr (Some (of_nat f))"
    using find_slot_from [OF wf(2) assms(4,5,6), of 0] by simp
  obtain b1 b2 where b: "set_slot_header (fdat s d) (of_nat f) is_dir name ext len' = Inr b1"
      "set_slot_first b1 (of_nat f) (of_nat k0) = Inr b2" "length b2 = 512"
      "slot_at b2 f = \<lparr>de_is_directory = is_dir, de_filename = put_name 8 name,
          de_ext = (if is_dir then de_ext (slot_at (fdat s d) f) else put_name 3 ext), de_first = of_nat k0, de_size = len'\<rparr>"
      "\<forall>j. j \<noteq> f \<longrightarrow> 32 * j + 31 < 512 \<longrightarrow> slot_at b2 j = slot_at (fdat s d) j"
    using set_slot_ok [of "of_nat f" "fdat s d" is_dir name ext len' "of_nat k0"] assms(4) wf(2) f by auto
  obtain s' where s': "ata_write_sector (of_nat d + 1025) b2 s1 = Inr s'" "fat_wf s'" "\<forall>l < 131072. fent s' l = fent s1 l"
      "\<forall>l < 131072. fdat s' l = (if l = d then b2 else fdat s1 l)"
    using write_data_ok [OF assms(11,2) b(3)] by blast
  have "fat_create_dir_or_file (fat_info s) (of_nat d) is_dir name ext len data s = Inr (of_nat k0, s')"
    using slot b(1,2) assms(7-10) s'(1) u unfolding fat_create_dir_or_file_def wf(1) ata_read_sector_def rd
    by (simp add: Let_def rd FAT_SECTOR_TYPE_EOF_def split: if_splits)
  then show ?thesis using s' b(4,5) assms(2) by (intro exI [of _ s']) simp
qed

section \<open>Formatting\<close>

definition blank_entry :: fat_entry_t where
  "blank_entry = \<lparr>fe_allocated = False, fe_reserved = 0, fe_next = 0\<rparr>"

lemma concat_replicates: "concat (replicate n (replicate m x)) = replicate (n * m) x"
  by (induction n) (simp_all add: replicate_add)

lemma blank_table: "concat (replicate 128 (fat_entry_bytes \<lparr>fe_allocated = False, fe_reserved = 0, fe_next = 0\<rparr>)) = replicate 512 0"
proof -
  have "replicate 4 (0 :: u8) = [0, 0, 0, 0]" by (simp add: numeral_eq_Suc)
  then have "fat_entry_bytes \<lparr>fe_allocated = False, fe_reserved = 0, fe_next = 0\<rparr> = replicate 4 0"
    by (simp add: fat_entry_bytes_def put_le_2)
  then show ?thesis using concat_replicates [of 128 4 "0 :: u8"] by simp
qed

lemma entry_at_zeros: "j < 128 \<Longrightarrow> entry_at (replicate 512 0) j = blank_entry"
  by (simp add: entry_at_def le16_def blank_entry_def)

lemma format_tables_ok:
  assumes "fat_info s = fat_geometry" and "unat i \<le> 1024"
  shows "fat_format_tables i s = Inr (s\<lparr>fat_disk := \<lambda>x. if unat i < unat x \<and> unat x \<le> 1024 then replicate 512 0 else fat_disk s x\<rparr>)"
  using assms
proof (induction "1024 - unat i" arbitrary: i s rule: less_induct)
  case less
  show ?case
  proof (cases "i < 1024")
    case False
    then have "unat i = 1024" using less.prems(2) by (simp add: word_less_nat_alt)
    moreover have "(\<lambda>x. if 1024 < unat x \<and> unat x \<le> 1024 then replicate 512 0 else fat_disk s x) = fat_disk s" by (rule ext) auto
    ultimately show ?thesis using False less.prems by (simp add: fat_format_tables.simps [of i])
  next
    case True
    then have i: "unat i < 1024" "unat (i + 1) = Suc (unat i)" using unat_Suc_less [OF True] by (simp_all add: word_less_nat_alt)
    let ?s = "s\<lparr>fat_disk := (fat_disk s)(1 + i := replicate 512 0)\<rparr>"
    have "unat (1 + i) = Suc (unat i)" using i(2) by (simp add: add.commute)
    then have "x = 1 + i \<longleftrightarrow> unat x = Suc (unat i)" for x by (simp add: word_unat_eq_iff)
    then have eq: "(\<lambda>x. if unat (i + 1) < unat x \<and> unat x \<le> 1024 then replicate 512 0 else fat_disk ?s x) =
        (\<lambda>x. if unat i < unat x \<and> unat x \<le> 1024 then replicate 512 0 else fat_disk s x)"
      using i by (auto simp: fun_eq_iff)
    have "fat_format_tables (i + 1) ?s = Inr (?s\<lparr>fat_disk := \<lambda>x. if unat (i + 1) < unat x \<and> unat x \<le> 1024 then replicate 512 0 else fat_disk ?s x\<rparr>)"
      by (rule less.hyps) (use i less.prems in simp_all)
    then show ?thesis unfolding eq
      using True less.prems(1) blank_table by (simp add: fat_format_tables.simps [of i] FAT_SECTOR_TYPE_EOF_def ata_write_ok Let_def)
  qed
qed

lemma cache_fill_ok:
  assumes "at_ok c" and "at_cap c = 1024" and "at_list c = replicate (unat i) e" and "unat i \<le> 1024"
    and "e = \<lparr>cs_valid = False, cs_data = replicate 512 0\<rparr>"
  shows "\<exists>c'. fat_cache_fill 1024 i c = Inr c' \<and> at_ok c' \<and> at_list c' = replicate 1024 e"
  using assms(1-4)
proof (induction "1024 - unat i" arbitrary: i c rule: less_induct)
  case less
  show ?case
  proof (cases "i < 1024")
    case False
    then have "unat i = 1024" using less.prems(4) by (simp add: word_less_nat_alt)
    then show ?thesis using False less.prems by (simp add: fat_cache_fill.simps [of _ i])
  next
    case True
    then have i: "unat i < 1024" "unat (i + 1) = Suc (unat i)" using unat_Suc_less [OF True] by (simp_all add: word_less_nat_alt)
    obtain c1 where c1: "array_insert c e = Inr c1" "at_ok c1" "at_list c1 = replicate (unat (i + 1)) e" "at_cap c1 = 1024"
      using ut.ins_ok [OF less.prems(1), of e] less.prems(2,3) i by (auto simp: replicate_append_same)
    then show ?thesis
      using less.hyps [of "i + 1" c1] i True assms(5) by (auto simp: fat_cache_fill.simps [of _ i])
  qed
qed

text \<open>Formatting a drive and setting up the cache gives an empty, well-formed file system.\<close>

lemma format_gives_empty_fs:
  assumes "\<And>x. length (fat_disk s x) = 512" and "fat_last_sector s = 1"
  shows "\<exists>s1 s2. fat_format_drive s = Inr s1 \<and> fat_cache_create s1 = Inr s2 \<and> fat_wf s2 \<and> fat_info s2 = fat_geometry
    \<and> (\<forall>k < 131072. fat_allocated s2 k \<longleftrightarrow> k = 0) \<and> fe_next (fent s2 0) = 0 \<and> fdat s2 0 = replicate 512 0"
proof -
  let ?d0 = "(fat_disk s)(0 := replicate 512 (byte_of CHR ''A''))"
  let ?d1 = "\<lambda>x. if 0 < unat x \<and> unat x \<le> 1024 then replicate 512 0 else ?d0 x"
  let ?d2 = "?d1(1025 := replicate 512 0)"
  obtain b where b: "set_fat_entry (replicate 512 0) 0 True 0 = Inr b" "length b = 512"
      "\<forall>i < 128. entry_at b i = (if i = 0 then blank_entry\<lparr>fe_allocated := True, fe_next := 0\<rparr> else blank_entry)"
    using set_fat_entry_ok [of 0 "replicate 512 0" True 0] by (auto simp: entry_at_zeros)
  define s1 where "s1 = s\<lparr>fat_info := fat_geometry, fat_disk := ?d2(1 := b)\<rparr>"
  have fmt: "fat_format_drive s = Inr s1"
    using format_tables_ok [of "s\<lparr>fat_info := fat_geometry, fat_disk := ?d0\<rparr>" 0] b(1,2)
    by (simp add: fat_format_drive_def Let_def ata_write_ok FAT_SECTOR_TYPE_EOF_def ata_read_sector_def s1_def cong: if_cong)
  obtain c where c: "fat_cache_fill 1024 0 (array_create 1024) = Inr c" "at_ok c" "at_list c = replicate 1024 \<lparr>cs_valid = False, cs_data = replicate 512 0\<rparr>"
    using cache_fill_ok [of "array_create 1024" 0] by auto
  let ?s2 = "s1\<lparr>fat_cache := Some c\<rparr>"
  have cc: "fat_cache_create s1 = Inr ?s2" using c(1) by (simp add: fat_cache_create_def s1_def)
  have disk: "fat_disk ?s2 (table_sector i) = (if i = 0 then b else replicate 512 0)" if "i < 1024" for i
    using that unat_sectors(1) [OF that] by (auto simp: s1_def table_sector_def)
  have ent: "fent ?s2 k = (if k = 0 then blank_entry\<lparr>fe_allocated := True, fe_next := 0\<rparr> else blank_entry)" if "k < 131072" for k
  proof -
    have "k = 0 \<longleftrightarrow> k div 128 = 0 \<and> k mod 128 = 0" by (metis div_0 mod_0 div_mult_mod_eq mult_zero_left add_0)
    moreover have "k div 128 < 1024" "k mod 128 < 128" using that by simp_all
    ultimately show ?thesis unfolding fent_def using disk [of "k div 128"] b(3) by (cases "k div 128 = 0") (simp_all add: entry_at_zeros)
  qed
  have "cache_coherent UNIV ?s2" using c(2,3) by (simp add: cache_coherent_def)
  then have "fat_wf ?s2" using assms b(2) ent by (simp add: fat_wf_def s1_def)
  moreover have "fdat ?s2 0 = replicate 512 0" by (simp add: fdat_def data_sector_def s1_def)
  ultimately show ?thesis using fmt cc ent by (intro exI [of _ s1] exI [of _ ?s2]) (simp add: blank_entry_def s1_def)
qed

section \<open>Files are stored and read back\<close>

text \<open>Files whose entries are taken and which are not the changed directory keep their contents.\<close>

lemma read_file_frame:
  assumes "fat_wf s" and "fat_wf s'" and "fat_chain s ks" and "unat (fn_size node) \<le> 512 * length ks" and "fn_first node = of_nat (hd ks)"
    and "\<And>k. k \<in> set ks \<Longrightarrow> k < 131072 \<Longrightarrow> fent s' k = fent s k \<and> fdat s' k = fdat s k"
  shows "fat_read_file node n s' = fat_read_file node n s"
proof -
  have same: "fent s' k = fent s k" "fdat s' k = fdat s k" if "k \<in> set ks" for k
    using assms(6) [OF that] fat_chain_index [OF assms(3) that] by auto
  have "fat_chain s' ks" by (rule fat_chain_cong [OF _ assms(3)]) (use same in auto)
  moreover have "fat_bytes s' ks = fat_bytes s ks" by (rule fat_bytes_cong) (use same in auto)
  ultimately show ?thesis using fat_read_file_ok assms(1-5) by simp
qed

lemma write_file_ok:
  assumes "fat_wf s" and "data \<noteq> []" and "(length data + 511) div 512 \<le> card (fat_free s)" and "length data < 2 ^ 32"
    and "len = (of_nat (length data) :: u32)"
  shows "\<exists>ks s1. fat_write_sectors fat_geometry False data (len div 512 + (if len mod 512 \<noteq> 0 then 1 else 0)) 0 0
        (if len mod 512 \<noteq> 0 then len mod 512 else 512) (uint len - uint (if len mod 512 \<noteq> 0 then len mod 512 else 512)) s =
      Inr (of_nat (hd ks), s1)
    \<and> fat_adds ks s s1 \<and> fat_chain s1 ks \<and> take (length data) (fat_bytes s1 ks) = data \<and> length data \<le> 512 * length ks \<and> ks \<noteq> []"
proof -
  define needed where "needed = len div 512 + (if len mod 512 \<noteq> 0 then 1 else 0)"
  define n where "n = (if len mod 512 \<noteq> 0 then len mod 512 else 512)"
  define r where "r = (length data + 511) div 512"
  have len: "unat len = length data" using assms(4) by (simp add: unat_of_nat assms(5))
  then have "0 < unat len" using assms(2) by simp
  note c = sector_count [OF this, folded needed_def n_def, unfolded len, folded r_def]
  have "\<exists>ks s1. fat_write_sectors fat_geometry False data needed 0 0 n (uint len - uint n) s = Inr (if ks @ [] = [] then 0 else of_nat (hd (ks @ [])), s1)
      \<and> length ks = r \<and> fat_adds ks s s1 \<and> (ks @ [] = [] \<or> fat_chain s1 (ks @ []))
      \<and> (0 < r \<longrightarrow> fat_bytes s1 ks = take (512 * (r - 1) + unat n) data @ replicate (512 - unat n) 0)"
    by (rule write_sectors_ok [OF assms(1) assms(3) [folded r_def]]) (use c in simp_all)
  then obtain ks s1 where w: "fat_write_sectors fat_geometry False data needed 0 0 n (uint len - uint n) s = Inr (of_nat (hd ks), s1)"
    and ks: "length ks = r" "fat_adds ks s s1" "fat_chain s1 ks" "fat_bytes s1 ks = data @ replicate (512 - unat n) 0" "ks \<noteq> []"
    using c(2,4) by (auto split: if_splits)
  have "length data \<le> 512 * length ks" using c(2-4) ks(1) by (cases r) auto
  then show ?thesis using w ks unfolding needed_def n_def by (intro exI [of _ ks] exI [of _ s1]) simp
qed

lemma create_file_chain:
  assumes "fat_wf s" and "d < 131072" and "fat_allocated s d"
    and "f < 16" and "de_first (slot_at (fdat s d) f) = 0" and "\<forall>j < f. de_first (slot_at (fdat s d) j) \<noteq> 0"
    and "data \<noteq> []" and "(length data + 511) div 512 \<le> card (fat_free s)" and "length data < 2 ^ 32"
  obtains ks s' where "fat_create_dir_or_file (fat_info s) (of_nat d) False name ext (of_nat (length data)) data s = Inr (of_nat (hd ks), s')"
    "fat_wf s'" "fat_chain s' ks" "take (length data) (fat_bytes s' ks) = data" "length data \<le> 512 * length ks" "hd ks < 65536" "hd ks \<noteq> 0"
    "slot_at (fdat s' d) f = \<lparr>de_is_directory = False, de_filename = put_name 8 name, de_ext = put_name 3 ext,
        de_first = of_nat (hd ks), de_size = of_nat (length data)\<rparr>"
    "\<forall>j < 16. j \<noteq> f \<longrightarrow> slot_at (fdat s' d) j = slot_at (fdat s d) j"
    "\<And>k. fat_allocated s k \<Longrightarrow> k \<noteq> d \<Longrightarrow> k < 131072 \<Longrightarrow> fent s' k = fent s k \<and> fdat s' k = fdat s k"
proof -
  define len :: u32 where "len = of_nat (length data)"
  obtain ks s1 where w: "fat_write_sectors fat_geometry False data (len div 512 + (if len mod 512 \<noteq> 0 then 1 else 0)) 0 0
        (if len mod 512 \<noteq> 0 then len mod 512 else 512) (uint len - uint (if len mod 512 \<noteq> 0 then len mod 512 else 512)) s =
      Inr (of_nat (hd ks), s1)"
    and ks: "fat_adds ks s s1" "fat_chain s1 ks" "take (length data) (fat_bytes s1 ks) = data" "length data \<le> 512 * length ks" "ks \<noteq> []"
    using write_file_ok [OF assms(1,7,8,9) len_def] by blast
  have wf1: "fat_wf s1" and h: "hd ks < 65536" "hd ks \<noteq> 0"
    using ks(1) hd_in_set [OF ks(5)] by (auto simp: fat_adds_def fat_free_def dest!: subsetD)
  obtain s' where s': "fat_create_dir_or_file (fat_info s) (of_nat d) False name ext len data s = Inr (of_nat (hd ks), s')" "fat_wf s'"
    "\<forall>l < 131072. fent s' l = fent s1 l" "\<forall>l < 131072. l \<noteq> d \<longrightarrow> fdat s' l = fdat s1 l"
    "slot_at (fdat s' d) f = \<lparr>de_is_directory = False, de_filename = put_name 8 name, de_ext = put_name 3 ext,
        de_first = of_nat (hd ks), de_size = len\<rparr>"
    "\<forall>j < 16. j \<noteq> f \<longrightarrow> slot_at (fdat s' d) j = slot_at (fdat s d) j"
    using create_ok [OF assms(1-6) _ refl refl w wf1 h(1), where name = name and ext = ext and len = len] by auto
  have new: "\<not> fat_allocated s k \<and> k < 65536" if "k \<in> set ks" for k using that ks(1) by (auto simp: fat_adds_def fat_free_def)
  have kd: "k \<noteq> d \<and> k < 131072" if "k \<in> set ks" for k using new [OF that] assms(3) by auto
  have ch: "fat_chain s' ks" by (rule fat_chain_cong [OF _ ks(2)]) (use s'(3) in auto)
  have bytes: "fat_bytes s' ks = fat_bytes s1 ks" by (rule fat_bytes_cong) (use s'(4) kd in blast)
  have keep: "fent s' k = fent s k \<and> fdat s' k = fdat s k" if "fat_allocated s k" "k \<noteq> d" "k < 131072" for k
  proof -
    have "k \<notin> set ks" using new that(1) by blast
    then show ?thesis using that(2,3) s'(3,4) ks(1) by (simp add: fat_adds_def)
  qed
  show ?thesis using that [of ks s'] s' ch ks(3,4) h keep unfolding bytes len_def by simp
qed

text \<open>
  C26. A file that is created in a directory with a free slot, while enough entries are free whose index
  fits a link, is read back as exactly its data; its slot records its name, extension, first entry and
  size; the other slots of the directory, and the contents of every other file, are unchanged, and the
  file system stays well formed.
\<close>

theorem created_file_reads_back:
  assumes "fat_wf s" and "d < 131072" and "fat_allocated s d"
    and "f < 16" and "de_first (slot_at (fdat s d) f) = 0" and "\<forall>j < f. de_first (slot_at (fdat s d) j) \<noteq> 0"
    and "data \<noteq> []" and "(length data + 511) div 512 \<le> card (fat_free s)" and "length data < 2 ^ 32"
  shows "\<exists>idx s'. fat_create_dir_or_file (fat_info s) (of_nat d) False name ext (of_nat (length data)) data s = Inr (idx, s')
    \<and> fat_wf s'
    \<and> fat_read_file \<lparr>fn_first = idx, fn_size = of_nat (length data)\<rparr> sz s' = Some (Inr (data, sz))
    \<and> slot_at (fdat s' d) f = \<lparr>de_is_directory = False, de_filename = put_name 8 name, de_ext = put_name 3 ext,
        de_first = ucast idx, de_size = of_nat (length data)\<rparr>
    \<and> (\<forall>j < 16. j \<noteq> f \<longrightarrow> slot_at (fdat s' d) j = slot_at (fdat s d) j)
    \<and> (\<forall>node ks. fat_chain s ks \<and> (\<forall>k \<in> set ks. fat_allocated s k \<and> k \<noteq> d) \<and> fn_first node = of_nat (hd ks)
        \<and> unat (fn_size node) \<le> 512 * length ks \<longrightarrow> fat_read_file node sz s' = fat_read_file node sz s)"
proof -
  obtain ks s' where s': "fat_create_dir_or_file (fat_info s) (of_nat d) False name ext (of_nat (length data)) data s = Inr (of_nat (hd ks), s')"
    "fat_wf s'" "fat_chain s' ks" "take (length data) (fat_bytes s' ks) = data" "length data \<le> 512 * length ks"
    "slot_at (fdat s' d) f = \<lparr>de_is_directory = False, de_filename = put_name 8 name, de_ext = put_name 3 ext,
        de_first = of_nat (hd ks), de_size = of_nat (length data)\<rparr>"
    "\<forall>j < 16. j \<noteq> f \<longrightarrow> slot_at (fdat s' d) j = slot_at (fdat s d) j"
    and keep: "\<And>k. fat_allocated s k \<Longrightarrow> k \<noteq> d \<Longrightarrow> k < 131072 \<Longrightarrow> fent s' k = fent s k \<and> fdat s' k = fdat s k"
    using create_file_chain [OF assms, of name ext] by metis
  have rd: "fat_read_file \<lparr>fn_first = of_nat (hd ks), fn_size = of_nat (length data)\<rparr> sz s' = Some (Inr (data, sz))"
    using fat_read_file_ok [OF s'(2,3)] s'(4,5) assms(9) by (simp add: unat_of_nat)
  have u: "ucast (of_nat (hd ks) :: u32) = (of_nat (hd ks) :: u16)"
    by (simp add: word_unat_eq_iff unsigned_ucast_eq unat_of_nat take_bit_eq_mod mod_mod_cancel)
  have "fat_read_file node sz s' = fat_read_file node sz s"
    if "fat_chain s ls" "\<forall>k \<in> set ls. fat_allocated s k \<and> k \<noteq> d" "fn_first node = of_nat (hd ls)" "unat (fn_size node) \<le> 512 * length ls" for node ls
    by (rule read_file_frame [OF assms(1) s'(2) that(1,4,3)]) (use that(2) keep in blast)
  then show ?thesis using s' rd u by (intro exI [of _ "of_nat (hd ks)"] exI [of _ s']) auto
qed

section \<open>Reading part of a file through the cache\<close>

text \<open>A well-formed state with the same disk: only the cache may differ.\<close>

definition recached :: "fat_state \<Rightarrow> fat_state \<Rightarrow> bool" where
  "recached s s' \<longleftrightarrow> fat_wf s' \<and> fat_disk s' = fat_disk s"

lemma recached_refl: "fat_wf s \<Longrightarrow> recached s s"
  by (simp add: recached_def)

lemma recached_trans: "recached s s1 \<Longrightarrow> recached s1 s2 \<Longrightarrow> recached s s2"
  by (simp add: recached_def)

lemma recached_frame:
  assumes "recached s s'"
  shows "fat_wf s'" and "fent s' = fent s" and "fdat s' = fdat s" and "fat_bytes s' = fat_bytes s"
proof -
  show "fat_wf s'" "fent s' = fent s" and d: "fdat s' = fdat s" using assms by (auto simp: recached_def fent_def fdat_def fun_eq_iff)
  show "fat_bytes s' = fat_bytes s" by (rule ext) (simp add: fat_bytes_def d)
qed

lemma recached_chain: "recached s s' \<Longrightarrow> fat_chain s ks \<Longrightarrow> fat_chain s' ks"
  by (rule fat_chain_cong) (simp_all add: recached_frame(2))

lemma read_table_sector_ok:
  assumes "fat_wf s" and "i < 1024"
  shows "\<exists>s'. fat_read_table_sector (of_nat i) s = Inr (fat_disk s (table_sector i), s') \<and> recached s s'"
proof -
  have coh: "cache_coherent UNIV s" and info: "fat_info s = fat_geometry" and len: "\<And>x. length (fat_disk s x) = 512"
    using assms(1) by (auto simp: fat_wf_def)
  obtain c where c: "fat_cache s = Some c" "at_ok c" "length (at_list c) = 1024" using coh by (auto simp: cache_coherent_def)
  obtain e where e: "cache_at (of_nat i) s = Inr e" "length (cs_data e) = 512"
      "cs_valid e \<longrightarrow> cs_data e = fat_disk s (table_sector i)"
    using cache_at_ok [OF coh assms(2)] by auto
  have size: "\<not> word_of_int (at_size c) \<le> (of_nat i :: u32)"
    using assms(2) at_ok_size [OF c(2)] c(3) by (simp add: word_le_nat_alt unat_of_nat)
  show ?thesis
  proof (cases "cs_valid e")
    case True
    then show ?thesis using recached_refl [OF assms(1)] c e size by (intro exI [of _ s]) (simp add: fat_read_table_sector_def)
  next
    case False
    let ?d = "fat_disk s (table_sector i)"
    have "\<exists>c. cache_set (of_nat i) \<lparr>cs_valid = True, cs_data = ?d\<rparr> s = Inr (s\<lparr>fat_cache := Some c\<rparr>) \<and> cache_coherent UNIV (s\<lparr>fat_cache := Some c\<rparr>)"
      by (rule cache_set_ok [OF coh assms(2)]) (use len in simp_all)
    then obtain c' where c': "cache_set (of_nat i) \<lparr>cs_valid = True, cs_data = ?d\<rparr> s = Inr (s\<lparr>fat_cache := Some c'\<rparr>)"
        "cache_coherent UNIV (s\<lparr>fat_cache := Some c'\<rparr>)" by blast
    have "recached s (s\<lparr>fat_cache := Some c'\<rparr>)"
      using assms(1) c'(2) by (auto simp: recached_def fat_wf_def fent_def)
    moreover have "fat_disk s (1 + of_nat i) = ?d" by (simp add: table_sector_def)
    ultimately show ?thesis
      using False c e size info len c'(1) by (intro exI [of _ "s\<lparr>fat_cache := Some c'\<rparr>"])
        (simp add: fat_read_table_sector_def ata_read_sector_def field_all put_field_all Let_def)
  qed
qed

lemma fat_follow_ok:
  assumes "fat_wf s" and "k < 131072"
  shows "\<exists>s'. fat_follow (of_nat k) s = Inr (ucast (fe_next (fent s k)), s') \<and> recached s s'"
proof -
  have "k div 128 < 1024" using assms(2) by simp
  then obtain s' where s': "fat_read_table_sector (of_nat (k div 128)) s = Inr (fat_disk s (table_sector (k div 128)), s')" "recached s s'"
    using read_table_sector_ok [OF assms(1)] by blast
  have "fat_next (fat_disk s (table_sector (k div 128))) fat_geometry (of_nat k) = Inr (ucast (fe_next (fent s k)))"
    by (rule fat_next_ok [OF assms(2) refl]) (use assms(1) in \<open>simp add: fat_wf_def\<close>)
  moreover have "fat_info s = fat_geometry" "fat_info s' = fat_geometry" using assms(1) s'(2) by (simp_all add: fat_wf_def recached_def)
  ultimately show ?thesis using s' index_words(1) [OF assms(2)] by (simp add: fat_follow_def)
qed

text \<open>Seeking to a link of the chain, or past its end.\<close>

lemma fat_seek_ok:
  assumes "fat_wf s" and "fat_chain s ks" and "unat target = unat link + m"
  shows "\<exists>s'. fat_seek target link (of_nat (hd ks)) s = Inr (if m < length ks then Some (of_nat (ks ! m)) else None, s') \<and> recached s s'"
  using assms
proof (induction m arbitrary: s ks link)
  case 0
  then have "target = link" "recached s s" "ks \<noteq> []" by (auto simp: word_unat_eq_iff recached_refl)
  then show ?case by (intro exI [of _ s]) (simp add: fat_seek.simps [of _ link] hd_conv_nth)
next
  case (Suc m)
  then obtain k ls where ks: "ks = k # ls" and k: "k < 131072" by (cases ks) (auto dest: fat_chain_index)
  obtain s1 where s1: "fat_follow (of_nat k) s = Inr (ucast (fe_next (fent s k)), s1)" "recached s s1"
    using fat_follow_ok [OF Suc.prems(1) k] by blast
  have lt: "link < target" using Suc.prems(3) by (simp add: word_less_nat_alt)
  show ?case
  proof (cases ls)
    case Nil
    then have "fe_next (fent s k) = 0" using Suc.prems(2) ks by simp
    then show ?thesis using s1 Nil ks lt by (intro exI [of _ s1]) (simp add: fat_seek.simps [of _ link] FAT_SECTOR_TYPE_EOF_def less_imp_neq)
  next
    case (Cons l ls')
    then have nx: "fe_next (fent s k) \<noteq> 0" "unat (fe_next (fent s k)) = hd ls" "fat_chain s ls" using Suc.prems(2) ks by auto
    have ch: "fat_chain s1 ls" by (rule recached_chain [OF s1(2) nx(3)])
    obtain s2 where s2: "fat_seek target (link + 1) (of_nat (hd ls)) s1 = Inr (if m < length ls then Some (of_nat (ls ! m)) else None, s2)" "recached s1 s2"
      using Suc.IH [OF recached_frame(1) [OF s1(2)] ch, of "link + 1"] Suc.prems(3) unat_Suc_less [OF lt] by auto
    have "(ucast (fe_next (fent s k)) :: u32) = of_nat (hd ls)" using nx(2) by (simp only: link_words(2))
    moreover have "ucast (fe_next (fent s k)) \<noteq> (0 :: u32)" using nx(1) by (simp only: link_words(1) not_False_eq_True)
    ultimately have "fat_seek target link (of_nat (hd ks)) s = fat_seek target (link + 1) (of_nat (hd ls)) s1"
      using s1(1) lt ks by (simp add: fat_seek.simps [of _ link] FAT_SECTOR_TYPE_EOF_def less_imp_neq)
    then show ?thesis using s2 ks recached_trans [OF s1(2)] by auto
  qed
qed

text \<open>One iteration of the loop that reads part of a file.\<close>

lemma partial_loop_step:
  assumes "fat_wf s" and "unat start < 512" and "unat got + unat remaining = length out" and "length out < 2 ^ 32"
    and "m = min (512 - unat start) (unat remaining)"
    and "out' = take (unat got) out @ take m (drop (unat start) (fdat s k)) @ drop (unat got + m) out"
  shows "fat_partial_loop (of_nat k) start got remaining out s =
    (if m = unat remaining then Some (Inr (out', got + remaining, s))
     else case fat_follow (of_nat k) s of
       Inl e \<Rightarrow> Some (Inl e)
     | Inr (next_idx, s') \<Rightarrow> if next_idx = 0 then Some (Inr (out', got + of_nat m, s'))
         else fat_partial_loop next_idx 0 (got + of_nat m) (remaining - of_nat m) out' s')"
proof -
  have wf: "fat_info s = fat_geometry" "length (fdat s k) = 512" using assms(1) by (auto simp: fat_wf_def fdat_def)
  have "start \<le> 512" using assms(2) by (simp add: word_le_nat_alt)
  then have "unat (512 - start) = 512 - unat start" by (simp add: unat_sub)
  then have n: "min (512 - start) remaining = of_nat m" "unat (of_nat m :: u32) = m"
    using assms(5) by (auto simp: min_def word_unat_eq_iff word_le_nat_alt unat_of_nat)
  have fld: "field (fat_disk s (1025 + of_nat k)) (unat start) m = Inr (take m (drop (unat start) (fdat s k)))"
    using assms(2,5) wf(2) by (simp add: field_def fdat_def data_sector_def)
  have "length (take m (drop (unat start) (fdat s k))) = m" using assms(5) wf(2) by simp
  moreover have "unat got + m \<le> length out" using assms(3,5) by linarith
  ultimately have put: "put_field out (unat got) (take m (drop (unat start) (fdat s k))) = Inr out'"
    using assms(6) by (simp add: put_field_def)
  have r: "ebind (field (fat_disk s (1025 + of_nat k)) (unat start) (unat (of_nat m :: u32))) (put_field out (unat got)) = Inr out'"
    using n(2) fld put by simp
  have z: "remaining - of_nat m = 0 \<longleftrightarrow> m = unat remaining"   proof -
    have "remaining - of_nat m = 0 \<longleftrightarrow> remaining = of_nat m" by (rule right_minus_eq)
    also have "\<dots> \<longleftrightarrow> m = unat remaining" using n(2) by auto
    finally show ?thesis .
  qed
  show ?thesis
    by (simp only: fat_partial_loop.simps [of "of_nat k" start got remaining out s] ata_read_sector_def wf(1) Let_def
        fat_geometry_simps n(1) r sum.case FAT_SECTOR_TYPE_EOF_def z) (auto simp: n(2) split: sum.splits)
qed

lemma partial_loop_ok:
  assumes "fat_wf s" and "fat_chain s ks" and "unat start < 512" and "unat got + unat remaining = length out" and "length out < 2 ^ 32"
    and "unat start + unat remaining \<le> 512 * length ks"
  shows "\<exists>s'. fat_partial_loop (of_nat (hd ks)) start got remaining out s =
      Some (Inr (take (unat got) out @ take (unat remaining) (drop (unat start) (fat_bytes s ks)), got + remaining, s')) \<and> recached s s'"
  using assms
proof (induction ks arbitrary: s start got remaining out)
  case Nil
  then show ?case by simp
next
  case (Cons k ks)
  define m where "m = min (512 - unat start) (unat remaining)"
  define out' where "out' = take (unat got) out @ take m (drop (unat start) (fdat s k)) @ drop (unat got + m) out"
  have k: "k < 131072" using fat_chain_index [OF Cons.prems(2)] by simp
  have len: "length (fdat s k) = 512" using Cons.prems(1) by (simp add: fdat_def fat_wf_def)
  note step = partial_loop_step [OF Cons.prems(1,3-5) m_def out'_def]
  show ?case
  proof (cases "m = unat remaining")
    case True
    then have "take (unat remaining) (drop (unat start) (fdat s k @ fat_bytes s ks)) = take m (drop (unat start) (fdat s k))"
      using len Cons.prems(3) by (simp add: m_def)
    then show ?thesis
      using step True Cons.prems(4) recached_refl [OF Cons.prems(1)] by (intro exI [of _ s]) (simp add: out'_def)
  next
    case False
    then have m: "m = 512 - unat start" "m < unat remaining" by (simp_all add: m_def min_def split: if_splits)
    then obtain l ls where ks: "ks = l # ls" using Cons.prems(3,6) by (cases ks) auto
    have nx: "fe_next (fent s k) \<noteq> 0" "unat (fe_next (fent s k)) = hd ks" "fat_chain s ks" using Cons.prems(2) ks by auto
    obtain s1 where s1: "fat_follow (of_nat k) s = Inr (ucast (fe_next (fent s k)), s1)" "recached s s1"
      using fat_follow_ok [OF Cons.prems(1) k] by blast
    have w: "unat (of_nat m :: u32) = m" "unat (remaining - of_nat m) = unat remaining - m" "unat (got + of_nat m) = unat got + m"
      using m Cons.prems(4,5) by (simp_all add: unat_of_nat unat_sub word_le_nat_alt unat_word_ariths)
    have lo: "length out' = length out" using len Cons.prems(3,4) m by (simp add: out'_def)
    have "\<exists>s'. fat_partial_loop (of_nat (hd ks)) 0 (got + of_nat m) (remaining - of_nat m) out' s1 =
        Some (Inr (take (unat (got + of_nat m)) out' @ take (unat (remaining - of_nat m)) (drop (unat (0 :: u32)) (fat_bytes s1 ks)),
          got + of_nat m + (remaining - of_nat m), s')) \<and> recached s1 s'"
      by (rule Cons.IH [OF recached_frame(1) [OF s1(2)] recached_chain [OF s1(2) nx(3)]])
        (use w lo m Cons.prems(3-6) in auto)
    then obtain s2 where s2: "fat_partial_loop (of_nat (hd ks)) 0 (got + of_nat m) (remaining - of_nat m) out' s1 =
        Some (Inr (take (unat got + m) out' @ take (unat remaining - m) (fat_bytes s ks), got + remaining, s2))" "recached s1 s2"
      using w recached_frame(4) [OF s1(2)] by auto
    have "take (unat got + m) out' = take (unat got) out @ take m (drop (unat start) (fdat s k))"
      unfolding out'_def by (rule take_shift) (use len m Cons.prems(3,4) in auto)
    moreover have "take (unat remaining) (drop (unat start) (fat_bytes s (k # ks))) =
        take m (drop (unat start) (fdat s k)) @ take (unat remaining - m) (fat_bytes s ks)"
      using len m Cons.prems(3) by simp
    moreover have "(ucast (fe_next (fent s k)) :: u32) = of_nat (hd ks)" using nx(2) by (simp only: link_words(2))
    moreover have "ucast (fe_next (fent s k)) \<noteq> (0 :: u32)" using nx(1) by (simp only: link_words(1) not_False_eq_True)
    ultimately show ?thesis using step False s1(1) s2 recached_trans [OF s1(2)] by auto
  qed
qed

lemma fat_chain_drop: "fat_chain s ks \<Longrightarrow> m < length ks \<Longrightarrow> fat_chain s (drop m ks)"
proof (induction m arbitrary: ks)
  case (Suc m)
  then obtain k l ls where "ks = k # l # ls"
    by (cases ks; cases "tl ks") auto
  then show ?case using Suc by simp
qed simp

lemma fat_bytes_drop:
  assumes "fat_wf s"
  shows "fat_bytes s (drop m ks) = drop (512 * m) (fat_bytes s ks)"
proof (induction ks arbitrary: m)
  case (Cons k ks)
  have "length (fdat s k) = 512" using assms by (simp add: fat_wf_def fdat_def)
  then show ?case using Cons.IH by (cases m) simp_all
qed simp

text \<open>
  C27. A part of a stored file whose length is a multiple of the sector size and that lies inside the file
  is read as exactly those bytes, from any offset, whatever the cache holds: the read returns, the disk
  is untouched and the cache stays coherent with it.
\<close>

theorem partial_read_returns_slice:
  assumes "fat_wf s" and "fat_chain s ks" and "fn_first node = of_nat (hd ks)" and "unat (fn_size node) \<le> 512 * length ks"
    and "unat offset + unat len \<le> unat (fn_size node)" and "0 < unat len" and "unat len mod 512 = 0"
  shows "\<exists>s'. fat_read_file_partial node offset len s =
      Some (Inr (Some (take (unat len) (drop (unat offset) (fat_bytes s ks))), len, s'))
    \<and> fat_wf s' \<and> fat_disk s' = fat_disk s"
proof -
  let ?m = "unat offset div 512" and ?start = "offset mod 512"
  have info: "fat_info s = fat_geometry" using assms(1) by (simp add: fat_wf_def)
  have st: "unat ?start = unat offset mod 512" "unat (offset div 512) = ?m"
    by (simp_all add: unat_mod_distrib unat_div_distrib)
  have m: "?m < length ks" using assms(4-6) by (simp add: div_less_iff_less_mult)
  obtain s1 where s1: "fat_seek (offset div 512) 0 (of_nat (hd ks)) s = Inr (Some (of_nat (ks ! ?m)), s1)" "recached s s1"
    using fat_seek_ok [OF assms(1,2), of "offset div 512" 0 ?m] st(2) m by auto
  have "?start \<le> fn_size node" using st(1) assms(5) mod_less_eq_dividend [of "unat offset" 512] by (simp add: word_le_nat_alt)
  then have sub: "unat (fn_size node - ?start) = unat (fn_size node) - unat ?start" by (simp add: unat_sub)
  have "len \<le> fn_size node - ?start"
    using sub st(1) assms(5) mod_less_eq_dividend [of "unat offset" 512] unfolding word_le_nat_alt by linarith
  then have rem: "min (fn_size node - ?start) len = len" by (rule min.absorb2)
  have aligned: "len mod 512 = 0" using assms(7) by (simp add: word_unat_eq_iff unat_mod_distrib)
  have hd: "hd (drop ?m ks) = ks ! ?m" using m by (simp add: hd_drop_conv_nth)
  have bound: "unat ?start + unat len \<le> 512 * length (drop ?m ks)"
    using st(1) assms(4,5) div_mult_mod_eq [of "unat offset" 512] m unfolding length_drop diff_mult_distrib2 by linarith
  have "unat len < 2 ^ LENGTH(32)" by (rule unsigned_less)
  then have "\<exists>s'. fat_partial_loop (of_nat (hd (drop ?m ks))) ?start 0 len (replicate (unat len) 0) s1 =
      Some (Inr (take (unat (0 :: u32)) (replicate (unat len) 0) @ take (unat len) (drop (unat ?start) (fat_bytes s1 (drop ?m ks))), 0 + len, s'))
      \<and> recached s1 s'"
    by (intro partial_loop_ok recached_frame(1) [OF s1(2)] recached_chain [OF s1(2) fat_chain_drop [OF assms(2) m]] bound)
      (simp_all add: st(1))
  then obtain s2 where s2: "fat_partial_loop (of_nat (ks ! ?m)) ?start 0 len (replicate (unat len) 0) s1 =
      Some (Inr (take (unat len) (drop (unat ?start) (fat_bytes s (drop ?m ks))), len, s2))" "recached s1 s2"
    using hd recached_frame(4) [OF s1(2)] by auto
  have "drop (unat ?start) (fat_bytes s (drop ?m ks)) = drop (unat offset) (fat_bytes s ks)"
    using fat_bytes_drop [OF assms(1)] st(1) by simp
  moreover have "recached s s2" by (rule recached_trans [OF s1(2) s2(2)])
  ultimately show ?thesis
    using s1(1) s2(1) info rem aligned assms(3) by (auto simp: fat_read_file_partial_def Let_def recached_def)
qed

section \<open>Directories, and where the format gives out\<close>

text \<open>A new directory is recorded in its parent and has only free slots.\<close>

lemma created_directory_is_empty:
  assumes "fat_wf s" and "d < 131072" and "fat_allocated s d"
    and "f < 16" and "de_first (slot_at (fdat s d) f) = 0" and "\<forall>j < f. de_first (slot_at (fdat s d) j) \<noteq> 0"
    and "fat_free s \<noteq> {}"
  shows "\<exists>k s'. fat_create_dir_or_file (fat_info s) (of_nat d) True name ext len data s = Inr (of_nat k, s') \<and> fat_wf s'
    \<and> k \<in> fat_free s \<and> k \<noteq> 0 \<and> fat_allocated s' k \<and> (\<forall>j < 16. de_first (slot_at (fdat s' k) j) = 0)
    \<and> de_is_directory (slot_at (fdat s' d) f) \<and> de_filename (slot_at (fdat s' d) f) = put_name 8 name
    \<and> de_first (slot_at (fdat s' d) f) = of_nat k \<and> de_size (slot_at (fdat s' d) f) = 512
    \<and> (\<forall>j < 16. j \<noteq> f \<longrightarrow> slot_at (fdat s' d) j = slot_at (fdat s d) j)"
proof -
  have info: "fat_info s = fat_geometry" using assms(1) by (simp add: fat_wf_def)
  obtain k s1 where k: "fat_alloc_sector fat_geometry 0 s = Inr (of_nat k, s1)" "fat_adds [k] s s1"
    "fdat s1 k = replicate 512 0" "k \<in> fat_free s" "k \<noteq> 0"
    using alloc_adds [OF assms(1,7), of 0] by metis
  have kl: "k < 65536" "\<not> fat_allocated s k" and wf1: "fat_wf s1" using k(2,4) by (auto simp: fat_free_def fat_adds_def)
  have w: "fat_write_sectors fat_geometry True data (512 div 512 + (if 512 mod 512 \<noteq> (0 :: u32) then 1 else 0)) 0 0
      (if 512 mod 512 \<noteq> (0 :: u32) then 512 mod 512 else 512) (uint (512 :: u32) - uint (if 512 mod 512 \<noteq> (0 :: u32) then 512 mod 512 else 512 :: u32)) s
      = Inr (of_nat k, s1)"
    using k(1) info by (simp add: fat_write_sectors.simps)
  obtain s' where s': "fat_create_dir_or_file (fat_info s) (of_nat d) True name ext len data s = Inr (of_nat k, s')" "fat_wf s'"
    "\<forall>l < 131072. fent s' l = fent s1 l" "\<forall>l < 131072. l \<noteq> d \<longrightarrow> fdat s' l = fdat s1 l"
    "slot_at (fdat s' d) f = \<lparr>de_is_directory = True, de_filename = put_name 8 name, de_ext = de_ext (slot_at (fdat s d) f),
       de_first = of_nat k, de_size = 512\<rparr>"
    "\<forall>j < 16. j \<noteq> f \<longrightarrow> slot_at (fdat s' d) j = slot_at (fdat s d) j"
    using create_ok [OF assms(1-6) _ refl refl w wf1 kl(1), where name = name and ext = ext and len = len] by auto
  have "k \<noteq> d" using kl assms(3) by auto
  then have "fdat s' k = replicate 512 0" using s'(4) k(3) kl(1) by simp
  then have "de_first (slot_at (fdat s' k) j) = 0" if "j < 16" for j
    using that by (simp add: slot_at_def part_def numeral_2_eq_2)
  then show ?thesis using s' k(2,4,5) kl(1) by (intro exI [of _ k] exI [of _ s']) (auto simp: fat_adds_def)
qed

text \<open>
  A file without data takes no entry: its slot is written with the name but with first entry 0, so it still
  counts as free and the next creation in the directory overwrites it.
\<close>

lemma empty_file_leaves_slot_free:
  assumes "fat_wf s" and "d < 131072" and "fat_allocated s d"
    and "f < 16" and "de_first (slot_at (fdat s d) f) = 0" and "\<forall>j < f. de_first (slot_at (fdat s d) j) \<noteq> 0"
  shows "\<exists>s'. fat_create_dir_or_file (fat_info s) (of_nat d) False name ext 0 [] s = Inr (0, s') \<and> fat_wf s'
    \<and> de_filename (slot_at (fdat s' d) f) = put_name 8 name \<and> de_first (slot_at (fdat s' d) f) = 0"
proof -
  have w: "fat_write_sectors fat_geometry False [] (0 div 512 + (if 0 mod 512 \<noteq> (0 :: u32) then 1 else 0)) 0 0
      (if 0 mod 512 \<noteq> (0 :: u32) then 0 mod 512 else 512) (uint (0 :: u32) - uint (if 0 mod 512 \<noteq> (0 :: u32) then 0 mod 512 else 512 :: u32)) s
      = Inr (of_nat 0, s)"
    by (simp add: fat_write_sectors.simps)
  show ?thesis
    using create_ok [OF assms(1-6) _ refl refl w assms(1), where name = name and ext = ext and len = 0] by auto
qed

text \<open>
  The table has 131072 entries but a link has 16 bits: once the first 65536 entries are taken, the entry a
  file is continued in is recorded modulo 65536, so the chain leads into another file.
\<close>

lemma link_is_truncated:
  assumes "fat_wf s" and "k < 131072" and "\<not> fat_allocated s k" and "\<forall>l < k. fat_allocated s l" and "65536 \<le> n" and "n < 131072"
  shows "\<exists>s'. fat_alloc_sector fat_geometry (of_nat n) s = Inr (of_nat k, s') \<and> unat (fe_next (fent s' k)) = n - 65536"
proof -
  obtain s' where s': "fat_alloc_sector fat_geometry (of_nat n) s = Inr (of_nat k, s')" "allocates k (ucast (of_nat n :: u32)) s s'"
    using alloc_loop_ok [OF assms(1-4), of 0 "of_nat n"] by (auto simp: fat_alloc_sector_def)
  have "unat (ucast (of_nat n :: u32) :: u16) = n - 65536"
    using assms(5,6) by (simp add: unsigned_ucast_eq unat_of_nat take_bit_eq_mod mod_mod_cancel le_mod_geq)
  then show ?thesis using s' assms(2) by (simp add: allocates_def)
qed

text \<open>
  The entries also reach past the disk: the data sector of an entry is offset by the 1025 sectors of the boot
  sector and the table, while the table has as many entries as the disk has sectors.
\<close>

lemma last_entries_lie_beyond_disk:
  assumes "130047 \<le> k" and "k < 131072"
  shows "fd_sectors_on_disk fat_geometry \<le> data_sector k"
  using assms unat_sectors(2) [OF assms(2)] by (simp add: word_le_nat_alt fat_geometry_def)

section \<open>A freshly formatted drive\<close>

definition blank_drive :: fat_state where
  "blank_drive = \<lparr>fat_disk = \<lambda>_. replicate 512 0, fat_info = fat_geometry, fat_cache = None, fat_last_sector = 1\<rparr>"

lemma fresh_fs:
  obtains s where "fat_wf s" "\<forall>k < 131072. fat_allocated s k \<longleftrightarrow> k = 0" "fe_next (fent s 0) = 0" "fdat s 0 = replicate 512 0"
  using format_gives_empty_fs [of blank_drive] by (auto simp: blank_drive_def)

lemma fresh_free:
  assumes "\<forall>k < 131072. fat_allocated s k \<longleftrightarrow> k = 0"
  shows "card (fat_free s) = 65535"
proof -
  have "fat_free s = {1 ..< 65536}" using assms by (auto simp: fat_free_def)
  then show ?thesis by simp
qed

lemma blank_slot: "de_first (slot_at (replicate 512 0) 0) = 0"
  by (simp add: slot_at_def part_def numeral_2_eq_2)

theorem created_file_reads_back_witness:
  "\<exists>s idx s'. fat_wf s \<and> fat_create_dir_or_file (fat_info s) 0 False ''note'' ''txt'' 3 [7, 8, 9] s = Inr (idx, s')
    \<and> fat_read_file \<lparr>fn_first = idx, fn_size = 3\<rparr> 0 s' = Some (Inr ([7, 8, 9], 0))"
proof -
  obtain s where s: "fat_wf s" "\<forall>k < 131072. fat_allocated s k \<longleftrightarrow> k = 0" "fdat s 0 = replicate 512 0"
    by (rule fresh_fs)
  show ?thesis
    using created_file_reads_back [of s 0 0 "[7, 8, 9]" "''note''" "''txt''" 0] s fresh_free [OF s(2)] blank_slot by auto
qed

theorem partial_read_returns_slice_witness:
  "\<exists>s s'. fat_wf s \<and> fat_read_file_partial \<lparr>fn_first = 0, fn_size = 512\<rparr> 0 512 s = Some (Inr (Some (replicate 512 0), 512, s')) \<and> fat_wf s'"
proof -
  obtain s where s: "fat_wf s" "\<forall>k < 131072. fat_allocated s k \<longleftrightarrow> k = 0" "fe_next (fent s 0) = 0" "fdat s 0 = replicate 512 0"
    by (rule fresh_fs)
  show ?thesis
    using partial_read_returns_slice [of s "[0]" "\<lparr>fn_first = 0, fn_size = 512\<rparr>" 0 512] s by auto
qed

end
