(* ===== verification/Vfs.thy ===== *)
theory Vfs
  imports Fat_Files
begin

text \<open>
  The file manager (\<^verbatim>\<open>programs/subprojects/file_manager\<close>): the tree of file nodes and its paths
  (\<^verbatim>\<open>vfs.c\<close>, \<^verbatim>\<open>util.c\<close>), the nodes of the FAT file system (\<^verbatim>\<open>fat.c\<close>) and of the ramdisk (\<^verbatim>\<open>initrd.c\<close>), and the
  handler of requests (\<^verbatim>\<open>file_manager.c\<close>).

  Nodes live in an explicit heap and point to their parent and, through the array of children, to their
  children. The private fields of FAT and ramdisk nodes overlap in the C union; every access to them is
  guarded by the node's type, so they are separate fields here. A name that fills its 64 bytes has no
  terminator, and comparing it reads beyond it. The ramdisk is a buffer at the address the kernel reports.
\<close>

subsection \<open>Nodes\<close>

datatype fs_node_type = FS_NODE_TYPE_BASE | FS_NODE_TYPE_ROOT | FS_NODE_TYPE_INITRD | FS_NODE_TYPE_FAT

type_synonym node_addr = nat

record fs_node =
  nd_type :: fs_node_type
  nd_name :: string
  nd_parent :: "node_addr option"
  nd_is_directory :: bool
  nd_children :: "node_addr array_t option"
  nd_fat :: fat_node
  nd_initrd_offset :: u64
  nd_initrd_size :: u32

datatype fm_message =
    FileData u32 "u8 list"
  | PartialData u32 "u8 list"
  | CreateResult bool
  | ExistsResult string bool u32
  | ExecBuffer string u64 u32

record vfs_state =
  vs_nodes :: "node_addr \<rightharpoonup> fs_node"
  vs_fresh :: node_addr
  vs_root :: "node_addr option"
  vs_fat :: fat_state
  vs_initrd_start :: u64
  vs_initrd :: "u8 list"
  vs_outbox :: "(string \<times> fm_message) list"

definition node_cstr :: "fs_node \<Rightarrow> string res" where
  "node_cstr nd = (if length (nd_name nd) < 64 then Inr (nd_name nd) else Inl OutOfBounds)"

definition upd_node :: "node_addr \<Rightarrow> (fs_node \<Rightarrow> fs_node) \<Rightarrow> vfs_state \<Rightarrow> vfs_state res" where
  "upd_node p f s = ebind (load (vs_nodes s) p) (\<lambda>nd. Inr (s\<lparr>vs_nodes := (vs_nodes s)(p \<mapsto> f nd)\<rparr>))"

definition vfs_add_child :: "node_addr option \<Rightarrow> node_addr \<Rightarrow> vfs_state \<Rightarrow> vfs_state res" where
  "vfs_add_child parent child s = (case parent of
     None \<Rightarrow> Inr s
   | Some p \<Rightarrow>
      ebind (load (vs_nodes s) p) (\<lambda>nd.
      ebind (deref (nd_children nd)) (\<lambda>c.
      ebind (array_insert c child) (\<lambda>c. upd_node p (nd_children_update (\<lambda>_. Some c)) s))))"

definition fs_node_create :: "bool \<Rightarrow> node_addr option \<Rightarrow> string \<Rightarrow> nat \<Rightarrow> vfs_state \<Rightarrow> (node_addr \<times> vfs_state) res" where
  "fs_node_create is_directory parent name name_len s =
     (let p = vs_fresh s;
          nd = \<lparr>nd_type = FS_NODE_TYPE_BASE, nd_name = [], nd_parent = parent, nd_is_directory = is_directory,
            nd_children = (if is_directory then Some (array_create 128) else None), nd_fat = \<lparr>fn_first = 0, fn_size = 0\<rparr>,
            nd_initrd_offset = 0, nd_initrd_size = 0\<rparr>;
          s = s\<lparr>vs_nodes := (vs_nodes s)(p \<mapsto> nd), vs_fresh := Suc p\<rparr> in
      ebind (vfs_add_child parent p s) (\<lambda>s.
      if name_len > 64 then Inl OutOfBounds
      else ebind (upd_node p (nd_name_update (\<lambda>_. take name_len name)) s) (\<lambda>s. Inr (p, s))))"

definition fs_node_create_directory :: "node_addr option \<Rightarrow> string \<Rightarrow> nat \<Rightarrow> vfs_state \<Rightarrow> (node_addr \<times> vfs_state) res" where
  "fs_node_create_directory = fs_node_create True"

definition fs_node_create_file :: "node_addr option \<Rightarrow> string \<Rightarrow> nat \<Rightarrow> vfs_state \<Rightarrow> (node_addr \<times> vfs_state) res" where
  "fs_node_create_file = fs_node_create False"

subsection \<open>Splitting a path\<close>

text \<open>\<^verbatim>\<open>strtok\<close>: the maximal runs of other characters.\<close>

function tokens :: "char \<Rightarrow> string \<Rightarrow> string list" where
  "tokens d str = (let rest = dropWhile (\<lambda>c. c = d) str in
     if rest = [] then [] else takeWhile (\<lambda>c. c \<noteq> d) rest # tokens d (dropWhile (\<lambda>c. c \<noteq> d) rest))"
  by pat_completeness auto
termination
proof (relation "measure (\<lambda>(d, str). length str)", goal_cases)
  case (2 d str rest)
  obtain x xs where r: "rest = x # xs" using 2(2) by (cases rest) auto
  have "hd rest \<noteq> d" using hd_dropWhile [of "\<lambda>c. c = d" str] 2 by simp
  then have "x \<noteq> d" using r by simp
  then have "length (dropWhile (\<lambda>c. c \<noteq> d) rest) < length rest"
    using r length_dropWhile_le [of "\<lambda>c. c \<noteq> d" xs] by simp
  moreover have "length rest \<le> length str" unfolding 2(1) by (rule length_dropWhile_le)
  ultimately show ?case by simp
qed simp

declare tokens.simps [simp del]

fun insert_each :: "string array_t \<Rightarrow> string list \<Rightarrow> string array_t res" where
  "insert_each a [] = Inr a"
| "insert_each a (t # ts) = ebind (array_insert a t) (\<lambda>a. insert_each a ts)"

text \<open>
  The size of the array: the number of delimiters, plus one unless the last character is one. (Without a
  delimiter \<^verbatim>\<open>last_delim\<close> is NULL, which is below every address of the string.)
\<close>

definition split_count :: "string \<Rightarrow> char \<Rightarrow> nat" where
  "split_count str d = length (filter (\<lambda>c. c = d) str) + (if str \<noteq> [] \<and> last str = d then 0 else 1)"

definition str_split :: "string \<Rightarrow> char \<Rightarrow> string array_t res" where
  "str_split str d = insert_each (array_create (int (split_count str d))) (tokens d str)"

subsection \<open>Looking up a path\<close>

definition VFS_MAX_PATH_LENGTH :: nat where "VFS_MAX_PATH_LENGTH = 128"

definition strncmp_eq :: "nat \<Rightarrow> string \<Rightarrow> string \<Rightarrow> bool" where
  "strncmp_eq n a b \<longleftrightarrow> take n a = take n b"

text \<open>The loop over the children of a directory from \<open>i\<close> on; the path components are not changed and are a list.\<close>

function vfs_find_from :: "string list \<Rightarrow> node_addr array_t \<Rightarrow> int \<Rightarrow> vfs_state \<Rightarrow> node_addr option res" where
  "vfs_find_from path_components children i s =
     (if i < at_size children
      then ebind (array_lookup children i) (\<lambda>c.
        ebind (deref c) (\<lambda>n.
        ebind (load (vs_nodes s) n) (\<lambda>nd.
        if path_components = [] then Inl (TaskAssert ''index was out of bounds'')
        else ebind (node_cstr nd) (\<lambda>name.
          if strncmp_eq VFS_MAX_PATH_LENGTH (hd path_components) name then
            if length path_components = 1 then Inr (Some n)
            else if nd_is_directory nd then
              ebind (deref (nd_children nd)) (\<lambda>c. vfs_find_from (tl path_components) c 0 s)
            else vfs_find_from path_components children (i + 1) s
          else vfs_find_from path_components children (i + 1) s))))
      else Inr None)"
  by pat_completeness auto
termination
  by (relation "measures [\<lambda>(p, c, i, s). length p, \<lambda>(p, c, i, s). nat (at_size c - i)]") auto

declare vfs_find_from.simps [simp del]

definition vfs_find_node_by_path_components_in_directory :: "node_addr \<Rightarrow> string list \<Rightarrow> vfs_state \<Rightarrow> node_addr option res" where
  "vfs_find_node_by_path_components_in_directory directory path_components s =
     ebind (load (vs_nodes s) directory) (\<lambda>nd.
     ebind (deref (nd_children nd)) (\<lambda>c. vfs_find_from path_components c 0 s))"

definition vfs_find_node_by_path :: "string \<Rightarrow> vfs_state \<Rightarrow> node_addr option res" where
  "vfs_find_node_by_path path s =
     ebind (deref (vs_root s)) (\<lambda>root.
     ebind (load (vs_nodes s) root) (\<lambda>nd.
     ebind (node_cstr nd) (\<lambda>name.
     if strncmp_eq VFS_MAX_PATH_LENGTH path name then Inr (Some root)
     else ebind (str_split path CHR ''/'') (\<lambda>components.
       vfs_find_node_by_path_components_in_directory root (at_list components) s))))"

text \<open>The unwrapping lookups read the type of the node found, also when none was found.\<close>

definition vfs_find_typed :: "fs_node_type \<Rightarrow> string \<Rightarrow> string \<Rightarrow> vfs_state \<Rightarrow> node_addr res" where
  "vfs_find_typed ty msg path s =
     ebind (vfs_find_node_by_path path s) (\<lambda>node.
     ebind (deref node) (\<lambda>n.
     ebind (load (vs_nodes s) n) (\<lambda>nd. if nd_type nd = ty then Inr n else Inl (TaskAssert msg))))"

definition vfs_find_node_by_path_fat :: "string \<Rightarrow> vfs_state \<Rightarrow> node_addr res" where
  "vfs_find_node_by_path_fat = vfs_find_typed FS_NODE_TYPE_FAT ''Expected FAT node!''"

definition vfs_find_node_by_path_initrd :: "string \<Rightarrow> vfs_state \<Rightarrow> node_addr res" where
  "vfs_find_node_by_path_initrd = vfs_find_typed FS_NODE_TYPE_INITRD ''Expected initrd node!''"

definition fat_mount_point :: "vfs_state \<Rightarrow> node_addr res" where
  "fat_mount_point = vfs_find_node_by_path_fat ''/hdd/''"

subsection \<open>The path of a node\<close>

text \<open>\<^verbatim>\<open>snprintf(path, VFS_MAX_PATH_LENGTH, "%s/%s", path, component)\<close>, with \<^verbatim>\<open>path\<close> as source and destination.\<close>

definition append_component :: "string \<Rightarrow> string \<Rightarrow> string" where
  "append_component path component = take (VFS_MAX_PATH_LENGTH - 1) (path @ ''/'' @ component)"

partial_function (option) path_components_up :: "fs_node \<Rightarrow> string array_t \<Rightarrow> vfs_state \<Rightarrow> string array_t res option" where
  "path_components_up nd components s =
     (case nd_parent nd of
        None \<Rightarrow> Some (Inr components)
      | Some p \<Rightarrow>
          (case ebind (node_cstr nd) (\<lambda>name. ebind (array_insert components name) (\<lambda>c. ebind (load (vs_nodes s) p) (\<lambda>pd. Inr (c, pd)))) of
             Inl e \<Rightarrow> Some (Inl e)
           | Inr (c, pd) \<Rightarrow> path_components_up pd c s))"

definition vfs_path_for_node :: "node_addr \<Rightarrow> vfs_state \<Rightarrow> string res option" where
  "vfs_path_for_node node s =
     (if vs_root s = Some node then Some (Inr ''/'')
      else (case load (vs_nodes s) node of
          Inl e \<Rightarrow> Some (Inl e)
        | Inr nd \<Rightarrow> map_option (\<lambda>r. ebind r (\<lambda>components. Inr (foldl append_component [] (rev (at_list components)))))
            (path_components_up nd (array_create 64) s)))"

subsection \<open>Nodes of the FAT file system\<close>

definition with_fat :: "(fat_state \<Rightarrow> ('a \<times> fat_state) res) \<Rightarrow> vfs_state \<Rightarrow> ('a \<times> vfs_state) res" where
  "with_fat f s = ebind (f (vs_fat s)) (\<lambda>(x, fs). Inr (x, s\<lparr>vs_fat := fs\<rparr>))"

definition FAT_FILENAME_SIZE :: nat where "FAT_FILENAME_SIZE = 8"
definition FAT_FILE_EXT_SIZE :: nat where "FAT_FILE_EXT_SIZE = 3"

definition set_fat_node :: "node_addr \<Rightarrow> u32 \<Rightarrow> u32 \<Rightarrow> vfs_state \<Rightarrow> vfs_state res" where
  "set_fat_node n first sz s = upd_node n (\<lambda>nd. nd\<lparr>nd_type := FS_NODE_TYPE_FAT, nd_fat := \<lparr>fn_first = first, fn_size = sz\<rparr>\<rparr>) s"

definition fat_create_directory :: "node_addr \<Rightarrow> string \<Rightarrow> vfs_state \<Rightarrow> (node_addr \<times> vfs_state) res" where
  "fat_create_directory parent filename s =
     ebind (load (vs_nodes s) parent) (\<lambda>pd.
     if nd_type pd \<noteq> FS_NODE_TYPE_FAT then Inl (TaskAssert ''Can only create a FAT directory within another FAT directory'')
     else ebind (with_fat (\<lambda>fs. fat_create_dir_or_file (fat_info fs) (fn_first (nd_fat pd)) True filename [] 0 [] fs) s) (\<lambda>(first, s).
       let fat_filename = take FAT_FILENAME_SIZE filename in
       ebind (fs_node_create_directory (Some parent) fat_filename (length fat_filename) s) (\<lambda>(n, s).
       ebind (set_fat_node n first (fd_sector_size (fat_info (vs_fat s))) s) (\<lambda>s. Inr (n, s)))))"

text \<open>The precision of the name is \<^verbatim>\<open>sizeof(FAT_FILENAME_SIZE)\<close>, the size of an \<^verbatim>\<open>int\<close>.\<close>

definition fat_create_file :: "node_addr \<Rightarrow> string \<Rightarrow> string \<Rightarrow> u32 \<Rightarrow> u8 list \<Rightarrow> vfs_state \<Rightarrow> (node_addr \<times> vfs_state) res" where
  "fat_create_file parent filename ext file_len file_data s =
     ebind (load (vs_nodes s) parent) (\<lambda>pd.
     if nd_type pd \<noteq> FS_NODE_TYPE_FAT then Inl (TaskAssert ''Can only create a FAT file within a FAT directory'')
     else ebind (with_fat (\<lambda>fs. fat_create_dir_or_file (fat_info fs) (fn_first (nd_fat pd)) False filename ext file_len file_data fs) s) (\<lambda>(first, s).
       let fat_filename = take 31 (take 4 filename @ ''.'' @ take 4 ext) in
       ebind (fs_node_create_file (Some parent) fat_filename (length fat_filename) s) (\<lambda>(n, s).
       ebind (set_fat_node n first file_len s) (\<lambda>s. Inr (n, s)))))"

text \<open>\<^verbatim>\<open>%.*s\<close> of a character array: up to the first zero byte.\<close>

definition array_cstr :: "u8 list \<Rightarrow> string" where
  "array_cstr b = map char_at (takeWhile (\<lambda>x. x \<noteq> 0) b)"

definition parse_node_from_fat_entry :: "node_addr \<Rightarrow> fat_directory_entry_t \<Rightarrow> vfs_state \<Rightarrow> (node_addr \<times> vfs_state) res" where
  "parse_node_from_fat_entry parent e s =
     (let full_filename = (if de_is_directory e then array_cstr (de_filename e)
            else array_cstr (de_filename e) @ ''.'' @ array_cstr (de_ext e)) in
      ebind ((if de_is_directory e then fs_node_create_directory else fs_node_create_file) (Some parent) full_filename (length full_filename) s) (\<lambda>(n, s).
      ebind (set_fat_node n (ucast (de_first e)) (de_size e) s) (\<lambda>s. Inr (n, s))))"

text \<open>
  Parsing a directory: \<open>todo\<close> holds the sector, the number of slots and the next slot of each directory that is
  being parsed, the innermost first, which is the call stack of \<^verbatim>\<open>_parse_fat_directory\<close>. A directory on the disk
  that contains itself makes the recursion endless.
\<close>

record dir_frame =
  df_node :: node_addr
  df_sector :: "u8 list"
  df_count :: u32
  df_slot :: u32

partial_function (option) parse_fat_directories :: "dir_frame list \<Rightarrow> vfs_state \<Rightarrow> vfs_state res option" where
  "parse_fat_directories todo s =
     (case todo of
        [] \<Rightarrow> Some (Inr s)
      | f # rest \<Rightarrow>
          if df_slot f < df_count f then
            (case get_slot (df_sector f) (df_slot f) of
               Inl e \<Rightarrow> Some (Inl e)
             | Inr e \<Rightarrow>
                 if de_first e = FAT_SECTOR_TYPE_EOF then parse_fat_directories (f\<lparr>df_slot := df_slot f + 1\<rparr> # rest) s
                 else (case parse_node_from_fat_entry (df_node f) e s of
                     Inl e \<Rightarrow> Some (Inl e)
                   | Inr (n, s) \<Rightarrow>
                       if de_is_directory e
                       then parse_fat_directories
                         (\<lparr>df_node = n, df_sector = ata_read_sector (fd_fat_sector_slide (fat_info (vs_fat s)) + ucast (de_first e)) (vs_fat s),
                           df_count = de_size e div 32, df_slot = 0\<rparr> # f\<lparr>df_slot := df_slot f + 1\<rparr> # rest) s
                       else parse_fat_directories (f\<lparr>df_slot := df_slot f + 1\<rparr> # rest) s))
          else parse_fat_directories rest s)"

definition fat_parse_from_disk :: "node_addr \<Rightarrow> vfs_state \<Rightarrow> (node_addr \<times> vfs_state) res option" where
  "fat_parse_from_disk root s =
     (let s = s\<lparr>vs_fat := fat_set_drive_info (vs_fat s)\<rparr>; di = fat_info (vs_fat s);
          sector = ata_read_sector (fd_root_directory_head_sector di) (vs_fat s) in
      case ebind (fs_node_create_directory (Some root) ''hdd'' 3 s) (\<lambda>(n, s). ebind (set_fat_node n 0 (fd_sector_size di) s) (\<lambda>s. Inr (n, s))) of
        Inl e \<Rightarrow> Some (Inl e)
      | Inr (n, s) \<Rightarrow>
          map_option (\<lambda>r. ebind r (\<lambda>s. ebind (fat_cache_create (vs_fat s)) (\<lambda>fs. Inr (n, s\<lparr>vs_fat := fs\<rparr>))))
            (parse_fat_directories [\<lparr>df_node = n, df_sector = sector, df_count = fd_sector_size di div 32, df_slot = 0\<rparr>] s))"

subsection \<open>The ramdisk\<close>

text \<open>A header holds the number of files, then 76 bytes per file: magic, name, offset and length.\<close>

function initrd_parse_files :: "u32 \<Rightarrow> u32 \<Rightarrow> node_addr \<Rightarrow> vfs_state \<Rightarrow> vfs_state res" where
  "initrd_parse_files nfiles i root s =
     (if i < nfiles
      then let off = 4 + 76 * unat i in
        ebind (get_le 1 (vs_initrd s) off) (\<lambda>magic :: u8.
        if magic \<noteq> 0xBF then Inl (TaskAssert ''Initrd file header magic was wrong'')
        else ebind (field (vs_initrd s) (off + 1) 64) (\<lambda>name.
          ebind (get_le 4 (vs_initrd s) (off + 68)) (\<lambda>offset :: u32.
          ebind (get_le 4 (vs_initrd s) (off + 72)) (\<lambda>len :: u32.
          if 0 \<notin> set name then Inl OutOfBounds
          else ebind (fs_node_create_file (Some root) (array_cstr name) (length (array_cstr name)) s) (\<lambda>(n, s).
            ebind (upd_node n (\<lambda>nd. nd\<lparr>nd_type := FS_NODE_TYPE_INITRD, nd_initrd_offset := ucast offset + vs_initrd_start s,
              nd_initrd_size := len\<rparr>) s) (\<lambda>s.
            initrd_parse_files nfiles (i + 1) root s))))))
      else Inr s)"
  by pat_completeness auto
termination
  by (relation "measure (\<lambda>(n, i, r, s). unat n - unat i)") (auto intro: word_loop_measure)

declare initrd_parse_files.simps [simp del]

definition initrd_parse_from_amc :: "node_addr \<Rightarrow> vfs_state \<Rightarrow> (node_addr \<times> vfs_state) res" where
  "initrd_parse_from_amc root s =
     ebind (fs_node_create_directory (Some root) ''initrd'' 6 s) (\<lambda>(n, s).
     ebind (get_le 4 (vs_initrd s) 0) (\<lambda>nfiles.
     ebind (initrd_parse_files nfiles 0 n s) (\<lambda>s. Inr (n, s))))"

definition initrd_read_file :: "fs_node \<Rightarrow> vfs_state \<Rightarrow> (u8 list \<times> u32) res" where
  "initrd_read_file nd s =
     ebind (field (vs_initrd s) (unat (nd_initrd_offset nd - vs_initrd_start s)) (unat (nd_initrd_size nd))) (\<lambda>d.
     Inr (d, nd_initrd_size nd))"

subsection \<open>Requests\<close>

definition vfs_launch_program_by_node :: "node_addr \<Rightarrow> vfs_state \<Rightarrow> vfs_state res" where
  "vfs_launch_program_by_node n s =
     ebind (load (vs_nodes s) n) (\<lambda>nd.
     if nd_type nd \<noteq> FS_NODE_TYPE_INITRD then Inl (TaskAssert ''Can only launch initrd programs'')
     else ebind (node_cstr nd) (\<lambda>name.
       Inr (s\<lparr>vs_outbox := vs_outbox s @ [(''com.axle.core'', ExecBuffer name (nd_initrd_offset nd) (nd_initrd_size nd))]\<rparr>)))"

definition vfs_create_directory :: "string \<Rightarrow> vfs_state \<Rightarrow> (bool \<times> vfs_state) res" where
  "vfs_create_directory path s =
     ebind (vfs_find_node_by_path path s) (\<lambda>found.
     if found \<noteq> None then Inr (False, s)
     else ebind (str_split path CHR ''/'') (\<lambda>components.
       ebind (array_lookup components 0) (\<lambda>c0.
       ebind (deref c0) (\<lambda>first.
       if \<not> strncmp_eq 3 first ''hdd'' then Inr (False, s)
       else let parent_path = foldl append_component [] (butlast (at_list components)) in
         ebind (vfs_find_node_by_path_fat parent_path s) (\<lambda>parent.
         ebind (array_lookup components (at_size components - 1)) (\<lambda>l.
         ebind (deref l) (\<lambda>filename.
         ebind (fat_create_directory parent filename s) (\<lambda>(n, s). Inr (True, s)))))))))"

datatype fm_request =
    ReadFile string
  | ReadFilePartial u32 u32 string
  | LaunchFile string
  | CreateDirectory string
  | CheckFileExists string

definition fm_send :: "string \<Rightarrow> fm_message \<Rightarrow> vfs_state \<Rightarrow> vfs_state" where
  "fm_send dest m s = s\<lparr>vs_outbox := vs_outbox s @ [(dest, m)]\<rparr>"

definition find_existing :: "string \<Rightarrow> vfs_state \<Rightarrow> fs_node res" where
  "find_existing path s =
     ebind (vfs_find_node_by_path path s) (\<lambda>node. case node of
       None \<Rightarrow> Inl (TaskAssert ''Failed to find requested file'')
     | Some n \<Rightarrow> load (vs_nodes s) n)"

definition fm_read_file :: "string \<Rightarrow> string \<Rightarrow> vfs_state \<Rightarrow> vfs_state res option" where
  "fm_read_file source path s =
     (case find_existing path s of
        Inl e \<Rightarrow> Some (Inl e)
      | Inr nd \<Rightarrow>
          map_option (\<lambda>r. ebind r (\<lambda>(file_data, file_size).
              ebind (field file_data 0 (unat file_size)) (\<lambda>d. Inr (fm_send source (FileData file_size d) s))))
            (case nd_type nd of
               FS_NODE_TYPE_INITRD \<Rightarrow> Some (initrd_read_file nd s)
             | FS_NODE_TYPE_FAT \<Rightarrow> fat_read_file (nd_fat nd) 0 (vs_fat s)
             | _ \<Rightarrow> Some (Inl (TaskAssert ''Unknown file type''))))"

definition fm_read_file_partial :: "string \<Rightarrow> u32 \<Rightarrow> u32 \<Rightarrow> string \<Rightarrow> vfs_state \<Rightarrow> vfs_state res option" where
  "fm_read_file_partial source offset len path s =
     (case find_existing path s of
        Inl e \<Rightarrow> Some (Inl e)
      | Inr nd \<Rightarrow>
          if nd_type nd \<noteq> FS_NODE_TYPE_FAT then Some (Inl (TaskAssert ''Only supported for FAT at the moment''))
          else map_option (\<lambda>r. ebind r (\<lambda>(file_data, out_length, fs).
              ebind (case file_data of None \<Rightarrow> if out_length = 0 then Inr [] else Inl NullDeref | Some d \<Rightarrow> field d 0 (unat out_length)) (\<lambda>d.
              Inr (fm_send source (PartialData out_length d) (s\<lparr>vs_fat := fs\<rparr>)))))
            (fat_read_file_partial (nd_fat nd) offset len (vs_fat s)))"

definition fm_check_file_exists :: "string \<Rightarrow> string \<Rightarrow> vfs_state \<Rightarrow> vfs_state res" where
  "fm_check_file_exists source path s =
     ebind (vfs_find_node_by_path path s) (\<lambda>node.
     ebind (case node of None \<Rightarrow> Inr 0
        | Some n \<Rightarrow> ebind (load (vs_nodes s) n) (\<lambda>nd. Inr (case nd_type nd of
              FS_NODE_TYPE_FAT \<Rightarrow> fn_size (nd_fat nd) | FS_NODE_TYPE_INITRD \<Rightarrow> nd_initrd_size nd | _ \<Rightarrow> 0))) (\<lambda>sz.
     Inr (fm_send source (ExistsResult (take 127 path) (node \<noteq> None) sz) s)))"

definition fm_message_received :: "string \<Rightarrow> fm_request \<Rightarrow> vfs_state \<Rightarrow> vfs_state res option" where
  "fm_message_received source req s = (case req of
     ReadFile path \<Rightarrow> fm_read_file source path s
   | ReadFilePartial offset len path \<Rightarrow> fm_read_file_partial source offset len path s
   | LaunchFile path \<Rightarrow> Some (ebind (vfs_find_node_by_path_initrd path s) (\<lambda>n. vfs_launch_program_by_node n s))
   | CreateDirectory path \<Rightarrow>
       Some (ebind (vfs_create_directory path s) (\<lambda>(success, s). Inr (fm_send source (CreateResult success) s)))
   | CheckFileExists path \<Rightarrow> Some (fm_check_file_exists source path s))"

section \<open>Splitting\<close>

lemma tokens_step:
  "tokens d str = (if dropWhile (\<lambda>c. c = d) str = [] then []
     else takeWhile (\<lambda>c. c \<noteq> d) (dropWhile (\<lambda>c. c = d) str) # tokens d (dropWhile (\<lambda>c. c \<noteq> d) (dropWhile (\<lambda>c. c = d) str)))"
  by (simp add: tokens.simps [of d str] Let_def)

lemma tokens_delim: "tokens d (d # str) = tokens d str"
  by (simp add: tokens_step [of d "d # str"] tokens_step [of d str])

lemma tokens_word:
  assumes "t \<noteq> []" and "d \<notin> set t" and "str = [] \<or> hd str = d"
  shows "tokens d (t @ str) = t # tokens d str"
proof -
  have drop: "dropWhile (\<lambda>c. c = d) (t @ str) = t @ str" using assms(1,2) by (cases t) auto
  have "takeWhile (\<lambda>c. c \<noteq> d) (t @ str) = t" "dropWhile (\<lambda>c. c \<noteq> d) (t @ str) = str"
    using assms(2,3) by (cases str; auto simp: takeWhile_append dropWhile_append)+
  then show ?thesis using drop assms(1) by (simp add: tokens_step [of d "t @ str"])
qed

text \<open>The path made of given names splits into them.\<close>

definition slashed :: "string list \<Rightarrow> string" where
  "slashed ns = concat (map (\<lambda>n. CHR ''/'' # n) ns)"

lemma slashed_simps [simp]: "slashed [] = []" "slashed (n # ns) = CHR ''/'' # n @ slashed ns" "slashed (ns @ ms) = slashed ns @ slashed ms"
  by (simp_all add: slashed_def)

definition name_ok :: "string \<Rightarrow> bool" where
  "name_ok n \<longleftrightarrow> n \<noteq> [] \<and> CHR ''/'' \<notin> set n \<and> length n < 64"

lemma tokens_slashed: "list_all name_ok ns \<Longrightarrow> tokens CHR ''/'' (slashed ns) = ns"
proof (induction ns)
  case Nil
  then show ?case by (simp add: tokens_step)
next
  case (Cons n ns)
  have "slashed ns = [] \<or> hd (slashed ns) = CHR ''/''" by (cases ns) simp_all
  then show ?case using Cons by (simp add: tokens_delim tokens_word name_ok_def)
qed

text \<open>The array that is allocated for the tokens always has room for them.\<close>

lemma tokens_fit: "length (tokens d str) + (if str \<noteq> [] \<and> hd str = d then 1 else 0) \<le> split_count str d"
proof (induction "length str" arbitrary: str rule: less_induct)
  case less
  define rest where "rest = dropWhile (\<lambda>c. c = d) str"
  define rest' where "rest' = dropWhile (\<lambda>c. c \<noteq> d) rest"
  define ds where "ds = takeWhile (\<lambda>c. c = d) str"
  have ds: "str = ds @ rest" "\<forall>c \<in> set ds. c = d" by (auto simp: ds_def rest_def dest: set_takeWhileD)
  have nds: "length (filter (\<lambda>c. c = d) str) = length ds + length (filter (\<lambda>c. c = d) rest)" using ds by (simp add: filter_id_conv)
  have hd: "str \<noteq> [] \<and> hd str = d \<longleftrightarrow> ds \<noteq> []"
    by (cases str) (auto simp: ds_def)
  show ?case
  proof (cases "rest = []")
    case True
    then have "tokens d str = []" by (simp add: tokens_step [of d str] rest_def)
    then show ?thesis using True hd nds ds by (cases ds) (auto simp: split_count_def)
  next
    case False
    define t where "t = takeWhile (\<lambda>c. c \<noteq> d) rest"
    have rest: "rest = t @ rest'" by (simp add: t_def rest'_def)
    have "hd rest \<noteq> d" using False hd_dropWhile [of "\<lambda>c. c = d" str] by (simp add: rest_def)
    then have t: "t \<noteq> []" "d \<notin> set t" using False unfolding t_def by (cases rest; auto dest: set_takeWhileD)+
    have tok: "tokens d str = t # tokens d rest'"
      using False by (simp add: tokens_step [of d str] rest_def [symmetric] t_def rest'_def)
    have nr: "length (filter (\<lambda>c. c = d) rest) = length (filter (\<lambda>c. c = d) rest')" using t(2) rest by (simp add: filter_empty_conv) (metis)
    show ?thesis
    proof (cases "rest' = []")
      case True
      then have "last str \<noteq> d" using ds rest t by (metis append_Nil2 last_appendR last_in_set)
      then show ?thesis using True tok hd nds nr ds False by (auto simp: split_count_def tokens_step [of d "[]"] Suc_le_eq)
    next
      case nonempty: False
      have "hd rest' = d" using nonempty hd_dropWhile [of "\<lambda>c. c \<noteq> d" rest] by (simp add: rest'_def)
      moreover have "length rest' < length str" using ds(1) rest t(1) by simp
      ultimately have "length (tokens d rest') + 1 \<le> split_count rest' d" using less.hyps [of rest'] nonempty by simp
      moreover have "last str = last rest'" using ds(1) rest nonempty by simp
      then have "split_count str d = length ds + split_count rest' d"
        using nds nr ds(1) rest nonempty by (simp add: split_count_def)
      moreover have "(if ds \<noteq> [] then 1 else 0) \<le> length ds" by (cases ds) simp_all
      ultimately show ?thesis using tok unfolding hd by simp
    qed
  qed
qed

lemma insert_each_ok:
  assumes "at_ok a" and "length (at_list a) + length ts \<le> at_cap a"
  shows "\<exists>a'. insert_each a ts = Inr a' \<and> at_ok a' \<and> at_list a' = at_list a @ ts"
  using assms
proof (induction ts arbitrary: a)
  case (Cons t ts)
  obtain a1 where "array_insert a t = Inr a1" "at_ok a1" "at_list a1 = at_list a @ [t]" "at_cap a1 = at_cap a"
    using ut.ins_ok [OF Cons.prems(1), of t] Cons.prems(2) by auto
  then show ?case using Cons.IH [of a1] Cons.prems(2) by auto
qed simp

lemma str_split_ok: "\<exists>a. str_split str d = Inr a \<and> at_ok a \<and> at_list a = tokens d str"
proof -
  have "length (tokens d str) \<le> split_count str d" using tokens_fit [of d str] by linarith
  then show ?thesis
    using insert_each_ok [of "array_create (int (split_count str d))" "tokens d str"] by (auto simp: str_split_def)
qed

section \<open>The tree of nodes\<close>

definition node_name :: "vfs_state \<Rightarrow> node_addr \<Rightarrow> string" where
  "node_name s p = nd_name (the (vs_nodes s p))"

text \<open>
  One node of a well-formed tree with root \<open>r\<close>: directories are the nodes with children, siblings have
  different names and point back to their parent, and every node but the root is a child of an older one.
\<close>

definition children_ok :: "vfs_state \<Rightarrow> node_addr \<Rightarrow> node_addr array_t \<Rightarrow> bool" where
  "children_ok s p c \<longleftrightarrow> at_ok c \<and> at_cap c = 128 \<and> distinct (map (node_name s) (at_list c))
     \<and> (\<forall>k \<in> set (at_list c). \<exists>kd. vs_nodes s k = Some kd \<and> nd_parent kd = Some p)"

definition node_ok :: "vfs_state \<Rightarrow> node_addr \<Rightarrow> node_addr \<Rightarrow> fs_node \<Rightarrow> bool" where
  "node_ok s r p nd \<longleftrightarrow> p < vs_fresh s \<and> (nd_is_directory nd \<longleftrightarrow> nd_children nd \<noteq> None)
     \<and> (\<forall>c. nd_children nd = Some c \<longrightarrow> children_ok s p c)
     \<and> (case nd_parent nd of None \<Rightarrow> p = r
        | Some q \<Rightarrow> q < p \<and> p \<noteq> r \<and> name_ok (nd_name nd)
            \<and> (\<exists>qd c. vs_nodes s q = Some qd \<and> nd_children qd = Some c \<and> p \<in> set (at_list c)))"

definition vfs_wf :: "vfs_state \<Rightarrow> bool" where
  "vfs_wf s \<longleftrightarrow> (\<exists>r rd. vs_root s = Some r \<and> vs_nodes s r = Some rd \<and> nd_name rd = ''/'' \<and> nd_parent rd = None
     \<and> nd_is_directory rd \<and> (\<forall>p nd. vs_nodes s p = Some nd \<longrightarrow> node_ok s r p nd))"

text \<open>The names on the way from the root to a node.\<close>

inductive node_path :: "vfs_state \<Rightarrow> node_addr \<Rightarrow> string list \<Rightarrow> bool" for s where
  root: "vs_root s = Some r \<Longrightarrow> node_path s r []"
| child: "node_path s q ns \<Longrightarrow> vs_nodes s p = Some nd \<Longrightarrow> nd_parent nd = Some q \<Longrightarrow> node_path s p (ns @ [nd_name nd])"

inductive_cases node_path_NilE: "node_path s p []"
inductive_cases node_path_snocE: "node_path s p (ns @ [n])"

lemma vfs_wf_node:
  assumes "vfs_wf s" and "vs_nodes s p = Some nd"
  obtains r where "vs_root s = Some r" "node_ok s r p nd"
  using assms by (auto simp: vfs_wf_def)

lemma vfs_wf_root:
  assumes "vfs_wf s"
  obtains r rd c where "vs_root s = Some r" "vs_nodes s r = Some rd" "nd_name rd = ''/''" "nd_parent rd = None"
    "nd_children rd = Some c" "children_ok s r c"
proof -
  obtain r rd where r: "vs_root s = Some r" "vs_nodes s r = Some rd" "nd_name rd = ''/''" "nd_parent rd = None" "nd_is_directory rd"
    and all: "\<forall>p nd. vs_nodes s p = Some nd \<longrightarrow> node_ok s r p nd"
    using assms by (auto simp: vfs_wf_def)
  then obtain c where "nd_children rd = Some c" "children_ok s r c" by (auto simp: node_ok_def)
  then show ?thesis using that r by blast
qed

lemma node_path_exists:
  assumes "vfs_wf s"
  shows "vs_nodes s p = Some nd \<Longrightarrow> \<exists>ns. node_path s p ns \<and> list_all name_ok ns"
proof (induction p arbitrary: nd rule: less_induct)
  case (less p)
  obtain r where r: "vs_root s = Some r" "node_ok s r p nd" using vfs_wf_node [OF assms less.prems] .
  show ?case
  proof (cases "nd_parent nd")
    case None
    then show ?thesis using r by (auto simp: node_ok_def intro: node_path.root exI [of _ "[]"])
  next
    case (Some q)
    then obtain qd where q: "q < p" "vs_nodes s q = Some qd" "name_ok (nd_name nd)" using r(2) by (auto simp: node_ok_def)
    obtain ns where "node_path s q ns" "list_all name_ok ns" using less.IH [OF q(1,2)] by blast
    then show ?thesis using node_path.child [OF _ less.prems Some] q(3) by (intro exI [of _ "ns @ [nd_name nd]"]) auto
  qed
qed

lemma node_path_alive: "node_path s p ns \<Longrightarrow> vfs_wf s \<Longrightarrow> \<exists>nd. vs_nodes s p = Some nd"
  by (induction rule: node_path.induct) (auto elim: vfs_wf_root)

lemma node_path_names: "node_path s p ns \<Longrightarrow> vfs_wf s \<Longrightarrow> list_all name_ok ns"
  by (induction rule: node_path.induct) (auto elim!: vfs_wf_node simp: node_ok_def)

section \<open>Finding a node by its path\<close>

lemma names_eq: "name_ok a \<Longrightarrow> name_ok b \<Longrightarrow> strncmp_eq VFS_MAX_PATH_LENGTH a b \<longleftrightarrow> a = b"
  by (simp add: strncmp_eq_def VFS_MAX_PATH_LENGTH_def name_ok_def)

text \<open>Among the children of a directory the search stops at the one with the wanted name.\<close>

lemma find_child_from:
  assumes "vfs_wf s" and "children_ok s p c" and "k < length (at_list c)" and "n = at_list c ! k" and "i \<le> k"
    and "vs_nodes s n = Some nd"
  shows "vfs_find_from (nd_name nd # ns) c (int i) s =
    (if ns = [] then Inr (Some n) else if nd_is_directory nd then ebind (deref (nd_children nd)) (\<lambda>c. vfs_find_from ns c 0 s)
     else vfs_find_from (nd_name nd # ns) c (int (Suc k)) s)"
  using assms(5)
proof (induction "k - i" arbitrary: i rule: less_induct)
  case less
  have ok: "at_ok c" using assms(2) by (simp add: children_ok_def)
  have i: "i < length (at_list c)" using less.prems assms(3) by linarith
  have get: "array_lookup c (int i) = Inr (Some (at_list c ! i))" by (rule array_lookup_as [OF ok i])
  have size: "int i < at_size c" using at_ok_size [OF ok] i by simp
  obtain md where md: "vs_nodes s (at_list c ! i) = Some md" "nd_parent md = Some p"
    using assms(2) i by (force simp: children_ok_def)
  have nok: "name_ok (nd_name md)" using vfs_wf_node [OF assms(1) md(1)] md(2) by (auto simp: node_ok_def)
  then have cstr: "node_cstr md = Inr (nd_name md)" by (simp add: node_cstr_def name_ok_def)
  obtain nd' where "vs_nodes s n = Some nd'" "nd_parent nd' = Some p" using assms(2,3,4) by (force simp: children_ok_def)
  then have nok': "name_ok (nd_name nd)" using vfs_wf_node [OF assms(1,6)] assms(6) by (auto simp: node_ok_def)
  show ?case
  proof (cases "i = k")
    case True
    then have "md = nd" using md(1) assms(4,6) by simp
    then show ?thesis
      using True get size md cstr assms(4)
      by (simp add: vfs_find_from.simps [of "nd_name nd # ns" c "int k" s] strncmp_eq_def add.commute)
  next
    case False
    have "node_name s (at_list c ! i) \<noteq> node_name s (at_list c ! k)"
      using assms(2,3) i False nth_eq_iff_index_eq [of "map (node_name s) (at_list c)" i k] by (simp add: children_ok_def)
    then have "nd_name nd \<noteq> nd_name md" using md(1) assms(4,6) by (auto simp: node_name_def)
    then have ne: "\<not> strncmp_eq VFS_MAX_PATH_LENGTH (nd_name nd) (nd_name md)" using names_eq [OF nok' nok] by simp
    have "vfs_find_from (nd_name nd # ns) c (int i) s = vfs_find_from (nd_name nd # ns) c (int (Suc i)) s"
      using get size md cstr ne by (simp add: vfs_find_from.simps [of _ c "int i"] add.commute)
    then show ?thesis using less.hyps [of "Suc i"] less.prems False by simp
  qed
qed

lemma find_child:
  assumes "vfs_wf s" and "children_ok s p c" and "n \<in> set (at_list c)" and "vs_nodes s n = Some nd"
  shows "vfs_find_from [nd_name nd] c 0 s = Inr (Some n)"
    and "nd_children nd = Some c' \<Longrightarrow> ns \<noteq> [] \<Longrightarrow> vfs_find_from (nd_name nd # ns) c 0 s = vfs_find_from ns c' 0 s"
proof -
  obtain k where k: "k < length (at_list c)" "n = at_list c ! k" using assms(3) by (auto simp: in_set_conv_nth)
  note f = find_child_from [OF assms(1,2) k, of 0 nd, OF _ assms(4)]
  show "vfs_find_from [nd_name nd] c 0 s = Inr (Some n)" using f [of "[]"] by simp
  show "vfs_find_from (nd_name nd # ns) c 0 s = vfs_find_from ns c' 0 s" if "nd_children nd = Some c'" "ns \<noteq> []"
    using f [of ns] that vfs_wf_node [OF assms(1,4)] by (auto simp: node_ok_def)
qed

text \<open>Following the path of a node and then further names is searching for these below the node.\<close>

lemma find_along_path:
  assumes "node_path s p ns" and "vfs_wf s" and "vs_root s = Some r" and "vs_nodes s r = Some rd" and "nd_children rd = Some rc"
    and "vs_nodes s p = Some nd" and "nd_children nd = Some c" and "ms \<noteq> []"
  shows "vfs_find_from (ns @ ms) rc 0 s = vfs_find_from ms c 0 s"
  using assms
proof (induction arbitrary: nd c ms rule: node_path.induct)
  case (root r')
  then show ?case by simp
next
  case (child q ns p md)
  obtain r' where "node_ok s r' p md" using vfs_wf_node [OF child.prems(1) child.hyps(2)] by blast
  then obtain qd qc where q: "vs_nodes s q = Some qd" "nd_children qd = Some qc" "p \<in> set (at_list qc)"
    using child.hyps(3) by (auto simp: node_ok_def)
  have cok: "children_ok s q qc" using vfs_wf_node [OF child.prems(1) q(1)] q(2) by (auto simp: node_ok_def)
  have "vfs_find_from (ns @ nd_name md # ms) rc 0 s = vfs_find_from (nd_name md # ms) qc 0 s"
    using child.IH [OF child.prems(1-4) q(1,2), of "nd_name md # ms"] by simp
  also have "\<dots> = vfs_find_from ms c 0 s"
    using find_child(2) [OF child.prems(1) cok q(3) child.hyps(2)] child.prems(5-7) child.hyps(2) by simp
  finally show ?case by simp
qed

lemma find_by_components:
  assumes "vfs_wf s" and "node_path s p ns" and "ns \<noteq> []"
  shows "\<exists>r rc. vs_root s = Some r \<and> vfs_find_node_by_path_components_in_directory r ns s = Inr (Some p)"
proof -
  obtain ms n where ns: "ns = ms @ [n]" using assms(3) by (cases ns rule: rev_cases) auto
  obtain q nd where q: "node_path s q ms" "vs_nodes s p = Some nd" "nd_parent nd = Some q" "n = nd_name nd"
    using assms(2) unfolding ns by (auto elim: node_path_snocE)
  obtain r' where "node_ok s r' p nd" using vfs_wf_node [OF assms(1) q(2)] by blast
  then obtain qd qc where qd: "vs_nodes s q = Some qd" "nd_children qd = Some qc" "p \<in> set (at_list qc)"
    using q(3) by (auto simp: node_ok_def)
  have cok: "children_ok s q qc" using vfs_wf_node [OF assms(1) qd(1)] qd(2) by (auto simp: node_ok_def)
  obtain r rd rc where r: "vs_root s = Some r" "vs_nodes s r = Some rd" "nd_children rd = Some rc"
    using assms(1) by (rule vfs_wf_root)
  have "vfs_find_from ns rc 0 s = vfs_find_from [nd_name nd] qc 0 s"
    using find_along_path [OF q(1) assms(1) r qd(1,2), of "[nd_name nd]"] ns q(4) by simp
  also have "\<dots> = Inr (Some p)" by (rule find_child(1) [OF assms(1) cok qd(3) q(2)])
  finally show ?thesis using r by (auto simp: vfs_find_node_by_path_components_in_directory_def)
qed

lemma find_by_path:
  assumes "vfs_wf s" and "node_path s p ns" and "ns \<noteq> []"
  shows "vfs_find_node_by_path (slashed ns) s = Inr (Some p)"
proof -
  obtain r rd where r: "vs_root s = Some r" "vs_nodes s r = Some rd" "nd_name rd = ''/''" using assms(1) by (rule vfs_wf_root)
  have names: "list_all name_ok ns" by (rule node_path_names [OF assms(2,1)])
  then have "\<not> strncmp_eq VFS_MAX_PATH_LENGTH (slashed ns) ''/''"
    using assms(3) by (cases ns) (auto simp: strncmp_eq_def VFS_MAX_PATH_LENGTH_def name_ok_def take_Cons')
  moreover obtain a where a: "str_split (slashed ns) CHR ''/'' = Inr a" "at_list a = ns"
    using str_split_ok [of "slashed ns" "CHR ''/''"] tokens_slashed [OF names] by auto
  ultimately show ?thesis
    using find_by_components [OF assms] r by (auto simp: vfs_find_node_by_path_def node_cstr_def)
qed

text \<open>The names collected on the way up, and the path built of them.\<close>

lemma components_up_ok:
  assumes "node_path s p ns" and "vfs_wf s" and "vs_nodes s p = Some nd" and "at_ok a" and "length (at_list a) + length ns \<le> at_cap a"
  shows "\<exists>a'. path_components_up nd a s = Some (Inr a') \<and> at_list a' = at_list a @ rev ns"
  using assms
proof (induction arbitrary: nd a rule: node_path.induct)
  case (root r)
  then have "nd_parent nd = None" by (auto elim: vfs_wf_root)
  then show ?case using root by (simp add: path_components_up.simps [of nd])
next
  case (child q ns p md)
  have nd: "md = nd" using child.hyps(2) child.prems(2) by simp
  have "name_ok (nd_name nd)" using vfs_wf_node [OF child.prems(1,2)] child.hyps(3) nd by (auto simp: node_ok_def)
  then have cstr: "node_cstr nd = Inr (nd_name nd)" by (simp add: node_cstr_def name_ok_def)
  obtain a1 where a1: "array_insert a (nd_name nd) = Inr a1" "at_ok a1" "at_list a1 = at_list a @ [nd_name nd]" "at_cap a1 = at_cap a"
    using ut.ins_ok [OF child.prems(3), of "nd_name nd"] child.prems(4) by auto
  obtain qd where qd: "vs_nodes s q = Some qd" using node_path_alive [OF child.hyps(1) child.prems(1)] by blast
  obtain a' where "path_components_up qd a1 s = Some (Inr a')" "at_list a' = at_list a1 @ rev ns"
    using child.IH [OF child.prems(1) qd a1(2)] a1(3,4) child.prems(4) by auto
  then show ?case using cstr a1(1,3) qd child.hyps(3) nd by (simp add: path_components_up.simps [of nd])
qed

lemma append_components: "length path + length (slashed ns) < 128 \<Longrightarrow> foldl append_component path ns = path @ slashed ns"
  by (induction ns arbitrary: path) (simp_all add: append_component_def VFS_MAX_PATH_LENGTH_def)

text \<open>
  In a well-formed tree the path that is computed for a node leads back to exactly that node, as long as
  the node is at most 64 levels deep and the path fits its buffer.
\<close>

lemma vfs_path_roundtrip:
  assumes "vfs_wf s" and "node_path s p ns" and "length ns \<le> 64" and "length (slashed ns) < 128"
  shows "\<exists>path. vfs_path_for_node p s = Some (Inr path) \<and> vfs_find_node_by_path path s = Inr (Some p)"
proof (cases "ns = []")
  case True
  then have p: "vs_root s = Some p" using assms(2) by (auto elim: node_path_NilE)
  obtain rd where "vs_nodes s p = Some rd" "nd_name rd = ''/''" using assms(1) p by (auto elim: vfs_wf_root)
  then have "vfs_find_node_by_path ''/'' s = Inr (Some p)"
    using p by (simp add: vfs_find_node_by_path_def node_cstr_def strncmp_eq_def)
  then show ?thesis using p by (simp add: vfs_path_for_node_def)
next
  case False
  obtain nd where nd: "vs_nodes s p = Some nd" using node_path_alive [OF assms(2,1)] by blast
  obtain r where r: "vs_root s = Some r" "node_ok s r p nd" using vfs_wf_node [OF assms(1) nd] .
  have "nd_parent nd \<noteq> None" using assms(2) False nd by (auto elim: node_path.cases)
  then have "p \<noteq> r" using r(2) by (auto simp: node_ok_def)
  moreover obtain a where "path_components_up nd (array_create 64) s = Some (Inr a)" "at_list a = rev ns"
    using components_up_ok [OF assms(2,1) nd, of "array_create 64"] assms(3) by auto
  ultimately have "vfs_path_for_node p s = Some (Inr (slashed ns))"
    using r(1) nd append_components [of "[]" ns] assms(4) by (simp add: vfs_path_for_node_def)
  then show ?thesis using find_by_path [OF assms(1,2) False] by blast
qed

section \<open>Growing the tree\<close>

text \<open>\<open>s'\<close> has every node of \<open>s\<close>, with the same name and parent.\<close>

definition keeps_nodes :: "vfs_state \<Rightarrow> vfs_state \<Rightarrow> bool" where
  "keeps_nodes s s' \<longleftrightarrow> vs_root s' = vs_root s \<and> (\<forall>p nd. vs_nodes s p = Some nd \<longrightarrow>
     (\<exists>nd'. vs_nodes s' p = Some nd' \<and> nd_name nd' = nd_name nd \<and> nd_parent nd' = nd_parent nd))"

lemma keeps_nodes_trans: "keeps_nodes s s1 \<Longrightarrow> keeps_nodes s1 s2 \<Longrightarrow> keeps_nodes s s2"
  unfolding keeps_nodes_def by metis

lemma keeps_node_path: "node_path s p ns \<Longrightarrow> keeps_nodes s s' \<Longrightarrow> node_path s' p ns"
proof (induction rule: node_path.induct)
  case (root r)
  then show ?case by (auto simp: keeps_nodes_def intro: node_path.root)
next
  case (child q ns p nd)
  then obtain nd' where "vs_nodes s' p = Some nd'" "nd_name nd' = nd_name nd" "nd_parent nd' = Some q"
    unfolding keeps_nodes_def by metis
  then show ?case using node_path.child [of s' q ns p nd'] child by simp
qed

lemma keeps_children_ok:
  assumes "keeps_nodes s s'" and "children_ok s p c"
  shows "children_ok s' p c"
proof -
  have "node_name s' k = node_name s k" if "k \<in> set (at_list c)" for k
    using that assms unfolding keeps_nodes_def children_ok_def node_name_def by (metis option.sel)
  then have "map (node_name s') (at_list c) = map (node_name s) (at_list c)" by simp
  then show ?thesis using assms unfolding keeps_nodes_def children_ok_def by (metis (no_types, lifting))
qed

text \<open>Only the private fields of nodes and the other components of the state differ.\<close>

definition tree_fields :: "fs_node \<Rightarrow> string \<times> node_addr option \<times> bool \<times> node_addr array_t option" where
  "tree_fields nd = (nd_name nd, nd_parent nd, nd_is_directory nd, nd_children nd)"

definition same_tree :: "vfs_state \<Rightarrow> vfs_state \<Rightarrow> bool" where
  "same_tree s s' \<longleftrightarrow> vs_root s' = vs_root s \<and> vs_fresh s' = vs_fresh s
     \<and> (\<forall>p. map_option tree_fields (vs_nodes s' p) = map_option tree_fields (vs_nodes s p))"

lemma same_tree_sym: "same_tree s s' \<Longrightarrow> same_tree s' s"
  by (simp add: same_tree_def)

lemma same_tree_node:
  assumes "same_tree s s'" and "vs_nodes s p = Some nd"
  obtains nd' where "vs_nodes s' p = Some nd'" "nd_name nd' = nd_name nd" "nd_parent nd' = nd_parent nd"
    "nd_is_directory nd' = nd_is_directory nd" "nd_children nd' = nd_children nd"
proof -
  have "map_option tree_fields (vs_nodes s' p) = Some (tree_fields nd)" using assms by (simp add: same_tree_def)
  then show ?thesis using that by (auto simp: tree_fields_def)
qed

lemma same_tree_keeps: "same_tree s s' \<Longrightarrow> keeps_nodes s s'"
  unfolding keeps_nodes_def by (auto elim: same_tree_node) (simp_all add: same_tree_def)

lemma same_tree_wf:
  assumes "same_tree s s'" and "vfs_wf s"
  shows "vfs_wf s'"
proof -
  obtain r rd where r: "vs_root s = Some r" "vs_nodes s r = Some rd" "nd_name rd = ''/''" "nd_parent rd = None" "nd_is_directory rd"
    and all: "\<And>p nd. vs_nodes s p = Some nd \<Longrightarrow> node_ok s r p nd"
    using assms(2) by (auto simp: vfs_wf_def)
  note kc = keeps_children_ok [OF same_tree_keeps [OF assms(1)]]
  have "node_ok s' r p nd'" if nd': "vs_nodes s' p = Some nd'" for p nd'
  proof -
    obtain nd where nd: "vs_nodes s p = Some nd" "nd_name nd' = nd_name nd" "nd_parent nd' = nd_parent nd"
      "nd_is_directory nd' = nd_is_directory nd" "nd_children nd' = nd_children nd"
      using same_tree_node [OF same_tree_sym [OF assms(1)] nd'] by metis
    have "\<exists>qd c. vs_nodes s' q = Some qd \<and> nd_children qd = Some c \<and> p \<in> set (at_list c)" if "nd_parent nd = Some q" for q
      using all [OF nd(1)] that by (auto simp: node_ok_def elim!: same_tree_node [OF assms(1)])
    then show ?thesis using all [OF nd(1)] nd kc assms(1) by (auto simp: node_ok_def same_tree_def split: option.splits)
  qed
  moreover obtain rd' where "vs_nodes s' r = Some rd'" "nd_name rd' = ''/''" "nd_parent rd' = None" "nd_is_directory rd'"
    using same_tree_node [OF assms(1) r(2)] r by metis
  ultimately show ?thesis using r(1) assms(1) by (auto simp: vfs_wf_def same_tree_def)
qed

lemma set_fat_node_ok:
  assumes "vs_nodes s n = Some nd"
  shows "\<exists>s'. set_fat_node n first sz s = Inr s' \<and> same_tree s s' \<and> vs_fat s' = vs_fat s \<and> vs_outbox s' = vs_outbox s
    \<and> vs_nodes s' n = Some (nd\<lparr>nd_type := FS_NODE_TYPE_FAT, nd_fat := \<lparr>fn_first = first, fn_size = sz\<rparr>\<rparr>)
    \<and> (\<forall>m. m \<noteq> n \<longrightarrow> vs_nodes s' m = vs_nodes s m)"
  using assms by (auto simp: set_fat_node_def upd_node_def same_tree_def tree_fields_def)

text \<open>A new child of a directory with room, under a fresh name, keeps the tree well formed.\<close>

lemma grown_tree_wf:
  assumes "vfs_wf s" and "vs_nodes s p = Some pd" and "nd_children pd = Some c" and "name_ok name"
    and "name \<notin> node_name s ` set (at_list c)" and "at_ok c'" and "at_cap c' = 128" and "at_list c' = at_list c @ [vs_fresh s]"
    and "nd_name nd = name" and "nd_parent nd = Some p" and "nd_is_directory nd \<longleftrightarrow> nd_children nd \<noteq> None"
    and "\<And>k. nd_children nd = Some k \<Longrightarrow> k = array_create 128"
    and "vs_nodes s' = (vs_nodes s)(vs_fresh s \<mapsto> nd, p \<mapsto> pd\<lparr>nd_children := Some c'\<rparr>)" and "vs_fresh s' = Suc (vs_fresh s)"
    and "vs_root s' = vs_root s"
  shows "vfs_wf s' \<and> keeps_nodes s s'"
proof -
  obtain r rd where r: "vs_root s = Some r" "vs_nodes s r = Some rd" "nd_name rd = ''/''" "nd_parent rd = None" "nd_is_directory rd"
    and all: "\<And>p nd. vs_nodes s p = Some nd \<Longrightarrow> node_ok s r p nd"
    using assms(1) by (auto simp: vfs_wf_def)
  have pf: "p < vs_fresh s" and rf: "r < vs_fresh s" using all [OF assms(2)] all [OF r(2)] by (auto simp: node_ok_def)
  have old: "vs_nodes s (vs_fresh s) = None" using all by (cases "vs_nodes s (vs_fresh s)") (auto simp: node_ok_def)
  have keeps: "keeps_nodes s s'" using assms(2,15) old by (auto simp: keeps_nodes_def assms(13))
  note kc = keeps_children_ok [OF keeps]
  have nm: "node_name s' k = (if k = vs_fresh s then name else node_name s k)" for k
    using pf assms(2,9) by (auto simp: node_name_def assms(13))
  have cok: "children_ok s p c" using all [OF assms(2)] assms(3) by (auto simp: node_ok_def)
  have fresh: "vs_fresh s \<notin> set (at_list c)" using cok old by (auto simp: children_ok_def)
  have "map (node_name s') (at_list c') = map (node_name s) (at_list c) @ [name]"
    using fresh by (auto simp: assms(8) nm)
  then have cok': "children_ok s' p c'"
    using kc [OF cok] cok assms(5-8,10) pf by (auto simp: children_ok_def assms(13))
  have "node_ok s' r q qd" if q: "vs_nodes s' q = Some qd" for q qd
  proof -
    consider "q = vs_fresh s" | "q = p" "q \<noteq> vs_fresh s" | "q \<noteq> p" "q \<noteq> vs_fresh s" by blast
    then show ?thesis
    proof cases
      case 1
      then have "qd = nd" using q pf by (simp add: assms(13))
      then show ?thesis
        using 1 pf rf assms(4,8-12,14) by (auto simp: node_ok_def assms(13) children_ok_def)
    next
      case 2
      then have "qd = pd\<lparr>nd_children := Some c'\<rparr>" using q by (simp add: assms(13))
      then show ?thesis
        using 2 all [OF assms(2)] cok' pf old assms(2,3,14) by (auto simp: node_ok_def assms(13) split: option.splits)
    next
      case 3
      then have qd: "vs_nodes s q = Some qd" using q by (simp add: assms(13))
      have "\<exists>ud u. vs_nodes s' v = Some ud \<and> nd_children ud = Some u \<and> q \<in> set (at_list u)" if v: "nd_parent qd = Some v" for v
      proof (cases "v = p")
        case True
        then show ?thesis using all [OF qd] v assms(2,3,8) by (auto simp: node_ok_def assms(13))
      next
        case False
        then show ?thesis using all [OF qd] v old by (auto simp: node_ok_def assms(13))
      qed
      then show ?thesis using all [OF qd] kc assms(14) by (auto simp: node_ok_def split: option.splits)
    qed
  qed
  moreover have "\<exists>rd'. vs_nodes s' r = Some rd' \<and> nd_name rd' = ''/'' \<and> nd_parent rd' = None \<and> nd_is_directory rd'"
    using r rf assms(2) by (auto simp: assms(13))
  ultimately show ?thesis using keeps r(1) assms(15) by (auto simp: vfs_wf_def)
qed

lemma create_node_ok:
  assumes "vfs_wf s" and "vs_nodes s p = Some pd" and "nd_children pd = Some c" and "length (at_list c) < 128"
    and "name_ok name" and "name \<notin> node_name s ` set (at_list c)"
  shows "\<exists>s' nd. fs_node_create is_dir (Some p) name (length name) s = Inr (vs_fresh s, s') \<and> vfs_wf s' \<and> keeps_nodes s s'
    \<and> vs_nodes s' (vs_fresh s) = Some nd \<and> nd_name nd = name \<and> nd_parent nd = Some p \<and> nd_is_directory nd = is_dir
    \<and> nd_children nd = (if is_dir then Some (array_create 128) else None) \<and> vs_fat s' = vs_fat s \<and> vs_outbox s' = vs_outbox s
    \<and> (\<exists>c'. vs_nodes s' p = Some (pd\<lparr>nd_children := Some c'\<rparr>) \<and> at_list c' = at_list c @ [vs_fresh s])
    \<and> (\<forall>q. q \<noteq> p \<and> q \<noteq> vs_fresh s \<longrightarrow> vs_nodes s' q = vs_nodes s q)"
proof -
  let ?n = "vs_fresh s"
  let ?nd0 = "\<lparr>nd_type = FS_NODE_TYPE_BASE, nd_name = [], nd_parent = Some p, nd_is_directory = is_dir,
    nd_children = (if is_dir then Some (array_create 128) else None), nd_fat = \<lparr>fn_first = 0, fn_size = 0\<rparr>,
    nd_initrd_offset = 0, nd_initrd_size = 0\<rparr>"
  let ?nd = "?nd0\<lparr>nd_name := name\<rparr>"
  obtain r where "node_ok s r p pd" using vfs_wf_node [OF assms(1,2)] by blast
  then have pn: "p < ?n" and cok: "children_ok s p c" using assms(3) by (auto simp: node_ok_def)
  obtain c' where c': "array_insert c ?n = Inr c'" "at_ok c'" "at_list c' = at_list c @ [?n]" "at_cap c' = 128"
    using ut.ins_ok [of c ?n] cok assms(4) by (auto simp: children_ok_def)
  let ?s' = "s\<lparr>vs_nodes := (vs_nodes s)(?n \<mapsto> ?nd, p \<mapsto> pd\<lparr>nd_children := Some c'\<rparr>), vs_fresh := Suc ?n\<rparr>"
  have "fs_node_create is_dir (Some p) name (length name) s = Inr (?n, ?s')"
    using pn assms(2,3,5) c'(1)
    by (simp add: fs_node_create_def Let_def vfs_add_child_def upd_node_def name_ok_def fun_upd_twist)
  moreover have "vfs_wf ?s' \<and> keeps_nodes s ?s'"
    by (rule grown_tree_wf [OF assms(1,2,3,5,6) c'(2,4,3), of ?nd]) (auto split: if_splits)
  ultimately show ?thesis using pn c'(3) by (intro exI [of _ ?s'] exI [of _ ?nd]) auto
qed

text \<open>A name that no child has is not found.\<close>

lemma find_missing_from:
  assumes "vfs_wf s" and "children_ok s p c" and "name_ok n" and "n \<notin> node_name s ` set (at_list c)"
  shows "i \<le> length (at_list c) \<Longrightarrow> vfs_find_from [n] c (int i) s = Inr None"
proof (induction "length (at_list c) - i" arbitrary: i rule: less_induct)
  case less
  have ok: "at_ok c" using assms(2) by (simp add: children_ok_def)
  show ?case
  proof (cases "i = length (at_list c)")
    case True
    then show ?thesis using at_ok_size [OF ok] by (simp add: vfs_find_from.simps [of "[n]" c])
  next
    case False
    then have i: "i < length (at_list c)" using less.prems by simp
    obtain md where md: "vs_nodes s (at_list c ! i) = Some md" "nd_parent md = Some p"
      using assms(2) i by (force simp: children_ok_def)
    have nok: "name_ok (nd_name md)" using vfs_wf_node [OF assms(1) md(1)] md(2) by (auto simp: node_ok_def)
    have "n \<noteq> nd_name md" using assms(4) md(1) nth_mem [OF i] by (force simp: node_name_def)
    then have "\<not> strncmp_eq VFS_MAX_PATH_LENGTH n (nd_name md)" using names_eq [OF assms(3) nok] by simp
    moreover have "node_cstr md = Inr (nd_name md)" using nok by (simp add: node_cstr_def name_ok_def)
    moreover have "vfs_find_from [n] c (int (Suc i)) s = Inr None" by (rule less.hyps) (use i in simp_all)
    ultimately show ?thesis
      using array_lookup_as [OF ok i] at_ok_size [OF ok] i md(1) by (simp add: vfs_find_from.simps [of "[n]" c "int i"] add.commute)
  qed
qed

lemma find_missing_path:
  assumes "vfs_wf s" and "node_path s p ns" and "vs_nodes s p = Some pd" and "nd_children pd = Some c"
    and "name_ok n" and "n \<notin> node_name s ` set (at_list c)"
  shows "vfs_find_node_by_path (slashed (ns @ [n])) s = Inr None"
proof -
  obtain r rd rc where r: "vs_root s = Some r" "vs_nodes s r = Some rd" "nd_name rd = ''/''" "nd_children rd = Some rc"
    using assms(1) by (rule vfs_wf_root)
  have names: "list_all name_ok (ns @ [n])" using node_path_names [OF assms(2,1)] assms(5) by simp
  have cok: "children_ok s p c" using vfs_wf_node [OF assms(1,3)] assms(4) by (auto simp: node_ok_def)
  have "\<not> strncmp_eq VFS_MAX_PATH_LENGTH (slashed (ns @ [n])) ''/''"
    using names by (cases ns) (auto simp: strncmp_eq_def VFS_MAX_PATH_LENGTH_def name_ok_def take_Cons')
  moreover obtain a where a: "str_split (slashed (ns @ [n])) CHR ''/'' = Inr a" "at_list a = ns @ [n]"
    using str_split_ok [of "slashed (ns @ [n])" "CHR ''/''"] tokens_slashed [OF names] by auto
  moreover have "vfs_find_from (ns @ [n]) rc 0 s = vfs_find_from [n] c 0 s"
    by (rule find_along_path [OF assms(2,1) r(1,2,4) assms(3,4)]) simp
  ultimately show ?thesis
    using r find_missing_from [OF assms(1) cok assms(5,6), of 0]
    by (simp add: vfs_find_node_by_path_def node_cstr_def vfs_find_node_by_path_components_in_directory_def)
qed

section \<open>Creating a directory\<close>

text \<open>There is a free slot in the directory with entry \<open>d\<close>, and a free entry for what it will name.\<close>

definition fat_has_room :: "fat_state \<Rightarrow> nat \<Rightarrow> bool" where
  "fat_has_room fs d \<longleftrightarrow> d < 131072 \<and> fat_allocated fs d \<and> (\<exists>f < 16. de_first (slot_at (fdat fs d) f) = 0) \<and> fat_free fs \<noteq> {}"

text \<open>A directory of the disk without entries: its sector is in use and every slot in it is free.\<close>

definition empty_directory :: "fat_state \<Rightarrow> nat \<Rightarrow> bool" where
  "empty_directory fs d \<longleftrightarrow> d < 131072 \<and> fat_allocated fs d \<and> (\<forall>j < 16. de_first (slot_at (fdat fs d) j) = 0)"

lemma first_free_slot:
  assumes "\<exists>f < 16. de_first (slot_at b f) = 0"
  obtains f where "f < 16" "de_first (slot_at b f) = 0" "\<forall>j < f. de_first (slot_at b j) \<noteq> 0"
proof -
  define f where "f = (LEAST f. de_first (slot_at b f) = 0)"
  have "de_first (slot_at b f) = 0" unfolding f_def using assms by (auto intro: LeastI)
  moreover have "f < 16" unfolding f_def using assms by (auto intro: le_less_trans [OF Least_le])
  moreover have "\<forall>j < f. de_first (slot_at b j) \<noteq> 0" unfolding f_def using not_less_Least by blast
  ultimately show ?thesis using that by blast
qed

lemma fat_create_directory_ok:
  assumes "vfs_wf s" and "fat_wf (vs_fat s)" and "vs_nodes s p = Some pd" and "nd_type pd = FS_NODE_TYPE_FAT"
    and "nd_children pd = Some c" and "length (at_list c) < 128" and "fat_has_room (vs_fat s) (unat (fn_first (nd_fat pd)))"
    and "name_ok name" and "length name \<le> 8" and "name \<notin> node_name s ` set (at_list c)"
  shows "\<exists>s' nd. fat_create_directory p name s = Inr (vs_fresh s, s') \<and> vfs_wf s' \<and> fat_wf (vs_fat s') \<and> keeps_nodes s s'
    \<and> vs_nodes s' (vs_fresh s) = Some nd \<and> nd_name nd = name \<and> nd_parent nd = Some p \<and> nd_is_directory nd
    \<and> nd_type nd = FS_NODE_TYPE_FAT \<and> nd_children nd = Some (array_create 128)
    \<and> empty_directory (vs_fat s') (unat (fn_first (nd_fat nd))) \<and> vs_outbox s' = vs_outbox s"
proof -
  let ?d = "unat (fn_first (nd_fat pd))"
  have room: "?d < 131072" "fat_allocated (vs_fat s) ?d" "fat_free (vs_fat s) \<noteq> {}" using assms(7) by (auto simp: fat_has_room_def)
  obtain f where f: "f < 16" "de_first (slot_at (fdat (vs_fat s) ?d) f) = 0" "\<forall>j < f. de_first (slot_at (fdat (vs_fat s) ?d) j) \<noteq> 0"
    using first_free_slot assms(7) unfolding fat_has_room_def by metis
  obtain k fs where k: "fat_create_dir_or_file (fat_info (vs_fat s)) (fn_first (nd_fat pd)) True name [] 0 [] (vs_fat s) = Inr (of_nat k, fs)"
    "fat_wf fs" "k \<in> fat_free (vs_fat s)" "fat_allocated fs k" "\<forall>j < 16. de_first (slot_at (fdat fs k) j) = 0"
    using created_directory_is_empty [OF assms(2) room(1,2) f room(3), of name "[]" 0 "[]"] by auto
  define s1 where "s1 = s\<lparr>vs_fat := fs\<rparr>"
  have t1: "same_tree s s1" by (simp add: s1_def same_tree_def)
  have wf1: "vfs_wf s1" by (rule same_tree_wf [OF t1 assms(1)])
  have nm: "name \<notin> node_name s1 ` set (at_list c)" using assms(10) by (simp add: node_name_def s1_def)
  obtain s2 nd where s2: "fs_node_create True (Some p) name (length name) s1 = Inr (vs_fresh s, s2)" "vfs_wf s2" "keeps_nodes s1 s2"
      "vs_nodes s2 (vs_fresh s) = Some nd" "nd_name nd = name" "nd_parent nd = Some p" "nd_is_directory nd" "vs_fat s2 = fs" "vs_outbox s2 = vs_outbox s"
      "nd_children nd = Some (array_create 128)"
    using create_node_ok [OF wf1 _ assms(5,6,8) nm, of p True] assms(3) by (auto simp: s1_def)
  obtain s3 where s3: "set_fat_node (vs_fresh s) (of_nat k) 512 s2 = Inr s3" "same_tree s2 s3" "vs_fat s3 = fs" "vs_outbox s3 = vs_outbox s"
      "vs_nodes s3 (vs_fresh s) = Some (nd\<lparr>nd_type := FS_NODE_TYPE_FAT, nd_fat := \<lparr>fn_first = of_nat k, fn_size = 512\<rparr>\<rparr>)"
    using set_fat_node_ok [OF s2(4), of "of_nat k" 512] s2(8,9) by auto
  have info: "fat_info fs = fat_geometry" using k(2) by (simp add: fat_wf_def)
  have kl: "k < 65536" "unat (of_nat k :: u32) = k" using k(3) by (simp_all add: fat_free_def unat_of_nat)
  have "fat_create_directory p name s = Inr (vs_fresh s, s3)"
    using assms(3,4,9) k(1) s2(1,8) s3(1) info
    by (simp add: fat_create_directory_def with_fat_def Let_def FAT_FILENAME_SIZE_def fs_node_create_directory_def s1_def)
  moreover have "keeps_nodes s s3"
    using keeps_nodes_trans same_tree_keeps [OF t1] s2(3) same_tree_keeps [OF s3(2)] by blast
  moreover have "empty_directory fs (unat (of_nat k :: u32))" using kl k(4,5) by (simp add: empty_directory_def)
  ultimately show ?thesis
    using same_tree_wf [OF s3(2) s2(2)] k(2) s2(5-7,10) s3(3-5) by (intro exI [of _ s3]) auto
qed

text \<open>
  C29. A request to create a directory under an existing directory of the disk, with a name of at most eight
  characters that is not taken, is answered with success: the new directory is then found under the path
  asked for, is a directory of the FAT file system without children whose sector on the disk has no entry,
  every other node keeps its path, and the tree and the disk stay well formed.
\<close>

theorem create_directory_request:
  assumes "vfs_wf s" and "fat_wf (vs_fat s)" and "node_path s p (''hdd'' # ns)" and "vs_nodes s p = Some pd"
    and "nd_type pd = FS_NODE_TYPE_FAT" and "nd_children pd = Some c" and "length (at_list c) < 128"
    and "fat_has_room (vs_fat s) (unat (fn_first (nd_fat pd)))" and "name_ok name" and "length name \<le> 8"
    and "name \<notin> node_name s ` set (at_list c)" and "length (slashed (''hdd'' # ns)) < 128"
  shows "\<exists>s' n nd. fm_message_received source (CreateDirectory (slashed (''hdd'' # ns @ [name]))) s = Some (Inr s')
    \<and> vs_outbox s' = vs_outbox s @ [(source, CreateResult True)]
    \<and> vfs_find_node_by_path (slashed (''hdd'' # ns @ [name])) s' = Inr (Some n) \<and> vs_nodes s' n = Some nd
    \<and> nd_is_directory nd \<and> nd_type nd = FS_NODE_TYPE_FAT
    \<and> (\<exists>ch. nd_children nd = Some ch \<and> at_list ch = []) \<and> empty_directory (vs_fat s') (unat (fn_first (nd_fat nd)))
    \<and> vfs_wf s' \<and> fat_wf (vs_fat s') \<and> (\<forall>q ms. node_path s q ms \<longrightarrow> node_path s' q ms)"
proof -
  let ?ns = "''hdd'' # ns"
  have path: "''hdd'' # ns @ [name] = ?ns @ [name]" by simp
  have names: "list_all name_ok (?ns @ [name])" using node_path_names [OF assms(3,1)] assms(9) by simp
  obtain a where a: "str_split (slashed (?ns @ [name])) CHR ''/'' = Inr a" "at_ok a" "at_list a = ?ns @ [name]"
    using str_split_ok [of "slashed (?ns @ [name])" "CHR ''/''"] tokens_slashed [OF names] by auto
  have none: "vfs_find_node_by_path (slashed (?ns @ [name])) s = Inr None"
    by (rule find_missing_path [OF assms(1,3,4,6,9,11)])
  have parent: "vfs_find_node_by_path_fat (slashed ?ns) s = Inr p"
    using find_by_path [OF assms(1,3)] assms(4,5) by (simp add: vfs_find_node_by_path_fat_def vfs_find_typed_def)
  have len: "at_size a = int (length ns) + 2" using at_ok_size [OF a(2)] a(3) by simp
  have look: "array_lookup a 0 = Inr (Some ''hdd'')" "array_lookup a (at_size a - 1) = Inr (Some name)"
    using array_lookup_as [OF a(2), of 0] array_lookup_as [OF a(2), of "length ns + 1"] a(3) len by (auto simp: nth_append)
  have pp: "foldl append_component [] (butlast (at_list a)) = slashed ?ns"
    using append_components [of "[]" ?ns] assms(12) a(3) by (simp only: butlast_snoc) simp
  obtain s' nd where s': "fat_create_directory p name s = Inr (vs_fresh s, s')" "vfs_wf s'" "fat_wf (vs_fat s')" "keeps_nodes s s'"
      "vs_nodes s' (vs_fresh s) = Some nd" "nd_name nd = name" "nd_parent nd = Some p" "nd_is_directory nd" "nd_type nd = FS_NODE_TYPE_FAT"
      "nd_children nd = Some (array_create 128)" "empty_directory (vs_fat s') (unat (fn_first (nd_fat nd)))" "vs_outbox s' = vs_outbox s"
    using fat_create_directory_ok [OF assms(1,2,4-11)] by blast
  have create: "vfs_create_directory (slashed (?ns @ [name])) s = Inr (True, s')"
    unfolding vfs_create_directory_def none a(1) ebind_simps look pp parent
    using look s'(1) parent pp by (simp add: strncmp_eq_def Let_def)
  define s2 where "s2 = fm_send source (CreateResult True) s'"
  have t2: "same_tree s' s2" by (simp add: s2_def fm_send_def same_tree_def)
  have keep: "keeps_nodes s s2" by (rule keeps_nodes_trans [OF s'(4) same_tree_keeps [OF t2]])
  have "node_path s2 (vs_fresh s) (?ns @ [nd_name nd])"
    by (rule node_path.child [OF keeps_node_path [OF assms(3) keep]]) (simp_all add: s2_def fm_send_def s'(5,7))
  then have "vfs_find_node_by_path (slashed (?ns @ [name])) s2 = Inr (Some (vs_fresh s))"
    unfolding s'(6) by (rule find_by_path [OF same_tree_wf [OF t2 s'(2)]]) simp
  moreover have "fm_message_received source (CreateDirectory (slashed (?ns @ [name]))) s = Some (Inr s2)"
    using create by (simp add: fm_message_received_def s2_def)
  ultimately show ?thesis
    unfolding path using s' same_tree_wf [OF t2 s'(2)] keeps_node_path [OF _ keep]
    by (intro exI [of _ s2] exI [of _ "vs_fresh s"] exI [of _ nd]) (simp add: s2_def fm_send_def)
qed

section \<open>Reading\<close>

text \<open>What the search for a requested file finds.\<close>

lemma find_existing_ok:
  assumes "vfs_wf s" and "node_path s p ns" and "ns \<noteq> []" and "vs_nodes s p = Some nd"
  shows "find_existing (slashed ns) s = Inr nd"
  using find_by_path [OF assms(1-3)] assms(4) by (simp add: find_existing_def)

text \<open>
  C30. A request for a whole file of the ramdisk is answered with exactly the file's bytes. A request for a
  whole file of the disk is answered with a file of size 0 and no data, whatever the file holds, because the
  size is never passed back.
\<close>

theorem read_request_answers:
  assumes "vfs_wf s" and "node_path s p ns" and "ns \<noteq> []" and "vs_nodes s p = Some nd"
  shows "(nd_type nd = FS_NODE_TYPE_INITRD \<and> unat (nd_initrd_offset nd - vs_initrd_start s) + unat (nd_initrd_size nd) \<le> length (vs_initrd s) \<longrightarrow>
      fm_message_received source (ReadFile (slashed ns)) s = Some (Inr (s\<lparr>vs_outbox := vs_outbox s @ [(source, FileData (nd_initrd_size nd)
        (take (unat (nd_initrd_size nd)) (drop (unat (nd_initrd_offset nd - vs_initrd_start s)) (vs_initrd s))))]\<rparr>)))
    \<and> (nd_type nd = FS_NODE_TYPE_FAT \<and> fat_wf (vs_fat s) \<and> fat_chain (vs_fat s) ks \<and> fn_first (nd_fat nd) = of_nat (hd ks)
        \<and> unat (fn_size (nd_fat nd)) \<le> 512 * length ks \<longrightarrow>
      fm_message_received source (ReadFile (slashed ns)) s = Some (Inr (s\<lparr>vs_outbox := vs_outbox s @ [(source, FileData 0 [])]\<rparr>)))"
  using find_existing_ok [OF assms] fat_read_file_ok [of "vs_fat s" ks "nd_fat nd"]
  by (auto simp: fm_message_received_def fm_read_file_def initrd_read_file_def field_def fm_send_def)

text \<open>A request for part of a file of the disk is answered with those bytes.\<close>

lemma partial_read_request_answers:
  assumes "vfs_wf s" and "node_path s p ns" and "ns \<noteq> []" and "vs_nodes s p = Some nd" and "nd_type nd = FS_NODE_TYPE_FAT"
    and "fat_wf (vs_fat s)" and "fat_chain (vs_fat s) ks" and "fn_first (nd_fat nd) = of_nat (hd ks)"
    and "fat_read_file_partial (nd_fat nd) offset len (vs_fat s) = Some (Inr (Some d, len, fs))" and "length d = unat len"
  shows "fm_message_received source (ReadFilePartial offset len (slashed ns)) s =
    Some (Inr (s\<lparr>vs_fat := fs, vs_outbox := vs_outbox s @ [(source, PartialData len d)]\<rparr>))"
  using find_existing_ok [OF assms(1-4)] assms(5,9,10)
  by (simp add: fm_message_received_def fm_read_file_partial_def field_all fm_send_def)

section \<open>Where names are cut short\<close>

text \<open>
  A file is created on the disk under its whole name, but its node is named after the first four characters:
  the precision is the size of an \<^verbatim>\<open>int\<close> instead of eight. Until the disk is parsed again the file is not found
  under its name.
\<close>

lemma create_node_name:
  assumes "fs_node_create is_dir parent nm (length nm) s = Inr (n, s')"
  shows "\<exists>nd. vs_nodes s' n = Some nd \<and> nd_name nd = nm"
  using assms by (auto simp: fs_node_create_def Let_def upd_node_def ebind_eq_Inr split: if_splits)

lemma created_file_node_name_cut:
  assumes "fat_create_file p name ext len data s = Inr (n, s')"
  shows "\<exists>nd. vs_nodes s' n = Some nd \<and> nd_name nd = take 4 name @ ''.'' @ take 4 ext"
proof -
  define nm where "nm = take 4 name @ ''.'' @ take 4 ext"
  have "take 31 nm = nm" by (simp add: nm_def)
  then obtain first s1 s2 where s2: "fs_node_create False (Some p) nm (length nm) s1 = Inr (n, s2)" "set_fat_node n first len s2 = Inr s'"
    using assms unfolding fat_create_file_def nm_def [symmetric] Let_def fs_node_create_file_def
    by (auto simp: ebind_eq_Inr split: if_splits prod.splits)
  obtain nd where "vs_nodes s2 n = Some nd" "nd_name nd = nm" using create_node_name [OF s2(1)] by blast
  then show ?thesis using s2(2) by (auto simp: set_fat_node_def upd_node_def nm_def)
qed

text \<open>A request for a path whose parent does not exist stops the file manager instead of being refused.\<close>

lemma missing_parent_stops_file_manager:
  assumes "vfs_find_node_by_path path s = Inr None" and "str_split path CHR ''/'' = Inr a" and "array_lookup a 0 = Inr (Some first)"
    and "take 3 first = ''hdd''" and "vfs_find_node_by_path (foldl append_component [] (butlast (at_list a))) s = Inr None"
  shows "fm_message_received source (CreateDirectory path) s = Some (Inl NullDeref)"
  using assms by (simp add: fm_message_received_def vfs_create_directory_def strncmp_eq_def Let_def
      vfs_find_node_by_path_fat_def vfs_find_typed_def)

section \<open>A mounted disk\<close>

definition root_node :: fs_node where
  "root_node = \<lparr>nd_type = FS_NODE_TYPE_ROOT, nd_name = ''/'', nd_parent = None, nd_is_directory = True,
     nd_children = Some (array_create 128), nd_fat = \<lparr>fn_first = 0, fn_size = 0\<rparr>, nd_initrd_offset = 0, nd_initrd_size = 0\<rparr>"

definition bare_vfs :: "fat_state \<Rightarrow> vfs_state" where
  "bare_vfs fs = \<lparr>vs_nodes = [0 \<mapsto> root_node], vs_fresh = 1, vs_root = Some 0, vs_fat = fs, vs_initrd_start = 0, vs_initrd = [], vs_outbox = []\<rparr>"

lemma bare_vfs_wf: "vfs_wf (bare_vfs fs)"
  by (auto simp: vfs_wf_def bare_vfs_def root_node_def node_ok_def children_ok_def split: if_splits)

lemma mounted_vfs:
  obtains s pd where "vfs_wf s" "fat_wf (vs_fat s)" "node_path s 1 [''hdd'']" "vs_nodes s 1 = Some pd" "nd_type pd = FS_NODE_TYPE_FAT"
    "nd_children pd = Some (array_create 128)" "nd_fat pd = \<lparr>fn_first = 0, fn_size = 512\<rparr>" "fat_has_room (vs_fat s) 0" "fat_chain (vs_fat s) [0]"
    "vs_outbox s = []"
proof -
  obtain fs where fs: "fat_wf fs" "\<forall>k < 131072. fat_allocated fs k \<longleftrightarrow> k = 0" "fe_next (fent fs 0) = 0" "fdat fs 0 = replicate 512 0"
    by (rule fresh_fs)
  have "card (fat_free fs) = 65535" by (rule fresh_free [OF fs(2)])
  then have room: "fat_has_room fs 0" using fs blank_slot by (auto simp: fat_has_room_def intro!: exI [of _ 0])
  let ?s = "bare_vfs fs"
  have b: "vs_nodes ?s 0 = Some root_node" "nd_children root_node = Some (array_create 128)" "vs_fresh ?s = 1" "name_ok ''hdd''"
    by (simp_all add: bare_vfs_def root_node_def name_ok_def)
  obtain s1 nd where s1: "vfs_wf s1" "keeps_nodes ?s s1" "vs_nodes s1 1 = Some nd" "nd_name nd = ''hdd''" "nd_parent nd = Some 0"
      "nd_children nd = Some (array_create 128)" "vs_fat s1 = fs" "vs_outbox s1 = []"
    using create_node_ok [OF bare_vfs_wf b(1,2) _ b(4), of True] b(3) by (auto simp: bare_vfs_def)
  obtain s2 where s2: "same_tree s1 s2" "vs_fat s2 = fs" "vs_outbox s2 = []"
      "vs_nodes s2 1 = Some (nd\<lparr>nd_type := FS_NODE_TYPE_FAT, nd_fat := \<lparr>fn_first = 0, fn_size = 512\<rparr>\<rparr>)"
    using set_fat_node_ok [OF s1(3), of 0 512] s1(7,8) by auto
  have "vs_root s2 = Some 0" using s1(2) s2(1) by (simp add: keeps_nodes_def same_tree_def bare_vfs_def)
  then have "node_path s2 1 ([] @ [nd_name nd])"
    using node_path.child [OF node_path.root [of s2 0] s2(4)] s1(5) by simp
  then show ?thesis
    using that [OF same_tree_wf [OF s2(1) s1(1)]] s2 s1 fs room by simp
qed

theorem create_directory_request_witness:
  "\<exists>s s' n. vfs_wf s \<and> fm_message_received ''awm'' (CreateDirectory ''/hdd/data'') s = Some (Inr s')
    \<and> vs_outbox s' = [(''awm'', CreateResult True)] \<and> vfs_find_node_by_path ''/hdd/data'' s' = Inr (Some n)"
proof -
  obtain s pd where s: "vfs_wf s" "fat_wf (vs_fat s)" "node_path s 1 [''hdd'']" "vs_nodes s 1 = Some pd" "nd_type pd = FS_NODE_TYPE_FAT"
    "nd_children pd = Some (array_create 128)" "nd_fat pd = \<lparr>fn_first = 0, fn_size = 512\<rparr>" "fat_has_room (vs_fat s) 0" "vs_outbox s = []"
    by (rule mounted_vfs)
  have "name_ok ''data''" by (simp add: name_ok_def)
  then show ?thesis
    using create_directory_request [OF s(1-6), where name = "''data''" and source = "''awm''"] s(1,7-9) by auto
qed

theorem read_request_answers_witness:
  "\<exists>s s'. vfs_wf s \<and> fm_message_received ''awm'' (ReadFile ''/hdd'') s = Some (Inr s') \<and> vs_outbox s' = [(''awm'', FileData 0 [])]"
proof -
  obtain s pd where s: "vfs_wf s" "fat_wf (vs_fat s)" "node_path s 1 [''hdd'']" "vs_nodes s 1 = Some pd" "nd_type pd = FS_NODE_TYPE_FAT"
    "nd_fat pd = \<lparr>fn_first = 0, fn_size = 512\<rparr>" "fat_chain (vs_fat s) [0]" "vs_outbox s = []"
    by (rule mounted_vfs)
  show ?thesis
    using read_request_answers [OF s(1,3) _ s(4), of "''awm''" "[0]"] s by auto
qed

end
