(* ===== verification/Fat_Mount.thy ===== *)
theory Fat_Mount
  imports Vfs
begin

text \<open>
  Mounting the disk: parsing a directory of files creates one node per used slot, with the name, first entry
  and size of the slot; and a file that was written is found under its name and reads back after the disk has
  been mounted again by a fresh file manager.
\<close>

definition slot_used :: "u8 list \<Rightarrow> nat \<Rightarrow> bool" where
  "slot_used b j \<longleftrightarrow> de_first (slot_at b j) \<noteq> 0"

definition slot_name :: "u8 list \<Rightarrow> nat \<Rightarrow> string" where
  "slot_name b j = array_cstr (de_filename (slot_at b j)) @ ''.'' @ array_cstr (de_ext (slot_at b j))"

text \<open>A directory that holds only files, under different proper names.\<close>

definition files_only :: "u8 list \<Rightarrow> bool" where
  "files_only b \<longleftrightarrow> length b = 512 \<and> (\<forall>j < 16. slot_used b j \<longrightarrow> \<not> de_is_directory (slot_at b j) \<and> name_ok (slot_name b j))
     \<and> (\<forall>j < 16. \<forall>k < 16. slot_used b j \<longrightarrow> slot_used b k \<longrightarrow> slot_name b j = slot_name b k \<longrightarrow> j = k)"

text \<open>The child of directory \<open>n\<close> that stands for slot \<open>j\<close>.\<close>

definition has_slot_node :: "vfs_state \<Rightarrow> node_addr \<Rightarrow> u8 list \<Rightarrow> nat \<Rightarrow> bool" where
  "has_slot_node s n b j \<longleftrightarrow> (\<exists>k kd. vs_nodes s k = Some kd \<and> nd_parent kd = Some n \<and> nd_name kd = slot_name b j
     \<and> nd_type kd = FS_NODE_TYPE_FAT \<and> nd_fat kd = \<lparr>fn_first = ucast (de_first (slot_at b j)), fn_size = de_size (slot_at b j)\<rparr>)"

lemma parse_file_slot:
  assumes "vfs_wf s" and "vs_nodes s n = Some nd" and "nd_children nd = Some c" and "length (at_list c) < 128"
    and "\<not> de_is_directory (slot_at b j)" and "name_ok (slot_name b j)" and "slot_name b j \<notin> node_name s ` set (at_list c)"
  shows "\<exists>k s' nd' c'. parse_node_from_fat_entry n (slot_at b j) s = Inr (k, s') \<and> vfs_wf s' \<and> keeps_nodes s s' \<and> vs_fat s' = vs_fat s
    \<and> vs_nodes s' n = Some nd' \<and> nd_children nd' = Some c' \<and> length (at_list c') = Suc (length (at_list c))
    \<and> node_name s' ` set (at_list c') = insert (slot_name b j) (node_name s ` set (at_list c))
    \<and> has_slot_node s' n b j \<and> (\<forall>i. has_slot_node s n b i \<longrightarrow> has_slot_node s' n b i)"
proof -
  let ?nm = "slot_name b j" and ?e = "slot_at b j" and ?k = "vs_fresh s"
  obtain s1 kd c' where s1: "fs_node_create False (Some n) ?nm (length ?nm) s = Inr (?k, s1)" "vfs_wf s1" "keeps_nodes s s1"
      "vs_nodes s1 ?k = Some kd" "nd_name kd = ?nm" "nd_parent kd = Some n" "vs_fat s1 = vs_fat s"
      "vs_nodes s1 n = Some (nd\<lparr>nd_children := Some c'\<rparr>)" "at_list c' = at_list c @ [?k]"
      "\<forall>q. q \<noteq> n \<and> q \<noteq> ?k \<longrightarrow> vs_nodes s1 q = vs_nodes s q"
    using create_node_ok [OF assms(1-4,6,7), of False] by blast
  obtain s2 where s2: "set_fat_node ?k (ucast (de_first ?e)) (de_size ?e) s1 = Inr s2" "same_tree s1 s2" "vs_fat s2 = vs_fat s1"
      "vs_nodes s2 ?k = Some (kd\<lparr>nd_type := FS_NODE_TYPE_FAT, nd_fat := \<lparr>fn_first = ucast (de_first ?e), fn_size = de_size ?e\<rparr>\<rparr>)"
      "\<forall>m. m \<noteq> ?k \<longrightarrow> vs_nodes s2 m = vs_nodes s1 m"
    using set_fat_node_ok [OF s1(4), of "ucast (de_first ?e)" "de_size ?e"] by blast
  have run: "parse_node_from_fat_entry n ?e s = Inr (?k, s2)"
    unfolding parse_node_from_fat_entry_def fs_node_create_file_def slot_name_def [symmetric] Let_def
    using assms(5) s1(1) s2(1) by simp
  have wf: "\<And>q qd. vs_nodes s q = Some qd \<Longrightarrow> q < ?k" using assms(1) by (auto simp: vfs_wf_def node_ok_def)
  have nk: "n < ?k" by (rule wf [OF assms(2)])
  have keep: "keeps_nodes s s2" by (rule keeps_nodes_trans [OF s1(3) same_tree_keeps [OF s2(2)]])
  have cok: "children_ok s n c" using vfs_wf_node [OF assms(1,2)] assms(3) by (auto simp: node_ok_def)
  have "node_name s2 m = node_name s m" if "m \<in> set (at_list c)" for m
  proof -
    obtain md where md: "vs_nodes s m = Some md" using cok \<open>m \<in> set (at_list c)\<close> by (auto simp: children_ok_def)
    then obtain md' where "vs_nodes s2 m = Some md'" "nd_name md' = nd_name md" using keep unfolding keeps_nodes_def by blast
    then show ?thesis using md by (simp add: node_name_def)
  qed
  moreover have "node_name s2 ?k = ?nm" using s2(4) s1(5) by (simp add: node_name_def)
  ultimately have names: "node_name s2 ` set (at_list c') = insert ?nm (node_name s ` set (at_list c))" by (auto simp: s1(9))
  have other: "has_slot_node s2 n b i" if old: "has_slot_node s n b i" for i
  proof -
    obtain m md where m: "vs_nodes s m = Some md" "nd_parent md = Some n" "nd_name md = slot_name b i" "nd_type md = FS_NODE_TYPE_FAT"
      "nd_fat md = \<lparr>fn_first = ucast (de_first (slot_at b i)), fn_size = de_size (slot_at b i)\<rparr>"
      using old by (auto simp: has_slot_node_def)
    have "n < m" using vfs_wf_node [OF assms(1) m(1)] m(2) by (auto simp: node_ok_def)
    then have "vs_nodes s2 m = Some md" using s1(10) s2(5) wf [OF m(1)] m(1) by simp
    then show ?thesis using m unfolding has_slot_node_def by blast
  qed
  have "has_slot_node s2 n b j" unfolding has_slot_node_def using s2(4) s1(5,6) by (intro exI [of _ ?k]) simp
  then show ?thesis
    using run same_tree_wf [OF s2(2) s1(2)] keep s2(3) s1(7,8,9) s2(5) nk names other
    by (intro exI [of _ ?k] exI [of _ s2] exI [of _ "nd\<lparr>nd_children := Some c'\<rparr>"] exI [of _ c']) simp
qed

text \<open>Parsing such a directory from slot \<open>i\<close> on.\<close>

lemma parse_files_from:
  assumes "files_only b" and "vfs_wf s" and "vs_nodes s n = Some nd" and "nd_children nd = Some c" and "length (at_list c) \<le> unat i"
    and "unat i \<le> 16" and "node_name s ` set (at_list c) \<subseteq> {slot_name b j | j. j < unat i \<and> slot_used b j}"
    and "\<forall>j < unat i. slot_used b j \<longrightarrow> has_slot_node s n b j"
  shows "\<exists>s'. parse_fat_directories [\<lparr>df_node = n, df_sector = b, df_count = 16, df_slot = i\<rparr>] s = Some (Inr s') \<and> vfs_wf s' \<and> keeps_nodes s s'
    \<and> vs_fat s' = vs_fat s \<and> (\<forall>j < 16. slot_used b j \<longrightarrow> has_slot_node s' n b j)"
  using assms(2-8)
proof (induction "16 - unat i" arbitrary: i s nd c rule: less_induct)
  case less
  let ?f = "\<lambda>i. \<lparr>df_node = n, df_sector = b, df_count = 16, df_slot = i\<rparr>"
  have len: "length b = 512" using assms(1) by (simp add: files_only_def)
  show ?case
  proof (cases "i < 16")
    case False
    then have "unat i = 16" using less.prems(5) by (simp add: word_less_nat_alt)
    then show ?thesis using False less.prems
      by (intro exI [of _ s]) (simp add: parse_fat_directories.simps [of "[?f i]"] parse_fat_directories.simps [of "[]"] keeps_nodes_def)
  next
    case True
    then have i: "unat i < 16" "unat (i + 1) = Suc (unat i)" using unat_Suc_less [OF True] by (simp_all add: word_less_nat_alt)
    have get: "get_slot b i = Inr (slot_at b (unat i))" using i(1) len by (intro get_slot_at) simp
    have upto: "j < unat (i + 1) \<longleftrightarrow> j < unat i \<or> j = unat i" for j using i(2) by auto
    show ?thesis
    proof (cases "slot_used b (unat i)")
      case False
      then have eq: "parse_fat_directories [?f i] s = parse_fat_directories [?f (i + 1)] s"
        using True get by (simp add: parse_fat_directories.simps [of "[?f i]"] slot_used_def FAT_SECTOR_TYPE_EOF_def)
      show ?thesis unfolding eq
        by (rule less.hyps [OF _ less.prems(1-3)]) (use i less.prems False upto in \<open>auto\<close>)
    next
      case used: True
      have plain: "\<not> de_is_directory (slot_at b (unat i))" "name_ok (slot_name b (unat i))" using assms(1) used i(1) by (auto simp: files_only_def)
      have uniq: "slot_name b j \<noteq> slot_name b (unat i)" if "j < unat i" "slot_used b j" for j
      proof
        assume "slot_name b j = slot_name b (unat i)"
        moreover have "j < 16" using that(1) i(1) by simp
        ultimately have "j = unat i" using assms(1) used that(2) i(1) unfolding files_only_def by blast
        then show False using that(1) by simp
      qed
      have fresh: "slot_name b (unat i) \<notin> node_name s ` set (at_list c)"
      proof (rule notI)
        assume "slot_name b (unat i) \<in> node_name s ` set (at_list c)"
        then obtain j where "slot_name b (unat i) = slot_name b j" "j < unat i" "slot_used b j" using less.prems(6) by blast
        then show False using uniq [of j] by simp
      qed
      have room: "length (at_list c) < 128" using less.prems(4,5) by simp
      obtain k s1 nd1 c1 where s1: "parse_node_from_fat_entry n (slot_at b (unat i)) s = Inr (k, s1)" "vfs_wf s1" "keeps_nodes s s1"
          "vs_fat s1 = vs_fat s" "vs_nodes s1 n = Some nd1" "nd_children nd1 = Some c1" "length (at_list c1) = Suc (length (at_list c))"
          "node_name s1 ` set (at_list c1) = insert (slot_name b (unat i)) (node_name s ` set (at_list c))"
          "has_slot_node s1 n b (unat i)" "\<forall>i. has_slot_node s n b i \<longrightarrow> has_slot_node s1 n b i"
        using parse_file_slot [OF less.prems(1-3) room plain fresh] by blast
      have eq: "parse_fat_directories [?f i] s = parse_fat_directories [?f (i + 1)] s1"
        using True get used plain(1) s1(1) by (simp add: parse_fat_directories.simps [of "[?f i]"] slot_used_def FAT_SECTOR_TYPE_EOF_def)
      have "\<exists>s'. parse_fat_directories [?f (i + 1)] s1 = Some (Inr s') \<and> vfs_wf s' \<and> keeps_nodes s1 s'
          \<and> vs_fat s' = vs_fat s1 \<and> (\<forall>j < 16. slot_used b j \<longrightarrow> has_slot_node s' n b j)"
        by (rule less.hyps [OF _ s1(2,5,6)]) (use i s1(7-10) less.prems(4-7) used upto in \<open>auto\<close>)
      then show ?thesis unfolding eq using keeps_nodes_trans [OF s1(3)] s1(4) by auto
    qed
  qed
qed

section \<open>Mounting a written disk\<close>

text \<open>The file system as a file manager finds it when it starts: only the disk is left.\<close>

definition rebooted :: "fat_state \<Rightarrow> fat_state" where
  "rebooted fs = fs\<lparr>fat_cache := None, fat_last_sector := 1\<rparr>"

lemma remount_cache:
  assumes "fat_wf fs"
  shows "\<exists>fs'. fat_cache_create (fat_set_drive_info (rebooted fs)) = Inr fs' \<and> fat_wf fs' \<and> fat_disk fs' = fat_disk fs"
proof -
  obtain c where c: "fat_cache_fill 1024 0 (array_create 1024) = Inr c" "at_ok c" "at_list c = replicate 1024 \<lparr>cs_valid = False, cs_data = replicate 512 0\<rparr>"
    using cache_fill_ok [of "array_create 1024" 0] by auto
  let ?fs = "rebooted fs\<lparr>fat_info := fat_geometry, fat_cache := Some c\<rparr>"
  have "fat_cache_create (fat_set_drive_info (rebooted fs)) = Inr ?fs" using c(1) by (simp add: fat_cache_create_def)
  moreover have "cache_coherent UNIV ?fs" using c(2,3) by (simp add: cache_coherent_def)
  then have "fat_wf ?fs" using assms by (simp add: fat_wf_def rebooted_def fent_def)
  ultimately show ?thesis by (intro exI [of _ ?fs]) (simp add: rebooted_def)
qed

lemma mount_files:
  assumes "fat_wf fs" and "files_only (fdat fs 0)"
  shows "\<exists>s. fat_parse_from_disk 0 (bare_vfs (rebooted fs)) = Some (Inr (1, s)) \<and> vfs_wf s \<and> fat_wf (vs_fat s)
    \<and> fat_disk (vs_fat s) = fat_disk fs \<and> node_path s 1 [''hdd''] \<and> (\<forall>j < 16. slot_used (fdat fs 0) j \<longrightarrow> has_slot_node s 1 (fdat fs 0) j)"
proof -
  let ?s0 = "bare_vfs (fat_set_drive_info (rebooted fs))"
  have b: "vs_nodes ?s0 0 = Some root_node" "nd_children root_node = Some (array_create 128)" "vs_fresh ?s0 = 1" "name_ok ''hdd''"
    by (simp_all add: bare_vfs_def root_node_def name_ok_def)
  have e: "length (at_list (array_create 128 :: node_addr array_t)) < 128" "''hdd'' \<notin> node_name ?s0 ` set (at_list (array_create 128))"
    "length ''hdd'' = 3" "vs_fat ?s0 = fat_set_drive_info (rebooted fs)" by (simp_all add: bare_vfs_def)
  obtain s1 nd where s1: "fs_node_create True (Some 0) ''hdd'' 3 ?s0 = Inr (1, s1)" "vfs_wf s1" "keeps_nodes ?s0 s1" "vs_nodes s1 1 = Some nd"
      "nd_name nd = ''hdd''" "nd_parent nd = Some 0" "nd_children nd = Some (array_create 128)" "vs_fat s1 = fat_set_drive_info (rebooted fs)"
    using create_node_ok [OF bare_vfs_wf b(1,2) e(1) b(4) e(2), of True] unfolding b(3) e(3,4) if_True by blast
  obtain s2 where s2: "set_fat_node 1 0 512 s1 = Inr s2" "same_tree s1 s2" "vs_fat s2 = fat_set_drive_info (rebooted fs)"
      "vs_nodes s2 1 = Some (nd\<lparr>nd_type := FS_NODE_TYPE_FAT, nd_fat := \<lparr>fn_first = 0, fn_size = 512\<rparr>\<rparr>)"
    using set_fat_node_ok [OF s1(4), of 0 512] s1(8) by auto
  have "\<exists>s'. parse_fat_directories [\<lparr>df_node = 1, df_sector = fdat fs 0, df_count = 16, df_slot = 0\<rparr>] s2 = Some (Inr s') \<and> vfs_wf s' \<and> keeps_nodes s2 s'
      \<and> vs_fat s' = vs_fat s2 \<and> (\<forall>j < 16. slot_used (fdat fs 0) j \<longrightarrow> has_slot_node s' 1 (fdat fs 0) j)"
    by (rule parse_files_from [OF assms(2) same_tree_wf [OF s2(2) s1(2)] s2(4), of "array_create 128"]) (use s1(7) in simp_all)
  then obtain s3 where s3: "parse_fat_directories [\<lparr>df_node = 1, df_sector = fdat fs 0, df_count = 16, df_slot = 0\<rparr>] s2 = Some (Inr s3)"
      "vfs_wf s3" "keeps_nodes s2 s3" "vs_fat s3 = vs_fat s2" "\<forall>j < 16. slot_used (fdat fs 0) j \<longrightarrow> has_slot_node s3 1 (fdat fs 0) j" by blast
  obtain fs' where fs': "fat_cache_create (fat_set_drive_info (rebooted fs)) = Inr fs'" "fat_wf fs'" "fat_disk fs' = fat_disk fs"
    using remount_cache [OF assms(1)] by blast
  let ?s = "s3\<lparr>vs_fat := fs'\<rparr>"
  have t: "same_tree s3 ?s" by (simp add: same_tree_def)
  have "vs_root s2 = Some 0" using s1(3) s2(2) by (simp add: keeps_nodes_def same_tree_def bare_vfs_def)
  then have "node_path s2 1 ([] @ [nd_name nd])" using node_path.child [OF node_path.root [of s2 0] s2(4)] s1(6) by simp
  then have np: "node_path ?s 1 [''hdd'']"
    using keeps_node_path keeps_nodes_trans [OF s3(3) same_tree_keeps [OF t]] s1(5) by fastforce
  have "fat_parse_from_disk 0 (bare_vfs (rebooted fs)) = Some (Inr (1, ?s))"
    using s1(1) s2(1,3) s3(1,4) fs'(1)
    by (simp add: fat_parse_from_disk_def fs_node_create_directory_def ata_read_sector_def bare_vfs_def Let_def fdat_def data_sector_def rebooted_def)
  then show ?thesis using same_tree_wf [OF t s3(2)] fs'(2,3) np s3(5) by (intro exI [of _ ?s]) (simp add: has_slot_node_def)
qed

lemma array_cstr_name: "no_nul n \<Longrightarrow> array_cstr (put_name m n) = take m n"
  using get_name_put [of n m "[]" "[]"] by (simp add: array_cstr_def get_name_def field_def)

text \<open>
  C28. A file that is written into the root directory of the disk, next to other files with other names, survives
  a restart: when a fresh file manager mounts the disk, the file is found under its full name, and the node
  found reads back as exactly the data that was written.
\<close>

theorem file_survives_remount:
  assumes "fat_wf fs" and "files_only (fdat fs 0)" and "f < 16" and "\<not> slot_used (fdat fs 0) f" and "\<forall>j < f. slot_used (fdat fs 0) j"
    and "data \<noteq> []" and "(length data + 511) div 512 \<le> card (fat_free fs)" and "length data < 2 ^ 32"
    and "length name \<le> 8" and "length ext \<le> 3" and "no_nul name" and "no_nul ext" and "CHR ''/'' \<notin> set (name @ ext)"
    and "\<forall>j < 16. slot_used (fdat fs 0) j \<longrightarrow> slot_name (fdat fs 0) j \<noteq> name @ ''.'' @ ext"
  shows "\<exists>idx fs' s p nd. fat_create_dir_or_file (fat_info fs) 0 False name ext (of_nat (length data)) data fs = Inr (idx, fs')
    \<and> fat_parse_from_disk 0 (bare_vfs (rebooted fs')) = Some (Inr (1, s))
    \<and> vfs_find_node_by_path (''/hdd/'' @ name @ ''.'' @ ext) s = Inr (Some p) \<and> vs_nodes s p = Some nd \<and> nd_type nd = FS_NODE_TYPE_FAT
    \<and> fat_read_file (nd_fat nd) sz (vs_fat s) = Some (Inr (data, sz))"
proof -
  have alloc: "(0 :: nat) < 131072" "fat_allocated fs 0" using assms(1) by (simp_all add: fat_wf_def)
  have sl: "de_first (slot_at (fdat fs 0) f) = 0" "\<forall>j < f. de_first (slot_at (fdat fs 0) j) \<noteq> 0" using assms(4,5) by (auto simp: slot_used_def)
  obtain ks fs' where c: "fat_create_dir_or_file (fat_info fs) (of_nat 0) False name ext (of_nat (length data)) data fs = Inr (of_nat (hd ks), fs')"
      "fat_wf fs'" "fat_chain fs' ks" "take (length data) (fat_bytes fs' ks) = data" "length data \<le> 512 * length ks" "hd ks < 65536" "hd ks \<noteq> 0"
      "slot_at (fdat fs' 0) f = \<lparr>de_is_directory = False, de_filename = put_name 8 name, de_ext = put_name 3 ext,
        de_first = of_nat (hd ks), de_size = of_nat (length data)\<rparr>"
      "\<forall>j < 16. j \<noteq> f \<longrightarrow> slot_at (fdat fs' 0) j = slot_at (fdat fs 0) j"
    by (rule create_file_chain [OF assms(1) alloc assms(3) sl assms(6-8), of name ext]) (rule that)
  let ?b = "fdat fs' 0" and ?nm = "name @ ''.'' @ ext"
  have fname: "slot_name ?b f = ?nm" using c(8) assms(9-12) by (simp add: slot_name_def array_cstr_name)
  have used: "slot_used ?b f" using c(6-8) by (auto simp: slot_used_def word_unat_eq_iff unat_of_nat)
  have same: "slot_used ?b j = slot_used (fdat fs 0) j" "slot_name ?b j = slot_name (fdat fs 0) j"
      "de_is_directory (slot_at ?b j) = de_is_directory (slot_at (fdat fs 0) j)" if "j < 16" "j \<noteq> f" for j
    using c(9) that by (simp_all add: slot_used_def slot_name_def)
  have nok: "name_ok ?nm" using assms(9,10,13) by (simp add: name_ok_def)
  have "files_only ?b"
    unfolding files_only_def
  proof (intro conjI allI impI)
    show "length ?b = 512" using c(2) by (simp add: fat_wf_def fdat_def)
    show "\<not> de_is_directory (slot_at ?b j)" "name_ok (slot_name ?b j)" if "j < 16" "slot_used ?b j" for j
      using that assms(2) same [of j] c(8) fname nok by (cases "j = f"; simp add: files_only_def)+
    show "j = k" if "j < 16" "k < 16" "slot_used ?b j" "slot_used ?b k" "slot_name ?b j = slot_name ?b k" for j k
      using that assms(2,14) same [of j] same [of k] fname unfolding files_only_def by (cases "j = f"; cases "k = f") auto
  qed
  then obtain s where s: "fat_parse_from_disk 0 (bare_vfs (rebooted fs')) = Some (Inr (1, s))" "vfs_wf s" "fat_wf (vs_fat s)"
      "fat_disk (vs_fat s) = fat_disk fs'" "node_path s 1 [''hdd'']" "has_slot_node s 1 ?b f"
    using mount_files [OF c(2)] used assms(3) by blast
  obtain p nd where p: "vs_nodes s p = Some nd" "nd_parent nd = Some 1" "nd_name nd = ?nm" "nd_type nd = FS_NODE_TYPE_FAT"
      "nd_fat nd = \<lparr>fn_first = ucast (de_first (slot_at ?b f)), fn_size = de_size (slot_at ?b f)\<rparr>"
    using s(6) fname unfolding has_slot_node_def by metis
  have "node_path s p ([''hdd''] @ [?nm])" using node_path.child [OF s(5) p(1,2)] p(3) by simp
  then have find: "vfs_find_node_by_path (''/hdd/'' @ ?nm) s = Inr (Some p)" using find_by_path [OF s(2), of p "[''hdd'', ?nm]"] by simp
  have re: "recached fs' (vs_fat s)" using s(3,4) by (simp add: recached_def)
  have "fn_first (nd_fat nd) = of_nat (hd ks)" "fn_size (nd_fat nd) = of_nat (length data)"
    using p(5) c(6,8) by (simp_all add: word_unat_eq_iff unsigned_ucast_eq unat_of_nat take_bit_eq_mod)
  then have "fat_read_file (nd_fat nd) sz (vs_fat s) = Some (Inr (data, sz))"
    using fat_read_file_ok [OF s(3) recached_chain [OF re c(3)], of "nd_fat nd" sz] c(4,5) assms(8) recached_frame(4) [OF re]
    by (simp add: unat_of_nat)
  moreover have "fat_create_dir_or_file (fat_info fs) 0 False name ext (of_nat (length data)) data fs = Inr (of_nat (hd ks), fs')"
    using c(1) by simp
  ultimately show ?thesis using s(1) find p(1,4) by blast
qed

theorem file_survives_remount_witness:
  "\<exists>fs idx fs' s p nd. fat_wf fs \<and> fat_create_dir_or_file (fat_info fs) 0 False ''doom1'' ''wad'' 3 [7, 8, 9] fs = Inr (idx, fs')
    \<and> fat_parse_from_disk 0 (bare_vfs (rebooted fs')) = Some (Inr (1, s))
    \<and> vfs_find_node_by_path ''/hdd/doom1.wad'' s = Inr (Some p) \<and> vs_nodes s p = Some nd
    \<and> fat_read_file (nd_fat nd) 0 (vs_fat s) = Some (Inr ([7, 8, 9], 0))"
proof -
  obtain fs where fs: "fat_wf fs" "\<forall>k < 131072. fat_allocated fs k \<longleftrightarrow> k = 0" "fdat fs 0 = replicate 512 0"
    by (rule fresh_fs)
  have unused: "\<not> slot_used (replicate 512 0) j" if "j < 16" for j
    using that by (simp add: slot_used_def slot_at_def part_def numeral_2_eq_2)
  then have "files_only (fdat fs 0)" using fs(3) by (simp add: files_only_def)
  then show ?thesis
    using file_survives_remount [of fs 0 "[7, 8, 9]" "''doom1''" "''wad''" 0] fs fresh_free [OF fs(2)] unused by (auto simp: no_nul_def)
qed

end
