(* ===== verification/Agx_Rect.thy ===== *)
theory Agx_Rect
  imports Array_M
begin

text \<open>
  The rectangle algebra of the graphics library (\<^verbatim>\<open>libagx/lib/rect.c\<close>) and the region arithmetic the window
  manager builds on it (\<^verbatim>\<open>awm/utils.c\<close>). Coordinates are C \<^verbatim>\<open>int\<close>s and are read as \<open>int\<close>; where the code goes
  through \<^verbatim>\<open>uint32_t\<close> the conversions are written out. Rectangles in arrays are heap objects owned by the
  array that holds them and are never shared, so an array of pointers to them is an array of rectangles.

  A rectangle stands for the half-open set of pixels \<open>pix\<close>. Splitting is exact: the pieces of \<^verbatim>\<open>rect_diff\<close> and
  of \<^verbatim>\<open>update_occlusions\<close> are non-empty, pairwise disjoint, and together are exactly the set difference, as
  long as the rectangles overlap; without an overlap \<^verbatim>\<open>rect_diff\<close> loses pixels. The intersection covers the
  common pixels but may be larger.
\<close>

subsection \<open>Data\<close>

record point =
  pt_x :: int
  pt_y :: int

record size2d =
  sz_width :: int
  sz_height :: int

record rect =
  r_origin :: point
  r_size :: size2d

definition point_make :: "int \<Rightarrow> int \<Rightarrow> point" where
  "point_make x y = \<lparr>pt_x = x, pt_y = y\<rparr>"

definition size_make :: "int \<Rightarrow> int \<Rightarrow> size2d" where
  "size_make w h = \<lparr>sz_width = w, sz_height = h\<rparr>"

definition rect_make :: "point \<Rightarrow> size2d \<Rightarrow> rect" where
  "rect_make o' s = \<lparr>r_origin = o', r_size = s\<rparr>"

definition rect_zero :: rect where
  "rect_zero = rect_make (point_make 0 0) (size_make 0 0)"

abbreviation rect_width :: "rect \<Rightarrow> int" where "rect_width r \<equiv> sz_width (r_size r)"
abbreviation rect_height :: "rect \<Rightarrow> int" where "rect_height r \<equiv> sz_height (r_size r)"

definition rect_min_x :: "rect \<Rightarrow> int" where "rect_min_x r = pt_x (r_origin r)"
definition rect_min_y :: "rect \<Rightarrow> int" where "rect_min_y r = pt_y (r_origin r)"
definition rect_max_x :: "rect \<Rightarrow> int" where "rect_max_x r = pt_x (r_origin r) + rect_width r"
definition rect_max_y :: "rect \<Rightarrow> int" where "rect_max_y r = pt_y (r_origin r) + rect_height r"

text \<open>Updates of one field of a nested struct, as in \<^verbatim>\<open>bg.origin.x += diff\<close>.\<close>

definition add_origin_x :: "rect \<Rightarrow> int \<Rightarrow> rect" where
  "add_origin_x r d = r\<lparr>r_origin := (r_origin r)\<lparr>pt_x := pt_x (r_origin r) + d\<rparr>\<rparr>"

definition add_origin_y :: "rect \<Rightarrow> int \<Rightarrow> rect" where
  "add_origin_y r d = r\<lparr>r_origin := (r_origin r)\<lparr>pt_y := pt_y (r_origin r) + d\<rparr>\<rparr>"

definition set_width :: "rect \<Rightarrow> int \<Rightarrow> rect" where
  "set_width r w = r\<lparr>r_size := (r_size r)\<lparr>sz_width := w\<rparr>\<rparr>"

definition set_height :: "rect \<Rightarrow> int \<Rightarrow> rect" where
  "set_height r h = r\<lparr>r_size := (r_size r)\<lparr>sz_height := h\<rparr>\<rparr>"

subsection \<open>\<^verbatim>\<open>rect.c\<close>\<close>

definition val_in_range :: "int \<Rightarrow> int \<Rightarrow> int \<Rightarrow> bool" where
  "val_in_range value mn mx \<longleftrightarrow> value \<ge> mn \<and> value < mx"

definition rect_intersects :: "rect \<Rightarrow> rect \<Rightarrow> bool" where
  "rect_intersects A B \<longleftrightarrow>
     (let x_overlap = val_in_range (rect_min_x A) (rect_min_x B) (rect_max_x B)
            \<or> val_in_range (rect_min_x B) (rect_min_x A) (rect_max_x A);
          y_overlap = val_in_range (rect_min_y A) (rect_min_y B) (rect_max_y B)
            \<or> val_in_range (rect_min_y B) (rect_min_y A) (rect_max_y A)
      in x_overlap \<and> y_overlap)"

definition Rect_new :: "int \<Rightarrow> int \<Rightarrow> int \<Rightarrow> int \<Rightarrow> rect" where
  "Rect_new t l b r = rect_make (point_make l t) (size_make (r - l) (b - t))"

text \<open>\<^verbatim>\<open>max_x\<close> and \<^verbatim>\<open>max_y\<close> are \<^verbatim>\<open>uint32_t\<close>; the widths are computed unsigned and converted back to \<^verbatim>\<open>int\<close>.\<close>

definition rect_union :: "rect \<Rightarrow> rect \<Rightarrow> rect" where
  "rect_union a b =
     (let x = min (rect_min_x a) (rect_min_x b);
          y = min (rect_min_y a) (rect_min_y b);
          max_x = word_of_int (max (rect_max_x a) (rect_max_x b)) :: u32;
          max_y = word_of_int (max (rect_max_y a) (rect_max_y b)) :: u32
      in rect_make (point_make x y)
           (size_make (sint (max_x - word_of_int x)) (sint (max_y - word_of_int y))))"

definition rect_is_null :: "rect \<Rightarrow> bool" where
  "rect_is_null r \<longleftrightarrow> rect_min_x r = 0 \<and> rect_min_y r = 0 \<and> rect_max_x r = 0 \<and> rect_max_y r = 0"

definition rect_intersect :: "rect \<Rightarrow> rect \<Rightarrow> rect" where
  "rect_intersect a b =
     (if \<not> (rect_min_x a \<le> rect_max_x b) \<and> rect_max_x a \<ge> rect_min_x b
         \<and> rect_min_y a \<le> rect_max_y b \<and> rect_max_y a \<ge> rect_min_y b
      then rect_zero
      else
        let result = a;
            result = (if rect_min_x b \<ge> rect_min_x result \<and> rect_min_x b \<le> rect_max_x result
                      then let diff = rect_min_x b - rect_min_x result
                           in set_width (add_origin_x result diff) (rect_width result - diff)
                      else result);
            result = (if rect_min_y b \<ge> rect_min_y result \<and> rect_min_y b \<le> rect_max_y result
                      then let diff = rect_min_y b - rect_min_y result
                           in set_height (add_origin_y result diff) (rect_height result - diff)
                      else result);
            result = (if rect_max_x b \<ge> rect_min_x result \<and> rect_max_x b \<le> rect_max_x result
                      then set_width result (rect_width b) else result);
            result = (if rect_max_x b \<ge> rect_min_y result \<and> rect_max_y b \<le> rect_max_y result
                      then set_height result (rect_height b) else result)
        in result)"

definition rect_contains_point :: "rect \<Rightarrow> point \<Rightarrow> bool" where
  "rect_contains_point r p \<longleftrightarrow>
     pt_x p \<ge> rect_min_x r \<and> pt_y p \<ge> rect_min_y r \<and> pt_x p < rect_max_x r \<and> pt_y p < rect_max_y r"

definition convert_rect :: "rect \<Rightarrow> rect \<Rightarrow> rect" where
  "convert_rect outer inner =
     rect_make
       (point_make (pt_x (r_origin inner) + pt_x (r_origin outer)) (pt_y (r_origin inner) + pt_y (r_origin outer)))
       (size_make (min (rect_width inner) (rect_width outer)) (min (rect_height inner) (rect_height outer)))"

definition rect_inset :: "rect \<Rightarrow> int \<Rightarrow> int \<Rightarrow> rect" where
  "rect_inset src dx dy =
     (let ret = rect_make (point_make (pt_x (r_origin src) - dx) (pt_y (r_origin src) - dy))
                  (size_make (rect_width src + dx * 2) (rect_height src + dy * 2))
      in if rect_width ret < 0 \<or> rect_height ret < 0 then rect_zero else ret)"

subsection \<open>\<^verbatim>\<open>awm/utils.c\<close>\<close>

definition rect_contains_rect :: "rect \<Rightarrow> rect \<Rightarrow> bool" where
  "rect_contains_rect a b \<longleftrightarrow>
     rect_max_x b \<le> rect_max_x a \<and> rect_min_x b \<ge> rect_min_x a
     \<and> rect_min_y b \<ge> rect_min_y a \<and> rect_max_y b \<le> rect_max_y a"

text \<open>
  The four blocks of \<^verbatim>\<open>rect_diff\<close>. Each cuts a piece off the background at one edge of the foreground,
  adds it to the output array and shrinks the background.
\<close>

definition split_left :: "rect \<Rightarrow> rect array_t \<Rightarrow> rect \<Rightarrow> (rect array_t \<times> rect) res" where
  "split_left fg out bg =
     (if rect_min_x fg > rect_min_x bg \<and> rect_min_x fg \<le> rect_max_x bg
      then let diff = rect_min_x fg - rect_min_x bg;
               r = rect_make (point_make (rect_min_x bg) (rect_min_y bg)) (size_make diff (rect_height bg))
           in ebind (array_insert out r) (\<lambda>out.
              Inr (out, set_width (add_origin_x bg diff) (rect_width bg - diff)))
      else Inr (out, bg))"

definition split_top :: "rect \<Rightarrow> rect array_t \<Rightarrow> rect \<Rightarrow> (rect array_t \<times> rect) res" where
  "split_top fg out bg =
     (if rect_min_y fg > rect_min_y bg \<and> rect_min_y fg \<le> rect_max_y bg
      then let diff = rect_min_y fg - rect_min_y bg;
               r = rect_make (point_make (rect_min_x bg) (rect_min_y bg)) (size_make (rect_width bg) diff)
           in ebind (array_insert out r) (\<lambda>out.
              Inr (out, set_height (add_origin_y bg diff) (rect_height bg - diff)))
      else Inr (out, bg))"

definition split_right :: "rect \<Rightarrow> rect array_t \<Rightarrow> rect \<Rightarrow> (rect array_t \<times> rect) res" where
  "split_right fg out bg =
     (if rect_max_x fg > rect_min_x bg \<and> rect_max_x fg < rect_max_x bg
      then let diff = rect_max_x bg - rect_max_x fg;
               r = rect_make (point_make (rect_max_x fg) (rect_min_y bg)) (size_make diff (rect_height bg))
           in ebind (array_insert out r) (\<lambda>out. Inr (out, set_width bg (rect_width bg - diff)))
      else Inr (out, bg))"

definition split_bottom :: "rect \<Rightarrow> rect array_t \<Rightarrow> rect \<Rightarrow> (rect array_t \<times> rect) res" where
  "split_bottom fg out bg =
     (if rect_max_y fg > rect_min_y bg \<and> rect_max_y fg < rect_max_y bg
      then let diff = rect_max_y bg - rect_max_y fg;
               r = rect_make (point_make (rect_min_x bg) (rect_max_y fg)) (size_make (rect_width bg) diff)
           in ebind (array_insert out r) (\<lambda>out. Inr (out, set_height bg (rect_height bg - diff)))
      else Inr (out, bg))"

definition rect_diff :: "rect \<Rightarrow> rect \<Rightarrow> rect array_t res" where
  "rect_diff bg fg =
     ebind (split_left fg (array_create 5) bg) (\<lambda>(out, bg).
     ebind (split_top fg out bg) (\<lambda>(out, bg).
     ebind (split_right fg out bg) (\<lambda>(out, bg).
     ebind (split_bottom fg out bg) (\<lambda>(out, bg). Inr out))))"

definition rect_add :: "rect array_t \<Rightarrow> rect \<Rightarrow> rect array_t res" where
  "rect_add arr r =
     (if rect_width r = 0 \<or> rect_height r = 0 then Inl (TaskAssert ''Found zero-sized rect_add'')
      else array_insert arr r)"

text \<open>\<^verbatim>\<open>update_occlusions\<close>: the loop over the pieces of one split, the body for one free area, the whole loop.\<close>

definition keep_occlusion :: "rect option \<Rightarrow> rect array_t \<Rightarrow> rect array_t res" where
  "keep_occlusion p new_free_areas =
     ebind (deref p) (\<lambda>r.
     if rect_width r > 0 \<and> rect_height r > 0 then array_insert new_free_areas r
     else Inl (TaskAssert ''New free area was zero-sized''))"

definition occlude_area :: "rect \<Rightarrow> rect option \<Rightarrow> rect array_t \<Rightarrow> rect array_t res" where
  "occlude_area exclude_rect p new_free_areas =
     ebind (deref p) (\<lambda>free_area.
     if \<not> rect_intersects free_area exclude_rect
     then if rect_width free_area > 0 \<and> rect_height free_area > 0 then array_insert new_free_areas free_area
          else Inl (TaskAssert ''Free area was zero-sized'')
     else ebind (rect_diff free_area exclude_rect) (\<lambda>occlusions.
          array_foreach occlusions keep_occlusion 0 new_free_areas))"

definition update_occlusions :: "rect array_t \<Rightarrow> rect \<Rightarrow> rect array_t res" where
  "update_occlusions free_areas exclude_rect =
     array_foreach free_areas (occlude_area exclude_rect) 0 (array_create (at_max_size free_areas))"


subsection \<open>Rectangles as sets of pixels\<close>

lemma rect_coords [simp]:
  "rect_min_x (rect_make (point_make x y) (size_make w h)) = x"
  "rect_min_y (rect_make (point_make x y) (size_make w h)) = y"
  "rect_max_x (rect_make (point_make x y) (size_make w h)) = x + w"
  "rect_max_y (rect_make (point_make x y) (size_make w h)) = y + h"
  "rect_width (rect_make (point_make x y) (size_make w h)) = w"
  "rect_height (rect_make (point_make x y) (size_make w h)) = h"
  by (simp_all add: rect_min_x_def rect_min_y_def rect_max_x_def rect_max_y_def rect_make_def point_make_def size_make_def)

lemma rect_updates [simp]:
  "rect_min_x (add_origin_x r d) = rect_min_x r + d" "rect_max_x (add_origin_x r d) = rect_max_x r + d"
  "rect_min_y (add_origin_x r d) = rect_min_y r" "rect_max_y (add_origin_x r d) = rect_max_y r"
  "rect_min_x (add_origin_y r d) = rect_min_x r" "rect_max_x (add_origin_y r d) = rect_max_x r"
  "rect_min_y (add_origin_y r d) = rect_min_y r + d" "rect_max_y (add_origin_y r d) = rect_max_y r + d"
  "rect_min_x (set_width r w) = rect_min_x r" "rect_max_x (set_width r w) = rect_min_x r + w"
  "rect_min_y (set_width r w) = rect_min_y r" "rect_max_y (set_width r w) = rect_max_y r"
  "rect_min_x (set_height r h) = rect_min_x r" "rect_max_x (set_height r h) = rect_max_x r"
  "rect_min_y (set_height r h) = rect_min_y r" "rect_max_y (set_height r h) = rect_min_y r + h"
  by (simp_all add: rect_min_x_def rect_min_y_def rect_max_x_def rect_max_y_def add_origin_x_def add_origin_y_def
      set_width_def set_height_def)

lemma rect_extent:
  "rect_width r = rect_max_x r - rect_min_x r" "rect_height r = rect_max_y r - rect_min_y r"
  by (simp_all add: rect_min_x_def rect_min_y_def rect_max_x_def rect_max_y_def)

lemma rect_eqI:
  "rect_min_x a = rect_min_x b \<Longrightarrow> rect_min_y a = rect_min_y b \<Longrightarrow> rect_max_x a = rect_max_x b \<Longrightarrow>
   rect_max_y a = rect_max_y b \<Longrightarrow> (a :: rect) = b"
  by (auto simp: rect_min_x_def rect_min_y_def rect_max_x_def rect_max_y_def intro!: rect.equality point.equality size2d.equality)

definition rect_pos :: "rect \<Rightarrow> bool" where
  "rect_pos r \<longleftrightarrow> rect_min_x r < rect_max_x r \<and> rect_min_y r < rect_max_y r"

definition pix :: "rect \<Rightarrow> (int \<times> int) set" where
  "pix r = {(x, y). rect_min_x r \<le> x \<and> x < rect_max_x r \<and> rect_min_y r \<le> y \<and> y < rect_max_y r}"

lemma mem_pix: "(x, y) \<in> pix r \<longleftrightarrow>
  rect_min_x r \<le> x \<and> x < rect_max_x r \<and> rect_min_y r \<le> y \<and> y < rect_max_y r"
  by (simp add: pix_def)

lemma rect_pos_size: "rect_pos r \<longleftrightarrow> rect_width r > 0 \<and> rect_height r > 0"
  by (auto simp: rect_pos_def rect_extent)

lemma rect_contains_point_pix: "rect_contains_point r p \<longleftrightarrow> (pt_x p, pt_y p) \<in> pix r"
  by (auto simp: rect_contains_point_def mem_pix)

lemma pix_empty: "pix r = {} \<longleftrightarrow> \<not> rect_pos r"
proof
  assume "pix r = {}"
  then have "(rect_min_x r, rect_min_y r) \<notin> pix r" by blast
  then show "\<not> rect_pos r" by (auto simp: mem_pix rect_pos_def)
qed (auto simp: pix_def rect_pos_def)

lemma rect_contains_rect_pix:
  assumes "rect_pos b"
  shows "rect_contains_rect a b \<longleftrightarrow> pix b \<subseteq> pix a"
proof
  assume sub: "pix b \<subseteq> pix a"
  have "(rect_min_x b, rect_min_y b) \<in> pix b" "(rect_max_x b - 1, rect_max_y b - 1) \<in> pix b"
    using assms by (auto simp: mem_pix rect_pos_def)
  then have "(rect_min_x b, rect_min_y b) \<in> pix a" "(rect_max_x b - 1, rect_max_y b - 1) \<in> pix a"
    using sub by blast+
  then show "rect_contains_rect a b" by (auto simp: mem_pix rect_contains_rect_def)
qed (auto simp: rect_contains_rect_def mem_pix)

text \<open>For rectangles with pixels, \<^verbatim>\<open>rect_intersects\<close> says whether they share one.\<close>

lemma rect_intersects_coords:
  assumes "rect_pos a" and "rect_pos b"
  shows "rect_intersects a b \<longleftrightarrow> rect_min_x a < rect_max_x b \<and> rect_min_x b < rect_max_x a
    \<and> rect_min_y a < rect_max_y b \<and> rect_min_y b < rect_max_y a"
  using assms by (auto simp: rect_intersects_def val_in_range_def rect_pos_def Let_def)

lemma rect_intersects_pix:
  assumes "rect_pos a" and "rect_pos b"
  shows "rect_intersects a b \<longleftrightarrow> pix a \<inter> pix b \<noteq> {}"
proof -
  have "(max (rect_min_x a) (rect_min_x b), max (rect_min_y a) (rect_min_y b)) \<in> pix a \<inter> pix b"
    if "rect_intersects a b"
    using that assms by (auto simp: rect_intersects_coords mem_pix rect_pos_def)
  moreover have "rect_intersects a b" if "p \<in> pix a \<inter> pix b" for p
    using that assms by (cases p) (auto simp: rect_intersects_coords mem_pix)
  ultimately show ?thesis by blast
qed

lemma rect_intersects_sym: "rect_intersects a b = rect_intersects b a"
  by (auto simp: rect_intersects_def Let_def)

subsection \<open>Tilings\<close>

text \<open>A list of rectangles tiles a set of pixels: no rectangle is empty, none overlap, and they cover it.\<close>

definition tiles :: "rect list \<Rightarrow> (int \<times> int) set \<Rightarrow> bool" where
  "tiles rs S \<longleftrightarrow> (\<forall>r\<in>set rs. rect_pos r) \<and> sorted_wrt (\<lambda>r q. pix r \<inter> pix q = {}) rs \<and> \<Union> (pix ` set rs) = S"

lemma tiles_Nil [simp]: "tiles [] S \<longleftrightarrow> S = {}"
  by (auto simp: tiles_def)

lemma tiles_single [simp]: "tiles [r] S \<longleftrightarrow> rect_pos r \<and> pix r = S"
  by (auto simp: tiles_def)

lemma tiles_append:
  assumes "tiles rs S" and "tiles qs T" and "S \<inter> T = {}"
  shows "tiles (rs @ qs) (S \<union> T)"
proof -
  have "pix r \<inter> pix q = {}" if "r \<in> set rs" "q \<in> set qs" for r q
    using assms that by (auto simp: tiles_def)
  with assms show ?thesis by (auto simp: tiles_def sorted_wrt_append)
qed

lemma tiles_Cons: "tiles (r # rs) S \<longleftrightarrow> rect_pos r \<and> pix r \<subseteq> S \<and> tiles rs (S - pix r)"
  by (auto simp: tiles_def)

lemma tiles_pos: "tiles rs S \<Longrightarrow> r \<in> set rs \<Longrightarrow> rect_pos r \<and> pix r \<subseteq> S"
  by (auto simp: tiles_def)

subsection \<open>Splitting\<close>

text \<open>
  The state between two blocks of \<^verbatim>\<open>rect_diff\<close>: the pieces cut so far tile what has been taken off the
  background \<open>B\<close>, they avoid the foreground \<open>F\<close>, and the rest \<open>bg\<close> still overlaps it.
\<close>

definition carved :: "rect \<Rightarrow> rect \<Rightarrow> rect list \<Rightarrow> rect \<Rightarrow> bool" where
  "carved B F ps bg \<longleftrightarrow> tiles ps (pix B - pix bg) \<and> pix bg \<subseteq> pix B \<and> (pix B - pix bg) \<inter> pix F = {}
     \<and> rect_pos bg \<and> rect_intersects bg F"

lemma carved_cut:
  assumes "carved B F ps bg" and "rect_pos F" and "rect_pos p" and "rect_pos bg'"
    and split: "pix bg = pix p \<union> pix bg'" "pix p \<inter> pix bg' = {}" and "pix p \<inter> pix F = {}"
  shows "carved B F (ps @ [p]) bg'"
proof -
  have "pix bg \<inter> pix F \<noteq> {}" using assms(1,2) rect_intersects_pix [of bg F] by (auto simp: carved_def)
  then have "rect_intersects bg' F" using assms by (auto simp: rect_intersects_pix)
  moreover have "tiles (ps @ [p]) (pix B - pix bg \<union> pix p)"
    using assms by (intro tiles_append) (auto simp: carved_def)
  moreover have "pix B - pix bg \<union> pix p = pix B - pix bg'" using assms(1) split by (auto simp: carved_def)
  ultimately show ?thesis using assms by (auto simp: carved_def)
qed

text \<open>One block, whatever its edge: \<open>H\<close> is the half-plane on the foreground's side of the edge.\<close>

lemma carve_block:
  assumes out: "at_ok out" "length (at_list out) < at_cap out" "carved B F (at_list out) bg"
    and cut: "c \<Longrightarrow> carved B F (at_list out @ [p]) bg' \<and> pix bg' \<subseteq> pix bg \<and> pix bg' \<subseteq> H"
    and no_cut: "\<not> c \<Longrightarrow> pix bg \<subseteq> H"
    and res: "res = (if c then ebind (array_insert out p) (\<lambda>out. Inr (out, bg')) else Inr (out, bg))"
  shows "\<exists>out' b. res = Inr (out', b) \<and> at_ok out' \<and> at_cap out' = at_cap out
    \<and> length (at_list out') \<le> Suc (length (at_list out)) \<and> carved B F (at_list out') b \<and> pix b \<subseteq> pix bg \<and> pix b \<subseteq> H"
proof (cases c)
  case True
  then show ?thesis using ut.ins_ok [OF out(1,2), of p] cut res by fastforce
qed (use out no_cut res in auto)

lemma split_left_carves:
  assumes "at_ok out" "length (at_list out) < at_cap out" "carved B F (at_list out) bg" "rect_pos F"
  shows "\<exists>out' b. split_left F out bg = Inr (out', b) \<and> at_ok out' \<and> at_cap out' = at_cap out
    \<and> length (at_list out') \<le> Suc (length (at_list out)) \<and> carved B F (at_list out') b
    \<and> pix b \<subseteq> pix bg \<and> pix b \<subseteq> {(x, y). rect_min_x F \<le> x}"
proof (rule carve_block [OF assms(1-3)])
  have bg: "rect_pos bg" "rect_intersects bg F" using assms(3) by (auto simp: carved_def)
  note c = bg(2) [unfolded rect_intersects_coords [OF bg(1) assms(4)]]
  let ?d = "rect_min_x F - rect_min_x bg"
  let ?p = "rect_make (point_make (rect_min_x bg) (rect_min_y bg)) (size_make ?d (rect_height bg))"
  let ?bg = "set_width (add_origin_x bg ?d) (rect_width bg - ?d)"
  show "split_left F out bg =
      (if rect_min_x F > rect_min_x bg \<and> rect_min_x F \<le> rect_max_x bg
       then ebind (array_insert out ?p) (\<lambda>out. Inr (out, ?bg)) else Inr (out, bg))"
    by (simp add: split_left_def Let_def)
  show "carved B F (at_list out @ [?p]) ?bg \<and> pix ?bg \<subseteq> pix bg \<and> pix ?bg \<subseteq> {(x, y). rect_min_x F \<le> x}"
    if "rect_min_x F > rect_min_x bg \<and> rect_min_x F \<le> rect_max_x bg"
    using that c bg(1) by (intro conjI carved_cut [OF assms(3,4)]) (auto simp: pix_def rect_pos_def rect_extent)
  show "pix bg \<subseteq> {(x, y). rect_min_x F \<le> x}" if "\<not> (rect_min_x F > rect_min_x bg \<and> rect_min_x F \<le> rect_max_x bg)"
    using that c by (auto simp: pix_def)
qed

lemma split_top_carves:
  assumes "at_ok out" "length (at_list out) < at_cap out" "carved B F (at_list out) bg" "rect_pos F"
  shows "\<exists>out' b. split_top F out bg = Inr (out', b) \<and> at_ok out' \<and> at_cap out' = at_cap out
    \<and> length (at_list out') \<le> Suc (length (at_list out)) \<and> carved B F (at_list out') b
    \<and> pix b \<subseteq> pix bg \<and> pix b \<subseteq> {(x, y). rect_min_y F \<le> y}"
proof (rule carve_block [OF assms(1-3)])
  have bg: "rect_pos bg" "rect_intersects bg F" using assms(3) by (auto simp: carved_def)
  note c = bg(2) [unfolded rect_intersects_coords [OF bg(1) assms(4)]]
  let ?d = "rect_min_y F - rect_min_y bg"
  let ?p = "rect_make (point_make (rect_min_x bg) (rect_min_y bg)) (size_make (rect_width bg) ?d)"
  let ?bg = "set_height (add_origin_y bg ?d) (rect_height bg - ?d)"
  show "split_top F out bg =
      (if rect_min_y F > rect_min_y bg \<and> rect_min_y F \<le> rect_max_y bg
       then ebind (array_insert out ?p) (\<lambda>out. Inr (out, ?bg)) else Inr (out, bg))"
    by (simp add: split_top_def Let_def)
  show "carved B F (at_list out @ [?p]) ?bg \<and> pix ?bg \<subseteq> pix bg \<and> pix ?bg \<subseteq> {(x, y). rect_min_y F \<le> y}"
    if "rect_min_y F > rect_min_y bg \<and> rect_min_y F \<le> rect_max_y bg"
    using that c bg(1) by (intro conjI carved_cut [OF assms(3,4)]) (auto simp: pix_def rect_pos_def rect_extent)
  show "pix bg \<subseteq> {(x, y). rect_min_y F \<le> y}" if "\<not> (rect_min_y F > rect_min_y bg \<and> rect_min_y F \<le> rect_max_y bg)"
    using that c by (auto simp: pix_def)
qed

lemma split_right_carves:
  assumes "at_ok out" "length (at_list out) < at_cap out" "carved B F (at_list out) bg" "rect_pos F"
  shows "\<exists>out' b. split_right F out bg = Inr (out', b) \<and> at_ok out' \<and> at_cap out' = at_cap out
    \<and> length (at_list out') \<le> Suc (length (at_list out)) \<and> carved B F (at_list out') b
    \<and> pix b \<subseteq> pix bg \<and> pix b \<subseteq> {(x, y). x < rect_max_x F}"
proof (rule carve_block [OF assms(1-3)])
  have bg: "rect_pos bg" "rect_intersects bg F" using assms(3) by (auto simp: carved_def)
  note c = bg(2) [unfolded rect_intersects_coords [OF bg(1) assms(4)]]
  let ?d = "rect_max_x bg - rect_max_x F"
  let ?p = "rect_make (point_make (rect_max_x F) (rect_min_y bg)) (size_make ?d (rect_height bg))"
  let ?bg = "set_width bg (rect_width bg - ?d)"
  show "split_right F out bg =
      (if rect_max_x F > rect_min_x bg \<and> rect_max_x F < rect_max_x bg
       then ebind (array_insert out ?p) (\<lambda>out. Inr (out, ?bg)) else Inr (out, bg))"
    by (simp add: split_right_def Let_def)
  show "carved B F (at_list out @ [?p]) ?bg \<and> pix ?bg \<subseteq> pix bg \<and> pix ?bg \<subseteq> {(x, y). x < rect_max_x F}"
    if "rect_max_x F > rect_min_x bg \<and> rect_max_x F < rect_max_x bg"
    using that c bg(1) by (intro conjI carved_cut [OF assms(3,4)]) (auto simp: pix_def rect_pos_def rect_extent)
  show "pix bg \<subseteq> {(x, y). x < rect_max_x F}" if "\<not> (rect_max_x F > rect_min_x bg \<and> rect_max_x F < rect_max_x bg)"
    using that c by (auto simp: pix_def)
qed

lemma split_bottom_carves:
  assumes "at_ok out" "length (at_list out) < at_cap out" "carved B F (at_list out) bg" "rect_pos F"
  shows "\<exists>out' b. split_bottom F out bg = Inr (out', b) \<and> at_ok out' \<and> at_cap out' = at_cap out
    \<and> length (at_list out') \<le> Suc (length (at_list out)) \<and> carved B F (at_list out') b
    \<and> pix b \<subseteq> pix bg \<and> pix b \<subseteq> {(x, y). y < rect_max_y F}"
proof (rule carve_block [OF assms(1-3)])
  have bg: "rect_pos bg" "rect_intersects bg F" using assms(3) by (auto simp: carved_def)
  note c = bg(2) [unfolded rect_intersects_coords [OF bg(1) assms(4)]]
  let ?d = "rect_max_y bg - rect_max_y F"
  let ?p = "rect_make (point_make (rect_min_x bg) (rect_max_y F)) (size_make (rect_width bg) ?d)"
  let ?bg = "set_height bg (rect_height bg - ?d)"
  show "split_bottom F out bg =
      (if rect_max_y F > rect_min_y bg \<and> rect_max_y F < rect_max_y bg
       then ebind (array_insert out ?p) (\<lambda>out. Inr (out, ?bg)) else Inr (out, bg))"
    by (simp add: split_bottom_def Let_def)
  show "carved B F (at_list out @ [?p]) ?bg \<and> pix ?bg \<subseteq> pix bg \<and> pix ?bg \<subseteq> {(x, y). y < rect_max_y F}"
    if "rect_max_y F > rect_min_y bg \<and> rect_max_y F < rect_max_y bg"
    using that c bg(1) by (intro conjI carved_cut [OF assms(3,4)]) (auto simp: pix_def rect_pos_def rect_extent)
  show "pix bg \<subseteq> {(x, y). y < rect_max_y F}" if "\<not> (rect_max_y F > rect_min_y bg \<and> rect_max_y F < rect_max_y bg)"
    using that c by (auto simp: pix_def)
qed

text \<open>Whatever the rectangles, \<^verbatim>\<open>rect_diff\<close> returns: at most four pieces go into an array of five.\<close>

lemma block_returns:
  assumes "at_ok out" "length (at_list out) < at_cap out"
    and "res = (if c then ebind (array_insert out p) (\<lambda>out. Inr (out, bg')) else Inr (out, bg))"
  shows "\<exists>out' b. res = Inr (out', b) \<and> at_ok out' \<and> at_cap out' = at_cap out
    \<and> length (at_list out') \<le> Suc (length (at_list out))"
  using ut.ins_ok [OF assms(1,2), of p] assms by auto

lemma splits_return:
  assumes "at_ok out" "length (at_list out) < at_cap out"
    and "f \<in> {split_left F, split_top F, split_right F, split_bottom F}"
  shows "\<exists>out' b. f out bg = Inr (out', b) \<and> at_ok out' \<and> at_cap out' = at_cap out
    \<and> length (at_list out') \<le> Suc (length (at_list out))"
proof -
  have "\<exists>c p b. split_left F out bg = (if c then ebind (array_insert out p) (\<lambda>out. Inr (out, b)) else Inr (out, bg))"
    "\<exists>c p b. split_top F out bg = (if c then ebind (array_insert out p) (\<lambda>out. Inr (out, b)) else Inr (out, bg))"
    "\<exists>c p b. split_right F out bg = (if c then ebind (array_insert out p) (\<lambda>out. Inr (out, b)) else Inr (out, bg))"
    "\<exists>c p b. split_bottom F out bg = (if c then ebind (array_insert out p) (\<lambda>out. Inr (out, b)) else Inr (out, bg))"
    unfolding split_left_def split_top_def split_right_def split_bottom_def Let_def by (intro exI, rule refl)+
  then have "\<exists>c p b. f out bg = (if c then ebind (array_insert out p) (\<lambda>out. Inr (out, b)) else Inr (out, bg))"
    using assms(3) by (elim insertE) simp_all
  then show ?thesis by (elim exE) (rule block_returns [OF assms(1,2)])
qed

lemma rect_diff_returns: "\<exists>out. rect_diff bg fg = Inr out \<and> at_ok out \<and> length (at_list out) \<le> 4"
proof -
  obtain o1 b1 where 1: "split_left fg (array_create 5) bg = Inr (o1, b1)" "at_ok o1" "at_cap o1 = 5" "length (at_list o1) \<le> 1"
    using splits_return [of "array_create 5" "split_left fg" fg bg] by auto
  obtain o2 b2 where 2: "split_top fg o1 b1 = Inr (o2, b2)" "at_ok o2" "at_cap o2 = 5" "length (at_list o2) \<le> 2"
    using splits_return [OF 1(2), of "split_top fg" fg b1] 1(3,4) by auto
  obtain o3 b3 where 3: "split_right fg o2 b2 = Inr (o3, b3)" "at_ok o3" "at_cap o3 = 5" "length (at_list o3) \<le> 3"
    using splits_return [OF 2(2), of "split_right fg" fg b2] 2(3,4) by auto
  obtain o4 b4 where "split_bottom fg o3 b3 = Inr (o4, b4)" "at_ok o4" "length (at_list o4) \<le> 4"
    using splits_return [OF 3(2), of "split_bottom fg" fg b3] 3(3,4) by auto
  then show ?thesis using 1(1) 2(1) 3(1) by (simp add: rect_diff_def)
qed

text \<open>All four blocks together leave only what the foreground covers.\<close>

lemma rect_diff_tiles:
  assumes pos: "rect_pos bg" "rect_pos fg" and meet: "rect_intersects bg fg"
  shows "\<exists>out. rect_diff bg fg = Inr out \<and> at_ok out \<and> length (at_list out) \<le> 4
    \<and> tiles (at_list out) (pix bg - pix fg)"
proof -
  have c0: "carved bg fg (at_list (array_create 5)) bg" using pos meet by (simp add: carved_def)
  obtain o1 b1 where 1: "split_left fg (array_create 5) bg = Inr (o1, b1)" "at_ok o1" "at_cap o1 = 5"
    "length (at_list o1) \<le> 1" "carved bg fg (at_list o1) b1" "pix b1 \<subseteq> {(x, y). rect_min_x fg \<le> x}"
    using split_left_carves [OF _ _ c0 pos(2)] by auto
  obtain o2 b2 where 2: "split_top fg o1 b1 = Inr (o2, b2)" "at_ok o2" "at_cap o2 = 5"
    "length (at_list o2) \<le> 2" "carved bg fg (at_list o2) b2" "pix b2 \<subseteq> pix b1" "pix b2 \<subseteq> {(x, y). rect_min_y fg \<le> y}"
    using split_top_carves [OF 1(2) _ 1(5) pos(2)] 1(3,4) by auto
  obtain o3 b3 where 3: "split_right fg o2 b2 = Inr (o3, b3)" "at_ok o3" "at_cap o3 = 5"
    "length (at_list o3) \<le> 3" "carved bg fg (at_list o3) b3" "pix b3 \<subseteq> pix b2" "pix b3 \<subseteq> {(x, y). x < rect_max_x fg}"
    using split_right_carves [OF 2(2) _ 2(5) pos(2)] 2(3,4) by auto
  obtain o4 b4 where 4: "split_bottom fg o3 b3 = Inr (o4, b4)" "at_ok o4" "length (at_list o4) \<le> 4"
    "carved bg fg (at_list o4) b4" "pix b4 \<subseteq> pix b3" "pix b4 \<subseteq> {(x, y). y < rect_max_y fg}"
    using split_bottom_carves [OF 3(2) _ 3(5) pos(2)] 3(3,4) by auto
  have "pix b4 \<subseteq> {(x, y). rect_min_x fg \<le> x} \<inter> {(x, y). rect_min_y fg \<le> y} \<inter> {(x, y). x < rect_max_x fg}
      \<inter> {(x, y). y < rect_max_y fg}"
    using 1(6) 2(6,7) 3(6,7) 4(5,6) by blast
  then have "pix b4 \<subseteq> pix fg" by (auto simp: pix_def)
  then have "pix bg - pix b4 = pix bg - pix fg" using 4(4) by (auto simp: carved_def)
  moreover have "tiles (at_list o4) (pix bg - pix b4)" using 4(4) by (simp add: carved_def)
  moreover have "rect_diff bg fg = Inr o4" using 1(1) 2(1) 3(1) 4(1) by (simp add: rect_diff_def)
  ultimately show ?thesis using 4(2,3) by auto
qed

subsection \<open>Occlusion\<close>

text \<open>
  An operation on an array appends \<open>ps\<close>: it returns the array with \<open>ps\<close> behind its elements, and fails only
  if they do not fit.
\<close>

definition appends :: "('a array_t \<Rightarrow> 'a array_t res) \<Rightarrow> 'a list \<Rightarrow> bool" where
  "appends f ps \<longleftrightarrow> (\<forall>a. at_ok a \<longrightarrow> (case f a of
     Inl _ \<Rightarrow> at_cap a < length (at_list a) + length ps
   | Inr a' \<Rightarrow> at_ok a' \<and> at_list a' = at_list a @ ps \<and> at_cap a' = at_cap a))"

lemma appends_Nil: "appends Inr []"
  by (simp add: appends_def)

lemma appends_insert: "appends (\<lambda>a. array_insert a x) [x]"
  unfolding appends_def
proof (intro allI impI)
  fix a :: "'a array_t" assume ok: "at_ok a"
  then show "case array_insert a x of Inl _ \<Rightarrow> at_cap a < length (at_list a) + length [x]
    | Inr a' \<Rightarrow> at_ok a' \<and> at_list a' = at_list a @ [x] \<and> at_cap a' = at_cap a"
    using ut.ins_ok [OF ok, of x] ut.within [OF ok] ut.ins_dest [OF ok, of x]
    by (cases "length (at_list a) < at_cap a") (auto split: sum.split)
qed

lemma appends_bind:
  assumes "appends f ps" and "appends g qs"
  shows "appends (\<lambda>a. ebind (f a) g) (ps @ qs)"
  unfolding appends_def
proof (intro allI impI)
  fix a :: "'a array_t" assume ok: "at_ok a"
  show "case ebind (f a) g of Inl _ \<Rightarrow> at_cap a < length (at_list a) + length (ps @ qs)
    | Inr a' \<Rightarrow> at_ok a' \<and> at_list a' = at_list a @ (ps @ qs) \<and> at_cap a' = at_cap a"
  proof (cases "f a")
    case (Inr a1)
    then have "at_ok a1 \<and> at_list a1 = at_list a @ ps \<and> at_cap a1 = at_cap a"
      using assms(1) ok by (auto simp: appends_def)
    then show ?thesis using Inr assms(2) by (auto simp: appends_def split: sum.split dest: spec [of _ a1])
  qed (use assms(1) ok in \<open>auto simp: appends_def split: sum.splits\<close>)
qed

lemma appends_efold:
  assumes "\<And>x. x \<in> set xs \<Longrightarrow> appends (body (Some x)) (h x)"
  shows "appends (efold body xs) (concat (map h xs))"
  using assms
proof (induction xs)
  case (Cons x xs)
  then show ?case using appends_bind [of "body (Some x)" "h x" "efold body xs"] by simp
qed (simp add: appends_def)

lemma appends_dest:
  assumes "appends f ps" "at_ok a" "f a = Inr a'"
  shows "at_ok a' \<and> at_list a' = at_list a @ ps \<and> at_cap a' = at_cap a"
  using assms by (auto simp: appends_def)

lemma appends_returns:
  assumes "appends f ps" "at_ok a" "length (at_list a) + length ps \<le> at_cap a"
  shows "\<exists>a'. f a = Inr a'"
  using assms by (cases "f a") (auto simp: appends_def)

lemma keep_occlusion_pos: "rect_pos r \<Longrightarrow> keep_occlusion (Some r) = (\<lambda>a. array_insert a r)"
  by (simp add: fun_eq_iff keep_occlusion_def rect_pos_size)

text \<open>One free area is replaced by the tiles of what the excluded rectangle leaves of it.\<close>

lemma occlude_area_appends:
  assumes pos: "rect_pos r" "rect_pos F"
  shows "\<exists>ps. appends (occlude_area F (Some r)) ps \<and> tiles ps (pix r - pix F) \<and> length ps \<le> 4"
proof (cases "rect_intersects r F")
  case True
  obtain out where out: "rect_diff r F = Inr out" "at_ok out" "length (at_list out) \<le> 4"
    "tiles (at_list out) (pix r - pix F)"
    using rect_diff_tiles [OF pos True] by blast
  have "appends (efold keep_occlusion (at_list out)) (concat (map (\<lambda>q. [q]) (at_list out)))"
    using tiles_pos [OF out(4)]
    by (intro appends_efold) (simp add: keep_occlusion_pos appends_insert)
  moreover have "occlude_area F (Some r) = efold keep_occlusion (at_list out)"
    using True out(1) array_foreach_efold [OF out(2), of keep_occlusion 0]
    by (auto simp: occlude_area_def fun_eq_iff)
  ultimately show ?thesis using out(3,4) by (auto simp: concat_map_singleton)
next
  case False
  then have "occlude_area F (Some r) = (\<lambda>a. array_insert a r)"
    using pos by (simp add: fun_eq_iff occlude_area_def rect_pos_size)
  then have "appends (occlude_area F (Some r)) [r]" by (simp add: appends_insert)
  moreover have "pix r - pix F = pix r" using False pos rect_intersects_pix by blast
  ultimately show ?thesis using pos by (intro exI [of _ "[r]"]) simp
qed

lemma occlusion_fold:
  assumes "tiles rs S" and F: "rect_pos F"
  shows "\<exists>ps. appends (efold (occlude_area F) rs) ps \<and> tiles ps (S - pix F) \<and> length ps \<le> 4 * length rs"
  using assms(1)
proof (induction rs arbitrary: S)
  case Nil
  then show ?case by (intro exI [of _ "[]"]) (simp add: appends_Nil)
next
  case (Cons r rs)
  then have r: "rect_pos r" "pix r \<subseteq> S" and rest: "tiles rs (S - pix r)" by (auto simp: tiles_Cons)
  obtain p1 where 1: "appends (occlude_area F (Some r)) p1" "tiles p1 (pix r - pix F)" "length p1 \<le> 4"
    using occlude_area_appends [OF r(1) F] by blast
  obtain p2 where 2: "appends (efold (occlude_area F) rs) p2" "tiles p2 (S - pix r - pix F)" "length p2 \<le> 4 * length rs"
    using Cons.IH [OF rest] by blast
  have "tiles (p1 @ p2) ((pix r - pix F) \<union> (S - pix r - pix F))"
    using 1(2) 2(2) by (rule tiles_append) auto
  moreover have "(pix r - pix F) \<union> (S - pix r - pix F) = S - pix F" using r(2) by auto
  ultimately show ?case using appends_bind [OF 1(1) 2(1)] 1(3) 2(3) by (intro exI [of _ "p1 @ p2"]) simp
qed

lemma update_occlusions_tiles:
  assumes "at_ok a" and "tiles (at_list a) S" and "rect_pos F"
  shows "(\<forall>b. update_occlusions a F = Inr b \<longrightarrow> at_ok b \<and> at_cap b = at_cap a
      \<and> tiles (at_list b) (S - pix F) \<and> length (at_list b) \<le> 4 * length (at_list a))
    \<and> (4 * length (at_list a) \<le> at_cap a \<longrightarrow> (\<exists>b. update_occlusions a F = Inr b))"
proof -
  obtain ps where ps: "appends (efold (occlude_area F) (at_list a)) ps" "tiles ps (S - pix F)"
    "length ps \<le> 4 * length (at_list a)"
    using occlusion_fold [OF assms(2,3)] by blast
  have new: "at_ok (array_create (at_max_size a) :: rect array_t)" "at_cap (array_create (at_max_size a) :: rect array_t) = at_cap a"
    using assms(1) by (auto simp: at_ok_def slots_wf_def at_cap_def array_create_def)
  have eq: "update_occlusions a F = efold (occlude_area F) (at_list a) (array_create (at_max_size a))"
    using array_foreach_efold [OF assms(1), of _ 0] by (simp add: update_occlusions_def)
  show ?thesis
    using appends_dest [OF ps(1) new(1)] appends_returns [OF ps(1) new(1)] ps(2,3) new(2) by (auto simp: eq)
qed

subsection \<open>Union and intersection\<close>

text \<open>The edges of a rectangle lie where \<^verbatim>\<open>int\<close> arithmetic on them cannot overflow.\<close>

definition in_range :: "rect \<Rightarrow> bool" where
  "in_range r \<longleftrightarrow> - (2 ^ 30) \<le> rect_min_x r \<and> rect_max_x r < 2 ^ 30 \<and> - (2 ^ 30) \<le> rect_min_y r \<and> rect_max_y r < 2 ^ 30"

lemma sint_diff_u32:
  assumes "- (2 ^ 31) \<le> a - b" and "a - b < 2 ^ 31"
  shows "sint (word_of_int a - word_of_int b :: u32) = a - b"
proof -
  have "sint (word_of_int (a - b) :: u32) = signed_take_bit 31 (a - b)"
    by (simp add: sint_sbintrunc' del: of_int_diff)
  also have "\<dots> = a - b" using assms by (rule signed_take_bit_int_eq_self)
  finally show ?thesis by (simp only: wi_hom_sub)
qed

lemma rect_union_coords:
  assumes "in_range a" "in_range b" "rect_pos a" "rect_pos b"
  shows "rect_min_x (rect_union a b) = min (rect_min_x a) (rect_min_x b)"
    "rect_min_y (rect_union a b) = min (rect_min_y a) (rect_min_y b)"
    "rect_max_x (rect_union a b) = max (rect_max_x a) (rect_max_x b)"
    "rect_max_y (rect_union a b) = max (rect_max_y a) (rect_max_y b)"
proof -
  have "sint (word_of_int (max (rect_max_x a) (rect_max_x b)) - word_of_int (min (rect_min_x a) (rect_min_x b)) :: u32)
      = max (rect_max_x a) (rect_max_x b) - min (rect_min_x a) (rect_min_x b)"
    "sint (word_of_int (max (rect_max_y a) (rect_max_y b)) - word_of_int (min (rect_min_y a) (rect_min_y b)) :: u32)
      = max (rect_max_y a) (rect_max_y b) - min (rect_min_y a) (rect_min_y b)"
    using assms by (intro sint_diff_u32; auto simp: in_range_def rect_pos_def)+
  then show "rect_min_x (rect_union a b) = min (rect_min_x a) (rect_min_x b)"
    "rect_min_y (rect_union a b) = min (rect_min_y a) (rect_min_y b)"
    "rect_max_x (rect_union a b) = max (rect_max_x a) (rect_max_x b)"
    "rect_max_y (rect_union a b) = max (rect_max_y a) (rect_max_y b)"
    by (simp_all add: rect_union_def Let_def)
qed

lemma rect_union_smallest:
  assumes "in_range a" "in_range b" "rect_pos a" "rect_pos b"
  shows "rect_contains_rect (rect_union a b) a \<and> rect_contains_rect (rect_union a b) b
    \<and> (\<forall>c. rect_contains_rect c a \<longrightarrow> rect_contains_rect c b \<longrightarrow> rect_contains_rect c (rect_union a b))"
  using rect_union_coords [OF assms] by (auto simp: rect_contains_rect_def)

lemma rect_union_pos: "in_range a \<Longrightarrow> in_range b \<Longrightarrow> rect_pos a \<Longrightarrow> rect_pos b \<Longrightarrow> rect_pos (rect_union a b)"
  by (auto simp: rect_union_coords rect_pos_def)

text \<open>
  The intersection starts at the right corner, but its size is that of \<open>b\<close> also when \<open>b\<close> begins before
  \<open>a\<close>, and the test for the bottom edge compares an x coordinate with a y coordinate.
\<close>

lemma rect_intersect_coords:
  assumes "rect_pos a" "rect_pos b" "rect_intersects a b"
  shows "rect_min_x (rect_intersect a b) = max (rect_min_x a) (rect_min_x b)"
    "rect_min_y (rect_intersect a b) = max (rect_min_y a) (rect_min_y b)"
    "rect_max_x (rect_intersect a b) =
      (if rect_max_x b \<le> rect_max_x a then max (rect_min_x a) (rect_min_x b) + rect_width b else rect_max_x a)"
    "rect_max_y (rect_intersect a b) =
      (if rect_max_x b \<ge> max (rect_min_y a) (rect_min_y b) \<and> rect_max_y b \<le> rect_max_y a
       then max (rect_min_y a) (rect_min_y b) + rect_height b else rect_max_y a)"
  using assms by (auto simp: rect_intersects_coords rect_intersect_def Let_def rect_pos_def rect_extent)


text \<open>The rectangle of the common pixels, as a reference definition.\<close>

definition common_rect :: "rect \<Rightarrow> rect \<Rightarrow> rect" where
  "common_rect a b = Rect_new (max (rect_min_y a) (rect_min_y b)) (max (rect_min_x a) (rect_min_x b))
     (min (rect_max_y a) (rect_max_y b)) (min (rect_max_x a) (rect_max_x b))"

lemma common_rect_coords [simp]:
  "rect_min_x (common_rect a b) = max (rect_min_x a) (rect_min_x b)"
  "rect_min_y (common_rect a b) = max (rect_min_y a) (rect_min_y b)"
  "rect_max_x (common_rect a b) = min (rect_max_x a) (rect_max_x b)"
  "rect_max_y (common_rect a b) = min (rect_max_y a) (rect_max_y b)"
  by (simp_all add: common_rect_def Rect_new_def)

lemma pix_common_rect: "pix (common_rect a b) = pix a \<inter> pix b"
  by (auto simp: pix_def)

lemma pix_inj:
  assumes "rect_pos a" and "pix a = pix b"
  shows "a = b"
proof -
  have "rect_pos b" using assms pix_empty [of a] pix_empty [of b] by simp
  then have "rect_contains_rect a b" "rect_contains_rect b a"
    using assms by (simp_all add: rect_contains_rect_pix)
  then show ?thesis by (intro rect_eqI) (auto simp: rect_contains_rect_def)
qed

lemma common_rect_pos: "rect_pos a \<Longrightarrow> rect_pos b \<Longrightarrow> rect_intersects a b \<Longrightarrow> rect_pos (common_rect a b)"
  using rect_intersects_pix [of a b] pix_empty [of "common_rect a b"] by (simp add: pix_common_rect)

subsection \<open>Where the code goes wrong\<close>

text \<open>
  \<^verbatim>\<open>compositor_queue_rect_difference_to_redraw\<close> calls \<^verbatim>\<open>rect_diff\<close> without testing for an overlap. If the window has
  moved clear of its old frame to the right, no piece of the old frame is reported.
\<close>

lemma rect_diff_apart_loses_pixels:
  assumes "rect_pos bg" and "rect_min_x fg > rect_max_x bg"
    and "rect_min_y fg = rect_min_y bg" and "rect_max_y fg = rect_max_y bg" and "rect_width fg \<ge> 0"
  shows "\<exists>out. rect_diff bg fg = Inr out \<and> at_list out = [] \<and> pix bg - pix fg \<noteq> {}"
proof -
  have "rect_diff bg fg = Inr (array_create 5)"
    using assms by (auto simp: rect_diff_def split_left_def split_top_def split_right_def split_bottom_def rect_extent)
  moreover have "pix bg - pix fg = pix bg" using assms by (auto simp: pix_def)
  ultimately show ?thesis using assms(1) pix_empty [of bg] by simp
qed

text \<open>
  A window is created with an empty frame at its future origin. An empty rectangle inside another one
  counts as overlapping it, and cutting it out takes away the whole lower right part.
\<close>

lemma empty_occluder_hides_pixels:
  "\<exists>a out. array_insert (array_create 8) (Rect_new 0 0 10 10) = Inr a
     \<and> update_occlusions a (Rect_new 5 5 5 5) = Inr out
     \<and> (7, 7) \<in> pix (Rect_new 0 0 10 10) \<and> (\<forall>r\<in>set (at_list out). (7, 7) \<notin> pix r)"
proof -
  have "(case ebind (array_insert (array_create 8) (Rect_new 0 0 10 10)) (\<lambda>a. update_occlusions a (Rect_new 5 5 5 5)) of
      Inl _ \<Rightarrow> False | Inr out \<Rightarrow> list_all (\<lambda>r. \<not> rect_contains_point r (point_make 7 7)) (at_list out))"
    by code_simp
  moreover have "(7, 7) \<in> pix (Rect_new 0 0 10 10)" by (simp add: mem_pix Rect_new_def)
  moreover have "rect_contains_point r (point_make 7 7) \<longleftrightarrow> (7, 7) \<in> pix r" for r
    by (simp add: rect_contains_point_pix point_make_def)
  ultimately show ?thesis by (auto simp: ebind_eq_Inr list_all_iff split: sum.splits)
qed

subsection \<open>Properties\<close>

text \<open>
  C34. Subtracting a rectangle from a list of free areas (\<^verbatim>\<open>update_occlusions\<close> with \<^verbatim>\<open>rect_diff\<close>): if the areas tile a
  set of pixels, an outcome tiles exactly that set without the pixels of the rectangle, no area grows
  into more than four, and the routine returns whenever four times as many areas fit into the array.
\<close>

theorem update_occlusions_subtracts:
  assumes "at_ok a" and "tiles (at_list a) S" and "rect_pos F"
  shows "(\<forall>b. update_occlusions a F = Inr b \<longrightarrow> at_ok b \<and> tiles (at_list b) (S - pix F)
      \<and> length (at_list b) \<le> 4 * length (at_list a))
    \<and> (4 * length (at_list a) \<le> at_cap a \<longrightarrow> (\<exists>b. update_occlusions a F = Inr b))"
  using update_occlusions_tiles [OF assms] by blast

text \<open>
  The intersection of two overlapping rectangles covers the pixels they share, and is exactly those
  pixels if and only if the size taken over from the second rectangle fits: in each direction the second
  one begins inside the first, or ends beyond it.
\<close>

lemma rect_intersect_covers:
  assumes "rect_pos a" and "rect_pos b" and "rect_intersects a b"
  shows "pix a \<inter> pix b \<subseteq> pix (rect_intersect a b)
    \<and> (pix (rect_intersect a b) = pix a \<inter> pix b \<longleftrightarrow>
        (rect_max_x b \<le> rect_max_x a \<longrightarrow> rect_min_x a \<le> rect_min_x b)
        \<and> (if max (rect_min_y a) (rect_min_y b) \<le> rect_max_x b \<and> rect_max_y b \<le> rect_max_y a
           then rect_min_y a \<le> rect_min_y b else rect_max_y a \<le> rect_max_y b))"
proof -
  note r = rect_intersect_coords [OF assms]
  have "pix (rect_intersect a b) = pix (common_rect a b) \<longleftrightarrow> rect_intersect a b = common_rect a b"
    using pix_inj [OF common_rect_pos [OF assms]] by metis
  also have "\<dots> \<longleftrightarrow> rect_max_x (rect_intersect a b) = min (rect_max_x a) (rect_max_x b)
      \<and> rect_max_y (rect_intersect a b) = min (rect_max_y a) (rect_max_y b)"
    using r by (auto intro: rect_eqI)
  also have "\<dots> \<longleftrightarrow> (rect_max_x b \<le> rect_max_x a \<longrightarrow> rect_min_x a \<le> rect_min_x b)
      \<and> (if max (rect_min_y a) (rect_min_y b) \<le> rect_max_x b \<and> rect_max_y b \<le> rect_max_y a
         then rect_min_y a \<le> rect_min_y b else rect_max_y a \<le> rect_max_y b)"
    unfolding r rect_extent using assms(1,2) by (auto simp: rect_pos_def)
  finally have "pix (rect_intersect a b) = pix a \<inter> pix b \<longleftrightarrow>
      (rect_max_x b \<le> rect_max_x a \<longrightarrow> rect_min_x a \<le> rect_min_x b)
      \<and> (if max (rect_min_y a) (rect_min_y b) \<le> rect_max_x b \<and> rect_max_y b \<le> rect_max_y a
         then rect_min_y a \<le> rect_min_y b else rect_max_y a \<le> rect_max_y b)"
    by (simp only: pix_common_rect)
  moreover have "pix a \<inter> pix b \<subseteq> pix (rect_intersect a b)"
    using r by (auto simp: mem_pix rect_extent split: if_splits)
  ultimately show ?thesis by blast
qed

theorem update_occlusions_subtracts_witness:
  "\<exists>a b. array_insert (array_create 8) (Rect_new 0 0 10 10) = Inr a
     \<and> update_occlusions a (Rect_new 2 2 4 4) = Inr b
     \<and> tiles (at_list b) (pix (Rect_new 0 0 10 10) - pix (Rect_new 2 2 4 4))"
proof -
  obtain a where a: "array_insert (array_create 8) (Rect_new 0 0 10 10) = Inr a" "at_ok a"
    "at_list a = [Rect_new 0 0 10 10]" "at_cap a = 8"
    using ut.ins_ok [of "array_create 8" "Rect_new 0 0 10 10"] by auto
  have pos: "rect_pos (Rect_new 0 0 10 10)" "rect_pos (Rect_new 2 2 4 4)" by (simp_all add: Rect_new_def rect_pos_def)
  then show ?thesis
    using update_occlusions_subtracts [of a "pix (Rect_new 0 0 10 10)" "Rect_new 2 2 4 4"] a by auto
qed

end
