(* ===== verification/Awm_Windows.thy ===== *)
theory Awm_Windows
  imports Agx_Rect
begin

text \<open>
  The window manager's views (\<^verbatim>\<open>awm/window.c\<close>), its queue of screen areas to redraw (\<^verbatim>\<open>awm/composite.c\<close>) and the
  movement of windows (\<^verbatim>\<open>awm/awm.c\<close>). A window is used as a view through a pointer cast, so the common fields
  of both live in one store of views and the remaining fields of a window in a second one. Lists are
  userspace arrays of references. Pixels are not part of this state.

  The invariant \<open>regions_ok\<close>: the drawable rectangles of every view tile exactly the part of its frame that no
  view in front of it covers. Raising, moving and resizing windows, closing them, and adding and removing views
  of the desktop keep it; opening a window does not, because a new window starts with an empty frame.
\<close>

subsection \<open>State\<close>

type_synonym view_ref = nat

record view_t =
  vw_frame :: rect
  vw_drawable_rects :: "rect array_t"
  vw_extra_draws :: "rect array_t"

text \<open>
  Of the structs, the fields the operations below use; layers, titles and button frames serve drawing. The
  content view of a window is its frame. \<open>aw_title_bar_images\<close> says whether the images of the title bar are loaded;
  \<open>aw_resized_msgs\<close> holds the messages about a new size, in the order sent.
\<close>

record user_window_t =
  uw_window_id :: u32
  uw_owner_service :: string
  uw_content_frame :: rect
  uw_remote_process_died :: bool
  uw_has_title_bar :: bool

record awm_sys =
  aw_views :: "view_ref \<rightharpoonup> view_t"
  aw_wins :: "view_ref \<rightharpoonup> user_window_t"
  aw_windows :: "view_ref array_t"
  aw_with_z :: "view_ref array_t"
  aw_without_z :: "view_ref array_t"
  aw_desktop_views :: "view_ref array_t"
  aw_to_fetch :: "view_ref array_t"
  aw_to_composite :: "view_ref array_t"
  aw_screen_rects :: "rect array_t"
  aw_resolution :: size2d
  aw_title_bar_images :: bool
  aw_resized_msgs :: "(string \<times> size2d) list"

definition MAX_WINDOW_COUNT :: int where
  "MAX_WINDOW_COUNT = 64"

text \<open>The lists as \<^verbatim>\<open>windows_init\<close> and \<^verbatim>\<open>compositor_init\<close> create them.\<close>

definition awm_start :: "size2d \<Rightarrow> awm_sys" where
  "awm_start resolution =
     \<lparr>aw_views = Map.empty, aw_wins = Map.empty,
      aw_windows = array_create MAX_WINDOW_COUNT, aw_with_z = array_create MAX_WINDOW_COUNT,
      aw_without_z = array_create MAX_WINDOW_COUNT, aw_desktop_views = array_create MAX_WINDOW_COUNT,
      aw_to_fetch = array_create MAX_WINDOW_COUNT, aw_to_composite = array_create MAX_WINDOW_COUNT,
      aw_screen_rects = array_create 256, aw_resolution = resolution, aw_title_bar_images = False, aw_resized_msgs = []\<rparr>"

definition view_create :: "rect \<Rightarrow> view_t" where
  "view_create frame = \<lparr>vw_frame = frame, vw_drawable_rects = array_create 256, vw_extra_draws = array_create 256\<rparr>"

definition view_destroy :: "view_ref \<Rightarrow> 'z awm_sys_scheme \<Rightarrow> 'z awm_sys_scheme" where
  "view_destroy v s = s\<lparr>aw_views := (aw_views s)(v := None)\<rparr>"

subsection \<open>Areas to redraw\<close>

definition compositor_init :: "'z awm_sys_scheme \<Rightarrow> 'z awm_sys_scheme" where
  "compositor_init s = s\<lparr>aw_screen_rects := array_create 256\<rparr>"

definition compositor_queue_rect_to_redraw :: "rect \<Rightarrow> 'z awm_sys_scheme \<Rightarrow> 'z awm_sys_scheme res" where
  "compositor_queue_rect_to_redraw update_rect s =
     (if rect_width update_rect = 0 \<or> rect_height update_rect = 0 then Inr s
      else if at_size (aw_screen_rects s) + 1 \<ge> at_max_size (aw_screen_rects s) then Inr s
      else ebind (array_insert (aw_screen_rects s) update_rect) (\<lambda>a. Inr (s\<lparr>aw_screen_rects := a\<rparr>)))"

definition compositor_queue_rect_difference_to_redraw :: "rect \<Rightarrow> rect \<Rightarrow> 'z awm_sys_scheme \<Rightarrow> 'z awm_sys_scheme res" where
  "compositor_queue_rect_difference_to_redraw bg fg s =
     ebind (rect_diff bg fg) (\<lambda>delta.
     array_foreach_down delta
       (\<lambda>p s. ebind (deref p) (\<lambda>r. ebind (compositor_queue_rect_to_redraw r s) (\<lambda>s. Inr (False, s))))
       (at_size delta - 1) s)"

subsection \<open>Queries\<close>

definition window_is_in_z_order :: "view_ref \<Rightarrow> 'z awm_sys_scheme \<Rightarrow> bool res" where
  "window_is_in_z_order window s = ebind (array_index (aw_with_z s) window) (\<lambda>idx. Inr (idx \<ge> 0))"

definition windows_get_bottom_window :: "'z awm_sys_scheme \<Rightarrow> view_ref option res" where
  "windows_get_bottom_window s =
     (if at_size (aw_with_z s) = 0 then Inr None else array_lookup (aw_with_z s) (at_size (aw_with_z s) - 1))"

definition windows_get_top_window :: "'z awm_sys_scheme \<Rightarrow> view_ref option res" where
  "windows_get_top_window s =
     (if at_size (aw_with_z s) = 0 then Inr None else array_lookup (aw_with_z s) 0)"

text \<open>One search loop \<^verbatim>\<open>for\<close> ... \<^verbatim>\<open>if (cond) return window\<close>; a \<^verbatim>\<open>return\<close> inside ends it.\<close>

function find_window :: "view_ref array_t \<Rightarrow> (view_ref \<Rightarrow> bool res) \<Rightarrow> int \<Rightarrow> view_ref option res" where
  "find_window a cond i =
     (if i < at_size a
      then ebind (array_lookup a i) (\<lambda>p. ebind (deref p) (\<lambda>w. ebind (cond w) (\<lambda>found.
           if found then Inr (Some w) else find_window a cond (i + 1))))
      else Inr None)"
  by pat_completeness auto
termination
  by (relation "measure (\<lambda>(a, _, i). nat (at_size a - i))") auto

declare find_window.simps [simp del]

definition window_hit :: "point \<Rightarrow> bool \<Rightarrow> 'z awm_sys_scheme \<Rightarrow> view_ref \<Rightarrow> bool res" where
  "window_hit p ignore_zombie_windows s w =
     ebind (load (aw_wins s) w) (\<lambda>info.
     if ignore_zombie_windows \<and> uw_remote_process_died info then Inr False
     else ebind (load (aw_views s) w) (\<lambda>view. Inr (rect_contains_point (vw_frame view) p)))"

definition window_containing_point :: "point \<Rightarrow> bool \<Rightarrow> 'z awm_sys_scheme \<Rightarrow> view_ref option res" where
  "window_containing_point p ignore_zombie_windows s =
     ebind (find_window (aw_without_z s) (window_hit p ignore_zombie_windows s) 0) (\<lambda>hit.
     case hit of Some w \<Rightarrow> Inr (Some w)
     | None \<Rightarrow> find_window (aw_with_z s) (window_hit p ignore_zombie_windows s) 0)"

definition window_with_service_name :: "string \<Rightarrow> 'z awm_sys_scheme \<Rightarrow> view_ref option res" where
  "window_with_service_name service_name s =
     find_window (aw_windows s) (\<lambda>w. ebind (load (aw_wins s) w) (\<lambda>info.
       Inr (take 64 (uw_owner_service info) = take 64 service_name))) 0"

definition window_with_id :: "u32 \<Rightarrow> 'z awm_sys_scheme \<Rightarrow> view_ref option res" where
  "window_with_id window_id s =
     find_window (aw_windows s) (\<lambda>w. ebind (load (aw_wins s) w) (\<lambda>info. Inr (uw_window_id info = window_id))) 0"

definition add_ref :: "view_ref option \<Rightarrow> view_ref array_t \<Rightarrow> view_ref array_t res" where
  "add_ref p out = ebind (deref p) (array_insert out)"

definition all_desktop_views :: "'z awm_sys_scheme \<Rightarrow> view_ref array_t res" where
  "all_desktop_views s =
     ebind (array_foreach (aw_without_z s) add_ref 0
       (array_create (at_size (aw_windows s) + at_size (aw_desktop_views s) + 1))) (\<lambda>out.
     ebind (array_foreach (aw_with_z s) add_ref 0 out) (\<lambda>out.
     array_foreach (aw_desktop_views s) add_ref 0 out))"

subsection \<open>Queues of a cycle\<close>

definition desktop_view_queue_composite :: "view_ref \<Rightarrow> 'z awm_sys_scheme \<Rightarrow> 'z awm_sys_scheme res" where
  "desktop_view_queue_composite view s =
     ebind (array_index (aw_to_composite s) view) (\<lambda>idx.
     if idx = -1 then ebind (array_insert (aw_to_composite s) view) (\<lambda>a. Inr (s\<lparr>aw_to_composite := a\<rparr>))
     else Inr s)"

definition window_queue_fetch :: "view_ref option \<Rightarrow> 'z awm_sys_scheme \<Rightarrow> 'z awm_sys_scheme res" where
  "window_queue_fetch p s =
     (case p of None \<Rightarrow> Inr s
      | Some window \<Rightarrow>
          ebind (array_index (aw_to_fetch s) window) (\<lambda>idx.
          ebind (if idx = -1 then ebind (array_insert (aw_to_fetch s) window) (\<lambda>a. Inr (s\<lparr>aw_to_fetch := a\<rparr>))
                 else Inr s) (desktop_view_queue_composite window)))"

definition desktop_view_queue_extra_draw :: "view_ref \<Rightarrow> rect \<Rightarrow> 'z awm_sys_scheme \<Rightarrow> 'z awm_sys_scheme res" where
  "desktop_view_queue_extra_draw v extra s =
     ebind (load (aw_views s) v) (\<lambda>view.
     ebind (rect_add (vw_extra_draws view) extra) (\<lambda>a.
     Inr (s\<lparr>aw_views := (aw_views s)(v \<mapsto> view\<lparr>vw_extra_draws := a\<rparr>)\<rparr>)))"

definition desktop_views_flush_queues :: "'z awm_sys_scheme \<Rightarrow> 'z awm_sys_scheme res" where
  "desktop_views_flush_queues s =
     ebind (array_remove_down (at_size (aw_to_fetch s) - 1) (aw_to_fetch s)) (\<lambda>f.
     ebind (array_remove_down (at_size (aw_to_composite s) - 1) (aw_to_composite s)) (\<lambda>c.
     Inr (s\<lparr>aw_to_fetch := f, aw_to_composite := c\<rparr>)))"

subsection \<open>Visible regions\<close>

text \<open>The body of the inner loop of \<^verbatim>\<open>windows_invalidate_drawable_regions_in_rect\<close>: one occluding view.\<close>

definition occlude_by :: "'z awm_sys_scheme \<Rightarrow> rect \<Rightarrow> view_ref option \<Rightarrow> rect array_t \<Rightarrow> (bool \<times> rect array_t) res" where
  "occlude_by s frame p drawable =
     ebind (deref p) (\<lambda>o'.
     ebind (load (aw_views s) o') (\<lambda>occluding_view.
     if \<not> rect_intersects (vw_frame occluding_view) frame then Inr (False, drawable)
     else ebind (update_occlusions drawable (vw_frame occluding_view)) (\<lambda>drawable.
          Inr (at_size drawable = 0, drawable))))"

text \<open>The body of the outer loop, for the view \<open>v\<close> at index \<open>i\<close>.\<close>

definition invalidate_view :: "view_ref array_t \<Rightarrow> rect \<Rightarrow> int \<Rightarrow> view_ref \<Rightarrow> 'z awm_sys_scheme \<Rightarrow> 'z awm_sys_scheme res" where
  "invalidate_view all_views r i v s =
     ebind (load (aw_views s) v) (\<lambda>view.
     if \<not> rect_intersects (vw_frame view) r then Inr s
     else
       ebind (array_remove_down (at_size (vw_drawable_rects view) - 1) (vw_drawable_rects view)) (\<lambda>drawable.
       ebind (rect_add drawable (vw_frame view)) (\<lambda>drawable.
       ebind (array_foreach_down all_views (occlude_by s (vw_frame view)) (i - 1) drawable) (\<lambda>drawable.
       let s = s\<lparr>aw_views := (aw_views s)(v \<mapsto> view\<lparr>vw_drawable_rects := drawable\<rparr>)\<rparr>
       in if at_size drawable \<noteq> 0 then desktop_view_queue_composite v s else Inr s))))"

function invalidate_loop :: "view_ref array_t \<Rightarrow> rect \<Rightarrow> int \<Rightarrow> 'z awm_sys_scheme \<Rightarrow> 'z awm_sys_scheme res" where
  "invalidate_loop all_views r i s =
     (if i \<ge> 0
      then ebind (array_lookup all_views i) (\<lambda>p. ebind (deref p) (\<lambda>v.
           ebind (invalidate_view all_views r i v s) (invalidate_loop all_views r (i - 1))))
      else Inr s)"
  by pat_completeness auto
termination
  by (relation "measure (\<lambda>(_, _, i, _). nat (i + 1))") auto

declare invalidate_loop.simps [simp del]

definition windows_invalidate_drawable_regions_in_rect :: "rect \<Rightarrow> 'z awm_sys_scheme \<Rightarrow> 'z awm_sys_scheme res" where
  "windows_invalidate_drawable_regions_in_rect r s =
     ebind (all_desktop_views s) (\<lambda>all_views. invalidate_loop all_views r (at_size all_views - 1) s)"

subsection \<open>Raising, adding, removing and moving\<close>

text \<open>
  The loop of \<^verbatim>\<open>window_move_to_top\<close> shifts every element up by one. Its last round copies the slot in front of
  the array into slot 0, which is overwritten afterwards; \<open>below\<close> is the value found there.
\<close>

definition read_below :: "'a option \<Rightarrow> 'a option list \<Rightarrow> int \<Rightarrow> 'a option res" where
  "read_below below b i = (if i = -1 then Inr below else buf_read b i)"

function shift_up :: "'a option \<Rightarrow> int \<Rightarrow> 'a option list \<Rightarrow> 'a option list res" where
  "shift_up below i b =
     (if i \<ge> 0 then ebind (read_below below b (i - 1)) (\<lambda>x. ebind (buf_write b i x) (shift_up below (i - 1)))
      else Inr b)"
  by pat_completeness auto
termination
  by (relation "measure (\<lambda>(_, i, _). nat (i + 1))") auto

declare shift_up.simps [simp del]

definition window_move_to_top :: "view_ref option \<Rightarrow> view_ref \<Rightarrow> 'z awm_sys_scheme \<Rightarrow> (view_ref option \<times> 'z awm_sys_scheme) res" where
  "window_move_to_top below window s =
     ebind (array_index (aw_with_z s) window) (\<lambda>idx.
     if idx < 0 then Inr (None, s)
     else
       ebind (array_remove (aw_with_z s) idx) (\<lambda>a.
       ebind (shift_up below (at_size a) (at_array a)) (\<lambda>b.
       ebind (buf_write b 0 (Some window)) (\<lambda>b.
       let s = s\<lparr>aw_with_z := a\<lparr>at_array := b, at_size := at_size a + 1\<rparr>\<rparr>
       in ebind (load (aw_views s) window) (\<lambda>view.
          ebind (windows_invalidate_drawable_regions_in_rect (vw_frame view) s) (\<lambda>s.
          Inr (Some window, s)))))))"

definition desktop_views_add :: "view_ref \<Rightarrow> 'z awm_sys_scheme \<Rightarrow> 'z awm_sys_scheme res" where
  "desktop_views_add v s =
     ebind (array_insert (aw_desktop_views s) v) (\<lambda>a.
     ebind (desktop_view_queue_composite v (s\<lparr>aw_desktop_views := a\<rparr>)) (\<lambda>s.
     ebind (load (aw_views s) v) (\<lambda>view.
     windows_invalidate_drawable_regions_in_rect (vw_frame view) s)))"

text \<open>\<^verbatim>\<open>array_index\<close> followed by \<^verbatim>\<open>array_remove\<close> if the element is there.\<close>

definition remove_if_present :: "view_ref array_t \<Rightarrow> view_ref \<Rightarrow> view_ref array_t res" where
  "remove_if_present a v = ebind (array_index a v) (\<lambda>i. if i \<ge> 0 then array_remove a i else Inr a)"

definition desktop_view_remove_and_teardown :: "view_ref \<Rightarrow> 'z awm_sys_scheme \<Rightarrow> 'z awm_sys_scheme res" where
  "desktop_view_remove_and_teardown v s =
     ebind (array_index (aw_desktop_views s) v) (\<lambda>index.
     if index < 0 then Inl (TaskAssert ''Invalid index'')
     else ebind (array_remove (aw_desktop_views s) index) (\<lambda>d.
          ebind (remove_if_present (aw_to_composite s) v) (\<lambda>c.
          let s = s\<lparr>aw_desktop_views := d, aw_to_composite := c\<rparr>
          in ebind (load (aw_views s) v) (\<lambda>view.
             ebind (windows_invalidate_drawable_regions_in_rect (vw_frame view) s) (\<lambda>s.
             ebind (compositor_queue_rect_to_redraw (vw_frame view) s) (\<lambda>s.
             Inr (view_destroy v s)))))))"

definition window_destroy :: "view_ref option \<Rightarrow> 'z awm_sys_scheme \<Rightarrow> 'z awm_sys_scheme res" where
  "window_destroy p s =
     (case p of None \<Rightarrow> Inl (TaskAssert ''Expected non-NULL window'')
      | Some window \<Rightarrow>
          ebind (array_index (aw_windows s) window) (\<lambda>i.
          if i < 0 then Inl (TaskAssert ''Window not found'')
          else ebind (array_remove (aw_windows s) i) (\<lambda>w.
               ebind (remove_if_present (aw_with_z s) window) (\<lambda>z.
               ebind (remove_if_present (aw_without_z s) window) (\<lambda>nz.
               ebind (remove_if_present (aw_to_fetch s) window) (\<lambda>f.
               ebind (remove_if_present (aw_to_composite s) window) (\<lambda>c.
               let s = s\<lparr>aw_windows := w, aw_with_z := z, aw_without_z := nz, aw_to_fetch := f, aw_to_composite := c\<rparr>
               in ebind (load (aw_views s) window) (\<lambda>view.
                  ebind (windows_invalidate_drawable_regions_in_rect (vw_frame view) s) (\<lambda>s.
                  ebind (compositor_queue_rect_to_redraw (vw_frame view) s) (\<lambda>s.
                  Inr ((view_destroy window s)\<lparr>aw_wins := (aw_wins s)(window := None)\<rparr>)))))))))))"

text \<open>\<^verbatim>\<open>overhang\<close> is a \<^verbatim>\<open>uint32_t\<close>, so the subtraction is unsigned and its result converted back to \<^verbatim>\<open>int\<close>.\<close>

definition minus_u32 :: "int \<Rightarrow> int \<Rightarrow> int" where
  "minus_u32 a overhang = sint (word_of_int a - word_of_int overhang :: u32)"

definition rect_bind_to_screen_frame :: "size2d \<Rightarrow> rect \<Rightarrow> rect" where
  "rect_bind_to_screen_frame resolution inp =
     (let x = max (pt_x (r_origin inp)) 0;
          y = max (pt_y (r_origin inp)) 0;
          x = (if x + rect_width inp \<ge> sz_width resolution
               then minus_u32 x (x + rect_width inp - sz_width resolution) else x);
          y = (if y + rect_height inp \<ge> sz_height resolution
               then minus_u32 y (y + rect_height inp - sz_height resolution) else y)
      in rect_make (point_make x y) (r_size inp))"

definition adjust_window_position :: "view_ref \<Rightarrow> int \<Rightarrow> int \<Rightarrow> 'z awm_sys_scheme \<Rightarrow> 'z awm_sys_scheme res" where
  "adjust_window_position window delta_x delta_y s =
     ebind (load (aw_views s) window) (\<lambda>view.
     let original_frame = vw_frame view;
         moved = add_origin_y (add_origin_x original_frame delta_x) delta_y;
         frame = rect_bind_to_screen_frame (aw_resolution s) moved;
         s = s\<lparr>aw_views := (aw_views s)(window \<mapsto> view\<lparr>vw_frame := frame\<rparr>)\<rparr>
     in ebind (compositor_queue_rect_difference_to_redraw original_frame frame s)
          (windows_invalidate_drawable_regions_in_rect (rect_union original_frame frame)))"

definition WINDOW_BORDER_MARGIN :: int where
  "WINDOW_BORDER_MARGIN = 0"

definition WINDOW_TITLE_BAR_HEIGHT :: int where
  "WINDOW_TITLE_BAR_HEIGHT = 30"

definition content_frame :: "bool \<Rightarrow> size2d \<Rightarrow> rect" where
  "content_frame has_title_bar new_size =
     (let top = (if has_title_bar then WINDOW_TITLE_BAR_HEIGHT else 0)
      in rect_make (point_make WINDOW_BORDER_MARGIN top)
           (size_make (sz_width new_size - WINDOW_BORDER_MARGIN * 2) (sz_height new_size - WINDOW_BORDER_MARGIN - top)))"

text \<open>Of drawing the title bar, the area queued for redrawing.\<close>

definition window_redraw_title_bar :: "view_ref \<Rightarrow> 'z awm_sys_scheme \<Rightarrow> 'z awm_sys_scheme res" where
  "window_redraw_title_bar window s =
     ebind (load (aw_views s) window) (\<lambda>view.
     ebind (load (aw_wins s) window) (\<lambda>info.
     if \<not> uw_has_title_bar info \<or> \<not> aw_title_bar_images s then Inr s
     else let title_bar_size = size_make (rect_width (vw_frame view)) WINDOW_TITLE_BAR_HEIGHT
          in compositor_queue_rect_to_redraw (rect_make (r_origin (vw_frame view)) title_bar_size) s))"

definition window_resize :: "view_ref \<Rightarrow> size2d \<Rightarrow> bool \<Rightarrow> 'z awm_sys_scheme \<Rightarrow> 'z awm_sys_scheme res" where
  "window_resize window new_size inform_window s =
     ebind (load (aw_views s) window) (\<lambda>view.
     ebind (load (aw_wins s) window) (\<lambda>info.
     let original_frame = vw_frame view;
         frame = rect_make (r_origin original_frame) new_size;
         content = content_frame (uw_has_title_bar info) new_size;
         s = s\<lparr>aw_views := (aw_views s)(window \<mapsto> view\<lparr>vw_frame := frame\<rparr>),
               aw_wins := (aw_wins s)(window \<mapsto> info\<lparr>uw_content_frame := content\<rparr>)\<rparr>
     in ebind (if uw_has_title_bar info then window_redraw_title_bar window s else Inr s) (\<lambda>s.
        ebind (compositor_queue_rect_difference_to_redraw original_frame frame s) (\<lambda>s.
        ebind (windows_invalidate_drawable_regions_in_rect (rect_union original_frame frame) s) (\<lambda>s.
        Inr (if inform_window \<and> \<not> uw_remote_process_died info
             then s\<lparr>aw_resized_msgs := aw_resized_msgs s @ [(uw_owner_service info, r_size content)]\<rparr> else s))))))"

subsection \<open>The invariant\<close>

text \<open>All views from front to back, their frames, and the pixels of a view that \<open>us\<close> in front leave visible.\<close>

definition view_list :: "'z awm_sys_scheme \<Rightarrow> view_ref list" where
  "view_list s = at_list (aw_without_z s) @ at_list (aw_with_z s) @ at_list (aw_desktop_views s)"

definition frame_of :: "'z awm_sys_scheme \<Rightarrow> view_ref \<Rightarrow> rect" where
  "frame_of s v = vw_frame (the (aw_views s v))"

definition drawn :: "'z awm_sys_scheme \<Rightarrow> view_ref \<Rightarrow> rect list" where
  "drawn s v = at_list (vw_drawable_rects (the (aw_views s v)))"

definition seen :: "'z awm_sys_scheme \<Rightarrow> view_ref list \<Rightarrow> view_ref \<Rightarrow> (int \<times> int) set" where
  "seen s us v = pix (frame_of s v) - (\<Union>u\<in>set us. pix (frame_of s u))"

definition view_ok :: "view_t \<Rightarrow> bool" where
  "view_ok vw \<longleftrightarrow> rect_pos (vw_frame vw) \<and> at_ok (vw_drawable_rects vw) \<and> at_cap (vw_drawable_rects vw) = 256"

definition views_ok :: "'z awm_sys_scheme \<Rightarrow> view_ref list \<Rightarrow> bool" where
  "views_ok s vs \<longleftrightarrow> (\<forall>v\<in>set vs. \<exists>vw. aw_views s v = Some vw \<and> view_ok vw)"

definition queue_ok :: "view_ref array_t \<Rightarrow> view_ref list \<Rightarrow> bool" where
  "queue_ok q vs \<longleftrightarrow> at_ok q \<and> distinct (at_list q) \<and> set (at_list q) \<subseteq> set vs"

definition awm_wf :: "'z awm_sys_scheme \<Rightarrow> bool" where
  "awm_wf s \<longleftrightarrow> at_ok (aw_windows s) \<and> at_ok (aw_with_z s) \<and> at_ok (aw_without_z s) \<and> at_ok (aw_desktop_views s)
     \<and> at_ok (aw_to_fetch s) \<and> at_ok (aw_screen_rects s)
     \<and> distinct (view_list s) \<and> views_ok s (view_list s) \<and> queue_ok (aw_to_composite s) (view_list s)
     \<and> distinct (at_list (aw_windows s))
     \<and> set (at_list (aw_windows s)) = set (at_list (aw_without_z s)) \<union> set (at_list (aw_with_z s))"

definition regions_ok :: "'z awm_sys_scheme \<Rightarrow> bool" where
  "regions_ok s \<longleftrightarrow> (\<forall>us v ws. view_list s = us @ v # ws \<longrightarrow> tiles (drawn s v) (seen s us v))"

text \<open>
  When recomputing cannot run out of room: the queue has a place for every view, no list of drawable
  rectangles is full, and at most three frames in front overlap each frame (4 * 4 * 4 pieces).
\<close>

definition roomy :: "'z awm_sys_scheme \<Rightarrow> bool" where
  "roomy s \<longleftrightarrow> length (view_list s) \<le> at_cap (aw_to_composite s)
     \<and> (\<forall>us v ws. view_list s = us @ v # ws \<longrightarrow> length (drawn s v) < 256
         \<and> length (filter (\<lambda>u. rect_intersects (frame_of s u) (frame_of s v)) us) \<le> 3)"

lemma views_okD:
  assumes "views_ok s vs" "v \<in> set vs"
  shows "\<exists>vw. aw_views s v = Some vw \<and> view_ok vw \<and> vw_frame vw = frame_of s v
    \<and> at_list (vw_drawable_rects vw) = drawn s v \<and> rect_pos (frame_of s v)"
  using assms by (auto simp: views_ok_def frame_of_def drawn_def view_ok_def)

lemma appends_add_ref: "appends (add_ref (Some x)) [x]"
  using appends_insert [of x] by (simp add: add_ref_def fun_eq_iff appends_def)

lemma all_desktop_views_ok:
  assumes wf: "awm_wf s"
  shows "\<exists>a. all_desktop_views s = Inr a \<and> at_ok a \<and> at_list a = view_list s"
proof -
  have ok: "at_ok (aw_without_z s)" "at_ok (aw_with_z s)" "at_ok (aw_desktop_views s)" "at_ok (aw_windows s)"
    using wf by (auto simp: awm_wf_def)
  let ?new = "array_create (at_size (aw_windows s) + at_size (aw_desktop_views s) + 1) :: view_ref array_t"
  have app: "appends (efold add_ref xs) xs" for xs
    using appends_efold [of xs add_ref "\<lambda>x. [x]"] by (simp add: appends_add_ref concat_map_singleton)
  have "card (set (at_list (aw_windows s))) = length (at_list (aw_without_z s)) + length (at_list (aw_with_z s))"
    using wf by (subst distinct_card [of "at_list (aw_without_z s) @ at_list (aw_with_z s)", simplified length_append, symmetric])
      (auto simp: awm_wf_def view_list_def)
  then have len: "length (at_list (aw_windows s)) = length (at_list (aw_without_z s)) + length (at_list (aw_with_z s))"
    using wf distinct_card [of "at_list (aw_windows s)"] by (simp add: awm_wf_def)
  have eq: "all_desktop_views s = efold add_ref (view_list s) ?new"
    using ok by (auto simp: all_desktop_views_def view_list_def array_foreach_efold [of _ _ 0, simplified] intro: ebind_cong)
  have new: "at_ok ?new" "length (view_list s) \<le> at_cap ?new"
    using ok len by (simp_all add: at_ok_size view_list_def)
  obtain a where a: "all_desktop_views s = Inr a"
    using appends_returns [OF app new(1)] new(2) by (auto simp: eq)
  then show ?thesis using appends_dest [OF app new(1)] by (auto simp: eq)
qed

subsection \<open>Recomputing regions\<close>

lemma occlude_fold:
  assumes "views_ok s us" and "at_ok d" and "tiles (at_list d) S" and "S \<subseteq> pix f" and "rect_pos f"
  shows "(\<forall>d'. efold_until (occlude_by s f) us d = Inr d' \<longrightarrow> at_ok d' \<and> at_cap d' = at_cap d
      \<and> tiles (at_list d') (S - (\<Union>u\<in>set us. pix (frame_of s u))))
    \<and> (length (at_list d) * 4 ^ length (filter (\<lambda>u. rect_intersects (frame_of s u) f) us) \<le> at_cap d
        \<longrightarrow> (\<exists>d'. efold_until (occlude_by s f) us d = Inr d'))"
  using assms
proof (induction us arbitrary: d S)
  case (Cons u us)
  obtain vw where u: "aw_views s u = Some vw" "vw_frame vw = frame_of s u" "rect_pos (frame_of s u)"
    using views_okD [OF Cons.prems(1), of u] by auto
  have us: "views_ok s us" using Cons.prems(1) by (simp add: views_ok_def)
  let ?cover = "\<Union>u\<in>set us. pix (frame_of s u)"
  let ?n = "length (filter (\<lambda>u. rect_intersects (frame_of s u) f) us)"
  have cover: "S - (\<Union>u\<in>set (u # us). pix (frame_of s u)) = S - pix (frame_of s u) - ?cover" by auto
  show ?case
  proof (cases "rect_intersects (frame_of s u) f")
    case False
    then have same: "S - pix (frame_of s u) - ?cover = S - ?cover"
      using rect_intersects_pix [OF u(3) Cons.prems(5)] Cons.prems(4) by blast
    have "occlude_by s f (Some u) d = Inr (False, d)" using False u by (simp add: occlude_by_def)
    then show ?thesis unfolding cover same using Cons.IH [OF us Cons.prems(2-5)] False by simp
  next
    case True
    note upd = update_occlusions_tiles [OF Cons.prems(2,3) u(3)]
    have step: "occlude_by s f (Some u) d = ebind (update_occlusions d (frame_of s u)) (\<lambda>d. Inr (at_size d = 0, d))"
      using True u by (simp add: occlude_by_def)
    show ?thesis
    proof (cases "update_occlusions d (frame_of s u)")
      case (Inl e)
      then have "at_cap d < 4 * length (at_list d) * 1" using upd by auto
      also have "\<dots> \<le> 4 * length (at_list d) * 4 ^ ?n" by (intro mult_le_mono2) simp
      finally show ?thesis using Inl step True by (simp add: mult.left_commute)
    next
      case (Inr d1)
      then have d1: "at_ok d1" "at_cap d1 = at_cap d" "tiles (at_list d1) (S - pix (frame_of s u))"
        "length (at_list d1) \<le> 4 * length (at_list d)" using upd by auto
      have S: "S - pix (frame_of s u) \<subseteq> pix f" using Cons.prems(4) by auto
      note ih = Cons.IH [OF us d1(1,3) S Cons.prems(5)]
      have eq: "efold_until (occlude_by s f) (u # us) d =
          (if at_list d1 = [] then Inr d1 else efold_until (occlude_by s f) us d1)"
        using Inr step d1(1) by (simp add: at_ok_size)
      show ?thesis
      proof (cases "at_list d1 = []")
        case True
        then show ?thesis using d1 eq by auto
      next
        case False
        have "length (at_list d1) * 4 ^ ?n \<le> 4 * length (at_list d) * 4 ^ ?n" using d1(4) by (intro mult_le_mono1)
        also have "\<dots> = length (at_list d) * 4 ^ Suc ?n" by simp
        finally show ?thesis unfolding cover using ih eq False True d1(2) by (simp del: power_Suc)
      qed
    qed
  qed
qed simp

lemma array_remove_down_dest:
  assumes "at_ok a" and "array_remove_down (at_size a - 1) a = Inr a'"
  shows "at_ok a' \<and> at_list a' = [] \<and> at_cap a' = at_cap a"
proof (cases "length (at_list a) < at_cap a")
  case True
  then show ?thesis using array_remove_down_clears [OF assms(1)] assms(2) by auto
next
  case False
  then have len: "length (at_list a) = at_cap a" using ut.within [OF assms(1)] by simp
  show ?thesis
  proof (cases "at_list a")
    case Nil
    then show ?thesis using assms by (simp add: array_remove_down.simps at_ok_size)
  next
    case (Cons x xs)
    then show ?thesis
      using ut.del_full [OF assms(1) _ len, of "length xs"] assms by (auto simp: array_remove_down.simps [of _ a] at_ok_size)
  qed
qed

lemma queue_composite_ok:
  assumes q: "queue_ok (aw_to_composite s) vs" and v: "v \<in> set vs"
  shows "(\<forall>s'. desktop_view_queue_composite v s = Inr s' \<longrightarrow>
      (\<exists>q. s' = s\<lparr>aw_to_composite := q\<rparr> \<and> queue_ok q vs \<and> at_cap q = at_cap (aw_to_composite s)))
    \<and> (length vs \<le> at_cap (aw_to_composite s) \<longrightarrow> (\<exists>s'. desktop_view_queue_composite v s = Inr s'))"
proof -
  let ?q = "aw_to_composite s"
  have ok: "at_ok ?q" and d: "distinct (at_list ?q)" "set (at_list ?q) \<subseteq> set vs" using q by (auto simp: queue_ok_def)
  show ?thesis
  proof (cases "v \<in> set (at_list ?q)")
    case True
    then obtain i where "array_index ?q v = Inr (int i)" using ut.idx_present [OF ok] by blast
    then show ?thesis using q by (auto simp: desktop_view_queue_composite_def intro: exI [of _ ?q])
  next
    case False
    have "card (insert v (set (at_list ?q))) \<le> card (set vs)" using d v by (intro card_mono) auto
    then have "length (at_list ?q) < length vs"
      using False distinct_card [OF d(1)] card_length [of vs] by simp
    then have "\<exists>q. array_insert ?q v = Inr q" if "length vs \<le> at_cap ?q"
      using ut.ins_ok [OF ok, of v] that by auto
    moreover have "queue_ok q vs \<and> at_cap q = at_cap ?q" if "array_insert ?q v = Inr q" for q
      using ut.ins_dest [OF ok that] False d v by (simp add: queue_ok_def)
    ultimately show ?thesis
      using ut.idx_absent [OF ok False] by (fastforce simp: desktop_view_queue_composite_def ebind_eq_Inr)
  qed
qed

text \<open>The drawable rectangles recomputed for a frame \<open>f\<close> that stands behind \<open>us\<close>.\<close>

definition recompute :: "'z awm_sys_scheme \<Rightarrow> rect \<Rightarrow> view_ref list \<Rightarrow> rect array_t \<Rightarrow> rect array_t res" where
  "recompute s f us d =
     ebind (array_remove_down (at_size d - 1) d) (\<lambda>d. ebind (rect_add d f) (efold_until (occlude_by s f) us))"

lemma recompute_ok:
  assumes us: "views_ok s us" and d: "at_ok d" "at_cap d = 256" and f: "rect_pos f"
  shows "(\<forall>d'. recompute s f us d = Inr d' \<longrightarrow> at_ok d' \<and> at_cap d' = 256
      \<and> tiles (at_list d') (pix f - (\<Union>u\<in>set us. pix (frame_of s u))))
    \<and> (length (at_list d) < 256 \<and> length (filter (\<lambda>u. rect_intersects (frame_of s u) f) us) \<le> 3
        \<longrightarrow> (\<exists>d'. recompute s f us d = Inr d'))"
proof (cases "array_remove_down (at_size d - 1) d")
  case (Inl e)
  then show ?thesis using array_remove_down_clears [OF d(1)] d(2) by (auto simp: recompute_def)
next
  case (Inr d0)
  then have d0: "at_ok d0" "at_list d0 = []" "at_cap d0 = 256" using array_remove_down_dest [OF d(1)] d(2) by auto
  then obtain d1 where d1: "array_insert d0 f = Inr d1" "at_ok d1" "at_list d1 = [f]" "at_cap d1 = 256"
    using ut.ins_ok [OF d0(1), of f] by auto
  have eq: "recompute s f us d = efold_until (occlude_by s f) us d1"
    using Inr d1(1) f by (auto simp: recompute_def rect_add_def rect_pos_size)
  let ?n = "length (filter (\<lambda>u. rect_intersects (frame_of s u) f) us)"
  have "(4 :: nat) ^ ?n \<le> 256" if "?n \<le> 3" using power_increasing [OF that, of "4 :: nat"] by simp
  then show ?thesis
    using occlude_fold [OF us d1(2) _ subset_refl f] d1(3,4) f unfolding eq by auto
qed

text \<open>Recomputing one view \<open>v\<close> that stands behind \<open>us\<close>.\<close>

lemma invalidate_view_eq:
  assumes "at_ok a" "at_list a = us @ v # ws" "aw_views s v = Some vw" "rect_intersects (vw_frame vw) r"
  shows "invalidate_view a r (int (length us)) v s =
    ebind (recompute s (vw_frame vw) (rev us) (vw_drawable_rects vw)) (\<lambda>d.
      let s = s\<lparr>aw_views := (aw_views s)(v \<mapsto> vw\<lparr>vw_drawable_rects := d\<rparr>)\<rparr>
      in if at_size d \<noteq> 0 then desktop_view_queue_composite v s else Inr s)"
proof -
  have "length us \<le> length (at_list a)" using assms(2) by simp
  note loop = array_foreach_down_efold [OF assms(1) this]
  have "rev (take (length us) (at_list a)) = rev us" using assms(2) by simp
  then show ?thesis
    using assms(3,4) by (simp add: invalidate_view_def recompute_def ebind_assoc loop fun_eq_iff)
qed

lemma invalidate_view_ok:
  assumes av: "at_ok a" "at_list a = us @ v # ws" and vs: "views_ok s (us @ v # ws)"
    and q: "queue_ok (aw_to_composite s) (us @ v # ws)" and meet: "rect_intersects (frame_of s v) r"
  shows "(\<forall>s'. invalidate_view a r (int (length us)) v s = Inr s' \<longrightarrow>
      (\<exists>vw q. s' = s\<lparr>aw_views := (aw_views s)(v \<mapsto> vw), aw_to_composite := q\<rparr> \<and> view_ok vw
        \<and> vw_frame vw = frame_of s v \<and> tiles (at_list (vw_drawable_rects vw)) (seen s us v)
        \<and> queue_ok q (us @ v # ws) \<and> at_cap q = at_cap (aw_to_composite s)))
    \<and> (length (drawn s v) < 256 \<and> length (us @ v # ws) \<le> at_cap (aw_to_composite s)
        \<and> length (filter (\<lambda>u. rect_intersects (frame_of s u) (frame_of s v)) us) \<le> 3
        \<longrightarrow> (\<exists>s'. invalidate_view a r (int (length us)) v s = Inr s'))"
proof -
  obtain vw where vw: "aw_views s v = Some vw" "view_ok vw" "vw_frame vw = frame_of s v"
    "at_list (vw_drawable_rects vw) = drawn s v" "rect_pos (frame_of s v)"
    using views_okD [OF vs, of v] by auto
  let ?set = "\<lambda>d. s\<lparr>aw_views := (aw_views s)(v \<mapsto> vw\<lparr>vw_drawable_rects := d\<rparr>)\<rparr>"
  have us: "views_ok s (rev us)" using vs by (simp add: views_ok_def)
  note rec = recompute_ok [OF us, of "vw_drawable_rects vw" "vw_frame vw"]
  have que: "(\<forall>s'. desktop_view_queue_composite v (?set d) = Inr s' \<longrightarrow>
        (\<exists>q. s' = (?set d)\<lparr>aw_to_composite := q\<rparr> \<and> queue_ok q (us @ v # ws) \<and> at_cap q = at_cap (aw_to_composite s)))
      \<and> (length (us @ v # ws) \<le> at_cap (aw_to_composite s) \<longrightarrow> (\<exists>s'. desktop_view_queue_composite v (?set d) = Inr s'))" for d
    using queue_composite_ok [of "?set d" "us @ v # ws" v] q by simp
  have eq: "invalidate_view a r (int (length us)) v s =
      ebind (recompute s (vw_frame vw) (rev us) (vw_drawable_rects vw)) (\<lambda>d.
        if at_size d \<noteq> 0 then desktop_view_queue_composite v (?set d) else Inr (?set d))"
    using invalidate_view_eq [OF av vw(1)] meet vw(3) by (simp add: Let_def)
  show ?thesis
  proof (cases "recompute s (vw_frame vw) (rev us) (vw_drawable_rects vw)")
    case (Inl e)
    then show ?thesis using rec vw eq by (auto simp: view_ok_def rev_filter [symmetric])
  next
    case (Inr d)
    then have d: "at_ok d" "at_cap d = 256" "tiles (at_list d) (seen s us v)"
      using rec vw by (auto simp: view_ok_def seen_def)
    then have vok: "view_ok (vw\<lparr>vw_drawable_rects := d\<rparr>)" using vw(2) by (simp add: view_ok_def)
    have "\<exists>q. s' = (?set d)\<lparr>aw_to_composite := q\<rparr> \<and> queue_ok q (us @ v # ws) \<and> at_cap q = at_cap (aw_to_composite s)"
      if "invalidate_view a r (int (length us)) v s = Inr s'" for s'
      using that Inr eq que [of d] q by (cases "at_size d = 0") (auto intro: exI [of _ "aw_to_composite s"])
    moreover have "\<exists>s'. invalidate_view a r (int (length us)) v s = Inr s'"
      if "length (us @ v # ws) \<le> at_cap (aw_to_composite s)"
      using that Inr eq que [of d] by (cases "at_size d = 0") auto
    ultimately show ?thesis
      using vok d(3) vw(3) by (fastforce intro!: exI [of _ "vw\<lparr>vw_drawable_rects := d\<rparr>"])
  qed
qed

text \<open>
  What a run over the first \<open>k\<close> views of \<open>vs\<close> has done: the views that meet \<open>r\<close> have their visible region,
  nothing else has changed apart from the queue.
\<close>

definition recomputed :: "view_ref list \<Rightarrow> rect \<Rightarrow> nat \<Rightarrow> 'z awm_sys_scheme \<Rightarrow> 'z awm_sys_scheme \<Rightarrow> bool" where
  "recomputed vs r k s s' \<longleftrightarrow>
     (\<exists>V q. s' = s\<lparr>aw_views := V, aw_to_composite := q\<rparr> \<and> queue_ok q vs \<and> at_cap q = at_cap (aw_to_composite s))
     \<and> (\<forall>u. u \<notin> set (take k vs) \<or> \<not> rect_intersects (frame_of s u) r \<longrightarrow> aw_views s' u = aw_views s u)
     \<and> (\<forall>us v ws. vs = us @ v # ws \<and> length us < k \<and> rect_intersects (frame_of s v) r \<longrightarrow>
         (\<exists>vw. aw_views s' v = Some vw \<and> view_ok vw \<and> vw_frame vw = frame_of s v
           \<and> tiles (at_list (vw_drawable_rects vw)) (seen s us v)))"

definition roomy_upto :: "'z awm_sys_scheme \<Rightarrow> view_ref list \<Rightarrow> nat \<Rightarrow> bool" where
  "roomy_upto s vs k \<longleftrightarrow> length vs \<le> at_cap (aw_to_composite s)
     \<and> (\<forall>us v ws. vs = us @ v # ws \<and> length us < k \<longrightarrow> length (drawn s v) < 256
         \<and> length (filter (\<lambda>u. rect_intersects (frame_of s u) (frame_of s v)) us) \<le> 3)"

lemma roomy_uptoD:
  assumes "roomy_upto s vs k" "vs = us @ v # ws" "length us < k"
  shows "length (drawn s v) < 256 \<and> length (filter (\<lambda>u. rect_intersects (frame_of s u) (frame_of s v)) us) \<le> 3"
  using assms unfolding roomy_upto_def by blast

lemma roomy_upto_Suc:
  assumes "roomy_upto s vs (Suc k)"
  shows "roomy_upto s vs k"
  unfolding roomy_upto_def
proof (intro conjI allI impI)
  fix us v ws assume "vs = us @ v # ws \<and> length us < k"
  then have "vs = us @ v # ws" "length us < Suc k" by auto
  then show "length (drawn s v) < 256" "length (filter (\<lambda>u. rect_intersects (frame_of s u) (frame_of s v)) us) \<le> 3"
    using roomy_uptoD [OF assms] by auto
qed (use assms in \<open>simp add: roomy_upto_def\<close>)

lemma recomputed_skip:
  assumes "recomputed vs r k s s'" and "vs = us @ v # ws" and "length us = k" and "\<not> rect_intersects (frame_of s v) r"
  shows "recomputed vs r (Suc k) s s'"
  using assms by (auto simp: recomputed_def less_Suc_eq)

lemma recomputed_step:
  assumes first: "s1 = s\<lparr>aw_views := (aw_views s)(v \<mapsto> vw), aw_to_composite := q\<rparr>" "view_ok vw"
      "vw_frame vw = frame_of s v" "tiles (at_list (vw_drawable_rects vw)) (seen s us v)"
      "at_cap q = at_cap (aw_to_composite s)"
    and rest: "recomputed vs r (length us) s1 s'" and vs: "vs = us @ v # ws" "distinct vs"
    and meet: "rect_intersects (frame_of s v) r"
  shows "recomputed vs r (Suc (length us)) s s'"
proof -
  have fr: "frame_of s1 u = frame_of s u" for u using first(1,3) by (simp add: frame_of_def)
  then have sn: "seen s1 = seen s" by (simp add: seen_def fun_eq_iff)
  have v: "aw_views s' v = Some vw" using rest first(1) vs by (auto simp: recomputed_def)
  have "aw_views s' u = aw_views s u" if "u \<notin> set (take (Suc (length us)) vs) \<or> \<not> rect_intersects (frame_of s u) r" for u
  proof -
    have "u \<noteq> v" using that meet vs(1) by auto
    then show ?thesis using that rest first(1) vs(1) fr by (auto simp: recomputed_def)
  qed
  moreover have "\<exists>vw'. aw_views s' v' = Some vw' \<and> view_ok vw' \<and> vw_frame vw' = frame_of s v'
      \<and> tiles (at_list (vw_drawable_rects vw')) (seen s us' v')"
    if "vs = us' @ v' # ws'" "length us' < Suc (length us)" "rect_intersects (frame_of s v') r" for us' v' ws'
  proof (cases "length us' = length us")
    case True
    then have "us' = us" "v' = v" using that(1) vs(1) by auto
    then show ?thesis using v first(2-4) by auto
  next
    case False
    then show ?thesis using rest that fr by (simp add: recomputed_def sn)
  qed
  ultimately show ?thesis using rest first(1,5) by (auto simp: recomputed_def)
qed

lemma roomy_upto_step:
  assumes "roomy_upto s vs (Suc k)" and s1: "s1 = s\<lparr>aw_views := (aw_views s)(v \<mapsto> vw), aw_to_composite := q\<rparr>"
    and fr: "vw_frame vw = frame_of s v" and "at_cap q = at_cap (aw_to_composite s)"
    and vs: "vs = us @ v # ws" "distinct vs" and k: "k = length us"
  shows "roomy_upto s1 vs k"
  unfolding roomy_upto_def
proof (intro conjI allI impI)
  have "frame_of s1 u = frame_of s u" for u using s1 fr by (simp add: frame_of_def)
  moreover fix us' v' ws' assume v': "vs = us' @ v' # ws' \<and> length us' < k"
  then have "v' = (us @ v # ws) ! length us'" using vs(1) by (metis nth_append_length)
  then have "v' \<in> set us" using v' k by (simp add: nth_append)
  then have "drawn s1 v' = drawn s v'" using vs s1 by (auto simp: drawn_def)
  ultimately show "length (drawn s1 v') < 256"
    "length (filter (\<lambda>u. rect_intersects (frame_of s1 u) (frame_of s1 v')) us') \<le> 3"
    using roomy_uptoD [OF assms(1), of us' v' ws'] v' by auto
qed (use assms in \<open>auto simp: roomy_upto_def\<close>)

lemma invalidate_loop_ok:
  assumes "at_ok a" "at_list a = vs" "distinct vs" "views_ok s vs" "queue_ok (aw_to_composite s) vs" "k \<le> length vs"
  shows "(\<forall>s'. invalidate_loop a r (int k - 1) s = Inr s' \<longrightarrow> recomputed vs r k s s')
    \<and> (roomy_upto s vs k \<longrightarrow> (\<exists>s'. invalidate_loop a r (int k - 1) s = Inr s'))"
  using assms(4-6)
proof (induction k arbitrary: s)
  case 0
  then show ?case by (simp add: invalidate_loop.simps recomputed_def) (metis awm_sys.surjective awm_sys.update_convs(1,8))
next
  case (Suc k)
  define us v ws where "us = take k vs" and "v = vs ! k" and "ws = drop (Suc k) vs"
  have vs: "vs = us @ v # ws" and k: "k = length us"
    using Suc.prems(3) by (auto simp: us_def v_def ws_def id_take_nth_drop)
  obtain vw where vw: "aw_views s v = Some vw" "vw_frame vw = frame_of s v" using views_okD [OF Suc.prems(1), of v] vs by auto
  have lk: "array_lookup a (int k) = Inr (Some v)"
    using array_lookup_as [OF assms(1), of k] Suc.prems(3) assms(2) by (simp add: v_def)
  have eq: "invalidate_loop a r (int (Suc k) - 1) s =
      ebind (invalidate_view a r (int (length us)) v s) (invalidate_loop a r (int k - 1))"
    using lk k by (simp add: invalidate_loop.simps [of a r "int (length us)"])
  show ?case
  proof (cases "rect_intersects (frame_of s v) r")
    case False
    then have "invalidate_view a r (int (length us)) v s = Inr s" using vw by (simp add: invalidate_view_def)
    then show ?thesis
      using roomy_upto_Suc [of s vs k] Suc.IH [OF Suc.prems(1,2)] Suc.prems(3) recomputed_skip [OF _ vs k [symmetric] False] eq by auto
  next
    case True
    note one = invalidate_view_ok [OF assms(1) assms(2) [unfolded vs] Suc.prems(1,2) [unfolded vs] True]
    show ?thesis
    proof (cases "invalidate_view a r (int (length us)) v s")
      case (Inl e)
      then show ?thesis using one eq vs k by (auto simp: roomy_upto_def)
    next
      case (Inr s1)
      then obtain vw q where s1: "s1 = s\<lparr>aw_views := (aw_views s)(v \<mapsto> vw), aw_to_composite := q\<rparr>" "view_ok vw"
        "vw_frame vw = frame_of s v" "tiles (at_list (vw_drawable_rects vw)) (seen s us v)"
        "queue_ok q vs" "at_cap q = at_cap (aw_to_composite s)"
        using one vs by auto
      have "views_ok s1 vs" "queue_ok (aw_to_composite s1) vs" using s1 Suc.prems(1) by (auto simp: views_ok_def)
      note ih = Suc.IH [OF this]
      have "roomy_upto s1 vs k" if "roomy_upto s vs (Suc k)"
        using roomy_upto_step [OF that s1(1,3,6) vs assms(3)] k by simp
      then show ?thesis
        using ih Suc.prems(3) eq Inr recomputed_step [OF s1(1-4,6) _ vs assms(3) True] k by auto
    qed
  qed
qed

subsection \<open>Regions after a change\<close>

lemma invalidation_ok:
  assumes wf: "awm_wf s"
  shows "(\<forall>s'. windows_invalidate_drawable_regions_in_rect r s = Inr s' \<longrightarrow>
      recomputed (view_list s) r (length (view_list s)) s s')
    \<and> (roomy s \<longrightarrow> (\<exists>s'. windows_invalidate_drawable_regions_in_rect r s = Inr s'))"
proof -
  obtain a where a: "all_desktop_views s = Inr a" "at_ok a" "at_list a = view_list s"
    using all_desktop_views_ok [OF wf] by blast
  have "roomy_upto s (view_list s) (length (view_list s))" if "roomy s"
    using that unfolding roomy_upto_def roomy_def by blast
  then show ?thesis
    using invalidate_loop_ok [OF a(2,3), of s "length (view_list s)" r] wf a at_ok_size [OF a(2)]
    by (auto simp: windows_invalidate_drawable_regions_in_rect_def awm_wf_def)
qed

lemma recomputed_hit:
  assumes "recomputed vs r (length vs) s s'" "vs = us @ v # ws" "rect_intersects (frame_of s v) r"
  shows "\<exists>vw. aw_views s' v = Some vw \<and> view_ok vw \<and> vw_frame vw = frame_of s v
    \<and> tiles (at_list (vw_drawable_rects vw)) (seen s us v)"
proof -
  have "length us < length vs" using assms(2) by simp
  then show ?thesis using assms unfolding recomputed_def by blast
qed

lemma recomputed_frames:
  assumes "recomputed vs r (length vs) s s'"
  shows "frame_of s' u = frame_of s u"
proof (cases "u \<in> set vs \<and> rect_intersects (frame_of s u) r")
  case True
  then obtain us ws where "vs = us @ u # ws" by (meson split_list)
  then obtain vw where "aw_views s' u = Some vw" "vw_frame vw = frame_of s u"
    using recomputed_hit [OF assms] True by blast
  then show ?thesis by (simp add: frame_of_def)
qed (use assms in \<open>auto simp: recomputed_def frame_of_def\<close>)

lemma recomputed_wf:
  assumes wf: "awm_wf s" and rc: "recomputed (view_list s) r (length (view_list s)) s s'"
  shows "awm_wf s' \<and> view_list s' = view_list s"
proof -
  obtain V q where s': "s' = s\<lparr>aw_views := V, aw_to_composite := q\<rparr>" "queue_ok q (view_list s)"
    using rc by (auto simp: recomputed_def)
  then have vl: "view_list s' = view_list s" by (simp add: view_list_def)
  have "\<exists>vw. aw_views s' v = Some vw \<and> view_ok vw" if v: "v \<in> set (view_list s)" for v
  proof (cases "rect_intersects (frame_of s v) r")
    case True
    obtain us ws where "view_list s = us @ v # ws" using v by (meson split_list)
    then show ?thesis using recomputed_hit [OF rc] True by blast
  next
    case False
    then show ?thesis using rc wf v by (auto simp: recomputed_def awm_wf_def views_ok_def)
  qed
  then have "views_ok s' (view_list s)" by (simp add: views_ok_def)
  then show ?thesis using wf s' vl by (simp add: awm_wf_def)
qed

text \<open>After invalidating \<open>r\<close> every region is right, if the views that \<open>r\<close> does not meet had theirs.\<close>

lemma regions_restored:
  assumes wf: "awm_wf s" and res: "windows_invalidate_drawable_regions_in_rect r s = Inr s'"
    and others: "\<And>us v ws. view_list s = us @ v # ws \<Longrightarrow> \<not> rect_intersects (frame_of s v) r \<Longrightarrow>
      tiles (drawn s v) (seen s us v)"
  shows "awm_wf s' \<and> regions_ok s' \<and> view_list s' = view_list s \<and> (\<forall>u. frame_of s' u = frame_of s u)
    \<and> (\<forall>u. u \<notin> set (view_list s) \<longrightarrow> aw_views s' u = aw_views s u)
    \<and> aw_screen_rects s' = aw_screen_rects s"
proof -
  have rc: "recomputed (view_list s) r (length (view_list s)) s s'" using invalidation_ok [OF wf] res by blast
  have fr: "frame_of s' u = frame_of s u" for u by (rule recomputed_frames [OF rc])
  have vl: "view_list s' = view_list s" using recomputed_wf [OF wf rc] by blast
  have "tiles (drawn s' v) (seen s' us v)" if "view_list s' = us @ v # ws" for us v ws
  proof -
    have vs: "view_list s = us @ v # ws" using that vl by simp
    have sn: "seen s' us v = seen s us v" by (simp add: seen_def fr)
    show ?thesis
    proof (cases "rect_intersects (frame_of s v) r")
      case True
      then show ?thesis using recomputed_hit [OF rc vs] by (auto simp: drawn_def sn)
    next
      case False
      then show ?thesis using rc others [OF vs] by (simp add: recomputed_def drawn_def sn)
    qed
  qed
  then show ?thesis using recomputed_wf [OF wf rc] fr rc by (auto simp: regions_ok_def recomputed_def)
qed

text \<open>Two lists of views that agree apart from one view \<open>w\<close> have the same other views in front of a view.\<close>

lemma front_views:
  assumes "distinct vs" "distinct vs'" "filter (\<lambda>x. x \<noteq> w) vs = filter (\<lambda>x. x \<noteq> w) vs'"
    and "vs' = us' @ v # ws'" and "v \<noteq> w"
  shows "\<exists>us ws. vs = us @ v # ws \<and> set us - {w} = set us' - {w}"
proof -
  have tw: "takeWhile (\<lambda>x. x \<noteq> v) (a @ v # b) = a" if "v \<notin> set a" for a b :: "'a list"
    using that by (induction a) auto
  have filter_tw: "filter (\<lambda>x. x \<noteq> w) (takeWhile (\<lambda>x. x \<noteq> v) l) = takeWhile (\<lambda>x. x \<noteq> v) (filter (\<lambda>x. x \<noteq> w) l)" for l
    using assms(5) by (induction l) auto
  have "v \<in> set (filter (\<lambda>x. x \<noteq> w) vs)" using assms(3-5) by simp
  then have "v \<in> set vs" by simp
  then obtain us ws where vs: "vs = us @ v # ws" by (meson split_list)
  then have "filter (\<lambda>x. x \<noteq> w) us = filter (\<lambda>x. x \<noteq> w) us'"
    using filter_tw [of vs] filter_tw [of vs'] assms tw by auto
  then have "set (filter (\<lambda>x. x \<noteq> w) us) = set (filter (\<lambda>x. x \<noteq> w) us')" by simp
  then show ?thesis using vs by auto
qed

text \<open>
  A change that concerns one view \<open>w\<close> only, followed by an invalidation of a rectangle that covers the old
  and the new frame of \<open>w\<close>, restores the invariant.
\<close>

lemma Diff_UN_drop: "(w \<in> S \<Longrightarrow> P \<inter> F w = {}) \<Longrightarrow> P - (\<Union>u\<in>S. F u) = P - (\<Union>u\<in>S - {w}. F u)"
  by auto

lemma change_then_invalidate:
  assumes old: "awm_wf s" "regions_ok s" and new: "awm_wf s1"
    and lists: "filter (\<lambda>x. x \<noteq> w) (view_list s) = filter (\<lambda>x. x \<noteq> w) (view_list s1)"
    and views: "\<And>u. u \<noteq> w \<Longrightarrow> aw_views s1 u = aw_views s u"
    and meets: "w \<in> set (view_list s1) \<Longrightarrow> rect_intersects (frame_of s1 w) r"
    and clear: "\<And>f t. t \<in> {s, s1} \<Longrightarrow> w \<in> set (view_list t) \<Longrightarrow> rect_pos f \<Longrightarrow> \<not> rect_intersects f r \<Longrightarrow>
      pix f \<inter> pix (frame_of t w) = {}"
    and res: "windows_invalidate_drawable_regions_in_rect r s1 = Inr s'"
  shows "awm_wf s' \<and> regions_ok s' \<and> view_list s' = view_list s1 \<and> (\<forall>u. frame_of s' u = frame_of s1 u)
    \<and> (\<forall>u. u \<notin> set (view_list s1) \<longrightarrow> aw_views s' u = aw_views s1 u)
    \<and> aw_screen_rects s' = aw_screen_rects s1"
proof (rule regions_restored [OF new res])
  fix us v ws assume vs: "view_list s1 = us @ v # ws" and miss: "\<not> rect_intersects (frame_of s1 v) r"
  then have v: "v \<noteq> w" "v \<in> set (view_list s1)" using meets by auto
  have dist: "distinct (view_list s)" "distinct (view_list s1)" using old new by (auto simp: awm_wf_def)
  obtain us0 ws0 where vs0: "view_list s = us0 @ v # ws0" "set us0 - {w} = set us - {w}"
    using front_views [OF dist lists vs v(1)] by blast
  have fr: "frame_of s1 u = frame_of s u" if "u \<noteq> w" for u using views [OF that] by (simp add: frame_of_def)
  have pos: "rect_pos (frame_of s v)"
    using views_okD [of s1 "view_list s1" v] new v fr by (auto simp: awm_wf_def)
  have "pix (frame_of s v) \<inter> pix (frame_of s w) = {}" if "w \<in> set us0"
    using clear [of s "frame_of s v"] that vs0(1) pos miss fr [OF v(1)] by auto
  moreover have "pix (frame_of s v) \<inter> pix (frame_of s1 w) = {}" if "w \<in> set us"
    using clear [of s1 "frame_of s v"] that vs pos miss fr [OF v(1)] by auto
  ultimately have "seen s us0 v = pix (frame_of s v) - (\<Union>u\<in>set us0 - {w}. pix (frame_of s u))"
    "seen s1 us v = pix (frame_of s v) - (\<Union>u\<in>set us - {w}. pix (frame_of s1 u))"
    unfolding seen_def fr [OF v(1)] by (intro Diff_UN_drop; simp)+
  then have "seen s1 us v = seen s us0 v" using vs0(2) fr by simp
  moreover have "drawn s1 v = drawn s v" using views [OF v(1)] by (simp add: drawn_def)
  ultimately show "tiles (drawn s1 v) (seen s1 us v)" using old(2) vs0(1) by (simp add: regions_ok_def)
qed

subsection \<open>Raising a window\<close>

lemma shift_up_eq:
  "k < length b \<Longrightarrow> shift_up below (int k) b = Inr (below # take k b @ drop (Suc k) b)"
proof (induction k arbitrary: b)
  case 0
  then show ?case
    by (cases b) (simp_all add: shift_up.simps [of below 0] shift_up.simps [of below "-1"] read_below_def buf_write_def)
next
  case (Suc k)
  have "drop (Suc k) (b[Suc k := b ! k]) = b ! k # drop (Suc (Suc k)) b"
    using Suc.prems Cons_nth_drop_Suc [of "Suc k" "b[Suc k := b ! k]"] by simp
  then have "shift_up below (int k) (b[Suc k := b ! k]) = Inr (below # take k b @ b ! k # drop (Suc (Suc k)) b)"
    using Suc.IH [of "b[Suc k := b ! k]"] Suc.prems by simp
  moreover have "take (Suc k) b = take k b @ [b ! k]" using Suc.prems by (simp add: take_Suc_conv_app_nth)
  ultimately show ?case
    using Suc.prems by (simp add: shift_up.simps [of below "1 + int k"] read_below_def buf_read_def buf_write_def nat_add_distrib)
qed

lemma put_front:
  assumes "at_ok a" and "length (at_list a) < at_cap a"
  shows "\<exists>b. ebind (shift_up below (at_size a) (at_array a)) (\<lambda>b. buf_write b 0 (Some w)) = Inr b
    \<and> at_ok (a\<lparr>at_array := b, at_size := at_size a + 1\<rparr>)
    \<and> at_list (a\<lparr>at_array := b, at_size := at_size a + 1\<rparr>) = w # at_list a"
proof -
  let ?k = "length (at_list a)"
  have wf: "slots_wf (at_array a) (int ?k) (at_max_size a)" using assms(1) at_ok_size [OF assms(1)] by (simp add: at_ok_def)
  then have len: "length (at_array a) = at_cap a" by (simp add: slots_wf_def at_cap_def)
  have "shift_up below (at_size a) (at_array a) = Inr (below # take ?k (at_array a) @ drop (Suc ?k) (at_array a))"
    using shift_up_eq [of ?k "at_array a"] assms len at_ok_size [OF assms(1)] by simp
  moreover define b where "b = Some w # take ?k (at_array a) @ drop (Suc ?k) (at_array a)"
  ultimately have 1: "ebind (shift_up below (at_size a) (at_array a)) (\<lambda>b. buf_write b 0 (Some w)) = Inr b"
    by (simp add: buf_write_def)
  have 2: "slots_wf b (at_size a + 1) (at_max_size a)"
    using wf assms(2) len at_ok_size [OF assms(1)] by (auto simp: b_def slots_wf_def at_cap_def min_def)
  have "slots_list b (at_size a + 1) = w # slots_list (at_array a) (at_size a)"
    using assms(2) len at_ok_size [OF assms(1)] by (simp add: b_def slots_list_def min_def)
  then show ?thesis using 1 2 by (intro exI [of _ b]) (simp add: at_ok_def at_list_def)
qed

text \<open>What \<^verbatim>\<open>window_move_to_top\<close> does for a window in the z-order, up to the invalidation.\<close>

lemma move_to_top_eq:
  assumes ok: "at_ok (aw_with_z s)" and w: "w \<in> set (at_list (aw_with_z s))" and vw: "aw_views s w = Some vw"
    and res: "window_move_to_top below w s = Inr (p, s')"
  shows "\<exists>z. at_ok z \<and> at_list z = w # remove1 w (at_list (aw_with_z s)) \<and> at_cap z = at_cap (aw_with_z s)
    \<and> p = Some w \<and> windows_invalidate_drawable_regions_in_rect (vw_frame vw) (s\<lparr>aw_with_z := z\<rparr>) = Inr s'"
proof -
  obtain i where i: "array_index (aw_with_z s) w = Inr (int i)" "i < length (at_list (aw_with_z s))"
    "remove_nth i (at_list (aw_with_z s)) = remove1 w (at_list (aw_with_z s))"
    using ut.idx_present [OF ok w] by blast
  obtain a where a: "array_remove (aw_with_z s) (int i) = Inr a"
    using res i(1) by (auto simp: window_move_to_top_def ebind_eq_Inr)
  have d: "at_ok a" "at_list a = remove1 w (at_list (aw_with_z s))" "at_cap a = at_cap (aw_with_z s)"
    "length (at_list (aw_with_z s)) < at_cap (aw_with_z s)"
    using ut.del_dest [OF ok a] i(3) by auto
  then have room: "length (at_list a) < at_cap a" by (auto simp: length_remove1 intro: le_less_trans [OF diff_le_self])
  obtain b where b: "ebind (shift_up below (at_size a) (at_array a)) (\<lambda>b. buf_write b 0 (Some w)) = Inr b"
    "at_ok (a\<lparr>at_array := b, at_size := at_size a + 1\<rparr>)"
    "at_list (a\<lparr>at_array := b, at_size := at_size a + 1\<rparr>) = w # at_list a"
    using put_front [OF d(1) room] by blast
  then show ?thesis
    using res i(1) a vw d(2,3)
    by (intro exI [of _ "a\<lparr>at_array := b, at_size := at_size a + 1\<rparr>"])
      (auto simp: window_move_to_top_def ebind_eq_Inr at_cap_def Let_def)
qed

lemma move_to_top_regions:
  assumes wf: "awm_wf s" and ok: "regions_ok s" and res: "window_move_to_top below w s = Inr (p, s')"
  shows "awm_wf s' \<and> regions_ok s'
    \<and> (if w \<in> set (at_list (aw_with_z s))
       then p = Some w \<and> view_list s' = at_list (aw_without_z s) @ w # remove1 w (at_list (aw_with_z s)) @ at_list (aw_desktop_views s)
       else p = None \<and> s' = s)"
proof (cases "w \<in> set (at_list (aw_with_z s))")
  case False
  then show ?thesis
    using wf ok res ut.idx_absent [of "aw_with_z s" w] by (auto simp: window_move_to_top_def awm_wf_def)
next
  case True
  have vs: "views_ok s (view_list s)" "w \<in> set (view_list s)" using wf True by (auto simp: awm_wf_def view_list_def)
  obtain vw where vw: "aw_views s w = Some vw" "vw_frame vw = frame_of s w" "rect_pos (frame_of s w)"
    using views_okD [OF vs] by auto
  have z_ok: "at_ok (aw_with_z s)" using wf by (simp add: awm_wf_def)
  obtain z where z: "at_ok z" "at_list z = w # remove1 w (at_list (aw_with_z s))" "p = Some w"
    "windows_invalidate_drawable_regions_in_rect (frame_of s w) (s\<lparr>aw_with_z := z\<rparr>) = Inr s'"
    using move_to_top_eq [OF z_ok True vw(1) res] vw(2) by auto
  let ?s1 = "s\<lparr>aw_with_z := z\<rparr>"
  have vl: "view_list ?s1 = at_list (aw_without_z s) @ w # remove1 w (at_list (aw_with_z s)) @ at_list (aw_desktop_views s)"
    using z(2) by (simp add: view_list_def)
  have d: "distinct (view_list s)" using wf by (simp add: awm_wf_def)
  then have st: "set (view_list ?s1) = set (view_list s)" "set (at_list z) = set (at_list (aw_with_z s))" "distinct (view_list ?s1)"
    using True vl z(2) by (auto simp: view_list_def)
  then have wf1: "awm_wf ?s1" using wf z(1) by (simp add: awm_wf_def views_ok_def queue_ok_def)
  have fil: "filter (\<lambda>x. x \<noteq> w) (view_list s) = filter (\<lambda>x. x \<noteq> w) (view_list ?s1)"
    by (simp add: view_list_def z(2) filter_remove1 remove1_idem)
  have "awm_wf s' \<and> regions_ok s' \<and> view_list s' = view_list ?s1 \<and> (\<forall>u. frame_of s' u = frame_of ?s1 u)
    \<and> (\<forall>u. u \<notin> set (view_list ?s1) \<longrightarrow> aw_views s' u = aw_views ?s1 u) \<and> aw_screen_rects s' = aw_screen_rects ?s1"
  proof (rule change_then_invalidate [OF wf ok wf1 fil _ _ _ z(4)])
    show "rect_intersects (frame_of ?s1 w) (frame_of s w)"
      using vw(3) rect_intersects_pix [of "frame_of s w" "frame_of s w"] pix_empty [of "frame_of s w"] by (simp add: frame_of_def)
    show "pix f \<inter> pix (frame_of t w) = {}"
      if "t \<in> {s, ?s1}" "rect_pos f" "\<not> rect_intersects f (frame_of s w)" for f t
      using that vw(3) rect_intersects_pix [of f "frame_of s w"] by (auto simp: frame_of_def)
  qed simp
  then show ?thesis using True z(3) vl by simp
qed

subsection \<open>Adding and removing views\<close>

text \<open>The invariant does not depend on views outside the list, on the screen rectangles or on window fields.\<close>

lemma unlisted_change:
  assumes "awm_wf s" "regions_ok s" and s': "s' = s\<lparr>aw_views := V, aw_screen_rects := a, aw_wins := W\<rparr>"
    and "\<And>u. u \<in> set (view_list s) \<Longrightarrow> V u = aw_views s u" and "at_ok a"
  shows "awm_wf s' \<and> regions_ok s' \<and> view_list s' = view_list s"
proof -
  have vl: "view_list s' = view_list s" using s' by (simp add: view_list_def)
  have same: "frame_of s' u = frame_of s u" "drawn s' u = drawn s u" if "u \<in> set (view_list s)" for u
    using assms(4) [OF that] s' by (simp_all add: frame_of_def drawn_def)
  have "tiles (drawn s' v) (seen s' us v)" if "view_list s = us @ v # ws" for us v ws
  proof -
    have "seen s' us v = seen s us v" using that same by (simp add: seen_def)
    then show ?thesis using assms(2) that same(2) by (simp add: regions_ok_def)
  qed
  then have "regions_ok s'" by (simp add: regions_ok_def vl)
  moreover have "awm_wf s'" using assms vl by (simp add: awm_wf_def views_ok_def s')
  ultimately show ?thesis using vl by blast
qed

lemma remove_if_present_dest:
  assumes "at_ok a" and "remove_if_present a v = Inr a'"
  shows "at_ok a' \<and> at_list a' = remove1 v (at_list a) \<and> at_cap a' = at_cap a"
proof (cases "v \<in> set (at_list a)")
  case True
  obtain i where i: "array_index a v = Inr (int i)" "remove_nth i (at_list a) = remove1 v (at_list a)"
    using ut.idx_present [OF assms(1) True] by blast
  then show ?thesis using assms ut.del_dest [OF assms(1), of "int i" a'] by (simp add: remove_if_present_def)
next
  case False
  then show ?thesis using assms ut.idx_absent [OF assms(1) False] by (simp add: remove_if_present_def remove1_idem)
qed

lemma index_remove_dest:
  fixes a :: "view_ref array_t"
  assumes "at_ok a" and "array_index a v = Inr i" and "0 \<le> i" and "array_remove a i = Inr a'"
  shows "at_ok a' \<and> at_list a' = remove1 v (at_list a) \<and> v \<in> set (at_list a)"
proof -
  have "v \<in> set (at_list a)" using ut.idx_absent [OF assms(1)] assms(2,3) by fastforce
  then show ?thesis using remove_if_present_dest [OF assms(1), of v a'] assms(2-4) by (simp add: remove_if_present_def)
qed

lemma queue_rect_ok:
  assumes "at_ok (aw_screen_rects s)"
  shows "\<exists>a. compositor_queue_rect_to_redraw r s = Inr (s\<lparr>aw_screen_rects := a\<rparr>) \<and> at_ok a"
proof (cases "length (at_list (aw_screen_rects s)) < at_cap (aw_screen_rects s)")
  case True
  then show ?thesis
    using ut.ins_ok [OF assms, of r] assms
    by (auto simp: compositor_queue_rect_to_redraw_def intro: exI [of _ "aw_screen_rects s"])
next
  case False
  then have "at_size (aw_screen_rects s) + 1 \<ge> at_max_size (aw_screen_rects s)" using at_ok_room [OF assms] by simp
  then show ?thesis using assms
    by (auto simp: compositor_queue_rect_to_redraw_def intro!: exI [of _ "aw_screen_rects s"])
qed

lemma queue_difference_ok:
  assumes "at_ok (aw_screen_rects s)"
  shows "\<exists>a. compositor_queue_rect_difference_to_redraw bg fg s = Inr (s\<lparr>aw_screen_rects := a\<rparr>) \<and> at_ok a"
proof -
  let ?body = "\<lambda>p s. ebind (deref p) (\<lambda>r. ebind (compositor_queue_rect_to_redraw r s) (\<lambda>s. Inr (False, s)))"
  have fold: "\<exists>a. efold_until ?body rs t = Inr (t\<lparr>aw_screen_rects := a\<rparr>) \<and> at_ok a"
    if "at_ok (aw_screen_rects t)" for rs and t :: "'a awm_sys_scheme"
    using that
  proof (induction rs arbitrary: t)
    case Nil
    then show ?case by (intro exI [of _ "aw_screen_rects t"]) simp
  next
    case (Cons r rs)
    obtain a where "compositor_queue_rect_to_redraw r t = Inr (t\<lparr>aw_screen_rects := a\<rparr>)" "at_ok a"
      using queue_rect_ok [OF Cons.prems] by blast
    then show ?case using Cons.IH [of "t\<lparr>aw_screen_rects := a\<rparr>"] by simp
  qed
  obtain out where out: "rect_diff bg fg = Inr out" "at_ok out" using rect_diff_returns by blast
  then have "compositor_queue_rect_difference_to_redraw bg fg s = efold_until ?body (rev (at_list out)) s"
    using array_foreach_down_efold [OF out(2) order_refl] at_ok_size [OF out(2)]
    by (simp add: compositor_queue_rect_difference_to_redraw_def)
  then show ?thesis using fold [OF assms] by simp
qed

text \<open>A frame that does not meet \<open>r\<close> shares no pixel with a frame inside \<open>r\<close>.\<close>

lemma miss_inside:
  assumes "rect_pos f" "rect_pos r" "\<not> rect_intersects f r" "pix g \<subseteq> pix r"
  shows "pix f \<inter> pix g = {}"
  using rect_intersects_pix [OF assms(1,2)] assms(3,4) by blast

lemma meets_outer: "rect_pos g \<Longrightarrow> rect_pos r \<Longrightarrow> pix g \<subseteq> pix r \<Longrightarrow> rect_intersects g r"
  using rect_intersects_pix [of g r] pix_empty [of g] by blast

lemma views_add_regions:
  assumes wf: "awm_wf s" and ok: "regions_ok s" and new: "aw_views s v = None" and f: "rect_pos f"
    and res: "desktop_views_add v (s\<lparr>aw_views := (aw_views s)(v \<mapsto> view_create f)\<rparr>) = Inr s'"
  shows "awm_wf s' \<and> regions_ok s' \<and> view_list s' = view_list s @ [v]"
proof -
  have fresh: "v \<notin> set (view_list s)" using wf new by (auto simp: awm_wf_def views_ok_def)
  have d: "at_ok (aw_desktop_views s)" using wf by (simp add: awm_wf_def)
  let ?s0 = "s\<lparr>aw_views := (aw_views s)(v \<mapsto> view_create f)\<rparr>"
  obtain a s1 where a: "array_insert (aw_desktop_views s) v = Inr a"
    and s1: "desktop_view_queue_composite v (?s0\<lparr>aw_desktop_views := a\<rparr>) = Inr s1"
    and inv: "ebind (load (aw_views s1) v) (\<lambda>view. windows_invalidate_drawable_regions_in_rect (vw_frame view) s1) = Inr s'"
    using res by (auto simp: desktop_views_add_def ebind_eq_Inr)
  have a': "at_ok a" "at_list a = at_list (aw_desktop_views s) @ [v]" using ut.ins_dest [OF d a] by auto
  have "queue_ok (aw_to_composite (?s0\<lparr>aw_desktop_views := a\<rparr>)) (view_list s @ [v])"
    using wf by (auto simp: awm_wf_def queue_ok_def)
  then obtain q where q: "s1 = ?s0\<lparr>aw_desktop_views := a, aw_to_composite := q\<rparr>" "queue_ok q (view_list s @ [v])"
    using queue_composite_ok [of "?s0\<lparr>aw_desktop_views := a\<rparr>" "view_list s @ [v]" v] s1 by auto
  have vl: "view_list s1 = view_list s @ [v]" using q(1) a'(2) by (simp add: view_list_def)
  have vok: "view_ok (view_create f)" using f by (simp add: view_ok_def view_create_def)
  then have "views_ok s1 (view_list s1)" using wf fresh vl q(1) by (auto simp: views_ok_def awm_wf_def)
  then have wf1: "awm_wf s1" using wf fresh vl q a' by (simp add: awm_wf_def)
  have fr: "frame_of s1 v = f" using q(1) by (simp add: frame_of_def view_create_def)
  have inv: "windows_invalidate_drawable_regions_in_rect f s1 = Inr s'" using inv q(1) by (simp add: view_create_def)
  have "awm_wf s' \<and> regions_ok s' \<and> view_list s' = view_list s1 \<and> (\<forall>u. frame_of s' u = frame_of s1 u)
    \<and> (\<forall>u. u \<notin> set (view_list s1) \<longrightarrow> aw_views s' u = aw_views s1 u) \<and> aw_screen_rects s' = aw_screen_rects s1"
  proof (rule change_then_invalidate [OF wf ok wf1 _ _ _ _ inv, of v])
    show "pix g \<inter> pix (frame_of t v) = {}"
      if "t \<in> {s, s1}" "v \<in> set (view_list t)" "rect_pos g" "\<not> rect_intersects g f" for g t
      using that miss_inside [OF that(3) f that(4)] fr fresh by auto
  qed (use vl fr f q(1) meets_outer [of f f] in auto)
  then show ?thesis using vl by simp
qed

text \<open>Removing a view: both teardowns take it out of the lists, then invalidate its frame, then free it.\<close>

lemma removal_regions:
  fixes s s1 s2 s' :: "'z awm_sys_scheme"
  assumes wf: "awm_wf s" and ok: "regions_ok s" and w: "w \<in> set (view_list s)"
    and wf1: "awm_wf s1" and vl: "view_list s1 = filter (\<lambda>x. x \<noteq> w) (view_list s)"
    and same: "aw_views s1 = aw_views s"
    and inv: "windows_invalidate_drawable_regions_in_rect (frame_of s w) s1 = Inr s2"
    and s': "s' = (view_destroy w (s2\<lparr>aw_screen_rects := a\<rparr>))\<lparr>aw_wins := W\<rparr>" "at_ok a"
  shows "awm_wf s' \<and> regions_ok s' \<and> view_list s' = filter (\<lambda>x. x \<noteq> w) (view_list s)"
proof -
  have pos: "rect_pos (frame_of s w)" using views_okD [of s "view_list s" w] wf w by (auto simp: awm_wf_def)
  have 2: "awm_wf s2 \<and> regions_ok s2 \<and> view_list s2 = view_list s1 \<and> (\<forall>u. frame_of s2 u = frame_of s1 u)
    \<and> (\<forall>u. u \<notin> set (view_list s1) \<longrightarrow> aw_views s2 u = aw_views s1 u) \<and> aw_screen_rects s2 = aw_screen_rects s1"
  proof (rule change_then_invalidate [OF wf ok wf1 _ _ _ _ inv, of w])
    show "pix g \<inter> pix (frame_of t w) = {}"
      if "t \<in> {s, s1}" "rect_pos g" "\<not> rect_intersects g (frame_of s w)" for g t
      using miss_inside [OF that(2) pos that(3), of "frame_of s w"] that(1) same by (auto simp: frame_of_def)
  qed (use vl same in auto)
  have "awm_wf s' \<and> regions_ok s' \<and> view_list s' = view_list s2"
    using 2 vl by (intro unlisted_change [where s = s2 and V = "(aw_views s2)(w := None)" and a = a and W = W]) (auto simp: s' view_destroy_def)
  then show ?thesis using 2 vl by simp
qed

lemma filter_absent: "w \<notin> set xs \<Longrightarrow> filter (\<lambda>x. x \<noteq> w) xs = xs"
  by (induction xs) auto

lemma remove1_filter: "distinct xs \<Longrightarrow> remove1 w xs = filter (\<lambda>x. x \<noteq> w) xs"
  by (induction xs) (auto simp: filter_absent)

lemma view_remove_regions:
  assumes wf: "awm_wf s" and ok: "regions_ok s" and res: "desktop_view_remove_and_teardown v s = Inr s'"
  shows "awm_wf s' \<and> regions_ok s' \<and> view_list s' = filter (\<lambda>x. x \<noteq> v) (view_list s)"
proof -
  obtain i d c view s2 where i: "array_index (aw_desktop_views s) v = Inr i" "0 \<le> i" "array_remove (aw_desktop_views s) i = Inr d"
    and c: "remove_if_present (aw_to_composite s) v = Inr c"
    and view: "aw_views s v = Some view"
    and inv: "windows_invalidate_drawable_regions_in_rect (vw_frame view) (s\<lparr>aw_desktop_views := d, aw_to_composite := c\<rparr>) = Inr s2"
    and q: "ebind (compositor_queue_rect_to_redraw (vw_frame view) s2) (\<lambda>s. Inr (view_destroy v s)) = Inr s'"
    using res by (auto simp: desktop_view_remove_and_teardown_def ebind_eq_Inr Let_def not_less split: if_splits)
  note arrays = wf [unfolded awm_wf_def]
  have d: "at_ok d" "at_list d = remove1 v (at_list (aw_desktop_views s))" "v \<in> set (at_list (aw_desktop_views s))"
    using index_remove_dest [OF _ i] arrays by auto
  have c': "at_ok c" "at_list c = remove1 v (at_list (aw_to_composite s))"
    using remove_if_present_dest [OF _ c] arrays by (auto simp: queue_ok_def)
  let ?s1 = "s\<lparr>aw_desktop_views := d, aw_to_composite := c\<rparr>"
  have vl: "view_list ?s1 = filter (\<lambda>x. x \<noteq> v) (view_list s)"
  proof -
    have "v \<notin> set (at_list (aw_without_z s))" "v \<notin> set (at_list (aw_with_z s))"
      using arrays d(3) by (auto simp: view_list_def)
    then show ?thesis using arrays d(2) by (simp add: view_list_def remove1_filter filter_absent)
  qed
  have wf1: "awm_wf ?s1"
    using arrays d(1) c' vl by (auto simp: awm_wf_def views_ok_def queue_ok_def)
  have fr: "vw_frame view = frame_of s v" using view by (simp add: frame_of_def)
  have v: "v \<in> set (view_list s)" using d(3) by (simp add: view_list_def)
  obtain V q' where "s2 = ?s1\<lparr>aw_views := V, aw_to_composite := q'\<rparr>"
    using invalidation_ok [OF wf1, of "vw_frame view"] inv by (auto simp: recomputed_def)
  then have sc: "at_ok (aw_screen_rects s2)" using arrays by simp
  obtain a where a: "compositor_queue_rect_to_redraw (vw_frame view) s2 = Inr (s2\<lparr>aw_screen_rects := a\<rparr>)" "at_ok a"
    using queue_rect_ok [OF sc] by blast
  have "s' = (view_destroy v (s2\<lparr>aw_screen_rects := a\<rparr>))\<lparr>aw_wins := aw_wins s2\<rparr>"
    using q a(1) by (auto simp: view_destroy_def)
  then show ?thesis using removal_regions [OF wf ok v wf1 vl _ inv [unfolded fr] _ a(2)] by simp
qed

lemma window_destroy_regions:
  assumes wf: "awm_wf s" and ok: "regions_ok s" and res: "window_destroy (Some w) s = Inr s'"
  shows "awm_wf s' \<and> regions_ok s' \<and> view_list s' = filter (\<lambda>x. x \<noteq> w) (view_list s)"
proof -
  obtain i ws z nz f c view s2 where i: "array_index (aw_windows s) w = Inr i" "0 \<le> i" "array_remove (aw_windows s) i = Inr ws"
    and rm: "remove_if_present (aw_with_z s) w = Inr z" "remove_if_present (aw_without_z s) w = Inr nz"
      "remove_if_present (aw_to_fetch s) w = Inr f" "remove_if_present (aw_to_composite s) w = Inr c"
    and view: "aw_views s w = Some view"
    and inv: "windows_invalidate_drawable_regions_in_rect (vw_frame view)
      (s\<lparr>aw_windows := ws, aw_with_z := z, aw_without_z := nz, aw_to_fetch := f, aw_to_composite := c\<rparr>) = Inr s2"
    and q: "ebind (compositor_queue_rect_to_redraw (vw_frame view) s2)
      (\<lambda>s. Inr ((view_destroy w s)\<lparr>aw_wins := (aw_wins s)(w := None)\<rparr>)) = Inr s'"
    using res by (auto simp: window_destroy_def ebind_eq_Inr Let_def not_less split: if_splits)
  note arrays = wf [unfolded awm_wf_def]
  have ws: "at_ok ws" "at_list ws = remove1 w (at_list (aw_windows s))" "w \<in> set (at_list (aw_windows s))"
    using index_remove_dest [OF _ i] arrays by auto
  have rm': "at_ok z" "at_list z = remove1 w (at_list (aw_with_z s))" "at_ok nz" "at_list nz = remove1 w (at_list (aw_without_z s))"
    "at_ok f" "at_ok c" "at_list c = remove1 w (at_list (aw_to_composite s))"
    using remove_if_present_dest [OF _ rm(1)] remove_if_present_dest [OF _ rm(2)] remove_if_present_dest [OF _ rm(3)]
      remove_if_present_dest [OF _ rm(4)] arrays by (auto simp: queue_ok_def)
  let ?s1 = "s\<lparr>aw_windows := ws, aw_with_z := z, aw_without_z := nz, aw_to_fetch := f, aw_to_composite := c\<rparr>"
  have w: "w \<in> set (view_list s)" "w \<notin> set (at_list (aw_desktop_views s))" using arrays ws(3) by (auto simp: view_list_def)
  then have vl: "view_list ?s1 = filter (\<lambda>x. x \<noteq> w) (view_list s)"
    using arrays rm'(2,4) by (simp add: view_list_def remove1_filter filter_absent)
  have "distinct (at_list (aw_with_z s))" "distinct (at_list (aw_without_z s))" using arrays by (auto simp: view_list_def)
  then have wf1: "awm_wf ?s1"
    using arrays ws(1,2) rm' vl by (auto simp: awm_wf_def views_ok_def queue_ok_def)
  have fr: "vw_frame view = frame_of s w" using view by (simp add: frame_of_def)
  obtain V q' where "s2 = ?s1\<lparr>aw_views := V, aw_to_composite := q'\<rparr>"
    using invalidation_ok [OF wf1, of "vw_frame view"] inv by (auto simp: recomputed_def)
  then have sc: "at_ok (aw_screen_rects s2)" using arrays by simp
  obtain a where a: "compositor_queue_rect_to_redraw (vw_frame view) s2 = Inr (s2\<lparr>aw_screen_rects := a\<rparr>)" "at_ok a"
    using queue_rect_ok [OF sc] by blast
  have "s' = (view_destroy w (s2\<lparr>aw_screen_rects := a\<rparr>))\<lparr>aw_wins := (aw_wins s2)(w := None)\<rparr>"
    using q a(1) by simp
  then show ?thesis using removal_regions [OF wf ok w(1) wf1 vl _ inv [unfolded fr] _ a(2)] by simp
qed

subsection \<open>Moving and resizing a window\<close>

text \<open>
  A view gets a new frame, the difference is queued for redrawing, and the regions are recomputed within the
  union of both frames.
\<close>

lemma reframe_regions:
  assumes wf: "awm_wf s" and ok: "regions_ok s" and w: "w \<in> set (view_list s)" and vw: "aw_views s w = Some vw"
    and range: "in_range (frame_of s w)" "in_range f" and fpos: "rect_pos f"
    and s0: "s0 = s\<lparr>aw_views := (aw_views s)(w \<mapsto> vw\<lparr>vw_frame := f\<rparr>), aw_wins := W, aw_screen_rects := b\<rparr>" and b: "at_ok b"
    and q: "compositor_queue_rect_difference_to_redraw (frame_of s w) f s0 = Inr s1"
    and inv: "windows_invalidate_drawable_regions_in_rect (rect_union (frame_of s w) f) s1 = Inr s'"
  shows "awm_wf s' \<and> regions_ok s' \<and> view_list s' = view_list s \<and> frame_of s' w = f"
proof -
  let ?r = "rect_union (frame_of s w) f"
  have vok: "view_ok vw" "rect_pos (frame_of s w)" using views_okD [of s "view_list s" w] wf w vw by (auto simp: awm_wf_def)
  have upos: "rect_pos ?r" by (rule rect_union_pos [OF range vok(2) fpos])
  have sub: "pix (frame_of s w) \<subseteq> pix ?r" "pix f \<subseteq> pix ?r"
    using rect_union_smallest [OF range vok(2) fpos] by (simp_all add: rect_contains_rect_pix vok(2) fpos)
  have sc: "at_ok (aw_screen_rects s0)" using b by (simp add: s0)
  obtain a where a: "s1 = s0\<lparr>aw_screen_rects := a\<rparr>" "at_ok a"
    using queue_difference_ok [OF sc] q by (metis sum.inject(2))
  have vl: "view_list s1 = view_list s" by (simp add: view_list_def a(1) s0)
  have fr: "frame_of s1 w = f" by (simp add: frame_of_def a(1) s0)
  have "view_ok (vw\<lparr>vw_frame := f\<rparr>)" using vok(1) fpos by (simp add: view_ok_def)
  then have "views_ok s1 (view_list s)" using wf by (simp add: awm_wf_def views_ok_def a(1) s0)
  then have wf1: "awm_wf s1" using wf a(2) vl by (simp add: awm_wf_def a(1) s0)
  have "awm_wf s' \<and> regions_ok s' \<and> view_list s' = view_list s1 \<and> (\<forall>u. frame_of s' u = frame_of s1 u)
    \<and> (\<forall>u. u \<notin> set (view_list s1) \<longrightarrow> aw_views s' u = aw_views s1 u) \<and> aw_screen_rects s' = aw_screen_rects s1"
  proof (rule change_then_invalidate [OF wf ok wf1 _ _ _ _ inv, of w])
    show "pix g \<inter> pix (frame_of t w) = {}" if "t \<in> {s, s1}" "rect_pos g" "\<not> rect_intersects g ?r" for g t
    proof -
      have "pix (frame_of t w) \<subseteq> pix ?r" using sub that(1) fr by auto
      then show ?thesis by (rule miss_inside [OF that(2) upos that(3)])
    qed
    show "rect_intersects (frame_of s1 w) ?r" unfolding fr by (rule meets_outer [OF fpos upos sub(2)])
  qed (simp_all add: vl, simp add: a(1) s0)
  then show ?thesis using vl fr by simp
qed

text \<open>The frame \<^verbatim>\<open>_adjust_window_position\<close> gives a window.\<close>

definition moved_frame :: "'z awm_sys_scheme \<Rightarrow> view_ref \<Rightarrow> int \<Rightarrow> int \<Rightarrow> rect" where
  "moved_frame s w dx dy =
     rect_bind_to_screen_frame (aw_resolution s) (add_origin_y (add_origin_x (frame_of s w) dx) dy)"

lemma bind_size: "r_size (rect_bind_to_screen_frame res r) = r_size r"
  by (simp add: rect_bind_to_screen_frame_def rect_make_def Let_def)

lemma moved_frame_pos: "rect_pos (frame_of s w) \<Longrightarrow> rect_pos (moved_frame s w dx dy)"
  by (simp add: rect_pos_size moved_frame_def bind_size add_origin_x_def add_origin_y_def)

lemma adjust_regions:
  assumes wf: "awm_wf s" and ok: "regions_ok s" and w: "w \<in> set (view_list s)"
    and range: "in_range (frame_of s w)" "in_range (moved_frame s w dx dy)"
    and res: "adjust_window_position w dx dy s = Inr s'"
  shows "awm_wf s' \<and> regions_ok s' \<and> view_list s' = view_list s \<and> frame_of s' w = moved_frame s w dx dy"
proof -
  obtain vw where vw: "aw_views s w = Some vw" "vw_frame vw = frame_of s w" "rect_pos (frame_of s w)"
    using views_okD [of s "view_list s" w] wf w by (auto simp: awm_wf_def)
  let ?s0 = "s\<lparr>aw_views := (aw_views s)(w \<mapsto> vw\<lparr>vw_frame := moved_frame s w dx dy\<rparr>)\<rparr>"
  obtain s1 where "compositor_queue_rect_difference_to_redraw (frame_of s w) (moved_frame s w dx dy) ?s0 = Inr s1"
      "windows_invalidate_drawable_regions_in_rect (rect_union (frame_of s w) (moved_frame s w dx dy)) s1 = Inr s'"
    using res vw(1,2) unfolding adjust_window_position_def moved_frame_def Let_def by (auto simp: ebind_eq_Inr)
  moreover have "?s0 = ?s0\<lparr>aw_wins := aw_wins s, aw_screen_rects := aw_screen_rects s\<rparr>" by simp
  moreover have "at_ok (aw_screen_rects s)" using wf by (simp add: awm_wf_def)
  ultimately show ?thesis by (intro reframe_regions [OF wf ok w vw(1) range moved_frame_pos [OF vw(3)]])
qed

text \<open>The frame \<^verbatim>\<open>_window_resize\<close> gives a window.\<close>

definition resized_frame :: "'z awm_sys_scheme \<Rightarrow> view_ref \<Rightarrow> size2d \<Rightarrow> rect" where
  "resized_frame s w new_size = rect_make (r_origin (frame_of s w)) new_size"

lemma resized_msgs_frame:
  "view_list (s\<lparr>aw_resized_msgs := ms\<rparr>) = view_list s" "frame_of (s\<lparr>aw_resized_msgs := ms\<rparr>) = frame_of s"
  "awm_wf (s\<lparr>aw_resized_msgs := ms\<rparr>) = awm_wf s" "regions_ok (s\<lparr>aw_resized_msgs := ms\<rparr>) = regions_ok s"
  by (simp_all add: awm_wf_def views_ok_def regions_ok_def view_list_def frame_of_def drawn_def seen_def fun_eq_iff)

lemma title_bar_queues:
  assumes "at_ok (aw_screen_rects s)" and "(if title then window_redraw_title_bar w s else Inr s) = Inr s'"
  shows "\<exists>a. s' = s\<lparr>aw_screen_rects := a\<rparr> \<and> at_ok a"
proof -
  consider "s' = s" | r where "compositor_queue_rect_to_redraw r s = Inr s'"
  proof (cases title)
    case True
    then have "window_redraw_title_bar w s = Inr s'" using assms(2) by simp
    then show ?thesis using that by (auto simp: window_redraw_title_bar_def Let_def ebind_eq_Inr split: if_splits)
  qed (use assms(2) that in simp)
  then show ?thesis
  proof cases
    case 1
    then show ?thesis using assms(1) by (intro exI [of _ "aw_screen_rects s"]) simp
  next
    case 2
    then show ?thesis using queue_rect_ok [OF assms(1), of r] by auto
  qed
qed

lemma resize_regions:
  assumes wf: "awm_wf s" and ok: "regions_ok s" and w: "w \<in> set (view_list s)"
    and range: "in_range (frame_of s w)" "in_range (resized_frame s w n)" and pos: "rect_pos (resized_frame s w n)"
    and res: "window_resize w n inform s = Inr s'"
  shows "awm_wf s' \<and> regions_ok s' \<and> view_list s' = view_list s \<and> frame_of s' w = resized_frame s w n"
proof -
  obtain vw where vw: "aw_views s w = Some vw" "frame_of s w = vw_frame vw"
    using views_okD [of s "view_list s" w] wf w by (auto simp: awm_wf_def)
  let ?s = "\<lambda>W. s\<lparr>aw_views := (aw_views s)(w \<mapsto> vw\<lparr>vw_frame := resized_frame s w n\<rparr>), aw_wins := W\<rparr>"
  obtain W s0 s1 s2 title b m where s0: "(if title then window_redraw_title_bar w (?s W) else Inr (?s W)) = Inr s0"
      "compositor_queue_rect_difference_to_redraw (frame_of s w) (resized_frame s w n) s0 = Inr s1"
      "windows_invalidate_drawable_regions_in_rect (rect_union (frame_of s w) (resized_frame s w n)) s1 = Inr s2"
    and s': "s' = (if b then s2\<lparr>aw_resized_msgs := aw_resized_msgs s2 @ [m]\<rparr> else s2)"
    using res vw(1) unfolding window_resize_def resized_frame_def Let_def vw(2) by (auto simp: ebind_eq_Inr simp del: if_split)
  have sc: "at_ok (aw_screen_rects s)" using wf by (simp add: awm_wf_def)
  then obtain a where a: "s0 = (?s W)\<lparr>aw_screen_rects := a\<rparr>" "at_ok a"
    using title_bar_queues [OF _ s0(1)] by auto
  have "awm_wf s2 \<and> regions_ok s2 \<and> view_list s2 = view_list s \<and> frame_of s2 w = resized_frame s w n"
    by (rule reframe_regions [OF wf ok w vw(1) range pos a s0(2,3)])
  then show ?thesis by (simp add: s' resized_msgs_frame)
qed

subsection \<open>Which view a pixel belongs to\<close>

text \<open>
  The operations that change the arrangement of views, one after the other in any order, on frames that are
  not empty and lie within the range of coordinates. Opening a window is not among them.
\<close>

inductive awm_step :: "'z awm_sys_scheme \<Rightarrow> 'z awm_sys_scheme \<Rightarrow> bool" where
  raise: "window_move_to_top below w s = Inr (p, s') \<Longrightarrow> awm_step s s'"
| move: "w \<in> set (view_list s) \<Longrightarrow> in_range (frame_of s w) \<Longrightarrow> in_range (moved_frame s w dx dy) \<Longrightarrow>
    adjust_window_position w dx dy s = Inr s' \<Longrightarrow> awm_step s s'"
| resize: "w \<in> set (view_list s) \<Longrightarrow> in_range (frame_of s w) \<Longrightarrow> in_range (resized_frame s w n) \<Longrightarrow>
    rect_pos (resized_frame s w n) \<Longrightarrow> window_resize w n inform s = Inr s' \<Longrightarrow> awm_step s s'"
| add: "aw_views s v = None \<Longrightarrow> rect_pos f \<Longrightarrow>
    desktop_views_add v (s\<lparr>aw_views := (aw_views s)(v \<mapsto> view_create f)\<rparr>) = Inr s' \<Longrightarrow> awm_step s s'"
| remove: "desktop_view_remove_and_teardown v s = Inr s' \<Longrightarrow> awm_step s s'"
| destroy: "window_destroy (Some w) s = Inr s' \<Longrightarrow> awm_step s s'"

lemma awm_steps_keep_regions:
  assumes "awm_step\<^sup>*\<^sup>* s s'" and "awm_wf s" and "regions_ok s"
  shows "awm_wf s' \<and> regions_ok s'"
  using assms
proof (induction rule: rtranclp_induct)
  case (step t t')
  then show ?case
    using move_to_top_regions [of t] adjust_regions [of t] resize_regions [of t] views_add_regions [of t] view_remove_regions [of t]
      window_destroy_regions [of t]
    by (elim awm_step.cases) blast+
qed blast

text \<open>The frontmost view whose frame contains the pixel, as a reference.\<close>

definition frontmost :: "'z awm_sys_scheme \<Rightarrow> int \<times> int \<Rightarrow> view_ref option" where
  "frontmost s p = find (\<lambda>v. p \<in> pix (frame_of s v)) (view_list s)"

lemma find_member: "find P xs = Some x \<Longrightarrow> x \<in> set xs \<and> P x"
  by (induction xs) (auto split: if_splits)

lemma find_split: "distinct (us @ v # ws) \<Longrightarrow> find P (us @ v # ws) = Some v \<longleftrightarrow> P v \<and> (\<forall>u\<in>set us. \<not> P u)"
  by (induction us) (auto dest: find_member)

lemma drawn_iff_frontmost:
  assumes "awm_wf s" and "regions_ok s"
  shows "v \<in> set (view_list s) \<and> p \<in> \<Union> (pix ` set (drawn s v)) \<longleftrightarrow> frontmost s p = Some v"
proof -
  have d: "distinct (view_list s)" using assms(1) by (simp add: awm_wf_def)
  have "p \<in> \<Union> (pix ` set (drawn s v)) \<longleftrightarrow> p \<in> pix (frame_of s v) \<and> (\<forall>u\<in>set us. p \<notin> pix (frame_of s u))"
    if "view_list s = us @ v # ws" for us ws
  proof -
    have "\<Union> (pix ` set (drawn s v)) = seen s us v" using assms(2) that by (simp add: regions_ok_def tiles_def)
    then show ?thesis by (auto simp: seen_def)
  qed
  moreover have "frontmost s p = Some v \<longleftrightarrow> p \<in> pix (frame_of s v) \<and> (\<forall>u\<in>set us. p \<notin> pix (frame_of s u))"
    if "view_list s = us @ v # ws" for us ws
    unfolding frontmost_def that using d that by (intro find_split) simp
  moreover have "v \<in> set (view_list s)" if "frontmost s p = Some v"
    using find_member [of _ "view_list s" v] that by (simp add: frontmost_def)
  ultimately show ?thesis by (metis split_list in_set_conv_decomp)
qed

text \<open>Searching the windows for a point.\<close>

lemma find_window_find:
  assumes "at_ok a" and "\<And>w. w \<in> set (at_list a) \<Longrightarrow> cond w = Inr (P w)"
  shows "find_window a cond (int k) = Inr (find P (drop k (at_list a)))"
proof (induction "length (at_list a) - k" arbitrary: k)
  case 0
  then show ?case using at_ok_size [OF assms(1)] by (simp add: find_window.simps)
next
  case (Suc n)
  then have k: "k < length (at_list a)" by simp
  have "find_window a cond (int k + 1) = Inr (find P (drop (Suc k) (at_list a)))"
    using Suc.hyps(1) [of "Suc k"] Suc.hyps(2) by (simp add: add.commute)
  then show ?case
    using k at_ok_size [OF assms(1)] array_lookup_as [OF assms(1) k] assms(2)
    by (simp add: find_window.simps [of a cond "int k"] Cons_nth_drop_Suc [symmetric])
qed

lemma window_containing_point_find:
  assumes wf: "awm_wf s" and infos: "\<And>w. w \<in> set (at_list (aw_windows s)) \<Longrightarrow> \<exists>i. aw_wins s w = Some i"
  shows "window_containing_point p z s =
    Inr (find (\<lambda>w. \<not> (z \<and> uw_remote_process_died (the (aw_wins s w))) \<and> (pt_x p, pt_y p) \<in> pix (frame_of s w))
      (at_list (aw_without_z s) @ at_list (aw_with_z s)))"
proof -
  let ?P = "\<lambda>w. \<not> (z \<and> uw_remote_process_died (the (aw_wins s w))) \<and> (pt_x p, pt_y p) \<in> pix (frame_of s w)"
  have hit: "window_hit p z s w = Inr (?P w)" if w: "w \<in> set (at_list (aw_windows s))" for w
  proof -
    have "w \<in> set (view_list s)" using wf w by (auto simp: awm_wf_def view_list_def)
    then obtain vw where "aw_views s w = Some vw" "vw_frame vw = frame_of s w"
      using views_okD [of s "view_list s" w] wf by (auto simp: awm_wf_def)
    then show ?thesis using infos [OF w] by (auto simp: window_hit_def rect_contains_point_pix)
  qed
  have ok: "at_ok (aw_without_z s)" "at_ok (aw_with_z s)" using wf by (auto simp: awm_wf_def)
  have "find_window (aw_without_z s) (window_hit p z s) 0 = Inr (find ?P (at_list (aw_without_z s)))"
    "find_window (aw_with_z s) (window_hit p z s) 0 = Inr (find ?P (at_list (aw_with_z s)))"
    using find_window_find [OF ok(1), of "window_hit p z s" ?P 0] find_window_find [OF ok(2), of "window_hit p z s" ?P 0]
      hit wf by (auto simp: awm_wf_def)
  moreover have "find ?P (xs @ ys) = (case find ?P xs of None \<Rightarrow> find ?P ys | Some x \<Rightarrow> Some x)" for xs ys
    by (induction xs) auto
  ultimately show ?thesis by (auto simp: window_containing_point_def split: option.splits)
qed

subsection \<open>Properties\<close>

text \<open>
  C32. Recomputing the drawable regions in a rectangle: every view whose frame meets the rectangle gets a
  list of non-overlapping rectangles that tile exactly the part of its frame no view in front covers;
  every other view keeps its list. The recomputation returns if the queue has room for all views and
  at most three frames in front overlap each frame.
\<close>

theorem invalidation_recomputes_regions:
  assumes "awm_wf s"
  shows "(\<forall>s'. windows_invalidate_drawable_regions_in_rect r s = Inr s' \<longrightarrow>
      view_list s' = view_list s
      \<and> (\<forall>us v ws. view_list s = us @ v # ws \<longrightarrow>
          (if rect_intersects (frame_of s v) r then tiles (drawn s' v) (seen s us v) else drawn s' v = drawn s v)))
    \<and> (roomy s \<longrightarrow> (\<exists>s'. windows_invalidate_drawable_regions_in_rect r s = Inr s'))"
proof -
  have "view_list s' = view_list s \<and> (\<forall>us v ws. view_list s = us @ v # ws \<longrightarrow>
      (if rect_intersects (frame_of s v) r then tiles (drawn s' v) (seen s us v) else drawn s' v = drawn s v))"
    if rc: "recomputed (view_list s) r (length (view_list s)) s s'" for s'
    using recomputed_wf [OF assms rc] recomputed_hit [OF rc] rc
    by (auto simp: drawn_def recomputed_def split: if_split) (metis option.sel)+
  then show ?thesis using invalidation_ok [OF assms] by blast
qed

text \<open>
  C31. However windows are raised, dragged, resized and closed and desktop views added and removed, each pixel is
  drawn by exactly one view, the frontmost one whose frame contains it, and by one of its rectangles only.
  Frames stay nonempty and within the range of coordinates, so opening a window, which starts with an empty frame,
  is not covered (see \<open>empty_occluder_hides_pixels\<close>), nor are the frames of animations.
\<close>

theorem each_pixel_drawn_by_frontmost_view:
  assumes "awm_wf s" and "regions_ok s" and "awm_step\<^sup>*\<^sup>* s s'"
  shows "(v \<in> set (view_list s') \<and> p \<in> \<Union> (pix ` set (drawn s' v)) \<longleftrightarrow> frontmost s' p = Some v)
    \<and> (v \<in> set (view_list s') \<longrightarrow> sorted_wrt (\<lambda>r q. pix r \<inter> pix q = {}) (drawn s' v))"
proof -
  have ok: "awm_wf s'" "regions_ok s'" using awm_steps_keep_regions [OF assms(3,1,2)] by auto
  moreover have "sorted_wrt (\<lambda>r q. pix r \<inter> pix q = {}) (drawn s' v)" if "v \<in> set (view_list s')"
    using split_list [OF that] ok(2) by (auto simp: regions_ok_def tiles_def)
  ultimately show ?thesis using drawn_iff_frontmost by blast
qed

text \<open>
  C33. A click goes to the window one sees: if a window draws the pixel under the mouse, then the search for
  a window containing that point returns this window, unless dead windows are ignored and it is dead.
\<close>

theorem click_goes_to_visible_window:
  assumes "awm_wf s" and "regions_ok s"
    and "\<forall>w\<in>set (at_list (aw_windows s)). \<exists>i. aw_wins s w = Some i"
    and "w \<in> set (at_list (aw_windows s))" and "(pt_x p, pt_y p) \<in> \<Union> (pix ` set (drawn s w))"
    and "z \<longrightarrow> \<not> uw_remote_process_died (the (aw_wins s w))"
  shows "window_containing_point p z s = Inr (Some w)"
proof -
  let ?ws = "at_list (aw_without_z s) @ at_list (aw_with_z s)"
  have w: "w \<in> set ?ws" using assms(1,4) by (auto simp: awm_wf_def)
  then obtain us vs where ws: "?ws = us @ w # vs" by (meson split_list)
  then have vl: "view_list s = us @ w # vs @ at_list (aw_desktop_views s)" by (simp add: view_list_def)
  have d: "distinct (view_list s)" using assms(1) by (simp add: awm_wf_def)
  have "frontmost s (pt_x p, pt_y p) = Some w"
    using drawn_iff_frontmost [OF assms(1,2), of w "(pt_x p, pt_y p)"] assms(5) vl by simp
  then have "(pt_x p, pt_y p) \<in> pix (frame_of s w)" "\<forall>u\<in>set us. (pt_x p, pt_y p) \<notin> pix (frame_of s u)"
    using find_split [of us w "vs @ at_list (aw_desktop_views s)"] d vl by (simp_all add: frontmost_def)
  then have "find (\<lambda>w. \<not> (z \<and> uw_remote_process_died (the (aw_wins s w))) \<and> (pt_x p, pt_y p) \<in> pix (frame_of s w))
      (us @ w # vs) = Some w"
    using d vl assms(6) by (subst find_split) auto
  then show ?thesis using window_containing_point_find [OF assms(1)] assms(3) ws by auto
qed

text \<open>A desktop with one window, for the witnesses.\<close>

definition demo_refs :: "view_ref array_t" where
  "demo_refs = \<lparr>at_array = [Some 5, None, None], at_size = 1, at_max_size = 3\<rparr>"

definition demo :: awm_sys where
  "demo = (awm_start (size_make 100 100))\<lparr>aw_views := [5 \<mapsto> view_create (Rect_new 0 0 10 10)],
     aw_wins := [5 \<mapsto> \<lparr>uw_window_id = 0, uw_owner_service = ''a'', uw_content_frame = rect_zero,
       uw_remote_process_died = False, uw_has_title_bar = True\<rparr>],
     aw_windows := demo_refs, aw_with_z := demo_refs\<rparr>"

lemma demo_refs: "at_ok demo_refs" "at_list demo_refs = [5]"
  by (simp_all add: demo_refs_def at_defs slots_wf_def slots_list_def)

lemma demo_views:
  "view_list demo = [5]" "frame_of demo 5 = Rect_new 0 0 10 10" "drawn demo 5 = []" "rect_pos (Rect_new 0 0 10 10)"
  by (simp_all add: demo_def awm_start_def view_list_def frame_of_def drawn_def view_create_def demo_refs
      Rect_new_def rect_pos_def)

lemma demo_wf: "awm_wf demo"
proof -
  have "views_ok demo (view_list demo)"
    by (simp add: demo_views(1) views_ok_def) (simp add: demo_def view_ok_def view_create_def demo_views(4))
  then show ?thesis
    by (simp add: awm_wf_def demo_views(1)) (simp add: demo_def awm_start_def demo_refs queue_ok_def MAX_WINDOW_COUNT_def)
qed

lemma single_split: "[x] = us @ v # ws \<longleftrightarrow> us = [] \<and> v = x \<and> ws = []"
  by (cases us) auto

lemma demo_roomy: "roomy demo"
proof -
  have "at_cap (aw_to_composite demo) = 64" by (simp add: demo_def awm_start_def MAX_WINDOW_COUNT_def)
  then show ?thesis using demo_views by (simp add: roomy_def single_split)
qed

theorem invalidation_recomputes_regions_witness:
  "\<exists>s'. windows_invalidate_drawable_regions_in_rect (Rect_new 0 0 10 10) demo = Inr s'
     \<and> tiles (drawn s' 5) (pix (Rect_new 0 0 10 10))"
proof -
  have "rect_intersects (Rect_new 0 0 10 10) (Rect_new 0 0 10 10)" by (simp add: meets_outer demo_views(4))
  then show ?thesis
    using invalidation_recomputes_regions [OF demo_wf, of "Rect_new 0 0 10 10"] demo_roomy demo_views(1,2)
    by (auto simp: seen_def single_split)
qed

theorem each_pixel_drawn_by_frontmost_view_witness:
  "\<exists>s'. awm_step (awm_start (size_make 100 100)) s'
     \<and> (7 \<in> set (view_list s') \<and> (3, 3) \<in> \<Union> (pix ` set (drawn s' 7)) \<longleftrightarrow> frontmost s' (3, 3) = Some 7)"
proof -
  let ?s = "awm_start (size_make 100 100)"
  have wf: "awm_wf ?s" "regions_ok ?s"
    by (simp_all add: awm_start_def awm_wf_def regions_ok_def view_list_def views_ok_def queue_ok_def MAX_WINDOW_COUNT_def)
  have "is_ok (desktop_views_add 7 (?s\<lparr>aw_views := (aw_views ?s)(7 \<mapsto> view_create (Rect_new 0 0 10 10))\<rparr>))" by code_simp
  then obtain s' where "desktop_views_add 7 (?s\<lparr>aw_views := (aw_views ?s)(7 \<mapsto> view_create (Rect_new 0 0 10 10))\<rparr>) = Inr s'"
    by (auto simp: is_ok_iff)
  then have "awm_step ?s s'" using demo_views(4) by (intro awm_step.add) (simp_all add: awm_start_def)
  then show ?thesis using each_pixel_drawn_by_frontmost_view [OF wf, of s' 7 "(3, 3)"] by blast
qed

theorem click_goes_to_visible_window_witness:
  "\<exists>s'. windows_invalidate_drawable_regions_in_rect (Rect_new 0 0 10 10) demo = Inr s'
     \<and> window_containing_point (point_make 3 3) True s' = Inr (Some 5)"
proof -
  let ?r = "Rect_new 0 0 10 10"
  obtain s' where s': "windows_invalidate_drawable_regions_in_rect ?r demo = Inr s'"
    using invalidation_ok [OF demo_wf, of ?r] demo_roomy by blast
  have meet: "rect_intersects ?r ?r" by (simp add: meets_outer demo_views(4))
  have ok: "awm_wf s'" "regions_ok s'"
    using regions_restored [OF demo_wf s'] demo_views(1,2) meet by (auto simp: single_split)
  have rc: "recomputed [5] ?r (length [5 :: nat]) demo s'" using invalidation_ok [OF demo_wf, of ?r] s' demo_views(1) by auto
  have "pix ?r = \<Union> (pix ` set (drawn s' 5))"
    using recomputed_hit [of "[5]" ?r demo s' "[]" 5 "[]"] rc meet demo_views(2)
    by (auto simp: drawn_def seen_def tiles_def)
  moreover have "(3, 3) \<in> pix ?r" by (simp add: mem_pix Rect_new_def)
  moreover obtain V q where "s' = demo\<lparr>aw_views := V, aw_to_composite := q\<rparr>" using rc by (auto simp: recomputed_def)
  moreover have "at_list (aw_windows demo) = [5]" "aw_wins demo 5 = Some \<lparr>uw_window_id = 0, uw_owner_service = ''a'', uw_content_frame = rect_zero,
       uw_remote_process_died = False, uw_has_title_bar = True\<rparr>"
    by (simp_all add: demo_def demo_refs)
  ultimately show ?thesis
    using click_goes_to_visible_window [OF ok, of 5 "point_make 3 3" True] s' by (auto simp: point_make_def)
qed

end
