(* ===== verification/Adi.thy ===== *)
theory Adi
  imports Amc
begin

text \<open>
  The driver interface (\<^verbatim>\<open>kernel/util/adi/adi.c\<close>): driver processes register for an interrupt, wait for interrupts
  or messages, and acknowledge interrupts. The table of drivers extends the state of the message system.
  The spinlock of \<^verbatim>\<open>adi_event_await\<close> is a local variable and that of \<^verbatim>\<open>adi_register_driver\<close> is held over straight-line
  code only; neither can be found taken, and both are left out.

  An interrupt wakes the driver that waits for it: the CPU that takes the interrupt continues in the driver's
  task, whose wait returns that an interrupt is there. Interrupt 127 passes every check and lies behind the
  table.
\<close>

subsection \<open>State\<close>

definition MAX_IRQ :: nat where "MAX_IRQ = 127"
definition MAX_INT_VECTOR :: int where "MAX_INT_VECTOR = 128"

record adi_driver_t =
  ad_irq :: u32
  ad_pending_irq_count :: u32
  ad_name :: "string option"
  ad_task :: "task_ptr option"

record adi_sys = amc_sys +
  adi_drivers :: "adi_driver_t list"
  adi_handlers :: "u32 set"    \<comment> \<open>vectors whose callback is \<^verbatim>\<open>_adi_interrupt_handler\<close>\<close>
  adi_eois :: "u32 list"       \<comment> \<open>interrupts acknowledged to the APIC\<close>

definition adi_drivers_init :: "adi_driver_t list" where
  "adi_drivers_init =
     replicate MAX_IRQ \<lparr>ad_irq = 0, ad_pending_irq_count = 0, ad_name = None, ad_task = None\<rparr>"

definition put_driver :: "int \<Rightarrow> adi_driver_t \<Rightarrow> 'z adi_sys_scheme \<Rightarrow> 'z adi_sys_scheme res" where
  "put_driver irq d s = ebind (buf_write (adi_drivers s) irq d) (\<lambda>ds. Inr (s\<lparr>adi_drivers := ds\<rparr>))"

subsection \<open>Operations\<close>

text \<open>The first driver that has one of the given attributes; a NULL name or task or an irq of 0 is not given.\<close>

definition adi_driver_matches :: "string option \<Rightarrow> task_ptr option \<Rightarrow> u32 \<Rightarrow> adi_driver_t \<Rightarrow> bool" where
  "adi_driver_matches name task irq driver \<longleftrightarrow>
     name \<noteq> None \<and> ad_name driver \<noteq> None \<and> ad_name driver = name
     \<or> task \<noteq> None \<and> ad_task driver \<noteq> None \<and> ad_task driver = task
     \<or> irq \<noteq> 0 \<and> ad_irq driver \<noteq> 0 \<and> irq = ad_irq driver"

definition adi_driver_matching_data ::
  "string option \<Rightarrow> task_ptr option \<Rightarrow> u32 \<Rightarrow> 'z adi_sys_scheme \<Rightarrow> adi_driver_t option res" where
  "adi_driver_matching_data name task irq s =
     (if name = None \<and> task = None \<and> irq = 0 then Inl (Panic ''Must provide at least 1 attribute to match'')
      else Inr (find (adi_driver_matches name task irq) (adi_drivers s)))"

definition adi_interrupt_handler :: "nat \<Rightarrow> int \<Rightarrow> 'z adi_sys_scheme \<Rightarrow> 'z adi_sys_scheme res" where
  "adi_interrupt_handler c irq s =
     ebind (kassert (irq > 0 \<and> irq < MAX_INT_VECTOR) ''Invalid IRQ provided'') (\<lambda>_.
     ebind (buf_read (adi_drivers s) irq) (\<lambda>driver.
     case ad_task driver of
       None \<Rightarrow> Inl (Panic ''IRQ does not have a corresponding driver'')
     | Some task \<Rightarrow>
         ebind (put_driver irq (driver\<lparr>ad_pending_irq_count := ad_pending_irq_count driver + 1\<rparr>) s) (\<lambda>s.
         ebind (tasking_unblock_task_with_reason c task IRQ_WAIT s) (mlfq_goto_task c task))))"

definition adi_register_driver :: "nat \<Rightarrow> string \<Rightarrow> u32 \<Rightarrow> 'z adi_sys_scheme \<Rightarrow> 'z adi_sys_scheme res" where
  "adi_register_driver c name irq s =
     (if \<not> (irq > 0 \<and> uint irq < MAX_INT_VECTOR) then Inl (TaskAssert ''Invalid IRQ provided'')
      else ebind (buf_read (adi_drivers s) (uint irq)) (\<lambda>driver.
           if ad_task driver \<noteq> None then Inl (TaskAssert ''IRQ already mapped to a driver task'')
           else ebind (tasking_get_current_task c s) (\<lambda>current_task.
                ebind (put_driver (uint irq)
                  (driver\<lparr>ad_task := current_task, ad_name := Some name, ad_pending_irq_count := 0\<rparr>) s) (\<lambda>s.
                Inr (s\<lparr>adi_handlers := insert irq (adi_handlers s)\<rparr>)))))"

text \<open>
  Waiting, up to where it returns (whether an interrupt is there) or blocks (\<open>None\<close>, the state being that
  of the task switched to), and what it does when the task runs again.
\<close>

definition adi_event_await :: "nat \<Rightarrow> u32 \<Rightarrow> 'z adi_sys_scheme \<Rightarrow> (bool option \<times> 'z adi_sys_scheme) res" where
  "adi_event_await c irq s =
     ebind (kassert (irq > 0 \<and> uint irq < MAX_INT_VECTOR) ''Invalid IRQ provided'') (\<lambda>_.
     ebind (buf_read (adi_drivers s) (uint irq)) (\<lambda>driver.
     ebind (tasking_get_current_task c s) (\<lambda>current.
     ebind (kassert (ad_task driver = current) ''Current task does not match driver layout'') (\<lambda>_.
     if ad_pending_irq_count driver \<noteq> 0 then Inr (Some True, s)
     else ebind (ebind (amc_service_of_active_task c s) deref) (\<lambda>p.
          if amc_service_has_message p s then Inr (Some False, s)
          else ebind (deref (ad_task driver)) (\<lambda>task.
               ebind (tasking_block_task c task (IRQ_WAIT OR AMC_AWAIT_MESSAGE) s) (\<lambda>s. Inr (None, s))))))))"

definition adi_event_await_resume :: "nat \<Rightarrow> u32 \<Rightarrow> 'z adi_sys_scheme \<Rightarrow> (bool \<times> 'z adi_sys_scheme) res" where
  "adi_event_await_resume c irq s =
     ebind (buf_read (adi_drivers s) (uint irq)) (\<lambda>driver.
     ebind (ebind (deref (ad_task driver)) (load (sys_tasks s))) (\<lambda>tcb.
     ebind (ebind (tasking_get_current_task c s) deref) (\<lambda>current.
     ebind (upd_task current (t_unblock_reason_update (\<lambda>_. 0)) s) (\<lambda>s.
     ebind (kassert (t_unblock_reason tcb = IRQ_WAIT \<or> t_unblock_reason tcb = AMC_AWAIT_MESSAGE)
       ''ADI driver awoke for unknown reason'') (\<lambda>_.
     Inr (t_unblock_reason tcb = IRQ_WAIT, s))))))"

definition adi_send_eoi :: "u32 \<Rightarrow> 'z adi_sys_scheme \<Rightarrow> 'z adi_sys_scheme res" where
  "adi_send_eoi irq s =
     ebind (buf_read (adi_drivers s) (uint irq)) (\<lambda>driver.
     ebind (kassert (ad_pending_irq_count driver > 0) ''adi_send_eoi without any interrupt to ack'') (\<lambda>_.
     ebind (put_driver (uint irq) (driver\<lparr>ad_pending_irq_count := ad_pending_irq_count driver - 1\<rparr>) s) (\<lambda>s.
     Inr (s\<lparr>adi_eois := adi_eois s @ [irq]\<rparr>))))"

definition adi_services_interrupt :: "u32 \<Rightarrow> 'z adi_sys_scheme \<Rightarrow> bool res" where
  "adi_services_interrupt irq s =
     ebind (kassert (irq > 0 \<and> uint irq < MAX_INT_VECTOR) ''Invalid IRQ provided'') (\<lambda>_.
     ebind (buf_read (adi_drivers s) (uint irq)) (\<lambda>driver. Inr (ad_task driver \<noteq> None)))"

subsection \<open>Switching to the driver\<close>

lemma adi_drivers_tasks [simp]: "adi_drivers (s\<lparr>sys_tasks := h\<rparr>) = adi_drivers s"
  by (cases s) simp

lemma adi_drivers_more:
  "tasking_sys.more s' = tasking_sys.more s \<Longrightarrow> adi_drivers s' = adi_drivers (s :: 'z adi_sys_scheme)"
  by (cases s; cases s') simp

text \<open>A switch changes registers, time slices and executing flags, and nothing else of any task.\<close>

definition tasks_kept :: "'z tasking_sys_scheme \<Rightarrow> 'z tasking_sys_scheme \<Rightarrow> bool" where
  "tasks_kept s s' \<longleftrightarrow> ts_next_pid s' = ts_next_pid s \<and> ts_multitasking_ready s' = ts_multitasking_ready s
     \<and> (\<forall>u. map_option (\<lambda>t. (t_unblock_reason t, t_status t, t_id t)) (sys_tasks s' u)
          = map_option (\<lambda>t. (t_unblock_reason t, t_status t, t_id t)) (sys_tasks s u))"

lemma tasks_kept_trans: "tasks_kept s s' \<Longrightarrow> tasks_kept s' s'' \<Longrightarrow> tasks_kept s s''"
  by (simp add: tasks_kept_def)

lemma tasks_kept_upd_cpu: "tasks_kept s (upd_cpu c f s)"
  by (simp add: tasks_kept_def)

lemma tasks_kept_upd_task:
  assumes "upd_task p f s = Inr s'"
    and "\<And>t. t_unblock_reason (f t) = t_unblock_reason t \<and> t_status (f t) = t_status t \<and> t_id (f t) = t_id t"
  shows "tasks_kept s s'"
  using upd_task_dest [OF assms(1)] assms(2) by (auto simp: tasks_kept_def)

lemma goto_task_keeps:
  assumes "tasking_goto_task c t q s = Inr s'"
  shows "tasks_kept s s'"
proof -
  obtain s1 tcb s2 where s1: "upd_task t (start_timeslice (sys_now s) q) s = Inr s1"
    and s2: "s2 = upd_cpu c (ci_tss_stack_update (\<lambda>_. t_kernel_stack tcb))
       (if t_vas_state tcb \<noteq> ci_loaded_vas (ts_cpu s1 c)
        then if t_cpu_id tcb = c then vas_load_state c (t_vas_state tcb) s1
             else migrate_task_to_current_cpu_and_load_vas c tcb s1
        else s1)"
    and sw: "context_switch c t s2 = Inr s'"
    using assms by (auto simp: tasking_goto_task_def ebind_eq_Inr Let_def)
  obtain old s3 s4 r where s3: "upd_task old (\<lambda>t. t\<lparr>t_machine_state := save_state (ci_regs (ts_cpu s2 c)),
        t_is_currently_executing := False\<rparr>) s2 = Inr s3"
    and s4: "upd_task t (\<lambda>t. t\<lparr>t_is_currently_executing := True, t_cpu_id := c\<rparr>) (cpu_set_current_task c t s3) = Inr s4"
    and s': "s' = upd_cpu c (\<lambda>i. i\<lparr>ci_regs := r, ci_irqs := True\<rparr>) s4"
    using sw by (auto simp: context_switch_def context_switch_restore_state_def ebind_eq_Inr)
  have "tasks_kept s s1" by (rule tasks_kept_upd_task [OF s1]) (simp add: start_timeslice_def Let_def)
  moreover have "tasks_kept s1 s2"
    by (auto simp: s2 tasks_kept_def vas_load_state_def migrate_task_to_current_cpu_and_load_vas_def)
  moreover have "tasks_kept s2 s3" by (rule tasks_kept_upd_task [OF s3]) simp
  moreover have "tasks_kept s3 (cpu_set_current_task c t s3)" by (simp add: cpu_set_current_task_def tasks_kept_upd_cpu)
  moreover have "tasks_kept (cpu_set_current_task c t s3) s4" by (rule tasks_kept_upd_task [OF s4]) simp
  moreover have "tasks_kept s4 s'" by (simp add: s' tasks_kept_upd_cpu)
  ultimately show ?thesis using tasks_kept_trans by blast
qed

lemma tasks_kept_task:
  assumes "tasks_kept s s'" "sys_tasks s u = Some t"
  shows "\<exists>t'. sys_tasks s' u = Some t' \<and> t_unblock_reason t' = t_unblock_reason t \<and> t_status t' = t_status t \<and> t_id t' = t_id t"
proof -
  have "map_option (\<lambda>t. (t_unblock_reason t, t_status t, t_id t)) (sys_tasks s' u) = Some (t_unblock_reason t, t_status t, t_id t)"
    using assms by (auto simp: tasks_kept_def)
  then show ?thesis by auto
qed

lemma pids_ok_ids:
  assumes "pids_ok s" and "ts_all_tasks s' = ts_all_tasks s" and "ts_next_pid s' = ts_next_pid s"
    and ids: "\<And>u. u \<in> set (ts_all_tasks s) \<Longrightarrow>
      t_id (the (sys_tasks s' u)) = t_id (the (sys_tasks s u)) \<and> u \<in> dom (sys_tasks s')"
  shows "pids_ok s'"
  using assms(1) ids unfolding pids_ok_def assms(2,3) by (simp add: subset_iff)

lemma pids_ok_kept:
  assumes "pids_ok s" and "ts_all_tasks s' = ts_all_tasks s" and kept: "tasks_kept s s'"
  shows "pids_ok s'"
proof -
  have "t_id (the (sys_tasks s' u)) = t_id (the (sys_tasks s u)) \<and> u \<in> dom (sys_tasks s')" if u: "u \<in> set (ts_all_tasks s)" for u
  proof -
    obtain t where "sys_tasks s u = Some t" using assms(1) u by (auto simp: pids_ok_def)
    then show ?thesis using tasks_kept_task [OF kept] by fastforce
  qed
  then show ?thesis using kept by (intro pids_ok_ids [OF assms(1,2)]) (auto simp: tasks_kept_def)
qed

lemma mlfq_goto_task_runs:
  assumes wf: "mlfq_wf s" "saved_ok (sys_tasks s)" "\<forall>i < 4. length (levels s ! i) < 128"
    and cur: "cpu_current_task c s = Some old" "old \<in> dom (sys_tasks s)" "old \<noteq> t" "t \<in> dom (sys_tasks s)"
  shows "\<exists>s'. mlfq_goto_task c t s = Inr s' \<and> cpu_current_task c s' = Some t
    \<and> tasking_sys.more s' = tasking_sys.more s \<and> ts_all_tasks s' = ts_all_tasks s \<and> tasks_kept s s'"
proof -
  obtain s1 where s1: "prepare_switch c s = Inr s1" "mlfq_wf s1" "only_queues s s1"
    using prepare_switch_same_queues [OF wf(1) refl cur(1) wf(3)] by blast
  obtain s2 q where s2: "mlfq_next_quantum_for_task t s1 = Inr (q, s2)" "only_queues s1 s2"
    using next_quantum_refines [OF s1(2), of t] by blast
  have oq: "only_queues s s2" by (rule only_queues_trans [OF s1(3) s2(2)])
  note f = only_queues_frame [OF oq] and ft = only_queues_tasking [OF oq]
  have cur2: "cpu_current_task c s2 = Some old" using cur(1) ft by (simp add: cpu_current_task_def)
  obtain s' where s': "tasking_goto_task c t (case q of None \<Rightarrow> 0 | Some quantum \<Rightarrow> quantum) s2 = Inr s'"
    using goto_task_ok [OF cur2, of t "case q of None \<Rightarrow> 0 | Some quantum \<Rightarrow> quantum"] cur(2,4) wf(2) f(1)
    by (auto simp: is_ok_iff)
  have "mlfq_goto_task c t s = Inr s'" using cur(1,3) s1(1) s2(1) s' by (simp add: mlfq_goto_task_def)
  moreover have "tasks_kept s s2" using f ft by (simp add: tasks_kept_def)
  ultimately show ?thesis
    using goto_task_effect [OF s'] tasks_kept_trans [OF _ goto_task_keeps [OF s']] ft by (auto simp: same_rest_def)
qed

subsection \<open>Interrupts\<close>

text \<open>A driver that has an interrupt pending does not block.\<close>

lemma await_returns_pending_interrupt:
  assumes "0 < irq" "uint irq < 127" "length (adi_drivers s) = 127" "tasking_get_current_task c s = Inr (Some t)"
    and "ad_task (adi_drivers s ! unat irq) = Some t" "ad_pending_irq_count (adi_drivers s ! unat irq) \<noteq> 0"
  shows "adi_event_await c irq s = Inr (Some True, s)"
  using assms by (simp add: adi_event_await_def MAX_INT_VECTOR_def buf_read_ok)

text \<open>
  The checks admit interrupt 127, which lies behind the table of 127 drivers.
\<close>

lemma irq_127_lies_behind_table:
  assumes "length (adi_drivers s) = MAX_IRQ"
  shows "adi_register_driver c name 127 s = Inl OutOfBounds" "adi_services_interrupt 127 s = Inl OutOfBounds"
    "adi_interrupt_handler c 127 s = Inl OutOfBounds"
  using assms
  by (simp_all add: adi_register_driver_def adi_services_interrupt_def adi_interrupt_handler_def buf_read_def
      MAX_INT_VECTOR_def MAX_IRQ_def)

subsection \<open>Properties\<close>

text \<open>
  C35. An interrupt for which a driver has registered wakes the driver: the handler returns, has counted the
  interrupt, continues in the driver's task on this CPU, and the driver's wait, when it goes on there, returns
  that an interrupt is to be serviced; the count is kept until the driver acknowledges it.
\<close>

theorem interrupt_wakes_driver:
  assumes wf: "mlfq_wf s" "saved_ok (sys_tasks s)" "\<forall>i < 4. length (levels s ! i) < 128"
    and pids: "pids_ok s" "ts_multitasking_ready s"
    and irq: "0 < irq" "uint irq < 127" "length (adi_drivers s) = 127"
    and drv: "ad_task (adi_drivers s ! unat irq) = Some t" "t \<in> set (ts_all_tasks s)"
    and cur: "cpu_current_task c s = Some old" "old \<in> dom (sys_tasks s)" "old \<noteq> t"
  shows "\<exists>s1 s2. adi_interrupt_handler c (uint irq) s = Inr s1 \<and> cpu_current_task c s1 = Some t
    \<and> adi_event_await_resume c irq s1 = Inr (True, s2)
    \<and> ad_pending_irq_count (adi_drivers s2 ! unat irq) = ad_pending_irq_count (adi_drivers s ! unat irq) + 1"
proof -
  let ?i = "unat irq" and ?d = "adi_drivers s ! unat irq"
  let ?d' = "?d\<lparr>ad_pending_irq_count := ad_pending_irq_count ?d + 1\<rparr>"
  have "nat (uint irq) < 127" using irq(2) by (simp only: nat_less_iff uint_ge_0)
  then have i: "?i < 127" "0 < uint irq" using irq(1) by (simp_all add: word_less_def)
  obtain tcb where tcb: "sys_tasks s t = Some tcb" using pids(1) drv(2) by (auto simp: pids_ok_def)
  define s0 where "s0 = s\<lparr>adi_drivers := (adi_drivers s)[?i := ?d'],
     sys_tasks := (sys_tasks s)(t \<mapsto> tcb\<lparr>t_unblock_reason := IRQ_WAIT, t_status := RUNNABLE\<rparr>)\<rparr>"
  have cur0: "cpu_current_task c s0 = Some old" using cur(1) by (simp add: s0_def cpu_current_task_def)
  have wf0: "mlfq_wf s0" "levels s0 = levels s"
    using mlfq_wf_queues [of s0 s] levels_queues [of s0 s] wf(1) by (simp_all add: s0_def)
  have sv0: "saved_ok (sys_tasks s0)" using wf(2) tcb by (auto simp: s0_def saved_ok_def)
  have pids0: "pids_ok s0"
  proof (rule pids_ok_ids [OF pids(1)])
    show "t_id (the (sys_tasks s0 u)) = t_id (the (sys_tasks s u)) \<and> u \<in> dom (sys_tasks s0)"
      if "u \<in> set (ts_all_tasks s)" for u
      using pids(1) that tcb by (auto simp: s0_def pids_ok_def)
  qed (simp_all add: s0_def)
  obtain s1 where s1: "mlfq_goto_task c t s0 = Inr s1" "cpu_current_task c s1 = Some t"
    "tasking_sys.more s1 = tasking_sys.more s0" "ts_all_tasks s1 = ts_all_tasks s0" "tasks_kept s0 s1"
    using mlfq_goto_task_runs [OF wf0(1) sv0 _ cur0, of t] wf(3) wf0(2) cur(2,3) by (auto simp: s0_def)
  have h: "adi_interrupt_handler c (uint irq) s = Inr s1"
    using irq i drv(1) s1(1) tcb cur(1,3)
    by (simp add: adi_interrupt_handler_def MAX_INT_VECTOR_def buf_read_ok put_driver_def buf_write_ok
        tasking_unblock_task_with_reason_def upd_task_def s0_def cpu_current_task_def)
  have drivers: "adi_drivers s1 = (adi_drivers s)[?i := ?d']" using adi_drivers_more [OF s1(3)] by (simp add: s0_def)
  obtain tcb1 where tcb1: "sys_tasks s1 t = Some tcb1" "t_unblock_reason tcb1 = IRQ_WAIT"
    using tasks_kept_task [OF s1(5), of t] by (auto simp: s0_def)
  have "tasking_get_current_task c s1 = Inr (Some t)"
    using pids_ok_kept [OF pids0 s1(4,5)] s1(2,4,5) pids(2) drv(2)
    by (intro get_current_task_is_current) (auto simp: tasks_kept_def s0_def)
  then have "adi_event_await_resume c irq s1 = Inr (True, s1\<lparr>sys_tasks := (sys_tasks s1)(t \<mapsto> tcb1\<lparr>t_unblock_reason := 0\<rparr>)\<rparr>)"
    using tcb1 drivers irq(2,3) i drv(1) by (simp add: adi_event_await_resume_def buf_read_def upd_task_ok)
  then show ?thesis using h s1(2) drivers i(1) irq(3)
    by (intro exI [of _ s1] exI [of _ "s1\<lparr>sys_tasks := (sys_tasks s1)(t \<mapsto> tcb1\<lparr>t_unblock_reason := 0\<rparr>)\<rparr>"]) simp
qed

definition demo_adi :: adi_sys where
  "demo_adi = \<lparr>sys_tasks = sys_tasks demo_smp, sys_now = 2000, queues = queues demo_smp, ts_cpu = ts_cpu demo_smp,
     ts_next_pid = 12, ts_multitasking_ready = True, ts_schedule_disabled = False, ts_select_lock = False,
     ts_all_tasks = ts_all_tasks demo_smp, ts_smp_info = True, ts_bootstrap_addr = 0x5000, ts_core_slot = (\<lambda>_. 0),
     amc_up = True, amc_services = am_of 256 [], amc_pool = am_of 512 [], amc_asleep = am_of 64 [],
     amc_heap = Map.empty, amc_inboxes = Map.empty, amc_delivered = Map.empty,
     adi_drivers = adi_drivers_init[9 := \<lparr>ad_irq = 0, ad_pending_irq_count = 0, ad_name = Some ''d'', ad_task = Some 2\<rparr>],
     adi_handlers = {9}, adi_eois = []\<rparr>"

lemma demo_adi_ok:
  "mlfq_wf demo_adi" "saved_ok (sys_tasks demo_adi)" "\<forall>i < 4. length (levels demo_adi ! i) < 128" "pids_ok demo_adi"
proof -
  have q: "queues demo_adi = queues demo_smp" by (simp add: demo_adi_def)
  show "mlfq_wf demo_adi" using mlfq_wf_queues [OF q] demo_smp_sched(1) by simp
  show "\<forall>i < 4. length (levels demo_adi ! i) < 128" using levels_queues [OF q] demo_smp_sched(5) by simp
  show "saved_ok (sys_tasks demo_adi)" using demo_smp_saved by (simp add: demo_adi_def)
  show "pids_ok demo_adi" using demo_smp_pids by (simp add: pids_ok_def demo_adi_def) (simp add: demo_smp_def)
qed

theorem interrupt_wakes_driver_witness:
  "\<exists>s1 s2. adi_interrupt_handler 0 9 demo_adi = Inr s1 \<and> adi_event_await_resume 0 9 s1 = Inr (True, s2)
    \<and> ad_pending_irq_count (adi_drivers s2 ! 9) = 1"
proof -
  have "length (adi_drivers demo_adi) = 127" "ts_multitasking_ready demo_adi"
    "adi_drivers demo_adi ! 9 = \<lparr>ad_irq = 0, ad_pending_irq_count = 0, ad_name = Some ''d'', ad_task = Some 2\<rparr>"
    by (simp_all add: demo_adi_def adi_drivers_init_def MAX_IRQ_def)
  moreover have "cpu_current_task 0 demo_adi = Some 1" "1 \<in> dom (sys_tasks demo_adi)" "2 \<in> set (ts_all_tasks demo_adi)"
    using demo_smp_cur by (simp_all add: demo_adi_def cpu_current_task_def) (simp add: demo_smp_def)
  ultimately show ?thesis
    using interrupt_wakes_driver [OF demo_adi_ok(1-4), of 9 2 0 1] by auto
qed

end
