(* ===== verification/Vas_Ranges.thy ===== *)
theory Vas_Ranges
  imports Prelude "HOL-Library.Multiset"
begin

text \<open>
  The ranges of an address space (\<^verbatim>\<open>kernel/vmm/vmm.c.x86_64.arch_specific\<close>): the table of ranges in use
  that \<^verbatim>\<open>vas_alloc_range\<close> searches for a gap, \<^verbatim>\<open>vas_add_range\<close> sorts and merges, and
  \<^verbatim>\<open>vas_delete_range\<close> splits. Addresses and sizes are numbers below \<open>2 ^ 64\<close> and every sum wraps
  as the code's \<^verbatim>\<open>uint64_t\<close> does. The page tables behind the ranges are not part of the model.

  The number of ranges that claim an address, \<open>claims\<close>, is the abstract view: adding a range adds one
  claim to each of its addresses, deleting takes one away, sorting and merging change nothing.
\<close>

subsection \<open>The table\<close>

record vas_range =
  vr_start :: nat
  vr_size :: nat

record vas_state =
  vs_max_range_count :: nat
  vs_ranges :: "vas_range list"      \<comment> \<open>the first \<^verbatim>\<open>range_count\<close> entries\<close>

definition w64 :: "nat \<Rightarrow> nat" where
  "w64 n = n mod 2 ^ 64"

definition page_size :: nat where
  "page_size = 4096"

lemma w64_less [simp]: "w64 n < 18446744073709551616"
  by (simp add: w64_def)

lemma w64_small [simp]: "n < 18446744073709551616 \<Longrightarrow> w64 n = n"
  by (simp add: w64_def)

definition sub64 :: "nat \<Rightarrow> nat \<Rightarrow> nat" where
  "sub64 a b = w64 (a + 2 ^ 64 - b)"

lemma sub64_le: "b \<le> a \<Longrightarrow> a < 2 ^ 64 \<Longrightarrow> sub64 a b = a - b"
  unfolding sub64_def w64_def diff_add_assoc2 mod_add_self2 by (intro mod_less) linarith

definition range_end :: "vas_range \<Rightarrow> nat" where
  "range_end r = w64 (vr_start r + vr_size r)"

subsection \<open>Adding a range\<close>

text \<open>The two nested loops over \<open>i < j\<close>, left at the first pair with the property.\<close>

fun first_pair :: "('a \<Rightarrow> 'a \<Rightarrow> bool) \<Rightarrow> 'a list \<Rightarrow> (nat \<times> nat) option" where
  "first_pair P [] = None"
| "first_pair P (x # xs) =
     (case first_index (P x) xs of
        Some j \<Rightarrow> Some (0, Suc j)
      | None \<Rightarrow> map_option (\<lambda>(i, j). (Suc i, Suc j)) (first_pair P xs))"

lemma first_pair_Some:
  "first_pair P xs = Some (i, j) \<Longrightarrow> i < j \<and> j < length xs \<and> P (xs ! i) (xs ! j)"
proof (induction xs arbitrary: i j)
  case Nil
  then show ?case by simp
next
  case (Cons x xs)
  show ?case
  proof (cases "first_index (P x) xs")
    case None
    then show ?thesis using Cons by (auto split: prod.splits)
  next
    case (Some k)
    then show ?thesis using Cons.prems first_index_Some [of "P x" xs k] by auto
  qed
qed

lemma first_pair_None: "first_pair P xs = None \<longleftrightarrow> sorted_wrt (\<lambda>a b. \<not> P a b) xs"
proof (induction xs)
  case (Cons x xs)
  then show ?case using first_index_None [of "P x" xs] by (cases "first_index (P x) xs") auto
qed simp

definition swap :: "nat \<Rightarrow> nat \<Rightarrow> 'a list \<Rightarrow> 'a list" where
  "swap i j xs = xs[i := xs ! j, j := xs ! i]"

definition disorder :: "vas_range list \<Rightarrow> nat" where
  "disorder rs = (\<Sum>k<length rs. (length rs - k) * vr_start (rs ! k))"

lemma sum_two:
  fixes f :: "nat \<Rightarrow> nat"
  assumes "i < j" "j < n"
  shows "(\<Sum>k<n. f k) = f i + f j + (\<Sum>k\<in>{..<n} - {i, j}. f k)"
proof -
  have "(\<Sum>k<n. f k) = f i + (\<Sum>k\<in>{..<n} - {i}. f k)"
    using assms by (intro sum.remove) auto
  also have "(\<Sum>k\<in>{..<n} - {i}. f k) = f j + (\<Sum>k\<in>{..<n} - {i} - {j}. f k)"
    using assms by (intro sum.remove) auto
  finally show ?thesis by (simp add: Diff_insert [symmetric] insert_commute)
qed

lemma weights_swap:
  fixes a b u v :: nat
  assumes "a < b" "u < v"
  shows "v * a + u * b < v * b + u * a"
proof -
  obtain d e where "b = a + d" "0 < d" "v = u + e" "0 < e"
    using assms by (metis less_imp_add_positive)
  then show ?thesis by (simp add: algebra_simps)
qed

lemma disorder_swap:
  assumes "i < j" "j < length rs" "vr_start (rs ! j) < vr_start (rs ! i)"
  shows "disorder (swap i j rs) < disorder rs"
proof -
  let ?n = "length rs"
  let ?f = "\<lambda>xs k. (?n - k) * vr_start (xs ! k)"
  have rest: "(\<Sum>k\<in>{..<?n} - {i, j}. ?f (swap i j rs) k) = (\<Sum>k\<in>{..<?n} - {i, j}. ?f rs k)"
    by (intro sum.cong) (auto simp: swap_def)
  have "swap i j rs ! i = rs ! j" "swap i j rs ! j = rs ! i"
    using assms by (auto simp: swap_def)
  then have "?f (swap i j rs) i + ?f (swap i j rs) j < ?f rs i + ?f rs j"
    using assms by (simp add: weights_swap)
  moreover have "length (swap i j rs) = ?n" by (simp add: swap_def)
  ultimately show ?thesis
    using sum_two [OF assms(1,2), of "?f rs"] sum_two [OF assms(1,2), of "?f (swap i j rs)"] rest
    by (simp add: disorder_def)
qed

function sort_ranges :: "vas_range list \<Rightarrow> vas_range list" where
  "sort_ranges rs =
     (case first_pair (\<lambda>a b. vr_start b < vr_start a) rs of
        None \<Rightarrow> rs
      | Some (i, j) \<Rightarrow> sort_ranges (swap i j rs))"
  by auto
termination
  by (relation "measure disorder") (auto dest!: first_pair_Some intro: disorder_swap)

definition merge_at :: "nat \<Rightarrow> nat \<Rightarrow> vas_range list \<Rightarrow> vas_range list" where
  "merge_at i j rs = remove_nth j (rs[i := (rs ! i)\<lparr>vr_size := w64 (vr_size (rs ! i) + vr_size (rs ! j))\<rparr>])"

function merge_ranges :: "vas_range list \<Rightarrow> vas_range list" where
  "merge_ranges rs =
     (case first_pair (\<lambda>a b. range_end a = vr_start b) rs of
        None \<Rightarrow> rs
      | Some (i, j) \<Rightarrow> merge_ranges (merge_at i j rs))"
  by auto
termination
  by (relation "measure length") (auto dest!: first_pair_Some simp: merge_at_def length_remove_nth)

declare sort_ranges.simps [simp del] merge_ranges.simps [simp del]

definition vas_add_range :: "nat \<Rightarrow> nat \<Rightarrow> vas_state \<Rightarrow> vas_state res" where
  "vas_add_range start sz v =
     ebind (kassert (length (vs_ranges v) + 1 \<le> vs_max_range_count v) ''VAS will exceed max tracked ranges!'') (\<lambda>_.
     Inr (v\<lparr>vs_ranges := merge_ranges (sort_ranges (vs_ranges v @ [\<lparr>vr_start = start, vr_size = sz\<rparr>]))\<rparr>))"

subsection \<open>Choosing an address\<close>

fun select_pass :: "nat \<Rightarrow> vas_range list \<Rightarrow> nat \<times> bool \<Rightarrow> nat \<times> bool" where
  "select_pass sz [] s = s"
| "select_pass sz (r # rs) (chosen, collision) =
     (if vr_start r \<le> w64 (chosen + sz) \<and> chosen < range_end r
      then select_pass sz rs (range_end r, True)
      else select_pass sz rs (chosen, collision))"

lemma select_pass_mono: "chosen \<le> fst (select_pass sz rs (chosen, c))"
proof (induction rs arbitrary: chosen c)
  case Nil
  then show ?case by simp
next
  case (Cons r rs)
  then show ?case by (auto intro: order_trans less_imp_le)
qed

lemma select_pass_collision:
  "select_pass sz rs (chosen, False) = (chosen', True) \<Longrightarrow> chosen < chosen' \<and> chosen < 2 ^ 64"
proof (induction rs arbitrary: chosen)
  case Nil
  then show ?case by simp
next
  case (Cons r rs)
  show ?case
  proof (cases "vr_start r \<le> w64 (chosen + sz) \<and> chosen < range_end r")
    case True
    then have "range_end r \<le> chosen'"
      using Cons.prems select_pass_mono [of "range_end r" sz rs True] by simp
    moreover have "range_end r < 2 ^ 64" by (simp add: range_end_def)
    ultimately show ?thesis using True by linarith
  next
    case False
    then show ?thesis using Cons by auto
  qed
qed

function select_from :: "nat \<Rightarrow> vas_range list \<Rightarrow> nat \<Rightarrow> nat" where
  "select_from sz rs chosen =
     (case select_pass sz rs (chosen, False) of
        (chosen', True) \<Rightarrow> select_from sz rs chosen'
      | (chosen', False) \<Rightarrow> chosen')"
  by auto
termination
proof (relation "measure (\<lambda>(sz, rs, chosen). 2 ^ 64 - chosen)", goal_cases)
  case 1
  then show ?case by simp
next
  case (2 sz rs chosen x y)
  then show ?case using select_pass_collision [of sz rs chosen x] by (auto intro: diff_less_mono2)
qed

declare select_from.simps [simp del]

definition select_virtual_address :: "vas_state \<Rightarrow> nat \<Rightarrow> nat \<Rightarrow> nat" where
  "select_virtual_address v min_address sz = select_from sz (vs_ranges v) min_address"

definition page_align :: "nat \<Rightarrow> nat" where
  "page_align sz = w64 (sz + (page_size - 1)) div page_size * page_size"

definition vas_alloc_range :: "nat \<Rightarrow> nat \<Rightarrow> vas_state \<Rightarrow> (nat \<times> vas_state) res" where
  "vas_alloc_range min_address sz v =
     (let sz = page_align sz in
      ebind (kassert (min_address mod page_size = 0) ''min_address not page-aligned'') (\<lambda>_.
      let chosen_start = select_virtual_address v min_address sz in
      ebind (vas_add_range chosen_start sz v) (\<lambda>v. Inr (chosen_start, v))))"

subsection \<open>Deleting a range\<close>

text \<open>\<open>room\<close> says that the entry behind the last one but one still lies in the table: making room for the
  right part of a split range writes there.\<close>

fun delete_range_in :: "bool \<Rightarrow> nat \<Rightarrow> nat \<Rightarrow> vas_range list \<Rightarrow> vas_range list res" where
  "delete_range_in room base sz [] = Inl (Panic ''Failed to find provided region'')"
| "delete_range_in room base sz (r # rs) =
     (if vr_start r = base \<and> vr_size r = sz then Inr rs
      else if vr_start r \<le> base \<and> range_end r \<ge> w64 (base + sz)
      then let left = sub64 base (vr_start r);
               right_end_size = sub64 (sub64 (vr_size r) left) sz
           in if right_end_size > 0
              then if room
                   then Inr (r\<lparr>vr_size := left\<rparr> # \<lparr>vr_start = w64 (base + sz), vr_size = right_end_size\<rparr> # rs)
                   else Inl OutOfBounds
              else Inr (r\<lparr>vr_size := left\<rparr> # rs)
      else ebind (delete_range_in room base sz rs) (\<lambda>rs. Inr (r # rs)))"

definition vas_delete_range :: "nat \<Rightarrow> nat \<Rightarrow> vas_state \<Rightarrow> vas_state res" where
  "vas_delete_range region_base sz v =
     ebind (delete_range_in (length (vs_ranges v) + 1 < vs_max_range_count v) region_base sz (vs_ranges v)) (\<lambda>rs.
     Inr (v\<lparr>vs_ranges := rs\<rparr>))"

definition vas_free_range :: "nat \<Rightarrow> nat \<Rightarrow> vas_state \<Rightarrow> vas_state res" where
  "vas_free_range region_base sz v = vas_delete_range region_base sz v"

subsection \<open>Asking for a page, and the kernel's own table\<close>

definition vas_is_page_present :: "vas_state \<Rightarrow> nat \<Rightarrow> bool" where
  "vas_is_page_present v virt_addr \<longleftrightarrow>
     list_ex (\<lambda>r. virt_addr \<ge> vr_start r \<and> virt_addr \<le> range_end r) (vs_ranges v)"

definition kernel_heap_base :: nat where
  "kernel_heap_base = 0xFFFF900000000000"

definition kernel_image_base :: nat where
  "kernel_image_base = 0xFFFFFFFF80000000"

text \<open>What \<^verbatim>\<open>vmm_init\<close> enters: the low identity map, the high map of physical memory, the kernel image. The
  table fills the rest of a page behind its 16 bytes of head, with 16 bytes per range.\<close>

definition vmm_init_ranges :: "vas_state res" where
  "vmm_init_ranges =
     (let gb = 1024 * 1024 * 1024 in
      ebind (vas_add_range 0 (gb * 64) \<lparr>vs_max_range_count = (page_size - 16) div 16, vs_ranges = []\<rparr>) (\<lambda>v.
      ebind (vas_add_range 0xFFFF800000000000 (gb * 64) v) (\<lambda>v.
      vas_add_range kernel_image_base (gb * 2) v)))"

subsection \<open>The claims on an address\<close>

definition covers :: "vas_range \<Rightarrow> nat \<Rightarrow> bool" where
  "covers r x \<longleftrightarrow> vr_start r \<le> x \<and> x < vr_start r + vr_size r"

definition claims :: "vas_range list \<Rightarrow> nat \<Rightarrow> nat" where
  "claims rs x = length (filter (\<lambda>r. covers r x) rs)"

text \<open>
  The invariant of the table: ranges do not wrap and consist of pages, no address is claimed twice, and
  no range crosses the address \<open>lim\<close>, below which new ranges have to lie. In the kernel's own address
  space \<open>lim\<close> is the address below the kernel image, whose range ends at \<open>2 ^ 64\<close>.
\<close>

definition bounded :: "nat \<Rightarrow> vas_range \<Rightarrow> bool" where
  "bounded lim r \<longleftrightarrow> vr_start r + vr_size r \<le> 2 ^ 64 \<and> vr_start r < 2 ^ 64
     \<and> (vr_start r + vr_size r \<le> lim \<or> lim < vr_start r)
     \<and> page_size dvd vr_start r \<and> page_size dvd vr_size r"

definition vas_ok :: "nat \<Rightarrow> vas_state \<Rightarrow> bool" where
  "vas_ok lim v \<longleftrightarrow> lim < 2 ^ 64 \<and> (\<forall>r \<in> set (vs_ranges v). bounded lim r) \<and> (\<forall>x. claims (vs_ranges v) x \<le> 1)"

abbreviation by_start :: "vas_range list \<Rightarrow> bool" where
  "by_start \<equiv> sorted_wrt (\<lambda>a b. \<not> vr_start b < vr_start a)"

text \<open>A region lies inside one entry of the table.\<close>

definition inside :: "nat \<Rightarrow> nat \<Rightarrow> vas_range \<Rightarrow> bool" where
  "inside base n r \<longleftrightarrow> vr_start r \<le> base \<and> base + n \<le> vr_start r + vr_size r"

definition held :: "vas_range list \<Rightarrow> nat \<Rightarrow> nat \<Rightarrow> bool" where
  "held rs base n \<longleftrightarrow> (\<exists>r \<in> set rs. inside base n r)"

lemma claims_simps [simp]:
  "claims [] x = 0"
  "claims (r # rs) x = of_bool (covers r x) + claims rs x"
  "claims (rs @ rs') x = claims rs x + claims rs' x"
  by (simp_all add: claims_def)

lemma claims_mset: "mset rs = mset rs' \<Longrightarrow> claims rs x = claims rs' x"
  unfolding claims_def by (metis mset_filter size_mset)

lemma claims_pos: "0 < claims rs x \<longleftrightarrow> (\<exists>r \<in> set rs. covers r x)"
  by (auto simp: claims_def filter_empty_conv)

lemma two_split:
  assumes "i < j" "j < length xs"
  obtains A B C where "xs = A @ xs ! i # B @ xs ! j # C" "length A = i" "length B = j - Suc i"
proof
  have "drop (Suc i) xs = take (j - Suc i) (drop (Suc i) xs) @ xs ! j # drop (Suc j) xs"
    using assms id_take_nth_drop [of "j - Suc i" "drop (Suc i) xs"] by simp
  then show "xs = take i xs @ xs ! i # take (j - Suc i) (drop (Suc i) xs) @ xs ! j # drop (Suc j) xs"
    using assms id_take_nth_drop [of i xs] by simp
  show "length (take i xs) = i" "length (take (j - Suc i) (drop (Suc i) xs)) = j - Suc i"
    using assms by auto
qed

lemma mset_swap: "i < j \<Longrightarrow> j < length xs \<Longrightarrow> mset (swap i j xs) = mset xs"
  by (simp add: swap_def mset_swap)

lemma sort_ranges_sorts: "mset (sort_ranges rs) = mset rs \<and> by_start (sort_ranges rs)"
proof (induction rs rule: sort_ranges.induct)
  case (1 rs)
  let ?P = "\<lambda>a b. vr_start b < vr_start a"
  show ?case
  proof (cases "first_pair ?P rs")
    case None
    then show ?thesis using first_pair_None [THEN iffD1, OF None] by (simp add: sort_ranges.simps [of rs])
  next
    case (Some p)
    then obtain i j where e: "first_pair ?P rs = Some (i, j)" by (cases p) simp
    have "mset (swap i j rs) = mset rs" using first_pair_Some [OF e] by (simp add: mset_swap)
    then show ?thesis using 1 [OF e refl] e by (simp add: sort_ranges.simps [of rs])
  qed
qed

lemma merge_at_split:
  "merge_at (length A) (Suc (length A + length B)) (A @ a # B @ b # C)
     = A @ a\<lparr>vr_size := w64 (vr_size a + vr_size b)\<rparr> # B @ C"
proof -
  let ?m = "a\<lparr>vr_size := w64 (vr_size a + vr_size b)\<rparr>"
  have "(A @ a # B @ b # C) ! Suc (length A + length B) = b"
    using nth_append_length [of "A @ a # B" b C] by simp
  then have "merge_at (length A) (Suc (length A + length B)) (A @ a # B @ b # C)
      = remove_nth (length (A @ ?m # B)) ((A @ ?m # B) @ b # C)"
    by (simp add: merge_at_def nth_append)
  then show ?thesis by (simp only: remove_nth_mid) simp
qed

lemma adjacent:
  assumes "bounded lim a" "bounded lim b" "lim < 2 ^ 64" "range_end a = vr_start b" "vr_start a \<le> vr_start b"
  shows "vr_start a + vr_size a = vr_start b \<and> vr_size a + vr_size b < 2 ^ 64
    \<and> (vr_start b + vr_size b \<le> lim \<or> lim < vr_start a)"
proof (cases "vr_start a + vr_size a = 2 ^ 64")
  case True
  then have "vr_start b = 0" using assms(4) by (simp add: range_end_def w64_def)
  then show ?thesis using assms True by (auto simp: bounded_def)
next
  case False
  then have "vr_start a + vr_size a = vr_start b"
    using assms by (auto simp: range_end_def bounded_def)
  then show ?thesis using assms by (auto simp: bounded_def)
qed

text \<open>Merging keeps the order, the bounds and the claims, and an entry that held a region still does.\<close>

lemma merge_step:
  assumes rs: "rs = A @ a # B @ b # C" and ok: "\<forall>r \<in> set rs. bounded lim r" "lim < 2 ^ 64" "by_start rs"
    and adj: "range_end a = vr_start b"
  defines "rs' \<equiv> A @ a\<lparr>vr_size := w64 (vr_size a + vr_size b)\<rparr> # B @ C"
  shows "(\<forall>r \<in> set rs'. bounded lim r) \<and> by_start rs' \<and> claims rs' x = claims rs x \<and> (held rs base n \<longrightarrow> held rs' base n)"
proof -
  have "vr_start a \<le> vr_start b" using ok(3) rs by (auto simp: sorted_wrt_append)
  then have eq: "vr_start a + vr_size a = vr_start b" and sz: "w64 (vr_size a + vr_size b) = vr_size a + vr_size b"
    and side: "vr_start b + vr_size b \<le> lim \<or> lim < vr_start a"
    using adjacent [of lim a b] ok rs adj by auto
  have "bounded lim (a\<lparr>vr_size := vr_size a + vr_size b\<rparr>)"
    using ok(1) rs eq side by (auto simp: bounded_def)
  moreover have "of_bool (covers (a\<lparr>vr_size := vr_size a + vr_size b\<rparr>) x) = of_bool (covers a x) + (of_bool (covers b x) :: nat)"
    using eq by (auto simp: covers_def)
  moreover have "inside base n a \<or> inside base n b \<Longrightarrow> inside base n (a\<lparr>vr_size := vr_size a + vr_size b\<rparr>)"
    using eq by (auto simp: inside_def)
  ultimately show ?thesis
    using ok rs by (auto simp: rs'_def sz sorted_wrt_append held_def)
qed

lemma merge_ranges_keeps:
  assumes "\<forall>r \<in> set rs. bounded lim r" "lim < 2 ^ 64" "by_start rs"
  shows "(\<forall>r \<in> set (merge_ranges rs). bounded lim r) \<and> claims (merge_ranges rs) x = claims rs x
    \<and> (held rs base n \<longrightarrow> held (merge_ranges rs) base n)"
  using assms
proof (induction rs rule: merge_ranges.induct)
  case (1 rs)
  let ?P = "\<lambda>a b. range_end a = vr_start b"
  show ?case
  proof (cases "first_pair ?P rs")
    case None
    then show ?thesis using 1 by (simp add: merge_ranges.simps [of rs])
  next
    case (Some p)
    then obtain i j where e: "first_pair ?P rs = Some (i, j)" by (cases p) simp
    have ij: "i < j" "j < length rs" "range_end (rs ! i) = vr_start (rs ! j)"
      using first_pair_Some [OF e] by simp_all
    obtain A B C where rs: "rs = A @ rs ! i # B @ rs ! j # C" "length A = i" "length B = j - Suc i"
      using two_split [OF ij(1,2)] .
    have "merge_at i j rs = A @ (rs ! i)\<lparr>vr_size := w64 (vr_size (rs ! i) + vr_size (rs ! j))\<rparr> # B @ C"
      using merge_at_split [of A B "rs ! i" "rs ! j" C] rs ij(1) by simp
    then have "(\<forall>r \<in> set (merge_at i j rs). bounded lim r) \<and> by_start (merge_at i j rs)
        \<and> claims (merge_at i j rs) x = claims rs x \<and> (held rs base n \<longrightarrow> held (merge_at i j rs) base n)"
      using merge_step [OF rs(1) "1.prems" ij(3)] by simp
    then show ?thesis using "1.IH" [OF e refl] e "1.prems"(2) by (simp add: merge_ranges.simps [of rs])
  qed
qed

lemma vas_add_range_ok:
  assumes ok: "vas_ok lim v" and add: "vas_add_range b n v = Inr v'"
    and new: "bounded lim \<lparr>vr_start = b, vr_size = n\<rparr>" "\<forall>x. b \<le> x \<and> x < b + n \<longrightarrow> claims (vs_ranges v) x = 0"
  shows "vas_ok lim v' \<and> (\<forall>x. claims (vs_ranges v') x = claims (vs_ranges v) x + of_bool (b \<le> x \<and> x < b + n))
    \<and> held (vs_ranges v') b n \<and> (\<forall>b' n'. held (vs_ranges v) b' n' \<longrightarrow> held (vs_ranges v') b' n')"
proof -
  let ?rs = "vs_ranges v @ [\<lparr>vr_start = b, vr_size = n\<rparr>]"
  have v': "vs_ranges v' = merge_ranges (sort_ranges ?rs)"
    using add by (auto simp: vas_add_range_def ebind_eq_Inr)
  have sort: "mset (sort_ranges ?rs) = mset ?rs" "by_start (sort_ranges ?rs)"
    using sort_ranges_sorts by auto
  have set: "set (sort_ranges ?rs) = set ?rs" using mset_eq_setD [OF sort(1)] .
  have b: "\<forall>r \<in> set (sort_ranges ?rs). bounded lim r" "lim < 2 ^ 64"
    using ok new(1) set by (auto simp: vas_ok_def)
  note merged = merge_ranges_keeps [OF b sort(2)]
  have c: "claims (vs_ranges v') x = claims (vs_ranges v) x + of_bool (b \<le> x \<and> x < b + n)" for x
    using merged claims_mset [OF sort(1), of x] v' by (simp add: covers_def)
  moreover have "held (sort_ranges ?rs) b' n' \<Longrightarrow> held (vs_ranges v') b' n'" for b' n'
    using merged v' by simp
  moreover have "\<forall>x. claims (vs_ranges v') x \<le> 1"
    using ok new(2) c by (auto simp: vas_ok_def)
  ultimately show ?thesis
    using ok merged v' set by (auto simp: vas_ok_def held_def inside_def)
qed

lemma merge_ranges_length: "length (merge_ranges rs) \<le> length rs"
proof (induction rs rule: merge_ranges.induct)
  case (1 rs)
  let ?P = "\<lambda>a b. range_end a = vr_start b"
  show ?case
  proof (cases "first_pair ?P rs")
    case None
    then show ?thesis by (simp add: merge_ranges.simps [of rs])
  next
    case (Some p)
    then obtain i j where e: "first_pair ?P rs = Some (i, j)" by (cases p) simp
    then have "length (merge_at i j rs) \<le> length rs" using first_pair_Some [OF e] by (simp add: merge_at_def length_remove_nth)
    then show ?thesis using "1.IH" [OF e refl] e by (simp add: merge_ranges.simps [of rs])
  qed
qed

lemma vas_add_range_length:
  assumes "vas_add_range b n v = Inr v'"
  shows "length (vs_ranges v') \<le> length (vs_ranges v) + 1 \<and> vs_max_range_count v' = vs_max_range_count v"
proof -
  let ?rs = "vs_ranges v @ [\<lparr>vr_start = b, vr_size = n\<rparr>]"
  have "length (sort_ranges ?rs) = length ?rs" using sort_ranges_sorts [of ?rs] by (metis size_mset)
  then show ?thesis using assms merge_ranges_length [of "sort_ranges ?rs"] by (auto simp: vas_add_range_def ebind_eq_Inr)
qed

lemma select_pass_free:
  "select_pass sz rs (chosen, False) = (chosen', False) \<Longrightarrow>
     chosen' = chosen \<and> (\<forall>r \<in> set rs. \<not> (vr_start r \<le> w64 (chosen + sz) \<and> chosen < range_end r))"
proof (induction rs arbitrary: chosen)
  case (Cons r rs)
  have "select_pass sz rs (c, True) = (chosen', False) \<Longrightarrow> False" for c
    by (induction rs arbitrary: c) (auto split: if_splits)
  then show ?case using Cons by (auto split: if_splits)
qed simp

lemma select_pass_aligned:
  "\<forall>r \<in> set rs. d dvd range_end r \<Longrightarrow> d dvd chosen \<Longrightarrow> d dvd fst (select_pass sz rs (chosen, c))"
  by (induction rs arbitrary: chosen c) auto

lemma select_from_free:
  assumes "\<forall>r \<in> set rs. d dvd range_end r" "d dvd m"
  shows "m \<le> select_from sz rs m \<and> d dvd select_from sz rs m
    \<and> (\<forall>r \<in> set rs. \<not> (vr_start r \<le> w64 (select_from sz rs m + sz) \<and> select_from sz rs m < range_end r))"
  using assms
proof (induction sz rs m rule: select_from.induct)
  case (1 sz rs chosen)
  obtain c' col where p: "select_pass sz rs (chosen, False) = (c', col)" by (cases "select_pass sz rs (chosen, False)")
  have "d dvd c'" "chosen \<le> c'"
    using select_pass_aligned [of rs d chosen sz False] select_pass_mono [of chosen sz rs False] 1 p by auto
  then show ?case
  proof (cases col)
    case True
    then have e: "select_from sz rs chosen = select_from sz rs c'" using p by (simp add: select_from.simps [of sz rs chosen])
    have "select_pass sz rs (chosen, False) = (c', True)" using p True by simp
    note IH = "1.IH" [OF this [symmetric] refl "1.prems"(1) \<open>d dvd c'\<close>]
    show ?thesis unfolding e using IH \<open>chosen \<le> c'\<close> by auto
  next
    case False
    then have p': "select_pass sz rs (chosen, False) = (c', False)" using p by simp
    then have "select_from sz rs chosen = c'" by (simp add: select_from.simps [of sz rs chosen])
    then show ?thesis using select_pass_free [OF p'] "1.prems"(2) by simp
  qed
qed

lemma page_align_ge: "n + page_size \<le> 2 ^ 64 \<Longrightarrow> n \<le> page_align n"
  by (simp add: page_align_def page_size_def)

lemma page_align_dvd [simp]: "page_size dvd page_align n"
  by (simp add: page_align_def)

lemma page_align_id: "page_size dvd n \<Longrightarrow> n + page_size \<le> 2 ^ 64 \<Longrightarrow> page_align n = n"
  by (auto simp: page_align_def page_size_def elim!: dvdE)

text \<open>An address below the limit that the search returns starts a gap.\<close>

lemma selected_gap:
  assumes ok: "vas_ok lim v" and a: "page_size dvd m" and c: "c = select_virtual_address v m n" and fits: "c + n \<le> lim"
  shows "m \<le> c \<and> page_size dvd c \<and> (\<forall>x. c \<le> x \<and> x < c + n \<longrightarrow> claims (vs_ranges v) x = 0)"
proof -
  let ?rs = "vs_ranges v"
  have "page_size dvd range_end r" if "r \<in> set ?rs" for r
  proof -
    have "page_size dvd vr_start r + vr_size r" using ok that by (auto simp: vas_ok_def bounded_def)
    then show ?thesis by (simp add: range_end_def w64_def page_size_def dvd_mod_iff)
  qed
  then have s: "m \<le> c" "page_size dvd c" "\<forall>r \<in> set ?rs. \<not> (vr_start r \<le> w64 (c + n) \<and> c < range_end r)"
    using select_from_free [of ?rs page_size m n] a c by (auto simp: select_virtual_address_def)
  have "\<not> covers r x" if r: "r \<in> set ?rs" and x: "c \<le> x" "x < c + n" for r x
  proof
    assume "covers r x"
    then have "vr_start r \<le> c + n" "c < vr_start r + vr_size r" using x by (auto simp: covers_def)
    moreover have "bounded lim r" "lim < 2 ^ 64" using ok r by (auto simp: vas_ok_def)
    ultimately show False
      using s(3) r fits x \<open>covers r x\<close> by (auto simp: bounded_def covers_def range_end_def)
  qed
  then show ?thesis using s(1,2) by (auto simp: claims_def filter_empty_conv)
qed

lemma vas_alloc_range_ok:
  assumes ok: "vas_ok lim v" and alloc: "vas_alloc_range m n v = Inr (b, v')" and fits: "b + page_align n \<le> lim"
  shows "vas_ok lim v' \<and> m \<le> b \<and> page_size dvd b
    \<and> (\<forall>x. b \<le> x \<and> x < b + page_align n \<longrightarrow> claims (vs_ranges v) x = 0)
    \<and> (\<forall>x. claims (vs_ranges v') x = claims (vs_ranges v) x + of_bool (b \<le> x \<and> x < b + page_align n))
    \<and> held (vs_ranges v') b (page_align n) \<and> (\<forall>b' n'. held (vs_ranges v) b' n' \<longrightarrow> held (vs_ranges v') b' n')"
proof -
  have b: "b = select_virtual_address v m (page_align n)" "page_size dvd m" "vas_add_range b (page_align n) v = Inr v'"
    using alloc by (auto simp: vas_alloc_range_def Let_def ebind_eq_Inr dvd_eq_mod_eq_0)
  note gap = selected_gap [OF ok b(2,1) fits]
  have "lim < 2 ^ 64" using ok by (simp add: vas_ok_def)
  then have "bounded lim \<lparr>vr_start = b, vr_size = page_align n\<rparr>" using gap fits by (simp add: bounded_def)
  then show ?thesis using vas_add_range_ok [OF ok b(3)] gap by blast
qed

subsection \<open>Giving a region back\<close>

definition apart :: "nat \<Rightarrow> nat \<Rightarrow> nat \<Rightarrow> nat \<Rightarrow> bool" where
  "apart b n b' n' \<longleftrightarrow> b + n \<le> b' \<or> b' + n' \<le> b"

lemma range_end_below: "bounded lim r \<Longrightarrow> lim < 2 ^ 64 \<Longrightarrow> vr_start r \<le> lim \<Longrightarrow> range_end r = vr_start r + vr_size r"
  by (auto simp: bounded_def range_end_def)

text \<open>An entry that holds the region is cut into the parts on its two sides.\<close>

lemma cut_entry:
  assumes "bounded lim r" "inside b n r" "0 < n" "page_size dvd b" "page_size dvd n" "b + n \<le> lim" "lim < 2 ^ 64"
  defines "L \<equiv> r\<lparr>vr_size := b - vr_start r\<rparr>" and "R \<equiv> \<lparr>vr_start = b + n, vr_size = vr_size r - (b - vr_start r) - n\<rparr>"
  shows "sub64 b (vr_start r) = b - vr_start r"
    and "sub64 (sub64 (vr_size r) (b - vr_start r)) n = vr_size r - (b - vr_start r) - n"
    and "bounded lim L \<and> bounded lim R"
    and "of_bool (covers r x) = (of_bool (covers L x) + of_bool (b \<le> x \<and> x < b + n) + of_bool (covers R x) :: nat)"
    and "inside b' n' r \<Longrightarrow> 0 < n' \<Longrightarrow> apart b n b' n' \<Longrightarrow> inside b' n' L \<or> inside b' n' R"
proof -
  have in_r: "vr_start r \<le> b" "b + n \<le> vr_start r + vr_size r" using assms(2) by (auto simp: inside_def)
  define q where "q = vr_size r - (b - vr_start r) - n"
  have q: "vr_start r + vr_size r = b + n + q" "q < 2 ^ 64" using in_r assms by (auto simp: q_def bounded_def)
  have "vr_size r < 2 ^ 64" using assms in_r q by (auto simp: bounded_def)
  then show "sub64 b (vr_start r) = b - vr_start r"
    "sub64 (sub64 (vr_size r) (b - vr_start r)) n = vr_size r - (b - vr_start r) - n"
    using in_r assms by (simp_all add: sub64_le)
  have "page_size dvd q" using assms unfolding q_def bounded_def by (intro dvd_diff_nat) auto
  then show "bounded lim L \<and> bounded lim R"
    using assms in_r q by (auto simp: bounded_def L_def R_def q_def [symmetric])
  show "of_bool (covers r x) = (of_bool (covers L x) + of_bool (b \<le> x \<and> x < b + n) + of_bool (covers R x) :: nat)"
    using in_r q by (auto simp: L_def R_def covers_def q_def [symmetric])
  show "inside b' n' L \<or> inside b' n' R" if "inside b' n' r" "0 < n'" "apart b n b' n'"
    using that in_r q by (auto simp: L_def R_def inside_def apart_def q_def [symmetric])
qed

definition deleted :: "nat \<Rightarrow> nat \<Rightarrow> nat \<Rightarrow> vas_range list \<Rightarrow> vas_range list \<Rightarrow> bool" where
  "deleted lim b n rs rs' \<longleftrightarrow> (\<forall>r \<in> set rs'. bounded lim r)
     \<and> (\<forall>x. claims rs x = claims rs' x + of_bool (b \<le> x \<and> x < b + n))
     \<and> (\<forall>b' n'. held rs b' n' \<longrightarrow> 0 < n' \<longrightarrow> apart b n b' n' \<longrightarrow> held rs' b' n')"

lemma deleted_empty: "deleted lim b n rs (L # R # rs') \<Longrightarrow> vr_size R = 0 \<Longrightarrow> deleted lim b n rs (L # rs')"
  by (fastforce simp: deleted_def held_def inside_def covers_def)

lemma delete_range_in_ok:
  assumes "\<forall>r \<in> set rs. bounded lim r" "lim < 2 ^ 64" "held rs b n"
    and region: "0 < n" "page_size dvd b" "page_size dvd n" "b + n \<le> lim"
  shows "(\<exists>rs'. delete_range_in room b n rs = Inr rs' \<and> deleted lim b n rs rs')
    \<or> (\<not> room \<and> delete_range_in room b n rs = Inl OutOfBounds)"
  using assms(1-3)
proof (induction rs)
  case Nil
  then show ?case by (simp add: held_def)
next
  case (Cons r rs)
  have bn: "w64 (b + n) = b + n" using region(4) Cons.prems(2) by simp
  have r: "bounded lim r" using Cons.prems by simp
  show ?case
  proof (cases "inside b n r")
    case True
    note cut = cut_entry [OF r True region Cons.prems(2)]
    have "range_end r = vr_start r + vr_size r"
      using range_end_below [OF r Cons.prems(2)] True region by (auto simp: inside_def)
    moreover have "deleted lim b n (r # rs) rs" if "vr_start r = b" "vr_size r = n"
      using that Cons.prems by (auto simp: deleted_def covers_def held_def inside_def apart_def)
    moreover have split: "deleted lim b n (r # rs) (r\<lparr>vr_size := b - vr_start r\<rparr> # \<lparr>vr_start = b + n, vr_size = vr_size r - (b - vr_start r) - n\<rparr> # rs)"
      using cut(3-) Cons.prems by (auto simp: deleted_def held_def)
    moreover have "deleted lim b n (r # rs) (r\<lparr>vr_size := b - vr_start r\<rparr> # rs)" if "vr_size r - (b - vr_start r) - n = 0"
      using deleted_empty [OF split] that by simp
    ultimately show ?thesis
      using True bn by (auto simp: Let_def cut(1,2) inside_def simp del: diff_diff_left)
  next
    case False
    then have "held rs b n" using Cons.prems(3) by (simp add: held_def)
    then have IH: "(\<exists>rs'. delete_range_in room b n rs = Inr rs' \<and> deleted lim b n rs rs')
        \<or> (\<not> room \<and> delete_range_in room b n rs = Inl OutOfBounds)"
      using Cons by simp
    have "\<not> (vr_start r = b \<and> vr_size r = n)" using False by (auto simp: inside_def)
    moreover have "\<not> (vr_start r \<le> b \<and> w64 (b + n) \<le> range_end r)"
      using False bn range_end_below [OF r Cons.prems(2)] region by (auto simp: inside_def)
    moreover have "deleted lim b n rs rs' \<Longrightarrow> deleted lim b n (r # rs) (r # rs')" for rs'
      using r by (auto simp: deleted_def held_def)
    ultimately show ?thesis using IH by auto
  qed
qed

lemma vas_free_range_ok:
  assumes ok: "vas_ok lim v" and h: "held (vs_ranges v) b n"
    and region: "0 < n" "page_size dvd b" "page_size dvd n" "b + n \<le> lim"
    and room: "length (vs_ranges v) + 1 < vs_max_range_count v"
  shows "\<exists>v'. vas_free_range b n v = Inr v' \<and> vas_ok lim v' \<and> deleted lim b n (vs_ranges v) (vs_ranges v')
    \<and> vs_max_range_count v' = vs_max_range_count v"
proof -
  have b: "\<forall>r \<in> set (vs_ranges v). bounded lim r" "lim < 2 ^ 64" using ok by (auto simp: vas_ok_def)
  obtain rs' where d: "delete_range_in True b n (vs_ranges v) = Inr rs'" "deleted lim b n (vs_ranges v) rs'"
    using delete_range_in_ok [OF b h region, of True] by auto
  have "claims rs' x \<le> claims (vs_ranges v) x" for x using d(2) by (simp add: deleted_def)
  then have "\<forall>x. claims rs' x \<le> 1" using ok unfolding vas_ok_def by (meson order_trans)
  then show ?thesis
    using d ok room by (auto simp: vas_free_range_def vas_delete_range_def vas_ok_def deleted_def)
qed

subsection \<open>The kernel's table\<close>

lemma vmm_init_ranges_value:
  "vmm_init_ranges = Inr \<lparr>vs_max_range_count = 255, vs_ranges =
     [\<lparr>vr_start = 0, vr_size = 0x1000000000\<rparr>, \<lparr>vr_start = 0xFFFF800000000000, vr_size = 0x1000000000\<rparr>,
      \<lparr>vr_start = kernel_image_base, vr_size = 0x80000000\<rparr>]\<rparr>"
  by (simp add: vmm_init_ranges_def vas_add_range_def sort_ranges.simps merge_ranges.simps range_end_def
      kernel_image_base_def w64_def page_size_def)

lemma vmm_init_ranges_ok:
  assumes "vmm_init_ranges = Inr v"
  shows "vas_ok (kernel_image_base - 1) v"
  using assms by (auto simp: vmm_init_ranges_value vas_ok_def bounded_def kernel_image_base_def page_size_def covers_def)

text \<open>
  The range of the kernel image ends at \<open>2 ^ 64\<close>, which wraps to 0, so the search never sees a collision
  with it: asked for an address there, it hands out the image itself.
\<close>

lemma search_overlooks_kernel_image:
  assumes "vmm_init_ranges = Inr v"
  shows "select_virtual_address v kernel_image_base 0x1000 = kernel_image_base \<and> claims (vs_ranges v) kernel_image_base = 1"
  using assms unfolding select_virtual_address_def
  by (subst select_from.simps) (auto simp: vmm_init_ranges_value range_end_def w64_def kernel_image_base_def covers_def)

text \<open>The first address behind a range counts as present, although no range claims it.\<close>

lemma page_behind_range_present:
  assumes "vmm_init_ranges = Inr v"
  shows "vas_is_page_present v 0x1000000000 \<and> claims (vs_ranges v) 0x1000000000 = 0"
  using assms by (auto simp: vmm_init_ranges_value vas_is_page_present_def range_end_def w64_def kernel_image_base_def covers_def)

text \<open>
  C36. A range handed out below the limit starts at a page at or above the minimum, no other range claims
  any of its addresses, the table stays well formed and gains exactly these claims; and giving it back
  succeeds while the table has room, and restores the claims of every address.
\<close>

theorem allocated_range_is_a_gap_and_returns:
  assumes ok: "vas_ok lim v" and alloc: "vas_alloc_range m n v = Inr (b, v1)"
    and fits: "0 < page_align n" "b + page_align n \<le> lim"
    and room: "length (vs_ranges v1) + 1 < vs_max_range_count v1"
  shows "m \<le> b \<and> page_size dvd b \<and> (\<forall>x. b \<le> x \<and> x < b + page_align n \<longrightarrow> claims (vs_ranges v) x = 0)
    \<and> vas_ok lim v1 \<and> (\<forall>x. claims (vs_ranges v1) x = claims (vs_ranges v) x + of_bool (b \<le> x \<and> x < b + page_align n))
    \<and> (\<exists>v2. vas_free_range b (page_align n) v1 = Inr v2 \<and> vas_ok lim v2 \<and> claims (vs_ranges v2) = claims (vs_ranges v))"
proof -
  note a = vas_alloc_range_ok [OF ok alloc fits(2)]
  obtain v2 where "vas_free_range b (page_align n) v1 = Inr v2" "vas_ok lim v2"
      "deleted lim b (page_align n) (vs_ranges v1) (vs_ranges v2)"
    using vas_free_range_ok [of lim v1 b "page_align n"] a fits room by auto
  then have "\<exists>v2. vas_free_range b (page_align n) v1 = Inr v2 \<and> vas_ok lim v2 \<and> claims (vs_ranges v2) = claims (vs_ranges v)"
    using a by (fastforce simp: deleted_def fun_eq_iff)
  then show ?thesis using a by blast
qed

lemma first_heap_address:
  assumes "vmm_init_ranges = Inr v"
  shows "select_virtual_address v kernel_heap_base 65536 = kernel_heap_base"
  using assms unfolding select_virtual_address_def
  by (subst select_from.simps) (auto simp: vmm_init_ranges_value range_end_def w64_def kernel_image_base_def kernel_heap_base_def)

lemma first_heap_range:
  assumes "vmm_init_ranges = Inr v"
  shows "vas_alloc_range kernel_heap_base 65536 v = Inr (kernel_heap_base, v\<lparr>vs_ranges :=
     [\<lparr>vr_start = 0, vr_size = 0x1000000000\<rparr>, \<lparr>vr_start = 0xFFFF800000000000, vr_size = 0x1000000000\<rparr>,
      \<lparr>vr_start = kernel_heap_base, vr_size = 65536\<rparr>, \<lparr>vr_start = kernel_image_base, vr_size = 0x80000000\<rparr>]\<rparr>)"
proof -
  note first_heap_address [OF assms]
  moreover have "page_align 65536 = 65536" by (simp add: page_align_id page_size_def)
  moreover have "kernel_heap_base mod page_size = 0" by (simp add: kernel_heap_base_def page_size_def)
  ultimately show ?thesis
    using assms by (auto simp: vas_alloc_range_def vmm_init_ranges_value vas_add_range_def sort_ranges.simps merge_ranges.simps
        swap_def range_end_def kernel_image_base_def kernel_heap_base_def w64_def)
qed

theorem allocated_range_is_a_gap_and_returns_witness:
  "\<exists>v v1 v2. vmm_init_ranges = Inr v \<and> vas_alloc_range kernel_heap_base 65536 v = Inr (kernel_heap_base, v1)
     \<and> claims (vs_ranges v1) kernel_heap_base = claims (vs_ranges v) kernel_heap_base + 1
     \<and> vas_free_range kernel_heap_base 65536 v1 = Inr v2 \<and> claims (vs_ranges v2) = claims (vs_ranges v)"
proof -
  obtain v where v: "vmm_init_ranges = Inr v" by (simp add: vmm_init_ranges_value)
  obtain v1 where v1: "vas_alloc_range kernel_heap_base 65536 v = Inr (kernel_heap_base, v1)"
      "length (vs_ranges v1) + 1 < vs_max_range_count v1"
    using first_heap_range [OF v] v by (auto simp: vmm_init_ranges_value)
  have n: "page_align 65536 = 65536" by (simp add: page_align_id page_size_def)
  have fits: "0 < page_align 65536" "kernel_heap_base + page_align 65536 \<le> kernel_image_base - 1"
    by (simp_all add: n kernel_heap_base_def kernel_image_base_def)
  note t = allocated_range_is_a_gap_and_returns [OF vmm_init_ranges_ok [OF v] v1(1) fits v1(2)]
  show ?thesis using v v1(1) t n by fastforce
qed

end
