(* ===== verification/Sbrk.thy ===== *)
theory Sbrk
  imports Tasking Vas_Ranges C_Memory
begin

text \<open>
  The program break (\<^verbatim>\<open>sbrk\<close> of \<^verbatim>\<open>kernel/kernel/multitasking/tasks/task_small.c\<close>) over the task that runs, the table of
  ranges of the active address space and that address space's memory. \<open>junk\<close> is what freshly mapped pages contain.
\<close>

definition PAGE_SIZE :: u64 where "PAGE_SIZE = 0x1000"

text \<open>The result is the old break, or 0 (NULL) when the break is lowered.\<close>

definition sbrk ::
  "mem \<Rightarrow> nat \<Rightarrow> int \<Rightarrow> vas_state \<times> mem \<Rightarrow> 'z tasking_sys_scheme \<Rightarrow> (u64 \<times> (vas_state \<times> mem) \<times> 'z tasking_sys_scheme) res" where
  "sbrk junk c increment space s =
     ebind (ebind (tasking_get_current_task c s) deref) (\<lambda>current.
     ebind (load (sys_tasks s) current) (\<lambda>t.
     if increment < 0
     then let brk = t_sbrk_current_break t - word_of_int increment in
          ebind (upd_task current (t_sbrk_current_break_update (\<lambda>_. brk)) s) (\<lambda>s.
          ebind (kassert (brk \<ge> t_sbrk_base t) ''Underflow brk region'') (\<lambda>_. Inr (0, space, s)))
     else if increment = 0 then Inr (t_sbrk_current_break t, space, s)
     else
       let brk = t_sbrk_current_break t;
           head = t_sbrk_current_page_head t;
           new_high = brk + word_of_int increment;
           needed_pages = (new_high - head + (PAGE_SIZE - 1)) div PAGE_SIZE;
           (v, m) = space
       in ebind (if new_high > head
                 then ebind (vas_alloc_range (unat head) (unat (needed_pages * PAGE_SIZE)) v) (\<lambda>(addr, v).
                      ebind (kassert (addr = unat head) ''sbrk fail'') (\<lambda>_.
                      Inr (head + needed_pages * PAGE_SIZE, v,
                        \<lambda>x. if unat head \<le> x \<and> x < unat head + unat (needed_pages * PAGE_SIZE) then junk x else m x)))
                 else Inr (head, v, m)) (\<lambda>(head', v, m).
          ebind (upd_task current (\<lambda>t. t\<lparr>t_sbrk_current_page_head := head', t_sbrk_current_break := brk + word_of_int increment\<rparr>) s) (\<lambda>s.
          Inr (brk, (v, memset (unat brk) 0 (nat increment) m), s)))))"

subsection \<open>Pages\<close>

lemma round_up_pages:
  fixes x :: u64
  assumes "unat x + 4095 < 2 ^ 64"
  shows "unat ((x + (PAGE_SIZE - 1)) div PAGE_SIZE * PAGE_SIZE) = (unat x + 4095) div 4096 * 4096"
proof -
  have "unat (x + 4095) = unat x + 4095"
    using assms by (subst unat_add_lem [THEN iffD1]) simp_all
  then have d: "unat ((x + 4095) div 4096) = (unat x + 4095) div 4096"
    by (simp add: unat_div_distrib)
  moreover have "(unat x + 4095) div 4096 * 4096 < 2 ^ 64" using assms by (simp add: div_times_less_eq_dividend le_less_trans)
  ultimately have "unat ((x + 4095) div 4096 * 4096) = (unat x + 4095) div 4096 * 4096"
    by (subst unat_mult_lem [THEN iffD1]) simp_all
  then show ?thesis by (simp add: PAGE_SIZE_def)
qed

lemma unat_add_int:
  fixes x :: u64
  assumes "0 \<le> n" and "unat x + nat n < 2 ^ 64"
  shows "unat (x + word_of_int n) = unat x + nat n"
proof -
  have "nat n < 2 ^ 64" using assms(2) by linarith
  then have "n < 2 ^ 64" using assms(1) by (simp add: nat_less_iff)
  then have "uint (word_of_int n :: u64) = n"
    using assms(1) by (simp add: uint_word_of_int take_bit_int_eq_self mod_pos_pos_trivial)
  then have "unat (word_of_int n :: u64) = nat n" by (simp only: unat_eq_nat_uint)
  then show ?thesis using assms(2) unat_add_lem [of x "word_of_int n"] by simp
qed

lemma page_head_grows:
  fixes head new :: u64
  assumes "head < new" and "unat new + 4096 \<le> 2 ^ 64"
  defines "head' \<equiv> head + (new - head + (PAGE_SIZE - 1)) div PAGE_SIZE * PAGE_SIZE"
  shows "\<exists>k. unat head' = unat head + k * 4096" and "unat new \<le> unat head'" and "unat head' < unat new + 4096"
proof -
  let ?need = "(new - head + (PAGE_SIZE - 1)) div PAGE_SIZE * PAGE_SIZE" and ?gap = "unat new - unat head"
  have lt: "unat head < unat new" using assms(1) by (simp add: word_less_nat_alt)
  then have diff: "unat (new - head) = ?gap" by (simp add: unat_sub_if_size)
  have need: "unat ?need = (?gap + 4095) div 4096 * 4096"
    using assms(2) diff by (subst round_up_pages) simp_all
  have r: "?gap \<le> (?gap + 4095) div 4096 * 4096" "(?gap + 4095) div 4096 * 4096 < ?gap + 4096" by linarith+
  then have "unat head + unat ?need < 2 ^ 64" using need assms(2) lt by linarith
  then have h: "unat head' = unat head + unat ?need"
    unfolding head'_def by (intro unat_add_lem [THEN iffD1]) simp
  show "\<exists>k. unat head' = unat head + k * 4096" unfolding h need by blast
  show "unat new \<le> unat head'" "unat head' < unat new + 4096" using h need r lt by linarith+
qed

text \<open>Nothing of the address space lies between the page head and one page above the new break.\<close>

definition room_above :: "vas_state \<Rightarrow> nat \<Rightarrow> nat \<Rightarrow> bool" where
  "room_above v head limit \<longleftrightarrow> length (vs_ranges v) < vs_max_range_count v
     \<and> (\<forall>r \<in> set (vs_ranges v). vr_start r + vr_size r \<le> head \<or> limit + page_size \<le> vr_start r)"

lemma select_pass_none:
  "(\<And>r. r \<in> set rs \<Longrightarrow> \<not> (vr_start r \<le> w64 (chosen + sz) \<and> chosen < range_end r)) \<Longrightarrow> select_pass sz rs (chosen, c) = (chosen, c)"
  by (induction rs) auto

lemma alloc_at_head:
  assumes "vas_ok lim v" and "room_above v head limit" and "page_size dvd head" and "page_size dvd need"
    and "head + need < limit + page_size" and "limit + page_size \<le> lim"
  shows "\<exists>v'. vas_alloc_range head need v = Inr (head, v') \<and> vas_ok lim v'
    \<and> (\<forall>x. claims (vs_ranges v') x = claims (vs_ranges v) x + of_bool (head \<le> x \<and> x < head + need))"
proof -
  have lim: "lim < 2 ^ 64" "page_size \<le> lim" using assms(1,6) by (auto simp: vas_ok_def)
  obtain k where "need = 4096 * k" using assms(4) by (auto simp: page_size_def)
  then have "need + page_size \<le> 2 ^ 64" using assms(5,6) lim by (simp add: page_size_def)
  then have al: "page_align need = need" by (rule page_align_id [OF assms(4)])
  have "\<not> (vr_start r \<le> w64 (head + need) \<and> head < range_end r)" if "r \<in> set (vs_ranges v)" for r
  proof -
    have "w64 (head + need) = head + need" using assms(5,6) lim by simp
    moreover have "range_end r \<le> vr_start r + vr_size r" by (simp add: range_end_def w64_def)
    ultimately show ?thesis using assms(2,5) that by (fastforce simp: room_above_def)
  qed
  then have "select_virtual_address v head need = head"
    unfolding select_virtual_address_def by (subst select_from.simps) (simp add: select_pass_none)
  moreover obtain v' where "vas_add_range head need v = Inr v'"
    using assms(2) by (auto simp: vas_add_range_def room_above_def)
  ultimately have v': "vas_alloc_range head need v = Inr (head, v')"
    using assms(3) al by (simp add: vas_alloc_range_def page_size_def)
  moreover have "head + page_align need \<le> lim" using assms(5,6) al by simp
  ultimately show ?thesis using vas_alloc_range_ok [OF assms(1) v'] al by auto
qed

subsection \<open>Raising the break\<close>

text \<open>
  C9. \<^verbatim>\<open>sbrk\<close> with a positive increment, when nothing else is mapped up to a page above the new break, returns
  the old break and raises the break by exactly the increment. The bytes between the old break and the new one
  are zero. While the break fits below the page head no page is mapped; otherwise the page head moves up by
  whole pages, by less than a page more than needed, and exactly the addresses it passes are claimed in the
  table of ranges, which stays well formed. No other byte changes.
\<close>

theorem sbrk_raises_break:
  assumes "tasking_get_current_task c s = Inr (Some cur)" and "sys_tasks s cur = Some t" and "0 < n" and "n < 2 ^ 31"
    and "brk = unat (t_sbrk_current_break t)" and "head = unat (t_sbrk_current_page_head t)"
    and "brk \<le> head" and "page_size dvd head" and "vas_ok lim v" and "brk + nat n + page_size \<le> lim"
    and "head < brk + nat n \<longrightarrow> room_above v head (brk + nat n)"
  shows "\<exists>head' v' m' s' t'. sbrk junk c n (v, m) s = Inr (t_sbrk_current_break t, (v', m'), s')
    \<and> sys_tasks s' = (sys_tasks s)(cur \<mapsto> t') \<and> unat (t_sbrk_current_break t') = brk + nat n
    \<and> unat (t_sbrk_current_page_head t') = head' \<and> brk + nat n \<le> head' \<and> page_size dvd head'
    \<and> (if brk + nat n \<le> head then head' = head else head' < brk + nat n + page_size)
    \<and> vas_ok lim v' \<and> (\<forall>x. claims (vs_ranges v') x = claims (vs_ranges v) x + of_bool (head \<le> x \<and> x < head'))
    \<and> (\<forall>x. m' x = (if brk \<le> x \<and> x < brk + nat n then 0 else if head \<le> x \<and> x < head' then junk x else m x))"
proof -
  define b h new where "b = t_sbrk_current_break t" and "h = t_sbrk_current_page_head t" and "new = b + word_of_int n"
  have bh: "brk = unat b" "head = unat h" using assms(5,6) by (simp_all add: b_def h_def)
  have lim: "lim < 2 ^ 64" using assms(9) by (simp add: vas_ok_def)
  have new: "unat new = brk + nat n"
    unfolding new_def bh(1) by (rule unat_add_int) (use assms(3,10) lim bh in simp_all)
  let ?t' = "\<lambda>h'. t\<lparr>t_sbrk_current_page_head := h', t_sbrk_current_break := new\<rparr>"
  have zero: "memset brk 0 (nat n) m' = filled brk (nat n) 0 m'" for m'
    using memset_fills [of "nat n" brk 0 m'] assms(4) by (simp add: nat_less_iff)
  show ?thesis
  proof (cases "new > h")
    case False
    then have fits: "brk + nat n \<le> head" using new by (simp add: bh word_less_nat_alt)
    have "sbrk junk c n (v, m) s = Inr (b, (v, memset brk 0 (nat n) m), s\<lparr>sys_tasks := (sys_tasks s)(cur \<mapsto> ?t' h)\<rparr>)"
      using assms(1-3) False by (simp add: sbrk_def upd_task_ok Let_def b_def h_def new_def bh)
    then show ?thesis
      using new fits assms(8,9) zero by (intro exI [of _ head] exI [of _ v] exI) (auto simp: b_def bh filled_def)
  next
    case True
    define need where "need = (new - h + (PAGE_SIZE - 1)) div PAGE_SIZE * PAGE_SIZE"
    have small: "unat new + 4096 \<le> 2 ^ 64" using new assms(10) lim by (simp add: page_size_def)
    note g = page_head_grows [OF True small, folded need_def]
    obtain k where k: "unat (h + need) = head + k * 4096" using g(1) bh by auto
    have nfits: "head < brk + nat n" using True new by (simp add: bh word_less_nat_alt)
    have "unat need = k * 4096"
    proof -
      have "need = (h + need) - h" by simp
      then show ?thesis using k bh by (metis diff_add_inverse le_add1 unat_sub word_le_nat_alt)
    qed
    then have need: "page_size dvd unat need" "unat (h + need) = head + unat need" using k by (simp_all add: page_size_def)
    have "head + unat need < brk + nat n + page_size" using g(3) need(2) new by (simp add: page_size_def)
    then obtain v' where v': "vas_alloc_range head (unat need) v = Inr (head, v')" "vas_ok lim v'"
        "\<forall>x. claims (vs_ranges v') x = claims (vs_ranges v) x + of_bool (head \<le> x \<and> x < head + unat need)"
      using alloc_at_head [OF assms(9) _ assms(8) need(1) _ assms(10)] assms(11) nfits by auto
    let ?m = "\<lambda>x. if head \<le> x \<and> x < head + unat need then junk x else m x"
    have "sbrk junk c n (v, m) s =
        Inr (b, (v', memset brk 0 (nat n) ?m), s\<lparr>sys_tasks := (sys_tasks s)(cur \<mapsto> ?t' (h + need))\<rparr>)"
      using assms(1-3) True v'(1) by (simp add: sbrk_def upd_task_ok Let_def b_def h_def new_def need_def bh)
    moreover have "brk + nat n \<le> head + unat need" "page_size dvd head + unat need"
      using g(2) need new assms(8) by simp_all
    ultimately show ?thesis
      using new nfits v'(2,3) need(2) g(3) zero
      by (intro exI [of _ "head + unat need"] exI [of _ v'] exI) (auto simp: b_def filled_def page_size_def)
  qed
qed

text \<open>
  \<^verbatim>\<open>sbrk\<close> with a negative increment, meant to give memory back, raises the break by the amount
  (it subtracts the negative number), so its underflow assertion cannot fail.
\<close>

lemma sbrk_negative_raises_break:
  assumes "tasking_get_current_task c s = Inr (Some cur)" and "sys_tasks s cur = Some t" and "n < 0"
    and "t_sbrk_base t \<le> t_sbrk_current_break t" and "unat (t_sbrk_current_break t) + nat (- n) < 2 ^ 64"
  shows "\<exists>s' t'. sbrk junk c n space s = Inr (0, space, s') \<and> sys_tasks s' = (sys_tasks s)(cur \<mapsto> t')
    \<and> unat (t_sbrk_current_break t') = unat (t_sbrk_current_break t) + nat (- n)"
proof -
  have brk: "unat (t_sbrk_current_break t - word_of_int n) = unat (t_sbrk_current_break t) + nat (- n)"
    using unat_add_int [of "- n" "t_sbrk_current_break t"] assms(3,5) by simp
  then have "t_sbrk_base t \<le> t_sbrk_current_break t - word_of_int n"
    using assms(4) by (simp add: word_le_nat_alt)
  then show ?thesis
    using assms(1-3) brk
    by (intro exI [of _ "s\<lparr>sys_tasks := (sys_tasks s)(cur \<mapsto>
          t\<lparr>t_sbrk_current_break := t_sbrk_current_break t - word_of_int n\<rparr>)\<rparr>"]
        exI [of _ "t\<lparr>t_sbrk_current_break := t_sbrk_current_break t - word_of_int n\<rparr>"])
      (simp add: sbrk_def upd_task_ok Let_def)
qed


text \<open>A task that asks for five bytes at the beginning of its heap, above nothing but a page of code.\<close>

theorem sbrk_raises_break_witness:
  "\<exists>v' m' s' t'. sbrk (\<lambda>_. 7) 0 5 (\<lparr>vs_max_range_count = 255, vs_ranges = [\<lparr>vr_start = 0, vr_size = 0x1000\<rparr>]\<rparr>, \<lambda>_. 1) demo_smp
       = Inr (0x1000, (v', m'), s') \<and> sys_tasks s' 1 = Some t' \<and> unat (t_sbrk_current_break t') = 4101
     \<and> claims (vs_ranges v') 0x1FFF = 1 \<and> m' 0x1004 = 0 \<and> m' 0x1005 = 7"
proof -
  let ?v = "\<lparr>vs_max_range_count = 255, vs_ranges = [\<lparr>vr_start = 0, vr_size = 0x1000\<rparr>]\<rparr>"
  have t: "sys_tasks demo_smp 1 = Some (demo_task 1 RUNNABLE True)" by (simp add: demo_smp_def)
  have v: "vas_ok 0x10000 ?v" by (auto simp: vas_ok_def bounded_def page_size_def covers_def)
  have b: "0x1000 = unat (t_sbrk_current_break (demo_task 1 RUNNABLE True))"
    "0x1000 = unat (t_sbrk_current_page_head (demo_task 1 RUNNABLE True))" "t_sbrk_current_break (demo_task 1 RUNNABLE True) = 0x1000"
    by (simp_all add: demo_task_def)
  have "room_above ?v 0x1000 (0x1000 + nat 5)" by (simp add: room_above_def page_size_def)
  then obtain head' v' m' s' t' where r: "sbrk (\<lambda>_. 7) 0 5 (?v, \<lambda>_. 1) demo_smp = Inr (0x1000, (v', m'), s')"
      "sys_tasks s' = (sys_tasks demo_smp)(1 \<mapsto> t')" "unat (t_sbrk_current_break t') = 0x1000 + nat 5"
      "0x1000 + nat 5 \<le> head'" "page_size dvd head'"
      "\<forall>x. claims (vs_ranges v') x = claims (vs_ranges ?v) x + of_bool (0x1000 \<le> x \<and> x < head')"
      "\<forall>x. m' x = (if 0x1000 \<le> x \<and> x < 0x1000 + nat 5 then 0 else if 0x1000 \<le> x \<and> x < head' then 7 else 1)"
    using sbrk_raises_break [OF demo_current t _ _ b(1,2) _ _ v, of 5 "\<lambda>_. 7" "\<lambda>_. 1"] unfolding b(3)
    by (auto simp: page_size_def)
  obtain k where "head' = page_size * k" using r(5) by blast
  then have "0x2000 \<le> head'" using r(4) by (cases "k \<le> 1") (auto simp: page_size_def)
  then show ?thesis using r by (intro exI [of _ v'] exI [of _ m'] exI [of _ s'] exI [of _ t']) (auto simp: covers_def)
qed

end
