(* ===== verification/Kheap.thy ===== *)
theory Kheap
  imports C_Memory Vas_Ranges "HOL-Library.Monad_Syntax"
begin

text \<open>
  The kernel heap (\<^verbatim>\<open>kernel/std/kheap.c\<close>) on a memory of bytes. Blocks of pages ("majors") are linked into a
  list, and each holds the list of its allocations ("minors") in the order of their addresses; the
  headers of both live in the memory they describe. Headers are read and written field by field at their
  offsets, pointers and sizes wrap at the width the code gives them, and the walks along the lists are
  partial functions: on a corrupted list they need not return, and their results are
  \<open>None\<close> then. \<^verbatim>\<open>kmalloc\<close> and \<^verbatim>\<open>kfree\<close> hold the heap's lock while they touch the lists, so each is one step here;
  \<^verbatim>\<open>krealloc\<close> and \<^verbatim>\<open>kcalloc\<close> are composed of them and touch only the caller's own blocks in between.
  New pages come from the table of ranges of the kernel's address space; \<open>junk\<close> is what they contain.
\<close>

subsection \<open>Numbers in memory\<close>

fun rd :: "nat \<Rightarrow> mem \<Rightarrow> nat \<Rightarrow> nat" where
  "rd 0 m a = 0"
| "rd (Suc n) m a = unat (m a) + 256 * rd n m (a + 1)"

fun wr :: "nat \<Rightarrow> nat \<Rightarrow> nat \<Rightarrow> mem \<Rightarrow> mem" where
  "wr 0 a v m = m"
| "wr (Suc n) a v m = wr n (a + 1) (v div 256) (m(a := of_nat v))"

definition w32 :: "nat \<Rightarrow> nat" where
  "w32 n = n mod 2 ^ 32"

definition sub32 :: "nat \<Rightarrow> nat \<Rightarrow> nat" where
  "sub32 a b = w32 (a + 2 ^ 32 - w32 b)"

subsection \<open>Headers\<close>

record liballoc_major =
  mj_prev :: nat
  mj_next :: nat
  mj_pages :: nat
  mj_size :: nat
  mj_usage :: nat
  mj_first :: nat

record liballoc_minor =
  mi_prev :: nat
  mi_next :: nat
  mi_block :: nat
  mi_magic :: nat
  mi_size :: nat
  mi_req_size :: nat

definition major_at :: "mem \<Rightarrow> nat \<Rightarrow> liballoc_major" where
  "major_at m p = \<lparr>mj_prev = rd 8 m p, mj_next = rd 8 m (p + 8), mj_pages = rd 4 m (p + 16),
     mj_size = rd 4 m (p + 20), mj_usage = rd 4 m (p + 24), mj_first = rd 8 m (p + 32)\<rparr>"

definition put_major :: "nat \<Rightarrow> liballoc_major \<Rightarrow> mem \<Rightarrow> mem" where
  "put_major p j m = wr 8 (p + 32) (mj_first j) (wr 4 (p + 24) (mj_usage j) (wr 4 (p + 20) (mj_size j)
     (wr 4 (p + 16) (mj_pages j) (wr 8 (p + 8) (mj_next j) (wr 8 p (mj_prev j) m)))))"

definition minor_at :: "mem \<Rightarrow> nat \<Rightarrow> liballoc_minor" where
  "minor_at m p = \<lparr>mi_prev = rd 8 m p, mi_next = rd 8 m (p + 8), mi_block = rd 8 m (p + 16),
     mi_magic = rd 4 m (p + 24), mi_size = rd 4 m (p + 28), mi_req_size = rd 4 m (p + 32)\<rparr>"

definition put_minor :: "nat \<Rightarrow> liballoc_minor \<Rightarrow> mem \<Rightarrow> mem" where
  "put_minor p k m = wr 4 (p + 32) (mi_req_size k) (wr 4 (p + 28) (mi_size k) (wr 4 (p + 24) (mi_magic k)
     (wr 8 (p + 16) (mi_block k) (wr 8 (p + 8) (mi_next k) (wr 8 p (mi_prev k) m)))))"

definition upd_major :: "nat \<Rightarrow> (liballoc_major \<Rightarrow> liballoc_major) \<Rightarrow> mem \<Rightarrow> mem" where
  "upd_major p f m = put_major p (f (major_at m p)) m"

definition upd_minor :: "nat \<Rightarrow> (liballoc_minor \<Rightarrow> liballoc_minor) \<Rightarrow> mem \<Rightarrow> mem" where
  "upd_minor p f m = put_minor p (f (minor_at m p)) m"

text \<open>\<^verbatim>\<open>sizeof(struct liballoc_major)\<close> and \<^verbatim>\<open>sizeof(struct liballoc_minor)\<close>, both with four bytes of padding.\<close>

abbreviation header :: nat where "header \<equiv> 40"

definition LIBALLOC_MAGIC :: nat where "LIBALLOC_MAGIC = 0xc001c0de"
definition LIBALLOC_DEAD :: nat where "LIBALLOC_DEAD = 0xdeaddead"

subsection \<open>The state\<close>

record kheap =
  kh_mem :: mem
  kh_memRoot :: nat
  kh_bestBet :: nat
  kh_allocated :: nat
  kh_inuse :: nat
  kh_warningCount :: int
  kh_errorCount :: int
  kh_possibleOverruns :: int
  kh_vas :: vas_state

definition l_pageSize :: nat where "l_pageSize = 4096"
definition l_pageCount :: nat where "l_pageCount = 16"

definition ALIGNMENT :: nat where "ALIGNMENT = 16"
definition ALIGN_INFO :: nat where "ALIGN_INFO = 16"

text \<open>The macro \<^verbatim>\<open>ALIGN\<close>: the aligned pointer, and the byte below it that says how far it was moved.\<close>

definition align_ptr :: "nat \<Rightarrow> nat" where
  "align_ptr ptr = (let ptr = w64 (ptr + ALIGN_INFO); diff = ptr mod ALIGNMENT in
     if diff \<noteq> 0 then w64 (ptr + (ALIGNMENT - diff)) else ptr)"

definition align_store :: "nat \<Rightarrow> mem \<Rightarrow> mem" where
  "align_store ptr m = (let diff = w64 (ptr + ALIGN_INFO) mod ALIGNMENT;
     diff = (if diff \<noteq> 0 then ALIGNMENT - diff else 0) in
     m(sub64 (align_ptr ptr) ALIGN_INFO := of_nat (diff + ALIGN_INFO)))"

text \<open>The macro \<^verbatim>\<open>UNALIGN\<close>: the byte is a signed character.\<close>

definition unalign :: "mem \<Rightarrow> nat \<Rightarrow> nat" where
  "unalign m ptr = (let b = unat (m (sub64 ptr ALIGN_INFO));
     diff = (if b < 128 then b else sub64 b 256) in
     if diff < ALIGNMENT + ALIGN_INFO then sub64 ptr diff else ptr)"

subsection \<open>Pages\<close>

definition liballoc_alloc :: "mem \<Rightarrow> nat \<Rightarrow> kheap \<Rightarrow> (nat \<times> kheap) res" where
  "liballoc_alloc junk page_count s =
     ebind (vas_alloc_range kernel_heap_base (page_count * page_size) (kh_vas s)) (\<lambda>(start, v).
     Inr (start, s\<lparr>kh_vas := v,
       kh_mem := (\<lambda>x. if start \<le> x \<and> x < start + page_count * page_size then junk x else kh_mem s x)\<rparr>))"

definition liballoc_free :: "nat \<Rightarrow> nat \<Rightarrow> kheap \<Rightarrow> kheap res" where
  "liballoc_free ptr page_count s =
     ebind (vas_free_range ptr (page_count * page_size) (kh_vas s)) (\<lambda>v. Inr (s\<lparr>kh_vas := v\<rparr>))"

definition pages_for :: "nat \<Rightarrow> nat" where
  "pages_for sz =
     (let st = w32 (w32 (sz + header) + header);
          st = (if st mod l_pageSize = 0 then st div l_pageSize else st div l_pageSize + 1)
      in if st < l_pageCount then l_pageCount else st)"

definition allocate_new_page :: "mem \<Rightarrow> nat \<Rightarrow> kheap \<Rightarrow> (nat \<times> kheap) res" where
  "allocate_new_page junk sz s =
     (let st = pages_for (w32 sz) in
      ebind (liballoc_alloc junk st s) (\<lambda>(maj, s).
      if maj = 0 then Inr (0, s\<lparr>kh_warningCount := kh_warningCount s + 1\<rparr>)
      else Inr (maj, s\<lparr>kh_mem := put_major maj \<lparr>mj_prev = 0, mj_next = 0, mj_pages = st, mj_size = w32 (st * l_pageSize),
             mj_usage = header, mj_first = 0\<rparr> (kh_mem s),
           kh_allocated := w64 (kh_allocated s + w32 (st * l_pageSize))\<rparr>)))"

subsection \<open>Allocating\<close>

text \<open>
  What the cases 2, 3, 4.1 and 4.2 have in common: a new minor at \<open>a\<close> between \<open>prv\<close> and \<open>nxt\<close>, either of
  which may be missing.
\<close>

definition insert_minor :: "nat \<Rightarrow> nat \<Rightarrow> nat \<Rightarrow> nat \<Rightarrow> nat \<Rightarrow> nat \<Rightarrow> mem \<Rightarrow> mem" where
  "insert_minor maj prv nxt a req_size sz m =
     (let m = (if prv = 0 then upd_major maj (mj_first_update (\<lambda>_. a)) m else upd_minor prv (mi_next_update (\<lambda>_. a)) m);
          m = (if nxt = 0 then m else upd_minor nxt (mi_prev_update (\<lambda>_. a)) m);
          m = put_minor a \<lparr>mi_prev = prv, mi_next = nxt, mi_block = maj, mi_magic = LIBALLOC_MAGIC,
                mi_size = w32 sz, mi_req_size = w32 req_size\<rparr> m;
          m = upd_major maj (mj_usage_update (\<lambda>u. w32 (u + sz + header))) m
      in align_store (w64 (a + header)) m)"

definition place :: "nat \<Rightarrow> nat \<Rightarrow> nat \<Rightarrow> nat \<Rightarrow> nat \<Rightarrow> nat \<Rightarrow> kheap \<Rightarrow> nat \<times> kheap" where
  "place maj prv nxt a req_size sz s =
     (align_ptr (w64 (a + header)),
      s\<lparr>kh_mem := insert_minor maj prv nxt a req_size sz (kh_mem s), kh_inuse := w64 (kh_inuse s + sz)\<rparr>)"

text \<open>Cases 4.1 and 4.2: the first minor that is followed by enough space.\<close>

definition gap_after :: "mem \<Rightarrow> nat \<Rightarrow> nat \<Rightarrow> nat \<Rightarrow> bool" where
  "gap_after m maj sz mn =
     (let k = minor_at m mn;
          upto = (if mi_next k = 0 then w64 (maj + mj_size (major_at m maj)) else mi_next k);
          diff = sub64 (sub64 (sub64 upto mn) header) (mi_size k)
      in diff \<ge> w64 (sz + header))"

partial_function (option) min_scan :: "mem \<Rightarrow> nat \<Rightarrow> nat \<Rightarrow> nat \<Rightarrow> nat option option" where
  "min_scan m maj sz mn =
     (if mn = 0 then Some None
      else if gap_after m maj sz mn then Some (Some mn)
      else min_scan m maj sz (mi_next (minor_at m mn)))"

datatype 'a loop = Stop 'a | Go nat bool nat kheap

text \<open>A new major behind the last one, or the end of the search when there is no memory.\<close>

definition append_page :: "mem \<Rightarrow> nat \<Rightarrow> nat \<Rightarrow> kheap \<Rightarrow> (nat \<times> kheap) res" where
  "append_page junk maj sz s =
     ebind (allocate_new_page junk sz s) (\<lambda>(p, s).
     let s = s\<lparr>kh_mem := upd_major maj (mj_next_update (\<lambda>_. p)) (kh_mem s)\<rparr> in
     if p = 0 then Inr (0, s)
     else Inr (p, s\<lparr>kh_mem := upd_major p (mj_prev_update (\<lambda>_. maj)) (kh_mem s)\<rparr>))"

definition use_major :: "mem \<Rightarrow> nat \<Rightarrow> nat \<Rightarrow> nat \<Rightarrow> bool \<Rightarrow> nat \<Rightarrow> kheap \<Rightarrow> (nat \<times> kheap) loop res option" where
  "use_major junk req_size sz maj startedBet bestSize s =
     (let m = kh_mem s; j = major_at m maj; top = w64 (maj + header) in
      if mj_first j = 0 then Some (Inr (Stop (place maj 0 0 top req_size sz s)))
      else if sub64 (sub64 (mj_first j) maj) header \<ge> w64 (sz + header)
      then Some (Inr (Stop (place maj 0 (mj_first j) top req_size sz s)))
      else
        do {
          found \<leftarrow> min_scan m maj sz (mj_first j);
          case found of
            Some mn \<Rightarrow>
              let k = minor_at m mn in
              Some (Inr (Stop (place maj mn (mi_next k) (w64 (w64 (mn + header) + mi_size k)) req_size sz s)))
          | None \<Rightarrow>
              if mj_next j \<noteq> 0 then Some (Inr (Go (mj_next j) startedBet bestSize s))
              else if startedBet then Some (Inr (Go (kh_memRoot s) False bestSize s))
              else Some (ebind (append_page junk maj sz s) (\<lambda>(p, s).
                if p = 0 then Inr (Stop (0, s)) else Inr (Go p startedBet bestSize s)))
        })"

definition maj_step :: "mem \<Rightarrow> nat \<Rightarrow> nat \<Rightarrow> nat \<Rightarrow> bool \<Rightarrow> nat \<Rightarrow> kheap \<Rightarrow> (nat \<times> kheap) loop res option" where
  "maj_step junk req_size sz maj startedBet bestSize s =
     (let j = major_at (kh_mem s) maj;
          diff = sub32 (mj_size j) (mj_usage j);
          s = (if bestSize < diff then s\<lparr>kh_bestBet := maj\<rparr> else s);
          bestSize = max bestSize diff
      in if diff < w64 (sz + header)
         then if mj_next j \<noteq> 0 then Some (Inr (Go (mj_next j) startedBet bestSize s))
              else if startedBet then Some (Inr (Go (kh_memRoot s) False bestSize s))
              else (case append_page junk maj sz s of
                      Inl e \<Rightarrow> Some (Inl e)
                    | Inr (p, s) \<Rightarrow> if p = 0 then Some (Inr (Stop (0, s))) else use_major junk req_size sz p startedBet bestSize s)
         else use_major junk req_size sz maj startedBet bestSize s)"

partial_function (option) maj_loop :: "mem \<Rightarrow> nat \<Rightarrow> nat \<Rightarrow> nat \<Rightarrow> bool \<Rightarrow> nat \<Rightarrow> kheap \<Rightarrow> (nat \<times> kheap) res option" where
  "maj_loop junk req_size sz maj startedBet bestSize s =
     (if maj = 0 then Some (Inr (0, s))
      else Option.bind (maj_step junk req_size sz maj startedBet bestSize s) (\<lambda>r.
        (case r of
           Inl e \<Rightarrow> Some (Inl e)
         | Inr (Stop x) \<Rightarrow> Some (Inr x)
         | Inr (Go maj startedBet bestSize s) \<Rightarrow> maj_loop junk req_size sz maj startedBet bestSize s)))"

definition malloc_search :: "mem \<Rightarrow> nat \<Rightarrow> nat \<Rightarrow> kheap \<Rightarrow> (nat \<times> kheap) res option" where
  "malloc_search junk req_size sz s =
     (let best = major_at (kh_mem s) (kh_bestBet s); free = sub32 (mj_size best) (mj_usage best) in
      if kh_bestBet s = 0 then maj_loop junk req_size sz (kh_memRoot s) False 0 s
      else if free > w64 (sz + header) then maj_loop junk req_size sz (kh_bestBet s) True free s
      else maj_loop junk req_size sz (kh_memRoot s) False free s)"

definition malloc_sized :: "mem \<Rightarrow> nat \<Rightarrow> nat \<Rightarrow> kheap \<Rightarrow> (nat \<times> kheap) res option" where
  "malloc_sized junk req_size sz s =
     (if kh_memRoot s = 0
      then case allocate_new_page junk sz s of
             Inl e \<Rightarrow> Some (Inl e)
           | Inr (p, s) \<Rightarrow>
               let s = s\<lparr>kh_memRoot := p\<rparr> in
               if p = 0 then Some (Inr (0, s)) else malloc_search junk req_size sz s
      else malloc_search junk req_size sz s)"

text \<open>A request whose size wraps to 0 is counted and served as a request for one byte.\<close>

definition kmalloc :: "mem \<Rightarrow> nat \<Rightarrow> kheap \<Rightarrow> (nat \<times> kheap) res option" where
  "kmalloc junk req_size s =
     (let sz = w64 (req_size + ALIGNMENT + ALIGN_INFO) in
      if sz = 0
      then malloc_sized junk 1 (w64 (1 + ALIGNMENT + ALIGN_INFO)) (s\<lparr>kh_warningCount := kh_warningCount s + 1\<rparr>)
      else malloc_sized junk req_size sz s)"

subsection \<open>Freeing\<close>

definition count_bad_magic :: "nat \<Rightarrow> kheap \<Rightarrow> kheap" where
  "count_bad_magic magic s =
     (let s = s\<lparr>kh_errorCount := kh_errorCount s + 1\<rparr> in
      if magic mod 2 ^ 24 = LIBALLOC_MAGIC mod 2 ^ 24 \<or> magic mod 2 ^ 16 = LIBALLOC_MAGIC mod 2 ^ 16
         \<or> magic mod 2 ^ 8 = LIBALLOC_MAGIC mod 2 ^ 8
      then s\<lparr>kh_possibleOverruns := kh_possibleOverruns s + 1\<rparr> else s)"

definition unlink_minor :: "nat \<Rightarrow> nat \<Rightarrow> mem \<Rightarrow> mem" where
  "unlink_minor maj mn m =
     (let k = minor_at m mn;
          m = upd_major maj (mj_usage_update (\<lambda>u. sub32 u (mi_size k + header))) m;
          m = upd_minor mn (mi_magic_update (\<lambda>_. LIBALLOC_DEAD)) m;
          m = (if mi_next k \<noteq> 0 then upd_minor (mi_next k) (mi_prev_update (\<lambda>_. mi_prev k)) m else m)
      in if mi_prev k \<noteq> 0 then upd_minor (mi_prev k) (mi_next_update (\<lambda>_. mi_next k)) m
         else upd_major maj (mj_first_update (\<lambda>_. mi_next k)) m)"

text \<open>A block without allocations is taken out of the list and its pages are given back.\<close>

definition release_major :: "nat \<Rightarrow> kheap \<Rightarrow> kheap res" where
  "release_major maj s =
     (let j = major_at (kh_mem s) maj;
          s = (if kh_memRoot s = maj then s\<lparr>kh_memRoot := mj_next j\<rparr> else s);
          s = (if kh_bestBet s = maj then s\<lparr>kh_bestBet := 0\<rparr> else s);
          m = kh_mem s;
          m = (if mj_prev j \<noteq> 0 then upd_major (mj_prev j) (mj_next_update (\<lambda>_. mj_next j)) m else m);
          m = (if mj_next j \<noteq> 0 then upd_major (mj_next j) (mj_prev_update (\<lambda>_. mj_prev j)) m else m)
      in liballoc_free maj (mj_pages j)
           (s\<lparr>kh_mem := m, kh_allocated := sub64 (kh_allocated s) (mj_size j)\<rparr>))"

definition rebet :: "nat \<Rightarrow> kheap \<Rightarrow> kheap" where
  "rebet maj s =
     (let free = (\<lambda>p. let j = major_at (kh_mem s) p in c_int (sub32 (mj_size j) (mj_usage j))) in
      if kh_bestBet s \<noteq> 0 \<and> free maj > free (kh_bestBet s) then s\<lparr>kh_bestBet := maj\<rparr> else s)"

definition kfree :: "nat \<Rightarrow> kheap \<Rightarrow> kheap res" where
  "kfree ptr s =
     (if ptr = 0 then Inr (s\<lparr>kh_warningCount := kh_warningCount s + 1\<rparr>)
      else
        let mn = sub64 (unalign (kh_mem s) ptr) header; k = minor_at (kh_mem s) mn in
        if mi_magic k \<noteq> LIBALLOC_MAGIC then Inr (count_bad_magic (mi_magic k) s)
        else
          let maj = mi_block k;
              s = s\<lparr>kh_inuse := sub64 (kh_inuse s) (mi_size k), kh_mem := unlink_minor maj mn (kh_mem s)\<rparr>
          in if mj_first (major_at (kh_mem s) maj) = 0 then release_major maj s else Inr (rebet maj s))"

subsection \<open>The other entry points\<close>

text \<open>\<^verbatim>\<open>liballoc_memcpy\<close>: the loop over bytes and the \<^verbatim>\<open>return\<close> stand inside the loop over words, so one word
  is copied and then the rest byte by byte, and fewer than four bytes are not copied at all.\<close>

definition liballoc_memcpy :: "nat \<Rightarrow> nat \<Rightarrow> nat \<Rightarrow> mem \<Rightarrow> mem" where
  "liballoc_memcpy s1 s2 n m =
     (if n \<ge> 4 then rep_movsb (n - 4) (s1 + 4) (s2 + 4) (write32 s1 (read32 m s2) m) else m)"

text \<open>The product is narrowed to an \<^verbatim>\<open>int\<close>; a negative length never lets the filling loop end, whose counter
  is an \<^verbatim>\<open>unsigned int\<close>.\<close>

definition kcalloc :: "mem \<Rightarrow> nat \<Rightarrow> nat \<Rightarrow> kheap \<Rightarrow> (nat \<times> kheap) res option" where
  "kcalloc junk nobj sz s =
     (let real_size = nat (c_int (w64 (nobj * sz)) mod 2 ^ 64) in
      Option.bind (kmalloc junk real_size s) (\<lambda>r.
      case r of
        Inl e \<Rightarrow> Some (Inl e)
      | Inr (p, s) \<Rightarrow>
          if real_size = 0 then Some (Inr (p, s))
          else if p = 0 then Some (Inl NullDeref)
          else if real_size \<ge> 2 ^ 32 then None
          else Some (Inr (p, s\<lparr>kh_mem := set_bytes real_size p 0 (kh_mem s)\<rparr>))))"

definition krealloc :: "mem \<Rightarrow> nat \<Rightarrow> nat \<Rightarrow> kheap \<Rightarrow> (nat \<times> kheap) res option" where
  "krealloc junk p sz s =
     (if sz = 0 then Some (ebind (kfree p s) (\<lambda>s. Inr (0, s)))
      else if p = 0 then kmalloc junk sz s
      else
        let mn = sub64 (unalign (kh_mem s) p) header; k = minor_at (kh_mem s) mn in
        if mi_magic k \<noteq> LIBALLOC_MAGIC then Some (Inr (0, count_bad_magic (mi_magic k) s))
        else if mi_req_size k \<ge> sz
        then Some (Inr (p, s\<lparr>kh_mem := upd_minor mn (mi_req_size_update (\<lambda>_. w32 sz)) (kh_mem s)\<rparr>))
        else Option.bind (kmalloc junk sz s) (\<lambda>r.
          case r of
            Inl e \<Rightarrow> Some (Inl e)
          | Inr (ptr, s) \<Rightarrow>
              if ptr = 0 \<and> mi_req_size k \<ge> 4 then Some (Inl NullDeref)
              else Some (ebind (kfree p (s\<lparr>kh_mem := liballoc_memcpy ptr p (mi_req_size k) (kh_mem s)\<rparr>)) (\<lambda>s. Inr (ptr, s)))))"

definition kheap_allocated_memory :: "kheap \<Rightarrow> nat" where
  "kheap_allocated_memory s = w32 (kh_inuse s)"

subsection \<open>Reading what was written\<close>

lemma rd_cong: "(\<And>x. a \<le> x \<Longrightarrow> x < a + n \<Longrightarrow> m x = m' x) \<Longrightarrow> rd n m a = rd n m' a"
  by (induction n arbitrary: a) auto

lemma wr_outside: "x < a \<or> a + n \<le> x \<Longrightarrow> wr n a v m x = m x"
  by (induction n arbitrary: a v m) auto

lemma rd_bound: "rd n m a < 256 ^ n"
proof (induction n arbitrary: a)
  case (Suc n)
  have "unat (m a) < 256" using unsigned_less [of "m a"] by simp
  then show ?case using Suc [of "a + 1"] by simp
qed simp

lemma rd_wr: "rd n (wr n a v m) a = v mod 256 ^ n"
proof (induction n arbitrary: a v m)
  case (Suc n)
  have "wr n (a + 1) (v div 256) (m(a := of_nat v)) a = of_nat v" by (simp add: wr_outside)
  moreover have "unat (of_nat v :: u8) = v mod 256" by (simp add: unat_of_nat)
  moreover have "v mod (256 * 256 ^ n) = v mod 256 + 256 * (v div 256 mod 256 ^ n)" by (simp add: mod_mult2_eq)
  ultimately show ?case using Suc [of "a + 1" "v div 256"] by simp
qed simp

lemma rd_wr_apart: "a + n \<le> b \<or> b + k \<le> a \<Longrightarrow> rd k (wr n a v m) b = rd k m b"
  by (rule rd_cong) (auto intro: wr_outside)

definition major_fits :: "liballoc_major \<Rightarrow> bool" where
  "major_fits j \<longleftrightarrow> mj_prev j < 2 ^ 64 \<and> mj_next j < 2 ^ 64 \<and> mj_pages j < 2 ^ 32 \<and> mj_size j < 2 ^ 32
     \<and> mj_usage j < 2 ^ 32 \<and> mj_first j < 2 ^ 64"

definition minor_fits :: "liballoc_minor \<Rightarrow> bool" where
  "minor_fits k \<longleftrightarrow> mi_prev k < 2 ^ 64 \<and> mi_next k < 2 ^ 64 \<and> mi_block k < 2 ^ 64 \<and> mi_magic k < 2 ^ 32
     \<and> mi_size k < 2 ^ 32 \<and> mi_req_size k < 2 ^ 32"

lemma major_at_put: "major_fits j \<Longrightarrow> major_at (put_major p j m) p = j"
  by (cases j) (simp add: major_at_def put_major_def major_fits_def rd_wr_apart rd_wr del: rd.simps wr.simps)

lemma minor_at_put: "minor_fits k \<Longrightarrow> minor_at (put_minor p k m) p = k"
  by (cases k) (simp add: minor_at_def put_minor_def minor_fits_def rd_wr_apart rd_wr del: rd.simps wr.simps)

lemma put_outside:
  assumes "x < p \<or> p + header \<le> x"
  shows "put_major p j m x = m x" "put_minor p k m x = m x"
  using assms by (auto simp: put_major_def put_minor_def wr_outside simp del: wr.simps)

lemma upd_outside:
  assumes "x < p \<or> p + header \<le> x"
  shows "upd_major p f m x = m x" "upd_minor p g m x = m x"
  using assms by (simp_all add: upd_major_def upd_minor_def put_outside)

lemma header_cong:
  assumes "\<And>x. p \<le> x \<Longrightarrow> x < p + header \<Longrightarrow> m x = m' x"
  shows "major_at m p = major_at m' p" "minor_at m p = minor_at m' p"
  using assms by (simp_all add: major_at_def minor_at_def rd_cong [of _ _ m m'] del: rd.simps)

lemma header_apart:
  assumes "p + header \<le> q \<or> q + header \<le> p"
  shows "major_at (upd_major p f m) q = major_at m q" "minor_at (upd_major p f m) q = minor_at m q"
    "major_at (upd_minor p g m) q = major_at m q" "minor_at (upd_minor p g m) q = minor_at m q"
    "major_at (put_minor p k m) q = major_at m q" "minor_at (put_minor p k m) q = minor_at m q"
    "major_at (put_major p j m) q = major_at m q" "minor_at (put_major p j m) q = minor_at m q"
  by (rule header_cong; use assms in \<open>auto simp: upd_outside put_outside\<close>)+

lemma header_fits [simp]: "major_fits (major_at m p)" "minor_fits (minor_at m p)"
  using rd_bound [of 8 m] rd_bound [of 4 m]
  by (simp_all add: major_fits_def minor_fits_def major_at_def minor_at_def del: rd.simps)

lemma upd_same:
  "major_fits (f (major_at m p)) \<Longrightarrow> major_at (upd_major p f m) p = f (major_at m p)"
  "minor_fits (g (minor_at m p)) \<Longrightarrow> minor_at (upd_minor p g m) p = g (minor_at m p)"
  by (simp_all add: upd_major_def upd_minor_def major_at_put minor_at_put)

subsection \<open>Doubly linked chains\<close>

text \<open>\<open>R x pv nx\<close> says that the node for \<open>x\<close> is in memory with these neighbours; \<open>f x\<close> is its address.\<close>

definition first_of :: "('a \<Rightarrow> nat) \<Rightarrow> nat \<Rightarrow> 'a list \<Rightarrow> nat" where
  "first_of f nx xs = (case xs of [] \<Rightarrow> nx | x # _ \<Rightarrow> f x)"

definition last_of :: "('a \<Rightarrow> nat) \<Rightarrow> nat \<Rightarrow> 'a list \<Rightarrow> nat" where
  "last_of f pv xs = (if xs = [] then pv else f (last xs))"

lemma first_of_simps [simp]:
  "first_of f nx [] = nx" "first_of f nx (x # xs) = f x"
  "first_of f nx (xs @ ys) = first_of f (first_of f nx ys) xs"
  by (simp_all add: first_of_def split: list.splits)

lemma last_of_simps [simp]:
  "last_of f pv [] = pv" "last_of f pv (xs @ [x]) = f x" "last_of f pv (x # xs) = last_of f (f x) xs"
  "last_of f pv (xs @ ys) = last_of f (last_of f pv xs) ys"
  by (auto simp: last_of_def)

fun chain :: "('a \<Rightarrow> nat \<Rightarrow> nat \<Rightarrow> bool) \<Rightarrow> ('a \<Rightarrow> nat) \<Rightarrow> nat \<Rightarrow> 'a list \<Rightarrow> nat \<Rightarrow> bool" where
  "chain R f pv [] nx \<longleftrightarrow> True"
| "chain R f pv (x # xs) nx \<longleftrightarrow> R x pv (first_of f nx xs) \<and> chain R f (f x) xs nx"

lemma chain_append [simp]:
  "chain R f pv (xs @ ys) nx \<longleftrightarrow> chain R f pv xs (first_of f nx ys) \<and> chain R f (last_of f pv xs) ys nx"
  by (induction xs arbitrary: pv) auto

lemma chain_mono:
  "chain R f pv xs nx \<Longrightarrow> (\<And>x p n. x \<in> set xs \<Longrightarrow> R x p n \<Longrightarrow> R' x p n) \<Longrightarrow> chain R' f pv xs nx"
  by (induction xs arbitrary: pv) auto

text \<open>Giving a chain another node behind it changes its last node, and the same at its front.\<close>

lemma chain_relink_last:
  assumes "chain R f pv xs nx" "\<And>x p n. x \<in> set (butlast xs) \<Longrightarrow> R x p n \<Longrightarrow> R' x p n"
    and "\<And>p. xs \<noteq> [] \<Longrightarrow> R (last xs) p nx \<Longrightarrow> R' (last xs) p nx'"
  shows "chain R' f pv xs nx'"
  using assms
proof (cases xs rule: rev_cases)
  case (snoc ys y)
  then show ?thesis using assms chain_mono [of R f pv ys "f y" R'] by auto
qed simp

lemma chain_relink_first:
  assumes "chain R f pv xs nx" "\<And>x p n. x \<in> set (tl xs) \<Longrightarrow> R x p n \<Longrightarrow> R' x p n"
    and "\<And>n. xs \<noteq> [] \<Longrightarrow> R (hd xs) pv n \<Longrightarrow> R' (hd xs) pv' n"
  shows "chain R' f pv' xs nx"
proof (cases xs)
  case (Cons y ys)
  then show ?thesis using assms chain_mono [of R f "f y" ys nx R'] by auto
qed simp

end
