(* ===== verification/Kheap_Regions.thy ===== *)
theory Kheap_Regions
  imports Kheap "HOL-Library.Multiset"
begin

text \<open>
  What the kernel heap promises. A heap stands for its list of regions of pages, each with the chunks that
  are allocated in it in the order of their addresses (\<open>heap_ok\<close>), and so for the multiset of the blocks
  its clients hold. Allocation adds a block that is aligned and apart from every other one and keeps
  the contents of all of them; freeing takes one block out; and what clients write into their blocks does
  not disturb the heap.
\<close>

subsection \<open>Regions and chunks\<close>

record chunk =
  c_addr :: nat
  c_size :: nat
  c_req :: nat

record region =
  r_addr :: nat
  r_pages :: nat
  r_chunks :: "chunk list"

abbreviation r_bytes :: "region \<Rightarrow> nat" where "r_bytes r \<equiv> r_pages r * 4096"
abbreviation r_end :: "region \<Rightarrow> nat" where "r_end r \<equiv> r_addr r + r_bytes r"

abbreviation heap_limit :: nat where "heap_limit \<equiv> kernel_image_base - 1"

text \<open>Chunks follow each other between two addresses, with room for alignment inside.\<close>

fun chunks_ok :: "nat \<Rightarrow> nat \<Rightarrow> chunk list \<Rightarrow> bool" where
  "chunks_ok lo hi [] \<longleftrightarrow> lo \<le> hi"
| "chunks_ok lo hi (c # cs) \<longleftrightarrow> lo \<le> c_addr c \<and> c_req c + 32 \<le> c_size c \<and> chunks_ok (c_addr c + header + c_size c) hi cs"

definition chunk_end :: "nat \<Rightarrow> chunk list \<Rightarrow> nat" where
  "chunk_end lo cs = (if cs = [] then lo else c_addr (last cs) + header + c_size (last cs))"

lemma chunks_ok_append:
  "chunks_ok lo hi (xs @ ys) \<longleftrightarrow> chunks_ok lo (chunk_end lo xs) xs \<and> chunks_ok (chunk_end lo xs) hi ys"
  by (induction xs arbitrary: lo) (auto simp: chunk_end_def)

lemma chunks_ok_le: "chunks_ok lo hi cs \<Longrightarrow> lo \<le> hi"
  by (induction cs arbitrary: lo) fastforce+

lemma chunks_ok_in: "chunks_ok lo hi cs \<Longrightarrow> c \<in> set cs \<Longrightarrow>
    lo \<le> c_addr c \<and> c_addr c + header + c_size c \<le> hi \<and> c_req c + 32 \<le> c_size c"
proof (induction cs arbitrary: lo)
  case (Cons d cs)
  then show ?case using chunks_ok_le [of "c_addr d + header + c_size d" hi cs] by fastforce
qed simp

definition usage :: "chunk list \<Rightarrow> nat" where
  "usage cs = header + (\<Sum>c\<leftarrow>cs. c_size c + header)"

lemma usage_le: "chunks_ok lo hi cs \<Longrightarrow> lo + (\<Sum>c\<leftarrow>cs. c_size c + header) \<le> hi"
  by (induction cs arbitrary: lo) fastforce+

definition chunk_ptr :: "nat \<Rightarrow> nat" where
  "chunk_ptr a = align_ptr (w64 (a + header))"

definition chunk_shift :: "nat \<Rightarrow> nat" where
  "chunk_shift a = chunk_ptr a - (a + header)"

text \<open>The byte below the pointer that leads back to the header.\<close>

definition tag_ok :: "mem \<Rightarrow> chunk \<Rightarrow> bool" where
  "tag_ok m c \<longleftrightarrow> m (chunk_ptr (c_addr c) - 16) = of_nat (chunk_shift (c_addr c))"

definition minor_ok :: "mem \<Rightarrow> nat \<Rightarrow> chunk \<Rightarrow> nat \<Rightarrow> nat \<Rightarrow> bool" where
  "minor_ok m A c pv nx \<longleftrightarrow> minor_at m (c_addr c) = \<lparr>mi_prev = pv, mi_next = nx, mi_block = A, mi_magic = LIBALLOC_MAGIC,
     mi_size = c_size c, mi_req_size = c_req c\<rparr> \<and> tag_ok m c"

definition major_ok :: "mem \<Rightarrow> region \<Rightarrow> nat \<Rightarrow> nat \<Rightarrow> bool" where
  "major_ok m r pv nx \<longleftrightarrow> major_at m (r_addr r) = \<lparr>mj_prev = pv, mj_next = nx, mj_pages = r_pages r, mj_size = r_bytes r,
     mj_usage = usage (r_chunks r), mj_first = first_of c_addr 0 (r_chunks r)\<rparr>
   \<and> chain (minor_ok m (r_addr r)) c_addr 0 (r_chunks r) 0"

definition region_ok :: "region \<Rightarrow> bool" where
  "region_ok r \<longleftrightarrow> kernel_heap_base \<le> r_addr r \<and> page_size dvd r_addr r \<and> 0 < r_pages r \<and> r_bytes r < 2 ^ 32
     \<and> r_end r \<le> heap_limit \<and> chunks_ok (r_addr r + header) (r_end r) (r_chunks r)"

subsection \<open>Alignment\<close>

definition round_up :: "nat \<Rightarrow> nat" where
  "round_up q = (if q mod 16 \<noteq> 0 then q + (16 - q mod 16) else q)"

lemma round_up_props: "q \<le> round_up q" "round_up q < q + 16" "16 dvd round_up q"
proof -
  define k d where "k = q div 16" and "d = q mod 16"
  have "q = 16 * k + d" "d < 16" by (simp_all add: k_def d_def)
  then have "q + (16 - d) = 16 * (k + 1)" by simp
  then have "q + (16 - q mod 16) = 16 * (k + 1)" by (simp only: d_def)
  then show "q \<le> round_up q" "round_up q < q + 16" "16 dvd round_up q"
    by (auto simp: round_up_def dvd_eq_mod_eq_0)
qed

lemma align_ptr_round: "p + 32 < 2 ^ 64 \<Longrightarrow> align_ptr p = round_up (p + 16)"
  using round_up_props(2) [of "p + 16"]
  by (simp add: align_ptr_def ALIGNMENT_def ALIGN_INFO_def Let_def round_up_def)

lemma chunk_ptr_round: "a + header + 32 < 2 ^ 64 \<Longrightarrow> chunk_ptr a = round_up (a + header + 16)"
  by (simp add: chunk_ptr_def align_ptr_round)

lemma chunk_ptr_range:
  assumes "a + header + 32 < 2 ^ 64"
  shows "a + header + 16 \<le> chunk_ptr a" "chunk_ptr a < a + header + 32" "16 dvd chunk_ptr a"
  using round_up_props [of "a + header + 16"] chunk_ptr_round [OF assms] by simp_all

text \<open>Storing the byte writes what leads back, and nothing else.\<close>

lemma align_store_tag:
  assumes "a + header + 32 < 2 ^ 64"
  shows "align_store (w64 (a + header)) m = m(chunk_ptr a - 16 := of_nat (chunk_shift a))"
proof -
  define p where "p = a + header"
  have p: "w64 p = p" "w64 (p + 16) = p + 16" using assms by (simp_all add: p_def)
  have c: "chunk_ptr a = align_ptr p" "align_ptr p = round_up (p + 16)"
    using assms p by (simp_all add: chunk_ptr_def align_ptr_round p_def)
  have "sub64 (align_ptr p) 16 = chunk_ptr a - 16"
    using chunk_ptr_range [OF assms] assms c(1) by (simp add: sub64_le)
  moreover have "(if (p + 16) mod 16 \<noteq> 0 then 16 - (p + 16) mod 16 else 0) + 16 = chunk_shift a"
    unfolding chunk_shift_def p_def [symmetric] c round_up_def by auto
  ultimately show ?thesis
    unfolding align_store_def ALIGNMENT_def ALIGN_INFO_def Let_def p_def [symmetric] p by (simp only:)
qed

lemma unalign_tag:
  assumes "a + header + 32 < 2 ^ 64" "m (chunk_ptr a - 16) = of_nat (chunk_shift a)"
  shows "unalign m (chunk_ptr a) = a + header" "sub64 (a + header) header = a"
proof -
  note r = chunk_ptr_range [OF assms(1)]
  have d: "chunk_shift a < 32" using r by (simp add: chunk_shift_def)
  then have u: "unat (of_nat (chunk_shift a) :: u8) = chunk_shift a" by (simp add: unat_of_nat)
  have "sub64 (chunk_ptr a) 16 = chunk_ptr a - 16" "sub64 (chunk_ptr a) (chunk_shift a) = a + header"
    using r assms(1) by (simp_all add: sub64_le chunk_shift_def)
  then show "unalign m (chunk_ptr a) = a + header"
    using d assms(2) by (simp add: unalign_def ALIGNMENT_def ALIGN_INFO_def Let_def u)
  show "sub64 (a + header) header = a" using assms(1) by (simp add: sub64_le)
qed

lemma header_fun_upd:
  assumes "t < p \<or> p + header \<le> t"
  shows "major_at (m(t := v)) p = major_at m p" "minor_at (m(t := v)) p = minor_at m p"
  by (rule header_cong; use assms in auto)+

lemma fits_update:
  "major_fits j \<Longrightarrow> v < 2 ^ 64 \<Longrightarrow> major_fits (j\<lparr>mj_first := v\<rparr>)"
  "major_fits j \<Longrightarrow> v < 2 ^ 64 \<Longrightarrow> major_fits (j\<lparr>mj_next := v\<rparr>)"
  "major_fits j \<Longrightarrow> v < 2 ^ 64 \<Longrightarrow> major_fits (j\<lparr>mj_prev := v\<rparr>)"
  "minor_fits k \<Longrightarrow> v < 2 ^ 64 \<Longrightarrow> minor_fits (k\<lparr>mi_next := v\<rparr>)"
  "minor_fits k \<Longrightarrow> v < 2 ^ 64 \<Longrightarrow> minor_fits (k\<lparr>mi_prev := v\<rparr>)"
  by (simp_all add: major_fits_def minor_fits_def)

definition clear :: "nat \<Rightarrow> nat \<Rightarrow> bool" where
  "clear p q \<longleftrightarrow> p + header \<le> q \<or> q + header \<le> p"

lemma clear_sym: "clear p q \<Longrightarrow> clear q p"
  by (auto simp: clear_def)

lemmas header_clear = header_apart [folded clear_def]

subsection \<open>A new minor\<close>

text \<open>What the headers say after an insertion, when all of them are apart.\<close>

lemma insert_minor_reads:
  fixes m :: mem
  assumes apart: "clear A a" "prv \<noteq> 0 \<longrightarrow> clear A prv \<and> clear prv a" "nxt \<noteq> 0 \<longrightarrow> clear A nxt \<and> clear nxt a"
      "prv \<noteq> 0 \<longrightarrow> nxt \<noteq> 0 \<longrightarrow> clear prv nxt"
    and after: "A < a" "prv < a" "nxt \<noteq> 0 \<longrightarrow> a + header + 32 \<le> nxt" and bound: "A < 2 ^ 64" "a + header + 32 < 2 ^ 64" "nxt < 2 ^ 64"
    and small: "sz < 2 ^ 32" "req < 2 ^ 32"
  defines "m' \<equiv> insert_minor A prv nxt a req sz m"
  shows "minor_at m' a = \<lparr>mi_prev = prv, mi_next = nxt, mi_block = A, mi_magic = LIBALLOC_MAGIC, mi_size = sz, mi_req_size = req\<rparr>"
    and "major_at m' A = (major_at m A)\<lparr>mj_usage := w32 (mj_usage (major_at m A) + sz + header),
           mj_first := (if prv = 0 then a else mj_first (major_at m A))\<rparr>"
    and "prv \<noteq> 0 \<Longrightarrow> minor_at m' prv = (minor_at m prv)\<lparr>mi_next := a\<rparr>"
    and "nxt \<noteq> 0 \<Longrightarrow> minor_at m' nxt = (minor_at m nxt)\<lparr>mi_prev := a\<rparr>"
    and "m' (chunk_ptr a - 16) = of_nat (chunk_shift a)"
    and "\<And>x. m' x \<noteq> m x \<Longrightarrow> (A \<le> x \<and> x < A + header) \<or> (prv \<noteq> 0 \<and> prv \<le> x \<and> x < prv + header)
           \<or> (nxt \<noteq> 0 \<and> nxt \<le> x \<and> x < nxt + header) \<or> (a \<le> x \<and> x < a + header + 16)"
proof -
  let ?t = "chunk_ptr a - 16"
  define k where "k = \<lparr>mi_prev = prv, mi_next = nxt, mi_block = A, mi_magic = LIBALLOC_MAGIC, mi_size = w32 sz, mi_req_size = w32 req\<rparr>"
  define m1 where "m1 = (if prv = 0 then upd_major A (mj_first_update (\<lambda>_. a)) m else upd_minor prv (mi_next_update (\<lambda>_. a)) m)"
  define m2 where "m2 = (if nxt = 0 then m1 else upd_minor nxt (mi_prev_update (\<lambda>_. a)) m1)"
  define m3 where "m3 = put_minor a k m2"
  define m4 where "m4 = upd_major A (mj_usage_update (\<lambda>u. w32 (u + sz + header))) m3"
  note r = chunk_ptr_range [OF bound(2)]
  have m': "m' = m4(?t := of_nat (chunk_shift a))"
    unfolding m'_def insert_minor_def Let_def m4_def m3_def m2_def m1_def k_def align_store_tag [OF bound(2)] ..
  have t: "a + header \<le> ?t" "?t < a + header + 16" using r by auto
  have far: "?t < p \<or> p + header \<le> ?t" if "p + header \<le> a \<or> a + header + 32 \<le> p" for p using that t by auto
  have kf: "minor_fits k" "k = \<lparr>mi_prev = prv, mi_next = nxt, mi_block = A, mi_magic = LIBALLOC_MAGIC, mi_size = sz, mi_req_size = req\<rparr>"
    using bound after small by (auto simp: k_def minor_fits_def w32_def LIBALLOC_MAGIC_def)
  have a64: "a < 2 ^ 64" using bound by simp
  have fa: "A + header \<le> a" using apart(1) after by (auto simp: clear_def)
  have fp: "prv \<noteq> 0 \<Longrightarrow> prv + header \<le> a" using apart(2) after by (auto simp: clear_def)
  have usage_fits: "major_fits (mj_usage_update (\<lambda>u. w32 (u + sz + header)) (major_at m3 A))"
    using header_fits(1) [of m3 A] by (simp add: major_fits_def w32_def)
  have first_fits: "major_fits ((major_at m A)\<lparr>mj_first := a\<rparr>)" using a64 by (simp add: fits_update)
  have A2: "major_at m2 A = (if prv = 0 then (major_at m A)\<lparr>mj_first := a\<rparr> else major_at m A)"
    using apart first_fits by (auto simp: m2_def m1_def upd_same header_clear clear_sym)
  have A3: "major_at m3 A = major_at m2 A"
    using apart(1) by (simp add: m3_def header_clear clear_sym)
  show "minor_at m' a = \<lparr>mi_prev = prv, mi_next = nxt, mi_block = A, mi_magic = LIBALLOC_MAGIC, mi_size = sz, mi_req_size = req\<rparr>"
    using apart(1) t kf by (simp add: m' header_fun_upd m4_def header_clear m3_def minor_at_put)
  show "major_at m' A = (major_at m A)\<lparr>mj_usage := w32 (mj_usage (major_at m A) + sz + header),
      mj_first := (if prv = 0 then a else mj_first (major_at m A))\<rparr>"
    using far [of A] fa usage_fits by (simp add: m' header_fun_upd m4_def upd_same A3 A2)
  show "minor_at m' prv = (minor_at m prv)\<lparr>mi_next := a\<rparr>" if p: "prv \<noteq> 0"
  proof -
    have "minor_fits ((minor_at m prv)\<lparr>mi_next := a\<rparr>)" using a64 by (simp add: fits_update)
    then have "minor_at m2 prv = (minor_at m prv)\<lparr>mi_next := a\<rparr>"
      using p apart(4) by (auto simp: m2_def m1_def upd_same header_clear clear_sym)
    then show ?thesis
      using p apart(2) far [of prv] fp by (simp add: m' header_fun_upd m4_def m3_def header_clear clear_sym)
  qed
  show "minor_at m' nxt = (minor_at m nxt)\<lparr>mi_prev := a\<rparr>" if n: "nxt \<noteq> 0"
  proof -
    have "minor_at m1 nxt = minor_at m nxt" using n apart by (auto simp: m1_def header_clear)
    moreover have "minor_fits ((minor_at m nxt)\<lparr>mi_prev := a\<rparr>)" using a64 by (simp add: fits_update)
    ultimately have "minor_at m2 nxt = (minor_at m nxt)\<lparr>mi_prev := a\<rparr>"
      using n by (simp add: m2_def upd_same)
    then show ?thesis
      using n apart(3) far [of nxt] after(3) by (simp add: m' header_fun_upd m4_def m3_def header_clear clear_sym)
  qed
  show "m' (chunk_ptr a - 16) = of_nat (chunk_shift a)" by (simp add: m')
  show "(A \<le> x \<and> x < A + header) \<or> (prv \<noteq> 0 \<and> prv \<le> x \<and> x < prv + header)
      \<or> (nxt \<noteq> 0 \<and> nxt \<le> x \<and> x < nxt + header) \<or> (a \<le> x \<and> x < a + header + 16)" if "m' x \<noteq> m x" for x
  proof (rule ccontr)
    assume n: "\<not> ?thesis"
    then have "m1 x = m x" by (auto simp: m1_def upd_outside not_le not_less)
    moreover have "m2 x = m1 x" using n by (auto simp: m2_def upd_outside not_le not_less)
    moreover have "m4 x = m2 x" using n by (auto simp: m4_def m3_def upd_outside put_outside not_le not_less)
    ultimately show False using that n t by (auto simp: m')
  qed
qed

text \<open>A chunk whose header and tag bytes did not change is still described by them.\<close>

lemma tag_in: "c_addr c + header + 32 < 2 ^ 64 \<Longrightarrow> c_addr c + header \<le> chunk_ptr (c_addr c) - 16 \<and> chunk_ptr (c_addr c) - 16 < c_addr c + header + 16"
  using chunk_ptr_range [of "c_addr c"] by auto

lemma minor_ok_frame:
  assumes "minor_ok m A c p n" "c_addr c + header + 32 < 2 ^ 64"
    and "\<And>x. c_addr c \<le> x \<Longrightarrow> x < c_addr c + header + 16 \<Longrightarrow> m' x = m x"
  shows "minor_ok m' A c p n"
proof -
  have "minor_at m' (c_addr c) = minor_at m (c_addr c)" using assms(3) by (intro header_cong) auto
  then show ?thesis using assms tag_in [OF assms(2)] by (simp add: minor_ok_def tag_ok_def)
qed

lemma minor_ok_relink:
  assumes "minor_ok m A c p n" "c_addr c + header + 32 < 2 ^ 64"
    and "\<And>x. c_addr c + header \<le> x \<Longrightarrow> x < c_addr c + header + 16 \<Longrightarrow> m' x = m x"
    and "minor_at m' (c_addr c) = \<lparr>mi_prev = p', mi_next = n', mi_block = A, mi_magic = LIBALLOC_MAGIC,
      mi_size = c_size c, mi_req_size = c_req c\<rparr>"
  shows "minor_ok m' A c p' n'"
  using assms tag_in [OF assms(2)] by (simp add: minor_ok_def tag_ok_def)

lemma chunks_ok_butlast:
  "chunks_ok lo hi (xs @ [d]) \<Longrightarrow> c \<in> set xs \<Longrightarrow> c_addr c + header + c_size c \<le> c_addr d"
  using chunks_ok_in [of lo "chunk_end lo xs" xs c] by (auto simp: chunks_ok_append)

lemma usage_insert: "usage (xs @ c # ys) = usage (xs @ ys) + c_size c + header"
  by (simp add: usage_def)

lemma heap_limit_less: "heap_limit < 2 ^ 64 - 1" "0 < kernel_heap_base"
  by (simp_all add: kernel_image_base_def kernel_heap_base_def)

text \<open>The place for a new chunk between two parts of a region.\<close>

definition fits_between :: "region \<Rightarrow> chunk list \<Rightarrow> chunk list \<Rightarrow> nat \<Rightarrow> nat \<Rightarrow> bool" where
  "fits_between r L R a sz \<longleftrightarrow> r_chunks r = L @ R \<and> a = chunk_end (r_addr r + header) L
     \<and> a + header + sz \<le> first_of c_addr (r_end r) R"

lemma fits_between_geometry:
  assumes "region_ok r" "fits_between r L R a (req + 32)"
  shows "region_ok (r\<lparr>r_chunks := L @ \<lparr>c_addr = a, c_size = req + 32, c_req = req\<rparr> # R\<rparr>)"
    and "\<And>c. c \<in> set L \<Longrightarrow> r_addr r + header \<le> c_addr c \<and> c_addr c + header + c_size c \<le> a \<and> 32 \<le> c_size c"
    and "\<And>c. c \<in> set R \<Longrightarrow> a + header + (req + 32) \<le> c_addr c \<and> c_addr c + header + c_size c \<le> r_end r \<and> 32 \<le> c_size c"
    and "r_addr r + header \<le> a" "a + header + (req + 32) \<le> r_end r"
proof -
  let ?lo = "r_addr r + header"
  have ok: "chunks_ok ?lo a L" "chunks_ok a (r_end r) R" and a: "a = chunk_end ?lo L" "a + header + (req + 32) \<le> first_of c_addr (r_end r) R"
    using assms by (auto simp: region_ok_def fits_between_def chunks_ok_append)
  have R: "chunks_ok (a + header + (req + 32)) (r_end r) R"
    using ok(2) a(2) by (cases R) auto
  then show "region_ok (r\<lparr>r_chunks := L @ \<lparr>c_addr = a, c_size = req + 32, c_req = req\<rparr> # R\<rparr>)"
    using assms(1) ok(1) a(1) by (simp add: region_ok_def chunks_ok_append)
  show "c \<in> set L \<Longrightarrow> r_addr r + header \<le> c_addr c \<and> c_addr c + header + c_size c \<le> a \<and> 32 \<le> c_size c" for c
    using chunks_ok_in [OF ok(1), of c] by auto
  show "c \<in> set R \<Longrightarrow> a + header + (req + 32) \<le> c_addr c \<and> c_addr c + header + c_size c \<le> r_end r \<and> 32 \<le> c_size c" for c
    using chunks_ok_in [OF R, of c] by auto
  show "?lo \<le> a" "a + header + (req + 32) \<le> r_end r"
    using chunks_ok_le [OF ok(1)] chunks_ok_le [OF R] by auto
qed

definition changed_in :: "mem \<Rightarrow> mem \<Rightarrow> nat set \<Rightarrow> bool" where
  "changed_in m m' X \<longleftrightarrow> (\<forall>x. m' x \<noteq> m x \<longrightarrow> x \<in> X)"

text \<open>The bytes a chunk's owner may use lie behind its header.\<close>

definition headers :: "region \<Rightarrow> nat set" where
  "headers r = {r_addr r ..< r_addr r + header} \<union> (\<Union>c \<in> set (r_chunks r). {c_addr c ..< c_addr c + header})"

text \<open>
  Two lists of chunks with a gap between them: when the last chunk of the first and the first chunk of the
  second are linked to new neighbours and nothing else changes but the region's header and the gap,
  both chains are as before with the new ends.
\<close>

lemma relink_left:
  assumes L: "chunks_ok lo a L" "A + header \<le> lo" "a < 2 ^ 64"
    and ch: "chain (minor_ok m A) c_addr 0 L n"
    and frame: "\<And>x. m' x \<noteq> m x \<Longrightarrow> x < lo \<or> (L \<noteq> [] \<and> c_addr (last L) \<le> x \<and> x < c_addr (last L) + header) \<or> a \<le> x"
    and at: "L \<noteq> [] \<Longrightarrow> minor_at m' (c_addr (last L)) = (minor_at m (c_addr (last L)))\<lparr>mi_next := n'\<rparr>"
  shows "chain (minor_ok m' A) c_addr 0 L n'"
proof (rule chain_relink_last [OF ch])
  have in_L: "lo \<le> c_addr c \<and> c_addr c + header + 32 \<le> a" if "c \<in> set L" for c
    using chunks_ok_in [OF L(1) that] by auto
  show "minor_ok m' A c u v" if c: "c \<in> set (butlast L)" "minor_ok m A c u v" for c u v
  proof (rule minor_ok_frame [OF c(2)])
    have cL: "c \<in> set L" "L \<noteq> []" using c(1) in_set_butlastD by fastforce+
    have "c_addr c + header + c_size c \<le> c_addr (last L)" "32 \<le> c_size c"
      using chunks_ok_butlast [of lo a "butlast L" "last L" c] chunks_ok_in [OF L(1) cL(1)] L(1) c(1) cL by auto
    then show "m' x = m x" if "c_addr c \<le> x" "x < c_addr c + header + 16" for x
      using frame [of x] that in_L [OF cL(1)] by (cases "m' x = m x") auto
    show "c_addr c + header + 32 < 2 ^ 64" using in_L [OF cL(1)] L(3) by simp
  qed
  show "minor_ok m' A (last L) u n'" if l: "L \<noteq> []" "minor_ok m A (last L) u n" for u
  proof (rule minor_ok_relink [OF l(2)])
    have lL: "lo \<le> c_addr (last L) \<and> c_addr (last L) + header + 32 \<le> a" using in_L l(1) by simp
    then show "c_addr (last L) + header + 32 < 2 ^ 64" using L(3) by simp
    show "m' x = m x" if "c_addr (last L) + header \<le> x" "x < c_addr (last L) + header + 16" for x
      using frame [of x] that lL by (cases "m' x = m x") auto
    show "minor_at m' (c_addr (last L)) = \<lparr>mi_prev = u, mi_next = n', mi_block = A, mi_magic = LIBALLOC_MAGIC,
        mi_size = c_size (last L), mi_req_size = c_req (last L)\<rparr>"
      using at l by (simp add: minor_ok_def)
  qed
qed

lemma relink_right:
  assumes R: "chunks_ok e hi R" "hi < 2 ^ 64"
    and ch: "chain (minor_ok m A) c_addr p R 0"
    and frame: "\<And>x. m' x \<noteq> m x \<Longrightarrow> x < e \<or> (R \<noteq> [] \<and> c_addr (hd R) \<le> x \<and> x < c_addr (hd R) + header)"
    and at: "R \<noteq> [] \<Longrightarrow> minor_at m' (c_addr (hd R)) = (minor_at m (c_addr (hd R)))\<lparr>mi_prev := p'\<rparr>"
  shows "chain (minor_ok m' A) c_addr p' R 0"
proof (rule chain_relink_first [OF ch])
  have in_R: "e \<le> c_addr c \<and> c_addr c + header + 32 \<le> hi" if "c \<in> set R" for c
    using chunks_ok_in [OF R(1) that] by auto
  show "minor_ok m' A c u v" if c: "c \<in> set (tl R)" "minor_ok m A c u v" for c u v
  proof (rule minor_ok_frame [OF c(2)])
    have cR: "c \<in> set R" "R \<noteq> []" using c(1) by (cases R; simp)+
    have "c_addr (hd R) + header \<le> c_addr c"
      using chunks_ok_in [of "c_addr (hd R) + header + c_size (hd R)" hi "tl R" c] R(1) c(1) cR by (cases R) auto
    then show "m' x = m x" if "c_addr c \<le> x" "x < c_addr c + header + 16" for x
      using frame [of x] that in_R [OF cR(1)] by (cases "m' x = m x") auto
    show "c_addr c + header + 32 < 2 ^ 64" using in_R [OF cR(1)] R(2) by simp
  qed
  show "minor_ok m' A (hd R) p' v" if h: "R \<noteq> []" "minor_ok m A (hd R) p v" for v
  proof (rule minor_ok_relink [OF h(2)])
    have hR: "e \<le> c_addr (hd R) \<and> c_addr (hd R) + header + 32 \<le> hi" using in_R h(1) by simp
    then show "c_addr (hd R) + header + 32 < 2 ^ 64" using R(2) by simp
    show "m' x = m x" if "c_addr (hd R) + header \<le> x" "x < c_addr (hd R) + header + 16" for x
      using frame [of x] that hR by (cases "m' x = m x") auto
    show "minor_at m' (c_addr (hd R)) = \<lparr>mi_prev = p', mi_next = v, mi_block = A, mi_magic = LIBALLOC_MAGIC,
        mi_size = c_size (hd R), mi_req_size = c_req (hd R)\<rparr>"
      using at h by (simp add: minor_ok_def)
  qed
qed

text \<open>The neighbours of the place between two parts of a region, as addresses.\<close>

lemma neighbours:
  assumes "chunks_ok lo a L" "chunks_ok e hi R" "0 < lo" "a \<le> e"
  shows "last_of c_addr 0 L \<noteq> 0 \<longleftrightarrow> L \<noteq> []" "first_of c_addr 0 R \<noteq> 0 \<longleftrightarrow> R \<noteq> []"
    "L \<noteq> [] \<Longrightarrow> last_of c_addr 0 L = c_addr (last L) \<and> lo \<le> c_addr (last L) \<and> c_addr (last L) + header + 32 \<le> a"
    "R \<noteq> [] \<Longrightarrow> first_of c_addr 0 R = c_addr (hd R) \<and> e \<le> c_addr (hd R) \<and> c_addr (hd R) + header + 32 \<le> hi"
proof -
  show l: "L \<noteq> [] \<Longrightarrow> last_of c_addr 0 L = c_addr (last L) \<and> lo \<le> c_addr (last L) \<and> c_addr (last L) + header + 32 \<le> a"
    using chunks_ok_in [OF assms(1), of "last L"] by (auto simp: last_of_def)
  show r: "R \<noteq> [] \<Longrightarrow> first_of c_addr 0 R = c_addr (hd R) \<and> e \<le> c_addr (hd R) \<and> c_addr (hd R) + header + 32 \<le> hi"
    using chunks_ok_in [OF assms(2), of "hd R"] by (cases R) auto
  show "last_of c_addr 0 L \<noteq> 0 \<longleftrightarrow> L \<noteq> []" using l assms(3) by (cases "L = []") auto
  show "first_of c_addr 0 R \<noteq> 0 \<longleftrightarrow> R \<noteq> []" using r chunks_ok_le [OF assms(1)] assms(3,4) by (cases "R = []") auto
qed

lemma insert_minor_region:
  assumes r: "region_ok r" and ok: "major_ok m r pv nx" and fit: "fits_between r L R a (req + 32)"
  defines "m' \<equiv> insert_minor (r_addr r) (last_of c_addr 0 L) (first_of c_addr 0 R) a req (req + 32) m"
    and "r' \<equiv> r\<lparr>r_chunks := L @ \<lparr>c_addr = a, c_size = req + 32, c_req = req\<rparr> # R\<rparr>"
  shows "major_ok m' r' pv nx \<and> changed_in m m' (headers r \<union> {a ..< a + header + 16})"
proof -
  let ?A = "r_addr r" and ?lo = "r_addr r + header" and ?p = "last_of c_addr 0 L" and ?n = "first_of c_addr 0 R"
  let ?e = "a + header + (req + 32)" and ?c = "\<lparr>c_addr = a, c_size = req + 32, c_req = req\<rparr>"
  note geo = fits_between_geometry [OF r fit]
  have rs: "r_chunks r = L @ R" using fit by (simp add: fits_between_def)
  have top: "r_end r < 2 ^ 64" "r_bytes r < 2 ^ 32" using r heap_limit_less by (auto simp: region_ok_def)
  have okL: "chunks_ok ?lo a L" and okR: "chunks_ok ?e (r_end r) R"
    using geo(1) fit by (auto simp: region_ok_def fits_between_def chunks_ok_append)
  have lo: "0 < ?lo" "a \<le> ?e" by auto
  note nb = neighbours [OF okL okR lo]
  have h1: "clear ?A a" "?p \<noteq> 0 \<longrightarrow> clear ?A ?p \<and> clear ?p a" "?n \<noteq> 0 \<longrightarrow> clear ?A ?n \<and> clear ?n a"
      "?p \<noteq> 0 \<longrightarrow> ?n \<noteq> 0 \<longrightarrow> clear ?p ?n"
    using nb geo(4) by (auto simp: clear_def)
  have h2: "?A < a" "?p < a" "?n \<noteq> 0 \<longrightarrow> a + header + 32 \<le> ?n"
    using nb geo(4) by (cases "L = []"; auto)+
  have h3: "?A < 2 ^ 64" "a + header + 32 < 2 ^ 64" "?n < 2 ^ 64" "req + 32 < 2 ^ 32" "req < 2 ^ 32"
    using nb geo(4,5) top by (cases "R = []"; auto)+
  note reads = insert_minor_reads [OF h1 h2 h3, of m, folded m'_def]
  have chains: "chain (minor_ok m ?A) c_addr 0 L ?n" "chain (minor_ok m ?A) c_addr ?p R 0"
      and mj: "major_at m ?A = \<lparr>mj_prev = pv, mj_next = nx, mj_pages = r_pages r, mj_size = r_bytes r,
        mj_usage = usage (L @ R), mj_first = first_of c_addr 0 (L @ R)\<rparr>"
    using ok by (auto simp: major_ok_def rs)
  have a64: "a < 2 ^ 64" using h3 by simp
  have "chain (minor_ok m' ?A) c_addr 0 L a"
  proof (rule relink_left [OF okL order_refl a64 chains(1)])
    show "x < ?lo \<or> (L \<noteq> [] \<and> c_addr (last L) \<le> x \<and> x < c_addr (last L) + header) \<or> a \<le> x" if "m' x \<noteq> m x" for x
      using reads(6) [OF that] nb geo(4) by auto
    show "minor_at m' (c_addr (last L)) = (minor_at m (c_addr (last L)))\<lparr>mi_next := a\<rparr>" if "L \<noteq> []"
      using reads(3) nb that by simp
  qed
  moreover have "chain (minor_ok m' ?A) c_addr a R 0"
  proof (rule relink_right [OF okR top(1) chains(2)])
    show "x < ?e \<or> (R \<noteq> [] \<and> c_addr (hd R) \<le> x \<and> x < c_addr (hd R) + header)" if "m' x \<noteq> m x" for x
      using reads(6) [OF that] nb geo(4) by auto
    show "minor_at m' (c_addr (hd R)) = (minor_at m (c_addr (hd R)))\<lparr>mi_prev := a\<rparr>" if "R \<noteq> []"
      using reads(4) nb that by simp
  qed
  moreover have "minor_ok m' ?A ?c ?p ?n" using reads(1,5) by (simp add: minor_ok_def tag_ok_def)
  moreover have "changed_in m m' (headers r \<union> {a ..< a + header + 16})"
    unfolding changed_in_def
  proof (intro allI impI)
    fix x
    assume "m' x \<noteq> m x"
    then show "x \<in> headers r \<union> {a ..< a + header + 16}"
      using reads(6) [of x] nb last_in_set [of L] hd_in_set [of R] by (auto simp: headers_def rs)
  qed
  moreover have "usage (L @ R) + (req + 32) + header < 2 ^ 32"
    using usage_le [of ?lo "r_end r" "L @ ?c # R"] geo(1) top(2) by (simp add: usage_def region_ok_def)
  moreover have "L \<noteq> [] \<Longrightarrow> first_of c_addr (first_of c_addr 0 R) L = first_of c_addr a L" by (cases L) auto
  ultimately show ?thesis
    using reads(2) mj nb(1) by (auto simp: r'_def major_ok_def usage_insert usage_insert [of "[]", simplified] w32_def)
qed

subsection \<open>The heap\<close>

definition chunk_bytes :: "region list \<Rightarrow> nat" where
  "chunk_bytes rs = (\<Sum>r\<leftarrow>rs. \<Sum>c\<leftarrow>r_chunks r. c_size c)"

definition heap_wf :: "kheap \<Rightarrow> region list \<Rightarrow> bool" where
  "heap_wf s rs \<longleftrightarrow> chain (major_ok (kh_mem s)) r_addr 0 rs 0 \<and> (\<forall>r \<in> set rs. region_ok r)
     \<and> kh_memRoot s = first_of r_addr 0 rs \<and> (kh_bestBet s = 0 \<or> kh_bestBet s \<in> r_addr ` set rs)
     \<and> sorted_wrt (\<lambda>r r'. apart (r_addr r) (r_bytes r) (r_addr r') (r_bytes r')) rs
     \<and> vas_ok heap_limit (kh_vas s) \<and> (\<forall>r \<in> set rs. held (vs_ranges (kh_vas s)) (r_addr r) (r_bytes r))
     \<and> kh_inuse s = w64 (chunk_bytes rs) \<and> kh_allocated s = w64 (\<Sum>r\<leftarrow>rs. r_bytes r)"

text \<open>Between two calls no region is empty.\<close>

definition heap_ok :: "kheap \<Rightarrow> region list \<Rightarrow> bool" where
  "heap_ok s rs \<longleftrightarrow> heap_wf s rs \<and> (\<forall>r \<in> set rs. r_chunks r \<noteq> [])"

definition blocks :: "region list \<Rightarrow> (nat \<times> nat) list" where
  "blocks rs = concat (map (\<lambda>r. map (\<lambda>c. (chunk_ptr (c_addr c), c_req c)) (r_chunks r)) rs)"

lemma blocks_simps [simp]:
  "blocks [] = []" "blocks (rs @ rs') = blocks rs @ blocks rs'"
  "blocks (r # rs) = map (\<lambda>c. (chunk_ptr (c_addr c), c_req c)) (r_chunks r) @ blocks rs"
  by (simp_all add: blocks_def)

lemma blocks_iff: "(q, n) \<in> set (blocks rs) \<longleftrightarrow> (\<exists>r \<in> set rs. \<exists>c \<in> set (r_chunks r). q = chunk_ptr (c_addr c) \<and> n = c_req c)"
  by (auto simp: blocks_def)

lemma chunk_bytes_simps [simp]:
  "chunk_bytes [] = 0" "chunk_bytes (rs @ rs') = chunk_bytes rs + chunk_bytes rs'"
  "chunk_bytes (r # rs) = (\<Sum>c\<leftarrow>r_chunks r. c_size c) + chunk_bytes rs"
  by (simp_all add: chunk_bytes_def)

definition kept :: "mem \<Rightarrow> mem \<Rightarrow> region list \<Rightarrow> bool" where
  "kept m m' rs \<longleftrightarrow> (\<forall>(q, n) \<in> set (blocks rs). \<forall>x. q \<le> x \<and> x < q + n \<longrightarrow> m' x = m x)"

lemma w64_add: "w64 (w64 a + b) = w64 (a + b)"
  by (simp add: w64_def mod_simps)

lemma major_ok_frame:
  assumes "major_ok m r p n" "region_ok r" "\<And>x. r_addr r \<le> x \<Longrightarrow> x < r_end r \<Longrightarrow> m' x = m x"
  shows "major_ok m' r p n"
proof -
  have ok: "chunks_ok (r_addr r + header) (r_end r) (r_chunks r)" and top: "r_end r < 2 ^ 64"
    using assms(2) heap_limit_less by (auto simp: region_ok_def)
  have "major_at m' (r_addr r) = major_at m (r_addr r)"
    using assms(3) chunks_ok_le [OF ok] by (intro header_cong) auto
  moreover have "chain (minor_ok m' (r_addr r)) c_addr 0 (r_chunks r) 0"
  proof (rule chain_mono)
    show "chain (minor_ok m (r_addr r)) c_addr 0 (r_chunks r) 0" using assms(1) by (simp add: major_ok_def)
    show "minor_ok m' (r_addr r) c u v" if c: "c \<in> set (r_chunks r)" "minor_ok m (r_addr r) c u v" for c u v
      using chunks_ok_in [OF ok c(1)] top assms(3) by (intro minor_ok_frame [OF c(2)]) auto
  qed
  ultimately show ?thesis using assms(1) by (simp add: major_ok_def)
qed

lemma regions_apart:
  assumes "sorted_wrt (\<lambda>r r'. apart (r_addr r) (r_bytes r) (r_addr r') (r_bytes r')) (P @ r # Q)" "r' \<in> set P \<union> set Q"
  shows "r_end r \<le> r_addr r' \<or> r_end r' \<le> r_addr r"
  using assms by (auto simp: sorted_wrt_append apart_def)

text \<open>Changing the chunks of one region, with its header, leaves the others as they are.\<close>

lemma heap_wf_replace:
  assumes wf: "heap_wf s (P @ r # Q)" and r': "region_ok r'" "r_addr r' = r_addr r" "r_pages r' = r_pages r"
    and m': "changed_in (kh_mem s) m' {r_addr r ..< r_end r}" "\<And>p n. major_ok (kh_mem s) r p n \<Longrightarrow> major_ok m' r' p n"
  shows "heap_wf (s\<lparr>kh_mem := m', kh_inuse := w64 (chunk_bytes (P @ r' # Q))\<rparr>) (P @ r' # Q)"
proof -
  let ?m = "kh_mem s"
  have reg: "\<forall>q \<in> set P \<union> set Q. region_ok q" and sw: "sorted_wrt (\<lambda>r r'. apart (r_addr r) (r_bytes r) (r_addr r') (r_bytes r')) (P @ r # Q)"
    using wf by (auto simp: heap_wf_def)
  have other: "major_ok m' q u v" if "q \<in> set P \<union> set Q" "major_ok ?m q u v" for q u v
  proof (rule major_ok_frame [OF that(2)])
    show "region_ok q" using reg that by blast
    show "m' x = ?m x" if "r_addr q \<le> x" "x < r_end q" for x
      using regions_apart [OF sw \<open>q \<in> set P \<union> set Q\<close>] that m'(1) by (fastforce simp: changed_in_def)
  qed
  have "chain (major_ok ?m) r_addr 0 (P @ r # Q) 0" using wf by (simp add: heap_wf_def)
  then have "chain (major_ok m') r_addr 0 (P @ r' # Q) 0"
    using other m'(2) r'(2) by (auto intro: chain_mono [of "major_ok ?m"])
  moreover have "sorted_wrt (\<lambda>r r'. apart (r_addr r) (r_bytes r) (r_addr r') (r_bytes r')) (P @ r' # Q)"
    using sw r' by (auto simp: sorted_wrt_append)
  ultimately show ?thesis using wf r' by (auto simp: heap_wf_def)
qed

text \<open>A block lies behind the header and the tag of its chunk.\<close>

lemma block_in_region:
  assumes "region_ok r" "c \<in> set (r_chunks r)"
  shows "r_addr r + header \<le> c_addr c" "c_addr c + header + 16 \<le> chunk_ptr (c_addr c)"
    "chunk_ptr (c_addr c) + c_req c < c_addr c + header + c_size c" "c_addr c + header + c_size c \<le> r_end r"
    "r_end r < 2 ^ 64"
proof -
  have ok: "chunks_ok (r_addr r + header) (r_end r) (r_chunks r)" and top: "r_end r < 2 ^ 64"
    using assms(1) heap_limit_less by (auto simp: region_ok_def)
  note c = chunks_ok_in [OF ok assms(2)]
  show "r_addr r + header \<le> c_addr c" "c_addr c + header + c_size c \<le> r_end r" "r_end r < 2 ^ 64" using c top by auto
  show "c_addr c + header + 16 \<le> chunk_ptr (c_addr c)" "chunk_ptr (c_addr c) + c_req c < c_addr c + header + c_size c"
    using chunk_ptr_range [of "c_addr c"] c top by auto
qed

lemma chunk_top: "region_ok r \<Longrightarrow> c \<in> set (r_chunks r) \<Longrightarrow> c_addr c + header + 32 < 2 ^ 64"
  using chunks_ok_in [of "r_addr r + header" "r_end r" "r_chunks r" c] block_in_region(4,5) [of r c] by (auto simp: region_ok_def)

lemma chunks_apart:
  assumes "chunks_ok lo hi cs" "c \<in> set cs" "d \<in> set cs" "c_addr c \<noteq> c_addr d"
  shows "c_addr c + header + c_size c \<le> c_addr d \<or> c_addr d + header + c_size d \<le> c_addr c"
  using assms
proof (induction cs arbitrary: lo)
  case (Cons e cs)
  then show ?case using chunks_ok_in [of "c_addr e + header + c_size e" hi cs c] chunks_ok_in [of "c_addr e + header + c_size e" hi cs d] by auto
qed simp

lemma not_in_headers:
  assumes "region_ok r" "c \<in> set (r_chunks r)" "c_addr c + header \<le> x" "x < c_addr c + header + c_size c"
  shows "x \<notin> headers r"
proof -
  have ok: "chunks_ok (r_addr r + header) (r_end r) (r_chunks r)" using assms(1) by (simp add: region_ok_def)
  have "\<not> (c_addr d \<le> x \<and> x < c_addr d + header)" if d: "d \<in> set (r_chunks r)" for d
    using chunks_apart [OF ok assms(2) d] chunks_ok_in [OF ok d] assms(3,4) by (cases "c_addr c = c_addr d") auto
  then show ?thesis using assms chunks_ok_in [OF ok assms(2)] by (auto simp: headers_def)
qed

text \<open>Changes to the headers of one region, and to bytes of it no chunk covers, keep the contents of all blocks.\<close>

lemma kept_by_header_changes:
  assumes reg: "\<forall>r \<in> set (P @ r # Q). region_ok r"
    and sw: "sorted_wrt (\<lambda>r r'. apart (r_addr r) (r_bytes r) (r_addr r') (r_bytes r')) (P @ r # Q)"
    and ch: "changed_in m m' (headers r \<union> X)" and X: "X \<subseteq> {r_addr r ..< r_end r}"
      "\<And>c x. c \<in> set (r_chunks r) \<Longrightarrow> c_addr c + header \<le> x \<Longrightarrow> x < c_addr c + header + c_size c \<Longrightarrow> x \<notin> X"
  shows "kept m m' (P @ r # Q)"
proof -
  have rr: "region_ok r" using reg by simp
  have head: "headers r \<subseteq> {r_addr r ..< r_end r}"
    using block_in_region [OF rr] rr chunks_ok_le by (fastforce simp: headers_def region_ok_def)
  have "m' x = m x" if q: "q \<in> set (P @ r # Q)" and c: "c \<in> set (r_chunks q)"
      and x: "c_addr c + header \<le> x" "x < c_addr c + header + c_size c" for q c x
  proof (cases "q \<in> set P \<union> set Q")
    case True
    have "r_addr q \<le> x" "x < r_end q" using block_in_region [of q c] reg q c x by auto
    then show ?thesis using regions_apart [OF sw True] ch head X(1) by (fastforce simp: changed_in_def)
  next
    case False
    then have "q = r" using q by auto
    then show ?thesis using not_in_headers [OF rr, of c x] X(2) [of c x] ch c x by (auto simp: changed_in_def)
  qed
  note same = this
  have "m' x = m x" if b: "(q, n) \<in> set (blocks (P @ r # Q))" and x: "q \<le> x" "x < q + n" for q n x
  proof -
    obtain q' c where c: "q' \<in> set (P @ r # Q)" "c \<in> set (r_chunks q')" "q = chunk_ptr (c_addr c)" "n = c_req c"
      using b unfolding blocks_iff by blast
    then show ?thesis using same [OF c(1,2), of x] block_in_region [of q' c] reg x by auto
  qed
  then show ?thesis unfolding kept_def by blast
qed

definition gained :: "kheap \<Rightarrow> region list \<Rightarrow> nat \<Rightarrow> nat \<Rightarrow> kheap \<Rightarrow> bool" where
  "gained s rs p req s' \<longleftrightarrow> (\<exists>rs'. heap_ok s' rs' \<and> mset (blocks rs') = add_mset (p, req) (mset (blocks rs)) \<and> kept (kh_mem s) (kh_mem s') rs)"

lemma place_gains:
  assumes wf: "heap_wf s (P @ r # Q)" and ne: "\<forall>q \<in> set P \<union> set Q. r_chunks q \<noteq> []"
    and fit: "fits_between r L R a (req + 32)"
    and pl: "place (r_addr r) (last_of c_addr 0 L) (first_of c_addr 0 R) a req (req + 32) s = (p, s')"
  shows "gained s (P @ r # Q) p req s' \<and> p \<noteq> 0 \<and> kh_vas s' = kh_vas s"
proof -
  let ?c = "\<lparr>c_addr = a, c_size = req + 32, c_req = req\<rparr>"
  let ?r = "r\<lparr>r_chunks := L @ ?c # R\<rparr>"
  let ?m = "insert_minor (r_addr r) (last_of c_addr 0 L) (first_of c_addr 0 R) a req (req + 32) (kh_mem s)"
  have r: "region_ok r" and reg: "\<forall>q \<in> set (P @ r # Q). region_ok q"
    and sw: "sorted_wrt (\<lambda>r r'. apart (r_addr r) (r_bytes r) (r_addr r') (r_bytes r')) (P @ r # Q)"
    using wf by (auto simp: heap_wf_def)
  have rs: "r_chunks r = L @ R" using fit by (simp add: fits_between_def)
  note geo = fits_between_geometry [OF r fit]
  note ins = insert_minor_region [OF r _ fit]
  obtain pv nx where "major_ok (kh_mem s) r pv nx" using wf by (auto simp: heap_wf_def)
  then have ch: "changed_in (kh_mem s) ?m (headers r \<union> {a ..< a + header + 16})" using ins by blast
  have X: "{a ..< a + header + 16} \<subseteq> {r_addr r ..< r_end r}" using geo(4,5) by auto
  have "headers r \<subseteq> {r_addr r ..< r_end r}"
    using block_in_region [OF r] geo(4,5) by (fastforce simp: headers_def)
  then have "changed_in (kh_mem s) ?m {r_addr r ..< r_end r}" using ch X by (fastforce simp: changed_in_def)
  then have "heap_wf (s\<lparr>kh_mem := ?m, kh_inuse := w64 (chunk_bytes (P @ ?r # Q))\<rparr>) (P @ ?r # Q)"
    using heap_wf_replace [OF wf geo(1)] ins by auto
  moreover have "w64 (kh_inuse s + (req + 32)) = w64 (chunk_bytes (P @ ?r # Q))"
  proof -
    have "kh_inuse s = w64 (chunk_bytes (P @ r # Q))" using wf by (simp add: heap_wf_def)
    moreover have "chunk_bytes (P @ r # Q) + (req + 32) = chunk_bytes (P @ ?r # Q)" by (simp add: rs)
    ultimately show ?thesis by (simp only: w64_add)
  qed
  then have s': "s' = s\<lparr>kh_mem := ?m, kh_inuse := w64 (chunk_bytes (P @ ?r # Q))\<rparr>" "p = chunk_ptr a"
    using pl by (auto simp: place_def chunk_ptr_def)
  moreover have "kept (kh_mem s) ?m (P @ r # Q)"
    using kept_by_header_changes [OF reg sw ch X] geo(2,3) rs by fastforce
  moreover have "mset (blocks (P @ ?r # Q)) = add_mset (p, req) (mset (blocks (P @ r # Q)))"
    by (simp add: s' rs)
  moreover have "p \<noteq> 0" using chunk_ptr_range(1) [of a] geo(5) block_in_region(5) [of ?r ?c] geo(1) s'(2) by auto
  moreover have "kh_mem s' = ?m" "kh_vas s' = kh_vas s" by (simp_all add: s')
  moreover have "\<forall>q \<in> set (P @ ?r # Q). r_chunks q \<noteq> []" using ne by auto
  ultimately show ?thesis unfolding gained_def heap_ok_def by metis
qed

end
