(* ===== verification/Kheap_Malloc.thy ===== *)
theory Kheap_Malloc
  imports Kheap_Regions
begin

text \<open>
  Allocation on a well-formed heap: the walk over the regions ends, in a gap that is large enough or in new
  pages, and the heap gains exactly one block (\<^verbatim>\<open>kmalloc\<close> of \<^verbatim>\<open>kernel/std/kheap.c\<close>).
\<close>

subsection \<open>Looking for a gap\<close>

lemma gap_after_iff:
  assumes r: "region_ok r" and ok: "major_ok m r pv nx" and rs: "r_chunks r = L @ c # R" and sz: "sz < 2 ^ 32"
  shows "mi_next (minor_at m (c_addr c)) = first_of c_addr 0 R"
    and "mi_size (minor_at m (c_addr c)) = c_size c"
    and "gap_after m (r_addr r) sz (c_addr c) \<longleftrightarrow> c_addr c + header + c_size c + header + sz \<le> first_of c_addr (r_end r) R"
    and "w64 (w64 (c_addr c + header) + c_size c) = c_addr c + header + c_size c"
proof -
  have k: "minor_at m (c_addr c) = \<lparr>mi_prev = last_of c_addr 0 L, mi_next = first_of c_addr 0 R, mi_block = r_addr r,
      mi_magic = LIBALLOC_MAGIC, mi_size = c_size c, mi_req_size = c_req c\<rparr>"
    and j: "mj_size (major_at m (r_addr r)) = r_bytes r"
    using ok rs by (auto simp: major_ok_def minor_ok_def)
  show "mi_next (minor_at m (c_addr c)) = first_of c_addr 0 R" "mi_size (minor_at m (c_addr c)) = c_size c" by (simp_all add: k)
  have top: "r_end r < 2 ^ 64" using block_in_region(5) [OF r, of c] rs by simp
  have R: "chunks_ok (c_addr c + header + c_size c) (r_end r) R" using r rs by (simp add: region_ok_def chunks_ok_append)
  define u where "u = first_of c_addr (r_end r) R"
  have u: "c_addr c + header + c_size c \<le> u" "u < 2 ^ 64"
    using R top chunks_ok_in [OF R, of "hd R"] by (cases R; auto simp: u_def)+
  have "(if first_of c_addr 0 R = 0 then w64 (r_addr r + r_bytes r) else first_of c_addr 0 R) = u"
    using R top by (cases R) (auto simp: u_def)
  then have "gap_after m (r_addr r) sz (c_addr c) \<longleftrightarrow> w64 (sz + header) \<le> sub64 (sub64 (sub64 u (c_addr c)) header) (c_size c)"
    by (auto simp: gap_after_def k j Let_def split: if_splits)
  also have "sub64 (sub64 (sub64 u (c_addr c)) header) (c_size c) = u - c_addr c - header - c_size c"
    using u by (simp add: sub64_le)
  finally show "gap_after m (r_addr r) sz (c_addr c) \<longleftrightarrow> c_addr c + header + c_size c + header + sz \<le> first_of c_addr (r_end r) R"
    using u sz by (auto simp: u_def)
  show "w64 (w64 (c_addr c + header) + c_size c) = c_addr c + header + c_size c" using u by simp
qed

lemma min_scan_spec:
  assumes r: "region_ok r" and ok: "major_ok m r pv nx" and sz: "sz < 2 ^ 32"
  shows "r_chunks r = U @ V \<Longrightarrow> min_scan m (r_addr r) sz (first_of c_addr 0 V) = Some None
    \<or> (\<exists>L c R. r_chunks r = L @ c # R \<and> min_scan m (r_addr r) sz (first_of c_addr 0 V) = Some (Some (c_addr c))
         \<and> fits_between r (L @ [c]) R (c_addr c + header + c_size c) sz)"
proof (induction V arbitrary: U)
  case Nil
  then show ?case by (simp add: min_scan.simps)
next
  case (Cons c V)
  note g = gap_after_iff [OF r ok Cons.prems sz]
  have "c_addr c \<noteq> 0" using block_in_region(1) [OF r, of c] Cons.prems by auto
  show ?case
  proof (cases "gap_after m (r_addr r) sz (c_addr c)")
    case True
    then have "fits_between r (U @ [c]) V (c_addr c + header + c_size c) sz"
      using Cons.prems g(3) by (simp add: fits_between_def chunk_end_def)
    moreover have "min_scan m (r_addr r) sz (c_addr c) = Some (Some (c_addr c))"
      using True \<open>c_addr c \<noteq> 0\<close> by (subst min_scan.simps) simp
    ultimately show ?thesis using Cons.prems by auto
  next
    case False
    then have "min_scan m (r_addr r) sz (c_addr c) = min_scan m (r_addr r) sz (first_of c_addr 0 V)"
      using \<open>c_addr c \<noteq> 0\<close> g(1) by (subst min_scan.simps) simp
    then show ?thesis using Cons.IH [of "U @ [c]"] Cons.prems by simp
  qed
qed

text \<open>A region is used, or left for the next one, or for a new one when it is the last.\<close>

definition onwards :: "mem \<Rightarrow> nat \<Rightarrow> region \<Rightarrow> region list \<Rightarrow> bool \<Rightarrow> nat \<Rightarrow> kheap \<Rightarrow> (nat \<times> kheap) loop res \<Rightarrow> bool" where
  "onwards junk sz r Q bet best s x \<longleftrightarrow>
     (if Q \<noteq> [] then x = Inr (Go (r_addr (hd Q)) bet best s)
      else if bet then x = Inr (Go (kh_memRoot s) False best s)
      else x = ebind (append_page junk (r_addr r) sz s) (\<lambda>(p, s). if p = 0 then Inr (Stop (0, s)) else Inr (Go p bet best s)))"

lemma use_major_spec:
  assumes wf: "heap_wf s (P @ r # Q)" and ne: "\<forall>q \<in> set P \<union> set Q. r_chunks q \<noteq> []"
    and sz: "req + 32 < 2 ^ 32 - header" and room: "r_chunks r = [] \<Longrightarrow> req + 32 + 2 * header \<le> r_bytes r"
  shows "\<exists>x. use_major junk req (req + 32) (r_addr r) bet best s = Some x \<and>
    ((\<exists>p s'. x = Inr (Stop (p, s')) \<and> gained s (P @ r # Q) p req s' \<and> p \<noteq> 0 \<and> kh_vas s' = kh_vas s) \<or> (r_chunks r \<noteq> [] \<and> onwards junk (req + 32) r Q bet best s x))"
proof -
  let ?m = "kh_mem s" and ?A = "r_addr r" and ?sz = "req + 32"
  have r: "region_ok r" and ok: "major_ok ?m r (last_of r_addr 0 P) (first_of r_addr 0 Q)"
    and regQ: "\<forall>q \<in> set Q. region_ok q" using wf by (auto simp: heap_wf_def)
  have j: "major_at ?m ?A = \<lparr>mj_prev = last_of r_addr 0 P, mj_next = first_of r_addr 0 Q, mj_pages = r_pages r,
      mj_size = r_bytes r, mj_usage = usage (r_chunks r), mj_first = first_of c_addr 0 (r_chunks r)\<rparr>"
    using ok by (simp add: major_ok_def)
  have top: "r_end r < 2 ^ 64" "?A + header \<le> r_end r"
    using r heap_limit_less chunks_ok_le by (fastforce simp: region_ok_def)+
  have head: "w64 (?A + header) = ?A + header" "w64 (?sz + header) = ?sz + header" using top sz by simp_all
  have placed: "\<exists>p s'. place ?A (last_of c_addr 0 L) (first_of c_addr 0 R) a req ?sz s = (p, s') \<and> gained s (P @ r # Q) p req s' \<and> p \<noteq> 0 \<and> kh_vas s' = kh_vas s"
    if "fits_between r L R a ?sz" for L R a
    using place_gains [OF wf ne that] by (cases "place ?A (last_of c_addr 0 L) (first_of c_addr 0 R) a req ?sz s") auto
  have next0: "first_of r_addr 0 Q \<noteq> 0 \<longleftrightarrow> Q \<noteq> []" "Q \<noteq> [] \<Longrightarrow> first_of r_addr 0 Q = r_addr (hd Q)"
    using regQ heap_limit_less by (cases Q; auto simp: region_ok_def)+
  show ?thesis
  proof (cases "r_chunks r")
    case Nil
    have "fits_between r [] [] (?A + header) ?sz" using Nil room [OF Nil] by (simp add: fits_between_def chunk_end_def)
    then show ?thesis using placed [of "[]" "[]" "?A + header"] Nil by (auto simp: use_major_def Let_def j head)
  next
    case (Cons c cs)
    have c: "?A + header \<le> c_addr c" "c_addr c < 2 ^ 64" using block_in_region [OF r, of c] Cons by auto
    then have front: "sub64 (sub64 (c_addr c) ?A) header = c_addr c - ?A - header" using top by (simp add: sub64_le)
    show ?thesis
    proof (cases "?sz + header \<le> c_addr c - ?A - header")
      case True
      then have "fits_between r [] (r_chunks r) (?A + header) ?sz" using Cons by (auto simp: fits_between_def chunk_end_def)
      then show ?thesis using placed [of "[]" "r_chunks r" "?A + header"] True Cons c by (auto simp: use_major_def Let_def j head front)
    next
      case False
      have scan: "min_scan ?m ?A ?sz (c_addr c) = Some None \<or> (\<exists>L d R. r_chunks r = L @ d # R \<and> min_scan ?m ?A ?sz (c_addr c) = Some (Some (c_addr d))
          \<and> fits_between r (L @ [d]) R (c_addr d + header + c_size d) ?sz)"
        using min_scan_spec [OF r ok _, of ?sz "[]" "r_chunks r"] Cons sz by simp
      have u: "use_major junk req ?sz ?A bet best s = Option.bind (min_scan ?m ?A ?sz (c_addr c)) (\<lambda>found. case found of
            Some mn \<Rightarrow> Some (Inr (Stop (place ?A mn (mi_next (minor_at ?m mn)) (w64 (w64 (mn + header) + mi_size (minor_at ?m mn))) req ?sz s)))
          | None \<Rightarrow> if first_of r_addr 0 Q \<noteq> 0 then Some (Inr (Go (first_of r_addr 0 Q) bet best s))
              else if bet then Some (Inr (Go (kh_memRoot s) False best s))
              else Some (ebind (append_page junk ?A ?sz s) (\<lambda>(p, s). if p = 0 then Inr (Stop (0, s)) else Inr (Go p bet best s))))"
        using Cons c False sz by (simp add: use_major_def Let_def j head front)
      show ?thesis
      proof (rule disjE [OF scan])
        assume "min_scan ?m ?A ?sz (c_addr c) = Some None"
        then show ?thesis using u next0 Cons by (auto simp: onwards_def)
      next
        assume "\<exists>L d R. r_chunks r = L @ d # R \<and> min_scan ?m ?A ?sz (c_addr c) = Some (Some (c_addr d))
          \<and> fits_between r (L @ [d]) R (c_addr d + header + c_size d) ?sz"
        then obtain L d R where d: "r_chunks r = L @ d # R" "min_scan ?m ?A ?sz (c_addr c) = Some (Some (c_addr d))"
          "fits_between r (L @ [d]) R (c_addr d + header + c_size d) ?sz" by blast
        note g = gap_after_iff [OF r ok d(1), of ?sz]
        show ?thesis using u d(2) placed [OF d(3)] g sz by auto
      qed
    qed
  qed
qed

subsection \<open>New pages\<close>

lemma pages_for_bounds:
  assumes "sz + 2 * header + 4095 < 2 ^ 32"
  shows "sz + 2 * header \<le> pages_for sz * 4096" "pages_for sz * 4096 < 2 ^ 32" "0 < pages_for sz"
proof -
  define st where "st = sz + 2 * header"
  define k d where "k = st div 4096" and "d = st mod 4096"
  have st: "st = 4096 * k + d" "d < 4096" by (simp_all add: k_def d_def)
  have w: "w32 (w32 (sz + header) + header) = st" using assms by (simp add: w32_def st_def)
  have p: "pages_for sz = (let n = (if d = 0 then k else k + 1) in if n < 16 then 16 else n)"
    unfolding pages_for_def w l_pageSize_def l_pageCount_def k_def d_def Let_def ..
  show "sz + 2 * header \<le> pages_for sz * 4096" "pages_for sz * 4096 < 2 ^ 32" "0 < pages_for sz"
    using st assms unfolding p st_def [symmetric] by (auto simp: Let_def)
qed

definition can_grow :: "nat \<Rightarrow> kheap \<Rightarrow> bool" where
  "can_grow sz s \<longleftrightarrow> length (vs_ranges (kh_vas s)) + 1 \<le> vs_max_range_count (kh_vas s)
     \<and> select_virtual_address (kh_vas s) kernel_heap_base (pages_for sz * 4096) + pages_for sz * 4096 \<le> heap_limit"

definition new_region :: "nat \<Rightarrow> nat \<Rightarrow> region" where
  "new_region b sz = \<lparr>r_addr = b, r_pages = pages_for sz, r_chunks = []\<rparr>"

text \<open>The table of ranges has gained one entry at most.\<close>

definition grown :: "kheap \<Rightarrow> kheap \<Rightarrow> bool" where
  "grown s s' \<longleftrightarrow> length (vs_ranges (kh_vas s')) \<le> length (vs_ranges (kh_vas s)) + 1
     \<and> vs_max_range_count (kh_vas s') = vs_max_range_count (kh_vas s)"

text \<open>What a fresh major looks like to the rest of the heap.\<close>

definition fresh_major :: "kheap \<Rightarrow> region list \<Rightarrow> nat \<Rightarrow> nat \<Rightarrow> kheap \<Rightarrow> bool" where
  "fresh_major s rs sz b s' \<longleftrightarrow> b \<noteq> 0 \<and> region_ok (new_region b sz) \<and> major_ok (kh_mem s') (new_region b sz) 0 0
     \<and> changed_in (kh_mem s) (kh_mem s') {b ..< r_end (new_region b sz)}
     \<and> (\<forall>r \<in> set rs. apart (r_addr r) (r_bytes r) b (r_bytes (new_region b sz)))
     \<and> vas_ok heap_limit (kh_vas s') \<and> (\<forall>r \<in> set (new_region b sz # rs). held (vs_ranges (kh_vas s')) (r_addr r) (r_bytes r))
     \<and> kh_memRoot s' = kh_memRoot s \<and> kh_bestBet s' = kh_bestBet s \<and> kh_inuse s' = kh_inuse s
     \<and> kh_allocated s' = w64 (kh_allocated s + r_bytes (new_region b sz)) \<and> grown s s'"

lemma held_apart:
  assumes "held vs a n" "\<forall>x. b \<le> x \<and> x < b + k \<longrightarrow> claims vs x = 0" "0 < n" "0 < k"
  shows "apart a n b k"
proof (rule ccontr)
  assume "\<not> ?thesis"
  then have "b < a + n" "a < b + k" by (auto simp: apart_def)
  moreover define x where "x = max a b"
  ultimately have x: "a \<le> x" "x < a + n" "b \<le> x" "x < b + k" using assms(3,4) unfolding apart_def by (auto simp: max_def split: if_splits)
  obtain r where "r \<in> set vs" "covers r x" using assms(1) x by (auto simp: held_def inside_def covers_def)
  then have "0 < claims vs x" by (auto simp: claims_pos)
  then show False using assms(2) x by auto
qed

lemma allocate_new_page_fresh:
  assumes wf: "heap_wf s rs" and sz: "sz + 2 * header + 4095 < 2 ^ 32" and grow: "can_grow sz s"
  shows "\<exists>b s'. allocate_new_page junk sz s = Inr (b, s') \<and> fresh_major s rs sz b s'"
proof -
  let ?n = "pages_for sz * 4096"
  note p = pages_for_bounds [OF sz]
  have n: "page_align ?n = ?n" using p by (intro page_align_id) (auto simp: page_size_def)
  define b where "b = select_virtual_address (kh_vas s) kernel_heap_base ?n"
  have vas: "vas_ok heap_limit (kh_vas s)" and held: "\<forall>r \<in> set rs. held (vs_ranges (kh_vas s)) (r_addr r) (r_bytes r)"
    using wf by (auto simp: heap_wf_def)
  obtain v where v: "vas_alloc_range kernel_heap_base ?n (kh_vas s) = Inr (b, v)"
    using grow by (auto simp: vas_alloc_range_def vas_add_range_def can_grow_def Let_def n b_def kernel_heap_base_def page_size_def)
  have fits: "b + page_align ?n \<le> heap_limit" using grow by (simp add: can_grow_def n b_def)
  note a = vas_alloc_range_ok [OF vas v fits, unfolded n]
  define m1 where "m1 = (\<lambda>x. if b \<le> x \<and> x < b + ?n then junk x else kh_mem s x)"
  let ?j = "\<lparr>mj_prev = 0, mj_next = 0, mj_pages = pages_for sz, mj_size = ?n, mj_usage = header, mj_first = 0\<rparr>"
  define s' where "s' = s\<lparr>kh_vas := v, kh_mem := put_major b ?j m1, kh_allocated := w64 (kh_allocated s + ?n)\<rparr>"
  have b: "kernel_heap_base \<le> b" "b \<noteq> 0" using a heap_limit_less by auto
  have w: "w32 sz = sz" "w32 ?n = ?n" using sz p(2) by (simp_all add: w32_def)
  have "allocate_new_page junk sz s = Inr (b, s')"
    using v b(2) w by (simp add: allocate_new_page_def liballoc_alloc_def s'_def m1_def l_pageSize_def page_size_def Let_def)
  moreover have "fresh_major s rs sz b s'"
  proof -
    have "major_fits ?j" using p by (simp add: major_fits_def)
    then have "major_ok (kh_mem s') (new_region b sz) 0 0"
      by (simp add: major_ok_def new_region_def s'_def major_at_put usage_def)
    moreover have "region_ok (new_region b sz)"
      using a b p fits n by (simp add: region_ok_def new_region_def)
    moreover have "changed_in (kh_mem s) (kh_mem s') {b ..< b + ?n}"
      using p(1) put_outside(1) [of _ b ?j m1] by (fastforce simp: changed_in_def s'_def m1_def not_le not_less split: if_splits)
    moreover have "\<forall>r \<in> set rs. apart (r_addr r) (r_bytes r) b ?n"
    proof
      fix r
      assume r: "r \<in> set rs"
      then have "0 < r_bytes r" using wf by (auto simp: heap_wf_def region_ok_def)
      then show "apart (r_addr r) (r_bytes r) b ?n" using held r a p(3) by (intro held_apart) auto
    qed
    moreover have "vas_add_range b ?n (kh_vas s) = Inr v"
      using v n by (auto simp: vas_alloc_range_def Let_def ebind_eq_Inr)
    then have "grown s s'" using vas_add_range_length by (auto simp: grown_def s'_def)
    ultimately show ?thesis
      using a b(2) held by (auto simp: fresh_major_def new_region_def s'_def)
  qed
  ultimately show ?thesis by blast
qed

text \<open>Entering a fresh major behind the last one.\<close>

lemma heap_wf_first_page:
  assumes wf: "heap_wf s []" and fresh: "fresh_major s [] sz b s'"
  shows "heap_wf (s'\<lparr>kh_memRoot := b\<rparr>) [new_region b sz]"
  using assms by (auto simp: heap_wf_def fresh_major_def new_region_def w64_def)

lemma append_links:
  assumes apart: "clear A b" and "b < 2 ^ 64" "A < 2 ^ 64"
    and A: "major_at m A = ja" and B: "major_at m b = jb"
  defines "m' \<equiv> upd_major b (mj_prev_update (\<lambda>_. A)) (upd_major A (mj_next_update (\<lambda>_. b)) m)"
  shows "major_at m' A = ja\<lparr>mj_next := b\<rparr>" "major_at m' b = jb\<lparr>mj_prev := A\<rparr>"
    "\<And>x. m' x \<noteq> m x \<Longrightarrow> (A \<le> x \<and> x < A + header) \<or> (b \<le> x \<and> x < b + header)"
proof -
  let ?m1 = "upd_major A (mj_next_update (\<lambda>_. b)) m"
  have f: "major_fits ((major_at m A)\<lparr>mj_next := b\<rparr>)" "major_fits ((major_at ?m1 b)\<lparr>mj_prev := A\<rparr>)"
    using assms(2,3) by (simp_all add: fits_update)
  show "major_at m' A = ja\<lparr>mj_next := b\<rparr>"
    using apart f(1) A by (simp add: m'_def header_clear clear_sym upd_same)
  show "major_at m' b = jb\<lparr>mj_prev := A\<rparr>"
    using apart f(2) B by (simp add: m'_def header_clear upd_same)
  show "(A \<le> x \<and> x < A + header) \<or> (b \<le> x \<and> x < b + header)" if "m' x \<noteq> m x" for x
    using that by (rule_tac ccontr) (auto simp: m'_def upd_outside not_le not_less)
qed

lemma major_ok_header:
  assumes "major_ok m r pv nx" "region_ok r" "\<And>x. r_addr r + header \<le> x \<Longrightarrow> x < r_end r \<Longrightarrow> m' x = m x"
    and "major_at m' (r_addr r) = (major_at m (r_addr r))\<lparr>mj_prev := pv', mj_next := nx'\<rparr>"
  shows "major_ok m' r pv' nx'"
proof -
  have "chain (minor_ok m' (r_addr r)) c_addr 0 (r_chunks r) 0"
  proof (rule chain_mono)
    show "chain (minor_ok m (r_addr r)) c_addr 0 (r_chunks r) 0" using assms(1) by (simp add: major_ok_def)
    show "minor_ok m' (r_addr r) c u v" if c: "c \<in> set (r_chunks r)" "minor_ok m (r_addr r) c u v" for c u v
    proof (rule minor_ok_frame [OF c(2)])
      note b = block_in_region [OF assms(2) c(1)]
      show "c_addr c + header + 32 < 2 ^ 64" by (rule chunk_top [OF assms(2) c(1)])
      show "m' x = m x" if "c_addr c \<le> x" "x < c_addr c + header + 16" for x using assms(3) b that by auto
    qed
  qed
  then show ?thesis using assms(1,4) by (simp add: major_ok_def)
qed

lemma kept_payload:
  assumes "\<forall>r \<in> set rs. region_ok r" "\<And>r x. r \<in> set rs \<Longrightarrow> r_addr r + header \<le> x \<Longrightarrow> x < r_end r \<Longrightarrow> m' x = m x"
  shows "kept m m' rs"
proof -
  have "m' x = m x" if b: "(q, n) \<in> set (blocks rs)" and x: "q \<le> x" "x < q + n" for q n x
  proof -
    obtain r c where c: "r \<in> set rs" "c \<in> set (r_chunks r)" "q = chunk_ptr (c_addr c)" "n = c_req c"
      using b unfolding blocks_iff by blast
    then show ?thesis using assms(2) [OF c(1), of x] block_in_region [of r c] assms(1) x by auto
  qed
  then show ?thesis unfolding kept_def by blast
qed

lemma region_bounds:
  assumes "region_ok r"
  shows "r_addr r + header \<le> r_end r" "r_end r < 2 ^ 64" "r_addr r \<noteq> 0"
  using assms chunks_ok_le heap_limit_less by (fastforce simp: region_ok_def)+

lemma heap_wf_append:
  assumes wf: "heap_wf s (P @ [r])" and fresh: "fresh_major s (P @ [r]) sz b s1"
  defines "m' \<equiv> upd_major b (mj_prev_update (\<lambda>_. r_addr r)) (upd_major (r_addr r) (mj_next_update (\<lambda>_. b)) (kh_mem s1))"
  shows "heap_wf (s1\<lparr>kh_mem := m'\<rparr>) (P @ [r, new_region b sz]) \<and> kept (kh_mem s) m' (P @ [r])"
proof -
  let ?A = "r_addr r" and ?m = "kh_mem s" and ?n = "new_region b sz"
  have n: "r_addr ?n = b" "r_chunks ?n = []" "region_ok ?n" "major_ok (kh_mem s1) ?n 0 0" "b \<noteq> 0"
    using fresh by (auto simp: fresh_major_def new_region_def)
  have reg: "\<forall>q \<in> set (P @ [r]). region_ok q" "region_ok r"
    and sw: "sorted_wrt (\<lambda>r r'. apart (r_addr r) (r_bytes r) (r_addr r') (r_bytes r')) (P @ [r])"
    and ch: "chain (major_ok ?m) r_addr 0 P ?A" "major_ok ?m r (last_of r_addr 0 P) 0"
    using wf by (auto simp: heap_wf_def)
  have ap: "r_end q \<le> b \<or> r_end ?n \<le> r_addr q" if "q \<in> set (P @ [r])" for q
    using fresh that n(1) by (auto simp: fresh_major_def apart_def)
  have s1: "kh_mem s1 x = ?m x" if "x < b \<or> r_end ?n \<le> x" for x
    using fresh that n(1) by (fastforce simp: fresh_major_def changed_in_def)
  have same1: "kh_mem s1 x = ?m x" if "q \<in> set (P @ [r])" "r_addr q \<le> x" "x < r_end q" for q x
    using ap [OF that(1)] that(2,3) by (intro s1) auto
  have cl: "clear ?A b" using ap [of r] region_bounds [OF reg(2)] region_bounds [OF n(3)] n(1) by (auto simp: clear_def)
  have bd: "b < 2 ^ 64" "?A < 2 ^ 64" using region_bounds [OF n(3)] region_bounds [OF reg(2)] n(1) by auto
  note links = append_links [OF cl bd refl refl, of "kh_mem s1", folded m'_def]
  have off: "m' x = kh_mem s1 x" if "x < ?A \<or> ?A + header \<le> x" "x < b \<or> b + header \<le> x" for x
    using links(3) [of x] that by (cases "m' x = kh_mem s1 x") auto
  have P: "major_ok m' q u v" if q: "q \<in> set P" "major_ok ?m q u v" for q u v
  proof (rule major_ok_frame [OF q(2)])
    show "region_ok q" using reg q by simp
    have "r_end r \<le> r_addr q \<or> r_end q \<le> ?A" using regions_apart [OF sw, of q] q by auto
    then show "m' x = ?m x" if "r_addr q \<le> x" "x < r_end q" for x
      using same1 [of q x] off [of x] ap [of q] that q region_bounds [OF reg(2)] region_bounds [OF n(3)] n(1) by auto
  qed
  have payload: "m' x = ?m x" if q: "q \<in> set (P @ [r])" "r_addr q + header \<le> x" "x < r_end q" for q x
  proof -
    have "q = r \<or> r_end r \<le> r_addr q \<or> r_end q \<le> ?A" using regions_apart [OF sw, of q] q by auto
    then show ?thesis
      using same1 [of q x] off [of x] ap [of q] that region_bounds [OF reg(2)] region_bounds [OF n(3)] n(1) by auto
  qed
  have "major_at (kh_mem s1) ?A = major_at ?m ?A"
    using same1 [of r] region_bounds [OF reg(2)] by (intro header_cong) auto
  then have R: "major_ok m' r (last_of r_addr 0 P) b"
    using links(1) ch(2) payload by (intro major_ok_header [OF ch(2) reg(2)]) (auto simp: major_ok_def)
  have N: "major_ok m' ?n ?A 0"
    using links(2) n by (auto simp: major_ok_def)
  have "chain (major_ok m') r_addr 0 (P @ [r, ?n]) 0"
    using chain_mono [OF ch(1), of "major_ok m'"] P R N n(1) by auto
  moreover have "sorted_wrt (\<lambda>r r'. apart (r_addr r) (r_bytes r) (r_addr r') (r_bytes r')) (P @ [r, ?n])"
    using sw fresh n(1) by (auto simp: sorted_wrt_append fresh_major_def)
  moreover have "kept ?m m' (P @ [r])" using kept_payload [OF reg(1)] payload by blast
  moreover have "kh_allocated s1 = w64 (\<Sum>q\<leftarrow>P @ [r, ?n]. r_bytes q)"
  proof -
    have "kh_allocated s1 = w64 (w64 (\<Sum>q\<leftarrow>P @ [r]. r_bytes q) + r_bytes ?n)"
      using wf fresh unfolding heap_wf_def fresh_major_def by metis
    then show ?thesis unfolding w64_add by (simp add: add.assoc)
  qed
  ultimately show ?thesis
    using wf fresh n reg by (auto simp: heap_wf_def fresh_major_def)
qed

lemma append_page_grows:
  assumes wf: "heap_wf s (P @ [r])" and sz: "sz + 2 * header + 4095 < 2 ^ 32" and grow: "can_grow sz s"
  shows "\<exists>b s'. append_page junk (r_addr r) sz s = Inr (b, s') \<and> b \<noteq> 0 \<and> heap_wf s' (P @ [r, new_region b sz])
    \<and> kept (kh_mem s) (kh_mem s') (P @ [r]) \<and> grown s s'"
proof -
  obtain b s1 where alloc: "allocate_new_page junk sz s = Inr (b, s1)" and fresh: "fresh_major s (P @ [r]) sz b s1"
    using allocate_new_page_fresh [OF wf sz grow] by blast
  then have "b \<noteq> 0" "grown s s1" by (simp_all add: fresh_major_def)
  then show ?thesis using alloc heap_wf_append [OF wf fresh] by (auto simp: append_page_def Let_def grown_def)
qed

subsection \<open>The walk over the regions\<close>

lemma sub32_le: "b \<le> a \<Longrightarrow> a < 2 ^ 32 \<Longrightarrow> sub32 a b = a - b"
proof -
  assume "b \<le> a" "a < 2 ^ 32"
  then have "w32 b = b" by (simp add: w32_def)
  then have "sub32 a b = (a + 2 ^ 32 - b) mod 2 ^ 32" unfolding sub32_def by (simp only: w32_def)
  also have "\<dots> = a - b"
    unfolding diff_add_assoc2 [OF \<open>b \<le> a\<close>] mod_add_self2 using \<open>a < 2 ^ 32\<close> by (intro mod_less) linarith
  finally show ?thesis .
qed

lemma heap_wf_bet: "heap_wf s rs \<Longrightarrow> r \<in> set rs \<Longrightarrow> heap_wf (s\<lparr>kh_bestBet := r_addr r\<rparr>) rs"
  by (auto simp: heap_wf_def)

lemma kept_trans: "kept m m' rs \<Longrightarrow> kept m' m'' rs' \<Longrightarrow> set (blocks rs) \<subseteq> set (blocks rs') \<Longrightarrow> kept m m'' rs"
  unfolding kept_def by fastforce

lemma gained_mono:
  assumes "gained s' rs' p req s''" "kept (kh_mem s) (kh_mem s') rs" "blocks rs' = blocks rs"
  shows "gained s rs p req s''"
  using assms kept_trans [of "kh_mem s" "kh_mem s'" rs "kh_mem s''" rs'] unfolding gained_def by auto

text \<open>Two states that differ in the remembered major only.\<close>

definition alike :: "kheap \<Rightarrow> kheap \<Rightarrow> region list \<Rightarrow> bool" where
  "alike s s' rs \<longleftrightarrow> heap_wf s' rs \<and> kh_mem s' = kh_mem s \<and> kh_vas s' = kh_vas s"

lemma alike_simps:
  assumes "alike s s' rs"
  shows "gained s' rs p req s'' \<longleftrightarrow> gained s rs p req s''" "can_grow sz s' \<longleftrightarrow> can_grow sz s"
  using assms by (simp_all add: alike_def gained_def can_grow_def)

lemma region_free:
  assumes "heap_wf s (P @ r # Q)"
  shows "sub32 (mj_size (major_at (kh_mem s) (r_addr r))) (mj_usage (major_at (kh_mem s) (r_addr r))) = r_bytes r - usage (r_chunks r)"
    "mj_next (major_at (kh_mem s) (r_addr r)) = first_of r_addr 0 Q"
proof -
  have r: "region_ok r" and j: "major_ok (kh_mem s) r (last_of r_addr 0 P) (first_of r_addr 0 Q)" using assms by (auto simp: heap_wf_def)
  have "usage (r_chunks r) \<le> r_bytes r"
    using usage_le [of "r_addr r + header" "r_end r" "r_chunks r"] r by (simp add: region_ok_def usage_def)
  then show "sub32 (mj_size (major_at (kh_mem s) (r_addr r))) (mj_usage (major_at (kh_mem s) (r_addr r))) = r_bytes r - usage (r_chunks r)"
    using r j by (simp add: major_ok_def region_ok_def sub32_le)
  show "mj_next (major_at (kh_mem s) (r_addr r)) = first_of r_addr 0 Q" using j by (simp add: major_ok_def)
qed

lemma maj_step_spec:
  assumes wf: "heap_wf s (P @ r # Q)" and ne: "\<forall>q \<in> set P \<union> set Q. r_chunks q \<noteq> []"
    and sz: "req + 32 + 2 * header + 4095 < 2 ^ 32" and grow: "can_grow (req + 32) s"
    and room: "r_chunks r = [] \<Longrightarrow> req + 32 + 2 * header \<le> r_bytes r"
  shows "\<exists>x s1 best1. maj_step junk req (req + 32) (r_addr r) bet best s = Some x \<and> alike s s1 (P @ r # Q) \<and>
    ((\<exists>p s'. x = Inr (Stop (p, s')) \<and> gained s (P @ r # Q) p req s' \<and> p \<noteq> 0 \<and> grown s s') \<or> (r_chunks r \<noteq> [] \<and> onwards junk (req + 32) r Q bet best1 s1 x))"
proof -
  let ?sz = "req + 32" and ?rs = "P @ r # Q"
  define d where "d = r_bytes r - usage (r_chunks r)"
  define s1 where "s1 = (if best < d then s\<lparr>kh_bestBet := r_addr r\<rparr> else s)"
  have al: "alike s s1 ?rs" using wf heap_wf_bet [OF wf, of r] by (simp add: alike_def s1_def)
  then have wf1: "heap_wf s1 ?rs" by (simp add: alike_def)
  have grow1: "can_grow ?sz s1" using grow alike_simps [OF al] by simp
  have w: "w64 (?sz + header) = ?sz + header" using sz by simp
  have sz': "?sz < 2 ^ 32 - header" using sz by simp
  have step: "maj_step junk req ?sz (r_addr r) bet best s = (if d < ?sz + header
      then if first_of r_addr 0 Q \<noteq> 0 then Some (Inr (Go (first_of r_addr 0 Q) bet (max best d) s1))
           else if bet then Some (Inr (Go (kh_memRoot s1) False (max best d) s1))
           else (case append_page junk (r_addr r) ?sz s1 of
                   Inl e \<Rightarrow> Some (Inl e)
                 | Inr (p, s) \<Rightarrow> if p = 0 then Some (Inr (Stop (0, s))) else use_major junk req ?sz p bet (max best d) s)
      else use_major junk req ?sz (r_addr r) bet (max best d) s1)"
    unfolding maj_step_def Let_def region_free [OF wf] w d_def [symmetric] s1_def [symmetric] ..
  show ?thesis
  proof (cases "d < ?sz + header")
    case False
    then show ?thesis
      using step al use_major_spec [OF wf1 ne sz' room, of junk bet "max best d"] alike_simps [OF al] by (auto simp: grown_def alike_def)
  next
    case True
    have rne: "r_chunks r \<noteq> []" using room True by (auto simp: d_def usage_def)
    have Q: "Q \<noteq> [] \<Longrightarrow> first_of r_addr 0 Q = r_addr (hd Q) \<and> first_of r_addr 0 Q \<noteq> 0"
      using wf region_bounds(3) by (cases Q) (auto simp: heap_wf_def)
    show ?thesis
    proof (cases "Q = [] \<and> \<not> bet")
      case False
      then show ?thesis using step True al rne Q by (cases "Q = []") (auto simp: onwards_def)
    next
      case last: True
      obtain b s2 where b: "append_page junk (r_addr r) ?sz s1 = Inr (b, s2)" "b \<noteq> 0" "heap_wf s2 ((P @ [r]) @ new_region b ?sz # [])"
          "kept (kh_mem s1) (kh_mem s2) (P @ [r])" "grown s1 s2"
        using append_page_grows [of s1 P r ?sz junk] wf1 last sz grow1 by auto
      have n: "r_addr (new_region b ?sz) = b" "r_chunks (new_region b ?sz) = []" "?sz + 2 * header \<le> r_bytes (new_region b ?sz)"
        using pages_for_bounds(1) [OF sz] by (simp_all add: new_region_def)
      obtain p s' where p: "use_major junk req ?sz b bet (max best d) s2 = Some (Inr (Stop (p, s')))"
          "gained s2 ((P @ [r]) @ new_region b ?sz # []) p req s'" "p \<noteq> 0" "kh_vas s' = kh_vas s2"
        using use_major_spec [OF b(3) _ sz', of junk bet "max best d"] ne rne n last by auto
      have "gained s ?rs p req s'"
        using gained_mono [OF p(2), of s1 "P @ [r]"] b(4) n(2) alike_simps [OF al] last by simp
      moreover have "grown s s'" using b(5) p(4) al by (simp add: grown_def alike_def)
      ultimately show ?thesis using step True last b(1,2) p(1,3) al by auto
    qed
  qed
qed

lemma maj_loop_step:
  assumes "maj_step junk req sz maj bet best s = Some (Inr x)" "maj \<noteq> 0"
  shows "maj_loop junk req sz maj bet best s =
    (case x of Stop r \<Rightarrow> Some (Inr r) | Go maj' bet' best' s' \<Rightarrow> maj_loop junk req sz maj' bet' best' s')"
  using assms by (subst maj_loop.simps) simp

definition served :: "(nat \<times> kheap) res option \<Rightarrow> kheap \<Rightarrow> region list \<Rightarrow> nat \<Rightarrow> bool" where
  "served res s rs req \<longleftrightarrow> (\<exists>p s'. res = Some (Inr (p, s')) \<and> gained s rs p req s' \<and> p \<noteq> 0 \<and> grown s s')"

lemma served_alike: "alike s s' rs \<Longrightarrow> served res s' rs req \<longleftrightarrow> served res s rs req"
  by (simp add: served_def alike_simps) (simp add: alike_def grown_def)

lemma loop_in_fresh_region:
  assumes wf: "heap_wf s (P @ [r])" and ne: "\<forall>q \<in> set P. r_chunks q \<noteq> []" and r: "r_chunks r = []" "req + 32 + 2 * header \<le> r_bytes r"
    and sz: "req + 32 + 2 * header + 4095 < 2 ^ 32"
  shows "\<exists>p s'. maj_loop junk req (req + 32) (r_addr r) bet best s = Some (Inr (p, s')) \<and> gained s (P @ [r]) p req s' \<and> p \<noteq> 0 \<and> kh_vas s' = kh_vas s"
proof -
  let ?sz = "req + 32"
  define d where "d = r_bytes r - usage (r_chunks r)"
  define s1 where "s1 = (if best < d then s\<lparr>kh_bestBet := r_addr r\<rparr> else s)"
  have al: "alike s s1 (P @ [r])" using wf heap_wf_bet [OF wf, of r] by (simp add: alike_def s1_def)
  have w: "w64 (?sz + header) = ?sz + header" "?sz < 2 ^ 32 - header" using sz by simp_all
  have "\<not> d < ?sz + header" using r by (simp add: d_def usage_def)
  then have step: "maj_step junk req ?sz (r_addr r) bet best s = use_major junk req ?sz (r_addr r) bet (max best d) s1"
    unfolding maj_step_def Let_def region_free [OF wf] w d_def [symmetric] s1_def [symmetric] by simp
  obtain p s' where "use_major junk req ?sz (r_addr r) bet (max best d) s1 = Some (Inr (Stop (p, s')))" "gained s1 (P @ [r]) p req s'" "p \<noteq> 0" "kh_vas s' = kh_vas s1"
    using use_major_spec [of s1 P r "[]" req junk bet "max best d"] al ne r w(2) by (auto simp: alike_def)
  then show ?thesis
    using maj_loop_step [of junk req ?sz "r_addr r" bet best s "Stop (p, s')"] step region_bounds(3) [of r] wf alike_simps [OF al] al
    by (auto simp: alike_def heap_wf_def)
qed

text \<open>A region serves the request, or the walk goes on and serves it.\<close>

lemma loop_at_region:
  assumes wf: "heap_wf s (P @ r # Q)" and ne: "\<forall>q \<in> set (P @ r # Q). r_chunks q \<noteq> []"
    and sz: "req + 32 + 2 * header + 4095 < 2 ^ 32" and grow: "can_grow (req + 32) s"
    and on: "\<And>x s1 best1. alike s s1 (P @ r # Q) \<Longrightarrow> can_grow (req + 32) s1 \<Longrightarrow> onwards junk (req + 32) r Q bet best1 s1 x \<Longrightarrow>
      \<exists>maj' bet' best' s'. x = Inr (Go maj' bet' best' s') \<and> served (maj_loop junk req (req + 32) maj' bet' best' s') s1 (P @ r # Q) req"
  shows "served (maj_loop junk req (req + 32) (r_addr r) bet best s) s (P @ r # Q) req"
proof -
  let ?sz = "req + 32"
  have ne': "\<forall>q \<in> set P \<union> set Q. r_chunks q \<noteq> []" "r_addr r \<noteq> 0" using ne wf region_bounds(3) [of r] by (auto simp: heap_wf_def)
  obtain x s1 best1 where x: "maj_step junk req ?sz (r_addr r) bet best s = Some x" "alike s s1 (P @ r # Q)"
      "(\<exists>p s'. x = Inr (Stop (p, s')) \<and> gained s (P @ r # Q) p req s' \<and> p \<noteq> 0 \<and> grown s s') \<or> onwards junk ?sz r Q bet best1 s1 x"
    using maj_step_spec [OF wf ne'(1) sz grow, of junk bet best] ne by auto
  have grow1: "can_grow ?sz s1" using grow alike_simps [OF x(2)] by simp
  from x(3) show ?thesis
  proof
    assume "\<exists>p s'. x = Inr (Stop (p, s')) \<and> gained s (P @ r # Q) p req s' \<and> p \<noteq> 0 \<and> grown s s'"
    then show ?thesis using maj_loop_step [of junk req ?sz "r_addr r" bet best s] x(1) ne'(2) by (auto simp: served_def)
  next
    assume "onwards junk ?sz r Q bet best1 s1 x"
    from on [OF x(2) grow1 this] show ?thesis
      using maj_loop_step [of junk req ?sz "r_addr r" bet best s] x(1) ne'(2) served_alike [OF x(2)] by auto
  qed
qed

lemma loop_at_last_region:
  assumes wf: "heap_wf s (P @ [r])" and ne: "\<forall>q \<in> set (P @ [r]). r_chunks q \<noteq> []"
    and sz: "req + 32 + 2 * header + 4095 < 2 ^ 32" and grow: "can_grow (req + 32) s" and x: "onwards junk (req + 32) r [] False best1 s x"
  shows "\<exists>maj' bet' best' s'. x = Inr (Go maj' bet' best' s') \<and> served (maj_loop junk req (req + 32) maj' bet' best' s') s (P @ [r]) req"
proof -
  let ?sz = "req + 32"
  obtain b s2 where b: "append_page junk (r_addr r) ?sz s = Inr (b, s2)" "b \<noteq> 0" "heap_wf s2 ((P @ [r]) @ [new_region b ?sz])"
      "kept (kh_mem s) (kh_mem s2) (P @ [r])" "grown s s2"
    using append_page_grows [OF wf _ grow, of junk] sz by auto
  have n: "r_addr (new_region b ?sz) = b" "r_chunks (new_region b ?sz) = []" "?sz + 2 * header \<le> r_bytes (new_region b ?sz)"
    using pages_for_bounds(1) [OF sz] by (simp_all add: new_region_def)
  have "x = Inr (Go b False best1 s2)" using x b(1,2) by (auto simp: onwards_def)
  moreover obtain p s' where "maj_loop junk req ?sz b False best1 s2 = Some (Inr (p, s'))"
      "gained s2 ((P @ [r]) @ [new_region b ?sz]) p req s'" "p \<noteq> 0" "kh_vas s' = kh_vas s2"
    using loop_in_fresh_region [OF b(3) ne n(2,3) sz, where junk = junk and bet = False and best = best1] unfolding n(1) by blast
  ultimately show ?thesis
    using gained_mono [of s2 "(P @ [r]) @ [new_region b ?sz]" p req s' s "P @ [r]"] b(4,5) n(2) by (auto simp: served_def grown_def)
qed

text \<open>Walking on from a region without having started at the remembered one, and then from that one.\<close>

lemma loop_from_region:
  assumes "heap_wf s (P @ r # Q)" "\<forall>q \<in> set (P @ r # Q). r_chunks q \<noteq> []"
    and sz: "req + 32 + 2 * header + 4095 < 2 ^ 32" and "can_grow (req + 32) s"
  shows "served (maj_loop junk req (req + 32) (r_addr r) False best s) s (P @ r # Q) req"
  using assms(1,2,4)
proof (induction Q arbitrary: P r s best)
  case (Nil P r s best)
  show ?case
    using loop_at_last_region [of _ P r req junk] Nil.prems(2) sz by (intro loop_at_region [OF Nil.prems(1,2) sz Nil.prems(3)]) (auto simp: alike_def)
next
  case (Cons r' Q P r s best)
  show ?case
    using Cons.IH [of _ "P @ [r]" r'] Cons.prems(2) by (intro loop_at_region [OF Cons.prems(1,2) sz Cons.prems(3)]) (auto simp: alike_def onwards_def)
qed

lemma loop_from_best:
  assumes "heap_wf s (P @ r # Q)" "\<forall>q \<in> set (P @ r # Q). r_chunks q \<noteq> []"
    and sz: "req + 32 + 2 * header + 4095 < 2 ^ 32" and "can_grow (req + 32) s"
  shows "served (maj_loop junk req (req + 32) (r_addr r) True best s) s (P @ r # Q) req"
  using assms(1,2,4)
proof (induction Q arbitrary: P r s best)
  case (Nil P r s best)
  obtain r0 Q0 where r0: "P @ [r] = r0 # Q0" by (cases P) auto
  have "served (maj_loop junk req (req + 32) (kh_memRoot s1) False best1 s1) s1 (P @ [r]) req"
    if "heap_wf s1 (P @ [r])" "can_grow (req + 32) s1" for s1 best1
    using loop_from_region [of s1 "[]" r0 Q0 req junk best1] that Nil.prems(2) sz r0 by (auto simp: heap_wf_def)
  then show ?case
    by (intro loop_at_region [OF Nil.prems(1,2) sz Nil.prems(3)]) (auto simp: alike_def onwards_def)
next
  case (Cons r' Q P r s best)
  show ?case
    using Cons.IH [of _ "P @ [r]" r'] Cons.prems(2) by (intro loop_at_region [OF Cons.prems(1,2) sz Cons.prems(3)]) (auto simp: alike_def onwards_def)
qed

text \<open>The first allocation of all takes new pages.\<close>

lemma kmalloc_first:
  assumes wf: "heap_wf s []" and sz: "req + 32 + 2 * header + 4095 < 2 ^ 32" and grow: "can_grow (req + 32) s"
  shows "\<exists>p s' b s1. kmalloc junk req s = Some (Inr (p, s')) \<and> allocate_new_page junk (req + 32) s = Inr (b, s1)
    \<and> gained s [] p req s' \<and> p \<noteq> 0 \<and> kh_vas s' = kh_vas s1 \<and> grown s s'"
proof -
  let ?sz = "req + 32"
  obtain b s1 where b: "allocate_new_page junk ?sz s = Inr (b, s1)" "fresh_major s [] ?sz b s1"
    using allocate_new_page_fresh [OF wf sz grow] by blast
  let ?s1 = "s1\<lparr>kh_memRoot := b\<rparr>"
  have wf1: "heap_wf ?s1 ([] @ [new_region b ?sz])" using heap_wf_first_page [OF wf b(2)] by simp
  have n: "r_addr (new_region b ?sz) = b" "r_chunks (new_region b ?sz) = []" "?sz + 2 * header \<le> r_bytes (new_region b ?sz)"
    using pages_for_bounds(1) [OF sz] by (simp_all add: new_region_def)
  have z: "kh_bestBet s1 = 0" "kh_memRoot s = 0" "b \<noteq> 0" using wf b(2) by (auto simp: heap_wf_def fresh_major_def)
  have "kmalloc junk req s = malloc_sized junk req ?sz s"
    using sz by (simp add: kmalloc_def ALIGNMENT_def ALIGN_INFO_def Let_def add.commute [of req])
  also have "\<dots> = maj_loop junk req ?sz b False 0 ?s1" using b z by (simp add: malloc_sized_def malloc_search_def Let_def)
  finally have k: "kmalloc junk req s = maj_loop junk req ?sz b False 0 ?s1" .
  obtain p s' where p: "maj_loop junk req ?sz b False 0 ?s1 = Some (Inr (p, s'))" "gained ?s1 [new_region b ?sz] p req s'" "p \<noteq> 0" "kh_vas s' = kh_vas ?s1"
    using loop_in_fresh_region [OF wf1 _ n(2,3) sz, where junk = junk and bet = False and best = 0] unfolding n(1) by auto
  have "grown s s1" using b(2) by (simp add: fresh_major_def)
  moreover have "gained s [] p req s'" using gained_mono [OF p(2), of s "[]"] n(2) by (simp add: kept_def)
  ultimately show ?thesis using k p b(1) by (auto simp: grown_def)
qed

lemma kmalloc_served:
  assumes ok: "heap_ok s rs" and sz: "req + 32 + 2 * header + 4095 < 2 ^ 32" and grow: "can_grow (req + 32) s"
  shows "served (kmalloc junk req s) s rs req"
proof -
  let ?sz = "req + 32"
  have wf: "heap_wf s rs" and ne: "\<forall>q \<in> set rs. r_chunks q \<noteq> []" using ok by (auto simp: heap_ok_def)
  have k: "kmalloc junk req s = malloc_sized junk req ?sz s" using sz by (simp add: kmalloc_def ALIGNMENT_def ALIGN_INFO_def Let_def add.commute [of req])
  show ?thesis
  proof (cases rs)
    case Nil
    then show ?thesis using kmalloc_first [of s req junk] wf sz grow by (auto simp: served_def)
  next
    case (Cons r0 Q0)
    have root: "kh_memRoot s = r_addr r0" "r_addr r0 \<noteq> 0" using wf Cons region_bounds(3) [of r0] by (auto simp: heap_wf_def)
    have start: "served (maj_loop junk req ?sz (kh_memRoot s) False best s) s rs req" for best
      using loop_from_region [of s "[]" r0 Q0 req junk best] wf ne sz grow Cons root by auto
    have "served (maj_loop junk req ?sz (kh_bestBet s) True best s) s rs req" if bet: "kh_bestBet s \<noteq> 0" for best
    proof -
      obtain r where r: "r \<in> set rs" "kh_bestBet s = r_addr r" using wf bet by (auto simp: heap_wf_def)
      then obtain P Q where "rs = P @ r # Q" by (meson split_list)
      then show ?thesis using loop_from_best [of s P r Q req junk best] wf ne sz grow r(2) by simp
    qed
    then show ?thesis using start root by (simp add: k malloc_sized_def malloc_search_def Let_def)
  qed
qed

end
