(* ===== verification/Kheap_Free.thy ===== *)
theory Kheap_Free
  imports Kheap_Malloc
begin

text \<open>
  Freeing and reallocating on a well-formed heap (\<^verbatim>\<open>kfree\<close>, \<^verbatim>\<open>krealloc\<close> and \<^verbatim>\<open>kcalloc\<close> of
  \<^verbatim>\<open>kernel/std/kheap.c\<close>), the independence of the heap from what its clients write into their blocks, and
  the properties of the whole component.
\<close>

subsection \<open>Taking a minor out\<close>

lemma chunks_ok_remove: "chunks_ok lo hi (L @ c # R) \<Longrightarrow> chunks_ok lo hi (L @ R)"
proof -
  assume "chunks_ok lo hi (L @ c # R)"
  then have L: "chunks_ok lo (chunk_end lo L) L" and c: "chunk_end lo L \<le> c_addr c" and R: "chunks_ok (c_addr c + header + c_size c) hi R"
    by (auto simp: chunks_ok_append)
  have "chunks_ok (chunk_end lo L) hi R" using c R by (cases R) auto
  then show ?thesis using L by (simp add: chunks_ok_append)
qed

lemma unlink_minor_reads:
  fixes m :: mem
  assumes k: "minor_at m a = \<lparr>mi_prev = prv, mi_next = nxt, mi_block = A, mi_magic = LIBALLOC_MAGIC, mi_size = sz, mi_req_size = req\<rparr>"
    and apart: "clear A a" "prv \<noteq> 0 \<longrightarrow> clear A prv \<and> clear prv a" "nxt \<noteq> 0 \<longrightarrow> clear A nxt \<and> clear nxt a"
      "prv \<noteq> 0 \<longrightarrow> nxt \<noteq> 0 \<longrightarrow> clear prv nxt"
  defines "m' \<equiv> unlink_minor A a m"
  shows "major_at m' A = (major_at m A)\<lparr>mj_usage := sub32 (mj_usage (major_at m A)) (sz + header),
           mj_first := (if prv = 0 then nxt else mj_first (major_at m A))\<rparr>"
    and "prv \<noteq> 0 \<Longrightarrow> minor_at m' prv = (minor_at m prv)\<lparr>mi_next := nxt\<rparr>"
    and "nxt \<noteq> 0 \<Longrightarrow> minor_at m' nxt = (minor_at m nxt)\<lparr>mi_prev := prv\<rparr>"
    and "\<And>x. m' x \<noteq> m x \<Longrightarrow> (A \<le> x \<and> x < A + header) \<or> (prv \<noteq> 0 \<and> prv \<le> x \<and> x < prv + header)
           \<or> (nxt \<noteq> 0 \<and> nxt \<le> x \<and> x < nxt + header) \<or> (a \<le> x \<and> x < a + header)"
proof -
  define m1 where "m1 = upd_major A (mj_usage_update (\<lambda>u. sub32 u (sz + header))) m"
  define m2 where "m2 = upd_minor a (mi_magic_update (\<lambda>_. LIBALLOC_DEAD)) m1"
  define m3 where "m3 = (if nxt \<noteq> 0 then upd_minor nxt (mi_prev_update (\<lambda>_. prv)) m2 else m2)"
  have m': "m' = (if prv \<noteq> 0 then upd_minor prv (mi_next_update (\<lambda>_. nxt)) m3 else upd_major A (mj_first_update (\<lambda>_. nxt)) m3)"
    by (simp add: m'_def unlink_minor_def k Let_def m1_def m2_def m3_def)
  have w: "prv < 2 ^ 64" "nxt < 2 ^ 64" using header_fits(2) [of m a] by (simp_all add: k minor_fits_def)
  have "major_fits (mj_usage_update (\<lambda>u. sub32 u (sz + header)) (major_at m A))"
    using header_fits(1) [of m A] by (simp add: major_fits_def sub32_def w32_def)
  then have A: "major_at m3 A = (major_at m A)\<lparr>mj_usage := sub32 (mj_usage (major_at m A)) (sz + header)\<rparr>"
    using apart by (auto simp: m3_def m2_def m1_def header_clear clear_sym upd_same)
  have f: "major_fits ((major_at m3 A)\<lparr>mj_first := nxt\<rparr>)" using w by (simp add: fits_update)
  show "major_at m' A = (major_at m A)\<lparr>mj_usage := sub32 (mj_usage (major_at m A)) (sz + header),
      mj_first := (if prv = 0 then nxt else mj_first (major_at m A))\<rparr>"
    using apart(2) f A by (auto simp: m' header_clear clear_sym upd_same)
  show "minor_at m' prv = (minor_at m prv)\<lparr>mi_next := nxt\<rparr>" if "prv \<noteq> 0"
  proof -
    have "minor_at m3 prv = minor_at m prv" using that apart by (auto simp: m3_def m2_def m1_def header_clear clear_sym)
    moreover have "minor_fits ((minor_at m prv)\<lparr>mi_next := nxt\<rparr>)" using w by (simp add: fits_update)
    ultimately show ?thesis using that by (simp add: m' upd_same)
  qed
  show "minor_at m' nxt = (minor_at m nxt)\<lparr>mi_prev := prv\<rparr>" if "nxt \<noteq> 0"
  proof -
    have "minor_at m2 nxt = minor_at m nxt" using that apart by (auto simp: m2_def m1_def header_clear clear_sym)
    moreover have "minor_fits ((minor_at m nxt)\<lparr>mi_prev := prv\<rparr>)" using w by (simp add: fits_update)
    ultimately have "minor_at m3 nxt = (minor_at m nxt)\<lparr>mi_prev := prv\<rparr>" using that by (simp add: m3_def upd_same)
    then show ?thesis using that apart by (auto simp: m' header_clear clear_sym)
  qed
  show "(A \<le> x \<and> x < A + header) \<or> (prv \<noteq> 0 \<and> prv \<le> x \<and> x < prv + header)
      \<or> (nxt \<noteq> 0 \<and> nxt \<le> x \<and> x < nxt + header) \<or> (a \<le> x \<and> x < a + header)" if "m' x \<noteq> m x" for x
  proof (rule ccontr)
    assume n: "\<not> ?thesis"
    then have "m2 x = m x" by (auto simp: m2_def m1_def upd_outside not_le not_less)
    moreover have "m3 x = m2 x" using n by (auto simp: m3_def upd_outside not_le not_less)
    moreover have "m' x = m3 x" using n by (auto simp: m' upd_outside not_le not_less)
    ultimately show False using that by simp
  qed
qed

lemma usage_remove: "sub32 (usage (L @ c # R)) (c_size c + header) = usage (L @ R)" if "usage (L @ c # R) < 2 ^ 32"
  using that by (simp add: sub32_le usage_insert)

lemma unlink_minor_region:
  assumes r: "region_ok r" and ok: "major_ok m r pv nx" and rs: "r_chunks r = L @ c # R"
  defines "m' \<equiv> unlink_minor (r_addr r) (c_addr c) m" and "r' \<equiv> r\<lparr>r_chunks := L @ R\<rparr>"
  shows "major_ok m' r' pv nx \<and> changed_in m m' (headers r) \<and> region_ok r'"
proof -
  let ?A = "r_addr r" and ?lo = "r_addr r + header" and ?p = "last_of c_addr 0 L" and ?n = "first_of c_addr 0 R" and ?a = "c_addr c"
  let ?e = "c_addr c + header + c_size c"
  have co: "chunks_ok ?lo (r_end r) (L @ c # R)" and top: "r_end r < 2 ^ 64" "r_bytes r < 2 ^ 32"
    using r rs heap_limit_less by (auto simp: region_ok_def)
  then have okL: "chunks_ok ?lo ?a L" and okR: "chunks_ok ?e (r_end r) R" and a: "?lo \<le> ?a" "?e \<le> r_end r"
    using chunks_ok_in [OF co, of c] chunks_ok_append [of ?lo ?a L "[]"] by (auto simp: chunks_ok_append)
  have lo: "0 < ?lo" "?a \<le> ?e" by auto
  note nb = neighbours [OF okL okR lo]
  have chains: "chain (minor_ok m ?A) c_addr 0 L ?a" "minor_ok m ?A c ?p ?n" "chain (minor_ok m ?A) c_addr ?a R 0"
      and mj: "major_at m ?A = \<lparr>mj_prev = pv, mj_next = nx, mj_pages = r_pages r, mj_size = r_bytes r,
        mj_usage = usage (L @ c # R), mj_first = first_of c_addr 0 (L @ c # R)\<rparr>"
    using ok by (auto simp: major_ok_def rs)
  have k: "minor_at m ?a = \<lparr>mi_prev = ?p, mi_next = ?n, mi_block = ?A, mi_magic = LIBALLOC_MAGIC, mi_size = c_size c, mi_req_size = c_req c\<rparr>"
    using chains(2) by (simp add: minor_ok_def)
  have h: "clear ?A ?a" "?p \<noteq> 0 \<longrightarrow> clear ?A ?p \<and> clear ?p ?a" "?n \<noteq> 0 \<longrightarrow> clear ?A ?n \<and> clear ?n ?a"
      "?p \<noteq> 0 \<longrightarrow> ?n \<noteq> 0 \<longrightarrow> clear ?p ?n"
    using nb a by (auto simp: clear_def)
  note reads = unlink_minor_reads [OF k h, folded m'_def]
  have a64: "?a < 2 ^ 64" using a top by simp
  have "chain (minor_ok m' ?A) c_addr 0 L ?n"
  proof (rule relink_left [OF okL order_refl a64 chains(1)])
    show "x < ?lo \<or> (L \<noteq> [] \<and> c_addr (last L) \<le> x \<and> x < c_addr (last L) + header) \<or> ?a \<le> x" if "m' x \<noteq> m x" for x
      using reads(4) [OF that] nb a by auto
    show "minor_at m' (c_addr (last L)) = (minor_at m (c_addr (last L)))\<lparr>mi_next := ?n\<rparr>" if "L \<noteq> []"
      using reads(2) nb that by simp
  qed
  moreover have "chain (minor_ok m' ?A) c_addr ?p R 0"
  proof (rule relink_right [OF okR top(1) chains(3)])
    show "x < ?e \<or> (R \<noteq> [] \<and> c_addr (hd R) \<le> x \<and> x < c_addr (hd R) + header)" if "m' x \<noteq> m x" for x
      using reads(4) [OF that] nb a by auto
    show "minor_at m' (c_addr (hd R)) = (minor_at m (c_addr (hd R)))\<lparr>mi_prev := ?p\<rparr>" if "R \<noteq> []"
      using reads(3) nb that by simp
  qed
  moreover have "changed_in m m' (headers r)"
    unfolding changed_in_def
  proof (intro allI impI)
    fix x
    assume "m' x \<noteq> m x"
    then show "x \<in> headers r"
      using reads(4) [of x] nb last_in_set [of L] hd_in_set [of R] by (auto simp: headers_def rs)
  qed
  moreover have "usage (L @ c # R) < 2 ^ 32"
    using usage_le [OF co] top(2) by (simp add: usage_def)
  moreover have "region_ok r'" using r chunks_ok_remove [OF co] by (simp add: region_ok_def r'_def)
  moreover have "first_of c_addr 0 (L @ R) = (if ?p = 0 then ?n else first_of c_addr 0 (L @ c # R))"
    using nb(1) by (cases L) auto
  ultimately show ?thesis
    using reads(1) mj by (auto simp: r'_def major_ok_def usage_remove)
qed

lemma sub64_w64: "b \<le> 2 ^ 64 \<Longrightarrow> sub64 (w64 (x + b)) b = w64 x"
proof -
  assume b: "b \<le> 2 ^ 64"
  have "sub64 (w64 (x + b)) b = ((x + b) mod 2 ^ 64 + (2 ^ 64 - b)) mod 2 ^ 64"
    using b unfolding sub64_def w64_def by (simp only: diff_add_assoc)
  also have "\<dots> = (x + b + (2 ^ 64 - b)) mod 2 ^ 64" by (rule mod_add_left_eq)
  also have "x + b + (2 ^ 64 - b) = x + 2 ^ 64" using b by simp
  finally show ?thesis by (simp only: w64_def mod_add_self2)
qed

lemma unlink_heap:
  assumes wf: "heap_wf s (P @ r # Q)" and rs: "r_chunks r = L @ c # R"
  defines "s' \<equiv> s\<lparr>kh_inuse := sub64 (kh_inuse s) (c_size c), kh_mem := unlink_minor (r_addr r) (c_addr c) (kh_mem s)\<rparr>"
    and "r' \<equiv> r\<lparr>r_chunks := L @ R\<rparr>"
  shows "heap_wf s' (P @ r' # Q) \<and> kept (kh_mem s) (kh_mem s') (P @ r # Q)"
proof -
  let ?m = "unlink_minor (r_addr r) (c_addr c) (kh_mem s)"
  have r: "region_ok r" and reg: "\<forall>q \<in> set (P @ r # Q). region_ok q"
    and sw: "sorted_wrt (\<lambda>r r'. apart (r_addr r) (r_bytes r) (r_addr r') (r_bytes r')) (P @ r # Q)"
    using wf by (auto simp: heap_wf_def)
  note un = unlink_minor_region [OF r _ rs]
  obtain pv nx where "major_ok (kh_mem s) r pv nx" using wf by (auto simp: heap_wf_def)
  then have ch: "changed_in (kh_mem s) ?m (headers r)" and r': "region_ok r'" using un by (auto simp: r'_def)
  have "headers r \<subseteq> {r_addr r ..< r_end r}"
    using block_in_region [OF r] region_bounds(1) [OF r] by (fastforce simp: headers_def)
  then have ch': "changed_in (kh_mem s) ?m {r_addr r ..< r_end r}" using ch by (fastforce simp: changed_in_def)
  have size_small: "c_size c \<le> 2 ^ 64" using block_in_region(4,5) [OF r, of c] rs by simp
  have "sub64 (kh_inuse s) (c_size c) = w64 (chunk_bytes (P @ r' # Q))"
  proof -
    have "kh_inuse s = w64 (chunk_bytes (P @ r # Q))" using wf by (simp add: heap_wf_def)
    moreover have "chunk_bytes (P @ r # Q) = chunk_bytes (P @ r' # Q) + c_size c" by (simp add: rs r'_def)
    ultimately show ?thesis using sub64_w64 [OF size_small] by (simp only:)
  qed
  then have s': "s' = s\<lparr>kh_mem := ?m, kh_inuse := w64 (chunk_bytes (P @ r' # Q))\<rparr>" by (simp add: s'_def)
  have "heap_wf s' (P @ r' # Q)"
    unfolding s' using heap_wf_replace [OF wf r' _ _ ch'] un by (auto simp: r'_def)
  moreover have "kept (kh_mem s) (kh_mem s') (P @ r # Q)"
    using kept_by_header_changes [OF reg sw, of "kh_mem s" ?m "{}"] ch by (simp add: s')
  ultimately show ?thesis by blast
qed

lemma heap_wf_chain:
  assumes "heap_wf s (P @ r # Q)"
  shows "chain (major_ok (kh_mem s)) r_addr 0 P (r_addr r)" "major_ok (kh_mem s) r (last_of r_addr 0 P) (first_of r_addr 0 Q)"
    "chain (major_ok (kh_mem s)) r_addr (r_addr r) Q 0"
  using assms by (auto simp: heap_wf_def)

text \<open>The list of majors without the one between \<open>P\<close> and \<open>Q\<close>.\<close>

definition unlink_major :: "nat \<Rightarrow> nat \<Rightarrow> mem \<Rightarrow> mem" where
  "unlink_major pv nx m =
     (let m = (if pv \<noteq> 0 then upd_major pv (mj_next_update (\<lambda>_. nx)) m else m)
      in if nx \<noteq> 0 then upd_major nx (mj_prev_update (\<lambda>_. pv)) m else m)"

lemma unlink_major_reads:
  assumes "pv \<noteq> 0 \<longrightarrow> nx \<noteq> 0 \<longrightarrow> clear pv nx" "pv < 2 ^ 64" "nx < 2 ^ 64"
  shows "pv \<noteq> 0 \<Longrightarrow> major_at (unlink_major pv nx m) pv = (major_at m pv)\<lparr>mj_next := nx\<rparr>"
    "nx \<noteq> 0 \<Longrightarrow> major_at (unlink_major pv nx m) nx = (major_at m nx)\<lparr>mj_prev := pv\<rparr>"
    "unlink_major pv nx m x \<noteq> m x \<Longrightarrow> (pv \<noteq> 0 \<and> pv \<le> x \<and> x < pv + header) \<or> (nx \<noteq> 0 \<and> nx \<le> x \<and> x < nx + header)"
proof -
  define m1 where "m1 = (if pv \<noteq> 0 then upd_major pv (mj_next_update (\<lambda>_. nx)) m else m)"
  have m': "unlink_major pv nx m = (if nx \<noteq> 0 then upd_major nx (mj_prev_update (\<lambda>_. pv)) m1 else m1)"
    by (simp add: unlink_major_def m1_def)
  have f: "major_fits ((major_at m pv)\<lparr>mj_next := nx\<rparr>)" "major_fits ((major_at m nx)\<lparr>mj_prev := pv\<rparr>)"
    using assms by (simp_all add: fits_update)
  show "pv \<noteq> 0 \<Longrightarrow> major_at (unlink_major pv nx m) pv = (major_at m pv)\<lparr>mj_next := nx\<rparr>"
    using f(1) assms(1) by (auto simp: m' m1_def upd_same header_clear clear_sym)
  show "nx \<noteq> 0 \<Longrightarrow> major_at (unlink_major pv nx m) nx = (major_at m nx)\<lparr>mj_prev := pv\<rparr>"
    using f(2) assms(1) by (auto simp: m' m1_def upd_same header_clear)
  show "(pv \<noteq> 0 \<and> pv \<le> x \<and> x < pv + header) \<or> (nx \<noteq> 0 \<and> nx \<le> x \<and> x < nx + header)" if "unlink_major pv nx m x \<noteq> m x"
    using that by (rule_tac ccontr) (auto simp: m' m1_def upd_outside not_le not_less split: if_splits)
qed

lemma release_major_alt:
  "release_major maj s =
     (let j = major_at (kh_mem s) maj in
      liballoc_free maj (mj_pages j) (s\<lparr>kh_memRoot := (if kh_memRoot s = maj then mj_next j else kh_memRoot s),
        kh_bestBet := (if kh_bestBet s = maj then 0 else kh_bestBet s),
        kh_mem := unlink_major (mj_prev j) (mj_next j) (kh_mem s), kh_allocated := sub64 (kh_allocated s) (mj_size j)\<rparr>))"
  by (simp add: release_major_def unlink_major_def Let_def)

lemma apart_in:
  assumes "sorted_wrt (\<lambda>r r'. apart (r_addr r) (r_bytes r) (r_addr r') (r_bytes r')) rs" "q \<in> set rs" "q' \<in> set rs" "q \<noteq> q'"
  shows "r_end q \<le> r_addr q' \<or> r_end q' \<le> r_addr q"
  using assms by (induction rs) (auto simp: apart_def)

lemma regions_distinct:
  assumes "sorted_wrt (\<lambda>r r'. apart (r_addr r) (r_bytes r) (r_addr r') (r_bytes r')) rs" "\<forall>r \<in> set rs. region_ok r"
  shows "distinct rs"
  using assms
proof (induction rs)
  case (Cons a rs)
  have "a \<notin> set rs"
  proof
    assume "a \<in> set rs"
    then have "apart (r_addr a) (r_bytes a) (r_addr a) (r_bytes a)" using Cons.prems(1) by simp
    then show False using region_bounds(1) [of a] Cons.prems(2) by (simp add: apart_def)
  qed
  then show ?case using Cons by simp
qed simp

lemma chain_without_major:
  assumes wf: "heap_wf s (P @ r # Q)"
  defines "m' \<equiv> unlink_major (last_of r_addr 0 P) (first_of r_addr 0 Q) (kh_mem s)"
  shows "chain (major_ok m') r_addr 0 (P @ Q) 0"
    and "\<And>q x. q \<in> set (P @ Q) \<Longrightarrow> r_addr q + header \<le> x \<Longrightarrow> x < r_end q \<Longrightarrow> m' x = kh_mem s x"
proof -
  let ?m = "kh_mem s" and ?p = "last_of r_addr 0 P" and ?n = "first_of r_addr 0 Q"
  have reg: "\<And>q. q \<in> set (P @ Q) \<Longrightarrow> region_ok q"
    and sw: "sorted_wrt (\<lambda>r r'. apart (r_addr r) (r_bytes r) (r_addr r') (r_bytes r')) (P @ Q)"
    using wf by (auto simp: heap_wf_def sorted_wrt_append)
  have dist: "distinct (P @ Q)" using regions_distinct [OF sw] reg by blast
  have p: "P \<noteq> [] \<Longrightarrow> ?p = r_addr (last P) \<and> last P \<in> set (P @ Q)" "?p \<noteq> 0 \<longleftrightarrow> P \<noteq> []"
    using reg [of "last P"] region_bounds(3) [of "last P"] by (cases "P = []"; auto simp: last_of_def)+
  have n: "Q \<noteq> [] \<Longrightarrow> ?n = r_addr (hd Q) \<and> hd Q \<in> set (P @ Q)" "?n \<noteq> 0 \<longleftrightarrow> Q \<noteq> []"
    using reg [of "hd Q"] region_bounds(3) [of "hd Q"] by (cases Q; auto)+
  have pn: "P \<noteq> [] \<Longrightarrow> Q \<noteq> [] \<Longrightarrow> last P \<noteq> hd Q" using dist last_in_set [of P] hd_in_set [of Q] by (metis IntI distinct_append empty_iff)
  have far: "r_end q + 0 \<le> r_addr q' \<or> r_end q' \<le> r_addr q" "r_addr q + header \<le> r_end q" "r_end q < 2 ^ 64"
    if "q \<in> set (P @ Q)" "q' \<in> set (P @ Q)" "q \<noteq> q'" for q q'
    using apart_in [OF sw that] region_bounds [OF reg [OF that(1)]] by auto
  have addr: "r_addr q < 2 ^ 64" if "q \<in> set (P @ Q)" for q using region_bounds(1,2) [OF reg [OF that]] by linarith
  have b: "?p < 2 ^ 64" using p(1) addr [of "last P"] by (cases "P = []") auto
  have b': "?n < 2 ^ 64" using n(1) addr [of "hd Q"] by (cases "Q = []") auto
  have cl: "?p \<noteq> 0 \<longrightarrow> ?n \<noteq> 0 \<longrightarrow> clear ?p ?n"
    using p n pn far [of "last P" "hd Q"] far [of "hd Q" "last P"] by (auto simp: clear_def)
  note reads = unlink_major_reads [OF cl b b', of ?m, folded m'_def]
  have away: "m' x = ?m x" if q: "q \<in> set (P @ Q)" "r_addr q \<le> x" "x < r_end q"
      "P \<noteq> [] \<longrightarrow> q \<noteq> last P \<or> r_addr q + header \<le> x" "Q \<noteq> [] \<longrightarrow> q \<noteq> hd Q \<or> r_addr q + header \<le> x" for q x
  proof (rule ccontr)
    assume "m' x \<noteq> ?m x"
    from reads(3) [OF this] show False
      using p n q far [of q "last P"] far [of q "hd Q"] region_bounds(1) [OF reg, of "last P"] region_bounds(1) [OF reg, of "hd Q"]
      by (cases "q = last P"; cases "q = hd Q"; auto)
  qed
  show rest: "m' x = ?m x" if "q \<in> set (P @ Q)" "r_addr q + header \<le> x" "x < r_end q" for q x
    using away [of q x] that by simp
  note ch = heap_wf_chain [OF wf]
  have "chain (major_ok m') r_addr 0 P ?n"
  proof (rule chain_relink_last [OF ch(1)])
    show "major_ok m' q u v" if q: "q \<in> set (butlast P)" "major_ok ?m q u v" for q u v
    proof -
      have "q \<in> set (P @ Q)" "q \<noteq> last P" "q \<notin> set Q"
        using q(1) dist in_set_butlastD [OF q(1)] by (cases P rule: rev_cases; auto)+
      moreover from this have "Q \<noteq> [] \<longrightarrow> q \<noteq> hd Q" using hd_in_set [of Q] by metis
      ultimately show ?thesis using away [of q] reg by (intro major_ok_frame [OF q(2)]) auto
    qed
    show "major_ok m' (last P) u ?n" if l: "P \<noteq> []" "major_ok ?m (last P) u (r_addr r)" for u
      using reads(1) p l rest [of "last P"] reg [of "last P"] by (intro major_ok_header [OF l(2)]) (auto simp: major_ok_def)
  qed
  moreover have "chain (major_ok m') r_addr ?p Q 0"
  proof (rule chain_relink_first [OF ch(3)])
    show "major_ok m' q u v" if q: "q \<in> set (tl Q)" "major_ok ?m q u v" for q u v
    proof -
      have "q \<in> set (P @ Q)" "q \<noteq> hd Q" "q \<notin> set P" using q(1) dist by (cases Q; auto)+
      moreover from this have "P \<noteq> [] \<longrightarrow> q \<noteq> last P" using last_in_set [of P] by metis
      ultimately show ?thesis using away [of q] reg by (intro major_ok_frame [OF q(2)]) auto
    qed
    show "major_ok m' (hd Q) ?p v" if h: "Q \<noteq> []" "major_ok ?m (hd Q) (r_addr r) v" for v
      using reads(2) n h rest [of "hd Q"] reg [of "hd Q"] by (intro major_ok_header [OF h(2)]) (auto simp: major_ok_def)
  qed
  ultimately show "chain (major_ok m') r_addr 0 (P @ Q) 0" by simp
qed

definition can_shrink :: "kheap \<Rightarrow> bool" where
  "can_shrink s \<longleftrightarrow> length (vs_ranges (kh_vas s)) + 1 < vs_max_range_count (kh_vas s)"

lemma release_major_ok:
  assumes wf: "heap_wf s (P @ r # Q)" and e: "r_chunks r = []" and sh: "can_shrink s"
  shows "\<exists>s'. release_major (r_addr r) s = Inr s' \<and> heap_wf s' (P @ Q) \<and> kept (kh_mem s) (kh_mem s') (P @ Q)"
proof -
  let ?m = "unlink_major (last_of r_addr 0 P) (first_of r_addr 0 Q) (kh_mem s)"
  have r: "region_ok r" and h: "held (vs_ranges (kh_vas s)) (r_addr r) (r_bytes r)" and vas: "vas_ok heap_limit (kh_vas s)"
    and reg: "\<forall>q \<in> set (P @ Q). region_ok q"
    and sw: "sorted_wrt (\<lambda>r r'. apart (r_addr r) (r_bytes r) (r_addr r') (r_bytes r')) (P @ r # Q)"
    using wf by (auto simp: heap_wf_def)
  have j: "major_at (kh_mem s) (r_addr r) = \<lparr>mj_prev = last_of r_addr 0 P, mj_next = first_of r_addr 0 Q, mj_pages = r_pages r,
      mj_size = r_bytes r, mj_usage = header, mj_first = 0\<rparr>"
    using heap_wf_chain(2) [OF wf] e by (simp add: major_ok_def usage_def)
  have "0 < r_bytes r" "page_size dvd r_addr r" "page_size dvd r_bytes r" "r_end r \<le> heap_limit"
    using r by (auto simp: region_ok_def page_size_def)
  then obtain v where v: "vas_free_range (r_addr r) (r_bytes r) (kh_vas s) = Inr v" "vas_ok heap_limit v"
      "deleted heap_limit (r_addr r) (r_bytes r) (vs_ranges (kh_vas s)) (vs_ranges v)"
    using vas_free_range_ok [OF vas h] sh by (auto simp: can_shrink_def)
  let ?s' = "s\<lparr>kh_memRoot := (if kh_memRoot s = r_addr r then first_of r_addr 0 Q else kh_memRoot s),
      kh_bestBet := (if kh_bestBet s = r_addr r then 0 else kh_bestBet s), kh_mem := ?m,
      kh_allocated := sub64 (kh_allocated s) (r_bytes r), kh_vas := v\<rparr>"
  have rel: "release_major (r_addr r) s = Inr ?s'"
    using v(1) by (simp add: release_major_alt j liballoc_free_def page_size_def Let_def)
  have "sub64 (kh_allocated s) (r_bytes r) = w64 (\<Sum>q\<leftarrow>P @ Q. r_bytes q)"
  proof -
    have "kh_allocated s = w64 (\<Sum>q\<leftarrow>P @ r # Q. r_bytes q)" using wf by (simp add: heap_wf_def)
    moreover have "(\<Sum>q\<leftarrow>P @ r # Q. r_bytes q) = (\<Sum>q\<leftarrow>P @ Q. r_bytes q) + r_bytes r" by simp
    moreover have "r_bytes r \<le> 2 ^ 64" using r by (simp add: region_ok_def)
    ultimately show ?thesis using sub64_w64 by (simp only:)
  qed
  moreover have "\<forall>q \<in> set (P @ Q). held (vs_ranges v) (r_addr q) (r_bytes q)"
  proof
    fix q
    assume q: "q \<in> set (P @ Q)"
    then have "apart (r_addr r) (r_bytes r) (r_addr q) (r_bytes q)" using regions_apart [OF sw, of q] by (auto simp: apart_def)
    moreover have "0 < r_bytes q" using reg q by (auto simp: region_ok_def)
    ultimately show "held (vs_ranges v) (r_addr q) (r_bytes q)" using v(3) wf q by (auto simp: deleted_def heap_wf_def)
  qed
  moreover have "(if kh_memRoot s = r_addr r then first_of r_addr 0 Q else kh_memRoot s) = first_of r_addr 0 (P @ Q)"
  proof (cases P)
    case (Cons q P')
    then have "r_addr q \<noteq> r_addr r" using regions_apart [OF sw, of q] region_bounds(1) [OF r] region_bounds(1) [of q] reg by auto
    then show ?thesis using wf Cons by (simp add: heap_wf_def)
  qed (use wf in \<open>simp add: heap_wf_def\<close>)
  moreover have "sorted_wrt (\<lambda>r r'. apart (r_addr r) (r_bytes r) (r_addr r') (r_bytes r')) (P @ Q)" using sw by (auto simp: sorted_wrt_append)
  ultimately have "heap_wf ?s' (P @ Q)"
    using wf v(2) e reg chain_without_major(1) [OF wf] by (auto simp: heap_wf_def)
  moreover have "kept (kh_mem s) ?m (P @ Q)" using kept_payload [OF reg] chain_without_major(2) [OF wf] by blast
  ultimately show ?thesis using rel by auto
qed

lemma heap_wf_rebet: "heap_wf s rs \<Longrightarrow> r \<in> set rs \<Longrightarrow> heap_wf (rebet (r_addr r) s) rs" "kh_mem (rebet p s) = kh_mem s"
  by (auto simp: rebet_def Let_def heap_wf_bet)

text \<open>The header of a block is found from its pointer.\<close>

lemma block_header:
  assumes wf: "heap_wf s (P @ r # Q)" and rs: "r_chunks r = L @ c # R"
  shows "sub64 (unalign (kh_mem s) (chunk_ptr (c_addr c))) header = c_addr c"
    "minor_at (kh_mem s) (c_addr c) = \<lparr>mi_prev = last_of c_addr 0 L, mi_next = first_of c_addr 0 R, mi_block = r_addr r,
       mi_magic = LIBALLOC_MAGIC, mi_size = c_size c, mi_req_size = c_req c\<rparr>"
    "chunk_ptr (c_addr c) \<noteq> 0"
proof -
  have r: "region_ok r" using wf by (simp add: heap_wf_def)
  have c: "minor_ok (kh_mem s) (r_addr r) c (last_of c_addr 0 L) (first_of c_addr 0 R)"
    using heap_wf_chain(2) [OF wf] rs by (simp add: major_ok_def)
  then show "minor_at (kh_mem s) (c_addr c) = \<lparr>mi_prev = last_of c_addr 0 L, mi_next = first_of c_addr 0 R, mi_block = r_addr r,
      mi_magic = LIBALLOC_MAGIC, mi_size = c_size c, mi_req_size = c_req c\<rparr>" by (simp add: minor_ok_def)
  have a: "c_addr c + header + 32 < 2 ^ 64"
    using chunk_top [OF r, of c] rs by simp
  show "sub64 (unalign (kh_mem s) (chunk_ptr (c_addr c))) header = c_addr c"
    using unalign_tag [OF a] c by (simp add: minor_ok_def tag_ok_def)
  show "chunk_ptr (c_addr c) \<noteq> 0" using chunk_ptr_range(1) [OF a] by simp
qed

definition lost :: "kheap \<Rightarrow> region list \<Rightarrow> nat \<Rightarrow> nat \<Rightarrow> kheap \<Rightarrow> bool" where
  "lost s rs p n s' \<longleftrightarrow> (\<exists>rs'. heap_ok s' rs' \<and> mset (blocks rs) = add_mset (p, n) (mset (blocks rs')) \<and> kept (kh_mem s) (kh_mem s') rs')"

lemma kept_subset: "kept m m' rs \<Longrightarrow> set (blocks rs') \<subseteq> set (blocks rs) \<Longrightarrow> kept m m' rs'"
  unfolding kept_def by blast

lemma kfree_loses:
  assumes ok: "heap_ok s rs" and b: "(p, n) \<in> set (blocks rs)" and sh: "can_shrink s"
  shows "\<exists>s'. kfree p s = Inr s' \<and> lost s rs p n s'"
proof -
  obtain r c where rc: "r \<in> set rs" "c \<in> set (r_chunks r)" "p = chunk_ptr (c_addr c)" "n = c_req c"
    using b unfolding blocks_iff by blast
  obtain P Q where PQ: "rs = P @ r # Q" using rc(1) by (meson split_list)
  obtain L R where LR: "r_chunks r = L @ c # R" using rc(2) by (meson split_list)
  have wf: "heap_wf s (P @ r # Q)" and ne: "\<forall>q \<in> set P \<union> set Q. r_chunks q \<noteq> []" using ok PQ by (auto simp: heap_ok_def)
  let ?r = "r\<lparr>r_chunks := L @ R\<rparr>"
  define s1 where "s1 = s\<lparr>kh_inuse := sub64 (kh_inuse s) (c_size c), kh_mem := unlink_minor (r_addr r) (c_addr c) (kh_mem s)\<rparr>"
  note un = unlink_heap [OF wf LR, folded s1_def]
  have first: "mj_first (major_at (kh_mem s1) (r_addr r)) = first_of c_addr 0 (L @ R)"
    using un heap_wf_chain(2) [of s1 P ?r Q] by (simp add: major_ok_def)
  have kf: "kfree p s = (if mj_first (major_at (kh_mem s1) (r_addr r)) = 0 then release_major (r_addr r) s1 else Inr (rebet (r_addr r) s1))"
    using block_header [OF wf LR] rc(3) by (simp add: kfree_def Let_def s1_def)
  have ms: "mset (blocks rs) = add_mset (p, n) (mset (blocks (P @ ?r # Q)))" by (simp add: PQ LR rc(3,4))
  have sub: "set (blocks (P @ ?r # Q)) \<subseteq> set (blocks rs)" by (auto simp: PQ LR)
  have regr: "region_ok ?r" using un by (simp add: heap_wf_def)
  show ?thesis
  proof (cases "L @ R = []")
    case True
    obtain s' where s': "release_major (r_addr r) s1 = Inr s'" "heap_wf s' (P @ Q)" "kept (kh_mem s1) (kh_mem s') (P @ Q)"
      using release_major_ok [of s1 P ?r Q] un True sh by (auto simp: can_shrink_def s1_def)
    have "kept (kh_mem s) (kh_mem s1) (P @ Q)" using kept_subset [of _ _ "P @ r # Q" "P @ Q"] un by auto
    then have "kept (kh_mem s) (kh_mem s') (P @ Q)" using kept_trans [OF _ s'(3)] by simp
    then show ?thesis using kf first True s' ms ne by (auto simp: lost_def heap_ok_def)
  next
    case False
    then obtain d ds where d: "L @ R = d # ds" by (cases "L @ R") auto
    then have "r_addr r + header \<le> c_addr d" using block_in_region(1) [OF regr, of d] by simp
    then have "first_of c_addr 0 (L @ R) \<noteq> 0" by (simp only: d first_of_simps)
    then have k: "kfree p s = Inr (rebet (r_addr r) s1)" using kf first by simp
    have "heap_ok (rebet (r_addr r) s1) (P @ ?r # Q)"
      using heap_wf_rebet(1) [of s1 "P @ ?r # Q" ?r] un ne False by (auto simp: heap_ok_def)
    moreover have "kept (kh_mem s) (kh_mem (rebet (r_addr r) s1)) (P @ ?r # Q)"
      using kept_subset [of _ _ "P @ r # Q"] un sub PQ by (simp add: heap_wf_rebet(2))
    ultimately show ?thesis using k ms unfolding lost_def by blast
  qed
qed

subsection \<open>Blocks\<close>

definition block_apart :: "nat \<times> nat \<Rightarrow> nat \<times> nat \<Rightarrow> bool" where
  "block_apart b b' \<longleftrightarrow> fst b + snd b < fst b' \<or> fst b' + snd b' < fst b"

lemma block_apart_sym: "block_apart b b' \<Longrightarrow> block_apart b' b"
  by (auto simp: block_apart_def)

lemma chunk_blocks_apart:
  assumes "chunks_ok lo hi cs" "hi < 2 ^ 64"
  shows "sorted_wrt block_apart (map (\<lambda>c. (chunk_ptr (c_addr c), c_req c)) cs)"
  using assms(1)
proof (induction cs arbitrary: lo)
  case (Cons c cs)
  have tail: "chunks_ok (c_addr c + header + c_size c) hi cs" using Cons.prems by simp
  have c: "chunk_ptr (c_addr c) + c_req c < c_addr c + header + c_size c"
    using chunk_ptr_range(2) [of "c_addr c"] Cons.prems chunks_ok_in [OF Cons.prems, of c] assms(2) by auto
  have "block_apart (chunk_ptr (c_addr c), c_req c) (chunk_ptr (c_addr d), c_req d)" if d: "d \<in> set cs" for d
    using c chunks_ok_in [OF tail d] chunk_ptr_range(1) [of "c_addr d"] assms(2) by (auto simp: block_apart_def)
  then show ?case using Cons.IH [OF tail] by auto
qed simp

lemma blocks_apart:
  assumes "heap_wf s rs"
  shows "sorted_wrt block_apart (blocks rs)"
proof -
  have reg: "\<forall>r \<in> set rs. region_ok r" and sw: "sorted_wrt (\<lambda>r r'. apart (r_addr r) (r_bytes r) (r_addr r') (r_bytes r')) rs"
    using assms by (auto simp: heap_wf_def)
  then show ?thesis
  proof (induction rs)
    case (Cons r rs)
    have r: "chunks_ok (r_addr r + header) (r_end r) (r_chunks r)" "r_end r < 2 ^ 64"
      using Cons.prems region_bounds(2) [of r] by (auto simp: region_ok_def)
    have "block_apart (chunk_ptr (c_addr c), c_req c) (q, n)" if c: "c \<in> set (r_chunks r)" and q: "(q, n) \<in> set (blocks rs)" for c q n
    proof -
      obtain r' d where d: "r' \<in> set rs" "d \<in> set (r_chunks r')" "q = chunk_ptr (c_addr d)" "n = c_req d"
        using q unfolding blocks_iff by blast
      then have "r_end r \<le> r_addr r' \<or> r_end r' \<le> r_addr r" using Cons.prems(2) by (auto simp: apart_def)
      then show ?thesis using block_in_region [of r c] block_in_region [of r' d] Cons.prems(1) c d by (auto simp: block_apart_def)
    qed
    then show ?case using Cons.IH Cons.prems chunk_blocks_apart [OF r] by (auto simp: sorted_wrt_append)
  qed simp
qed

lemma block_aligned:
  assumes "heap_wf s rs" "(p, n) \<in> set (blocks rs)"
  shows "16 dvd p \<and> kernel_heap_base < p \<and> p + n < heap_limit"
proof -
  obtain r c where c: "r \<in> set rs" "c \<in> set (r_chunks r)" "p = chunk_ptr (c_addr c)" "n = c_req c"
    using assms(2) unfolding blocks_iff by blast
  then have r: "region_ok r" using assms(1) by (simp add: heap_wf_def)
  note b = block_in_region [OF r c(2)]
  have "16 dvd p" using chunk_ptr_range(3) [OF chunk_top [OF r c(2)]] c(3) by simp
  moreover have "kernel_heap_base \<le> r_addr r" "r_end r \<le> heap_limit" using r by (auto simp: region_ok_def)
  ultimately show ?thesis using b c(3,4) by linarith
qed

text \<open>The heap holds a multiset of blocks.\<close>

definition heap_holds :: "kheap \<Rightarrow> (nat \<times> nat) multiset \<Rightarrow> bool" where
  "heap_holds s bs \<longleftrightarrow> (\<exists>rs. heap_ok s rs \<and> mset (blocks rs) = bs)"

definition unchanged_blocks :: "mem \<Rightarrow> mem \<Rightarrow> (nat \<times> nat) multiset \<Rightarrow> bool" where
  "unchanged_blocks m m' bs \<longleftrightarrow> (\<forall>q n x. (q, n) \<in># bs \<longrightarrow> q \<le> x \<longrightarrow> x < q + n \<longrightarrow> m' x = m x)"

lemma kept_unchanged: "kept m m' rs \<longleftrightarrow> unchanged_blocks m m' (mset (blocks rs))"
  unfolding kept_def unchanged_blocks_def set_mset_mset by blast

lemma heap_holds_apart:
  assumes "heap_holds s (add_mset b bs)" "b' \<in># bs"
  shows "block_apart b b'"
proof -
  obtain rs where rs: "heap_wf s rs" "mset (blocks rs) = add_mset b bs" using assms(1) by (auto simp: heap_holds_def heap_ok_def)
  then obtain xs ys where xs: "blocks rs = xs @ b # ys" by (metis in_set_conv_decomp union_single_eq_member set_mset_mset)
  then have "bs = mset (xs @ ys)" using rs(2) by simp
  then show ?thesis using blocks_apart [OF rs(1)] xs assms(2) by (auto simp: sorted_wrt_append block_apart_sym)
qed

lemma heap_holds_aligned: "heap_holds s bs \<Longrightarrow> (p, n) \<in># bs \<Longrightarrow> 16 dvd p \<and> kernel_heap_base < p \<and> p + n < heap_limit"
  using block_aligned by (auto simp: heap_holds_def heap_ok_def)

text \<open>What clients write into their blocks does not disturb the heap.\<close>

lemma heap_holds_client_writes:
  assumes h: "heap_holds s bs" and w: "\<And>x. m' x \<noteq> kh_mem s x \<Longrightarrow> \<exists>q n. (q, n) \<in># bs \<and> q \<le> x \<and> x < q + n"
  shows "heap_holds (s\<lparr>kh_mem := m'\<rparr>) bs"
proof -
  obtain rs where rs: "heap_ok s rs" "mset (blocks rs) = bs" using h by (auto simp: heap_holds_def)
  have wf: "heap_wf s rs" using rs(1) by (simp add: heap_ok_def)
  have reg: "\<forall>r \<in> set rs. region_ok r" and sw: "sorted_wrt (\<lambda>r r'. apart (r_addr r) (r_bytes r) (r_addr r') (r_bytes r')) rs"
    using wf by (auto simp: heap_wf_def)
  have keep: "m' x = kh_mem s x" if r: "r \<in> set rs" and x: "x \<in> {r_addr r ..< r_addr r + header} \<or> (\<exists>c \<in> set (r_chunks r). c_addr c \<le> x \<and> x < c_addr c + header + 16)" for r x
  proof (rule ccontr)
    assume "m' x \<noteq> kh_mem s x"
    then obtain q n where "(q, n) \<in> set (blocks rs)" "q \<le> x" "x < q + n" using w rs(2) by (metis set_mset_mset)
    then obtain r' d where d: "r' \<in> set rs" "d \<in> set (r_chunks r')" "chunk_ptr (c_addr d) \<le> x" "x < chunk_ptr (c_addr d) + c_req d"
      unfolding blocks_iff by blast
    note bd = block_in_region [OF bspec [OF reg d(1)] d(2)]
    have rr: "r_addr r \<le> x" "x < r_end r"
      using x region_bounds(1) [OF bspec [OF reg r]] block_in_region [OF bspec [OF reg r]] by fastforce+
    have "r' = r" using apart_in [OF sw d(1) r] rr bd d(3,4) by (cases "r' = r") auto
    moreover have "chunks_ok (r_addr r + header) (r_end r) (r_chunks r)" using reg r by (auto simp: region_ok_def)
    ultimately show False
      using x bd d chunks_apart [of "r_addr r + header" "r_end r" "r_chunks r" d] by fastforce
  qed
  have "chain (major_ok m') r_addr 0 rs 0"
  proof (rule chain_mono)
    show "chain (major_ok (kh_mem s)) r_addr 0 rs 0" using wf by (simp add: heap_wf_def)
    show "major_ok m' r u v" if r: "r \<in> set rs" "major_ok (kh_mem s) r u v" for r u v
    proof -
      have "major_at m' (r_addr r) = major_at (kh_mem s) (r_addr r)" using keep [OF r(1)] by (intro header_cong) auto
      moreover have "chain (minor_ok m' (r_addr r)) c_addr 0 (r_chunks r) 0"
      proof (rule chain_mono)
        show "chain (minor_ok (kh_mem s) (r_addr r)) c_addr 0 (r_chunks r) 0" using r(2) by (simp add: major_ok_def)
        show "minor_ok m' (r_addr r) c u v" if c: "c \<in> set (r_chunks r)" "minor_ok (kh_mem s) (r_addr r) c u v" for c u v
        proof (rule minor_ok_frame [OF c(2)])
          show "c_addr c + header + 32 < 2 ^ 64" using chunk_top [OF bspec [OF reg r(1)] c(1)] .
          show "m' x = kh_mem s x" if "c_addr c \<le> x" "x < c_addr c + header + 16" for x using keep [OF r(1), of x] c(1) that by blast
        qed
      qed
      ultimately show ?thesis using r(2) by (simp add: major_ok_def)
    qed
  qed
  then have "heap_ok (s\<lparr>kh_mem := m'\<rparr>) rs" using rs(1) by (simp add: heap_ok_def heap_wf_def)
  then show ?thesis using rs(2) by (auto simp: heap_holds_def)
qed

end
