(* ===== verification/Kheap_Clients.thy ===== *)
theory Kheap_Clients
  imports Kheap_Free
begin

text \<open>
  The kernel heap as its clients see it: the contract of an allocator as a locale, which the heap
  interprets, every sequence of allocating, freeing and writing, and reallocation and zeroed allocation
  on top (\<^verbatim>\<open>krealloc\<close> and \<^verbatim>\<open>kcalloc\<close> of \<^verbatim>\<open>kernel/std/kheap.c\<close>).
\<close>

subsection \<open>The contract\<close>

text \<open>\<open>d\<close> records what clients have stored; \<open>agrees\<close> says that the blocks still hold it.\<close>

definition agrees :: "mem \<Rightarrow> (nat \<times> nat) multiset \<Rightarrow> (nat \<rightharpoonup> u8) \<Rightarrow> bool" where
  "agrees m bs d \<longleftrightarrow> (\<forall>q n x v. (q, n) \<in># bs \<longrightarrow> q \<le> x \<longrightarrow> x < q + n \<longrightarrow> d x = Some v \<longrightarrow> m x = v)"

locale block_allocator =
  fixes holds :: "'s \<Rightarrow> (nat \<times> nat) multiset \<Rightarrow> bool"
    and memory :: "'s \<Rightarrow> mem"
    and alloc :: "nat \<Rightarrow> 's \<Rightarrow> nat \<Rightarrow> 's \<Rightarrow> bool"
    and free :: "nat \<Rightarrow> 's \<Rightarrow> 's \<Rightarrow> bool"
    and store :: "nat \<Rightarrow> u8 \<Rightarrow> 's \<Rightarrow> 's"
  assumes alloc_gains: "holds s bs \<Longrightarrow> alloc n s p s' \<Longrightarrow>
        holds s' (add_mset (p, n) bs) \<and> unchanged_blocks (memory s) (memory s') bs"
    and free_loses: "holds s (add_mset (p, n) bs) \<Longrightarrow> free p s s' \<Longrightarrow> holds s' bs \<and> unchanged_blocks (memory s) (memory s') bs"
    and store_keeps: "holds s bs \<Longrightarrow> (q, n) \<in># bs \<Longrightarrow> q \<le> x \<Longrightarrow> x < q + n \<Longrightarrow>
        holds (store x v s) bs \<and> memory (store x v s) = (memory s)(x := v)"
    and blocks_held_apart: "holds s (add_mset b bs) \<Longrightarrow> b' \<in># bs \<Longrightarrow> block_apart b b'"
begin

lemma alloc_agrees:
  assumes "holds s bs" "agrees (memory s) bs d" "alloc n s p s'"
  shows "agrees (memory s') (add_mset (p, n) bs) (\<lambda>x. if p \<le> x \<and> x < p + n then None else d x)"
  using alloc_gains [OF assms(1,3)] assms(2) unfolding agrees_def unchanged_blocks_def
  by (auto split: if_splits)

lemma free_agrees:
  assumes "holds s (add_mset (p, n) bs)" "agrees (memory s) (add_mset (p, n) bs) d" "free p s s'"
  shows "agrees (memory s') bs d"
  using free_loses [OF assms(1,3)] assms(2) unfolding agrees_def unchanged_blocks_def by simp

lemma store_agrees:
  assumes "holds s bs" "agrees (memory s) bs d" "(q, n) \<in># bs" "q \<le> x" "x < q + n"
  shows "agrees (memory (store x v s)) bs (d(x \<mapsto> v))"
  using store_keeps [OF assms(1,3-5)] assms(2) unfolding agrees_def by (auto split: if_splits)

text \<open>Storing into one block leaves every other one alone, and a new block overlaps none.\<close>

lemma store_elsewhere:
  assumes "holds s (add_mset (p, n) bs)" "p \<le> x" "x < p + n"
  shows "unchanged_blocks (memory s) (memory (store x v s)) bs"
proof -
  have "memory (store x v s) = (memory s)(x := v)" using store_keeps [OF assms(1) _ assms(2,3)] by simp
  then show ?thesis
    using blocks_held_apart [OF assms(1)] assms(2,3) by (fastforce simp: unchanged_blocks_def block_apart_def)
qed

lemma alloc_apart: "holds s bs \<Longrightarrow> alloc n s p s' \<Longrightarrow> b \<in># bs \<Longrightarrow> block_apart (p, n) b"
  using alloc_gains blocks_held_apart by blast

end

subsection \<open>The kernel heap implements it\<close>

text \<open>Requests the theorems are about: below 4 GB, with addresses and a free entry of the table of ranges to grow.\<close>

definition request_ok :: "nat \<Rightarrow> kheap \<Rightarrow> bool" where
  "request_ok req s \<longleftrightarrow> req + 32 + 2 * header + 4095 < 2 ^ 32 \<and> can_grow (req + 32) s"

definition kmalloc_step :: "nat \<Rightarrow> kheap \<Rightarrow> nat \<Rightarrow> kheap \<Rightarrow> bool" where
  "kmalloc_step req s p s' \<longleftrightarrow> request_ok req s \<and> (\<exists>junk. kmalloc junk req s = Some (Inr (p, s')))"

definition kfree_step :: "nat \<Rightarrow> kheap \<Rightarrow> kheap \<Rightarrow> bool" where
  "kfree_step p s s' \<longleftrightarrow> can_shrink s \<and> kfree p s = Inr s'"

definition store_byte :: "nat \<Rightarrow> u8 \<Rightarrow> kheap \<Rightarrow> kheap" where
  "store_byte x v s = s\<lparr>kh_mem := (kh_mem s)(x := v)\<rparr>"

lemma kmalloc_holds:
  assumes h: "heap_holds s bs" and req: "request_ok req s"
  shows "\<exists>p s'. kmalloc junk req s = Some (Inr (p, s')) \<and> p \<noteq> 0 \<and> heap_holds s' (add_mset (p, req) bs)
    \<and> unchanged_blocks (kh_mem s) (kh_mem s') bs \<and> grown s s'"
proof -
  obtain rs where rs: "heap_ok s rs" "mset (blocks rs) = bs" using h by (auto simp: heap_holds_def)
  then show ?thesis
    using kmalloc_served [OF rs(1), of req junk] req
    by (fastforce simp: request_ok_def served_def gained_def heap_holds_def kept_unchanged)
qed

lemma kfree_holds:
  assumes h: "heap_holds s (add_mset (p, n) bs)" and sh: "can_shrink s"
  shows "\<exists>s'. kfree p s = Inr s' \<and> heap_holds s' bs \<and> unchanged_blocks (kh_mem s) (kh_mem s') bs"
proof -
  obtain rs where rs: "heap_ok s rs" "mset (blocks rs) = add_mset (p, n) bs" using h by (auto simp: heap_holds_def)
  then have "(p, n) \<in> set (blocks rs)" by (metis union_single_eq_member set_mset_mset)
  then obtain s' where s': "kfree p s = Inr s'" "lost s rs p n s'" using kfree_loses [OF rs(1) _ sh] by blast
  then obtain rs' where rs': "heap_ok s' rs'" "mset (blocks rs) = add_mset (p, n) (mset (blocks rs'))" "kept (kh_mem s) (kh_mem s') rs'"
    by (auto simp: lost_def)
  then have "mset (blocks rs') = bs" using rs(2) by simp
  then show ?thesis using s'(1) rs' by (auto simp: heap_holds_def kept_unchanged)
qed

interpretation kh: block_allocator heap_holds kh_mem kmalloc_step kfree_step store_byte
proof
  fix s bs n p s'
  assume h: "heap_holds s bs" and "kmalloc_step n s p s'"
  then obtain junk where "request_ok n s" "kmalloc junk n s = Some (Inr (p, s'))" by (auto simp: kmalloc_step_def)
  then show "heap_holds s' (add_mset (p, n) bs) \<and> unchanged_blocks (kh_mem s) (kh_mem s') bs"
    using kmalloc_holds [OF h, of n junk] by auto
next
  fix s p n bs s'
  assume "heap_holds s (add_mset (p, n) bs)" "kfree_step p s s'"
  then show "heap_holds s' bs \<and> unchanged_blocks (kh_mem s) (kh_mem s') bs"
    using kfree_holds [of s p n bs] by (auto simp: kfree_step_def)
next
  fix s bs q n x v
  assume "heap_holds s bs" "(q, n) \<in># bs" "q \<le> x" "x < q + n"
  then show "heap_holds (store_byte x v s) bs \<and> kh_mem (store_byte x v s) = (kh_mem s)(x := v)"
    unfolding store_byte_def by (auto intro!: heap_holds_client_writes split: if_splits) blast
next
  fix s b bs b'
  assume "heap_holds s (add_mset b bs)" "b' \<in># bs"
  then show "block_apart b b'" by (rule heap_holds_apart)
qed

subsection \<open>Every sequence of uses\<close>

text \<open>
  Clients allocate, free a block they hold, and store bytes into blocks they hold. The third component
  is what they have stored; a new block starts without known contents.
\<close>

type_synonym heap_use = "kheap \<times> (nat \<times> nat) multiset \<times> (nat \<rightharpoonup> u8)"

inductive heap_client :: "heap_use \<Rightarrow> heap_use \<Rightarrow> bool" where
  client_malloc: "kmalloc_step req s p s' \<Longrightarrow>
     heap_client (s, bs, d) (s', add_mset (p, req) bs, \<lambda>x. if p \<le> x \<and> x < p + req then None else d x)"
| client_free: "kfree_step p s s' \<Longrightarrow> heap_client (s, add_mset (p, n) bs, d) (s', bs, d)"
| client_store: "(q, n) \<in># bs \<Longrightarrow> q \<le> x \<Longrightarrow> x < q + n \<Longrightarrow> heap_client (s, bs, d) (store_byte x v s, bs, d(x \<mapsto> v))"

inductive_cases heap_client_elim: "heap_client (s, bs, d) u"

definition kheap_init :: "vas_state \<Rightarrow> mem \<Rightarrow> kheap" where
  "kheap_init v m = \<lparr>kh_mem = m, kh_memRoot = 0, kh_bestBet = 0, kh_allocated = 0, kh_inuse = 0, kh_warningCount = 0,
     kh_errorCount = 0, kh_possibleOverruns = 0, kh_vas = v\<rparr>"

lemma kheap_init_holds: "vas_ok heap_limit v \<Longrightarrow> heap_holds (kheap_init v m) {#}"
  by (auto simp: heap_holds_def heap_ok_def heap_wf_def kheap_init_def w64_def intro!: exI [of _ "[]"])

definition use_ok :: "heap_use \<Rightarrow> bool" where
  "use_ok u \<longleftrightarrow> heap_holds (fst u) (fst (snd u)) \<and> agrees (kh_mem (fst u)) (fst (snd u)) (snd (snd u))"

lemma heap_client_keeps: "heap_client u u' \<Longrightarrow> use_ok u \<Longrightarrow> use_ok u'"
proof (induction rule: heap_client.induct)
  case (client_malloc req s p s' bs d)
  then show ?case using kh.alloc_gains [of s bs req p s'] kh.alloc_agrees [of s bs d req p s'] by (simp add: use_ok_def)
next
  case (client_free p s s' n bs d)
  then show ?case using kh.free_loses [of s p n bs s'] kh.free_agrees [of s p n bs d s'] by (simp add: use_ok_def)
next
  case (client_store q n bs x s d v)
  then show ?case using kh.store_keeps [of s bs q n x v] kh.store_agrees [of s bs d q n x v] by (simp add: use_ok_def)
qed

lemma heap_clients_keep: "heap_client\<^sup>*\<^sup>* u u' \<Longrightarrow> use_ok u \<Longrightarrow> use_ok u'"
  by (induction rule: rtranclp_induct) (auto intro: heap_client_keeps)

subsection \<open>Reallocation\<close>

lemma write32_copied: "write32 d (read32 m s) m = copied d s 4 m"
proof -
  let ?w = "read32 m s"
  have "ucast ?w = m s" "ucast (drop_bit 8 ?w) = m (s + 1)" "ucast (drop_bit 16 ?w) = m (s + 2)" "ucast (drop_bit 24 ?w) = m (s + 3)"
    by (rule bit_word_eqI; auto simp: read32_def bit_simps dest: bit_imp_le_length)+
  then show ?thesis by (auto simp: write32_def copied_def fun_eq_iff less_Suc_eq numeral_eq_Suc)
qed

lemma liballoc_memcpy_copied:
  assumes "4 \<le> n" "q + n \<le> p \<or> p + n \<le> q"
  shows "liballoc_memcpy q p n m = copied q p n m"
proof -
  have safe: "upward_safe q p (4 + (n - 4))" "upward_safe (q + 4) (p + 4) (n - 4)" using assms by (auto simp: upward_safe_def)
  show ?thesis
    using assms(1) copied_append [OF safe(1), of m] rep_movsb_copied [OF safe(2)] by (simp add: liballoc_memcpy_def write32_copied)
qed

lemma held_block_header:
  assumes "heap_holds s (add_mset (p, n) bs)"
  shows "mi_magic (minor_at (kh_mem s) (sub64 (unalign (kh_mem s) p) header)) = LIBALLOC_MAGIC"
    "mi_req_size (minor_at (kh_mem s) (sub64 (unalign (kh_mem s) p) header)) = n" "p \<noteq> 0"
proof -
  obtain rs where rs: "heap_wf s rs" "mset (blocks rs) = add_mset (p, n) bs" using assms by (auto simp: heap_holds_def heap_ok_def)
  then have "(p, n) \<in> set (blocks rs)" by (metis union_single_eq_member set_mset_mset)
  then obtain r c where c: "r \<in> set rs" "c \<in> set (r_chunks r)" "p = chunk_ptr (c_addr c)" "n = c_req c" unfolding blocks_iff by blast
  obtain P Q L R where "rs = P @ r # Q" and LR: "r_chunks r = L @ c # R" using c(1,2) by (meson split_list)
  then have wf: "heap_wf s (P @ r # Q)" using rs(1) by simp
  note h = block_header [OF wf LR]
  show "mi_magic (minor_at (kh_mem s) (sub64 (unalign (kh_mem s) p) header)) = LIBALLOC_MAGIC"
    "mi_req_size (minor_at (kh_mem s) (sub64 (unalign (kh_mem s) p) header)) = n" "p \<noteq> 0"
    using h c(3,4) by simp_all
qed

lemma krealloc_grows:
  assumes h: "heap_holds s (add_mset (p, n) bs)" and n: "4 \<le> n" "n < sz" and req: "request_ok sz s"
    and room: "length (vs_ranges (kh_vas s)) + 2 < vs_max_range_count (kh_vas s)"
  shows "\<exists>q s'. krealloc junk p sz s = Some (Inr (q, s')) \<and> heap_holds s' (add_mset (q, sz) bs)
    \<and> unchanged_blocks (kh_mem s) (kh_mem s') bs \<and> (\<forall>i < n. kh_mem s' (q + i) = kh_mem s (p + i))"
proof -
  note hd = held_block_header [OF h]
  obtain q s1 where q: "kmalloc junk sz s = Some (Inr (q, s1))" "q \<noteq> 0" "heap_holds s1 (add_mset (q, sz) (add_mset (p, n) bs))"
      "unchanged_blocks (kh_mem s) (kh_mem s1) (add_mset (p, n) bs)" "grown s s1"
    using kmalloc_holds [OF h req] by blast
  let ?m = "liballoc_memcpy q p n (kh_mem s1)"
  let ?s2 = "s1\<lparr>kh_mem := ?m\<rparr>"
  have "block_apart (q, sz) (p, n)" using heap_holds_apart [OF q(3)] by simp
  then have cp: "?m = copied q p n (kh_mem s1)" using n by (intro liballoc_memcpy_copied) (auto simp: block_apart_def)
  have "heap_holds ?s2 (add_mset (q, sz) (add_mset (p, n) bs))"
  proof (rule heap_holds_client_writes [OF q(3)])
    fix x
    assume "?m x \<noteq> kh_mem s1 x"
    then have "q \<le> x \<and> x < q + sz" using n by (auto simp: cp copied_def split: if_splits)
    then show "\<exists>q' n'. (q', n') \<in># add_mset (q, sz) (add_mset (p, n) bs) \<and> q' \<le> x \<and> x < q' + n'" by auto
  qed
  then have h2: "heap_holds ?s2 (add_mset (p, n) (add_mset (q, sz) bs))" by (simp add: add_mset_commute)
  have "can_shrink ?s2" using q(5) room by (simp add: can_shrink_def grown_def)
  then obtain s' where s': "kfree p ?s2 = Inr s'" "heap_holds s' (add_mset (q, sz) bs)" "unchanged_blocks ?m (kh_mem s') (add_mset (q, sz) bs)"
    using kfree_holds [OF h2] by auto
  have "krealloc junk p sz s = Some (Inr (q, s'))"
    using hd n q(1,2) s'(1) by (simp add: krealloc_def Let_def)
  moreover have "unchanged_blocks (kh_mem s) (kh_mem s') bs"
    unfolding unchanged_blocks_def
  proof (intro allI impI)
    fix b k x
    assume b: "(b, k) \<in># bs" "b \<le> x" "x < b + k"
    have "block_apart (q, sz) (b, k)" using heap_holds_apart [OF q(3), of "(b, k)"] b(1) by simp
    then have "?m x = kh_mem s1 x" using b n by (auto simp: cp copied_def block_apart_def)
    then show "kh_mem s' x = kh_mem s x" using s'(3) q(4) b by (auto simp: unchanged_blocks_def)
  qed
  moreover have "kh_mem s' (q + i) = kh_mem s (p + i)" if "i < n" for i
  proof -
    have "kh_mem s' (q + i) = ?m (q + i)" using s'(3) that n by (auto simp: unchanged_blocks_def)
    also have "\<dots> = kh_mem s1 (p + i)" using that by (simp add: cp copied_def)
    also have "\<dots> = kh_mem s (p + i)" using q(4) that by (auto simp: unchanged_blocks_def)
    finally show ?thesis .
  qed
  ultimately show ?thesis using s'(2) by blast
qed

lemma shrink_chunk:
  assumes r: "region_ok r" and ok: "major_ok m r pv nx" and rs: "r_chunks r = L @ c # R" and sz: "sz \<le> c_req c"
  defines "m' \<equiv> upd_minor (c_addr c) (mi_req_size_update (\<lambda>_. w32 sz)) m" and "r' \<equiv> r\<lparr>r_chunks := L @ c\<lparr>c_req := sz\<rparr> # R\<rparr>"
  shows "region_ok r' \<and> major_ok m' r' pv nx \<and> changed_in m m' (headers r)"
proof -
  let ?A = "r_addr r" and ?c = "c\<lparr>c_req := sz\<rparr>"
  have co: "chunks_ok (?A + header) (r_end r) (L @ c # R)" and small: "r_end r < 2 ^ 64" "r_bytes r < 2 ^ 32"
    using r rs heap_limit_less by (auto simp: region_ok_def)
  note c = chunks_ok_in [OF co, of c]
  have "chunks_ok (?A + header) (r_end r) (L @ ?c # R)" using co sz by (auto simp: chunks_ok_append)
  then have r': "region_ok r'" using r by (simp add: region_ok_def r'_def)
  have k: "minor_ok m ?A c (last_of c_addr 0 L) (first_of c_addr 0 R)" and ch: "chain (minor_ok m ?A) c_addr 0 L (c_addr c)"
      "chain (minor_ok m ?A) c_addr (c_addr c) R 0"
    using ok by (auto simp: major_ok_def rs)
  have off: "m' x = m x" if "x < c_addr c \<or> c_addr c + header \<le> x" for x using that by (simp add: m'_def upd_outside)
  have sz32: "w32 sz = sz" "sz < 2 ^ 32" using c sz small by (auto simp: w32_def)
  have "minor_fits ((minor_at m (c_addr c))\<lparr>mi_req_size := sz\<rparr>)" using header_fits(2) [of m "c_addr c"] sz32 by (simp add: minor_fits_def)
  then have "minor_at m' (c_addr c) = (minor_at m (c_addr c))\<lparr>mi_req_size := sz\<rparr>" by (simp add: m'_def upd_same sz32)
  moreover have "tag_ok m' c" using k off tag_in [of c] chunk_top [OF r, of c] rs by (auto simp: minor_ok_def tag_ok_def)
  ultimately have k': "minor_ok m' ?A ?c (last_of c_addr 0 L) (first_of c_addr 0 R)" using k by (simp add: minor_ok_def tag_ok_def)
  have still: "minor_ok m' ?A d u v" if d: "d \<in> set L \<or> d \<in> set R" "minor_ok m ?A d u v" for d u v
  proof (rule minor_ok_frame [OF d(2)])
    show "c_addr d + header + 32 < 2 ^ 64" using chunk_top [OF r, of d] d(1) rs by auto
    have "c_addr d + header + 32 \<le> c_addr c \<or> c_addr c + header \<le> c_addr d"
      using d(1) co chunks_ok_in [of "?A + header" "chunk_end (?A + header) L" L d] chunks_ok_in [of "c_addr c + header + c_size c" "r_end r" R d]
      by (auto simp: chunks_ok_append)
    then show "m' x = m x" if "c_addr d \<le> x" "x < c_addr d + header + 16" for x using that by (intro off) auto
  qed
  have "major_at m' ?A = major_at m ?A" unfolding m'_def using c by (intro header_apart) auto
  moreover have "chain (minor_ok m' ?A) c_addr 0 (L @ ?c # R) 0"
    using chain_mono [OF ch(1), of "minor_ok m' ?A"] chain_mono [OF ch(2), of "minor_ok m' ?A"] still k' by simp
  ultimately have "major_ok m' r' pv nx" using ok by (simp add: major_ok_def r'_def rs usage_def)
  moreover have "changed_in m m' (headers r)"
    unfolding changed_in_def
  proof (intro allI impI)
    fix x
    assume "m' x \<noteq> m x"
    then have "c_addr c \<le> x \<and> x < c_addr c + header" using off [of x] by (meson not_less)
    then show "x \<in> headers r" by (auto simp: headers_def rs)
  qed
  ultimately show ?thesis using r' by blast
qed

lemma krealloc_shrinks:
  assumes h: "heap_holds s (add_mset (p, n) bs)" and sz: "0 < sz" "sz \<le> n"
  shows "\<exists>s'. krealloc junk p sz s = Some (Inr (p, s')) \<and> heap_holds s' (add_mset (p, sz) bs)
    \<and> unchanged_blocks (kh_mem s) (kh_mem s') (add_mset (p, n) bs)"
proof -
  obtain rs where rs: "heap_ok s rs" "mset (blocks rs) = add_mset (p, n) bs" using h by (auto simp: heap_holds_def)
  then have "(p, n) \<in> set (blocks rs)" by (metis union_single_eq_member set_mset_mset)
  then obtain r c where c: "r \<in> set rs" "c \<in> set (r_chunks r)" "p = chunk_ptr (c_addr c)" "n = c_req c" unfolding blocks_iff by blast
  obtain P Q L R where PQ: "rs = P @ r # Q" and LR: "r_chunks r = L @ c # R" using c(1,2) by (meson split_list)
  have wf: "heap_wf s (P @ r # Q)" using rs(1) PQ by (simp add: heap_ok_def)
  have r: "region_ok r" and reg: "\<forall>q \<in> set (P @ r # Q). region_ok q"
    and sw: "sorted_wrt (\<lambda>r r'. apart (r_addr r) (r_bytes r) (r_addr r') (r_bytes r')) (P @ r # Q)"
    using wf by (auto simp: heap_wf_def)
  let ?m = "upd_minor (c_addr c) (mi_req_size_update (\<lambda>_. w32 sz)) (kh_mem s)" and ?r = "r\<lparr>r_chunks := L @ c\<lparr>c_req := sz\<rparr> # R\<rparr>"
  note sh = shrink_chunk [OF r _ LR, of "kh_mem s" _ _ sz]
  have sz': "sz \<le> c_req c" using sz c(4) by simp
  have ch: "changed_in (kh_mem s) ?m (headers r)" and r': "region_ok ?r" using sh [OF heap_wf_chain(2) [OF wf] sz'] by auto
  have "headers r \<subseteq> {r_addr r ..< r_end r}"
    using block_in_region [OF r] region_bounds(1) [OF r] by (fastforce simp: headers_def)
  then have ch': "changed_in (kh_mem s) ?m {r_addr r ..< r_end r}" using ch by (fastforce simp: changed_in_def)
  have "heap_wf (s\<lparr>kh_mem := ?m, kh_inuse := w64 (chunk_bytes (P @ ?r # Q))\<rparr>) (P @ ?r # Q)"
    using heap_wf_replace [OF wf r' _ _ ch'] sh [OF _ sz'] by simp
  moreover have "w64 (chunk_bytes (P @ ?r # Q)) = kh_inuse s" using wf by (simp add: heap_wf_def LR)
  ultimately have "heap_ok (s\<lparr>kh_mem := ?m\<rparr>) (P @ ?r # Q)" using rs(1) PQ by (auto simp: heap_ok_def)
  moreover have "mset (blocks (P @ ?r # Q)) = add_mset (p, sz) bs" using rs(2) by (simp add: PQ LR c(3,4))
  ultimately have "heap_holds (s\<lparr>kh_mem := ?m\<rparr>) (add_mset (p, sz) bs)" unfolding heap_holds_def by blast
  moreover have "unchanged_blocks (kh_mem s) ?m (add_mset (p, n) bs)"
    using kept_by_header_changes [OF reg sw, of "kh_mem s" ?m "{}"] ch rs(2) PQ by (simp add: kept_unchanged)
  moreover have "krealloc junk p sz s = Some (Inr (p, s\<lparr>kh_mem := ?m\<rparr>))"
    using block_header [OF wf LR] c(3,4) sz by (simp add: krealloc_def Let_def)
  ultimately show ?thesis by auto
qed

text \<open>A block of fewer than four bytes is not copied: the new block keeps what the allocator left in it.\<close>

lemma krealloc_loses_short_contents:
  assumes h: "heap_holds s (add_mset (p, n) bs)" and n: "n < 4" "n < sz"
    and m: "kmalloc junk sz s = Some (Inr (q, s1))"
  shows "krealloc junk p sz s = Some (ebind (kfree p s1) (\<lambda>s. Inr (q, s)))"
  using held_block_header [OF h] n m by (simp add: krealloc_def Let_def liballoc_memcpy_def)

subsection \<open>Zeroed memory\<close>

lemma set_bytes_apart: "x < p \<or> p + n \<le> x \<Longrightarrow> set_bytes n p v m x = m x"
  by (auto simp: set_bytes_filled filled_def)

lemma kcalloc_zeroes:
  assumes h: "heap_holds s bs" and sz: "0 < nobj * sz" "nobj * sz < 2 ^ 31" and req: "request_ok (nobj * sz) s"
  shows "\<exists>p s'. kcalloc junk nobj sz s = Some (Inr (p, s')) \<and> heap_holds s' (add_mset (p, nobj * sz) bs)
    \<and> unchanged_blocks (kh_mem s) (kh_mem s') bs \<and> (\<forall>i < nobj * sz. kh_mem s' (p + i) = 0)"
proof -
  define n where "n = nobj * sz"
  have n: "0 < n" "n < 2 ^ 31" using sz by (simp_all add: n_def)
  then have n': "w64 n = n" "c_int n = int n" by (simp_all add: c_int_small)
  have "int n mod 2 ^ 64 = int n" using n by (intro mod_pos_pos_trivial) auto
  then have n64: "nat (c_int n mod 2 ^ 64) = n" by (simp only: n' nat_int)
  obtain p s1 where p: "kmalloc junk n s = Some (Inr (p, s1))" "p \<noteq> 0" "heap_holds s1 (add_mset (p, n) bs)"
      "unchanged_blocks (kh_mem s) (kh_mem s1) bs"
    using kmalloc_holds [OF h, of n junk] req by (auto simp: n_def)
  let ?m = "set_bytes n p 0 (kh_mem s1)"
  have "kcalloc junk nobj sz s = Some (Inr (p, s1\<lparr>kh_mem := ?m\<rparr>))"
    using n p(1,2) unfolding kcalloc_def n_def [symmetric] n'(1) n64 by simp
  moreover have "heap_holds (s1\<lparr>kh_mem := ?m\<rparr>) (add_mset (p, n) bs)"
  proof (rule heap_holds_client_writes [OF p(3)])
    fix x
    assume "?m x \<noteq> kh_mem s1 x"
    then have "p \<le> x \<and> x < p + n" using set_bytes_apart [of x p n 0 "kh_mem s1"] by (meson not_less)
    then show "\<exists>q k. (q, k) \<in># add_mset (p, n) bs \<and> q \<le> x \<and> x < q + k" by auto
  qed
  moreover have "unchanged_blocks (kh_mem s) ?m bs"
    unfolding unchanged_blocks_def
  proof (intro allI impI)
    fix b k x
    assume b: "(b, k) \<in># bs" "b \<le> x" "x < b + k"
    have "block_apart (p, n) (b, k)" using heap_holds_apart [OF p(3), of "(b, k)"] b(1) by simp
    then have "?m x = kh_mem s1 x" using b by (intro set_bytes_apart) (auto simp: block_apart_def)
    then show "?m x = kh_mem s x" using p(4) b by (auto simp: unchanged_blocks_def)
  qed
  moreover have "?m (p + i) = 0" if "i < n" for i using that by (simp add: set_bytes_filled filled_def)
  ultimately show ?thesis by (auto simp: n_def)
qed

text \<open>
  A product that does not fit a positive \<^verbatim>\<open>int\<close> is sign-extended: the request either fails, and the filling loop
  writes through a null pointer, or the loop never ends.
\<close>

lemma kcalloc_negative_size:
  assumes "c_int (w64 (nobj * sz)) < 0" "kcalloc junk nobj sz s = Some (Inr (p, s'))"
  shows False
proof -
  let ?r = "nat (c_int (w64 (nobj * sz)) mod 2 ^ 64)"
  have "- (2 ^ 31) \<le> c_int (w64 (nobj * sz))" by (simp add: c_int_def Let_def)
  then have "(c_int (w64 (nobj * sz)) + 2 ^ 64) mod 2 ^ 64 = c_int (w64 (nobj * sz)) + 2 ^ 64"
    using assms(1) by (intro mod_pos_pos_trivial) auto
  then have "c_int (w64 (nobj * sz)) mod 2 ^ 64 = c_int (w64 (nobj * sz)) + 2 ^ 64" by (simp only: mod_add_self2)
  then have "2 ^ 32 \<le> ?r" "?r \<noteq> 0" using assms(1) \<open>- (2 ^ 31) \<le> c_int (w64 (nobj * sz))\<close> by auto
  then show False using assms(2) by (auto simp: kcalloc_def Let_def split: Option.bind_splits sum.splits prod.splits if_splits)
qed

subsection \<open>A heap in use\<close>

lemma pages_for_examples: "pages_for 132 = 16" "pages_for 232 = 16"
  by (simp_all add: pages_for_def w32_def l_pageSize_def l_pageCount_def Let_def)

text \<open>The heap of a kernel that has just set up its address space.\<close>

lemma first_request:
  assumes v: "vmm_init_ranges = Inr v"
  shows "vas_ok heap_limit v" "heap_holds (kheap_init v m) {#}" "request_ok 100 (kheap_init v m)"
proof -
  show ok: "vas_ok heap_limit v" using vmm_init_ranges_ok [OF v] .
  show "heap_holds (kheap_init v m) {#}" by (rule kheap_init_holds [OF ok])
  have "length (vs_ranges v) = 3" "vs_max_range_count v = 255" using v by (auto simp: vmm_init_ranges_value)
  then show "request_ok 100 (kheap_init v m)"
    using first_heap_address [OF v]
    by (simp add: request_ok_def can_grow_def kheap_init_def pages_for_examples kernel_heap_base_def kernel_image_base_def)
qed

lemma second_request:
  assumes v: "vmm_init_ranges = Inr v"
  shows "\<exists>p s1. kmalloc junk 100 (kheap_init v m) = Some (Inr (p, s1)) \<and> heap_holds s1 {#(p, 100)#} \<and> request_ok 200 s1
    \<and> length (vs_ranges (kh_vas s1)) + 2 < vs_max_range_count (kh_vas s1) \<and> can_shrink s1"
proof -
  let ?s = "kheap_init v m" and ?rs = "[\<lparr>vr_start = 0, vr_size = 0x1000000000\<rparr>, \<lparr>vr_start = 0xFFFF800000000000, vr_size = 0x1000000000\<rparr>,
      \<lparr>vr_start = kernel_heap_base, vr_size = 65536\<rparr>, \<lparr>vr_start = kernel_image_base, vr_size = 0x80000000\<rparr>]"
  have wf: "heap_wf ?s []" using vmm_init_ranges_ok [OF v] by (simp add: heap_wf_def kheap_init_def w64_def)
  have grow: "can_grow (100 + 32) ?s" using first_request(3) [OF v] by (simp add: request_ok_def)
  obtain p s1 b s0 where p: "kmalloc junk 100 ?s = Some (Inr (p, s1))" "allocate_new_page junk (100 + 32) ?s = Inr (b, s0)"
      "gained ?s [] p 100 s1" "kh_vas s1 = kh_vas s0"
    using kmalloc_first [OF wf _ grow, of junk] by auto
  have "kh_vas s0 = v\<lparr>vs_ranges := ?rs\<rparr>"
    using p(2) first_heap_range [OF v] pages_for_examples
    by (auto simp: allocate_new_page_def liballoc_alloc_def kheap_init_def w32_def Let_def page_size_def split: if_splits)
  then have vs: "kh_vas s1 = v\<lparr>vs_ranges := ?rs\<rparr>" "vs_max_range_count v = 255" using p(4) v by (auto simp: vmm_init_ranges_value)
  have pass: "select_pass 65536 ?rs (kernel_heap_base, False) = (kernel_heap_base + 65536, True)"
      "select_pass 65536 ?rs (kernel_heap_base + 65536, False) = (kernel_heap_base + 65536, False)"
    by (simp_all add: range_end_def w64_def kernel_heap_base_def kernel_image_base_def)
  have "select_from 65536 ?rs kernel_heap_base = kernel_heap_base + 65536"
    by (subst select_from.simps, simp only: pass prod.case bool.case, subst select_from.simps, simp only: pass prod.case bool.case)
  then have "request_ok 200 s1"
    by (simp add: request_ok_def can_grow_def vs select_virtual_address_def pages_for_examples kernel_heap_base_def kernel_image_base_def)
  moreover have "heap_holds s1 {#(p, 100)#}" using p(3) by (auto simp: gained_def heap_holds_def)
  ultimately show ?thesis using p(1) vs by (auto simp: can_shrink_def)
qed

subsection \<open>What the heap promises\<close>

text \<open>
  C38. A request below 4 GB on a well-formed heap that can still grow is always answered: the search over
  the regions ends, and returns the 16-byte aligned, non-null address of a block that overlaps no block
  in use, while every block keeps its contents.
\<close>

theorem kmalloc_returns_fresh_block:
  assumes "heap_holds s bs" "request_ok req s"
  shows "\<exists>p s'. kmalloc junk req s = Some (Inr (p, s')) \<and> p \<noteq> 0 \<and> 16 dvd p \<and> heap_holds s' (add_mset (p, req) bs)
    \<and> (\<forall>b. b \<in># bs \<longrightarrow> block_apart (p, req) b) \<and> unchanged_blocks (kh_mem s) (kh_mem s') bs"
proof -
  obtain p s' where p: "kmalloc junk req s = Some (Inr (p, s'))" "p \<noteq> 0" "heap_holds s' (add_mset (p, req) bs)"
      "unchanged_blocks (kh_mem s) (kh_mem s') bs"
    using kmalloc_holds [OF assms] by blast
  then show ?thesis using heap_holds_apart [OF p(3)] heap_holds_aligned [OF p(3), of p req] by auto
qed

theorem kmalloc_returns_fresh_block_witness:
  "\<exists>v p s'. vmm_init_ranges = Inr v \<and> kmalloc (\<lambda>_. 7) 100 (kheap_init v (\<lambda>_. 0)) = Some (Inr (p, s')) \<and> 16 dvd p \<and> heap_holds s' {#(p, 100)#}"
proof -
  obtain v where v: "vmm_init_ranges = Inr v" by (simp add: vmm_init_ranges_value)
  show ?thesis
    using v kmalloc_returns_fresh_block [OF first_request(2,3) [OF v], of "\<lambda>_. 7" "\<lambda>_. 0"] by blast
qed

text \<open>
  C39. Freeing a block of the heap succeeds, takes exactly this block out, gives the pages of a region that
  became empty back to the address space, and keeps the contents of every other block.
\<close>

theorem kfree_releases_exactly_block:
  assumes "heap_holds s (add_mset (p, n) bs)" "can_shrink s"
  shows "\<exists>s'. kfree p s = Inr s' \<and> heap_holds s' bs \<and> unchanged_blocks (kh_mem s) (kh_mem s') bs"
  using kfree_holds [OF assms] .

theorem kfree_releases_exactly_block_witness:
  "\<exists>v p s1 s'. vmm_init_ranges = Inr v \<and> kmalloc (\<lambda>_. 7) 100 (kheap_init v (\<lambda>_. 0)) = Some (Inr (p, s1)) \<and> kfree p s1 = Inr s' \<and> heap_holds s' {#}"
proof -
  obtain v where v: "vmm_init_ranges = Inr v" by (simp add: vmm_init_ranges_value)
  obtain p s1 where p: "kmalloc (\<lambda>_. 7) 100 (kheap_init v (\<lambda>_. 0)) = Some (Inr (p, s1))" "heap_holds s1 {#(p, 100)#}" "can_shrink s1"
    using second_request [OF v] by blast
  then show ?thesis using v kfree_releases_exactly_block [OF p(2,3)] by blast
qed

text \<open>
  C40. Reallocating a block to a size that is smaller, or larger when it has at least four bytes, returns a
  block of the new size whose first bytes are those of the old one; the old block is gone and
  every other block keeps its contents.
\<close>

theorem krealloc_keeps_contents:
  assumes "heap_holds s (add_mset (p, n) bs)" "0 < sz"
    and "n < sz \<Longrightarrow> 4 \<le> n \<and> request_ok sz s \<and> length (vs_ranges (kh_vas s)) + 2 < vs_max_range_count (kh_vas s)"
  shows "\<exists>q s'. krealloc junk p sz s = Some (Inr (q, s')) \<and> heap_holds s' (add_mset (q, sz) bs)
    \<and> unchanged_blocks (kh_mem s) (kh_mem s') bs \<and> (\<forall>i. i < n \<and> i < sz \<longrightarrow> kh_mem s' (q + i) = kh_mem s (p + i))"
proof (cases "n < sz")
  case True
  then show ?thesis using krealloc_grows [OF assms(1), of sz junk] assms(3) by fastforce
next
  case False
  then obtain s' where s': "krealloc junk p sz s = Some (Inr (p, s'))" "heap_holds s' (add_mset (p, sz) bs)"
      "unchanged_blocks (kh_mem s) (kh_mem s') (add_mset (p, n) bs)"
    using krealloc_shrinks [OF assms(1,2)] by fastforce
  then show ?thesis by (auto simp: unchanged_blocks_def)
qed

theorem krealloc_keeps_contents_witness:
  "\<exists>v p s1 q s'. vmm_init_ranges = Inr v \<and> kmalloc (\<lambda>_. 7) 100 (kheap_init v (\<lambda>_. 0)) = Some (Inr (p, s1))
     \<and> krealloc (\<lambda>_. 9) p 200 s1 = Some (Inr (q, s')) \<and> heap_holds s' {#(q, 200)#} \<and> kh_mem s' (q + 99) = kh_mem s1 (p + 99)"
proof -
  obtain v where v: "vmm_init_ranges = Inr v" by (simp add: vmm_init_ranges_value)
  obtain p s1 where p: "kmalloc (\<lambda>_. 7) 100 (kheap_init v (\<lambda>_. 0)) = Some (Inr (p, s1))" "heap_holds s1 {#(p, 100)#}"
      "request_ok 200 s1" "length (vs_ranges (kh_vas s1)) + 2 < vs_max_range_count (kh_vas s1)"
    using second_request [OF v] by blast
  obtain q s' where q: "krealloc (\<lambda>_. 9) p 200 s1 = Some (Inr (q, s'))" "heap_holds s' {#(q, 200)#}"
      "\<forall>i. i < 100 \<and> i < 200 \<longrightarrow> kh_mem s' (q + i) = kh_mem s1 (p + i)"
    using krealloc_keeps_contents [OF p(2), of 200 "\<lambda>_. 9"] p(3,4) by auto
  have "kh_mem s' (q + 99) = kh_mem s1 (p + 99)" using q(3) by simp
  then show ?thesis using v p(1) q(1,2) by blast
qed

text \<open>
  C37. Starting from the empty heap, after any sequence of allocations, frees and stores of its clients the
  heap holds exactly the blocks they have not freed; every block is aligned to 16 bytes and lies in the
  kernel's heap area, no two blocks overlap, and every byte stored in a block that is still held reads back.
\<close>

theorem heap_clients_never_interfere:
  assumes "vas_ok heap_limit v" "heap_client\<^sup>*\<^sup>* (kheap_init v m, {#}, Map.empty) (s, bs, d)"
  shows "heap_holds s bs \<and> (\<forall>p n. (p, n) \<in># bs \<longrightarrow> 16 dvd p \<and> kernel_heap_base < p \<and> p + n < heap_limit)
    \<and> (\<forall>b b' bs'. bs = add_mset b (add_mset b' bs') \<longrightarrow> block_apart b b')
    \<and> (\<forall>p n x v. (p, n) \<in># bs \<longrightarrow> p \<le> x \<longrightarrow> x < p + n \<longrightarrow> d x = Some v \<longrightarrow> kh_mem s x = v)"
proof -
  have ok: "use_ok (s, bs, d)"
    using heap_clients_keep [OF assms(2)] kheap_init_holds [OF assms(1)] by (simp add: use_ok_def agrees_def)
  then have "\<And>b b' bs'. bs = add_mset b (add_mset b' bs') \<Longrightarrow> block_apart b b'"
    using heap_holds_apart by (auto simp: use_ok_def)
  then show ?thesis using ok heap_holds_aligned [of s bs] by (auto simp: use_ok_def agrees_def)
qed

theorem heap_clients_never_interfere_witness:
  "\<exists>v s p. vmm_init_ranges = Inr v \<and> heap_client\<^sup>*\<^sup>* (kheap_init v (\<lambda>_. 0), {#}, Map.empty) (s, {#(p, 100)#}, Map.empty(p \<mapsto> 5)) \<and> kh_mem s p = 5"
proof -
  obtain v where v: "vmm_init_ranges = Inr v" by (simp add: vmm_init_ranges_value)
  obtain p s1 where p: "kmalloc (\<lambda>_. 7) 100 (kheap_init v (\<lambda>_. 0)) = Some (Inr (p, s1))" using second_request [OF v] by blast
  then have "kmalloc_step 100 (kheap_init v (\<lambda>_. 0)) p s1" using first_request(3) [OF v] by (auto simp: kmalloc_step_def)
  then have 1: "heap_client (kheap_init v (\<lambda>_. 0), {#}, Map.empty) (s1, {#(p, 100)#}, Map.empty)"
    using client_malloc [of 100 "kheap_init v (\<lambda>_. 0)" p s1 "{#}" Map.empty] by simp
  have 2: "heap_client (s1, {#(p, 100)#}, Map.empty) (store_byte p 5 s1, {#(p, 100)#}, Map.empty(p \<mapsto> 5))"
    by (rule client_store [of p 100]) auto
  have run: "heap_client\<^sup>*\<^sup>* (kheap_init v (\<lambda>_. 0), {#}, Map.empty) (store_byte p 5 s1, {#(p, 100)#}, Map.empty(p \<mapsto> 5))"
    using 1 2 by (meson converse_rtranclp_into_rtranclp rtranclp.rtrancl_refl)
  have "kh_mem (store_byte p 5 s1) p = 5"
    using heap_clients_never_interfere [OF first_request(1) [OF v] run] by simp
  then show ?thesis using v run by blast
qed

end
