(* ===== verification/Spec2Isabelle.thy ===== *)
theory Spec2Isabelle
  imports Prelude Array_M Spinlock Tasks Mlfq Tasking Bytes Amc Amc_Core Frame_Bitmap C_Memory Hash_Map C_List
    Net_Checksum Net_Core Net_Arp Net_Tcp Net_Stream Net_Dns Net_Receive Fat Fat_Files Vfs Fat_Mount
    Agx_Rect Awm_Windows Adi Vas_Ranges Sbrk Kheap Kheap_Regions Kheap_Malloc Kheap_Free Kheap_Clients
begin

text \<open>
  A verification library for axle, a microkernel-style operating system written mostly in C.

  \<^bold>\<open>The program.\<close> The kernel schedules tasks on several CPUs (\<^verbatim>\<open>kernel/kernel/multitasking\<close>), passes
  messages between services (\<^verbatim>\<open>kernel/kernel/util/amc\<close>), protects shared data with spinlocks
  (\<^verbatim>\<open>kernel/kernel/util/spinlock\<close>), keeps track of frames (\<^verbatim>\<open>kernel/kernel/address_space_bitmap.c\<close>) and of the ranges of address
  spaces, has a heap of its own (\<^verbatim>\<open>kernel/std/kheap.c\<close>) and has
  its own container and memory routines (\<^verbatim>\<open>kernel/std\<close>). Drivers and services are ordinary processes that
  talk to each other and to the kernel's core service through messages; the largest of them written in C
  is the network service (\<^verbatim>\<open>programs/subprojects/net\<close>), which implements Ethernet, ARP, IPv4, UDP, DNS and
  TCP, and the file manager (\<^verbatim>\<open>programs/subprojects/file_manager\<close>) keeps a tree of file-system nodes over a
  ramdisk and a FAT volume; the window manager (\<^verbatim>\<open>programs/subprojects/awm\<close>) keeps the windows of all programs in front-to-back
  order and computes what of each is visible. The scheduler keeps its run queues in the kernel arrays; task switching selects a task with the
  scheduler and swaps stacks; delivering a message unblocks its receiver; a task that ends is taken off
  the scheduler, unregistered as a service and reaped; the network service keeps its tables and waiting
  requests in userspace arrays and calls itself upwards and downwards through its layers; the file manager
  answers requests that name a path, walks its node tree, and changes the volume sector by sector through
  messages to the disk driver.

  \<^bold>\<open>Conventions.\<close> They are stated in \<open>Prelude\<close>: a routine that can panic, fail an assertion, deadlock on a
  lock it holds or access memory it must not returns \<open>kerr + 'a\<close>; unsigned integers are words of their
  width; state is passed explicitly in records. What a routine prints is left out.

  \<^bold>\<open>Theories, the code they model, and what they show.\<close>
  \<^item> \<open>Array_M\<close>: the kernel array with its lock (\<^verbatim>\<open>std/array_m.c\<close>) and the userspace array
    (\<^verbatim>\<open>libutils/array.c\<close>). The locale \<open>bounded_seq\<close> states what a client may rely on; both arrays interpret
    it. A removal from a full array reads past the allocation.
  \<^item> \<open>Spinlock\<close>: \<^verbatim>\<open>spinlock.c\<close> as atomic actions of any number of CPUs; mutual exclusion and the interrupt
    flag discipline are invariants of every reachable state.
  \<^item> \<open>Tasks\<close>, \<open>Mlfq\<close>: the scheduler \<^verbatim>\<open>mlfq.c\<close> over the arrays, refining abstract queues (locale \<open>task_scheduler\<close>
    and its interpretation); choice of the highest-priority runnable task, charging and demotion, boost,
    and conservation of tasks along every sequence of operations.
  \<^item> \<open>Tasking\<close>: \<^verbatim>\<open>task_small.c\<close> and the context switch on several CPUs; a step relation that interleaves the single
    stores of their switches, by which no task is held by two CPUs as long as they switch through the scheduler;
    a preempted task resumes with its stack and the registers the switch saves, but not with its \<^verbatim>\<open>r12\<close> to
    \<^verbatim>\<open>r15\<close>; a spawned task enters its entry point.
  \<^item> \<open>Sbrk\<close>: the program break of \<^verbatim>\<open>task_small.c\<close> over the table of ranges and the memory; raising the break maps exactly the
    pages needed and zeroes the new bytes, and lowering it raises it instead.
  \<^item> \<open>Bytes\<close>: structs in byte buffers, with their round trips.
  \<^item> \<open>Amc\<close>, \<open>Amc_Core\<close>: \<^verbatim>\<open>amc.c\<close>, the Rust inbox it calls, and the core service's commands
    (\<^verbatim>\<open>core_commands.c\<close>), the end of a task and the reaper. Routing, order of messages of one source, pending
    messages, sleeping and waking, teardown; and the deadlock and the lost wake-up of the code. The locale
    \<open>mailbox\<close> states the contract of an inbox.
  \<^item> \<open>Adi\<close>: the driver interface \<^verbatim>\<open>adi.c\<close> on top of tasks and messages; an interrupt wakes the driver that waits for
    it, and interrupt 127 lies behind the table of drivers.
  \<^item> \<open>Vas_Ranges\<close>: the table of ranges of an address space (\<^verbatim>\<open>vmm.c.x86_64.arch_specific\<close>); a new range never
    overlaps another one and can be given back, except that the search overlooks the kernel image.
  \<^item> \<open>Kheap\<close>, \<open>Kheap_Regions\<close>, \<open>Kheap_Malloc\<close>, \<open>Kheap_Free\<close>, \<open>Kheap_Clients\<close>: the kernel heap (\<^verbatim>\<open>std/kheap.c\<close>) on a memory of
    bytes, with the headers of its regions and blocks in that memory and its pages from the table of ranges.
    \<open>Kheap\<close> has every entry point; \<open>Kheap_Regions\<close> reads the linked headers as a list of regions with their chunks
    and states the invariant \<open>heap_ok\<close>; \<open>Kheap_Malloc\<close> shows that the search over the regions ends and adds one chunk,
    \<open>Kheap_Free\<close> that a free removes one and returns an empty region; \<open>Kheap_Clients\<close> states the contract of
    an allocator (locale \<open>block_allocator\<close>), interprets it for the heap, and concludes that clients never
    disturb each other's blocks. \<^verbatim>\<open>krealloc\<close> loses the contents of a block of fewer than four bytes, and
    \<^verbatim>\<open>kcalloc\<close> of 2 GB or more writes through a null pointer or never returns.
  \<^item> \<open>Frame_Bitmap\<close>: \<^verbatim>\<open>address_space_bitmap.c\<close> and \<^verbatim>\<open>address_space.c\<close>; the bitmap implements a set of frames
    (locale \<open>frame_update\<close>).
  \<^item> \<open>C_Memory\<close>, \<open>Hash_Map\<close>, \<open>C_List\<close>: \<^verbatim>\<open>std/memory.c\<close>, the two hash maps and the linked list; copying and
    filling against reference definitions, first-value semantics of the maps (locale \<open>first_value_table\<close>),
    and the list as a sequence over an explicit heap.
  \<^item> \<open>Net_Checksum\<close>: both Internet checksums; a message with its checksum verifies by RFC 1071.
  \<^item> \<open>Net_Core\<close>, \<open>Net_Arp\<close>: the state of the network service, its lists of waiting requests
    (\<^verbatim>\<open>callback.c\<close>, locale \<open>callback_list\<close>, interpreted for ARP, TCP and DNS), sending, and ARP: a reply
    updates the address map and answers exactly the requests that waited.
  \<^item> \<open>Net_Tcp\<close>, \<open>Net_Stream\<close>: \<^verbatim>\<open>tcp.c\<close>; what is sent is well formed, and under any loss, duplication and
    reordering of segments, always cut at the same places, a client that waits for the answer to each read receives a prefix
    of the peer's stream; two reads waiting for one segment stop the service.
  \<^item> \<open>Net_Dns\<close>, \<open>Net_Receive\<close>: \<^verbatim>\<open>dns.c\<close>, the receiving half of the stack and the dispatcher \<^verbatim>\<open>net.c\<close>; a query
    parses back, a self-referential name never returns, and a segment sent by one host reaches the TCP layer
    of another unchanged.
  \<^item> \<open>Fat\<close>, \<open>Fat_Files\<close>: the FAT file system (\<^verbatim>\<open>file_manager/fat.c\<close>, \<^verbatim>\<open>ata.c\<close>) over a disk of sectors. Allocation
    takes the lowest free entry; a created file owns a chain of sectors that holds its contents and reads
    back; a partial read returns the slice asked for through a coherent sector cache; links are truncated
    to 16 bits, the last entries of the table name sectors beyond the disk, and an empty file is lost.
  \<^item> \<open>Vfs\<close>: the node tree (\<^verbatim>\<open>vfs.c\<close>, \<^verbatim>\<open>util.c\<close>, \<^verbatim>\<open>initrd.c\<close>) and the requests of \<^verbatim>\<open>file_manager.c\<close> that use it; the
    tree stays well formed, the path computed for a node finds that node again, a create-directory request
    enters the directory in the tree and on the volume, and a read request is answered with the contents for a file of the
    ramdisk, but without data for a file of the volume.
  \<^item> \<open>Agx_Rect\<close>, \<open>Awm_Windows\<close>: the rectangle algebra of \<^verbatim>\<open>libagx/lib/rect.c\<close> and \<^verbatim>\<open>awm/utils.c\<close>, and the window manager's
    lists of views with their visible regions (\<^verbatim>\<open>awm/window.c\<close>, \<^verbatim>\<open>composite.c\<close>, \<^verbatim>\<open>awm.c\<close>). A rectangle is a set of pixels;
    the drawable rectangles of every view tile exactly what the views in front of it leave visible, through any
    sequence of raising, dragging, resizing and closing windows and of adding and removing desktop views, and a click reaches
    the window that is seen. Opening a window is not covered: its first frame is empty, which hides what lies behind. The
    difference of rectangles that do not overlap loses pixels, and the intersection may be too large.
  \<^item> \<open>Fat_Mount\<close>: mounting a volume parses its directories; a file created before survives a remount.

  \<^bold>\<open>Fuel and bounds.\<close> Two recursions take fuel. The dispatcher of the core service can call itself through a
  request it sends to itself; its theorems state the fuel that is enough. The DNS name parser follows
  pointers without a bound: the round trip holds for every fuel above the number of labels, and the
  divergence is shown for every fuel. The frame range loop, the walk to the end of a list, the walks along
  a chain of sectors (\<open>fat_read_loop\<close>, \<open>fat_partial_loop\<close>), the walk from a node to the root
  (\<open>path_components_up\<close>) and the parser of nested directories (\<open>parse_fat_directories\<close>) are partial
  functions whose termination is part of their theorems: a chain or a tree with a cycle would never end. So
  are the walks of \<^verbatim>\<open>kmalloc\<close> over the regions and their blocks (\<open>maj_loop\<close>, \<open>min_scan\<close>), which end on every well-formed heap.
  All other loops are total functions with a measure. Size limits in hypotheses are those of the code: 64 slots of an array, 256 entries of a table,
  128 entries of a run queue, 16-bit packet lengths, 32-bit sequence numbers that do not wrap, 256
  drawable rectangles of a view, coordinates below 2 ^ 30. Requests to the heap are below 4 GB with their
  headers, the table of ranges has a free entry, and the heap stays below the kernel image.

  \<^bold>\<open>Not modelled.\<close> Boot, segmentation, interrupt entry and page tables are assembly or hardware set-up whose
  effect enters as arguments (the result of mapping memory, the interrupt flag); device drivers
  are port I/O; callers of the allocators get fresh addresses, as the theorems on the kernel heap show them to
  be, and the userspace allocator belongs to the C library; pixels, fonts, animations and
  widgets (libagx drawing, libgui, the graphical programs) draw on a screen; doom, yxml and the AES and SHA code are third-party;
  the Rust programs are outside the C sources (the inbox of the kernel excepted). The user
  interface and the start-up of the file manager are not modelled, nor are creating windows and the frames of animations;
  \<^verbatim>\<open>snprintf\<close> onto one of its own arguments, as \<^verbatim>\<open>util.c\<close> has it, is modelled by its effect in the C library the
  code is linked with. The string routines, the ring buffer and the formatted output of the kernel, the ELF
  loader and the system call table are not modelled: they copy bytes or pass arguments on, and nothing that is
  modelled rests on more than their results.
\<close>

end
